(* ===== verification/KV_Prelude.thy ===== *)
theory KV_Prelude
  imports Main "HOL-Library.Word"
begin

text \<open>
  Shared vocabulary of the development: names for the machine integers the C++ code uses,
  byte buffers with the two memory operations the code performs on them (reading a slice,
  overwriting a slice in place), and the generic list and word lemmas that the component
  theories rely on.  Machine integers that are hashed, checksummed or stored on a device
  are words of their width; sizes, indices and page numbers held in memory are \<open>nat\<close>
  with the wrap-around written out by \<open>trunc32\<close> and \<open>trunc64\<close> wherever the code's
  arithmetic could wrap.
\<close>

unbundle bit_operations_syntax

section \<open>Machine integers and byte buffers\<close>

type_synonym u8 = "8 word"
type_synonym u16 = "16 word"
type_synonym u32 = "32 word"
type_synonym u64 = "64 word"
type_synonym bytes = "u8 list"

definition trunc32 :: "nat \<Rightarrow> nat" where
  "trunc32 n = n mod 2 ^ 32"

definition trunc64 :: "nat \<Rightarrow> nat" where
  "trunc64 n = n mod 2 ^ 64"

text \<open>\<open>bslice off n b\<close> is the memory \<open>b[off .. off+n)\<close>; \<open>overwrite b off d\<close> is
  \<open>memcpy(b + off, d, |d|)\<close> on a buffer large enough to hold it.\<close>

definition bslice :: "nat \<Rightarrow> nat \<Rightarrow> 'a list \<Rightarrow> 'a list" where
  "bslice off n b = take n (drop off b)"

definition overwrite :: "'a list \<Rightarrow> nat \<Rightarrow> 'a list \<Rightarrow> 'a list" where
  "overwrite b off d = take off b @ d @ drop (off + length d) b"

definition zeros :: "nat \<Rightarrow> bytes" where
  "zeros n = replicate n 0"

named_theorems buf_simps \<open>slices and in-place writes of byte buffers\<close>

section \<open>Lemmas on buffers\<close>

lemma trunc32_id [simp]: "n < 2 ^ 32 \<Longrightarrow> trunc32 n = n"
  by (simp add: trunc32_def)

lemma trunc64_id [simp]: "n < 2 ^ 64 \<Longrightarrow> trunc64 n = n"
  by (simp add: trunc64_def)

lemma length_zeros [simp]: "length (zeros n) = n"
  by (simp add: zeros_def)

lemma zeros_0 [simp]: "zeros 0 = []"
  by (simp add: zeros_def)

lemma nth_zeros [simp]: "i < n \<Longrightarrow> zeros n ! i = 0"
  by (simp add: zeros_def)

lemma take_zeros [simp]: "take k (zeros n) = zeros (min k n)"
  by (simp add: zeros_def min_def)

lemma drop_zeros [simp]: "drop k (zeros n) = zeros (n - k)"
  by (simp add: zeros_def)

lemma zeros_append: "zeros m @ zeros n = zeros (m + n)"
  by (simp add: zeros_def replicate_add)

lemma length_bslice [simp]: "length (bslice off n b) = min n (length b - off)"
  by (simp add: bslice_def)

lemma bslice_0 [buf_simps]: "bslice 0 n b = take n b"
  by (simp add: bslice_def)

lemma bslice_all [simp]: "length b \<le> n \<Longrightarrow> bslice 0 n b = b"
  by (simp add: bslice_def)

lemma bslice_append_left:
  "off + n \<le> length a \<Longrightarrow> bslice off n (a @ b) = bslice off n a"
  by (simp add: bslice_def)

lemma bslice_append_right:
  "length a \<le> off \<Longrightarrow> bslice off n (a @ b) = bslice (off - length a) n b"
  by (simp add: bslice_def)

lemma bslice_slice: "i + m \<le> n \<Longrightarrow> bslice i m (bslice off n b) = bslice (off + i) m b"
  by (simp add: bslice_def take_drop min_def add.commute add.left_commute)

lemma length_overwrite [simp]:
  "off + length d \<le> length b \<Longrightarrow> length (overwrite b off d) = length b"
  by (simp add: overwrite_def)

lemma overwrite_nil [simp]: "overwrite b off [] = b"
  by (simp add: overwrite_def)

lemma bslice_overwrite_same [buf_simps]:
  "off + length d \<le> length b \<Longrightarrow> bslice off (length d) (overwrite b off d) = d"
  by (simp add: bslice_def overwrite_def)

lemma bslice_overwrite_before [buf_simps]:
  "i + n \<le> off \<Longrightarrow> off \<le> length b \<Longrightarrow> bslice i n (overwrite b off d) = bslice i n b"
  by (simp add: bslice_def overwrite_def take_drop min_def)

lemma bslice_overwrite_after [buf_simps]:
  assumes "off + length d \<le> i" and "off + length d \<le> length b"
  shows "bslice i n (overwrite b off d) = bslice i n b"
  using assms by (simp add: bslice_def overwrite_def)

lemma nth_overwrite:
  assumes "off + length d \<le> length b" and "i < length b"
  shows "overwrite b off d ! i =
    (if off \<le> i \<and> i < off + length d then d ! (i - off) else b ! i)"
  using assms by (auto simp: overwrite_def nth_append min_def)

lemma overwrite_append_left:
  "off + length d \<le> length a \<Longrightarrow> overwrite (a @ b) off d = overwrite a off d @ b"
  by (simp add: overwrite_def)

lemma overwrite_overwrite_adjacent:
  assumes "off + length d + length e \<le> length b"
  shows "overwrite (overwrite b off d) (off + length d) e = overwrite b off (d @ e)"
  using assms by (cases d) (simp_all add: overwrite_def min_def ac_simps)

lemma bslice_split: "bslice off (m + n) b = bslice off m b @ bslice (off + m) n b"
  by (simp add: bslice_def take_add add.commute)

lemma list_update_append_mid [simp]: "(a @ x # b)[length a := y] = a @ y # b"
  by (induction a) auto

section \<open>Lemmas on words\<close>

lemma word_xor_left_cancel [simp]:
  fixes x a b :: "'a::len word"
  shows "x XOR a = x XOR b \<longleftrightarrow> a = b"
proof
  assume "x XOR a = x XOR b"
  then have "x XOR (x XOR a) = x XOR (x XOR b)" by simp
  then show "a = b" by (simp add: xor.assoc [symmetric])
qed simp

lemma word_xor_right_cancel [simp]:
  fixes x a b :: "'a::len word"
  shows "a XOR x = b XOR x \<longleftrightarrow> a = b"
  by (metis word_xor_left_cancel xor.commute)

lemma unat_width:
  "unat (a :: u8) < 256" "unat (b :: u16) < 65536" "unat (c :: u32) < 4294967296"
  "unat (d :: u64) < 18446744073709551616"
  by (rule order_less_le_trans, rule unsigned_less, simp)+

lemma unat_ucast_up [simp]:
  "unat (ucast (a :: u8) :: u32) = unat a" "unat (ucast (a :: u8) :: u64) = unat a"
  "unat (ucast (b :: u16) :: u32) = unat b" "unat (ucast (b :: u16) :: u64) = unat b"
  "unat (ucast (c :: u32) :: u64) = unat c"
  using unat_width(1) [of a] unat_width(2) [of b] unat_width(3) [of c]
  by (simp_all add: unsigned_ucast_eq take_bit_nat_eq_self)

lemma unat_and_255: "unat (x AND 0xFF :: u32) < 256"
proof -
  have "x AND 0xFF \<le> 0xFF" by (rule word_and_le1)
  then have "unat (x AND 0xFF) \<le> unat (0xFF :: u32)" by (simp add: word_le_nat_alt)
  then show ?thesis by simp
qed

lemma unat_of_nat_u32 [simp]: "n < 2 ^ 32 \<Longrightarrow> unat (of_nat n :: u32) = n"
  and unat_of_nat_u64 [simp]: "n < 2 ^ 64 \<Longrightarrow> unat (of_nat n :: u64) = n"
  by (simp_all add: unat_of_nat take_bit_nat_eq_self)

end
