(* ===== verification/KV_Common.thy ===== *)
theory KV_Common
  imports KV_Prelude
begin

text \<open>
  The constants of \<open>include/kvtier.h\<close> and the integer helpers of \<open>src/common.hpp\<close>:
  alignment, little-endian loads and stores, minimum and maximum.  Return codes are
  integers as in the source, where \<open>KV_EINVAL\<close> and its siblings are negative and the
  functions return their negation.
\<close>

section \<open>Constants\<close>

definition KV_TOKENS_PER_GROUP :: nat where "KV_TOKENS_PER_GROUP = 32"
definition KV_PAGE_SIZE :: nat where "KV_PAGE_SIZE = 4096"
definition KV_CHUNK_HDR_SIZE :: nat where "KV_CHUNK_HDR_SIZE = 64"
definition KV_WATERMARK_INTERVAL :: nat where "KV_WATERMARK_INTERVAL = 16"
definition KV_BATCH_MIN_BYTES :: nat where "KV_BATCH_MIN_BYTES = 256 * 1024"
definition KV_STRIPE_UNIT :: nat where "KV_STRIPE_UNIT = 256 * 1024"
definition KV_REPLICA_CNT :: nat where "KV_REPLICA_CNT = 2"
definition KV_MAX_LAYERS_CAP :: nat where "KV_MAX_LAYERS_CAP = 256"
definition KV_STRIPE_THRESHOLD :: nat where "KV_STRIPE_THRESHOLD = 1024 * 1024"
definition KV_MAX_STRIPE_PARTS :: nat where "KV_MAX_STRIPE_PARTS = 1024"

definition KV_SB_MAGIC :: u32 where "KV_SB_MAGIC = 0x3143564B"
definition KV_RG_MAGIC :: u32 where "KV_RG_MAGIC = 0x4752564B"
definition KV_CK_MAGIC :: u32 where "KV_CK_MAGIC = 0x4B43564B"
definition KV_CP_MAGIC :: u32 where "KV_CP_MAGIC = 0x504B435B"

definition KV_RG_FREE :: u8 where "KV_RG_FREE = 0"
definition KV_RG_OPEN :: u8 where "KV_RG_OPEN = 1"
definition KV_RG_FROZEN :: u8 where "KV_RG_FROZEN = 2"
definition KV_RG_CLEANING :: u8 where "KV_RG_CLEANING = 3"

definition KV_CHUNK_F_REPLICA :: u32 where "KV_CHUNK_F_REPLICA = 1"
definition KV_CHUNK_F_STRIPE :: u32 where "KV_CHUNK_F_STRIPE = 2"
definition KV_CHUNK_F_HOT :: u32 where "KV_CHUNK_F_HOT = 4"

definition KV_JOP_PUT :: u8 where "KV_JOP_PUT = 1"
definition KV_JOP_DEL :: u8 where "KV_JOP_DEL = 2"
definition KV_JOP_TRIM :: u8 where "KV_JOP_TRIM = 3"

definition KV_INVALID_DEV :: u32 where "KV_INVALID_DEV = 0xFFFFFFFF"

definition KV_EOK :: int where "KV_EOK = 0"
definition KV_ENOMEM :: int where "KV_ENOMEM = -1"
definition KV_EEXIST :: int where "KV_EEXIST = -2"
definition KV_ENOENT :: int where "KV_ENOENT = -3"
definition KV_EBUSY :: int where "KV_EBUSY = -4"
definition KV_EREAD :: int where "KV_EREAD = -5"
definition KV_EWRITE :: int where "KV_EWRITE = -6"
definition KV_ECRC :: int where "KV_ECRC = -7"
definition KV_EFULL :: int where "KV_EFULL = -8"
definition KV_EIO :: int where "KV_EIO = -9"
definition KV_ETIMEDOUT :: int where "KV_ETIMEDOUT = -10"
definition KV_EINVAL :: int where "KV_EINVAL = -11"
definition KV_EVICTED :: int where "KV_EVICTED = -12"

lemmas kv_sizes = KV_TOKENS_PER_GROUP_def KV_PAGE_SIZE_def KV_CHUNK_HDR_SIZE_def
  KV_WATERMARK_INTERVAL_def KV_BATCH_MIN_BYTES_def KV_STRIPE_UNIT_def KV_REPLICA_CNT_def
  KV_MAX_LAYERS_CAP_def KV_STRIPE_THRESHOLD_def KV_MAX_STRIPE_PARTS_def

lemmas kv_errs = KV_EOK_def KV_ENOMEM_def KV_EEXIST_def KV_ENOENT_def KV_EBUSY_def
  KV_EREAD_def KV_EWRITE_def KV_ECRC_def KV_EFULL_def KV_EIO_def KV_ETIMEDOUT_def
  KV_EINVAL_def KV_EVICTED_def

lemmas kv_flags = KV_CHUNK_F_REPLICA_def KV_CHUNK_F_STRIPE_def KV_CHUNK_F_HOT_def
  KV_JOP_PUT_def KV_JOP_DEL_def KV_JOP_TRIM_def KV_INVALID_DEV_def
  KV_RG_FREE_def KV_RG_OPEN_def KV_RG_FROZEN_def KV_RG_CLEANING_def

lemmas kv_magics = KV_SB_MAGIC_def KV_RG_MAGIC_def KV_CK_MAGIC_def KV_CP_MAGIC_def

section \<open>Alignment and little-endian access\<close>

definition align_up :: "u64 \<Rightarrow> u64 \<Rightarrow> u64" where
  "align_up v a = (v + (a - 1)) AND NOT (a - 1)"

definition page_align :: "u64 \<Rightarrow> u64" where
  "page_align v = align_up v (of_nat KV_PAGE_SIZE)"

definition min_of :: "'a::ord \<Rightarrow> 'a \<Rightarrow> 'a" where
  "min_of a b = (if a < b then a else b)"

definition max_of :: "'a::ord \<Rightarrow> 'a \<Rightarrow> 'a" where
  "max_of a b = (if a > b then a else b)"

definition pow2 :: "u64 \<Rightarrow> bool" where
  "pow2 x \<longleftrightarrow> x \<noteq> 0 \<and> x AND (x - 1) = 0"

definition le16 :: "bytes \<Rightarrow> u16" where
  "le16 b = ucast (b ! 0) OR push_bit 8 (ucast (b ! 1))"

definition le32 :: "bytes \<Rightarrow> u32" where
  "le32 b = ucast (b ! 0) OR push_bit 8 (ucast (b ! 1)) OR
     push_bit 16 (ucast (b ! 2)) OR push_bit 24 (ucast (b ! 3))"

definition le64 :: "bytes \<Rightarrow> u64" where
  "le64 b = ucast (le32 b) OR push_bit 32 (ucast (le32 (drop 4 b)))"

definition put_le16 :: "u16 \<Rightarrow> bytes" where
  "put_le16 v = [ucast v, ucast (drop_bit 8 v)]"

definition put_le32 :: "u32 \<Rightarrow> bytes" where
  "put_le32 v = [ucast v, ucast (drop_bit 8 v), ucast (drop_bit 16 v), ucast (drop_bit 24 v)]"

definition put_le64 :: "u64 \<Rightarrow> bytes" where
  "put_le64 v = put_le32 (ucast v) @ put_le32 (ucast (drop_bit 32 v))"

section \<open>Lemmas\<close>

lemma length_put_le [simp]:
  "length (put_le16 a) = 2" "length (put_le32 b) = 4" "length (put_le64 c) = 8"
  by (simp_all add: put_le16_def put_le32_def put_le64_def)

lemma le16_put_le16 [simp]: "le16 (put_le16 v @ rest) = v"
  unfolding le16_def put_le16_def
  by (rule bit_word_eqI) (auto simp: bit_simps)

lemma le32_put_le32 [simp]: "le32 (put_le32 v @ rest) = v"
proof -
  have "bit (le32 (put_le32 v @ rest)) n = bit v n" if "n < 32" for n
  proof -
    consider "n < 8" | "8 \<le> n" "n < 16" | "16 \<le> n" "n < 24" | "24 \<le> n"
      by linarith
    then show ?thesis
      using that by cases (auto simp: le32_def put_le32_def bit_simps)
  qed
  then show ?thesis by (intro bit_word_eqI) simp
qed

lemma le64_put_le64 [simp]: "le64 (put_le64 v @ rest) = v"
proof -
  have "drop 4 (put_le64 v @ rest) = put_le32 (ucast (drop_bit 32 v)) @ rest"
    by (simp add: put_le64_def)
  then have "le64 (put_le64 v @ rest) =
      ucast (ucast v :: u32) OR push_bit 32 (ucast (ucast (drop_bit 32 v) :: u32))"
    by (simp add: le64_def) (simp add: put_le64_def)
  also have "\<dots> = v"
    by (rule bit_word_eqI) (auto simp: bit_simps)
  finally show ?thesis .
qed

lemmas le_put_exact [simp] =
  le16_put_le16 [where rest = "[]", simplified] le32_put_le32 [where rest = "[]", simplified]
  le64_put_le64 [where rest = "[]", simplified]

lemma put_le_inject [simp]:
  "put_le16 a = put_le16 b \<longleftrightarrow> a = b" "put_le32 c = put_le32 d \<longleftrightarrow> c = d"
  "put_le64 e = put_le64 f \<longleftrightarrow> e = f"
  by (metis le_put_exact(1)) (metis le_put_exact(2), metis le_put_exact(3))

lemma min_of_eq_min [simp]: "min_of (a::'a::linorder) b = min a b"
  by (auto simp: min_of_def min_def)

lemma max_of_eq_max [simp]: "max_of (a::'a::linorder) b = max a b"
  by (auto simp: max_of_def max_def)

text \<open>Alignment to a power of two rounds up to the next multiple, as long as the sum
  stays inside 64 bits.\<close>

lemma unat_and_not_mask:
  fixes x :: u64
  shows "unat (x AND NOT (mask k)) = unat x div 2 ^ k * 2 ^ k"
proof -
  have "x AND NOT (mask k) = push_bit k (drop_bit k x)"
    by (rule bit_word_eqI) (auto simp: bit_simps)
  moreover have "unat (push_bit k (drop_bit k x)) = unat x div 2 ^ k * 2 ^ k"
  proof -
    have "unat x div 2 ^ k * 2 ^ k \<le> unat x" by simp
    also have "\<dots> < 2 ^ 64" using unsigned_less [of x] by simp
    finally have "unat x div 2 ^ k * 2 ^ k < 2 ^ 64" .
    moreover have "unat (push_bit k (drop_bit k x)) = take_bit 64 (push_bit k (drop_bit k (unat x)))"
      by (simp only: unsigned_push_bit_eq unat_drop_bit_eq) simp
    ultimately show ?thesis
      by (simp add: push_bit_eq_mult drop_bit_eq_div take_bit_eq_mod)
  qed
  ultimately show ?thesis by simp
qed

lemma unat_align_up:
  assumes "k < 64" and "unat v + 2 ^ k \<le> 2 ^ 64"
  shows "unat (align_up v (2 ^ k)) = (unat v + 2 ^ k - 1) div 2 ^ k * 2 ^ k"
proof -
  have m: "(2 ^ k :: u64) - 1 = mask k" by (simp add: mask_eq_decr_exp)
  have "(mask k :: u64) = of_nat (2 ^ k - 1)"
    by (simp add: mask_eq_exp_minus_1 of_nat_diff)
  moreover have "(2::nat) ^ k - 1 < 2 ^ 64"
    using power_strict_increasing [OF assms(1), of "2::nat"] by (simp add: less_imp_diff_less)
  ultimately have "unat (mask k :: u64) = 2 ^ k - 1"
    by (simp only: unat_of_nat) (simp add: take_bit_eq_mod)
  then have "unat (v + mask k) = unat v + 2 ^ k - 1"
    using assms by (subst unat_add_lem [THEN iffD1]) (auto simp: le_diff_conv)
  then show ?thesis
    by (simp add: align_up_def m unat_and_not_mask)
qed

end
