(* ===== verification/KV_Hash.thy ===== *)
theory KV_Hash
  imports KV_Common
begin

text \<open>
  The hash functions of \<open>src/hash.hpp\<close>: the splitmix finalizer \<open>hash_mix64\<close>, the
  byte hash \<open>hash64\<close> and \<open>hash_path\<close>, which names a token group in the radix index.
  The lemmas show which of them are injective in which argument.
\<close>

section \<open>Definitions\<close>

definition hash_mix64 :: "u64 \<Rightarrow> u64" where
  "hash_mix64 x0 =
    (let x1 = x0 XOR drop_bit 30 x0;
         x2 = x1 * 0xbf58476d1ce4e5b9;
         x3 = x2 XOR drop_bit 27 x2;
         x4 = x3 * 0x94d049bb133111eb
     in x4 XOR drop_bit 31 x4)"

text \<open>One step of the FNV-1a loops: mix a byte into the state, then multiply.\<close>

definition fnv_step :: "u64 \<Rightarrow> u64 \<Rightarrow> u64" where
  "fnv_step h b = (h XOR b) * 0x100000001b3"

definition hash64 :: "bytes \<Rightarrow> u64 \<Rightarrow> u64" where
  "hash64 data seed =
    hash_mix64 (foldl (\<lambda>h p. fnv_step h (ucast p)) (0xcbf29ce484222325 XOR seed) data)"

text \<open>The inner loop of \<open>hash_path\<close> runs over the four bytes of a token, low byte first.\<close>

definition hash_token :: "u64 \<Rightarrow> u32 \<Rightarrow> u64" where
  "hash_token h tok =
    foldl (\<lambda>h b. fnv_step h (drop_bit b (ucast tok) AND 0xFF)) h [0, 8, 16, 24]"

definition hash_path :: "u64 \<Rightarrow> u32 list \<Rightarrow> u32 \<Rightarrow> u64" where
  "hash_path prefix_id tokens group_idx =
    (let h0 = 0xcbf29ce484222325 XOR prefix_id;
         h1 = push_bit 1 h0 XOR ucast group_idx
     in hash_mix64 (foldl hash_token h1 tokens))"

section \<open>Injectivity\<close>

lemma xorshift_inject:
  fixes x y :: u64
  assumes "x XOR drop_bit n x = y XOR drop_bit n y" and "0 < n"
  shows "x = y"
proof (rule bit_word_eqI)
  fix i assume "i < LENGTH(64)"
  show "bit x i \<longleftrightarrow> bit y i"
  proof (induction "64 - i" arbitrary: i rule: less_induct)
    case less
    have eq: "(bit x i \<noteq> bit x (n + i)) \<longleftrightarrow> (bit y i \<noteq> bit y (n + i))"
      using arg_cong [OF assms(1), of "\<lambda>w. bit w i"] by (simp add: bit_simps)
    show ?case
    proof (cases "n + i < 64")
      case True
      with assms(2) have "bit x (n + i) \<longleftrightarrow> bit y (n + i)"
        by (intro less.hyps) simp
      with eq show ?thesis by blast
    next
      case False
      then have "\<not> bit x (n + i)" "\<not> bit y (n + i)"
        by (auto dest: bit_imp_le_length)
      with eq show ?thesis by blast
    qed
  qed
qed

lemma mult_unit_inject:
  fixes x y c d :: u64
  assumes "x * c = y * c" and "c * d = 1"
  shows "x = y"
proof -
  have "x * c * d = y * c * d" using assms(1) by simp
  then show ?thesis using assms(2) by (simp add: mult.assoc)
qed

lemma hash_mix64_inject [simp]: "hash_mix64 x = hash_mix64 y \<longleftrightarrow> x = y"
proof
  assume eq: "hash_mix64 x = hash_mix64 y"
  let ?a = "\<lambda>x::u64. x XOR drop_bit 30 x"
  let ?b = "\<lambda>x. ?a x * 0xbf58476d1ce4e5b9"
  let ?c = "\<lambda>x. ?b x XOR drop_bit 27 (?b x)"
  let ?d = "\<lambda>x. ?c x * 0x94d049bb133111eb"
  from eq have "?d x XOR drop_bit 31 (?d x) = ?d y XOR drop_bit 31 (?d y)"
    by (simp add: hash_mix64_def Let_def)
  then have "?d x = ?d y" by (rule xorshift_inject) simp
  then have "?c x = ?c y" by (rule mult_unit_inject [where d = "0x319642b2d24d8ec3"]) simp
  then have "?b x = ?b y" by (rule xorshift_inject) simp
  then have "?a x = ?a y" by (rule mult_unit_inject [where d = "0x96de1b173f119089"]) simp
  then show "x = y" by (rule xorshift_inject) simp
qed simp

lemma fnv_step_inject_state: "fnv_step h b = fnv_step h' b \<longleftrightarrow> h = h'"
proof
  assume "fnv_step h b = fnv_step h' b"
  then have "h XOR b = h' XOR b"
    unfolding fnv_step_def by (rule mult_unit_inject [where d = "0xce965057aff6957b"]) simp
  then show "h = h'" by simp
qed simp

lemma fnv_step_inject_byte: "fnv_step h b = fnv_step h b' \<longleftrightarrow> b = b'"
proof
  assume "fnv_step h b = fnv_step h b'"
  then have "h XOR b = h XOR b'"
    unfolding fnv_step_def by (rule mult_unit_inject [where d = "0xce965057aff6957b"]) simp
  then show "b = b'" by simp
qed simp

lemma hash_token_inject_state: "hash_token h t = hash_token h' t \<longleftrightarrow> h = h'"
  by (simp add: hash_token_def fnv_step_inject_state)

lemma hash_tokens_inject_state:
  "foldl hash_token h ts = foldl hash_token h' ts \<longleftrightarrow> h = h'"
  by (induction ts arbitrary: h h') (simp_all add: hash_token_inject_state)


lemma hash_path_eq_iff:
  "hash_path p ts g = hash_path q ts g \<longleftrightarrow> push_bit 1 p = push_bit 1 q"
proof -
  have "hash_path p ts g = hash_path q ts g \<longleftrightarrow>
      push_bit 1 (0xcbf29ce484222325 XOR p) XOR ucast g =
      push_bit 1 (0xcbf29ce484222325 XOR q) XOR (ucast g :: u64)"
    by (simp only: hash_path_def Let_def hash_mix64_inject hash_tokens_inject_state)
  also have "\<dots> \<longleftrightarrow> push_bit 1 p = push_bit 1 q"
    by (auto simp: bit_eq_iff bit_simps)
  finally show ?thesis .
qed


lemma push_bit_1_eq_iff:
  fixes p q :: u64
  shows "push_bit 1 p = push_bit 1 q \<longleftrightarrow> p = q \<or> p = q XOR 2 ^ 63"
proof
  assume eq: "push_bit 1 p = push_bit 1 q"
  have low: "bit p n \<longleftrightarrow> bit q n" if "n < 63" for n
  proof -
    have "bit (push_bit 1 p) (Suc n) \<longleftrightarrow> bit (push_bit 1 q) (Suc n)"
      by (simp only: eq)
    then show ?thesis
      using that by (simp only: bit_push_bit_iff) simp
  qed
  have cases63: "n < 63 \<or> n = 63" if "n < LENGTH(64)" for n
    using that by auto
  have "p = q" if "bit p 63 \<longleftrightarrow> bit q 63"
    using low that cases63 by (intro bit_word_eqI) blast
  moreover have "p = q XOR 2 ^ 63" if "bit p 63 \<noteq> bit q 63"
  proof (rule bit_word_eqI)
    fix n assume "n < LENGTH(64)"
    with cases63 consider "n < 63" | "n = 63" by blast
    then show "bit p n \<longleftrightarrow> bit (q XOR 2 ^ 63) n"
      using low [of n] that by cases (simp_all only: bit_xor_iff bit_exp_iff, simp_all)
  qed
  ultimately show "p = q \<or> p = q XOR 2 ^ 63" by blast
next
  assume "p = q \<or> p = q XOR 2 ^ 63"
  moreover have "push_bit 1 (q XOR 2 ^ 63) = push_bit 1 q"
    by (rule bit_word_eqI)
      (auto simp only: bit_push_bit_iff bit_xor_iff bit_exp_iff possible_bit_word len_bit0 len_num1)
  ultimately show "push_bit 1 p = push_bit 1 q" by metis
qed

section \<open>Properties\<close>

text \<open>C24: the 64-bit finalizer is a bijection, so distinct keys never collide before the
  result is reduced to a table index.\<close>

theorem hash_mix64_bij: "bij hash_mix64"
proof (rule bijI)
  show "inj hash_mix64" by (rule injI) simp
  then show "surj hash_mix64" by (rule finite_UNIV_inj_surj [rotated]) simp
qed

text \<open>C25: for the same tokens and the same group index, two prefix ids give the same path
  hash exactly when they agree on their low 63 bits.  The initial shift by one drops the
  top bit of the prefix id, so two different prefixes can share every node of the index.\<close>

theorem hash_path_separates_prefixes:
  "hash_path p ts g = hash_path q ts g \<longleftrightarrow> p = q \<or> p = q XOR 2 ^ 63"
  by (simp only: hash_path_eq_iff push_bit_1_eq_iff)

end
