(* ===== verification/KV_Probe.thy ===== *)
theory KV_Probe
  imports KV_Prelude
begin

text \<open>
  Linear probing, shared by the side table of \<open>src/cache.cpp\<close> and the overflow tables of
  \<open>src/radix.cpp\<close>.  Both walk a power-of-two array from a home position with
  \<open>i = (i + 1) & mask\<close> until a slot satisfies a stop condition; \<open>probe\<close> is that loop
  with one unit of fuel per slot, so \<open>None\<close> means that the loop of the source would never
  stop.  The locale \<open>probe_table\<close> states what a slot type has to provide, and proves once
  that lookups find exactly the stored keys, that inserting at the slot where the probe
  stopped keeps the table well formed, and that rehashing keeps its contents.
\<close>

section \<open>The probe loop\<close>

fun probe :: "('s \<Rightarrow> bool) \<Rightarrow> 's list \<Rightarrow> nat \<Rightarrow> nat \<Rightarrow> nat \<Rightarrow> nat option" where
  "probe stop slots m 0 i = None"
| "probe stop slots m (Suc fuel) i =
    (if stop (slots ! i) then Some i else probe stop slots m fuel ((i + 1) AND m))"

text \<open>The loop as the tables use it: start at \<open>h & (cap - 1)\<close>, at most \<open>cap\<close> steps.\<close>

definition probe_from :: "('s \<Rightarrow> bool) \<Rightarrow> 's list \<Rightarrow> nat \<Rightarrow> nat option" where
  "probe_from stop slots h =
    probe stop slots (length slots - 1) (length slots) (h AND (length slots - 1))"

text \<open>A table is well formed when every used slot is reachable from the home position of
  its key through used slots only, and no key is stored twice.\<close>

definition probe_wf :: "('s \<Rightarrow> bool) \<Rightarrow> ('s \<Rightarrow> 'k) \<Rightarrow> ('k \<Rightarrow> nat) \<Rightarrow> 's list \<Rightarrow> bool" where
  "probe_wf used key home slots \<longleftrightarrow>
    (\<exists>k. length slots = 2 ^ k) \<and>
    (\<forall>j < length slots. used (slots ! j) \<longrightarrow>
      (\<exists>d < length slots. j = (home (key (slots ! j)) + d) mod length slots \<and>
        (\<forall>e < d. used (slots ! ((home (key (slots ! j)) + e) mod length slots))))) \<and>
    (\<forall>i < length slots. \<forall>j < length slots.
      used (slots ! i) \<and> used (slots ! j) \<and> key (slots ! i) = key (slots ! j) \<longrightarrow> i = j)"

text \<open>The abstract contents: the used slots by key.\<close>

definition probe_map :: "('s \<Rightarrow> bool) \<Rightarrow> ('s \<Rightarrow> 'k) \<Rightarrow> 's list \<Rightarrow> 'k \<Rightarrow> 's option" where
  "probe_map used key slots x = find (\<lambda>s. used s \<and> key s = x) slots"

text \<open>Rehashing: every live slot of the old array goes to the first free slot of its chain in
  the new one.\<close>

fun reinsert :: "('s \<Rightarrow> bool) \<Rightarrow> ('s \<Rightarrow> bool) \<Rightarrow> ('s \<Rightarrow> nat) \<Rightarrow> 's list \<Rightarrow> 's list \<Rightarrow> 's list option" where
  "reinsert live free hm [] ns = Some ns"
| "reinsert live free hm (s # ss) ns =
    (if live s then
       (case probe_from free ns (hm s) of
          None \<Rightarrow> None
        | Some j \<Rightarrow> reinsert live free hm ss (ns[j := s]))
     else reinsert live free hm ss ns)"

section \<open>Where the loop stops\<close>

lemma and_mask_mod: "(n::nat) AND (2 ^ k - 1) = n mod 2 ^ k"
  by (metis mask_eq_exp_minus_1 take_bit_eq_mask take_bit_eq_mod)

lemma and_mask_mod_Suc [simp]: "(n::nat) AND (2 ^ k - Suc 0) = n mod 2 ^ k"
  using and_mask_mod [of n k] by simp

lemma probe_SomeI:
  assumes "d < fuel" and "stop (slots ! ((i + d) mod 2 ^ k))"
    and "\<And>e. e < d \<Longrightarrow> \<not> stop (slots ! ((i + e) mod 2 ^ k))" and "i < 2 ^ k"
  shows "probe stop slots (2 ^ k - 1) fuel i = Some ((i + d) mod 2 ^ k)"
  using assms
proof (induction d arbitrary: fuel i)
  case 0
  then obtain f where "fuel = Suc f" by (cases fuel) auto
  with 0 show ?case by simp
next
  case (Suc d)
  then obtain f where f: "fuel = Suc f" by (cases fuel) auto
  have "\<not> stop (slots ! i)" using Suc.prems(3) [of 0] Suc.prems(4) by simp
  moreover have "probe stop slots (2 ^ k - 1) f ((i + 1) mod 2 ^ k) =
      Some (((i + 1) mod 2 ^ k + d) mod 2 ^ k)"
  proof (rule Suc.IH)
    show "d < f" using Suc.prems(1) f by simp
    show "stop (slots ! (((i + 1) mod 2 ^ k + d) mod 2 ^ k))"
      using Suc.prems(2) by (simp add: mod_simps)
    show "\<not> stop (slots ! (((i + 1) mod 2 ^ k + e) mod 2 ^ k))" if "e < d" for e
      using Suc.prems(3) [of "Suc e"] that by (simp add: mod_simps)
  qed simp
  ultimately show ?case using f by (simp add: mod_simps)
qed

lemma probe_SomeD:
  assumes "probe stop slots (2 ^ k - 1) fuel i = Some j" and "i < 2 ^ k"
  shows "\<exists>d < fuel. j = (i + d) mod 2 ^ k \<and> stop (slots ! j) \<and>
    (\<forall>e < d. \<not> stop (slots ! ((i + e) mod 2 ^ k)))"
  using assms
proof (induction fuel arbitrary: i)
  case (Suc fuel)
  show ?case
  proof (cases "stop (slots ! i)")
    case True
    with Suc.prems show ?thesis by (intro exI [of _ 0]) auto
  next
    case False
    with Suc.prems have "probe stop slots (2 ^ k - 1) fuel ((i + 1) mod 2 ^ k) = Some j"
      by simp
    then obtain d where d: "d < fuel" "j = ((i + 1) mod 2 ^ k + d) mod 2 ^ k" "stop (slots ! j)"
      "\<forall>e < d. \<not> stop (slots ! (((i + 1) mod 2 ^ k + e) mod 2 ^ k))"
      using Suc.IH by fastforce
    have "\<not> stop (slots ! ((i + e) mod 2 ^ k))" if "e < Suc d" for e
      using that False Suc.prems(2) d(4)
      by (cases e) (auto simp: mod_simps)
    with d show ?thesis by (intro exI [of _ "Suc d"]) (auto simp: mod_simps)
  qed
qed simp

text \<open>Every position is reached within one lap of the array.\<close>

lemma probe_lap:
  assumes "j < (n::nat)"
  shows "\<exists>d < n. j = (i + d) mod n"
proof (intro exI conjI)
  let ?d = "(j + (n - i mod n)) mod n"
  show "?d < n" using assms by simp
  have "(i + ?d) mod n = (i mod n + (j + (n - i mod n))) mod n" by (simp add: mod_simps)
  also have "i mod n + (j + (n - i mod n)) = j + n"
    using assms mod_less_divisor [of n i] by linarith
  finally show "j = (i + ?d) mod n" using assms by simp
qed

lemma mod_add_cancel_less:
  fixes h d e n :: nat
  assumes "(h + e) mod n = (h + d) mod n" and "e < n" and "d < n"
  shows "e = d"
proof -
  have "(int h + int e) mod int n = (int h + int d) mod int n"
    using assms(1) by (metis of_nat_add of_nat_mod)
  then have "int e mod int n = int d mod int n"
    by (metis add_diff_cancel_left' mod_diff_left_eq)
  with assms(2,3) show ?thesis by simp
qed

lemma probe_from_SomeD:
  assumes "length slots = 2 ^ k" and "probe_from stop slots h = Some j"
  shows "j < length slots \<and> stop (slots ! j) \<and>
    (\<exists>d < length slots. j = (h + d) mod length slots \<and>
      (\<forall>e < d. \<not> stop (slots ! ((h + e) mod length slots))))"
  using probe_SomeD [of stop slots k "2 ^ k" "h mod 2 ^ k" j] assms
  by (auto simp: probe_from_def mod_simps)

lemma probe_from_SomeI:
  assumes "length slots = 2 ^ k" and "d < length slots"
    and "stop (slots ! ((h + d) mod length slots))"
    and "\<And>e. e < d \<Longrightarrow> \<not> stop (slots ! ((h + e) mod length slots))"
  shows "probe_from stop slots h = Some ((h + d) mod length slots)"
  using probe_SomeI [of d "2 ^ k" stop slots "h mod 2 ^ k" k] assms
  by (simp add: probe_from_def mod_simps)

lemma probe_from_total:
  assumes "length slots = 2 ^ k" and "j < length slots" and "stop (slots ! j)"
  shows "\<exists>i. probe_from stop slots h = Some i"
proof -
  let ?P = "\<lambda>d. d < length slots \<and> stop (slots ! ((h + d) mod length slots))"
  obtain d0 where "?P d0" using probe_lap [OF assms(2), of h] assms(3) by blast
  define d where "d = (LEAST d. ?P d)"
  have "?P d" unfolding d_def using \<open>?P d0\<close> by (rule LeastI)
  moreover have "\<not> stop (slots ! ((h + e) mod length slots))" if "e < d" for e
    using not_less_Least [of e ?P] that \<open>?P d\<close> unfolding d_def by auto
  ultimately show ?thesis using probe_from_SomeI [OF assms(1), of d stop h] by blast
qed

lemma probe_cong:
  assumes "\<And>s. s \<in> set slots \<Longrightarrow> stop s = stop' s" and "length slots = 2 ^ k" and "i < 2 ^ k"
  shows "probe stop slots (2 ^ k - 1) fuel i = probe stop' slots (2 ^ k - 1) fuel i"
  using assms(3)
proof (induction fuel arbitrary: i)
  case (Suc fuel)
  have "stop (slots ! i) = stop' (slots ! i)" using assms(1,2) Suc.prems by simp
  then show ?case using Suc.IH [of "(i + 1) mod 2 ^ k"] by simp
qed simp

lemma probe_from_cong:
  assumes "\<And>s. s \<in> set slots \<Longrightarrow> stop s = stop' s" and "length slots = 2 ^ k"
  shows "probe_from stop slots h = probe_from stop' slots h"
  using probe_cong [where fuel = "2 ^ k" and i = "h mod 2 ^ k", OF assms] assms(2)
  by (simp add: probe_from_def)

section \<open>Tables over the loop\<close>

lemma probe_map_Nil [simp]: "probe_map used key [] x = None"
  by (simp add: probe_map_def)

lemma probe_map_Cons [simp]:
  "probe_map used key (s # ss) x = (if used s \<and> key s = x then Some s else probe_map used key ss x)"
  by (simp add: probe_map_def)

lemma unused_slot_exists:
  assumes "length (filter used slots) < length slots"
  shows "\<exists>j < length slots. \<not> used (slots ! j)"
proof (rule ccontr)
  assume "\<not> ?thesis"
  then have "\<forall>s \<in> set slots. used s" by (auto simp: in_set_conv_nth)
  then have "filter used slots = slots" by (simp add: filter_id_conv)
  with assms show False by simp
qed

lemma length_filter_update:
  assumes "j < length xs"
  shows "length (filter P (xs[j := y])) + (if P (xs ! j) then 1 else 0) =
    length (filter P xs) + (if P y then 1 else 0)"
  using assms
proof (induction xs arbitrary: j)
  case (Cons x xs)
  then show ?case by (cases j) (auto split: if_splits)
qed simp

lemma probe_map_SomeD:
  "probe_map used key slots x = Some s \<Longrightarrow>
    \<exists>j < length slots. slots ! j = s \<and> used s \<and> key s = x"
  by (auto simp: probe_map_def find_Some_iff)

lemma probe_map_None_iff:
  "probe_map used key slots x = None \<longleftrightarrow>
    (\<forall>j < length slots. \<not> (used (slots ! j) \<and> key (slots ! j) = x))"
  by (auto simp: probe_map_def find_None_iff in_set_conv_nth)

lemma probe_wf_unique:
  assumes "probe_wf used key home slots" and "i < length slots" and "j < length slots"
    and "used (slots ! i)" and "used (slots ! j)" and "key (slots ! i) = key (slots ! j)"
  shows "i = j"
  using assms unfolding probe_wf_def by blast

lemma probe_wf_chain:
  assumes "probe_wf used key home slots" and "j < length slots" and "used (slots ! j)"
  obtains d where "d < length slots" "j = (home (key (slots ! j)) + d) mod length slots"
    "\<And>e. e < d \<Longrightarrow> used (slots ! ((home (key (slots ! j)) + e) mod length slots))"
  using assms unfolding probe_wf_def by blast

lemma probe_map_eqI:
  assumes "probe_wf used key home slots" and "j < length slots" and "used (slots ! j)"
  shows "probe_map used key slots (key (slots ! j)) = Some (slots ! j)"
proof (cases "probe_map used key slots (key (slots ! j))")
  case None
  then show ?thesis using assms(2,3) by (auto simp: probe_map_None_iff)
next
  case (Some s)
  from probe_map_SomeD [OF this] obtain i where
    i: "i < length slots" "slots ! i = s" "used s" "key s = key (slots ! j)" by blast
  then have "i = j" using probe_wf_unique [OF assms(1) i(1) assms(2)] assms(3) by simp
  with i Some show ?thesis by simp
qed

lemma probe_map_update:
  assumes wf: "probe_wf used key home slots" and j: "j < length slots" and s: "used s"
    and free: "used (slots ! j) \<longrightarrow> key (slots ! j) = key s"
    and fresh: "\<forall>i < length slots. used (slots ! i) \<and> key (slots ! i) = key s \<longrightarrow> i = j"
  shows "probe_map used key (slots[j := s]) = (probe_map used key slots)(key s \<mapsto> s)"
proof
  fix x
  show "probe_map used key (slots[j := s]) x = ((probe_map used key slots)(key s \<mapsto> s)) x"
  proof (cases "probe_map used key (slots[j := s]) x")
    case None
    then have no: "\<forall>i < length slots. \<not> (used (slots[j := s] ! i) \<and> key (slots[j := s] ! i) = x)"
      by (simp add: probe_map_None_iff)
    then have "x \<noteq> key s" using j s by auto
    moreover have "probe_map used key slots x = None"
      unfolding probe_map_None_iff
    proof (intro allI impI)
      fix i assume "i < length slots"
      with no free j \<open>x \<noteq> key s\<close> show "\<not> (used (slots ! i) \<and> key (slots ! i) = x)"
        by (cases "i = j") auto
    qed
    ultimately show ?thesis using None by simp
  next
    case (Some t)
    then obtain i where i: "i < length slots" "slots[j := s] ! i = t" "used t" "key t = x"
      using probe_map_SomeD [OF Some] by auto
    show ?thesis
    proof (cases "i = j")
      case True
      with i j Some show ?thesis by auto
    next
      case False
      with i have t: "slots ! i = t" by simp
      with i fresh False have "x \<noteq> key s" by auto
      moreover have "probe_map used key slots x = Some t"
        using probe_map_eqI [OF wf i(1)] t i by simp
      ultimately show ?thesis using Some by simp
    qed
  qed
qed

locale probe_table =
  fixes used :: "'s \<Rightarrow> bool" and key :: "'s \<Rightarrow> 'k" and home :: "'k \<Rightarrow> nat" and empty_slot :: 's
  assumes empty_unused: "\<not> used empty_slot"
begin

abbreviation wf :: "'s list \<Rightarrow> bool" where
  "wf slots \<equiv> probe_wf used key home slots"

abbreviation find_slot :: "'s list \<Rightarrow> 'k \<Rightarrow> nat option" where
  "find_slot slots x \<equiv> probe_from (\<lambda>s. \<not> used s \<or> key s = x) slots (home x)"

lemma wf_length: "wf slots \<Longrightarrow> \<exists>k. length slots = 2 ^ k"
  by (simp add: probe_wf_def)

lemma wf_empty: "wf (replicate (2 ^ k) empty_slot)"
  using empty_unused by (auto simp: probe_wf_def)

lemma map_empty: "probe_map used key (replicate n empty_slot) x = None"
  using empty_unused by (simp add: probe_map_None_iff)

text \<open>A stored key is found at its slot.\<close>

lemma find_slot_used:
  assumes "wf slots" and "j < length slots" and "used (slots ! j)" and "key (slots ! j) = x"
  shows "find_slot slots x = Some j"
proof -
  obtain k where k: "length slots = 2 ^ k" using wf_length [OF assms(1)] by blast
  obtain d where d: "d < length slots" "j = (home x + d) mod length slots"
      "\<And>e. e < d \<Longrightarrow> used (slots ! ((home x + e) mod length slots))"
    using probe_wf_chain [OF assms(1-3)] assms(4) by metis
  have before: "\<not> (\<not> used (slots ! ((home x + e) mod length slots)) \<or>
      key (slots ! ((home x + e) mod length slots)) = x)" if e: "e < d" for e
  proof
    assume "\<not> used (slots ! ((home x + e) mod length slots)) \<or>
      key (slots ! ((home x + e) mod length slots)) = x"
    moreover have lt: "(home x + e) mod length slots < length slots"
      using assms(2) by (intro mod_less_divisor) linarith
    ultimately have "(home x + e) mod length slots = j"
      using d(3) [OF e] probe_wf_unique [OF assms(1) lt assms(2)] assms(3,4) by simp
    from this d(2) have "(home x + e) mod length slots = (home x + d) mod length slots"
      by (rule trans)
    moreover have "e < length slots" using e d(1) by (rule less_trans)
    ultimately have "e = d" using d(1) by (rule mod_add_cancel_less)
    with e show False by simp
  qed
  have "\<not> used (slots ! ((home x + d) mod length slots)) \<or>
      key (slots ! ((home x + d) mod length slots)) = x"
    unfolding d(2) [symmetric] using assms(4) by simp
  from probe_from_SomeI [where stop = "\<lambda>s. \<not> used s \<or> key s = x", OF k d(1) this before]
  have "find_slot slots x = Some ((home x + d) mod length slots)" .
  then show ?thesis unfolding d(2) [symmetric] .
qed

text \<open>The probe stops as soon as one slot of the table is free, and then it has found
  either the key or the first free slot of its chain.\<close>

lemma find_slot_total:
  assumes "wf slots" and "j < length slots" and "\<not> used (slots ! j)"
  shows "\<exists>i. find_slot slots x = Some i"
proof -
  obtain k where "length slots = 2 ^ k" using wf_length [OF assms(1)] by blast
  from probe_from_total [OF this assms(2)] assms(3) show ?thesis by simp
qed

lemma find_slot_SomeD:
  assumes "wf slots" and "find_slot slots x = Some j"
  shows "j < length slots" and "\<not> used (slots ! j) \<or> key (slots ! j) = x"
proof -
  obtain k where "length slots = 2 ^ k" using wf_length [OF assms(1)] by blast
  from probe_from_SomeD [OF this assms(2)]
  show "j < length slots" and "\<not> used (slots ! j) \<or> key (slots ! j) = x" by blast+
qed

lemma find_slot_free:
  assumes "wf slots" and "find_slot slots x = Some j" and "\<not> used (slots ! j)"
    and "i < length slots" and "used (slots ! i)"
  shows "key (slots ! i) \<noteq> x"
proof
  assume "key (slots ! i) = x"
  from find_slot_used [OF assms(1,4,5) this] assms(2,3,5) show False by simp
qed

lemma find_slot_map:
  assumes "wf slots" and "find_slot slots x = Some j"
  shows "probe_map used key slots x = (if used (slots ! j) then Some (slots ! j) else None)"
proof (cases "used (slots ! j)")
  case True
  with find_slot_SomeD [OF assms] have "key (slots ! j) = x" "j < length slots" by auto
  with True probe_map_eqI [OF assms(1)] show ?thesis by auto
next
  case False
  with find_slot_free [OF assms] show ?thesis by (auto simp: probe_map_None_iff)
qed

text \<open>Writing a slot with the probed key where the probe stopped keeps the table well
  formed and stores exactly that key.\<close>

lemma wf_update:
  assumes wf: "wf slots" and fs: "find_slot slots (key s) = Some j" and s: "used s"
  shows "wf (slots[j := s])"
proof -
  obtain k where k: "length slots = 2 ^ k" using wf_length [OF wf] by blast
  note j = find_slot_SomeD [OF wf fs]
  have used_mono: "used (slots[j := s] ! i)" if "used (slots ! i)" for i
    using that s j(1) by (cases "i = j") auto
  have chain: "\<exists>d < length slots. j = (home (key s) + d) mod length slots \<and>
      (\<forall>e < d. used (slots ! ((home (key s) + e) mod length slots)))"
    using probe_from_SomeD [OF k fs] by blast
  show ?thesis
    unfolding probe_wf_def length_list_update
  proof (intro conjI allI impI)
    show "\<exists>k. length slots = 2 ^ k" using k by blast
  next
    fix i assume i: "i < length slots" "used (slots[j := s] ! i)"
    show "\<exists>d < length slots. i = (home (key (slots[j := s] ! i)) + d) mod length slots \<and>
      (\<forall>e < d. used (slots[j := s] ! ((home (key (slots[j := s] ! i)) + e) mod length slots)))"
    proof (cases "i = j")
      case True
      obtain d where "d < length slots" "j = (home (key s) + d) mod length slots"
          "\<forall>e < d. used (slots ! ((home (key s) + e) mod length slots))"
        using chain by blast
      moreover have "slots[j := s] ! i = s" using True j(1) by simp
      ultimately show ?thesis using True used_mono by auto
    next
      case False
      then have same: "slots[j := s] ! i = slots ! i" by simp
      with i have "used (slots ! i)" by simp
      with wf i(1) obtain d where "d < length slots"
          "i = (home (key (slots ! i)) + d) mod length slots"
          "\<And>e. e < d \<Longrightarrow> used (slots ! ((home (key (slots ! i)) + e) mod length slots))"
        by (rule probe_wf_chain) blast
      then show ?thesis unfolding same using used_mono by blast
    qed
  next
    fix i l assume il: "i < length slots" "l < length slots"
      "used (slots[j := s] ! i) \<and> used (slots[j := s] ! l) \<and>
        key (slots[j := s] ! i) = key (slots[j := s] ! l)"
    have other: "m = j" if "m < length slots" "used (slots ! m)" "key (slots ! m) = key s" for m
      using find_slot_used [OF wf that] fs by simp
    show "i = l"
    proof (cases "i = j"; cases "l = j")
      assume "i = j" "l \<noteq> j"
      then show ?thesis using il other [OF il(2)] by simp
    next
      assume "i \<noteq> j" "l = j"
      then show ?thesis using il other [OF il(1)] by simp
    next
      assume "i \<noteq> j" "l \<noteq> j"
      then show ?thesis using il probe_wf_unique [OF wf il(1,2)] by simp
    qed simp
  qed
qed

lemma map_update:
  assumes wf: "wf slots" and fs: "find_slot slots (key s) = Some j" and s: "used s"
  shows "probe_map used key (slots[j := s]) = (probe_map used key slots)(key s \<mapsto> s)"
proof (rule probe_map_update [OF wf _ s])
  show "j < length slots" using find_slot_SomeD [OF wf fs] by simp
  show "used (slots ! j) \<longrightarrow> key (slots ! j) = key s" using find_slot_SomeD [OF wf fs] by simp
  show "\<forall>i < length slots. used (slots ! i) \<and> key (slots ! i) = key s \<longrightarrow> i = j"
    using find_slot_used [OF wf] fs by auto
qed

text \<open>Rehashing into a table with room: it ends, and the new table holds what both held.\<close>

lemma free_slot_is_find_slot:
  assumes wf: "wf ns" and fresh: "probe_map used key ns x = None"
  shows "probe_from (\<lambda>s. \<not> used s) ns (home x) = find_slot ns x"
proof -
  obtain k where k: "length ns = 2 ^ k" using wf_length [OF wf] by blast
  have "(\<not> used s) = (\<not> used s \<or> key s = x)" if "s \<in> set ns" for s
    using that fresh by (auto simp: probe_map_None_iff in_set_conv_nth)
  then show ?thesis using k by (rule probe_from_cong)
qed

lemma wf_distinct_keys:
  assumes "wf slots"
  shows "distinct (map key (filter used slots))"
proof -
  have "distinct (map key (filter used xs))"
    if "\<forall>i < length xs. \<forall>j < length xs. used (xs ! i) \<and> used (xs ! j) \<and> key (xs ! i) = key (xs ! j) \<longrightarrow> i = j"
    for xs using that
  proof (induction xs)
    case (Cons x xs)
    have "key x \<notin> key ` {y \<in> set xs. used y}" if x: "used x"
    proof
      assume "key x \<in> key ` {y \<in> set xs. used y}"
      then obtain i where "i < length xs" "used (xs ! i)" "key (xs ! i) = key x"
        by (auto simp: in_set_conv_nth)
      with Cons.prems [rule_format, of 0 "Suc i"] x show False by simp
    qed
    moreover have "distinct (map key (filter used xs))"
    proof (rule Cons.IH, intro allI impI)
      fix i j assume "i < length xs" "j < length xs"
        "used (xs ! i) \<and> used (xs ! j) \<and> key (xs ! i) = key (xs ! j)"
      with Cons.prems [rule_format, of "Suc i" "Suc j"] show "i = j" by simp
    qed
    ultimately show ?case by simp
  qed simp
  with assms show ?thesis unfolding probe_wf_def by blast
qed

lemma reinsert_ok:
  assumes "wf ns" and "distinct (map key (filter used ss))"
    and "\<And>s. s \<in> set ss \<Longrightarrow> used s \<Longrightarrow> probe_map used key ns (key s) = None"
    and "length (filter used ss) + length (filter used ns) \<le> length ns"
  shows "\<exists>ns'. reinsert used (\<lambda>s. \<not> used s) (\<lambda>s. home (key s)) ss ns = Some ns' \<and>
    wf ns' \<and> length ns' = length ns \<and>
    length (filter used ns') = length (filter used ss) + length (filter used ns) \<and>
    probe_map used key ns' = probe_map used key ns ++ probe_map used key ss \<and>
    set ns' \<subseteq> set ns \<union> set ss"
  using assms
proof (induction ss arbitrary: ns)
  case Nil
  then show ?case by (auto simp: map_add_def)
next
  case (Cons s ss)
  show ?case
  proof (cases "used s")
    case False
    with Cons.prems have "\<exists>ns'. reinsert used (\<lambda>s. \<not> used s) (\<lambda>s. home (key s)) ss ns = Some ns' \<and>
      wf ns' \<and> length ns' = length ns \<and>
      length (filter used ns') = length (filter used ss) + length (filter used ns) \<and>
      probe_map used key ns' = probe_map used key ns ++ probe_map used key ss \<and>
      set ns' \<subseteq> set ns \<union> set ss"
      by (intro Cons.IH) auto
    moreover have "probe_map used key (s # ss) = probe_map used key ss" using False by auto
    ultimately show ?thesis using False by auto
  next
    case True
    have "length (filter used ns) < length ns" using Cons.prems(4) True by simp
    then obtain j0 where "j0 < length ns" "\<not> used (ns ! j0)" using unused_slot_exists by blast
    from find_slot_total [OF Cons.prems(1) this, of "key s"]
    obtain j where j: "find_slot ns (key s) = Some j" by blast
    have fresh: "probe_map used key ns (key s) = None" using Cons.prems(3) True by simp
    have unused: "\<not> used (ns ! j)" using find_slot_map [OF Cons.prems(1) j] fresh by (auto split: if_splits)
    have lt: "j < length ns" using find_slot_SomeD [OF Cons.prems(1) j] by simp
    have wf': "wf (ns[j := s])" using Cons.prems(1) j True by (rule wf_update)
    have map': "probe_map used key (ns[j := s]) = (probe_map used key ns)(key s \<mapsto> s)"
      using Cons.prems(1) j True by (rule map_update)
    have cnt: "length (filter used (ns[j := s])) = Suc (length (filter used ns))"
      using length_filter_update [OF lt, of used s] unused True by simp
    have "key s \<notin> key ` {t \<in> set ss. used t}" using Cons.prems(2) True by simp
    then have dist: "key t \<noteq> key s" if "t \<in> set ss" "used t" for t
      using that by (metis (mono_tags, lifting) image_eqI mem_Collect_eq)
    have "\<exists>ns'. reinsert used (\<lambda>s. \<not> used s) (\<lambda>s. home (key s)) ss (ns[j := s]) = Some ns' \<and>
      wf ns' \<and> length ns' = length (ns[j := s]) \<and>
      length (filter used ns') = length (filter used ss) + length (filter used (ns[j := s])) \<and>
      probe_map used key ns' = probe_map used key (ns[j := s]) ++ probe_map used key ss \<and>
      set ns' \<subseteq> set (ns[j := s]) \<union> set ss"
    proof (rule Cons.IH [OF wf'])
      show "distinct (map key (filter used ss))" using Cons.prems(2) by (simp split: if_splits)
      show "probe_map used key (ns[j := s]) (key t) = None" if "t \<in> set ss" "used t" for t
        using map' dist [OF that] Cons.prems(3) that by simp
      show "length (filter used ss) + length (filter used (ns[j := s])) \<le> length (ns[j := s])"
        using cnt Cons.prems(4) True by simp
    qed
    then obtain ns' where ns': "reinsert used (\<lambda>s. \<not> used s) (\<lambda>s. home (key s)) ss (ns[j := s]) = Some ns'"
      "wf ns'" "length ns' = length ns"
      "length (filter used ns') = length (filter used ss) + length (filter used (ns[j := s]))"
      "probe_map used key ns' = probe_map used key (ns[j := s]) ++ probe_map used key ss"
      "set ns' \<subseteq> set (ns[j := s]) \<union> set ss" by auto
    have "probe_map used key ss (key s) = None"
      using dist by (auto simp: probe_map_None_iff dest: nth_mem)
    then have "(probe_map used key ns)(key s \<mapsto> s) ++ probe_map used key ss =
        probe_map used key ns ++ probe_map used key (s # ss)"
      using True by (auto simp: map_add_def fun_eq_iff split: option.splits)
    then have "probe_map used key ns' = probe_map used key ns ++ probe_map used key (s # ss)"
      using ns'(5) map' by simp
    moreover have "set ns' \<subseteq> set ns \<union> set (s # ss)"
      using ns'(6) set_update_subset_insert [of ns j s] by auto
    moreover have "reinsert used (\<lambda>s. \<not> used s) (\<lambda>s. home (key s)) (s # ss) ns = Some ns'"
      using True j ns'(1) free_slot_is_find_slot [OF Cons.prems(1) fresh] by simp
    ultimately show ?thesis using ns'(2-4) True cnt by (simp del: probe_map_Cons)
  qed
qed

text \<open>Rehashing a whole table into an empty one of twice the size keeps its contents.\<close>

lemma rehash_ok:
  assumes "wf slots" and "length (filter used slots) \<le> 2 ^ k"
  shows "\<exists>ns. reinsert used (\<lambda>s. \<not> used s) (\<lambda>s. home (key s)) slots (replicate (2 ^ k) empty_slot) = Some ns \<and>
    wf ns \<and> length ns = 2 ^ k \<and> length (filter used ns) = length (filter used slots) \<and>
    probe_map used key ns = probe_map used key slots \<and> set ns \<subseteq> insert empty_slot (set slots)"
proof -
  have none: "filter used (replicate (2 ^ k) empty_slot) = []" using empty_unused by simp
  have map0: "probe_map used key (replicate (2 ^ k) empty_slot) = Map.empty"
    using map_empty by auto
  show ?thesis
    using reinsert_ok [OF wf_empty [of k] wf_distinct_keys [OF assms(1)]] assms(2) none map0
    by (auto simp: set_replicate_conv_if)
qed

end

end
