(* ===== verification/KV_Side.thy ===== *)
theory KV_Side
  imports KV_Hash KV_Probe KV_Common
begin

text \<open>
  The side table of \<open>src/cache.cpp\<close> (\<open>side_init\<close>, \<open>side_grow\<close>, \<open>side_put\<close>,
  \<open>side_get\<close>): the open-addressing index from (prefix id, group index) to a node of the
  radix tree.  A node pointer is an index into the node heap, \<open>None\<close> the null pointer.
  \<open>side_put\<close> and \<open>side_get\<close> return \<open>None\<close> when their probe loop would never stop.
  The lemmas show that under the table's invariant it never does, and that the table refines a
  finite map; the locale \<open>insert_table\<close> is the contract its clients use.
\<close>

section \<open>Data and operations\<close>

definition KV_SIDE_INIT_CAP :: u32 where
  "KV_SIDE_INIT_CAP = 4096"

record side_slot =
  ss_prefix_id :: u64
  ss_group_idx :: u32
  ss_node :: "nat option"
  ss_used :: u8

record side_tbl =
  st_slots :: "side_slot list"
  st_cap :: u32
  st_count :: u32

definition side_slot0 :: side_slot where
  "side_slot0 = \<lparr>ss_prefix_id = 0, ss_group_idx = 0, ss_node = None, ss_used = 0\<rparr>"

definition side_init :: side_tbl where
  "side_init = \<lparr>st_slots = replicate (unat KV_SIDE_INIT_CAP) side_slot0,
    st_cap = KV_SIDE_INIT_CAP, st_count = 0\<rparr>"

definition side_destroy :: "side_tbl \<Rightarrow> side_tbl" where
  "side_destroy t = t\<lparr>st_slots := []\<rparr>"

definition side_hash :: "u64 \<Rightarrow> u32 \<Rightarrow> u64" where
  "side_hash p g = hash_mix64 (p XOR push_bit 32 (ucast g))"

text \<open>The loop \<open>for (j = (uint32_t)h & mask;; j = (j + 1) & mask)\<close> over an array of
  \<open>cap\<close> slots.\<close>

definition side_probe :: "(side_slot \<Rightarrow> bool) \<Rightarrow> side_slot list \<Rightarrow> u32 \<Rightarrow> u64 \<Rightarrow> nat option" where
  "side_probe stop slots cap h =
    probe stop slots (unat (cap - 1)) (unat cap) (unat ((ucast h :: u32) AND (cap - 1)))"

fun side_rehash :: "u32 \<Rightarrow> side_slot list \<Rightarrow> side_slot list \<Rightarrow> side_slot list option" where
  "side_rehash ncap [] ns = Some ns"
| "side_rehash ncap (s # ss) ns =
    (if ss_used s \<noteq> 0 then
       (case side_probe (\<lambda>s. ss_used s = 0) ns ncap (side_hash (ss_prefix_id s) (ss_group_idx s)) of
          None \<Rightarrow> None
        | Some j \<Rightarrow> side_rehash ncap ss (ns[j := s]))
     else side_rehash ncap ss ns)"

definition side_grow :: "side_tbl \<Rightarrow> side_tbl option" where
  "side_grow t =
    (let ncap = st_cap t * 2;
         ns = replicate (unat ncap) side_slot0
     in case side_rehash ncap (take (unat (st_cap t)) (st_slots t)) ns of
          None \<Rightarrow> None
        | Some ns' \<Rightarrow> Some (t\<lparr>st_slots := ns', st_cap := ncap\<rparr>))"

definition side_put :: "side_tbl \<Rightarrow> u64 \<Rightarrow> u32 \<Rightarrow> nat option \<Rightarrow> (int \<times> side_tbl) option" where
  "side_put t prefix_id group_idx node =
    (case (if st_count t * 10 \<ge> st_cap t * 7 then side_grow t else Some t) of
       None \<Rightarrow> None
     | Some t \<Rightarrow>
         (case side_probe (\<lambda>s. ss_used s = 0 \<or>
                  (ss_prefix_id s = prefix_id \<and> ss_group_idx s = group_idx))
                (st_slots t) (st_cap t) (side_hash prefix_id group_idx) of
            None \<Rightarrow> None
          | Some j \<Rightarrow>
              if ss_used (st_slots t ! j) = 0 then
                Some (KV_EOK, t\<lparr>st_slots := (st_slots t)[j :=
                    \<lparr>ss_prefix_id = prefix_id, ss_group_idx = group_idx,
                     ss_node = node, ss_used = 1\<rparr>], st_count := st_count t + 1\<rparr>)
              else
                Some (KV_EOK, t\<lparr>st_slots := (st_slots t)[j := (st_slots t ! j)\<lparr>ss_node := node\<rparr>]\<rparr>)))"

definition side_get :: "side_tbl \<Rightarrow> u64 \<Rightarrow> u32 \<Rightarrow> nat option option" where
  "side_get t prefix_id group_idx =
    (if st_cap t = 0 then Some None
     else case side_probe (\<lambda>s. ss_used s = 0 \<or>
                 (ss_prefix_id s = prefix_id \<and> ss_group_idx s = group_idx))
               (st_slots t) (st_cap t) (side_hash prefix_id group_idx) of
            None \<Rightarrow> None
          | Some j \<Rightarrow> Some (if ss_used (st_slots t ! j) = 0 then None else ss_node (st_slots t ! j)))"

section \<open>Invariant and abstraction\<close>

abbreviation side_used :: "side_slot \<Rightarrow> bool" where
  "side_used s \<equiv> ss_used s \<noteq> 0"

abbreviation side_key :: "side_slot \<Rightarrow> u64 \<times> u32" where
  "side_key s \<equiv> (ss_prefix_id s, ss_group_idx s)"

abbreviation side_home :: "u64 \<times> u32 \<Rightarrow> nat" where
  "side_home k \<equiv> unat (ucast (side_hash (fst k) (snd k)) :: u32)"

text \<open>The table is a well-formed probe table of \<open>cap\<close> slots, \<open>count\<close> of them in use and at
  least one free, and it only ever grew because it was seven tenths full.\<close>

definition side_inv :: "side_tbl \<Rightarrow> bool" where
  "side_inv t \<longleftrightarrow>
    probe_wf side_used side_key side_home (st_slots t) \<and>
    unat (st_cap t) = length (st_slots t) \<and>
    unat (st_count t) = length (filter side_used (st_slots t)) \<and>
    unat (st_count t) < unat (st_cap t) \<and>
    4096 \<le> unat (st_cap t) \<and>
    (unat (st_cap t) = 4096 \<or> unat (st_cap t) * 7 \<le> unat (st_count t) * 20)"

text \<open>The map the table stands for.\<close>

definition side_map :: "side_tbl \<Rightarrow> (u64 \<times> u32) \<Rightarrow> nat option option" where
  "side_map t k = map_option ss_node (probe_map side_used side_key (st_slots t) k)"

text \<open>Insertions one after the other, as recovery does them.\<close>

fun side_put_all :: "side_tbl \<Rightarrow> ((u64 \<times> u32) \<times> nat option) list \<Rightarrow> side_tbl option" where
  "side_put_all t [] = Some t"
| "side_put_all t (((p, g), n) # kvs) =
    (case side_put t p g n of None \<Rightarrow> None | Some (rc, t') \<Rightarrow> side_put_all t' kvs)"

section \<open>The contract of an insert-only table\<close>

locale insert_table =
  fixes invar :: "'t \<Rightarrow> bool" and entries :: "'t \<Rightarrow> nat" and bound :: nat
    and lookup :: "'t \<Rightarrow> 'k \<Rightarrow> 'v option" and ins :: "'t \<Rightarrow> 'k \<Rightarrow> 'v \<Rightarrow> 't option"
  assumes ins_ok: "invar t \<Longrightarrow> entries t < bound \<Longrightarrow>
    \<exists>t'. ins t k v = Some t' \<and> invar t' \<and> entries t' \<le> Suc (entries t) \<and>
      lookup t' = (lookup t)(k \<mapsto> v)"
begin

fun ins_all :: "'t \<Rightarrow> ('k \<times> 'v) list \<Rightarrow> 't option" where
  "ins_all t [] = Some t"
| "ins_all t ((k, v) # kvs) = (case ins t k v of None \<Rightarrow> None | Some t' \<Rightarrow> ins_all t' kvs)"

lemma ins_all_ok:
  assumes "invar t" and "entries t + length kvs \<le> bound"
  shows "\<exists>t'. ins_all t kvs = Some t' \<and> invar t' \<and> entries t' \<le> entries t + length kvs \<and>
    lookup t' = lookup t ++ map_of (rev kvs)"
  using assms
proof (induction kvs arbitrary: t)
  case (Cons kv kvs)
  obtain k v where kv: "kv = (k, v)" by (cases kv)
  obtain t1 where t1: "ins t k v = Some t1" "invar t1" "entries t1 \<le> Suc (entries t)"
      "lookup t1 = (lookup t)(k \<mapsto> v)"
    using ins_ok [OF Cons.prems(1), of k v] Cons.prems(2) by auto
  obtain t' where t': "ins_all t1 kvs = Some t'" "invar t'"
      "entries t' \<le> entries t1 + length kvs" "lookup t' = lookup t1 ++ map_of (rev kvs)"
    using Cons.IH [OF t1(2)] t1(3) Cons.prems(2) by auto
  have "lookup t1 ++ map_of (rev kvs) = lookup t ++ map_of (rev (kv # kvs))"
    using t1(4) kv by (simp add: map_of_append)
  with t1 t' kv show ?case by auto
qed simp

end

section \<open>The loops are probes of a well-formed table\<close>

interpretation side: probe_table side_used side_key side_home side_slot0
  by unfold_locales (simp add: side_slot0_def)

lemma side_probe_probe_from:
  assumes "unat cap = length slots" and "slots \<noteq> []"
  shows "side_probe stop slots cap h = probe_from stop slots (unat (ucast h :: u32))"
proof -
  have "cap \<noteq> 0" using assms by auto
  then have "unat (cap - 1) = unat cap - 1" by (rule unat_minus_one)
  then show ?thesis using assms by (simp add: side_probe_def probe_from_def unsigned_and_eq)
qed

lemma side_rehash_reinsert:
  assumes "unat cap = length ns" and "ns \<noteq> []"
  shows "side_rehash cap ss ns =
    reinsert side_used (\<lambda>s. \<not> side_used s) (\<lambda>s. side_home (side_key s)) ss ns"
  using assms
  by (induction ss arbitrary: ns) (auto simp: side_probe_probe_from split: option.splits)

lemma side_invD:
  assumes "side_inv t"
  shows "probe_wf side_used side_key side_home (st_slots t)"
    and "unat (st_cap t) = length (st_slots t)"
    and "st_slots t \<noteq> []" and "4096 \<le> length (st_slots t)"
    and "\<exists>k. length (st_slots t) = 2 ^ k"
    and "length (filter side_used (st_slots t)) < length (st_slots t)"
  using assms by (auto simp: side_inv_def probe_wf_def)

lemma side_find_total:
  assumes "side_inv t"
  obtains j where "side.find_slot (st_slots t) k = Some j"
proof -
  obtain i where "i < length (st_slots t)" "\<not> side_used (st_slots t ! i)"
    using unused_slot_exists [OF side_invD(6) [OF assms]] by blast
  from side.find_slot_total [OF side_invD(1) [OF assms] this] that show ?thesis by blast
qed

lemma side_probe_find_slot:
  assumes "side_inv t"
  shows "side_probe (\<lambda>s. ss_used s = 0 \<or> (ss_prefix_id s = p \<and> ss_group_idx s = g))
    (st_slots t) (st_cap t) (side_hash p g) = side.find_slot (st_slots t) (p, g)"
  using side_invD(2,3) [OF assms] by (simp add: side_probe_probe_from)

section \<open>Growing\<close>

text \<open>Below \<open>2 ^ 26\<close> entries none of the 32-bit products and sums wraps around.\<close>

lemma side_cap_bound:
  assumes "side_inv t" and "unat (st_count t) < 2 ^ 26"
  shows "unat (st_cap t) < 2 ^ 28"
  using assms by (auto simp: side_inv_def)

lemma side_load_cond:
  assumes "side_inv t" and "unat (st_count t) < 2 ^ 26"
  shows "(st_count t * 10 \<ge> st_cap t * 7) = (unat (st_count t) * 10 \<ge> unat (st_cap t) * 7)"
proof -
  have "unat (st_count t * 10) = unat (st_count t) * 10"
    using assms(2) by (simp add: unat_word_ariths)
  moreover have "unat (st_cap t * 7) = unat (st_cap t) * 7"
    using side_cap_bound [OF assms] by (simp add: unat_word_ariths)
  ultimately show ?thesis by (simp add: word_le_nat_alt)
qed

lemma side_grow_ok:
  assumes inv: "side_inv t" and small: "unat (st_count t) < 2 ^ 26"
    and full: "unat (st_count t) * 10 \<ge> unat (st_cap t) * 7"
  shows "\<exists>t'. side_grow t = Some t' \<and> side_inv t' \<and> st_count t' = st_count t \<and>
    Suc (unat (st_count t')) < unat (st_cap t') \<and> side_map t' = side_map t"
proof -
  note d = side_invD [OF inv]
  obtain k where k: "length (st_slots t) = 2 ^ k" using d(5) by blast
  have cap2: "unat (st_cap t * 2) = 2 ^ Suc k"
    using side_cap_bound [OF inv small] d(2) k by (simp add: unat_word_ariths)
  have "length (filter side_used (st_slots t)) \<le> 2 ^ Suc k" using d(6) k by simp
  from side.rehash_ok [OF d(1) this] obtain ns where
    ns: "reinsert side_used (\<lambda>s. \<not> side_used s) (\<lambda>s. side_home (side_key s)) (st_slots t)
        (replicate (2 ^ Suc k) side_slot0) = Some ns"
      "probe_wf side_used side_key side_home ns" "length ns = 2 ^ Suc k"
      "length (filter side_used ns) = length (filter side_used (st_slots t))"
      "probe_map side_used side_key ns = probe_map side_used side_key (st_slots t)" by blast
  have "side_rehash (st_cap t * 2) (st_slots t) (replicate (2 ^ Suc k) side_slot0) = Some ns"
    using ns(1) cap2 by (subst side_rehash_reinsert) auto
  then have "side_grow t = Some (t\<lparr>st_slots := ns, st_cap := st_cap t * 2\<rparr>)"
    using d(2) cap2 by (simp add: side_grow_def)
  moreover have "unat (st_count t) < unat (st_cap t)" "unat (st_cap t) = 2 ^ k"
    "unat (st_count t) = length (filter side_used (st_slots t))" "4096 \<le> unat (st_cap t)"
    using inv k by (auto simp: side_inv_def)
  ultimately show ?thesis
    using ns cap2 full by (auto simp: side_inv_def side_map_def)
qed

section \<open>The table refines a finite map\<close>

lemma side_get_map:
  assumes "side_inv t"
  shows "side_get t p g = Some (Option.bind (side_map t (p, g)) id)"
proof -
  obtain j where j: "side.find_slot (st_slots t) (p, g) = Some j"
    by (rule side_find_total [OF assms])
  have "st_cap t \<noteq> 0" using side_invD(2,3) [OF assms] by auto
  then show ?thesis
    using j side.find_slot_map [OF side_invD(1) [OF assms] j]
    by (simp add: side_get_def side_probe_find_slot [OF assms] side_map_def)
qed

text \<open>Writing the slot the probe found, new or already used for that key.\<close>

lemma side_write_ok:
  assumes inv: "side_inv t" and room: "Suc (unat (st_count t)) < unat (st_cap t)"
    and j: "side.find_slot (st_slots t) (p, g) = Some j"
    and s: "side_key s = (p, g)" "side_used s" "ss_node s = n"
    and t': "t' = t\<lparr>st_slots := (st_slots t)[j := s],
        st_count := st_count t + (if side_used (st_slots t ! j) then 0 else 1)\<rparr>"
  shows "side_inv t' \<and> unat (st_count t') \<le> Suc (unat (st_count t)) \<and>
    side_map t' = (side_map t)((p, g) \<mapsto> n)"
proof -
  note d = side_invD [OF inv]
  have j': "side.find_slot (st_slots t) (side_key s) = Some j" using j s(1) by simp
  have lt: "j < length (st_slots t)" using side.find_slot_SomeD [OF d(1) j'] by simp
  have wf: "probe_wf side_used side_key side_home (st_slots t')"
    using side.wf_update [OF d(1) j' s(2)] t' by simp
  have map: "probe_map side_used side_key (st_slots t') =
      (probe_map side_used side_key (st_slots t))((p, g) \<mapsto> s)"
    using side.map_update [OF d(1) j' s(2)] t' s(1) by simp
  have "unat (st_count t + 1) = Suc (unat (st_count t))"
    using room unat_width(3) [of "st_cap t"] by (simp add: unat_word_ariths)
  then have cnt: "unat (st_count t') =
      unat (st_count t) + (if side_used (st_slots t ! j) then 0 else 1)"
    using t' by simp
  moreover have "length (filter side_used (st_slots t')) =
      unat (st_count t) + (if side_used (st_slots t ! j) then 0 else 1)"
    using length_filter_update [OF lt, of side_used s] s(2) inv t' by (auto simp: side_inv_def)
  moreover have "st_cap t' = st_cap t" "length (st_slots t') = length (st_slots t)"
    using t' by simp_all
  ultimately have "side_inv t'" using inv room wf by (auto simp: side_inv_def)
  then show ?thesis using map cnt s(3) by (auto simp: side_map_def fun_eq_iff)
qed

lemma side_put_ok:
  assumes inv: "side_inv t" and small: "unat (st_count t) < 2 ^ 26"
  shows "\<exists>t'. side_put t p g n = Some (KV_EOK, t') \<and> side_inv t' \<and>
    unat (st_count t') \<le> Suc (unat (st_count t)) \<and> side_map t' = (side_map t)((p, g) \<mapsto> n)"
proof -
  obtain t1 where t1: "(if st_count t * 10 \<ge> st_cap t * 7 then side_grow t else Some t) = Some t1"
    "side_inv t1" "st_count t1 = st_count t" "Suc (unat (st_count t1)) < unat (st_cap t1)"
    "side_map t1 = side_map t"
  proof (cases "unat (st_count t) * 10 \<ge> unat (st_cap t) * 7")
    case True
    then show ?thesis
      using side_grow_ok [OF inv small True] side_load_cond [OF inv small] that by auto
  next
    case False
    moreover have "4096 \<le> unat (st_cap t)" using inv by (simp add: side_inv_def)
    ultimately show ?thesis using inv side_load_cond [OF inv small] that [of t] by auto
  qed
  obtain j where j: "side.find_slot (st_slots t1) (p, g) = Some j"
    by (rule side_find_total [OF t1(2)])
  have key: "side_used (st_slots t1 ! j) \<Longrightarrow> side_key (st_slots t1 ! j) = (p, g)"
    using side.find_slot_SomeD [OF side_invD(1) [OF t1(2)] j] by auto
  let ?s = "if side_used (st_slots t1 ! j) then (st_slots t1 ! j)\<lparr>ss_node := n\<rparr>
    else \<lparr>ss_prefix_id = p, ss_group_idx = g, ss_node = n, ss_used = 1\<rparr>"
  let ?t = "t1\<lparr>st_slots := (st_slots t1)[j := ?s],
    st_count := st_count t1 + (if side_used (st_slots t1 ! j) then 0 else 1)\<rparr>"
  have "side_put t p g n = Some (KV_EOK, ?t)"
    using t1(1) j by (simp add: side_put_def side_probe_find_slot [OF t1(2)])
  moreover have "side_inv ?t \<and> unat (st_count ?t) \<le> Suc (unat (st_count t1)) \<and>
      side_map ?t = (side_map t1)((p, g) \<mapsto> n)"
    by (rule side_write_ok [OF t1(2,4) j _ _ _ refl]) (use key in auto)
  ultimately show ?thesis using t1(3,5) by metis
qed

lemma side_init_inv: "side_inv side_init"
proof -
  have "unat KV_SIDE_INIT_CAP = 2 ^ 12" by (simp add: KV_SIDE_INIT_CAP_def)
  then show ?thesis
    using side.wf_empty [of 12] by (simp add: side_inv_def side_init_def side_slot0_def)
qed

lemma side_init_map: "side_map side_init = Map.empty"
  using side.map_empty by (auto simp: side_map_def side_init_def)

interpretation side_ins: insert_table side_inv "\<lambda>t. unat (st_count t)" "2 ^ 26" side_map
  "\<lambda>t k v. map_option snd (side_put t (fst k) (snd k) v)"
proof unfold_locales
  fix t :: side_tbl and k v
  assume "side_inv t" "unat (st_count t) < 2 ^ 26"
  from side_put_ok [OF this, of "fst k" "snd k" v]
  show "\<exists>t'. map_option snd (side_put t (fst k) (snd k) v) = Some t' \<and> side_inv t' \<and>
      unat (st_count t') \<le> Suc (unat (st_count t)) \<and> side_map t' = (side_map t)(k \<mapsto> v)"
    by auto
qed

lemma side_put_all_ins_all: "side_put_all t kvs = side_ins.ins_all t kvs"
proof (induction kvs arbitrary: t)
  case (Cons kv kvs)
  obtain p g n where kv: "kv = ((p, g), n)" by (cases kv) auto
  show ?case by (cases "side_put t p g n") (auto simp: kv Cons.IH)
qed simp

section \<open>Properties\<close>

text \<open>C12: A put into the side table returns \<open>KV_EOK\<close>, keeps the table's invariant and changes
  the mapping of exactly one key, whether or not it grew the table, as long as the table holds
  fewer than \<open>2 ^ 26\<close> entries.\<close>

theorem side_put_refines:
  assumes "side_inv t" and "unat (st_count t) < 2 ^ 26"
  shows "\<exists>t'. side_put t p g n = Some (KV_EOK, t') \<and> side_inv t' \<and>
    (\<forall>p' g'. side_get t' p' g' = (if p' = p \<and> g' = g then Some n else side_get t p' g'))"
proof -
  obtain t' where t': "side_put t p g n = Some (KV_EOK, t')" "side_inv t'"
      "side_map t' = (side_map t)((p, g) \<mapsto> n)"
    using side_put_ok [OF assms] by blast
  then show ?thesis using side_get_map [OF assms(1)] side_get_map [OF t'(2)] by auto
qed

text \<open>C13: Recovery's sequence of insertions: after putting any list of at most \<open>2 ^ 26\<close> entries
  into a fresh table, every lookup ends and returns the node of the last entry with that key,
  or the null pointer when there is none.\<close>

theorem side_put_all_get:
  assumes "length kvs \<le> 2 ^ 26"
  shows "\<exists>t. side_put_all side_init kvs = Some t \<and>
    (\<forall>p g. side_get t p g = Some (Option.bind (map_of (rev kvs) (p, g)) id))"
proof -
  have "unat (st_count side_init) + length kvs \<le> 2 ^ 26"
    using assms by (simp add: side_init_def)
  from side_ins.ins_all_ok [OF side_init_inv this] obtain t where
    "side_put_all side_init kvs = Some t" "side_inv t" "side_map t = map_of (rev kvs)"
    by (auto simp: side_put_all_ins_all side_init_map)
  then show ?thesis using side_get_map by auto
qed

theorem side_put_refines_witness:
  "\<exists>t'. side_put side_init 7 1 (Some 3) = Some (KV_EOK, t') \<and> side_inv t' \<and>
    (\<forall>p' g'. side_get t' p' g' = (if p' = 7 \<and> g' = 1 then Some (Some 3) else side_get side_init p' g'))"
  using side_put_refines [OF side_init_inv, of 7 1 "Some 3"] by (simp add: side_init_def)

theorem side_put_all_get_witness:
  "\<exists>t. side_put_all side_init [((7, 1), Some 3), ((7, 2), Some 4), ((7, 1), Some 5)] = Some t \<and>
    side_get t 7 1 = Some (Some 5) \<and> side_get t 8 1 = Some None"
  using side_put_all_get [of "[((7, 1), Some 3), ((7, 2), Some 4), ((7, 1), Some 5)]"] by auto

end
