(* ===== verification/KV_Forest.thy ===== *)
theory KV_Forest
  imports KV_Prelude
begin

text \<open>
  Trees kept in a heap.  The radix tree of \<open>src/radix.cpp\<close> is walked recursively
  (\<open>radix_hit_decay\<close>, \<open>node_free_rec\<close>) and with an explicit stack (\<open>radix_visit\<close>).
  The locale \<open>rose_heap\<close> states what such a heap provides: every child lies behind its
  parent in allocation order and points back to it, and every node but the first is a child of
  its parent.  From that it proves once that a depth-first traversal meets every node exactly
  once and needs no more than one level of recursion per node.
\<close>

locale rose_heap =
  fixes wf :: "'h \<Rightarrow> bool" and size :: "'h \<Rightarrow> nat"
    and kids :: "'h \<Rightarrow> nat \<Rightarrow> nat list" and par :: "'h \<Rightarrow> nat \<Rightarrow> nat option"
  assumes kids_bounds: "wf h \<Longrightarrow> i < size h \<Longrightarrow> j \<in> set (kids h i) \<Longrightarrow>
      i < j \<and> j < size h \<and> par h j = Some i"
    and kids_distinct: "wf h \<Longrightarrow> i < size h \<Longrightarrow> distinct (kids h i)"
    and par_kids: "wf h \<Longrightarrow> j < size h \<Longrightarrow> j \<noteq> 0 \<Longrightarrow>
      \<exists>i < j. par h j = Some i \<and> j \<in> set (kids h i)"
    and par_root: "wf h \<Longrightarrow> par h 0 = None"
begin

primrec dfs :: "nat \<Rightarrow> 'h \<Rightarrow> nat \<Rightarrow> nat list" where
  "dfs 0 h i = []"
| "dfs (Suc f) h i = i # concat (map (dfs f h) (kids h i))"

primrec up :: "nat \<Rightarrow> 'h \<Rightarrow> nat \<Rightarrow> nat option" where
  "up 0 h j = Some j"
| "up (Suc k) h j = (case par h j of None \<Rightarrow> None | Some i \<Rightarrow> up k h i)"

lemma up_add: "up (m + k) h j = Option.bind (up m h j) (up k h)"
  by (induction m arbitrary: j) (auto split: option.splits)

lemma dfs_bounds:
  assumes "wf h" and "i < size h" and "j \<in> set (dfs f h i)"
  shows "i \<le> j \<and> j < size h \<and> (\<exists>k. up k h j = Some i)"
  using assms(2,3)
proof (induction f arbitrary: i)
  case (Suc f)
  show ?case
  proof (cases "j = i")
    case True
    have "up 0 h i = Some i" by simp
    with True Suc.prems show ?thesis by blast
  next
    case False
    then obtain c where c: "c \<in> set (kids h i)" "j \<in> set (dfs f h c)"
      using Suc.prems(2) by auto
    from kids_bounds [OF assms(1) Suc.prems(1) c(1)]
    have b: "i < c" "c < size h" "par h c = Some i" by auto
    from Suc.IH [OF b(2) c(2)] obtain k where k: "c \<le> j" "j < size h" "up k h j = Some c" by blast
    then have "up (k + 1) h j = Some i" using b(3) by (subst up_add) simp
    with k b show ?thesis by (meson less_imp_le_nat order_less_le_trans)
  qed
qed simp

lemma up_le:
  assumes "wf h" and "j < size h" and "up k h j = Some i"
  shows "i \<le> j"
  using assms(2,3)
proof (induction k arbitrary: j)
  case (Suc k)
  then obtain p where p: "par h j = Some p" "up k h p = Some i"
    by (auto split: option.splits)
  then have "j \<noteq> 0" using par_root [OF assms(1)] by (metis option.distinct(1))
  with par_kids [OF assms(1) Suc.prems(1)] p have "p < j" by auto
  with Suc.IH [of p] Suc.prems(1) p show ?case by auto
qed simp

text \<open>Subtrees of different children do not meet.\<close>

lemma siblings_disjoint:
  assumes wf: "wf h" and i: "i < size h"
    and c: "c \<in> set (kids h i)" and d: "d \<in> set (kids h i)" and ne: "c \<noteq> d"
  shows "set (dfs f h c) \<inter> set (dfs g h d) = {}"
proof -
  have no: False if k: "up k h j = Some c" "up (k + m) h j = Some d" and cd: "c \<in> set (kids h i)"
      "d \<in> set (kids h i)" "c \<noteq> d" for k m j c d
  proof -
    have "up m h c = Some d" using k by (simp add: up_add)
    moreover have "par h c = Some i" using kids_bounds [OF wf i cd(1)] by simp
    ultimately obtain m' where m': "up m' h i = Some d" using cd(3) by (cases m) auto
    have "d \<le> i" using wf i m' by (rule up_le)
    with kids_bounds [OF wf i cd(2)] show False by simp
  qed
  show ?thesis
  proof (rule equals0I)
    fix j assume j: "j \<in> set (dfs f h c) \<inter> set (dfs g h d)"
    have "c < size h" "d < size h" using kids_bounds [OF wf i] c d by auto
    with j dfs_bounds [OF wf] obtain k l where kl: "up k h j = Some c" "up l h j = Some d"
      by blast
    show False
    proof (cases "k \<le> l")
      case True
      then obtain m where "l = k + m" by (rule le_Suc_ex [THEN exE])
      with kl no [of k j c m d] c d ne show False by simp
    next
      case False
      then obtain m where "k = l + m" using le_Suc_ex [of l k] by auto
      with kl no [of l j d m c] c d ne show False by simp
    qed
  qed
qed

lemma dfs_distinct:
  assumes "wf h" and "i < size h"
  shows "distinct (dfs f h i)"
  using assms(2)
proof (induction f arbitrary: i)
  case (Suc f)
  have "distinct (concat (map (dfs f h) cs))"
    if cs: "distinct cs" "set cs \<subseteq> set (kids h i)" for cs
    using cs
  proof (induction cs)
    case (Cons c cs)
    have "c < size h" using kids_bounds [OF assms(1) Suc.prems] Cons.prems by auto
    moreover have "set (dfs f h c) \<inter> set (dfs f h d) = {}" if "d \<in> set cs" for d
    proof (rule siblings_disjoint [OF assms(1) Suc.prems])
      show "c \<in> set (kids h i)" "d \<in> set (kids h i)" "c \<noteq> d" using Cons.prems that by auto
    qed
    ultimately show ?case using Cons Suc.IH by auto
  qed simp
  then have "distinct (concat (map (dfs f h) (kids h i)))"
    using kids_distinct [OF assms(1) Suc.prems] by simp
  moreover have "i \<notin> set (dfs f h c)" if "c \<in> set (kids h i)" for c
  proof
    assume "i \<in> set (dfs f h c)"
    with dfs_bounds [OF assms(1)] kids_bounds [OF assms(1) Suc.prems that] show False by fastforce
  qed
  ultimately show ?case by auto
qed simp

text \<open>One level of recursion per node is enough, and more changes nothing.\<close>

lemma dfs_enough:
  assumes "wf h" and "i < size h" and "size h \<le> f + i" and "size h \<le> g + i"
  shows "dfs f h i = dfs g h i"
  using assms(2-4)
proof (induction f arbitrary: g i)
  case (Suc f)
  then obtain g' where g: "g = Suc g'" by (cases g) auto
  have "dfs f h c = dfs g' h c" if "c \<in> set (kids h i)" for c
    using kids_bounds [OF assms(1) Suc.prems(1) that] Suc.prems g by (intro Suc.IH) auto
  then show ?case using g by (simp cong: map_cong)
qed simp

lemma dfs_closed:
  assumes "wf h" and "i < size h" and "size h \<le> f + i" and "j \<in> set (dfs f h i)"
    and "c \<in> set (kids h j)"
  shows "c \<in> set (dfs f h i)"
  using assms(2-5)
proof (induction f arbitrary: i)
  case (Suc f)
  show ?case
  proof (cases "j = i")
    case True
    have b: "i < c" "c < size h" using kids_bounds [OF assms(1) Suc.prems(1)] Suc.prems(4) True by auto
    then obtain f' where "f = Suc f'" using Suc.prems(2) by (cases f) auto
    then have "c \<in> set (dfs f h c)" by simp
    with True Suc.prems(4) show ?thesis by auto
  next
    case False
    then obtain d where d: "d \<in> set (kids h i)" "j \<in> set (dfs f h d)" using Suc.prems(3) by auto
    have "c \<in> set (dfs f h d)"
      using kids_bounds [OF assms(1) Suc.prems(1) d(1)] Suc.prems d by (intro Suc.IH) auto
    with d show ?thesis by auto
  qed
qed simp

lemma dfs_all:
  assumes "wf h" and "0 < size h" and "size h \<le> f"
  shows "set (dfs f h 0) = {..<size h}"
proof
  show "set (dfs f h 0) \<subseteq> {..<size h}" using dfs_bounds [OF assms(1,2)] by auto
  have "j \<in> set (dfs f h 0)" if "j < size h" for j
    using that
  proof (induction j rule: less_induct)
    case (less j)
    show ?case
    proof (cases "j = 0")
      case True
      then show ?thesis using assms by (cases f) auto
    next
      case False
      from par_kids [OF assms(1) less.prems False] obtain i where
        i: "i < j" "j \<in> set (kids h i)" by blast
      have "i \<in> set (dfs f h 0)" using less.IH [OF i(1)] i less.prems by simp
      with dfs_closed [OF assms(1,2) _ _ i(2)] assms(3) show ?thesis by simp
    qed
  qed
  then show "{..<size h} \<subseteq> set (dfs f h 0)" by auto
qed

lemma dfs_length:
  assumes "wf h" and "0 < size h" and "size h \<le> f"
  shows "length (dfs f h 0) = size h"
  using dfs_all [OF assms(1-3)] distinct_card [OF dfs_distinct [OF assms(1,2), of f]] by simp

end

end
