(* ===== verification/KV_Radix.thy ===== *)
theory KV_Radix
  imports KV_Hash KV_Probe KV_Common KV_Forest
begin

text \<open>
  The radix tree of \<open>src/radix.hpp\<close> and \<open>src/radix.cpp\<close>: the data, the edge tables of a
  node and the operations on the tree, and \<open>hot_check_path\<close> and \<open>hot_decay\<close> of
  \<open>src/hot.cpp\<close>.  Nodes live in a heap (a list); a node pointer is an index into it and
  \<open>None\<close> is the null pointer; leaf pointers are indices into the leaf heap of the cache.
  A node has eight inline edges and moves them to an open-addressing overflow table when it
  needs a ninth.  The outcomes of \<open>calloc\<close> are a script \<open>rt_mem\<close>, one entry per call, an
  exhausted script meaning success.  Loops without a bound in the source return an option, with
  \<open>None\<close> for a loop that does not end.  This theory holds the definitions and the lemmas about
  lookups in an overflow table; \<open>KV_Radix_Node\<close> has the edges of one node and
  \<open>KV_Radix_Tree\<close> the tree.
\<close>

section \<open>Data\<close>

definition KV_INLINE_SLOTS :: nat where
  "KV_INLINE_SLOTS = 8"

definition KV_EDGE_F_HOT :: u16 where
  "KV_EDGE_F_HOT = 1"

definition KV_EDGE_F_DELETED :: u16 where
  "KV_EDGE_F_DELETED = 2"

record radix_edge =
  re_child_hash :: u64
  re_child :: "nat option"
  re_flags :: u16

record radix_ovf =
  ro_cap :: u32
  ro_used :: u32
  ro_n_del :: u32
  ro_slots :: "radix_edge list"

record radix_node =
  rn_hit_count :: u32
  rn_depth :: u32
  rn_n_edges :: u16
  rn_ovf_flag :: u16
  rn_slots :: "radix_edge list"
  rn_ovf :: "radix_ovf option"
  rn_parent :: "nat option"
  rn_leaf :: "nat option"

record radix_tree =
  rt_nodes :: "radix_node list"
  rt_root :: nat
  rt_n_leaves :: u32
  rt_mem :: "bool list"

definition radix_edge0 :: radix_edge where
  "radix_edge0 = \<lparr>re_child_hash = 0, re_child = None, re_flags = 0\<rparr>"

definition radix_ovf0 :: radix_ovf where
  "radix_ovf0 = \<lparr>ro_cap = 0, ro_used = 0, ro_n_del = 0, ro_slots = []\<rparr>"

section \<open>Edge tables\<close>

text \<open>The next outcome of the allocator.\<close>

fun alloc :: "bool list \<Rightarrow> bool \<times> bool list" where
  "alloc [] = (True, [])"
| "alloc (ok # mem) = (ok, mem)"

definition node_new :: "u32 \<Rightarrow> radix_node" where
  "node_new depth = \<lparr>rn_hit_count = 0, rn_depth = depth, rn_n_edges = 0, rn_ovf_flag = 0,
    rn_slots = replicate KV_INLINE_SLOTS radix_edge0, rn_ovf = None, rn_parent = None, rn_leaf = None\<rparr>"

text \<open>\<open>radix_init\<close> aborts the process when the root cannot be allocated; then there is no tree.\<close>

definition radix_init :: "bool list \<Rightarrow> radix_tree option" where
  "radix_init mem =
    (case alloc mem of (ok, mem') \<Rightarrow>
       if ok then Some \<lparr>rt_nodes = [node_new 0], rt_root = 0, rt_n_leaves = 0, rt_mem = mem'\<rparr>
       else None)"

definition edge_deleted :: "radix_edge \<Rightarrow> bool" where
  "edge_deleted e \<longleftrightarrow> re_flags e AND KV_EDGE_F_DELETED \<noteq> 0"

definition edge_live :: "radix_edge \<Rightarrow> bool" where
  "edge_live e \<longleftrightarrow> re_child_hash e \<noteq> 0 \<and> \<not> edge_deleted e"

definition edge_find :: "radix_node \<Rightarrow> u64 \<Rightarrow> nat option" where
  "edge_find n h =
    (case find (\<lambda>e. re_child_hash e = h \<and> \<not> edge_deleted e) (rn_slots n) of
       None \<Rightarrow> None
     | Some e \<Rightarrow> re_child e)"

text \<open>The loop \<open>for (i = hash_mix64(h) & mask;; i = (i + 1) & mask)\<close>.\<close>

definition ovf_probe :: "(radix_edge \<Rightarrow> bool) \<Rightarrow> radix_edge list \<Rightarrow> u32 \<Rightarrow> u64 \<Rightarrow> nat option" where
  "ovf_probe stop slots cap h =
    probe stop slots (unat (cap - 1)) (unat cap) (unat (hash_mix64 h AND ucast (cap - 1)))"

definition ovf_lookup :: "radix_ovf \<Rightarrow> u64 \<Rightarrow> nat option option" where
  "ovf_lookup ov h =
    (case ovf_probe (\<lambda>e. re_child_hash e = 0 \<or> (re_child_hash e = h \<and> \<not> edge_deleted e))
            (ro_slots ov) (ro_cap ov) h of
       None \<Rightarrow> None
     | Some i \<Rightarrow> Some (if re_child_hash (ro_slots ov ! i) = 0 then None else re_child (ro_slots ov ! i)))"

definition edge_find_ovf :: "radix_node \<Rightarrow> u64 \<Rightarrow> nat option option" where
  "edge_find_ovf n h = (case rn_ovf n of None \<Rightarrow> Some None | Some ov \<Rightarrow> ovf_lookup ov h)"

definition edge_get :: "radix_node \<Rightarrow> u64 \<Rightarrow> nat option option" where
  "edge_get n h = (if rn_ovf_flag n \<noteq> 0 then edge_find_ovf n h else Some (edge_find n h))"

text \<open>The copy loop of \<open>ovf_grow\<close> and \<open>ovf_migrate\<close>; the last component counts the edges placed.\<close>

fun ovf_fill :: "u32 \<Rightarrow> radix_edge list \<Rightarrow> radix_edge list \<Rightarrow> u32 \<Rightarrow> (radix_edge list \<times> u32) option" where
  "ovf_fill cap [] slots cnt = Some (slots, cnt)"
| "ovf_fill cap (e # es) slots cnt =
    (if re_child_hash e = 0 \<or> edge_deleted e then ovf_fill cap es slots cnt
     else case ovf_probe (\<lambda>e. re_child_hash e = 0) slots cap (re_child_hash e) of
            None \<Rightarrow> None
          | Some j \<Rightarrow> ovf_fill cap es (slots[j := e]) (cnt + 1))"

definition ovf_grow :: "radix_ovf \<Rightarrow> bool list \<Rightarrow> (int \<times> radix_ovf \<times> bool list) option" where
  "ovf_grow ov mem =
    (let new_cap = (if ro_cap ov \<noteq> 0 then ro_cap ov * 2 else 16)
     in case alloc mem of (ok, mem') \<Rightarrow>
          if \<not> ok then Some (- KV_ENOMEM, ov, mem')
          else case ovf_fill new_cap (take (unat (ro_cap ov)) (ro_slots ov))
                      (replicate (unat new_cap) radix_edge0) 0 of
                 None \<Rightarrow> None
               | Some (slots, _) \<Rightarrow>
                   Some (KV_EOK, ov\<lparr>ro_slots := slots, ro_cap := new_cap, ro_n_del := 0\<rparr>, mem'))"

definition ovf_migrate :: "radix_node \<Rightarrow> bool list \<Rightarrow> (int \<times> radix_node \<times> bool list) option" where
  "ovf_migrate n mem =
    (case alloc mem of (ok, mem1) \<Rightarrow>
       if \<not> ok then Some (- KV_ENOMEM, n, mem1)
       else case ovf_grow radix_ovf0 mem1 of
              None \<Rightarrow> None
            | Some (rc, ov, mem2) \<Rightarrow>
                if rc \<noteq> KV_EOK then Some (- KV_ENOMEM, n\<lparr>rn_ovf := Some ov\<rparr>, mem2)
                else case ovf_fill (ro_cap ov) (rn_slots n) (ro_slots ov) (ro_used ov) of
                       None \<Rightarrow> None
                     | Some (slots, used) \<Rightarrow>
                         Some (KV_EOK,
                           n\<lparr>rn_ovf := Some (ov\<lparr>ro_slots := slots, ro_used := used\<rparr>),
                             rn_slots := replicate KV_INLINE_SLOTS radix_edge0,
                             rn_ovf_flag := 1\<rparr>, mem2))"

definition edge_free_slot :: "radix_edge list \<Rightarrow> nat option" where
  "edge_free_slot es = find (\<lambda>i. re_child_hash (es ! i) = 0) [0..<KV_INLINE_SLOTS]"

text \<open>The second half of \<open>edge_add\<close>: insertion into the overflow table.  The result of the
  growth is ignored, as in the source.\<close>

definition ovf_add :: "radix_ovf \<Rightarrow> u64 \<Rightarrow> nat option \<Rightarrow> bool list \<Rightarrow> (radix_ovf \<times> bool list) option" where
  "ovf_add ov h child mem =
    (case (if ro_used ov + ro_n_del ov + 1 > ro_cap ov * 7 div 10
           then map_option snd (ovf_grow ov mem) else Some (ov, mem)) of
       None \<Rightarrow> None
     | Some (ov, mem) \<Rightarrow>
         (case ovf_probe (\<lambda>e. re_child_hash e = 0 \<or> edge_deleted e) (ro_slots ov) (ro_cap ov) h of
            None \<Rightarrow> None
          | Some i \<Rightarrow>
              Some ((if re_child_hash (ro_slots ov ! i) = 0 then ov\<lparr>ro_used := ro_used ov + 1\<rparr>
                     else ov\<lparr>ro_n_del := ro_n_del ov - 1\<rparr>)
                    \<lparr>ro_slots := (ro_slots ov)[i := \<lparr>re_child_hash = h, re_child = child, re_flags = 0\<rparr>]\<rparr>,
                    mem)))"

definition edge_add :: "radix_node \<Rightarrow> u64 \<Rightarrow> nat option \<Rightarrow> bool list \<Rightarrow> (int \<times> radix_node \<times> bool list) option" where
  "edge_add n h child mem =
    (case (if rn_ovf_flag n = 0 then edge_free_slot (rn_slots n) else None) of
       Some i \<Rightarrow>
         Some (KV_EOK,
           n\<lparr>rn_slots := (rn_slots n)[i := \<lparr>re_child_hash = h, re_child = child, re_flags = 0\<rparr>],
             rn_n_edges := rn_n_edges n + 1\<rparr>, mem)
     | None \<Rightarrow>
         (case (if rn_ovf_flag n = 0 then ovf_migrate n mem else Some (KV_EOK, n, mem)) of
            None \<Rightarrow> None
          | Some (rc, n, mem) \<Rightarrow>
              if rc \<noteq> KV_EOK then Some (- KV_ENOMEM, n, mem)
              else case rn_ovf n of
                     None \<Rightarrow> None
                   | Some ov \<Rightarrow>
                       (case ovf_add ov h child mem of
                          None \<Rightarrow> None
                        | Some (ov, mem) \<Rightarrow>
                            Some (KV_EOK, n\<lparr>rn_ovf := Some ov, rn_n_edges := rn_n_edges n + 1\<rparr>, mem))))"

section \<open>Tree operations\<close>

fun radix_walk_from :: "radix_tree \<Rightarrow> nat \<Rightarrow> nat \<Rightarrow> u64 list \<Rightarrow> bool \<Rightarrow> (nat option \<times> radix_tree) option" where
  "radix_walk_from t cur k [] create = Some (Some cur, t)"
| "radix_walk_from t cur k (h # hashes) create =
    (case edge_get (rt_nodes t ! cur) h of
       None \<Rightarrow> None
     | Some (Some child) \<Rightarrow> radix_walk_from t child (k + 1) hashes create
     | Some None \<Rightarrow>
         if \<not> create then Some (None, t)
         else case alloc (rt_mem t) of (ok, mem) \<Rightarrow>
           if \<not> ok then Some (None, t\<lparr>rt_mem := mem\<rparr>)
           else
             (let child = length (rt_nodes t)
              in case edge_add (rt_nodes t ! cur) h (Some child) mem of
                   None \<Rightarrow> None
                 | Some (rc, n, mem) \<Rightarrow>
                     if rc \<noteq> KV_EOK then
                       Some (None, t\<lparr>rt_nodes := (rt_nodes t)[cur := n], rt_mem := mem\<rparr>)
                     else
                       radix_walk_from
                         (t\<lparr>rt_nodes := (rt_nodes t)[cur := n] @
                              [(node_new (of_nat (k + 1)))\<lparr>rn_parent := Some cur\<rparr>],
                            rt_mem := mem\<rparr>)
                         child (k + 1) hashes create))"

definition radix_walk :: "radix_tree \<Rightarrow> u64 list \<Rightarrow> bool \<Rightarrow> (nat option \<times> radix_tree) option" where
  "radix_walk t hashes create = radix_walk_from t (rt_root t) 0 hashes create"

primrec radix_hit_ascend :: "nat \<Rightarrow> radix_node list \<Rightarrow> nat option \<Rightarrow> u32 \<Rightarrow> radix_node list option" where
  "radix_hit_ascend 0 ns cur inc = (if cur = None then Some ns else None)"
| "radix_hit_ascend (Suc fuel) ns cur inc =
    (case cur of
       None \<Rightarrow> Some ns
     | Some i \<Rightarrow>
         radix_hit_ascend fuel (ns[i := (ns ! i)\<lparr>rn_hit_count := rn_hit_count (ns ! i) + inc\<rparr>])
           (rn_parent (ns ! i)) inc)"

text \<open>All edges of a node in the order the traversals scan them.\<close>

definition node_edges :: "radix_node \<Rightarrow> radix_edge list" where
  "node_edges n = rn_slots n @
    (case rn_ovf n of None \<Rightarrow> [] | Some ov \<Rightarrow> take (unat (ro_cap ov)) (ro_slots ov))"

primrec radix_hit_decay :: "nat \<Rightarrow> radix_node list \<Rightarrow> nat option \<Rightarrow> radix_node list option" where
  "radix_hit_decay 0 ns p = (if p = None then Some ns else None)"
| "radix_hit_decay (Suc fuel) ns p =
    (case p of
       None \<Rightarrow> Some ns
     | Some i \<Rightarrow>
         fold (\<lambda>e acc. case acc of
                 None \<Rightarrow> None
               | Some ns \<Rightarrow> if edge_live e then radix_hit_decay fuel ns (re_child e) else Some ns)
           (node_edges (ns ! i))
           (Some (ns[i := (ns ! i)\<lparr>rn_hit_count := drop_bit 1 (rn_hit_count (ns ! i))\<rparr>])))"

definition hot_decay :: "radix_tree \<Rightarrow> radix_tree option" where
  "hot_decay t = map_option (\<lambda>ns. t\<lparr>rt_nodes := ns\<rparr>)
    (radix_hit_decay (length (rt_nodes t)) (rt_nodes t) (Some (rt_root t)))"

text \<open>\<open>radix_visit\<close>: the stack has its top at the head; \<open>cap\<close> is the number of entries it has
  room for.  The callback sees the node and threads its argument.\<close>

function stk_cap :: "nat \<Rightarrow> nat \<Rightarrow> nat" where
  "stk_cap want cap = (if 0 < cap \<and> want > cap then stk_cap want (cap * 2) else cap)"
  by pat_completeness auto
termination by (relation "measure (\<lambda>(want, cap). want - cap)") auto

declare stk_cap.simps [simp del]

fun radix_visit_loop :: "nat \<Rightarrow> radix_node list \<Rightarrow> (nat \<Rightarrow> 'a \<Rightarrow> int \<times> 'a) \<Rightarrow> nat list \<Rightarrow> nat \<Rightarrow> bool list \<Rightarrow> 'a \<Rightarrow> (int \<times> 'a) option" where
  "radix_visit_loop fuel ns fn [] cap mem arg = Some (0, arg)"
| "radix_visit_loop 0 ns fn (cur # stk) cap mem arg = None"
| "radix_visit_loop (Suc fuel) ns fn (cur # stk) cap mem arg =
    (case fn cur arg of (rc, arg) \<Rightarrow>
       if rc \<noteq> 0 then Some (rc, arg)
       else
         (let need = KV_INLINE_SLOTS + (case rn_ovf (ns ! cur) of None \<Rightarrow> 0 | Some ov \<Rightarrow> unat (ro_cap ov));
              grow = length stk + need > cap;
              (ok, mem) = (if grow then alloc mem else (True, mem));
              cap = (if grow then stk_cap (length stk + need) cap else cap)
          in if \<not> ok then Some (- KV_ENOMEM, arg)
             else radix_visit_loop fuel ns fn
                    (rev (map (\<lambda>e. the (re_child e)) (filter edge_live (node_edges (ns ! cur)))) @ stk)
                    cap mem arg))"

definition radix_visit :: "radix_tree \<Rightarrow> (nat \<Rightarrow> 'a \<Rightarrow> int \<times> 'a) \<Rightarrow> 'a \<Rightarrow> (int \<times> 'a) option" where
  "radix_visit t fn arg =
    (case alloc (rt_mem t) of (ok, mem) \<Rightarrow>
       if \<not> ok then Some (- KV_ENOMEM, arg)
       else radix_visit_loop (length (rt_nodes t)) (rt_nodes t) fn [rt_root t] 256 mem arg)"

definition radix_visit_leaves :: "radix_tree \<Rightarrow> (nat \<Rightarrow> 'a \<Rightarrow> int \<times> 'a) \<Rightarrow> 'a \<Rightarrow> (int \<times> 'a) option" where
  "radix_visit_leaves t fn arg =
    radix_visit t (\<lambda>i arg. case rn_leaf (rt_nodes t ! i) of None \<Rightarrow> (0, arg) | Some l \<Rightarrow> fn l arg) arg"

text \<open>\<open>node_free_rec\<close> as the sequence of blocks it frees.\<close>

datatype block = Block_ovf_slots nat | Block_ovf nat | Block_stripe nat | Block_leaf nat | Block_node nat

primrec node_free_rec :: "nat \<Rightarrow> radix_node list \<Rightarrow> nat \<Rightarrow> block list" where
  "node_free_rec 0 ns i = []"
| "node_free_rec (Suc fuel) ns i =
    concat (map (\<lambda>e. node_free_rec fuel ns (the (re_child e))) (filter edge_live (node_edges (ns ! i)))) @
    (case rn_ovf (ns ! i) of None \<Rightarrow> [] | Some _ \<Rightarrow> [Block_ovf_slots i, Block_ovf i]) @
    (case rn_leaf (ns ! i) of None \<Rightarrow> [] | Some l \<Rightarrow> [Block_stripe l, Block_leaf l]) @
    [Block_node i]"

definition radix_destroy :: "radix_tree \<Rightarrow> block list" where
  "radix_destroy t = node_free_rec (length (rt_nodes t)) (rt_nodes t) (rt_root t)"

text \<open>\<open>hot_check_path\<close> has its own copy of the child lookup.\<close>

definition hot_child :: "radix_node \<Rightarrow> u64 \<Rightarrow> nat option option" where
  "hot_child n h =
    (case edge_find n h of
       Some c \<Rightarrow> Some (Some c)
     | None \<Rightarrow> (case rn_ovf n of None \<Rightarrow> Some None | Some ov \<Rightarrow> ovf_lookup ov h))"

fun hot_check_from :: "radix_node list \<Rightarrow> nat \<Rightarrow> nat option \<Rightarrow> u64 list \<Rightarrow> u32 \<Rightarrow> bool option" where
  "hot_check_from ns cur parent [] threshold =
    Some (if rn_hit_count (ns ! cur) > threshold then True
          else case parent of None \<Rightarrow> False | Some p \<Rightarrow> rn_hit_count (ns ! p) > threshold)"
| "hot_check_from ns cur parent (h # hashes) threshold =
    (case hot_child (ns ! cur) h of
       None \<Rightarrow> None
     | Some None \<Rightarrow> Some False
     | Some (Some child) \<Rightarrow> hot_check_from ns child (Some cur) hashes threshold)"

definition hot_check_path :: "radix_tree \<Rightarrow> u64 list \<Rightarrow> u32 \<Rightarrow> bool option" where
  "hot_check_path t hashes threshold = hot_check_from (rt_nodes t) (rt_root t) None hashes threshold"

section \<open>Well-formed nodes\<close>

abbreviation edge_used :: "radix_edge \<Rightarrow> bool" where
  "edge_used e \<equiv> re_child_hash e \<noteq> 0"

abbreviation edge_home :: "u64 \<Rightarrow> nat" where
  "edge_home h \<equiv> unat (hash_mix64 h)"

text \<open>An overflow table: a probe table at most seven tenths full that grew only when it had to.\<close>

definition ovf_wf :: "radix_ovf \<Rightarrow> bool" where
  "ovf_wf ov \<longleftrightarrow>
    probe_wf edge_used re_child_hash edge_home (ro_slots ov) \<and>
    unat (ro_cap ov) = length (ro_slots ov) \<and> ro_n_del ov = 0 \<and>
    (\<forall>e \<in> set (ro_slots ov). \<not> edge_deleted e) \<and>
    unat (ro_used ov) = length (filter edge_used (ro_slots ov)) \<and>
    16 \<le> unat (ro_cap ov) \<and> unat (ro_used ov) * 10 \<le> unat (ro_cap ov) * 7 \<and>
    (unat (ro_cap ov) = 16 \<or> unat (ro_cap ov) * 7 \<le> unat (ro_used ov) * 20)"

definition node_wf :: "radix_node \<Rightarrow> bool" where
  "node_wf n \<longleftrightarrow>
    length (rn_slots n) = KV_INLINE_SLOTS \<and> (\<forall>e \<in> set (rn_slots n). \<not> edge_deleted e) \<and>
    (if rn_ovf_flag n = 0
     then rn_ovf n = None \<and> distinct (map re_child_hash (filter edge_used (rn_slots n)))
     else filter edge_used (rn_slots n) = [] \<and> (\<exists>ov. rn_ovf n = Some ov \<and> ovf_wf ov))"

text \<open>The edge map of a node.\<close>

definition node_map :: "radix_node \<Rightarrow> u64 \<Rightarrow> radix_edge option" where
  "node_map n h = probe_map edge_used re_child_hash (node_edges n) h"

definition node_child :: "radix_node \<Rightarrow> u64 \<Rightarrow> nat option" where
  "node_child n h = Option.bind (node_map n h) re_child"

abbreviation no_oom :: "bool list \<Rightarrow> bool" where
  "no_oom mem \<equiv> (\<forall>ok \<in> set mem. ok)"

lemma alloc_no_oom: "no_oom mem \<Longrightarrow> \<exists>mem'. alloc mem = (True, mem') \<and> no_oom mem'"
  by (cases mem) auto

interpretation ovf: probe_table edge_used re_child_hash edge_home radix_edge0
  by unfold_locales (simp add: radix_edge0_def)

lemma radix_edge0_simps [simp]:
  "re_child_hash radix_edge0 = 0" "\<not> edge_deleted radix_edge0" "\<not> edge_live radix_edge0"
  by (simp_all add: radix_edge0_def edge_deleted_def edge_live_def)

lemma edge_deleted_new [simp]:
  "\<not> edge_deleted \<lparr>re_child_hash = h, re_child = c, re_flags = 0\<rparr>"
  by (simp add: edge_deleted_def)

lemma probe_map_append:
  "probe_map used key (xs @ ys) x =
    (case probe_map used key xs x of None \<Rightarrow> probe_map used key ys x | Some s \<Rightarrow> Some s)"
  by (induction xs) auto

lemma probe_map_unused:
  "filter used xs = [] \<Longrightarrow> probe_map used key xs x = None"
  by (induction xs) (auto split: if_splits)

section \<open>Overflow tables\<close>

lemma ovf_probe_probe_from:
  assumes "unat cap = length slots" and "slots \<noteq> []"
  shows "ovf_probe stop slots cap h = probe_from stop slots (edge_home h)"
proof -
  have "cap \<noteq> 0" using assms by auto
  then have "unat (cap - 1) = unat cap - 1" by (rule unat_minus_one)
  then show ?thesis
    using assms by (simp add: ovf_probe_def probe_from_def unsigned_and_eq)
qed

lemma ovf_fill_reinsert:
  assumes "unat cap = length slots" and "slots \<noteq> []" and "\<forall>e \<in> set es. \<not> edge_deleted e"
  shows "ovf_fill cap es slots cnt =
    map_option (\<lambda>ns. (ns, cnt + of_nat (length (filter edge_used es))))
      (reinsert edge_used (\<lambda>e. \<not> edge_used e) (\<lambda>e. edge_home (re_child_hash e)) es slots)"
  using assms
  by (induction es arbitrary: slots cnt)
    (auto simp: ovf_probe_probe_from option.map_comp comp_def ac_simps split: option.splits)

lemma ovf_wfD:
  assumes "ovf_wf ov"
  shows "probe_wf edge_used re_child_hash edge_home (ro_slots ov)"
    and "unat (ro_cap ov) = length (ro_slots ov)" and "ro_slots ov \<noteq> []"
    and "\<forall>e \<in> set (ro_slots ov). \<not> edge_deleted e"
    and "length (filter edge_used (ro_slots ov)) < length (ro_slots ov)"
    and "\<exists>k. length (ro_slots ov) = 2 ^ k"
    and "16 \<le> length (ro_slots ov)"
  using assms by (auto simp: ovf_wf_def probe_wf_def)

lemma ovf_find_total:
  assumes "probe_wf edge_used re_child_hash edge_home slots"
    and "length (filter edge_used slots) < length slots"
  obtains j where "ovf.find_slot slots h = Some j"
  using unused_slot_exists [OF assms(2)] ovf.find_slot_total [OF assms(1)] that by blast

lemma ovf_lookup_ok:
  assumes "ovf_wf ov" and "h \<noteq> 0"
  shows "ovf_lookup ov h =
    Some (Option.bind (probe_map edge_used re_child_hash (ro_slots ov) h) re_child)"
proof -
  note d = ovf_wfD [OF assms(1)]
  obtain j where j: "ovf.find_slot (ro_slots ov) h = Some j" using d(1,5) by (rule ovf_find_total)
  obtain k where k: "length (ro_slots ov) = 2 ^ k" using d(6) by blast
  have "probe_from (\<lambda>e. re_child_hash e = 0 \<or> (re_child_hash e = h \<and> \<not> edge_deleted e))
      (ro_slots ov) (edge_home h) = ovf.find_slot (ro_slots ov) h"
    using k by (rule probe_from_cong [rotated]) (use d(4) in auto)
  then show ?thesis
    using j ovf.find_slot_map [OF d(1) j] d(2,3)
    by (simp add: ovf_lookup_def ovf_probe_probe_from)
qed

end
