(* ===== verification/KV_Radix_Node.thy ===== *)
theory KV_Radix_Node
  imports KV_Radix
begin

text \<open>
  The edges of one radix node: lookups read the node's edge map, and \<open>edge_add\<close> adds exactly
  one entry to it on each of its paths, a free inline slot, the migration of the eight inline
  edges to a new overflow table, and an overflow table with and without growth.
\<close>

section \<open>Lookups\<close>

lemma node_map_inline:
  assumes "node_wf n" and "rn_ovf_flag n = 0"
  shows "node_map n h = probe_map edge_used re_child_hash (rn_slots n) h"
  using assms by (simp add: node_map_def node_edges_def node_wf_def)

lemma node_map_ovf:
  assumes "node_wf n" and "rn_ovf_flag n \<noteq> 0" and "rn_ovf n = Some ov"
  shows "node_map n h = probe_map edge_used re_child_hash (ro_slots ov) h" and "ovf_wf ov"
  using assms
  by (auto simp: node_map_def node_edges_def node_wf_def probe_map_append probe_map_unused ovf_wf_def)

lemma edge_find_ok:
  assumes "node_wf n" and "h \<noteq> 0"
  shows "edge_find n h = Option.bind (probe_map edge_used re_child_hash (rn_slots n) h) re_child"
proof -
  have "\<forall>e \<in> set (rn_slots n). \<not> edge_deleted e" using assms by (simp add: node_wf_def)
  then have "find (\<lambda>e. re_child_hash e = h \<and> \<not> edge_deleted e) (rn_slots n) =
      find (\<lambda>e. edge_used e \<and> re_child_hash e = h) (rn_slots n)"
    using assms(2) by (intro find_cong) auto
  then show ?thesis by (auto simp: edge_find_def probe_map_def split: option.splits)
qed

lemma edge_get_ok:
  assumes "node_wf n" and "h \<noteq> 0"
  shows "edge_get n h = Some (node_child n h)"
proof (cases "rn_ovf_flag n = 0")
  case True
  then show ?thesis
    using node_map_inline [OF assms(1) True] edge_find_ok [OF assms]
    by (simp add: edge_get_def node_child_def)
next
  case False
  then obtain ov where ov: "rn_ovf n = Some ov" using assms(1) by (auto simp: node_wf_def)
  show ?thesis
    using False ov node_map_ovf [OF assms(1) False ov] ovf_lookup_ok [OF _ assms(2)]
    by (simp add: edge_get_def edge_find_ovf_def node_child_def)
qed

lemma hot_child_ok:
  assumes "node_wf n" and "h \<noteq> 0"
  shows "hot_child n h = Some (node_child n h)"
proof (cases "rn_ovf_flag n = 0")
  case True
  moreover have "rn_ovf n = None" using assms(1) True by (simp add: node_wf_def)
  ultimately show ?thesis
    using node_map_inline [OF assms(1) True] edge_find_ok [OF assms]
    by (auto simp: hot_child_def node_child_def split: option.splits)
next
  case False
  then obtain ov where ov: "rn_ovf n = Some ov" using assms(1) by (auto simp: node_wf_def)
  have "filter edge_used (rn_slots n) = []" using assms(1) False by (simp add: node_wf_def)
  then have "edge_find n h = None" using edge_find_ok [OF assms] by (simp add: probe_map_unused)
  then show ?thesis
    using ov node_map_ovf [OF assms(1) False ov] ovf_lookup_ok [OF _ assms(2)]
    by (simp add: hot_child_def node_child_def)
qed

section \<open>Growing an overflow table\<close>

lemma ovf_cap_bound:
  assumes "ovf_wf ov" and "unat (ro_used ov) < 2 ^ 26"
  shows "unat (ro_cap ov) < 2 ^ 28"
  using assms by (auto simp: ovf_wf_def)

lemma ovf_load_cond:
  assumes "ovf_wf ov" and "unat (ro_used ov) < 2 ^ 26"
  shows "(ro_used ov + ro_n_del ov + 1 > ro_cap ov * 7 div 10) =
    (unat (ro_cap ov) * 7 div 10 < Suc (unat (ro_used ov)))"
proof -
  have "unat (ro_cap ov * 7) = unat (ro_cap ov) * 7"
    using ovf_cap_bound [OF assms] by (simp add: unat_word_ariths)
  moreover have "unat (ro_used ov + 1) = Suc (unat (ro_used ov))"
    using assms(2) by (simp add: unat_word_ariths)
  moreover have "ro_n_del ov = 0" using assms(1) by (simp add: ovf_wf_def)
  ultimately show ?thesis by (simp add: word_less_nat_alt unat_div)
qed

lemma ovf_grow_ok:
  assumes wf: "ovf_wf ov" and small: "unat (ro_used ov) < 2 ^ 26" and mem: "no_oom mem"
  shows "\<exists>ov' mem'. ovf_grow ov mem = Some (KV_EOK, ov', mem') \<and> no_oom mem' \<and>
    probe_wf edge_used re_child_hash edge_home (ro_slots ov') \<and>
    unat (ro_cap ov') = 2 * unat (ro_cap ov) \<and> length (ro_slots ov') = unat (ro_cap ov') \<and>
    ro_used ov' = ro_used ov \<and> ro_n_del ov' = 0 \<and>
    length (filter edge_used (ro_slots ov')) = length (filter edge_used (ro_slots ov)) \<and>
    (\<forall>e \<in> set (ro_slots ov'). \<not> edge_deleted e) \<and>
    probe_map edge_used re_child_hash (ro_slots ov') = probe_map edge_used re_child_hash (ro_slots ov)"
proof -
  note d = ovf_wfD [OF wf]
  obtain k where k: "length (ro_slots ov) = 2 ^ k" using d(6) by blast
  obtain mem' where m: "alloc mem = (True, mem')" "no_oom mem'" using alloc_no_oom [OF mem] by blast
  have cap2: "unat (ro_cap ov * 2) = 2 ^ Suc k"
    using ovf_cap_bound [OF wf small] d(2) k by (simp add: unat_word_ariths)
  have "length (filter edge_used (ro_slots ov)) \<le> 2 ^ Suc k" using d(5) k by simp
  from ovf.rehash_ok [OF d(1) this] obtain ns where
    ns: "reinsert edge_used (\<lambda>e. \<not> edge_used e) (\<lambda>e. edge_home (re_child_hash e)) (ro_slots ov)
        (replicate (2 ^ Suc k) radix_edge0) = Some ns"
      "probe_wf edge_used re_child_hash edge_home ns" "length ns = 2 ^ Suc k"
      "length (filter edge_used ns) = length (filter edge_used (ro_slots ov))"
      "probe_map edge_used re_child_hash ns = probe_map edge_used re_child_hash (ro_slots ov)"
      "set ns \<subseteq> insert radix_edge0 (set (ro_slots ov))" by blast
  have "ovf_fill (ro_cap ov * 2) (ro_slots ov) (replicate (2 ^ Suc k) radix_edge0) 0 =
      Some (ns, of_nat (length (filter edge_used (ro_slots ov))))"
    using ns(1) cap2 d(4) by (subst ovf_fill_reinsert) auto
  then have "ovf_grow ov mem = Some (KV_EOK,
      ov\<lparr>ro_slots := ns, ro_cap := ro_cap ov * 2, ro_n_del := 0\<rparr>, mem')"
    using m d(2,3) cap2 by (auto simp: ovf_grow_def)
  moreover have "\<forall>e \<in> set ns. \<not> edge_deleted e" using ns(6) d(4) by auto
  ultimately show ?thesis using ns m(2) cap2 d(2) k by auto
qed

text \<open>Writing the new edge into a table with room.\<close>

lemma ovf_insert_ok:
  assumes wf: "probe_wf edge_used re_child_hash edge_home slots"
    and cap: "unat cap = length slots" and room: "length (filter edge_used slots) < length slots"
    and del: "\<forall>e \<in> set slots. \<not> edge_deleted e" and h: "h \<noteq> 0"
    and fresh: "probe_map edge_used re_child_hash slots h = None"
    and e: "e = \<lparr>re_child_hash = h, re_child = c, re_flags = 0\<rparr>"
  shows "\<exists>i. ovf_probe (\<lambda>e. re_child_hash e = 0 \<or> edge_deleted e) slots cap h = Some i \<and>
    re_child_hash (slots ! i) = 0 \<and> probe_wf edge_used re_child_hash edge_home (slots[i := e]) \<and>
    length (filter edge_used (slots[i := e])) = Suc (length (filter edge_used slots)) \<and>
    (\<forall>e \<in> set (slots[i := e]). \<not> edge_deleted e) \<and>
    probe_map edge_used re_child_hash (slots[i := e]) = (probe_map edge_used re_child_hash slots)(h \<mapsto> e)"
proof -
  obtain k where k: "length slots = 2 ^ k" using ovf.wf_length [OF wf] by blast
  obtain i where i: "ovf.find_slot slots h = Some i" using wf room by (rule ovf_find_total)
  have eh: "re_child_hash e = h" using e by simp
  have free: "\<not> edge_used (slots ! i)" using ovf.find_slot_map [OF wf i] fresh by (auto split: if_splits)
  have lt: "i < length slots" using ovf.find_slot_SomeD [OF wf i] by simp
  have "slots \<noteq> []" using k by auto
  have "ovf_probe (\<lambda>e. re_child_hash e = 0 \<or> edge_deleted e) slots cap h =
      probe_from (\<lambda>e. \<not> edge_used e) slots (edge_home h)"
    unfolding ovf_probe_probe_from [OF cap \<open>slots \<noteq> []\<close>]
    using k by (rule probe_from_cong [rotated]) (use del in auto)
  also have "\<dots> = Some i" using ovf.free_slot_is_find_slot [OF wf fresh] i by simp
  finally have p: "ovf_probe (\<lambda>e. re_child_hash e = 0 \<or> edge_deleted e) slots cap h = Some i" .
  have i': "ovf.find_slot slots (re_child_hash e) = Some i" using i eh by simp
  have used: "edge_used e" using eh h by simp
  have "\<forall>x \<in> set (slots[i := e]). \<not> edge_deleted x"
    using del set_update_subset_insert [of slots i e] e by auto
  then show ?thesis
    using p free length_filter_update [OF lt, of edge_used e] used ovf.wf_update [OF wf i' used]
      ovf.map_update [OF wf i' used] eh by auto
qed

section \<open>Adding an edge\<close>

lemma ovf_add_ok:
  assumes wf: "ovf_wf ov" and small: "unat (ro_used ov) < 2 ^ 26" and mem: "no_oom mem"
    and h: "h \<noteq> 0" and fresh: "probe_map edge_used re_child_hash (ro_slots ov) h = None"
  shows "\<exists>ov' mem'. ovf_add ov h c mem = Some (ov', mem') \<and> no_oom mem' \<and> ovf_wf ov' \<and>
    probe_map edge_used re_child_hash (ro_slots ov') =
      (probe_map edge_used re_child_hash (ro_slots ov))
        (h \<mapsto> \<lparr>re_child_hash = h, re_child = c, re_flags = 0\<rparr>)"
proof -
  let ?e = "\<lparr>re_child_hash = h, re_child = c, re_flags = 0\<rparr>"
  let ?full = "unat (ro_cap ov) * 7 div 10 < Suc (unat (ro_used ov))"
  have n: "unat (ro_used ov) = length (filter edge_used (ro_slots ov))" "16 \<le> unat (ro_cap ov)"
    "unat (ro_used ov) * 10 \<le> unat (ro_cap ov) * 7" "ro_n_del ov = 0"
    "unat (ro_cap ov) = 16 \<or> unat (ro_cap ov) * 7 \<le> unat (ro_used ov) * 20"
    using wf by (auto simp: ovf_wf_def)
  obtain o1 mem1 where o1: "(if ro_used ov + ro_n_del ov + 1 > ro_cap ov * 7 div 10
        then map_option snd (ovf_grow ov mem) else Some (ov, mem)) = Some (o1, mem1)"
      "no_oom mem1" "probe_wf edge_used re_child_hash edge_home (ro_slots o1)"
      "unat (ro_cap o1) = (if ?full then 2 * unat (ro_cap ov) else unat (ro_cap ov))"
      "unat (ro_cap o1) = length (ro_slots o1)" "ro_used o1 = ro_used ov" "ro_n_del o1 = 0"
      "length (filter edge_used (ro_slots o1)) = unat (ro_used ov)"
      "\<forall>e \<in> set (ro_slots o1). \<not> edge_deleted e"
      "probe_map edge_used re_child_hash (ro_slots o1) = probe_map edge_used re_child_hash (ro_slots ov)"
  proof (cases ?full)
    case True
    obtain o1 mem1 where g: "ovf_grow ov mem = Some (KV_EOK, o1, mem1)" "no_oom mem1"
        "probe_wf edge_used re_child_hash edge_home (ro_slots o1)"
        "unat (ro_cap o1) = 2 * unat (ro_cap ov)" "length (ro_slots o1) = unat (ro_cap o1)"
        "ro_used o1 = ro_used ov" "ro_n_del o1 = 0"
        "length (filter edge_used (ro_slots o1)) = length (filter edge_used (ro_slots ov))"
        "\<forall>e \<in> set (ro_slots o1). \<not> edge_deleted e"
        "probe_map edge_used re_child_hash (ro_slots o1) = probe_map edge_used re_child_hash (ro_slots ov)"
      using ovf_grow_ok [OF wf small mem] by blast
    show ?thesis
      by (rule that [of o1 mem1]) (use True g n(1) ovf_load_cond [OF wf small] in simp_all)
  next
    case False
    show ?thesis
      by (rule that [of ov mem])
        (use False n(1,4) ovf_load_cond [OF wf small] ovf_wfD [OF wf] mem in simp_all)
  qed
  have room: "length (filter edge_used (ro_slots o1)) < length (ro_slots o1)"
    using o1(4,5,8) n(2,3) by (auto split: if_splits)
  have fresh1: "probe_map edge_used re_child_hash (ro_slots o1) h = None" using fresh o1(10) by simp
  from ovf_insert_ok [OF o1(3,5) room o1(9) h fresh1 refl [of ?e]] obtain i where
    i: "ovf_probe (\<lambda>e. re_child_hash e = 0 \<or> edge_deleted e) (ro_slots o1) (ro_cap o1) h = Some i"
      "re_child_hash (ro_slots o1 ! i) = 0"
      "probe_wf edge_used re_child_hash edge_home ((ro_slots o1)[i := ?e])"
      "length (filter edge_used ((ro_slots o1)[i := ?e])) = Suc (unat (ro_used ov))"
      "\<forall>e \<in> set ((ro_slots o1)[i := ?e]). \<not> edge_deleted e"
      "probe_map edge_used re_child_hash ((ro_slots o1)[i := ?e]) =
        (probe_map edge_used re_child_hash (ro_slots ov))(h \<mapsto> ?e)"
    using o1(8,10) by auto
  let ?o = "o1\<lparr>ro_used := ro_used o1 + 1, ro_slots := (ro_slots o1)[i := ?e]\<rparr>"
  have "ovf_add ov h c mem = Some (?o, mem1)" using o1(1) i(1,2) by (simp add: ovf_add_def)
  moreover have "unat (ro_used ov + 1) = Suc (unat (ro_used ov))"
    using small by (simp add: unat_word_ariths)
  then have "ovf_wf ?o"
    using i o1(4-7) n by (auto simp: ovf_wf_def split: if_splits)
  ultimately show ?thesis using o1(2) i(6) by auto
qed

text \<open>Moving eight inline edges to a new table of sixteen slots.\<close>

lemma ovf_migrate_ok:
  assumes wf: "node_wf n" and flag: "rn_ovf_flag n = 0" and mem: "no_oom mem"
    and full: "filter edge_used (rn_slots n) = rn_slots n"
  shows "\<exists>ov mem'. ovf_migrate n mem = Some (KV_EOK,
      n\<lparr>rn_ovf := Some ov, rn_slots := replicate KV_INLINE_SLOTS radix_edge0, rn_ovf_flag := 1\<rparr>, mem') \<and>
    no_oom mem' \<and> ovf_wf ov \<and> unat (ro_used ov) = KV_INLINE_SLOTS \<and>
    probe_map edge_used re_child_hash (ro_slots ov) = probe_map edge_used re_child_hash (rn_slots n)"
proof -
  obtain mem1 where m1: "alloc mem = (True, mem1)" "no_oom mem1" using alloc_no_oom [OF mem] by blast
  obtain mem2 where m2: "alloc mem1 = (True, mem2)" "no_oom mem2" using alloc_no_oom [OF m1(2)] by blast
  have g: "ovf_grow radix_ovf0 mem1 = Some (KV_EOK,
      \<lparr>ro_cap = 16, ro_used = 0, ro_n_del = 0, ro_slots = replicate 16 radix_edge0\<rparr>, mem2)"
    using m2 by (simp add: ovf_grow_def radix_ovf0_def)
  have len: "length (rn_slots n) = 8" and del: "\<forall>e \<in> set (rn_slots n). \<not> edge_deleted e"
    and dist: "distinct (map re_child_hash (filter edge_used (rn_slots n)))"
    using wf flag by (auto simp: node_wf_def KV_INLINE_SLOTS_def)
  have wf0: "probe_wf edge_used re_child_hash edge_home (replicate 16 radix_edge0)"
    using ovf.wf_empty [of 4] by simp
  have none: "filter edge_used (replicate 16 radix_edge0) = []" by simp
  have "\<exists>ns. reinsert edge_used (\<lambda>e. \<not> edge_used e) (\<lambda>e. edge_home (re_child_hash e))
      (rn_slots n) (replicate 16 radix_edge0) = Some ns \<and>
    probe_wf edge_used re_child_hash edge_home ns \<and> length ns = length (replicate 16 radix_edge0) \<and>
    length (filter edge_used ns) =
      length (filter edge_used (rn_slots n)) + length (filter edge_used (replicate 16 radix_edge0)) \<and>
    probe_map edge_used re_child_hash ns = probe_map edge_used re_child_hash (replicate 16 radix_edge0) ++
      probe_map edge_used re_child_hash (rn_slots n) \<and>
    set ns \<subseteq> set (replicate 16 radix_edge0) \<union> set (rn_slots n)"
    using wf0 dist ovf.map_empty by (rule ovf.reinsert_ok) (simp only: full none len, simp)
  moreover have "probe_map edge_used re_child_hash (replicate 16 radix_edge0) = Map.empty"
    using ovf.map_empty by auto
  ultimately obtain ns where
    ns: "reinsert edge_used (\<lambda>e. \<not> edge_used e) (\<lambda>e. edge_home (re_child_hash e))
        (rn_slots n) (replicate 16 radix_edge0) = Some ns"
      "probe_wf edge_used re_child_hash edge_home ns" "length ns = 16"
      "length (filter edge_used ns) = 8"
      "probe_map edge_used re_child_hash ns = probe_map edge_used re_child_hash (rn_slots n)"
      "set ns \<subseteq> insert radix_edge0 (set (rn_slots n))"
    using full len none by auto
  have "ovf_fill 16 (rn_slots n) (replicate 16 radix_edge0) 0 = Some (ns, 8)"
    using ns(1) del full len by (subst ovf_fill_reinsert) auto
  moreover have "\<forall>e \<in> set ns. \<not> edge_deleted e" using ns(6) del by auto
  ultimately show ?thesis
    using g m1 m2(2) ns by (auto simp: ovf_migrate_def ovf_wf_def KV_INLINE_SLOTS_def)
qed

section \<open>Adding an edge to a node\<close>

lemma probe_map_free_update:
  assumes "i < length xs" and "\<not> used (xs ! i)" and "used e" and "probe_map used key xs (key e) = None"
  shows "probe_map used key (xs[i := e]) = (probe_map used key xs)(key e \<mapsto> e)"
  using assms
proof (induction xs arbitrary: i)
  case (Cons x xs)
  show ?case
  proof (cases i)
    case 0
    with Cons.prems show ?thesis by (auto simp: fun_eq_iff)
  next
    case (Suc j)
    then have "probe_map used key (xs[j := e]) = (probe_map used key xs)(key e \<mapsto> e)"
      using Cons.prems by (intro Cons.IH) (auto split: if_splits)
    then show ?thesis using Suc Cons.prems by (auto simp: fun_eq_iff split: if_splits)
  qed
qed simp

lemma probe_map_None_keys:
  "probe_map used key xs x = None \<longleftrightarrow> x \<notin> set (map key (filter used xs))"
  by (induction xs) auto

lemma distinct_keys_update:
  assumes "i < length xs" and "\<not> used (xs ! i)" and "used e" and "probe_map used key xs (key e) = None"
    and "distinct (map key (filter used xs))"
  shows "distinct (map key (filter used (xs[i := e])))"
  using assms
proof (induction xs arbitrary: i)
  case (Cons x xs)
  show ?case
  proof (cases i)
    case 0
    with Cons.prems show ?thesis by (simp add: probe_map_None_keys)
  next
    case (Suc j)
    have d: "distinct (map key (filter used (xs[j := e])))"
      using Suc Cons.prems by (intro Cons.IH) (auto split: if_splits)
    have "set (map key (filter used (xs[j := e]))) \<subseteq> insert (key e) (set (map key (filter used xs)))"
      using set_update_subset_insert [of xs j e] by auto
    then have "key x \<notin> set (map key (filter used (xs[j := e])))" if "used x"
      using that Cons.prems(4,5) by (auto split: if_splits)
    with d Suc show ?thesis by simp
  qed
qed simp

lemma edge_free_slot_Some:
  assumes "edge_free_slot es = Some i"
  shows "i < KV_INLINE_SLOTS" and "re_child_hash (es ! i) = 0"
  using assms by (auto simp: edge_free_slot_def find_Some_iff)

lemma edge_free_slot_None:
  assumes "edge_free_slot es = None" and "length es = KV_INLINE_SLOTS"
  shows "filter edge_used es = es"
  using assms by (auto simp: edge_free_slot_def find_None_iff filter_id_conv in_set_conv_nth)

lemma edge_add_inline:
  assumes wf: "node_wf n" and h: "h \<noteq> 0" and fresh: "node_map n h = None"
    and flag: "rn_ovf_flag n = 0" and i: "edge_free_slot (rn_slots n) = Some i"
    and e: "e = \<lparr>re_child_hash = h, re_child = c, re_flags = 0\<rparr>"
    and n': "n' = n\<lparr>rn_slots := (rn_slots n)[i := e], rn_n_edges := k\<rparr>"
  shows "node_wf n' \<and> node_map n' = (node_map n)(h \<mapsto> e)"
proof -
  have len: "length (rn_slots n) = KV_INLINE_SLOTS" using wf by (simp add: node_wf_def)
  note slot = edge_free_slot_Some [OF i]
  have fresh': "probe_map edge_used re_child_hash (rn_slots n) (re_child_hash e) = None"
    using fresh node_map_inline [OF wf flag] e by simp
  have "distinct (map re_child_hash (filter edge_used ((rn_slots n)[i := e])))"
    using wf flag slot len h e fresh' by (intro distinct_keys_update) (auto simp: node_wf_def)
  moreover have "\<forall>x \<in> set ((rn_slots n)[i := e]). \<not> edge_deleted x"
    using wf set_update_subset_insert [of "rn_slots n" i e] e by (auto simp: node_wf_def)
  ultimately have wf': "node_wf n'" using wf flag n' by (simp add: node_wf_def)
  have "probe_map edge_used re_child_hash ((rn_slots n)[i := e]) =
      (probe_map edge_used re_child_hash (rn_slots n))(re_child_hash e \<mapsto> e)"
    using slot len h e fresh' by (intro probe_map_free_update) auto
  moreover have "rn_ovf_flag n' = 0" using flag n' by simp
  ultimately show ?thesis
    using wf' node_map_inline [OF wf'] node_map_inline [OF wf flag] n' e by (auto simp: fun_eq_iff)
qed

lemma edge_add_overflow:
  assumes wf: "node_wf n" and h: "h \<noteq> 0" and fresh: "node_map n h = None" and mem: "no_oom mem"
    and flag: "rn_ovf_flag n \<noteq> 0" and ov: "rn_ovf n = Some ov"
    and small: "unat (ro_used ov) < 2 ^ 26"
  shows "\<exists>ov' mem'. ovf_add ov h c mem = Some (ov', mem') \<and> no_oom mem' \<and>
    node_wf (n\<lparr>rn_ovf := Some ov', rn_n_edges := k\<rparr>) \<and>
    node_map (n\<lparr>rn_ovf := Some ov', rn_n_edges := k\<rparr>) =
      (node_map n)(h \<mapsto> \<lparr>re_child_hash = h, re_child = c, re_flags = 0\<rparr>)"
proof -
  note m = node_map_ovf [OF wf flag ov]
  obtain ov' mem' where ov': "ovf_add ov h c mem = Some (ov', mem')" "no_oom mem'" "ovf_wf ov'"
      "probe_map edge_used re_child_hash (ro_slots ov') =
        (probe_map edge_used re_child_hash (ro_slots ov))
          (h \<mapsto> \<lparr>re_child_hash = h, re_child = c, re_flags = 0\<rparr>)"
    using ovf_add_ok [OF m(2) small mem h] fresh m(1) by metis
  let ?n = "n\<lparr>rn_ovf := Some ov', rn_n_edges := k\<rparr>"
  have wf': "node_wf ?n" using wf flag ov'(3) by (simp add: node_wf_def)
  have "node_map ?n x = ((node_map n)(h \<mapsto> \<lparr>re_child_hash = h, re_child = c, re_flags = 0\<rparr>)) x" for x
    using node_map_ovf(1) [OF wf', of ov' x] flag ov'(4) m(1) [of x] by simp
  with ov' wf' show ?thesis by blast
qed

text \<open>The count of used edges; every edge has its own child, so the number of nodes bounds it.\<close>

definition node_count :: "radix_node \<Rightarrow> nat" where
  "node_count n = length (filter edge_used (node_edges n))"

lemma node_count_ovf:
  assumes "node_wf n" and "rn_ovf_flag n \<noteq> 0" and "rn_ovf n = Some ov"
  shows "unat (ro_used ov) = node_count n"
  using assms by (auto simp: node_wf_def node_count_def node_edges_def ovf_wf_def)

definition same_but_edges :: "radix_node \<Rightarrow> radix_node \<Rightarrow> bool" where
  "same_but_edges n n' \<longleftrightarrow> rn_hit_count n' = rn_hit_count n \<and> rn_depth n' = rn_depth n \<and>
    rn_parent n' = rn_parent n \<and> rn_leaf n' = rn_leaf n"

lemma edge_add_ok:
  assumes wf: "node_wf n" and h: "h \<noteq> 0" and fresh: "node_map n h = None" and mem: "no_oom mem"
    and small: "node_count n < 2 ^ 26"
  shows "\<exists>n' mem'. edge_add n h c mem = Some (KV_EOK, n', mem') \<and> no_oom mem' \<and> node_wf n' \<and>
    node_map n' = (node_map n)(h \<mapsto> \<lparr>re_child_hash = h, re_child = c, re_flags = 0\<rparr>) \<and>
    same_but_edges n n'"
proof (cases "rn_ovf_flag n = 0")
  case False
  then obtain ov where ov: "rn_ovf n = Some ov" using wf by (auto simp: node_wf_def)
  have "unat (ro_used ov) < 2 ^ 26" using node_count_ovf [OF wf False ov] small by simp
  from edge_add_overflow [OF wf h fresh mem False ov this, of c "rn_n_edges n + 1"]
  show ?thesis using False ov by (auto simp: edge_add_def same_but_edges_def)
next
  case flag: True
  show ?thesis
  proof (cases "edge_free_slot (rn_slots n)")
    case (Some i)
    from edge_add_inline [where c = c and k = "rn_n_edges n + 1", OF wf h fresh flag Some refl refl]
    show ?thesis using flag Some mem by (simp add: edge_add_def same_but_edges_def)
  next
    case None
    have len: "length (rn_slots n) = KV_INLINE_SLOTS" using wf by (simp add: node_wf_def)
    obtain ov mem1 where g: "ovf_migrate n mem = Some (KV_EOK,
        n\<lparr>rn_ovf := Some ov, rn_slots := replicate KV_INLINE_SLOTS radix_edge0, rn_ovf_flag := 1\<rparr>, mem1)"
      "no_oom mem1" "ovf_wf ov" "unat (ro_used ov) = KV_INLINE_SLOTS"
      "probe_map edge_used re_child_hash (ro_slots ov) = probe_map edge_used re_child_hash (rn_slots n)"
      using ovf_migrate_ok [OF wf flag mem edge_free_slot_None [OF None len]] by blast
    let ?n = "n\<lparr>rn_ovf := Some ov, rn_slots := replicate KV_INLINE_SLOTS radix_edge0, rn_ovf_flag := 1\<rparr>"
    have wf1: "node_wf ?n" using g(3) by (simp add: node_wf_def)
    have "node_map ?n x = node_map n x" for x
      using node_map_ovf(1) [OF wf1, of ov x] node_map_inline [OF wf flag, of x] g(5) by simp
    then have m1: "node_map ?n = node_map n" by blast
    have "node_map ?n h = None" using fresh m1 by simp
    moreover have "unat (ro_used ov) < 2 ^ 26" using g(4) by (simp add: KV_INLINE_SLOTS_def)
    ultimately obtain ov' mem2 where o2: "ovf_add ov h c mem1 = Some (ov', mem2)" "no_oom mem2"
      "node_wf (?n\<lparr>rn_ovf := Some ov', rn_n_edges := rn_n_edges ?n + 1\<rparr>)"
      "node_map (?n\<lparr>rn_ovf := Some ov', rn_n_edges := rn_n_edges ?n + 1\<rparr>) =
        (node_map ?n)(h \<mapsto> \<lparr>re_child_hash = h, re_child = c, re_flags = 0\<rparr>)"
      using edge_add_overflow [OF wf1 h _ g(2), of ov c "rn_n_edges ?n + 1"] by auto
    have "edge_add n h c mem =
        Some (KV_EOK, ?n\<lparr>rn_ovf := Some ov', rn_n_edges := rn_n_edges ?n + 1\<rparr>, mem2)"
      using flag None g(1) o2(1) by (simp add: edge_add_def)
    moreover have "same_but_edges n (?n\<lparr>rn_ovf := Some ov', rn_n_edges := rn_n_edges ?n + 1\<rparr>)"
      by (simp add: same_but_edges_def)
    ultimately show ?thesis using o2(2,3) o2(4) [unfolded m1] by blast
  qed
qed

end
