(* ===== verification/KV_Radix_Tree.thy ===== *)
theory KV_Radix_Tree
  imports KV_Radix_Node
begin

text \<open>
  The radix tree as a whole: its invariant, the paths it stores, and what walking, counting
  hits, decaying, visiting and destroying do to it.  \<open>follow\<close> is the specification of a walk:
  the node a hash path leads to in the edge maps.  Walking without creation reads \<open>follow\<close>;
  walking with creation adds exactly the prefixes of one path and keeps every other one.
\<close>

section \<open>Invariant\<close>

definition node_kids :: "radix_node \<Rightarrow> nat list" where
  "node_kids n = map (\<lambda>e. the (re_child e)) (filter edge_live (node_edges n))"

definition heap_inv :: "radix_node list \<Rightarrow> bool" where
  "heap_inv ns \<longleftrightarrow>
    ns \<noteq> [] \<and> rn_parent (ns ! 0) = None \<and> rn_depth (ns ! 0) = 0 \<and>
    (\<forall>i < length ns. node_wf (ns ! i)) \<and>
    (\<forall>i < length ns. \<forall>h. node_map (ns ! i) h \<noteq> None \<longrightarrow> node_child (ns ! i) h \<noteq> None) \<and>
    (\<forall>i < length ns. \<forall>h c. node_child (ns ! i) h = Some c \<longrightarrow>
      i < c \<and> c < length ns \<and> rn_parent (ns ! c) = Some i \<and>
      rn_depth (ns ! c) = rn_depth (ns ! i) + 1) \<and>
    (\<forall>i < length ns. \<forall>h h' c. node_child (ns ! i) h = Some c \<longrightarrow>
      node_child (ns ! i) h' = Some c \<longrightarrow> h = h') \<and>
    (\<forall>c < length ns. c \<noteq> 0 \<longrightarrow> (\<exists>i < c. \<exists>h. node_child (ns ! i) h = Some c))"

definition radix_inv :: "radix_tree \<Rightarrow> bool" where
  "radix_inv t \<longleftrightarrow> heap_inv (rt_nodes t) \<and> rt_root t = 0"

fun follow :: "radix_node list \<Rightarrow> nat \<Rightarrow> u64 list \<Rightarrow> nat option" where
  "follow ns i [] = Some i"
| "follow ns i (h # hs) = (case node_child (ns ! i) h of None \<Rightarrow> None | Some c \<Rightarrow> follow ns c hs)"

text \<open>One heap extends another: every old node keeps its fields and its children.\<close>

definition heap_ext :: "radix_node list \<Rightarrow> radix_node list \<Rightarrow> bool" where
  "heap_ext ns ns' \<longleftrightarrow> length ns \<le> length ns' \<and>
    (\<forall>i < length ns. same_but_edges (ns ! i) (ns' ! i) \<and>
      (\<forall>h c. node_child (ns ! i) h = Some c \<longrightarrow> node_child (ns' ! i) h = Some c))"

section \<open>Edges and children\<close>

lemma live_is_used:
  assumes "node_wf n"
  shows "filter edge_live (node_edges n) = filter edge_used (node_edges n)"
proof (rule filter_cong [OF refl])
  fix e assume e: "e \<in> set (node_edges n)"
  have "\<not> edge_deleted e"
  proof (cases "e \<in> set (rn_slots n)")
    case True
    with assms show ?thesis by (simp add: node_wf_def)
  next
    case False
    with e obtain ov where "rn_ovf n = Some ov" "e \<in> set (ro_slots ov)"
      by (cases "rn_ovf n") (auto simp: node_edges_def dest: in_set_takeD)
    with assms show ?thesis by (auto simp: node_wf_def ovf_wf_def split: if_splits)
  qed
  then show "edge_live e = edge_used e" by (simp add: edge_live_def)
qed

lemma node_keys_distinct:
  assumes "node_wf n"
  shows "distinct (map re_child_hash (filter edge_used (node_edges n)))"
proof (cases "rn_ovf_flag n = 0")
  case True
  with assms show ?thesis by (simp add: node_wf_def node_edges_def)
next
  case False
  then obtain ov where "rn_ovf n = Some ov" "ovf_wf ov" "filter edge_used (rn_slots n) = []"
    using assms by (auto simp: node_wf_def)
  with ovf.wf_distinct_keys [OF ovf_wfD(1)] show ?thesis
    by (simp add: node_edges_def ovf_wfD(2))
qed

lemma probe_map_mem:
  assumes "distinct (map key (filter used xs))" and "e \<in> set xs" and "used e"
  shows "probe_map used key xs (key e) = Some e"
  using assms
proof (induction xs)
  case (Cons x xs)
  show ?case
  proof (cases "x = e")
    case False
    then have e: "e \<in> set xs" using Cons.prems by simp
    have "key x \<noteq> key e" if "used x"
    proof -
      have "key e \<in> set (map key (filter used xs))" using e Cons.prems(3) by auto
      then show ?thesis using Cons.prems(1) that by auto
    qed
    moreover have "probe_map used key xs (key e) = Some e"
      using Cons e by (auto split: if_splits)
    ultimately show ?thesis by auto
  qed (use Cons.prems in simp)
qed simp

lemma node_map_iff:
  assumes "node_wf n"
  shows "node_map n h = Some e \<longleftrightarrow> e \<in> set (filter edge_used (node_edges n)) \<and> re_child_hash e = h"
proof
  assume "node_map n h = Some e"
  from probe_map_SomeD [OF this [unfolded node_map_def]]
  show "e \<in> set (filter edge_used (node_edges n)) \<and> re_child_hash e = h" by auto
next
  assume "e \<in> set (filter edge_used (node_edges n)) \<and> re_child_hash e = h"
  with probe_map_mem [OF node_keys_distinct [OF assms], of e]
  show "node_map n h = Some e" by (auto simp: node_map_def)
qed

lemma heap_invD:
  assumes "heap_inv ns"
  shows "0 < length ns" and "rn_parent (ns ! 0) = None" and "rn_depth (ns ! 0) = 0"
    and "\<And>i. i < length ns \<Longrightarrow> node_wf (ns ! i)"
    and "\<And>i h. i < length ns \<Longrightarrow> node_map (ns ! i) h \<noteq> None \<Longrightarrow> node_child (ns ! i) h \<noteq> None"
    and "\<And>i h c. i < length ns \<Longrightarrow> node_child (ns ! i) h = Some c \<Longrightarrow>
      i < c \<and> c < length ns \<and> rn_parent (ns ! c) = Some i \<and> rn_depth (ns ! c) = rn_depth (ns ! i) + 1"
    and "\<And>i h h' c. i < length ns \<Longrightarrow> node_child (ns ! i) h = Some c \<Longrightarrow>
      node_child (ns ! i) h' = Some c \<Longrightarrow> h = h'"
    and "\<And>c. c < length ns \<Longrightarrow> c \<noteq> 0 \<Longrightarrow> \<exists>i < c. \<exists>h. node_child (ns ! i) h = Some c"
  using assms unfolding heap_inv_def by blast+

text \<open>The children of a node, as its edge map has them.\<close>

lemma node_kids_iff:
  assumes "heap_inv ns" and "i < length ns"
  shows "c \<in> set (node_kids (ns ! i)) \<longleftrightarrow> (\<exists>h. node_child (ns ! i) h = Some c)"
proof -
  note wf = heap_invD(4) [OF assms]
  have child: "\<exists>c. re_child e = Some c" if "e \<in> set (filter edge_used (node_edges (ns ! i)))" for e
    using heap_invD(5) [OF assms, of "re_child_hash e"] node_map_iff [OF wf, of "re_child_hash e" e] that
    by (auto simp: node_child_def)
  have "(\<exists>h. node_child (ns ! i) h = Some c) \<longleftrightarrow>
      (\<exists>e \<in> set (filter edge_used (node_edges (ns ! i))). re_child e = Some c)"
    unfolding node_child_def bind_eq_Some_conv node_map_iff [OF wf] by blast
  also have "\<dots> \<longleftrightarrow> c \<in> set (node_kids (ns ! i))"
    unfolding node_kids_def live_is_used [OF wf] using child by force
  finally show ?thesis by simp
qed

lemma node_kids_distinct:
  assumes "heap_inv ns" and "i < length ns"
  shows "distinct (node_kids (ns ! i))"
proof -
  note wf = heap_invD(4) [OF assms]
  let ?es = "filter edge_used (node_edges (ns ! i))"
  have nc: "node_child (ns ! i) (re_child_hash e) = Some (the (re_child e))" if "e \<in> set ?es" for e
    using heap_invD(5) [OF assms, of "re_child_hash e"] node_map_iff [OF wf, of "re_child_hash e" e] that
    by (auto simp: node_child_def)
  have key: "inj_on re_child_hash (set ?es)" "distinct ?es"
    using node_keys_distinct [OF wf] by (auto simp: distinct_map)
  have "inj_on (\<lambda>e. the (re_child e)) (set ?es)"
  proof (rule inj_onI)
    fix e e' assume e: "e \<in> set ?es" "e' \<in> set ?es" "the (re_child e) = the (re_child e')"
    from nc [OF e(1)] nc [OF e(2)] e(3) heap_invD(7) [OF assms]
    have "re_child_hash e = re_child_hash e'" by metis
    with key(1) e(1,2) show "e = e'" by (auto dest: inj_onD)
  qed
  with key(2) show ?thesis unfolding node_kids_def live_is_used [OF wf] by (simp add: distinct_map)
qed

lemma node_count_bound:
  assumes "heap_inv ns" and "i < length ns"
  shows "node_count (ns ! i) \<le> length ns"
proof -
  have "node_count (ns ! i) = length (node_kids (ns ! i))"
    using heap_invD(4) [OF assms] by (simp add: node_count_def node_kids_def live_is_used)
  also have "\<dots> = card (set (node_kids (ns ! i)))"
    using distinct_card [OF node_kids_distinct [OF assms]] by simp
  also have "\<dots> \<le> card {..<length ns}"
    using heap_invD(6) [OF assms] node_kids_iff [OF assms] by (intro card_mono) auto
  finally show ?thesis by simp
qed

section \<open>Paths\<close>

lemma follow_append:
  "follow ns i (p @ q) = Option.bind (follow ns i p) (\<lambda>j. follow ns j q)"
  by (induction ns i p rule: follow.induct) (auto split: option.splits)

lemma follow_less:
  assumes "heap_inv ns" and "i < length ns" and "follow ns i p = Some j"
  shows "j < length ns"
  using assms(2,3)
  by (induction p arbitrary: i) (auto dest: heap_invD(6) [OF assms(1)] split: option.splits)

text \<open>Two different paths from the root never lead to the same node.\<close>

lemma follow_inj:
  assumes inv: "heap_inv ns" and "follow ns 0 p = Some j" and "follow ns 0 q = Some j"
  shows "p = q"
  using assms(2,3)
proof (induction p arbitrary: q j rule: rev_induct)
  case Nil
  show ?case
  proof (cases q rule: rev_cases)
    case (snoc q' h)
    then obtain y where y: "follow ns 0 q' = Some y" "node_child (ns ! y) h = Some j"
      using Nil.prems(2) by (auto simp: follow_append bind_eq_Some_conv split: option.splits)
    have "y < length ns" using inv heap_invD(1) [OF inv] y(1) by (rule follow_less)
    from heap_invD(6) [OF inv this y(2)] Nil.prems(1) show ?thesis by simp
  qed simp
next
  case (snoc h p)
  then obtain x where x: "follow ns 0 p = Some x" "node_child (ns ! x) h = Some j"
    by (auto simp: follow_append bind_eq_Some_conv split: option.splits)
  have xl: "x < length ns" using inv heap_invD(1) [OF inv] x(1) by (rule follow_less)
  note xj = heap_invD(6) [OF inv xl x(2)]
  show ?case
  proof (cases q rule: rev_cases)
    case Nil
    with snoc.prems(2) xj show ?thesis by simp
  next
    case (snoc q' h')
    then obtain y where y: "follow ns 0 q' = Some y" "node_child (ns ! y) h' = Some j"
      using snoc.prems(2) by (auto simp: follow_append bind_eq_Some_conv split: option.splits)
    have yl: "y < length ns" using inv heap_invD(1) [OF inv] y(1) by (rule follow_less)
    from heap_invD(6) [OF inv yl y(2)] xj have "y = x" by simp
    with y x snoc.IH heap_invD(7) [OF inv xl] snoc show ?thesis by auto
  qed
qed

lemma heap_ext_refl: "heap_ext ns ns"
  by (simp add: heap_ext_def same_but_edges_def)

lemma heap_ext_trans:
  assumes "heap_ext a b" and "heap_ext b c"
  shows "heap_ext a c"
  using assms unfolding heap_ext_def same_but_edges_def by (metis order_less_le_trans order_trans)

lemma heap_ext_follow:
  assumes "heap_inv ns" and "heap_ext ns ns'" and "i < length ns" and "follow ns i p = Some j"
  shows "follow ns' i p = Some j"
  using assms(3,4)
proof (induction p arbitrary: i)
  case (Cons h p)
  then obtain c where c: "node_child (ns ! i) h = Some c" "follow ns c p = Some j"
    by (auto split: option.splits)
  have "node_child (ns' ! i) h = Some c" using assms(2) Cons.prems(1) c(1) by (auto simp: heap_ext_def)
  moreover have "c < length ns" using heap_invD(6) [OF assms(1) Cons.prems(1) c(1)] by simp
  ultimately show ?case using Cons.IH c(2) by simp
qed simp

section \<open>Adding one node\<close>

lemma node_new_simps [simp]:
  "node_wf (node_new d)" "node_map (node_new d) h = None" "node_child (node_new d) h = None"
  "node_map ((node_new d)\<lparr>rn_parent := p\<rparr>) h = None" "node_child ((node_new d)\<lparr>rn_parent := p\<rparr>) h = None"
  "node_wf ((node_new d)\<lparr>rn_parent := p\<rparr>)"
  by (simp_all add: node_wf_def node_map_def node_child_def node_edges_def node_new_def probe_map_unused)

lemma heap_inv_add:
  assumes inv: "heap_inv ns" and cur: "cur < length ns" and wf: "node_wf n'"
    and map: "node_map n' = (node_map (ns ! cur))
        (h \<mapsto> \<lparr>re_child_hash = h, re_child = Some (length ns), re_flags = 0\<rparr>)"
    and same: "same_but_edges (ns ! cur) n'" and fresh: "node_map (ns ! cur) h = None"
    and ns': "ns' = ns[cur := n'] @ [(node_new (rn_depth (ns ! cur) + 1))\<lparr>rn_parent := Some cur\<rparr>]"
  shows "heap_inv ns'" and "heap_ext ns ns'" and "node_child (ns' ! cur) h = Some (length ns)"
proof -
  have old: "ns' ! i = (if i = cur then n' else ns ! i)" if "i < length ns" for i
    using that cur ns' by (simp add: nth_append)
  have new: "ns' ! length ns = (node_new (rn_depth (ns ! cur) + 1))\<lparr>rn_parent := Some cur\<rparr>"
    using ns' by (simp add: nth_append)
  have len: "length ns' = Suc (length ns)" using ns' by simp
  have child: "node_child n' x = (if x = h then Some (length ns) else node_child (ns ! cur) x)" for x
    by (simp add: node_child_def map)
  have fields: "rn_parent (ns' ! i) = rn_parent (ns ! i)" "rn_depth (ns' ! i) = rn_depth (ns ! i)"
    if "i < length ns" for i using that same old by (auto simp: same_but_edges_def)
  have childs: "node_child (ns' ! i) x =
      (if i = cur \<and> x = h then Some (length ns) else node_child (ns ! i) x)" if "i < length ns" for i x
    using that old child by simp
  show "node_child (ns' ! cur) h = Some (length ns)" using childs [OF cur] by simp
  have fresh': "node_child (ns ! cur) h = None" using fresh by (simp add: node_child_def)
  show "heap_ext ns ns'"
    using len old same childs fresh' by (auto simp: heap_ext_def same_but_edges_def)
  note D = heap_invD [OF inv]
  show "heap_inv ns'"
    unfolding heap_inv_def len
  proof (intro conjI allI impI)
    show "ns' \<noteq> []" using len by auto
    show "rn_parent (ns' ! 0) = None" "rn_depth (ns' ! 0) = 0" using fields [OF D(1)] D(2,3) by simp_all
  next
    fix i assume "i < Suc (length ns)"
    then show "node_wf (ns' ! i)" using old new wf D(4) by (cases "i = length ns") auto
  next
    fix i x assume i: "i < Suc (length ns)" and x: "node_map (ns' ! i) x \<noteq> None"
    show "node_child (ns' ! i) x \<noteq> None"
    proof (cases "i = length ns")
      case False
      with i x D(5) [of i x] old [of i] map childs [of i x] show ?thesis
        by (auto split: if_splits)
    qed (use x new in simp)
  next
    fix i x c assume i: "i < Suc (length ns)" and c: "node_child (ns' ! i) x = Some c"
    have il: "i < length ns" using i c new by (cases "i = length ns") auto
    show "i < c" "c < Suc (length ns)" "rn_parent (ns' ! c) = Some i"
        "rn_depth (ns' ! c) = rn_depth (ns' ! i) + 1"
      using c childs [OF il, of x] D(6) [OF il, of x c] fields il new
      by (auto simp: node_new_def split: if_splits)
  next
    fix i x x' c assume i: "i < Suc (length ns)" and c: "node_child (ns' ! i) x = Some c"
      "node_child (ns' ! i) x' = Some c"
    have il: "i < length ns" using i c new by (cases "i = length ns") auto
    show "x = x'"
      using c childs [OF il] D(6) [OF il] D(7) [OF il, of x c x'] by (auto split: if_splits)
  next
    fix c assume c: "c < Suc (length ns)" "c \<noteq> 0"
    show "\<exists>i < c. \<exists>x. node_child (ns' ! i) x = Some c"
    proof (cases "c = length ns")
      case True
      then show ?thesis using childs [OF cur, of h] cur by auto
    next
      case False
      with c D(8) [of c] obtain i x where ix: "i < c" "node_child (ns ! i) x = Some c" by auto
      then have "i < length ns" using c False by simp
      then show ?thesis using ix childs fresh' by (metis option.distinct(1))
    qed
  qed
qed

end
