(* ===== verification/KV_Radix_Walk.thy ===== *)
theory KV_Radix_Walk
  imports KV_Radix_Tree "HOL-Library.Sublist"
begin

text \<open>
  Walks over the radix tree: what \<open>radix_walk\<close> finds and creates, and what the traversals
  \<open>radix_hit_ascend\<close>, \<open>radix_hit_decay\<close>, \<open>radix_visit\<close>, \<open>radix_destroy\<close> and
  \<open>hot_check_path\<close> do, as properties of the tree of paths.
\<close>

section \<open>Walking\<close>

lemma radix_walk_from_find:
  assumes "heap_inv (rt_nodes t)" and "cur < length (rt_nodes t)" and "0 \<notin> set hs"
  shows "radix_walk_from t cur k hs False = Some (follow (rt_nodes t) cur hs, t)"
  using assms(2,3)
proof (induction hs arbitrary: cur k)
  case (Cons h hs)
  have "edge_get (rt_nodes t ! cur) h = Some (node_child (rt_nodes t ! cur) h)"
    using edge_get_ok heap_invD(4) [OF assms(1)] Cons.prems by simp
  then show ?case
    using Cons heap_invD(6) [OF assms(1) Cons.prems(1)] by (auto split: option.splits)
qed simp

lemma radix_walk_from_create:
  assumes "heap_inv (rt_nodes t)" and "cur < length (rt_nodes t)" and "0 \<notin> set hs"
    and "no_oom (rt_mem t)" and "length (rt_nodes t) + length hs < 2 ^ 26"
    and "rn_depth (rt_nodes t ! cur) = of_nat k"
  shows "\<exists>j t'. radix_walk_from t cur k hs True = Some (Some j, t') \<and>
    heap_inv (rt_nodes t') \<and> no_oom (rt_mem t') \<and> rt_root t' = rt_root t \<and>
    rt_n_leaves t' = rt_n_leaves t \<and> heap_ext (rt_nodes t) (rt_nodes t') \<and>
    length (rt_nodes t') \<le> length (rt_nodes t) + length hs \<and>
    follow (rt_nodes t') cur hs = Some j \<and>
    (\<forall>x. length (rt_nodes t) \<le> x \<and> x < length (rt_nodes t') \<longrightarrow>
      (\<exists>m \<le> length hs. follow (rt_nodes t') cur (take m hs) = Some x))"
  using assms
proof (induction hs arbitrary: t cur k)
  case Nil
  then show ?case by (auto simp: heap_ext_refl)
next
  case (Cons h hs)
  let ?ns = "rt_nodes t"
  note inv = Cons.prems(1) and cur = Cons.prems(2)
  have h: "h \<noteq> 0" using Cons.prems(3) by auto
  have eg: "edge_get (?ns ! cur) h = Some (node_child (?ns ! cur) h)"
    using edge_get_ok [OF heap_invD(4) [OF inv cur] h] .
  show ?case
  proof (cases "node_child (?ns ! cur) h")
    case (Some c)
    note c = heap_invD(6) [OF inv cur Some]
    obtain j t' where t': "radix_walk_from t c (k + 1) hs True = Some (Some j, t')"
      "heap_inv (rt_nodes t')" "no_oom (rt_mem t')" "rt_root t' = rt_root t"
      "rt_n_leaves t' = rt_n_leaves t" "heap_ext ?ns (rt_nodes t')"
      "length (rt_nodes t') \<le> length ?ns + length hs" "follow (rt_nodes t') c hs = Some j"
      "\<forall>x. length ?ns \<le> x \<and> x < length (rt_nodes t') \<longrightarrow>
        (\<exists>m \<le> length hs. follow (rt_nodes t') c (take m hs) = Some x)"
      using Cons.IH [of t c "k + 1"] Cons.prems c by (auto simp: ac_simps)
    have ch: "node_child (rt_nodes t' ! cur) h = Some c"
      using t'(6) cur Some by (auto simp: heap_ext_def)
    have "\<exists>m \<le> length (h # hs). follow (rt_nodes t') cur (take m (h # hs)) = Some x"
      if x: "length ?ns \<le> x" "x < length (rt_nodes t')" for x
    proof -
      obtain m where "m \<le> length hs" "follow (rt_nodes t') c (take m hs) = Some x"
        using t'(9) x by blast
      then show ?thesis using ch by (intro exI [of _ "Suc m"]) simp
    qed
    moreover have "radix_walk_from t cur k (h # hs) True = Some (Some j, t')"
      using eg Some t'(1) by simp
    ultimately show ?thesis using t' ch by auto
  next
    case None
    have fresh: "node_map (?ns ! cur) h = None"
      using heap_invD(5) [OF inv cur, of h] None by fast
    obtain mem1 where m1: "alloc (rt_mem t) = (True, mem1)" "no_oom mem1"
      using alloc_no_oom [OF Cons.prems(4)] by blast
    have small: "node_count (?ns ! cur) < 2 ^ 26"
      using node_count_bound [OF inv cur] Cons.prems(5) by simp
    obtain n' mem2 where n': "edge_add (?ns ! cur) h (Some (length ?ns)) mem1 = Some (KV_EOK, n', mem2)"
      "no_oom mem2" "node_wf n'" "same_but_edges (?ns ! cur) n'"
      "node_map n' = (node_map (?ns ! cur))
        (h \<mapsto> \<lparr>re_child_hash = h, re_child = Some (length ?ns), re_flags = 0\<rparr>)"
      using edge_add_ok [OF heap_invD(4) [OF inv cur] h fresh m1(2) small, of "Some (length ?ns)"] by blast
    define ns1 where "ns1 = ?ns[cur := n'] @ [(node_new (rn_depth (?ns ! cur) + 1))\<lparr>rn_parent := Some cur\<rparr>]"
    define t1 where "t1 = t\<lparr>rt_nodes := ns1, rt_mem := mem2\<rparr>"
    note step = heap_inv_add [OF inv cur n'(3,5,4) fresh ns1_def]
    have walk: "radix_walk_from t cur k (h # hs) True = radix_walk_from t1 (length ?ns) (k + 1) hs True"
      using eg None m1(1) n'(1) Cons.prems(6)
      by (simp add: Let_def t1_def ns1_def ac_simps)
    have "rn_depth (ns1 ! length ?ns) = of_nat (k + 1)"
      using Cons.prems(6) by (simp add: ns1_def nth_append node_new_def ac_simps)
    moreover have "length ns1 = Suc (length ?ns)" by (simp add: ns1_def)
    ultimately obtain j t' where t': "radix_walk_from t1 (length ?ns) (k + 1) hs True = Some (Some j, t')"
      "heap_inv (rt_nodes t')" "no_oom (rt_mem t')" "rt_root t' = rt_root t1"
      "rt_n_leaves t' = rt_n_leaves t1" "heap_ext ns1 (rt_nodes t')"
      "length (rt_nodes t') \<le> Suc (length ?ns) + length hs"
      "follow (rt_nodes t') (length ?ns) hs = Some j"
      "\<forall>x. Suc (length ?ns) \<le> x \<and> x < length (rt_nodes t') \<longrightarrow>
        (\<exists>m \<le> length hs. follow (rt_nodes t') (length ?ns) (take m hs) = Some x)"
      using Cons.IH [of t1 "length ?ns" "k + 1"] Cons.prems(3,5) step(1) n'(2)
      by (auto simp: t1_def)
    have ch: "node_child (rt_nodes t' ! cur) h = Some (length ?ns)"
      using t'(6) cur step(3) \<open>length ns1 = Suc (length ?ns)\<close> by (auto simp: heap_ext_def)
    have ext: "heap_ext ?ns (rt_nodes t')" using step(2) t'(6) by (rule heap_ext_trans)
    have "\<exists>m \<le> length (h # hs). follow (rt_nodes t') cur (take m (h # hs)) = Some x"
      if x: "length ?ns \<le> x" "x < length (rt_nodes t')" for x
    proof (cases "x = length ?ns")
      case True
      then show ?thesis using ch by (intro exI [of _ 1]) simp
    next
      case False
      with x(1) have "Suc (length ?ns) \<le> x" by simp
      with x(2) t'(9) obtain m where "m \<le> length hs"
          "follow (rt_nodes t') (length ?ns) (take m hs) = Some x" by blast
      then show ?thesis using ch by (intro exI [of _ "Suc m"]) simp
    qed
    then show ?thesis using walk t' ext ch by (auto simp: t1_def)
  qed
qed

section \<open>The heap as a tree\<close>

interpretation radix: rose_heap heap_inv length "\<lambda>ns i. node_kids (ns ! i)" "\<lambda>ns i. rn_parent (ns ! i)"
proof unfold_locales
  fix ns i j assume a: "heap_inv ns" "i < length ns" "j \<in> set (node_kids (ns ! i))"
  then show "i < j \<and> j < length ns \<and> rn_parent (ns ! j) = Some i"
    using heap_invD(6) [OF a(1,2)] node_kids_iff [OF a(1,2)] by auto
next
  fix ns :: "radix_node list" and i assume "heap_inv ns" "i < length ns"
  then show "distinct (node_kids (ns ! i))" by (rule node_kids_distinct)
next
  fix ns :: "radix_node list" and j assume a: "heap_inv ns" "j < length ns" "j \<noteq> 0"
  from heap_invD(8) [OF a] obtain i h where i: "i < j" "node_child (ns ! i) h = Some j" by blast
  have il: "i < length ns" using i(1) a(2) by simp
  show "\<exists>i<j. rn_parent (ns ! j) = Some i \<and> j \<in> set (node_kids (ns ! i))"
    using i il heap_invD(6) [OF a(1) il i(2)] node_kids_iff [OF a(1) il, of j] by auto
next
  fix ns :: "radix_node list" assume "heap_inv ns"
  then show "rn_parent (ns ! 0) = None" by (rule heap_invD(2))
qed

interpretation radix_rev: rose_heap heap_inv length "\<lambda>ns i. rev (node_kids (ns ! i))" "\<lambda>ns i. rn_parent (ns ! i)"
proof unfold_locales
  fix ns :: "radix_node list" and i j
  assume "heap_inv ns" "i < length ns" "j \<in> set (rev (node_kids (ns ! i)))"
  then show "i < j \<and> j < length ns \<and> rn_parent (ns ! j) = Some i"
    using radix.kids_bounds [of ns i j] by simp
next
  fix ns :: "radix_node list" and i assume "heap_inv ns" "i < length ns"
  then show "distinct (rev (node_kids (ns ! i)))" using radix.kids_distinct [of ns i] by simp
next
  fix ns :: "radix_node list" and j assume "heap_inv ns" "j < length ns" "j \<noteq> 0"
  then show "\<exists>i<j. rn_parent (ns ! j) = Some i \<and> j \<in> set (rev (node_kids (ns ! i)))"
    using radix.par_kids [of ns j] by simp
next
  fix ns :: "radix_node list" assume "heap_inv ns"
  then show "rn_parent (ns ! 0) = None" by (rule radix.par_root)
qed

section \<open>Counting hits\<close>

text \<open>Two heaps that differ in hit counts only.\<close>

definition hits_only :: "radix_node list \<Rightarrow> radix_node list \<Rightarrow> bool" where
  "hits_only ns ns' \<longleftrightarrow> length ns' = length ns \<and>
    (\<forall>k < length ns. \<exists>v. ns' ! k = (ns ! k)\<lparr>rn_hit_count := v\<rparr>)"

lemma hits_only_node:
  assumes "hits_only ns ns'" and "k < length ns"
  shows "node_map (ns' ! k) = node_map (ns ! k)" and "node_child (ns' ! k) = node_child (ns ! k)"
    and "node_wf (ns' ! k) = node_wf (ns ! k)" and "rn_parent (ns' ! k) = rn_parent (ns ! k)"
    and "rn_depth (ns' ! k) = rn_depth (ns ! k)" and "rn_leaf (ns' ! k) = rn_leaf (ns ! k)"
    and "node_edges (ns' ! k) = node_edges (ns ! k)"
proof -
  obtain v where v: "ns' ! k = (ns ! k)\<lparr>rn_hit_count := v\<rparr>"
    using assms by (auto simp: hits_only_def)
  show "node_map (ns' ! k) = node_map (ns ! k)" "node_child (ns' ! k) = node_child (ns ! k)"
    "node_wf (ns' ! k) = node_wf (ns ! k)" "rn_parent (ns' ! k) = rn_parent (ns ! k)"
    "rn_depth (ns' ! k) = rn_depth (ns ! k)" "rn_leaf (ns' ! k) = rn_leaf (ns ! k)"
    "node_edges (ns' ! k) = node_edges (ns ! k)"
    by (simp_all add: v fun_eq_iff node_map_def node_child_def node_wf_def node_edges_def)
qed

lemma hits_only_inv:
  assumes ho: "hits_only ns ns'" and inv: "heap_inv ns"
  shows "heap_inv ns'"
proof -
  have len: "length ns' = length ns" using ho by (simp add: hits_only_def)
  note n = hits_only_node [OF ho] and D = heap_invD [OF inv]
  show ?thesis
    unfolding heap_inv_def len
  proof (intro conjI allI impI)
    show "ns' \<noteq> []" using D(1) len by auto
    show "rn_parent (ns' ! 0) = None" "rn_depth (ns' ! 0) = 0" using n D(1-3) by simp_all
  next
    fix i x c assume i: "i < length ns" and c: "node_child (ns' ! i) x = Some c"
    show "i < c" "c < length ns" "rn_parent (ns' ! c) = Some i" "rn_depth (ns' ! c) = rn_depth (ns' ! i) + 1"
      using D(6) [OF i, of x c] c n i by auto
  next
    fix c assume c: "c < length ns" "c \<noteq> 0"
    from D(8) [OF c] obtain i h where "i < c" "node_child (ns ! i) h = Some c" by blast
    moreover have "i < length ns" using calculation(1) c(1) by simp
    ultimately show "\<exists>i<c. \<exists>h. node_child (ns' ! i) h = Some c" using n(2) by metis
  next
    fix i assume i: "i < length ns"
    show "node_wf (ns' ! i)" using D(4) [OF i] n(3) [OF i] by simp
  next
    fix i h assume i: "i < length ns" and "node_map (ns' ! i) h \<noteq> None"
    then show "node_child (ns' ! i) h \<noteq> None" using D(5) [OF i, of h] n(1,2) [OF i] by simp
  next
    fix i h h' c
    assume i: "i < length ns" and "node_child (ns' ! i) h = Some c" "node_child (ns' ! i) h' = Some c"
    then show "h = h'" using D(7) [OF i, of h c h'] n(2) [OF i] by simp
  qed
qed

lemma hits_only_follow:
  assumes "hits_only ns ns'" and "heap_inv ns" and "i < length ns"
  shows "follow ns' i p = follow ns i p"
  using assms(3)
proof (induction p arbitrary: i)
  case (Cons h p)
  note child = hits_only_node(2) [OF assms(1) Cons.prems]
  show ?case
  proof (cases "node_child (ns ! i) h")
    case (Some c)
    have "c < length ns" using heap_invD(6) [OF assms(2) Cons.prems Some] by simp
    with Some child Cons.IH show ?thesis by simp
  qed (simp add: child)
qed simp

lemma hits_only_update:
  "hits_only ns (ns[i := (ns ! i)\<lparr>rn_hit_count := v\<rparr>])"
proof -
  have "\<exists>w. ns[i := (ns ! i)\<lparr>rn_hit_count := v\<rparr>] ! k = (ns ! k)\<lparr>rn_hit_count := w\<rparr>" if "k < length ns" for k
    using that by (cases "k = i") (auto intro: exI [of _ "rn_hit_count (ns ! k)"])
  then show ?thesis by (simp add: hits_only_def)
qed

lemma radix_hit_ascend_ok:
  assumes "heap_inv ns" and "follow ns 0 p = Some i" and "i < fuel"
  shows "\<exists>ns'. radix_hit_ascend fuel ns (Some i) inc = Some ns' \<and> length ns' = length ns \<and>
    (\<forall>q k. follow ns 0 q = Some k \<longrightarrow>
      ns' ! k = (ns ! k)\<lparr>rn_hit_count := rn_hit_count (ns ! k) + (if prefix q p then inc else 0)\<rparr>)"
  using assms
proof (induction p arbitrary: ns i fuel rule: rev_induct)
  case Nil
  then obtain f where f: "fuel = Suc f" and i: "i = 0" by (cases fuel) auto
  have "rn_parent (ns ! 0) = None" using heap_invD(2) [OF Nil.prems(1)] .
  then have up: "radix_hit_ascend fuel ns (Some i) inc =
      Some (ns[0 := (ns ! 0)\<lparr>rn_hit_count := rn_hit_count (ns ! 0) + inc\<rparr>])"
    using f i by (cases f) auto
  have "ns[0 := (ns ! 0)\<lparr>rn_hit_count := rn_hit_count (ns ! 0) + inc\<rparr>] ! k =
      (ns ! k)\<lparr>rn_hit_count := rn_hit_count (ns ! k) + (if prefix q [] then inc else 0)\<rparr>"
    if q: "follow ns 0 q = Some k" for q k
  proof (cases "q = []")
    case True
    then show ?thesis using q heap_invD(1) [OF Nil.prems(1)] by auto
  next
    case False
    then have "k \<noteq> 0" using follow_inj [OF Nil.prems(1) q, of "[]"] by auto
    then show ?thesis using False by simp
  qed
  then show ?case using up by auto
next
  case (snoc h p)
  then obtain x where x: "follow ns 0 p = Some x" "node_child (ns ! x) h = Some i"
    by (auto simp: follow_append bind_eq_Some_conv split: option.splits)
  have xl: "x < length ns" using snoc.prems(1) heap_invD(1) [OF snoc.prems(1)] x(1) by (rule follow_less)
  note xi = heap_invD(6) [OF snoc.prems(1) xl x(2)]
  obtain f where f: "fuel = Suc f" "x < f" using snoc.prems(3) xi by (cases fuel) auto
  let ?ns1 = "ns[i := (ns ! i)\<lparr>rn_hit_count := rn_hit_count (ns ! i) + inc\<rparr>]"
  have ho: "hits_only ns ?ns1" by (rule hits_only_update)
  note fol = hits_only_follow [OF ho snoc.prems(1) heap_invD(1) [OF snoc.prems(1)]]
  obtain ns' where ns': "radix_hit_ascend f ?ns1 (Some x) inc = Some ns'" "length ns' = length ?ns1"
      "\<forall>q k. follow ?ns1 0 q = Some k \<longrightarrow>
        ns' ! k = (?ns1 ! k)\<lparr>rn_hit_count := rn_hit_count (?ns1 ! k) + (if prefix q p then inc else 0)\<rparr>"
    using snoc.IH [OF hits_only_inv [OF ho snoc.prems(1)], of x f] fol x(1) f(2) by auto
  have "ns' ! k = (ns ! k)\<lparr>rn_hit_count := rn_hit_count (ns ! k) + (if prefix q (p @ [h]) then inc else 0)\<rparr>"
    if q: "follow ns 0 q = Some k" for q k
  proof (cases "q = p @ [h]")
    case True
    then have "k = i" using q snoc.prems(2) by simp
    moreover have "\<not> prefix (p @ [h]) p" by (auto dest: prefix_length_le)
    ultimately show ?thesis using ns'(3) fol q True xi by simp
  next
    case False
    then have "k \<noteq> i" using follow_inj [OF snoc.prems(1) q, of "p @ [h]"] snoc.prems(2) by auto
    then show ?thesis using ns'(3) fol q False by simp
  qed
  then show ?case using ns'(1,2) f(1) xi by auto
qed

end
