(* ===== verification/KV_Radix_Visit.thy ===== *)
theory KV_Radix_Visit
  imports KV_Radix_Walk "HOL-Library.Multiset"
begin

text \<open>
  The whole-tree traversals of the radix tree: \<open>radix_hit_decay\<close> halves every hit count once,
  \<open>radix_visit\<close> calls its callback once per node, \<open>radix_destroy\<close> frees every block once,
  and \<open>hot_check_path\<close> agrees with a walk.
\<close>

section \<open>Decay\<close>

definition halve_node :: "radix_node \<Rightarrow> radix_node" where
  "halve_node n = n\<lparr>rn_hit_count := drop_bit 1 (rn_hit_count n)\<rparr>"

abbreviation halve_at :: "nat \<Rightarrow> radix_node list \<Rightarrow> radix_node list" where
  "halve_at j ns \<equiv> ns[j := halve_node (ns ! j)]"

lemma node_edges_halve [simp]: "node_edges (halve_node n) = node_edges n"
  by (simp add: halve_node_def node_edges_def)

lemma map_node_edges_halve_at [simp]: "map node_edges (halve_at j ns) = map node_edges ns"
  by (cases "j < length ns") (simp_all add: map_update list_update_same_conv list_update_beyond)

lemma kids_edges: "map (\<lambda>e. the (re_child e)) (filter edge_live (node_edges n)) = node_kids n"
  by (simp add: node_kids_def)

lemma map_node_edges_fold [simp]: "map node_edges (fold halve_at js ns) = map node_edges ns"
  by (induction js arbitrary: ns) simp_all

lemma live_child:
  assumes "heap_inv ns" and "i < length ns" and "e \<in> set (node_edges (ns ! i))" and "edge_live e"
  shows "re_child e = Some (the (re_child e))" and "the (re_child e) \<in> set (node_kids (ns ! i))"
proof -
  note wf = heap_invD(4) [OF assms(1,2)]
  have e: "e \<in> set (filter edge_used (node_edges (ns ! i)))"
    using assms(3,4) by (simp add: edge_live_def)
  then have "node_map (ns ! i) (re_child_hash e) = Some e" using node_map_iff [OF wf] by blast
  then show "re_child e = Some (the (re_child e))"
    using heap_invD(5) [OF assms(1,2), of "re_child_hash e"] by (auto simp: node_child_def)
  show "the (re_child e) \<in> set (node_kids (ns ! i))"
    using assms(3,4) by (auto simp: node_kids_def)
qed

lemma radix_hit_decay_dfs:
  assumes "heap_inv ns" and "i < length ns" and "length ns \<le> fuel + i"
    and "map node_edges ns' = map node_edges ns"
  shows "radix_hit_decay fuel ns' (Some i) = Some (fold halve_at (radix.dfs fuel ns i) ns')"
  using assms(2-4)
proof (induction fuel arbitrary: i ns')
  case (Suc fuel)
  let ?step = "\<lambda>e acc. case acc of None \<Rightarrow> None
    | Some ns \<Rightarrow> if edge_live e then radix_hit_decay fuel ns (re_child e) else Some ns"
  have "fold ?step es (Some ms) = Some (fold halve_at
      (concat (map (radix.dfs fuel ns) (map (\<lambda>e. the (re_child e)) (filter edge_live es)))) ms)"
    if "set es \<subseteq> set (node_edges (ns ! i))" "map node_edges ms = map node_edges ns" for es ms
    using that
  proof (induction es arbitrary: ms)
    case (Cons e es)
    show ?case
    proof (cases "edge_live e")
      case True
      have "e \<in> set (node_edges (ns ! i))" using Cons.prems(1) by simp
      note c = live_child [OF assms(1) Suc.prems(1) this True]
      note b = radix.kids_bounds [OF assms(1) Suc.prems(1) c(2)]
      have "radix_hit_decay fuel ms (re_child e) =
          Some (fold halve_at (radix.dfs fuel ns (the (re_child e))) ms)"
        by (subst c(1), rule Suc.IH) (use b Suc.prems(2) Cons.prems(2) in auto)
      with True Cons show ?thesis by simp
    qed (use Cons in simp)
  qed simp
  note inner = this
  have edges: "node_edges (ns' ! i) = node_edges (ns ! i)"
    using Suc.prems(1,3) by (metis length_map nth_map)
  have "radix_hit_decay (Suc fuel) ns' (Some i) =
      fold ?step (node_edges (ns ! i)) (Some (halve_at i ns'))"
    by (simp add: edges halve_node_def)
  also have "\<dots> = Some (fold halve_at (radix.dfs (Suc fuel) ns i) ns')"
    using inner [OF subset_refl, of "halve_at i ns'"] Suc.prems(3) by (simp add: kids_edges del: map_map)
  finally show ?case .
qed simp

lemma fold_halve_nth:
  assumes "distinct js" and "k < length ns"
  shows "fold halve_at js ns ! k = (if k \<in> set js then halve_node (ns ! k) else ns ! k)"
  using assms
proof (induction js arbitrary: ns)
  case (Cons j js)
  have "fold halve_at js (halve_at j ns) ! k =
      (if k \<in> set js then halve_node (halve_at j ns ! k) else halve_at j ns ! k)"
    using Cons by simp
  then show ?case using Cons.prems by (cases "k = j") auto
qed simp

lemma length_fold_halve [simp]: "length (fold halve_at js ns) = length ns"
  by (induction js arbitrary: ns) simp_all

lemma hot_decay_ok:
  assumes "radix_inv t"
  shows "hot_decay t = Some (t\<lparr>rt_nodes := map halve_node (rt_nodes t)\<rparr>)"
proof -
  have inv: "heap_inv (rt_nodes t)" and root: "rt_root t = 0" using assms by (auto simp: radix_inv_def)
  note pos = heap_invD(1) [OF inv]
  let ?js = "radix.dfs (length (rt_nodes t)) (rt_nodes t) 0"
  have "fold halve_at ?js (rt_nodes t) = map halve_node (rt_nodes t)"
    using radix.dfs_all [OF inv pos] radix.dfs_distinct [OF inv pos]
    by (intro nth_equalityI) (simp_all add: fold_halve_nth)
  with radix_hit_decay_dfs [OF inv pos, of "length (rt_nodes t)"] root show ?thesis
    by (simp add: hot_decay_def)
qed

section \<open>Visiting\<close>

text \<open>The callback run over a list of nodes, stopping at the first nonzero result.\<close>

fun run_cb :: "(nat \<Rightarrow> 'a \<Rightarrow> int \<times> 'a) \<Rightarrow> nat list \<Rightarrow> 'a \<Rightarrow> int \<times> 'a" where
  "run_cb fn [] arg = (0, arg)"
| "run_cb fn (j # js) arg =
    (case fn j arg of (rc, arg') \<Rightarrow> if rc \<noteq> 0 then (rc, arg') else run_cb fn js arg')"

lemma dfs_rev_unfold:
  assumes "heap_inv ns" and "i < length ns" and "length ns \<le> f"
  shows "radix_rev.dfs f ns i = i # concat (map (radix_rev.dfs f ns) (rev (node_kids (ns ! i))))"
proof -
  obtain f' where f: "f = Suc f'" using assms by (cases f) auto
  have "radix_rev.dfs f' ns c = radix_rev.dfs f ns c" if "c \<in> set (node_kids (ns ! i))" for c
    using radix.kids_bounds [OF assms(1,2) that] assms(3) f
    by (intro radix_rev.dfs_enough [OF assms(1)]) auto
  then have "map (radix_rev.dfs f' ns) (rev (node_kids (ns ! i))) =
      map (radix_rev.dfs f ns) (rev (node_kids (ns ! i)))" by (intro map_cong) auto
  moreover have "radix_rev.dfs f ns i = i # concat (map (radix_rev.dfs f' ns) (rev (node_kids (ns ! i))))"
    unfolding f by simp
  ultimately show ?thesis by metis
qed

lemma radix_visit_loop_ok:
  assumes "heap_inv ns" and "set stk \<subseteq> {..<length ns}" and "no_oom mem"
    and "length (concat (map (radix_rev.dfs (length ns) ns) stk)) \<le> fuel"
  shows "radix_visit_loop fuel ns fn stk cap mem arg =
    Some (run_cb fn (concat (map (radix_rev.dfs (length ns) ns) stk)) arg)"
  using assms(2-4)
proof (induction fuel arbitrary: stk cap mem arg)
  case 0
  show ?case
  proof (cases stk)
    case (Cons c stk')
    then have "c < length ns" using 0 by simp
    from dfs_rev_unfold [OF assms(1) this order_refl] 0 Cons show ?thesis by simp
  qed simp
next
  case (Suc fuel)
  show ?case
  proof (cases stk)
    case (Cons c stk')
    then have c: "c < length ns" using Suc.prems by simp
    note unf = dfs_rev_unfold [OF assms(1) c order_refl]
    let ?stk = "rev (node_kids (ns ! c)) @ stk'"
    have "set ?stk \<subseteq> {..<length ns}"
      using Suc.prems(1) Cons radix.kids_bounds [OF assms(1) c] by auto
    moreover have "length (concat (map (radix_rev.dfs (length ns) ns) ?stk)) \<le> fuel"
      using Suc.prems(3) Cons unf by simp
    ultimately have IH: "radix_visit_loop fuel ns fn ?stk cap' mem' arg' =
        Some (run_cb fn (concat (map (radix_rev.dfs (length ns) ns) ?stk)) arg')"
      if "no_oom mem'" for cap' mem' arg' using Suc.IH that by blast
    obtain mem1 where m1: "alloc mem = (True, mem1)" "no_oom mem1"
      using alloc_no_oom [OF Suc.prems(2)] by blast
    obtain rc arg' where fn: "fn c arg = (rc, arg')" by (cases "fn c arg")
    have run: "run_cb fn (concat (map (radix_rev.dfs (length ns) ns) stk)) arg =
        (if rc \<noteq> 0 then (rc, arg')
         else run_cb fn (concat (map (radix_rev.dfs (length ns) ns) ?stk)) arg')"
      using Cons unf fn by simp
    show ?thesis
      unfolding run using Cons fn IH [OF m1(2)] IH [OF Suc.prems(2)] m1(1)
      by (simp add: Let_def kids_edges split: if_splits)
  qed simp
qed

lemma radix_visit_ok:
  assumes "radix_inv t" and "no_oom (rt_mem t)"
  shows "radix_visit t fn arg =
    Some (run_cb fn (radix_rev.dfs (length (rt_nodes t)) (rt_nodes t) 0) arg)"
proof -
  have inv: "heap_inv (rt_nodes t)" and root: "rt_root t = 0" using assms by (auto simp: radix_inv_def)
  note pos = heap_invD(1) [OF inv]
  obtain mem where m: "alloc (rt_mem t) = (True, mem)" "no_oom mem"
    using alloc_no_oom [OF assms(2)] by blast
  show ?thesis
    using radix_visit_loop_ok [OF inv _ m(2), of "[0]" "length (rt_nodes t)" fn 256 arg]
      radix_rev.dfs_length [OF inv pos order_refl] pos m(1) root
    by (simp add: radix_visit_def)
qed

lemma visit_order:
  assumes "radix_inv t"
  shows "distinct (radix_rev.dfs (length (rt_nodes t)) (rt_nodes t) 0)"
    and "set (radix_rev.dfs (length (rt_nodes t)) (rt_nodes t) 0) = {..<length (rt_nodes t)}"
proof -
  have inv: "heap_inv (rt_nodes t)" using assms by (auto simp: radix_inv_def)
  note pos = heap_invD(1) [OF inv]
  show "distinct (radix_rev.dfs (length (rt_nodes t)) (rt_nodes t) 0)"
    using inv pos by (rule radix_rev.dfs_distinct)
  show "set (radix_rev.dfs (length (rt_nodes t)) (rt_nodes t) 0) = {..<length (rt_nodes t)}"
    using inv pos order_refl by (rule radix_rev.dfs_all)
qed

section \<open>Destroying\<close>

definition node_blocks :: "radix_node list \<Rightarrow> nat \<Rightarrow> block list" where
  "node_blocks ns i =
    (case rn_ovf (ns ! i) of None \<Rightarrow> [] | Some _ \<Rightarrow> [Block_ovf_slots i, Block_ovf i]) @
    (case rn_leaf (ns ! i) of None \<Rightarrow> [] | Some l \<Rightarrow> [Block_stripe l, Block_leaf l]) @
    [Block_node i]"

lemma node_free_rec_mset:
  "mset (node_free_rec fuel ns i) = mset (concat (map (node_blocks ns) (radix.dfs fuel ns i)))"
proof (induction fuel arbitrary: i)
  case (Suc fuel)
  have "mset (concat (map (\<lambda>e. node_free_rec fuel ns (the (re_child e))) es)) =
      mset (concat (map (node_blocks ns) (concat (map (radix.dfs fuel ns) (map (\<lambda>e. the (re_child e)) es)))))"
    for es by (induction es) (simp_all add: Suc)
  from this [of "filter edge_live (node_edges (ns ! i))"]
  have "mset (concat (map (\<lambda>e. node_free_rec fuel ns (the (re_child e)))
      (filter edge_live (node_edges (ns ! i))))) =
    mset (concat (map (node_blocks ns) (concat (map (radix.dfs fuel ns) (node_kids (ns ! i))))))"
    unfolding kids_edges .
  then show ?case by (simp add: node_blocks_def [of ns i])
qed simp

lemma node_blocks_mem:
  "b \<in> set (node_blocks ns i) \<longleftrightarrow>
    b = Block_node i \<or>
    (rn_ovf (ns ! i) \<noteq> None \<and> (b = Block_ovf_slots i \<or> b = Block_ovf i)) \<or>
    (\<exists>l. rn_leaf (ns ! i) = Some l \<and> (b = Block_stripe l \<or> b = Block_leaf l))"
  by (auto simp: node_blocks_def split: option.splits)

lemma distinct_concat_blocks:
  assumes "distinct is"
    and "\<And>i j l. i \<in> set is \<Longrightarrow> j \<in> set is \<Longrightarrow> rn_leaf (ns ! i) = Some l \<Longrightarrow> rn_leaf (ns ! j) = Some l \<Longrightarrow> i = j"
  shows "distinct (concat (map (node_blocks ns) is))"
  using assms
proof (induction "is")
  case (Cons i "is")
  have "distinct (node_blocks ns i)" by (auto simp: node_blocks_def split: option.splits)
  moreover have "distinct (concat (map (node_blocks ns) is))"
  proof (rule Cons.IH)
    show "distinct is" using Cons.prems(1) by simp
    show "a = b" if "a \<in> set is" "b \<in> set is" "rn_leaf (ns ! a) = Some l" "rn_leaf (ns ! b) = Some l" for a b l
      using Cons.prems(2) [of a b l] that by simp
  qed
  moreover have "set (node_blocks ns i) \<inter> set (node_blocks ns j) = {}" if j: "j \<in> set is" for j
  proof (rule equals0I)
    fix b assume "b \<in> set (node_blocks ns i) \<inter> set (node_blocks ns j)"
    moreover have "i \<noteq> j" using Cons.prems(1) j by auto
    moreover have "rn_leaf (ns ! i) = Some l \<Longrightarrow> rn_leaf (ns ! j) \<noteq> Some l" for l
      using Cons.prems(2) [of i j l] j calculation(2) by auto
    ultimately show False by (auto simp: node_blocks_mem)
  qed
  ultimately show ?case by auto
qed simp

section \<open>Reachability\<close>

lemma follow_exists:
  assumes "heap_inv ns" and "x < length ns"
  shows "\<exists>p. follow ns 0 p = Some x"
  using assms(2)
proof (induction x rule: less_induct)
  case (less x)
  show ?case
  proof (cases "x = 0")
    case True
    then have "follow ns 0 [] = Some x" by simp
    then show ?thesis ..
  next
    case False
    from heap_invD(8) [OF assms(1) less.prems False] obtain i h where
      i: "i < x" "node_child (ns ! i) h = Some x" by blast
    with less.IH [of i] less.prems obtain p where "follow ns 0 p = Some i" by auto
    with i(2) have "follow ns 0 (p @ [h]) = Some x" by (simp add: follow_append)
    then show ?thesis ..
  qed
qed

lemma follow_prefix:
  assumes "follow ns i p = Some j" and "prefix q p"
  shows "follow ns i q \<noteq> None"
  using assms by (auto simp: prefix_def follow_append bind_eq_Some_conv)

lemma radix_init_inv:
  assumes "radix_init mem = Some t"
  shows "radix_inv t"
proof -
  have "rt_nodes t = [node_new 0]" "rt_root t = 0"
    using assms by (auto simp: radix_init_def split: prod.splits if_splits)
  moreover have "heap_inv [node_new 0]"
    unfolding heap_inv_def by (simp, simp add: node_new_def)
  ultimately show ?thesis by (simp add: radix_inv_def)
qed

lemma hot_check_from_ok:
  assumes "heap_inv ns" and "cur < length ns" and "0 \<notin> set hs" and "rn_parent (ns ! cur) = par"
  shows "hot_check_from ns cur par hs th =
    Some (case follow ns cur hs of
      None \<Rightarrow> False
    | Some j \<Rightarrow> rn_hit_count (ns ! j) > th \<or>
        (case rn_parent (ns ! j) of None \<Rightarrow> False | Some p \<Rightarrow> rn_hit_count (ns ! p) > th))"
  using assms(2-4)
proof (induction hs arbitrary: cur par)
  case (Cons h hs)
  have hc: "hot_child (ns ! cur) h = Some (node_child (ns ! cur) h)"
    using hot_child_ok [OF heap_invD(4) [OF assms(1) Cons.prems(1)]] Cons.prems(2) by simp
  show ?case
  proof (cases "node_child (ns ! cur) h")
    case (Some c)
    note c = heap_invD(6) [OF assms(1) Cons.prems(1) Some]
    show ?thesis using hc Some Cons.IH [of c "Some cur"] c Cons.prems(2) by simp
  qed (simp add: hc)
qed (auto split: option.splits)

section \<open>Properties\<close>

text \<open>C5: When no allocation fails, the hashes of the path are not zero and the tree stays below
  \<open>2 ^ 26\<close> nodes, walking with creation returns a node that the same walk without creation finds
  afterwards; it keeps the tree's invariant and every node that could be found before together
  with its fields, and the paths it adds are exactly the prefixes of the path walked.\<close>

theorem radix_walk_create_spec:
  assumes inv: "radix_inv t" and p: "0 \<notin> set p" and mem: "no_oom (rt_mem t)"
    and size: "length (rt_nodes t) + length p < 2 ^ 26"
  shows "\<exists>j t'. radix_walk t p True = Some (Some j, t') \<and> radix_inv t' \<and>
    radix_walk t' p False = Some (Some j, t') \<and>
    (\<forall>q x. follow (rt_nodes t) 0 q = Some x \<longrightarrow> follow (rt_nodes t') 0 q = Some x) \<and>
    (\<forall>q. follow (rt_nodes t') 0 q \<noteq> None \<longleftrightarrow> follow (rt_nodes t) 0 q \<noteq> None \<or> prefix q p) \<and>
    (\<forall>i < length (rt_nodes t). same_but_edges (rt_nodes t ! i) (rt_nodes t' ! i))"
proof -
  have h: "heap_inv (rt_nodes t)" and root: "rt_root t = 0" using inv by (auto simp: radix_inv_def)
  note pos = heap_invD(1) [OF h]
  obtain j t' where t': "radix_walk_from t 0 0 p True = Some (Some j, t')" "heap_inv (rt_nodes t')"
    "rt_root t' = rt_root t" "heap_ext (rt_nodes t) (rt_nodes t')" "follow (rt_nodes t') 0 p = Some j"
    "\<forall>x. length (rt_nodes t) \<le> x \<and> x < length (rt_nodes t') \<longrightarrow>
      (\<exists>m \<le> length p. follow (rt_nodes t') 0 (take m p) = Some x)"
    using radix_walk_from_create [OF h pos p mem size, of 0] heap_invD(3) [OF h] by auto
  note pos' = heap_invD(1) [OF t'(2)]
  have mono: "follow (rt_nodes t') 0 q = Some x" if "follow (rt_nodes t) 0 q = Some x" for q x
    using heap_ext_follow [OF h t'(4) pos that] .
  have "follow (rt_nodes t) 0 q \<noteq> None \<or> prefix q p" if q: "follow (rt_nodes t') 0 q = Some x" for q x
  proof (cases "x < length (rt_nodes t)")
    case True
    then obtain q0 where q0: "follow (rt_nodes t) 0 q0 = Some x" using follow_exists [OF h] by blast
    have "q = q0" using follow_inj [OF t'(2) q mono [OF q0]] .
    with q0 show ?thesis by simp
  next
    case False
    have "x < length (rt_nodes t')" using t'(2) pos' q by (rule follow_less)
    with False t'(6) obtain m where "follow (rt_nodes t') 0 (take m p) = Some x" by (metis not_le)
    with follow_inj [OF t'(2) q] show ?thesis using take_is_prefix by blast
  qed
  then have "follow (rt_nodes t') 0 q \<noteq> None \<longleftrightarrow> follow (rt_nodes t) 0 q \<noteq> None \<or> prefix q p" for q
    using mono follow_prefix [OF t'(5)] by (metis not_None_eq)
  moreover have "radix_walk t' p False = Some (Some j, t')"
    using radix_walk_from_find [OF t'(2) pos' p, of 0] t'(3,5) root by (simp add: radix_walk_def)
  ultimately show ?thesis
    using t' root mono by (auto simp: radix_walk_def radix_inv_def heap_ext_def)
qed

text \<open>C6: Walking without creation always returns, leaves the tree as it is and finds exactly the
  stored paths; two different paths never lead to the same node.\<close>

theorem radix_walk_find_spec:
  assumes inv: "radix_inv t" and p: "0 \<notin> set p" and q: "0 \<notin> set q"
  shows "radix_walk t p False = Some (follow (rt_nodes t) 0 p, t) \<and>
    (radix_walk t p False = Some (Some j, t) \<and> radix_walk t q False = Some (Some j, t) \<longrightarrow> p = q)"
proof -
  have h: "heap_inv (rt_nodes t)" and root: "rt_root t = 0" using inv by (auto simp: radix_inv_def)
  have w: "radix_walk t r False = Some (follow (rt_nodes t) 0 r, t)" if "0 \<notin> set r" for r
    using radix_walk_from_find [OF h heap_invD(1) [OF h] that, of 0] root by (simp add: radix_walk_def)
  show ?thesis using w [OF p] w [OF q] follow_inj [OF h, of p j q] by simp
qed

text \<open>C16: Recording a hit at the node of a path adds the increment, modulo \<open>2 ^ 32\<close>, to the hit count
  of every node on that path and to no other node, and the climb to the root ends.\<close>

theorem radix_hit_ascend_spec:
  assumes "radix_inv t" and "follow (rt_nodes t) 0 p = Some i"
  shows "\<exists>ns'. radix_hit_ascend (length (rt_nodes t)) (rt_nodes t) (Some i) inc = Some ns' \<and>
    length ns' = length (rt_nodes t) \<and>
    (\<forall>q k. follow (rt_nodes t) 0 q = Some k \<longrightarrow>
      ns' ! k = (rt_nodes t ! k)\<lparr>rn_hit_count := rn_hit_count (rt_nodes t ! k) + (if prefix q p then inc else 0)\<rparr>)"
proof -
  have h: "heap_inv (rt_nodes t)" using assms(1) by (simp add: radix_inv_def)
  have "i < length (rt_nodes t)" using h heap_invD(1) [OF h] assms(2) by (rule follow_less)
  from radix_hit_ascend_ok [OF h assms(2) this] show ?thesis .
qed

text \<open>C17: Decay halves the hit count of every node of the tree exactly once and changes nothing
  else; its recursion ends.\<close>

theorem hot_decay_halves_all:
  assumes "radix_inv t"
  shows "hot_decay t = Some (t\<lparr>rt_nodes := map (\<lambda>n. n\<lparr>rn_hit_count := drop_bit 1 (rn_hit_count n)\<rparr>) (rt_nodes t)\<rparr>)"
  using hot_decay_ok [OF assms] by (simp add: halve_node_def [abs_def])

text \<open>C15: \<open>radix_visit\<close> ends and calls its callback on every node of the tree exactly once, in an
  order that does not depend on the callback, until the callback returns nonzero.\<close>

theorem radix_visit_once:
  assumes "radix_inv t" and "no_oom (rt_mem t)"
  shows "\<exists>js. distinct js \<and> set js = {..<length (rt_nodes t)} \<and>
    (\<forall>fn arg. radix_visit t fn arg = Some (run_cb fn js arg))"
  using visit_order [OF assms(1)] radix_visit_ok [OF assms] by blast

text \<open>C14: Destroying the tree frees every node, every overflow table and every leaf exactly once:
  nothing is freed twice and nothing is leaked.\<close>

theorem radix_destroy_frees_once:
  assumes inv: "radix_inv t"
    and leaves: "\<And>i j l. i < length (rt_nodes t) \<Longrightarrow> j < length (rt_nodes t) \<Longrightarrow>
      rn_leaf (rt_nodes t ! i) = Some l \<Longrightarrow> rn_leaf (rt_nodes t ! j) = Some l \<Longrightarrow> i = j"
  shows "distinct (radix_destroy t) \<and>
    set (radix_destroy t) = (\<Union>i < length (rt_nodes t). set (node_blocks (rt_nodes t) i))"
proof -
  have h: "heap_inv (rt_nodes t)" and root: "rt_root t = 0" using inv by (auto simp: radix_inv_def)
  note pos = heap_invD(1) [OF h]
  let ?js = "radix.dfs (length (rt_nodes t)) (rt_nodes t) 0"
  have eq: "mset (radix_destroy t) = mset (concat (map (node_blocks (rt_nodes t)) ?js))"
    by (simp add: radix_destroy_def root node_free_rec_mset)
  have set: "set ?js = {..<length (rt_nodes t)}" using h pos order_refl by (rule radix.dfs_all)
  have "distinct (concat (map (node_blocks (rt_nodes t)) ?js))"
  proof (rule distinct_concat_blocks)
    show "distinct ?js" using h pos by (rule radix.dfs_distinct)
    show "i = j" if "i \<in> set ?js" "j \<in> set ?js" "rn_leaf (rt_nodes t ! i) = Some l"
      "rn_leaf (rt_nodes t ! j) = Some l" for i j l using leaves that set by auto
  qed
  then have "distinct (radix_destroy t)" using eq mset_eq_imp_distinct_iff by blast
  then show ?thesis using mset_eq_setD [OF eq] set by auto
qed

text \<open>C18: A path is hot exactly when the tree has it and the hit count of its node or of that node's
  parent exceeds the threshold; the check's own copy of the edge lookup agrees with the walk's.\<close>

theorem hot_check_path_spec:
  assumes "radix_inv t" and "0 \<notin> set p"
  shows "hot_check_path t p th =
    Some (case radix_walk t p False of
      Some (Some j, _) \<Rightarrow> rn_hit_count (rt_nodes t ! j) > th \<or>
        (case rn_parent (rt_nodes t ! j) of None \<Rightarrow> False | Some i \<Rightarrow> rn_hit_count (rt_nodes t ! i) > th)
    | _ \<Rightarrow> False)"
proof -
  have h: "heap_inv (rt_nodes t)" and root: "rt_root t = 0" using assms(1) by (auto simp: radix_inv_def)
  note pos = heap_invD(1) [OF h]
  show ?thesis
    using hot_check_from_ok [OF h pos assms(2) heap_invD(2) [OF h], of th]
      radix_walk_from_find [OF h pos assms(2), of 0] root
    by (auto simp: hot_check_path_def radix_walk_def split: option.splits)
qed

section \<open>Witnesses\<close>

text \<open>A tree with one stored path.\<close>

definition radix_t0 :: radix_tree where
  "radix_t0 = \<lparr>rt_nodes = [node_new 0], rt_root = 0, rt_n_leaves = 0, rt_mem = []\<rparr>"

lemma radix_t0_inv: "radix_inv radix_t0"
  by (rule radix_init_inv [of "[]"]) (simp add: radix_init_def radix_t0_def)

theorem radix_walk_create_spec_witness:
  "\<exists>j t'. radix_walk radix_t0 [5, 7] True = Some (Some j, t') \<and> radix_walk t' [5, 7] False = Some (Some j, t')"
  using radix_walk_create_spec [OF radix_t0_inv, of "[5, 7]"] by (auto simp: radix_t0_def)

theorem radix_walk_find_spec_witness:
  "radix_walk radix_t0 [5] False = Some (None, radix_t0)"
  using radix_walk_find_spec [OF radix_t0_inv, of "[5]" "[]"] by (simp add: radix_t0_def)

theorem radix_hit_ascend_spec_witness:
  "\<exists>ns'. radix_hit_ascend 1 (rt_nodes radix_t0) (Some 0) 3 = Some ns' \<and> rn_hit_count (ns' ! 0) = 3"
proof -
  obtain ns' where "radix_hit_ascend 1 (rt_nodes radix_t0) (Some 0) 3 = Some ns'"
    "ns' ! 0 = (node_new 0)\<lparr>rn_hit_count := 3\<rparr>"
    using radix_hit_ascend_spec [OF radix_t0_inv, of "[]" 0 3]
    by (auto simp: radix_t0_def node_new_def dest: spec [of _ "[]"])
  then show ?thesis by simp
qed

theorem hot_decay_halves_all_witness:
  "hot_decay (radix_t0\<lparr>rt_nodes := [(node_new 0)\<lparr>rn_hit_count := 5\<rparr>]\<rparr>) =
    Some (radix_t0\<lparr>rt_nodes := [(node_new 0)\<lparr>rn_hit_count := 2\<rparr>]\<rparr>)"
proof -
  have "hits_only [node_new 0] [(node_new 0)\<lparr>rn_hit_count := 5\<rparr>]"
    using hits_only_update [of "[node_new 0]" 0 5] by simp
  then have "radix_inv (radix_t0\<lparr>rt_nodes := [(node_new 0)\<lparr>rn_hit_count := 5\<rparr>]\<rparr>)"
    using hits_only_inv radix_t0_inv by (simp add: radix_inv_def radix_t0_def)
  from hot_decay_halves_all [OF this] show ?thesis by simp
qed

theorem radix_visit_once_witness:
  "\<exists>js. distinct js \<and> set js = {..<1} \<and>
    (\<forall>fn arg. radix_visit radix_t0 fn (arg :: nat) = Some (run_cb fn js arg))"
  using radix_visit_once [OF radix_t0_inv] by (simp add: radix_t0_def)

theorem radix_destroy_frees_once_witness:
  "set (radix_destroy radix_t0) = {Block_node 0}"
  using radix_destroy_frees_once [OF radix_t0_inv]
  by (simp add: radix_t0_def node_blocks_def node_new_def lessThan_Suc)

theorem hot_check_path_spec_witness:
  "hot_check_path radix_t0 [9] 0 = Some False"
  using hot_check_path_spec [OF radix_t0_inv, of "[9]" 0] radix_walk_from_find [of radix_t0 0 "[9]" 0]
    radix_t0_inv
  by (simp add: radix_walk_def radix_inv_def radix_t0_def)

end
