(* ===== verification/KV_Codec.thy ===== *)
theory KV_Codec
  imports KV_Common
begin

text \<open>
  Fixed-width binary encodings.  The on-disk structs of the program (journal records, checkpoint
  records, superblocks, region and chunk headers) are packed little-endian memory images.  The
  locale \<open>fixed_codec\<close> is the contract of one such encoding; arrays of it (\<open>enc_arr\<close>,
  \<open>dec_arr\<close>) then round-trip for free.
\<close>

definition enc_arr :: "('a \<Rightarrow> bytes) \<Rightarrow> 'a list \<Rightarrow> bytes" where
  "enc_arr enc xs = concat (map enc xs)"

primrec dec_arr :: "(bytes \<Rightarrow> 'a) \<Rightarrow> nat \<Rightarrow> nat \<Rightarrow> bytes \<Rightarrow> 'a list" where
  "dec_arr dec sz 0 b = []"
| "dec_arr dec sz (Suc n) b = dec b # dec_arr dec sz n (drop sz b)"

lemma enc_arr_simps [simp]:
  "enc_arr enc [] = []" "enc_arr enc (x # xs) = enc x @ enc_arr enc xs"
  "enc_arr enc (xs @ ys) = enc_arr enc xs @ enc_arr enc ys"
  by (simp_all add: enc_arr_def)

lemma length_dec_arr [simp]: "length (dec_arr dec sz n b) = n"
  by (induction n arbitrary: b) simp_all

locale fixed_codec =
  fixes enc :: "'a \<Rightarrow> bytes" and dec :: "bytes \<Rightarrow> 'a" and sz :: nat
  assumes length_enc: "length (enc x) = sz"
    and dec_enc: "dec (enc x @ rest) = x"
begin

lemma length_enc_arr: "length (enc_arr enc xs) = length xs * sz"
  by (induction xs) (simp_all add: length_enc)

lemma dec_enc_arr: "dec_arr dec sz (length xs) (enc_arr enc xs @ rest) = xs"
  by (induction xs) (simp_all add: dec_enc length_enc)

lemma enc_inject: "enc x = enc y \<longleftrightarrow> x = y"
  using dec_enc [of x "[]"] dec_enc [of y "[]"] by metis

lemma enc_arr_inject:
  assumes "length xs = length ys" and "enc_arr enc xs = enc_arr enc ys"
  shows "xs = ys"
  using assms dec_enc_arr [of xs "[]"] dec_enc_arr [of ys "[]"] by simp

end

interpretation c32: fixed_codec put_le32 le32 4
  by unfold_locales simp_all

interpretation c64: fixed_codec put_le64 le64 8
  by unfold_locales simp_all

lemmas arr_simps [simp] = c32.length_enc_arr c64.length_enc_arr c32.dec_enc_arr c64.dec_enc_arr

text \<open>Reading a field of a struct from its position in the concatenation.\<close>

lemma bslice_field:
  assumes "length a = off"
  shows "bslice off n (a @ b) = take n b"
  using assms by (simp add: bslice_def)

end
