(* ===== verification/KV_Types.thy ===== *)
theory KV_Types
  imports KV_Codec
begin

text \<open>
  The data of \<open>src/radix.hpp\<close> that several components share: addresses, stripe parts,
  shapes and leaves, with the memory images of the two structs that are written to disk as they
  stand.  \<open>kv_addr\<close> is packed (36 bytes); \<open>kv_stripe_part\<close> has the natural alignment of a
  64-bit field (24 bytes, the padding zero).
\<close>

record kv_addr =
  ka_dev_id :: u32
  ka_page_no :: u64
  ka_page_off :: u32
  ka_len_pages :: u32
  ka_last_write_ts :: u64
  ka_expire_ts :: u32
  ka_crc :: u32

record kv_stripe_part =
  sp_dev_id :: u32
  sp_page_no :: u64
  sp_len_pages :: u32

record kv_stripe_addr =
  sa_n_parts :: u32
  sa_total_len :: u32
  sa_parts :: "kv_stripe_part list"

record kv_shape =
  sh_id :: u32
  sh_n_recs :: u16
  sh_lens :: "u32 list"

text \<open>A leaf; its shape is a pointer into the shape pool, an index.\<close>

record radix_leaf =
  lf_refcnt :: u32
  lf_ver :: u32
  lf_prefix_id :: u64
  lf_addr0 :: kv_addr
  lf_addr1 :: kv_addr
  lf_stripe :: "kv_stripe_addr option"
  lf_shape :: "nat option"

definition kv_addr0 :: kv_addr where
  "kv_addr0 = \<lparr>ka_dev_id = 0, ka_page_no = 0, ka_page_off = 0, ka_len_pages = 0,
    ka_last_write_ts = 0, ka_expire_ts = 0, ka_crc = 0\<rparr>"

definition kv_stripe_part0 :: kv_stripe_part where
  "kv_stripe_part0 = \<lparr>sp_dev_id = 0, sp_page_no = 0, sp_len_pages = 0\<rparr>"

definition radix_leaf0 :: radix_leaf where
  "radix_leaf0 = \<lparr>lf_refcnt = 0, lf_ver = 0, lf_prefix_id = 0, lf_addr0 = kv_addr0,
    lf_addr1 = kv_addr0, lf_stripe = None, lf_shape = None\<rparr>"

section \<open>Memory images\<close>

definition enc_kv_addr :: "kv_addr \<Rightarrow> bytes" where
  "enc_kv_addr a = put_le32 (ka_dev_id a) @ put_le64 (ka_page_no a) @ put_le32 (ka_page_off a) @
    put_le32 (ka_len_pages a) @ put_le64 (ka_last_write_ts a) @ put_le32 (ka_expire_ts a) @
    put_le32 (ka_crc a)"

definition dec_kv_addr :: "bytes \<Rightarrow> kv_addr" where
  "dec_kv_addr b = \<lparr>ka_dev_id = le32 b, ka_page_no = le64 (drop 4 b), ka_page_off = le32 (drop 12 b),
    ka_len_pages = le32 (drop 16 b), ka_last_write_ts = le64 (drop 20 b),
    ka_expire_ts = le32 (drop 28 b), ka_crc = le32 (drop 32 b)\<rparr>"

definition enc_stripe_part :: "kv_stripe_part \<Rightarrow> bytes" where
  "enc_stripe_part p = put_le32 (sp_dev_id p) @ zeros 4 @ put_le64 (sp_page_no p) @
    put_le32 (sp_len_pages p) @ zeros 4"

definition dec_stripe_part :: "bytes \<Rightarrow> kv_stripe_part" where
  "dec_stripe_part b = \<lparr>sp_dev_id = le32 b, sp_page_no = le64 (drop 8 b), sp_len_pages = le32 (drop 16 b)\<rparr>"

interpretation c_addr: fixed_codec enc_kv_addr dec_kv_addr 36
  by unfold_locales (simp_all add: enc_kv_addr_def dec_kv_addr_def)

interpretation c_part: fixed_codec enc_stripe_part dec_stripe_part 24
  by unfold_locales (simp_all add: enc_stripe_part_def dec_stripe_part_def)

lemmas types_codec [simp] = c_addr.length_enc c_addr.dec_enc c_part.length_enc c_part.dec_enc
  c_part.length_enc_arr c_part.dec_enc_arr

end
