(* ===== verification/KV_Device.thy ===== *)
theory KV_Device
  imports KV_Common
begin

text \<open>
  The file-backed device of \<open>src/device.cpp\<close>.  The file is a byte list; the kernel's answers
  to the next system calls are a script \<open>dv_os\<close> of short transfers, interruptions and errors,
  an exhausted script meaning that every further call succeeds in full.  The lemmas show that the
  transfer loops are immune to short transfers and interruptions, and give the clients a view of
  the device as an array of pages; the locale \<open>page_store\<close> is that view's contract.
\<close>

section \<open>Data\<close>

datatype sys_res = Sys_ok nat | Sys_intr | Sys_err int

record dev_stats =
  ds_bytes_written :: u64
  ds_bytes_read :: u64
  ds_io_errs :: u32

record dev_geom =
  dg_logical_bs :: u32
  dg_physical_bs :: u32
  dg_fs_bs :: u32
  dg_io_hint :: u32

record device =
  dv_fd :: int
  dv_dev_id :: int
  dv_o_direct :: bool
  dv_total_pages :: u64
  dv_stats :: dev_stats
  dv_geom :: dev_geom
  dv_data :: bytes
  dv_os :: "sys_res list"

section \<open>Transfers\<close>

text \<open>\<open>pwrite\<close> at an offset, extending the file when it ends before the data does.\<close>

definition pwrite_at :: "bytes \<Rightarrow> nat \<Rightarrow> bytes \<Rightarrow> bytes" where
  "pwrite_at data off b =
    (if b = [] then data else overwrite (data @ zeros (off + length b - length data)) off b)"

fun write_loop :: "sys_res list \<Rightarrow> bytes \<Rightarrow> nat \<Rightarrow> bytes \<Rightarrow> int option \<times> bytes \<times> sys_res list" where
  "write_loop os data off [] = (None, data, os)"
| "write_loop [] data off (b # p) = (None, pwrite_at data off (b # p), [])"
| "write_loop (Sys_intr # os) data off (b # p) = write_loop os data off (b # p)"
| "write_loop (Sys_err e # os) data off (b # p) = (Some e, data, os)"
| "write_loop (Sys_ok n # os) data off (b # p) =
    write_loop os (pwrite_at data off (take n (b # p))) (off + min n (length (b # p))) (drop n (b # p))"

definition write_pages :: "device \<Rightarrow> nat \<Rightarrow> bytes \<Rightarrow> nat \<Rightarrow> int \<times> device" where
  "write_pages d page_no buf npages =
    (let len = npages * KV_PAGE_SIZE;
         off = trunc64 (page_no * KV_PAGE_SIZE)
     in case write_loop (dv_os d) (dv_data d) off (take len buf) of
          (Some e, data, os) \<Rightarrow>
            (- e, d\<lparr>dv_data := data, dv_os := os,
                    dv_stats := (dv_stats d)\<lparr>ds_io_errs := ds_io_errs (dv_stats d) + 1\<rparr>\<rparr>)
        | (None, data, os) \<Rightarrow>
            (KV_EOK, d\<lparr>dv_data := data, dv_os := os,
                       dv_stats := (dv_stats d)\<lparr>ds_bytes_written := ds_bytes_written (dv_stats d) + of_nat len\<rparr>\<rparr>))"

fun read_loop :: "sys_res list \<Rightarrow> bytes \<Rightarrow> nat \<Rightarrow> nat \<Rightarrow> int option \<times> bytes \<times> sys_res list" where
  "read_loop os data off 0 = (None, [], os)"
| "read_loop [] data off (Suc want) = (None, bslice off (Suc want) data, [])"
| "read_loop (Sys_intr # os) data off (Suc want) = read_loop os data off (Suc want)"
| "read_loop (Sys_err e # os) data off (Suc want) = (Some e, [], os)"
| "read_loop (Sys_ok n # os) data off (Suc want) =
    (let got = bslice off (min n (Suc want)) data
     in if got = [] then (None, [], os)
        else case read_loop os data (off + length got) (Suc want - length got) of
               (e, rest, os') \<Rightarrow> (e, got @ rest, os'))"

definition read_pages :: "device \<Rightarrow> nat \<Rightarrow> nat \<Rightarrow> (int \<times> bytes) \<times> device" where
  "read_pages d page_no npages =
    (let len = npages * KV_PAGE_SIZE;
         off = trunc64 (page_no * KV_PAGE_SIZE)
     in case read_loop (dv_os d) (dv_data d) off len of
          (Some e, b, os) \<Rightarrow>
            ((- e, b), d\<lparr>dv_os := os,
                dv_stats := (dv_stats d)\<lparr>ds_io_errs := ds_io_errs (dv_stats d) + 1\<rparr>\<rparr>)
        | (None, b, os) \<Rightarrow>
            ((if length b = len then KV_EOK else - KV_EREAD, b), d\<lparr>dv_os := os,
                dv_stats := (dv_stats d)\<lparr>ds_bytes_read := ds_bytes_read (dv_stats d) + of_nat (length b)\<rparr>\<rparr>))"

text \<open>\<open>trim\<close> punches a hole that reads as zeros and keeps the file size (Linux).  Neither it nor
  \<open>flush\<close> retries an interrupted call.\<close>

definition EINTR :: int where
  "EINTR = 4"

definition dev_trim :: "device \<Rightarrow> nat \<Rightarrow> nat \<Rightarrow> int \<times> device" where
  "dev_trim d page_no npages =
    (let off = page_no * KV_PAGE_SIZE;
         len = npages * KV_PAGE_SIZE;
         hole = overwrite (dv_data d) off (zeros (min len (length (dv_data d) - off)))
     in case dv_os d of
          Sys_err e # os \<Rightarrow> (- e, d\<lparr>dv_os := os\<rparr>)
        | Sys_intr # os \<Rightarrow> (- EINTR, d\<lparr>dv_os := os\<rparr>)
        | Sys_ok _ # os \<Rightarrow> (KV_EOK, d\<lparr>dv_os := os, dv_data := hole\<rparr>)
        | [] \<Rightarrow> (KV_EOK, d\<lparr>dv_data := hole\<rparr>))"

definition dev_flush :: "device \<Rightarrow> int \<times> device" where
  "dev_flush d =
    (case dv_os d of
       Sys_err e # os \<Rightarrow> (- e, d\<lparr>dv_os := os\<rparr>)
     | Sys_intr # os \<Rightarrow> (- EINTR, d\<lparr>dv_os := os\<rparr>)
     | Sys_ok _ # os \<Rightarrow> (KV_EOK, d\<lparr>dv_os := os\<rparr>)
     | [] \<Rightarrow> (KV_EOK, d))"

definition dev_close :: "device \<Rightarrow> device" where
  "dev_close d = d\<lparr>dv_fd := -1\<rparr>"

section \<open>Opening and probing\<close>

text \<open>What the kernel says about a path: the results of \<open>open\<close> with and without
  \<open>O_DIRECT\<close> (a negative value is the negated errno), of \<open>fstat\<close> (an errno, or whether
  the file is regular and its size), of \<open>stat\<close> and \<open>statvfs\<close> (the block sizes, and
  whether it is a device node) and of the two \<open>ioctl\<close>s.\<close>

record os_path =
  op_open_direct :: int
  op_open :: int
  op_fstat :: "int + (bool \<times> u64)"
  op_stat :: "(u32 \<times> bool) option"
  op_statvfs :: "u32 option"
  op_open_ro :: int
  op_blksszget :: "int option"
  op_blkpbszget :: "int option"

definition file_open :: "device \<Rightarrow> os_path \<Rightarrow> int \<times> device" where
  "file_open d p =
    (let fd0 = op_open_direct p;
         d = d\<lparr>dv_o_direct := (fd0 \<ge> 0)\<rparr>;
         fd = (if fd0 < 0 then op_open p else fd0)
     in if fd < 0 then (fd, d)
        else case op_fstat p of
               Inl e \<Rightarrow> (- e, d)
             | Inr (reg, sz) \<Rightarrow>
                 if \<not> reg then (- KV_EINVAL, d)
                 else
                   (let d = d\<lparr>dv_fd := fd, dv_total_pages := sz div of_nat KV_PAGE_SIZE\<rparr>
                    in if dv_total_pages d < 8 then (- KV_EINVAL, d\<lparr>dv_fd := -1\<rparr>) else (KV_EOK, d)))"

definition bs_valid :: "u32 \<Rightarrow> bool" where
  "bs_valid v \<longleftrightarrow> v = 0 \<or> (v \<ge> 512 \<and> v AND (v - 1) = 0)"

definition dev_probe :: "os_path \<Rightarrow> int \<times> dev_geom" where
  "dev_probe p =
    (let g = \<lparr>dg_logical_bs = 0, dg_physical_bs = 0, dg_fs_bs = 0, dg_io_hint = 0\<rparr>
     in case op_stat p of
          None \<Rightarrow> (- KV_EIO, g)
        | Some (blksize, devnode) \<Rightarrow>
            (let g = g\<lparr>dg_io_hint := (if bs_valid blksize then blksize else 0)\<rparr>;
                 g = (case op_statvfs p of
                        None \<Rightarrow> g
                      | Some bs \<Rightarrow> g\<lparr>dg_fs_bs := (if bs_valid bs then bs else 0)\<rparr>);
                 g = (if devnode \<and> op_open_ro p \<ge> 0 then
                        (let g = (case op_blksszget p of
                                    Some lba \<Rightarrow> if lba > 0 then g\<lparr>dg_logical_bs := of_int lba\<rparr> else g
                                  | None \<Rightarrow> g)
                         in case op_blkpbszget p of
                              Some phys \<Rightarrow> if phys > 0 then g\<lparr>dg_physical_bs := of_int phys\<rparr> else g
                            | None \<Rightarrow> g)
                      else g)
             in if \<not> bs_valid (dg_logical_bs g) \<or> \<not> bs_valid (dg_physical_bs g)
                then (- KV_EIO, g) else (KV_EOK, g)))"

definition dev_open :: "device \<Rightarrow> os_path \<Rightarrow> int \<Rightarrow> int \<times> device" where
  "dev_open d p dev_id =
    (let d = d\<lparr>dv_fd := -1, dv_dev_id := dev_id\<rparr>
     in case file_open d p of (rc, d) \<Rightarrow>
          if rc \<noteq> KV_EOK then (rc, d)
          else case dev_probe p of (prc, g) \<Rightarrow>
                 (KV_EOK, if prc = KV_EOK then d\<lparr>dv_geom := g\<rparr> else d))"

section \<open>Transfers without errors\<close>

definition sys_clean :: "sys_res list \<Rightarrow> bool" where
  "sys_clean os \<longleftrightarrow> (\<forall>r \<in> set os. case r of Sys_ok n \<Rightarrow> 0 < n | Sys_intr \<Rightarrow> True | Sys_err _ \<Rightarrow> False)"

lemma sys_clean_simps [simp]:
  "sys_clean []" "sys_clean (Sys_intr # os) = sys_clean os"
  "sys_clean (Sys_ok n # os) = (0 < n \<and> sys_clean os)" "\<not> sys_clean (Sys_err e # os)"
  by (auto simp: sys_clean_def)

lemma pwrite_at_inside:
  "off + length b \<le> length data \<Longrightarrow> pwrite_at data off b = overwrite data off b"
  by (auto simp: pwrite_at_def)

text \<open>However the kernel cuts the transfer, the loop writes all of the data, in place.\<close>

lemma write_loop_ok:
  assumes "off + length b \<le> length data" and "sys_clean os"
  shows "\<exists>os'. write_loop os data off b = (None, overwrite data off b, os') \<and> sys_clean os'"
  using assms
proof (induction os data off b rule: write_loop.induct)
  case (5 n os data off b p)
  let ?b = "b # p"
  have len: "off + length (take n ?b) \<le> length data" using 5(2) by simp
  have b: "?b = take n ?b @ drop n ?b" by simp
  have "\<exists>os'. write_loop os (overwrite data off (take n ?b)) (off + min n (length ?b)) (drop n ?b) =
      (None, overwrite (overwrite data off (take n ?b)) (off + min n (length ?b)) (drop n ?b), os') \<and> sys_clean os'"
    using 5(1) 5(2,3) len by (simp add: pwrite_at_inside min_def)
  moreover have "overwrite (overwrite data off (take n ?b)) (off + min n (length ?b)) (drop n ?b) =
      overwrite data off ?b"
    using overwrite_overwrite_adjacent [of off "take n ?b" "drop n ?b" data] 5(2)
    by (simp add: min.commute)
  ultimately show ?case using len by (simp add: pwrite_at_inside)
qed (auto simp: pwrite_at_inside)

lemma read_loop_ok:
  assumes "off + want \<le> length data" and "sys_clean os"
  shows "\<exists>os'. read_loop os data off want = (None, bslice off want data, os') \<and> sys_clean os'"
  using assms
proof (induction os data off want rule: read_loop.induct)
  case (5 n os data off want)
  let ?k = "min n (Suc want)"
  have k: "0 < ?k" "off + ?k \<le> length data" using 5(2,3) by auto
  then have got: "bslice off ?k data \<noteq> []" "length (bslice off ?k data) = ?k"
    by (auto simp: bslice_def)
  have "\<exists>os'. read_loop os data (off + ?k) (Suc want - ?k) =
      (None, bslice (off + ?k) (Suc want - ?k) data, os') \<and> sys_clean os'"
    using 5(1) [OF refl got(1)] 5(2,3) got(2) by simp
  moreover have "bslice off ?k data @ bslice (off + ?k) (Suc want - ?k) data = bslice off (Suc want) data"
    using bslice_split [of off ?k "Suc want - ?k" data] by simp
  ultimately show ?case using got by (auto simp: Let_def)
qed (auto simp: bslice_def)

section \<open>The device as an array of pages\<close>

definition dev_pages :: "device \<Rightarrow> nat" where
  "dev_pages d = length (dv_data d) div KV_PAGE_SIZE"

definition dev_page :: "device \<Rightarrow> nat \<Rightarrow> bytes" where
  "dev_page d i = bslice (i * KV_PAGE_SIZE) KV_PAGE_SIZE (dv_data d)"

text \<open>No pending error, a whole number of pages, and offsets that fit \<open>off_t\<close>.\<close>

definition dev_ok :: "device \<Rightarrow> bool" where
  "dev_ok d \<longleftrightarrow> sys_clean (dv_os d) \<and> length (dv_data d) = dev_pages d * KV_PAGE_SIZE \<and>
    length (dv_data d) < 2 ^ 63"

lemma write_pages_ok:
  assumes "dev_ok d" and "i + n \<le> dev_pages d" and "length b = n * KV_PAGE_SIZE"
  shows "\<exists>d'. write_pages d i b n = (KV_EOK, d') \<and> dev_ok d' \<and> dev_pages d' = dev_pages d \<and>
    dv_data d' = overwrite (dv_data d) (i * KV_PAGE_SIZE) b \<and> dv_dev_id d' = dv_dev_id d"
proof -
  have len: "i * KV_PAGE_SIZE + length b \<le> length (dv_data d)"
    using assms mult_le_mono1 [OF assms(2), of KV_PAGE_SIZE] by (simp add: dev_ok_def add_mult_distrib)
  moreover have "trunc64 (i * KV_PAGE_SIZE) = i * KV_PAGE_SIZE"
    using len assms(1) by (simp add: dev_ok_def)
  moreover have "sys_clean (dv_os d)" using assms(1) by (simp add: dev_ok_def)
  ultimately obtain os' where os': "write_loop (dv_os d) (dv_data d) (trunc64 (i * KV_PAGE_SIZE)) b =
      (None, overwrite (dv_data d) (i * KV_PAGE_SIZE) b, os')" "sys_clean os'"
    using write_loop_ok [OF len, of "dv_os d"] by auto
  have l': "length (overwrite (dv_data d) (i * KV_PAGE_SIZE) b) = length (dv_data d)"
    using len by simp
  show ?thesis
    using os' assms(1,3) l' by (simp add: write_pages_def Let_def dev_ok_def dev_pages_def)
qed

lemma read_pages_ok:
  assumes "dev_ok d" and "i + n \<le> dev_pages d"
  shows "\<exists>d'. read_pages d i n = ((KV_EOK, bslice (i * KV_PAGE_SIZE) (n * KV_PAGE_SIZE) (dv_data d)), d') \<and>
    dev_ok d' \<and> dv_data d' = dv_data d \<and> dv_dev_id d' = dv_dev_id d"
proof -
  have len: "i * KV_PAGE_SIZE + n * KV_PAGE_SIZE \<le> length (dv_data d)"
    using assms mult_le_mono1 [OF assms(2), of KV_PAGE_SIZE] by (simp add: dev_ok_def add_mult_distrib)
  moreover have "trunc64 (i * KV_PAGE_SIZE) = i * KV_PAGE_SIZE"
    using len assms(1) by (simp add: dev_ok_def)
  moreover have "sys_clean (dv_os d)" using assms(1) by (simp add: dev_ok_def)
  ultimately obtain os' where "read_loop (dv_os d) (dv_data d) (trunc64 (i * KV_PAGE_SIZE)) (n * KV_PAGE_SIZE) =
      (None, bslice (i * KV_PAGE_SIZE) (n * KV_PAGE_SIZE) (dv_data d), os')" "sys_clean os'"
    using read_loop_ok [OF len, of "dv_os d"] by auto
  with assms(1) len show ?thesis
    by (simp add: read_pages_def Let_def dev_ok_def dev_pages_def)
qed

lemma length_dev_page [simp]:
  "dev_ok d \<Longrightarrow> i < dev_pages d \<Longrightarrow> length (dev_page d i) = KV_PAGE_SIZE"
  using mult_le_mono1 [of "Suc i" "dev_pages d" KV_PAGE_SIZE]
  by (simp add: dev_page_def dev_ok_def)

lemma dev_page_overwrite:
  assumes "length b = KV_PAGE_SIZE" and "i < n" and "length data = n * KV_PAGE_SIZE" and "j < n"
  shows "bslice (j * KV_PAGE_SIZE) KV_PAGE_SIZE (overwrite data (i * KV_PAGE_SIZE) b) =
    (if j = i then b else bslice (j * KV_PAGE_SIZE) KV_PAGE_SIZE data)"
proof -
  have len: "i * KV_PAGE_SIZE + length b \<le> length data"
    using assms mult_le_mono1 [of "Suc i" n KV_PAGE_SIZE] by simp
  consider "j = i" | "j < i" | "i < j" by linarith
  then show ?thesis
  proof cases
    case 1
    then show ?thesis using bslice_overwrite_same [OF len] assms(1) by simp
  next
    case 2
    have "j * KV_PAGE_SIZE + KV_PAGE_SIZE \<le> i * KV_PAGE_SIZE"
      using mult_le_mono1 [of "Suc j" i KV_PAGE_SIZE] 2 by simp
    with 2 len show ?thesis by (subst bslice_overwrite_before) auto
  next
    case 3
    have "i * KV_PAGE_SIZE + length b \<le> j * KV_PAGE_SIZE"
      using mult_le_mono1 [of "Suc i" j KV_PAGE_SIZE] 3 assms(1) by simp
    with 3 len show ?thesis by (subst bslice_overwrite_after) auto
  qed
qed

lemma write_page_ok:
  assumes "dev_ok d" and "i < dev_pages d" and "length b = KV_PAGE_SIZE"
  shows "\<exists>d'. write_pages d i b 1 = (KV_EOK, d') \<and> dev_ok d' \<and> dev_pages d' = dev_pages d \<and>
    (\<forall>j < dev_pages d. dev_page d' j = (if j = i then b else dev_page d j)) \<and> dv_dev_id d' = dv_dev_id d"
proof -
  obtain d' where d': "write_pages d i b 1 = (KV_EOK, d')" "dev_ok d'" "dev_pages d' = dev_pages d"
      "dv_data d' = overwrite (dv_data d) (i * KV_PAGE_SIZE) b" "dv_dev_id d' = dv_dev_id d"
    using write_pages_ok [OF assms(1), of i 1 b] assms(2,3) by auto
  have "length (dv_data d) = dev_pages d * KV_PAGE_SIZE" using assms(1) by (simp add: dev_ok_def)
  with d' dev_page_overwrite [OF assms(3,2)] show ?thesis by (auto simp: dev_page_def)
qed

lemma read_page_ok:
  assumes "dev_ok d" and "i < dev_pages d"
  shows "\<exists>d'. read_pages d i 1 = ((KV_EOK, dev_page d i), d') \<and> dev_ok d' \<and> dev_pages d' = dev_pages d \<and>
    (\<forall>j. dev_page d' j = dev_page d j) \<and> dv_dev_id d' = dv_dev_id d"
  using read_pages_ok [OF assms(1), of i 1] assms(2) by (auto simp: dev_page_def dev_pages_def)

section \<open>The contract of a page store\<close>

locale page_store =
  fixes ok :: "'d \<Rightarrow> bool" and pages :: "'d \<Rightarrow> nat" and page :: "'d \<Rightarrow> nat \<Rightarrow> bytes"
    and wr :: "'d \<Rightarrow> nat \<Rightarrow> bytes \<Rightarrow> int \<times> 'd"
  assumes wr_ok: "ok d \<Longrightarrow> i < pages d \<Longrightarrow> length b = KV_PAGE_SIZE \<Longrightarrow>
    \<exists>d'. wr d i b = (KV_EOK, d') \<and> ok d' \<and> pages d' = pages d \<and>
      (\<forall>j < pages d. page d' j = (if j = i then b else page d j))"
begin

text \<open>Writing the same page image to a range of pages, stopping at the first error.\<close>

fun fill :: "'d \<Rightarrow> nat list \<Rightarrow> bytes \<Rightarrow> int \<times> 'd" where
  "fill d [] b = (KV_EOK, d)"
| "fill d (i # is) b = (case wr d i b of (rc, d') \<Rightarrow> if rc \<noteq> KV_EOK then (rc, d') else fill d' is b)"

lemma fill_ok:
  assumes "ok d" and "set is \<subseteq> {..<pages d}" and "length b = KV_PAGE_SIZE"
  shows "\<exists>d'. fill d is b = (KV_EOK, d') \<and> ok d' \<and> pages d' = pages d \<and>
    (\<forall>j < pages d. page d' j = (if j \<in> set is then b else page d j))"
  using assms(1,2)
proof (induction "is" arbitrary: d)
  case (Cons i "is")
  obtain d1 where d1: "wr d i b = (KV_EOK, d1)" "ok d1" "pages d1 = pages d"
      "\<forall>j < pages d. page d1 j = (if j = i then b else page d j)"
    using wr_ok [OF Cons.prems(1) _ assms(3), of i] Cons.prems(2) by auto
  obtain d2 where "fill d1 is b = (KV_EOK, d2)" "ok d2" "pages d2 = pages d1"
      "\<forall>j < pages d1. page d2 j = (if j \<in> set is then b else page d1 j)"
    using Cons.IH [OF d1(2)] Cons.prems(2) d1(3) by auto
  with d1 show ?case by auto
qed simp

end

interpretation dev: page_store dev_ok dev_pages dev_page "\<lambda>d i b. write_pages d i b 1"
  by unfold_locales (use write_page_ok in blast)

lemma write_loop_prefix:
  assumes "off + length b \<le> length data" and "write_loop os data off b = (r, data', os')"
  shows "\<exists>k \<le> length b. data' = overwrite data off (take k b) \<and> (r = None \<longrightarrow> k = length b)"
  using assms
proof (induction os data off b rule: write_loop.induct)
  case (5 n os data off b p)
  let ?b = "b # p"
  have len: "off + length (take n ?b) \<le> length data" using 5(2) by simp
  have rest: "write_loop os (overwrite data off (take n ?b)) (off + min n (length ?b)) (drop n ?b) = (r, data', os')"
    using 5(3) len by (simp add: pwrite_at_inside)
  have "off + min n (length ?b) + length (drop n ?b) \<le> length (pwrite_at data off (take n ?b))"
    using 5(2) len by (simp add: pwrite_at_inside min_def)
  then obtain k where k: "k \<le> length (drop n ?b)"
      "data' = overwrite (overwrite data off (take n ?b)) (off + min n (length ?b)) (take k (drop n ?b))"
      "r = None \<longrightarrow> k = length (drop n ?b)"
    using 5(1) 5(3) len by (auto simp: pwrite_at_inside)
  have "take n ?b @ take k (drop n ?b) = take (n + k) ?b" by (simp only: take_add)
  moreover have "off + length (take n ?b) + length (take k (drop n ?b)) \<le> length data"
    using 5(2) k(1) by auto
  ultimately have "data' = overwrite data off (take (n + k) ?b)"
    using overwrite_overwrite_adjacent [of off "take n ?b" "take k (drop n ?b)" data] k(2)
    by (simp add: min.commute)
  moreover have "take (n + k) ?b = take (min (n + k) (length ?b)) ?b"
    by (metis take_take take_all_iff order_refl min.commute)
  ultimately show ?case using k by (intro exI [of _ "min (n + k) (length ?b)"]) auto
qed (auto simp: pwrite_at_inside intro: exI [of _ 0])

text \<open>The bit trick of \<open>bs_valid\<close> recognises powers of two.\<close>

lemma and_minus_one_pow2:
  fixes v :: "'a::len word"
  assumes "v \<noteq> 0" and "v AND (v - 1) = 0"
  shows "\<exists>k < LENGTH('a). v = 2 ^ k \<and> unat v = 2 ^ k"
proof -
  define n where "n = unat v"
  have "n \<noteq> 0" using assms(1) by (simp add: n_def unsigned_eq_0_iff)
  moreover have "n AND (n - 1) = unat (v AND (v - 1))"
    using unat_minus_one [OF assms(1)] by (simp add: n_def unsigned_and_eq)
  ultimately have "n \<noteq> 0" "n AND (n - 1) = 0" using assms(2) by simp_all
  then have "\<exists>k. n = 2 ^ k"
  proof (induction n rule: less_induct)
    case (less n)
    show ?case
    proof (cases "even n")
      case False
      then obtain m where "n = 2 * m + 1" by (elim oddE)
      moreover have "(2 * m + 1) AND (2 * m) = 2 * m" by (subst and_rec) simp
      ultimately have "m = 0" using less.prems by simp
      with \<open>n = 2 * m + 1\<close> show ?thesis by (intro exI [of _ 0]) simp
    next
      case True
      then obtain m where m: "n = 2 * m" by (elim evenE)
      with less.prems have "m \<noteq> 0" by simp
      have "n - 1 = 2 * (m - 1) + 1" using m \<open>m \<noteq> 0\<close> by simp
      moreover have "(2 * m) AND (2 * (m - 1) + 1) = 2 * (m AND (m - 1))" by (subst and_rec) simp
      ultimately have "m AND (m - 1) = 0" using less.prems(2) m by simp
      with less.IH [of m] m \<open>m \<noteq> 0\<close> obtain k where "m = 2 ^ k" by auto
      with m show ?thesis by (intro exI [of _ "Suc k"]) simp
    qed
  qed
  then obtain k where k: "unat v = 2 ^ k" by (auto simp: n_def)
  moreover have "unat v < 2 ^ LENGTH('a)" by (rule unsigned_less)
  ultimately have "(2::nat) ^ k < 2 ^ LENGTH('a)" by simp
  then have "k < LENGTH('a)" by simp
  moreover have "v = 2 ^ k" using k by (metis of_nat_numeral of_nat_power of_nat_unat ucast_id)
  ultimately show ?thesis using k by blast
qed

lemma bs_valid_pow2:
  assumes "bs_valid v"
  shows "v = 0 \<or> (\<exists>k. 9 \<le> k \<and> k < 32 \<and> v = 2 ^ k)"
proof (cases "v = 0")
  case False
  with assms have v: "512 \<le> v" "v AND (v - 1) = 0" by (auto simp: bs_valid_def)
  with and_minus_one_pow2 [OF False v(2)] obtain k where k: "k < 32" "v = 2 ^ k" "unat v = 2 ^ k" by auto
  have "(2::nat) ^ 9 \<le> 2 ^ k"
    using v(1) k(3) by (simp add: word_le_nat_alt)
  then have "9 \<le> k" by (rule power_le_imp_le_exp [rotated]) simp
  with k show ?thesis by blast
qed simp

lemma write_loop_err: "write_loop os data off b = (Some e, data', os') \<Longrightarrow> Sys_err e \<in> set os"
  by (induction os data off b rule: write_loop.induct) auto

text \<open>A page write under arbitrary failures leaves every other page alone.\<close>

lemma dev_page_torn:
  assumes "length b \<le> KV_PAGE_SIZE" and "length data = n * KV_PAGE_SIZE" and "i < n" and "j < n" and "j \<noteq> i"
  shows "bslice (j * KV_PAGE_SIZE) KV_PAGE_SIZE (overwrite data (i * KV_PAGE_SIZE) b) = bslice (j * KV_PAGE_SIZE) KV_PAGE_SIZE data"
proof -
  have le: "m * KV_PAGE_SIZE + KV_PAGE_SIZE \<le> k * KV_PAGE_SIZE" if "m < k" for m k
    using mult_le_mono1 [OF Suc_leI [OF that], of KV_PAGE_SIZE] by simp
  have in_data: "i * KV_PAGE_SIZE + length b \<le> length data" using le [OF assms(3)] assms(1,2) by simp
  show ?thesis
  proof (cases "j < i")
    case True
    then show ?thesis using bslice_overwrite_before [OF le [OF True], of data b] in_data by simp
  next
    case False
    then have "i * KV_PAGE_SIZE + length b \<le> j * KV_PAGE_SIZE" using le [of i j] assms(1,5) by simp
    then show ?thesis using bslice_overwrite_after [of "i * KV_PAGE_SIZE" b "j * KV_PAGE_SIZE" data] in_data by simp
  qed
qed

lemma write_page_torn:
  assumes ok: "dev_ok d" and i: "i < dev_pages d" and b: "length b = KV_PAGE_SIZE"
    and wr: "write_pages (d\<lparr>dv_os := os\<rparr>) i b 1 = (rc, d')" and errno: "Sys_err 0 \<notin> set os"
  shows "dev_ok (d'\<lparr>dv_os := []\<rparr>) \<and> dev_pages d' = dev_pages d \<and> (\<forall>j. dev_page (d'\<lparr>dv_os := []\<rparr>) j = dev_page d' j) \<and>
    (\<forall>j < dev_pages d. j \<noteq> i \<longrightarrow> dev_page d' j = dev_page d j) \<and> (rc = KV_EOK \<longrightarrow> dev_page d' i = b)"
proof -
  have len: "length (dv_data d) = dev_pages d * KV_PAGE_SIZE" "length (dv_data d) < 2 ^ 63"
    using ok by (simp_all add: dev_ok_def)
  have fits: "i * KV_PAGE_SIZE + length b \<le> length (dv_data d)"
    using mult_le_mono1 [OF Suc_leI [OF i], of KV_PAGE_SIZE] len(1) b by simp
  then have off: "trunc64 (i * KV_PAGE_SIZE) = i * KV_PAGE_SIZE" using len(2) by simp
  obtain r data os' where w: "write_loop os (dv_data d) (i * KV_PAGE_SIZE) b = (r, data, os')"
    by (cases "write_loop os (dv_data d) (i * KV_PAGE_SIZE) b") auto
  obtain k where k: "k \<le> length b" "data = overwrite (dv_data d) (i * KV_PAGE_SIZE) (take k b)" "r = None \<longrightarrow> k = length b"
    using write_loop_prefix [OF fits w] by blast
  have err: "r \<noteq> Some 0" using w errno by (auto dest: write_loop_err)
  have "take (1 * KV_PAGE_SIZE) b = b" using b by simp
  then have d': "dv_data d' = data" "rc = KV_EOK \<longrightarrow> r = None"
    using wr err by (cases r; simp add: write_pages_def Let_def KV_EOK_def off w; force)+
  have same: "length (dv_data d') = length (dv_data d)" using k(1,2) fits d'(1) by simp
  then have pages: "dev_pages d' = dev_pages d" "dev_pages (d'\<lparr>dv_os := []\<rparr>) = dev_pages d"
    by (simp_all add: dev_pages_def)
  have "dev_ok (d'\<lparr>dv_os := []\<rparr>)" unfolding dev_ok_def pages(2) using same len by simp
  moreover have "dev_page d' j = dev_page d j" if "j < dev_pages d" "j \<noteq> i" for j
    unfolding dev_page_def d'(1) k(2) using that i k(1) b len(1) by (intro dev_page_torn [of _ _ "dev_pages d"]) auto
  moreover have "dev_page d' i = b" if "rc = KV_EOK"
    using that d' k bslice_overwrite_same [OF fits] b by (simp add: dev_page_def)
  ultimately show ?thesis using pages(1) by (simp add: dev_page_def)
qed

section \<open>Properties\<close>

text \<open>C19: Whatever short transfers and interruptions the kernel produces, writing pages returns
  \<open>KV_EOK\<close>, reading the same pages back returns exactly the bytes written, and no other page of
  the device changes.\<close>

theorem device_write_read_roundtrip:
  assumes "dev_ok d" and "i + n \<le> dev_pages d" and "length b = n * KV_PAGE_SIZE"
  shows "\<exists>d' d''. write_pages d i b n = (KV_EOK, d') \<and> read_pages d' i n = ((KV_EOK, b), d'') \<and>
    (\<forall>j < dev_pages d. j < i \<or> i + n \<le> j \<longrightarrow> dev_page d'' j = dev_page d j)"
proof -
  obtain d' where d': "write_pages d i b n = (KV_EOK, d')" "dev_ok d'" "dev_pages d' = dev_pages d"
      "dv_data d' = overwrite (dv_data d) (i * KV_PAGE_SIZE) b"
    using write_pages_ok [OF assms] by blast
  have len: "i * KV_PAGE_SIZE + length b \<le> length (dv_data d)"
    using assms mult_le_mono1 [OF assms(2), of KV_PAGE_SIZE] by (simp add: dev_ok_def add_mult_distrib)
  obtain d'' where d'': "read_pages d' i n = ((KV_EOK, b), d'')" "dv_data d'' = dv_data d'"
    using read_pages_ok [OF d'(2), of i n] assms(2,3) d'(3,4) bslice_overwrite_same [OF len] by auto
  have "dev_page d'' j = dev_page d j" if j: "j < dev_pages d" "j < i \<or> i + n \<le> j" for j
  proof -
    have "j * KV_PAGE_SIZE + KV_PAGE_SIZE \<le> i * KV_PAGE_SIZE \<or> i * KV_PAGE_SIZE + length b \<le> j * KV_PAGE_SIZE"
      using j(2) mult_le_mono1 [of "Suc j" i KV_PAGE_SIZE] mult_le_mono1 [of "i + n" j KV_PAGE_SIZE] assms(3)
      by (auto simp: add_mult_distrib)
    then show ?thesis
      using d''(2) d'(4) len bslice_overwrite_before [of "j * KV_PAGE_SIZE" KV_PAGE_SIZE "i * KV_PAGE_SIZE" "dv_data d" b]
        bslice_overwrite_after [of "i * KV_PAGE_SIZE" b "j * KV_PAGE_SIZE" "dv_data d"]
      by (auto simp: dev_page_def)
  qed
  with d' d'' show ?thesis by blast
qed

text \<open>C20: A failing write still leaves the file with a prefix of the data written in place and
  everything else untouched; it counts one I/O error and returns the negated errno.\<close>

theorem device_write_failure_is_prefix:
  assumes "i * KV_PAGE_SIZE + n * KV_PAGE_SIZE \<le> length (dv_data d)" and "length (dv_data d) < 2 ^ 63"
    and "length b = n * KV_PAGE_SIZE" and "write_pages d i b n = (rc, d')"
  shows "\<exists>k \<le> length b. dv_data d' = overwrite (dv_data d) (i * KV_PAGE_SIZE) (take k b) \<and>
    (k = length b \<and> rc = KV_EOK \<or>
      ds_io_errs (dv_stats d') = ds_io_errs (dv_stats d) + 1 \<and> (\<exists>e. Sys_err e \<in> set (dv_os d) \<and> rc = - e))"
proof -
  have off: "trunc64 (i * KV_PAGE_SIZE) = i * KV_PAGE_SIZE" using assms(1,2) by simp
  obtain r data os where w: "write_loop (dv_os d) (dv_data d) (i * KV_PAGE_SIZE) b = (r, data, os)"
    by (cases "write_loop (dv_os d) (dv_data d) (i * KV_PAGE_SIZE) b") auto
  have err: "r = Some e \<Longrightarrow> Sys_err e \<in> set (dv_os d)" for e using w by (auto dest: write_loop_err)
  have "i * KV_PAGE_SIZE + length b \<le> length (dv_data d)" using assms(1,3) by simp
  from write_loop_prefix [OF this w] obtain k where k: "k \<le> length b"
    "data = overwrite (dv_data d) (i * KV_PAGE_SIZE) (take k b)" "r = None \<longrightarrow> k = length b" by blast
  show ?thesis
    using assms(3,4) w off k err
    by (cases r) (auto simp: write_pages_def Let_def intro!: exI [of _ k])
qed

text \<open>C21: Every block size that probing a path reports is zero or a power of two of at least 512
  bytes whenever probing succeeds.\<close>

theorem dev_probe_block_sizes:
  assumes "dev_probe p = (KV_EOK, g)"
  shows "\<forall>v \<in> {dg_logical_bs g, dg_physical_bs g, dg_fs_bs g, dg_io_hint g}.
    v = 0 \<or> (\<exists>k. 9 \<le> k \<and> k < 32 \<and> v = 2 ^ k)"
proof -
  have pow: "v = 0 \<or> (\<exists>k. 9 \<le> k \<and> k < 32 \<and> v = 2 ^ k)" if "bs_valid v" for v :: u32
    using that bs_valid_pow2 by blast
  have "bs_valid 0" by (simp add: bs_valid_def)
  then have "bs_valid (dg_logical_bs g) \<and> bs_valid (dg_physical_bs g) \<and> bs_valid (dg_fs_bs g) \<and> bs_valid (dg_io_hint g)"
    using assms
    by (auto simp: dev_probe_def Let_def KV_EOK_def KV_EIO_def split: option.splits if_splits)
  with pow show ?thesis by auto
qed

section \<open>Witnesses\<close>

definition dev_demo :: device where
  "dev_demo = \<lparr>dv_fd = 3, dv_dev_id = 0, dv_o_direct = False, dv_total_pages = 8,
    dv_stats = \<lparr>ds_bytes_written = 0, ds_bytes_read = 0, ds_io_errs = 0\<rparr>,
    dv_geom = \<lparr>dg_logical_bs = 0, dg_physical_bs = 0, dg_fs_bs = 0, dg_io_hint = 0\<rparr>,
    dv_data = zeros (8 * KV_PAGE_SIZE), dv_os = [Sys_intr, Sys_ok 100, Sys_intr, Sys_ok 9000]\<rparr>"

lemma dev_demo_ok: "dev_ok dev_demo" "dev_pages dev_demo = 8"
  by (simp_all add: dev_ok_def dev_pages_def dev_demo_def KV_PAGE_SIZE_def)

theorem device_write_read_roundtrip_witness:
  "\<exists>d' d''. write_pages dev_demo 2 (replicate (2 * KV_PAGE_SIZE) 7) 2 = (KV_EOK, d') \<and>
    read_pages d' 2 2 = ((KV_EOK, replicate (2 * KV_PAGE_SIZE) 7), d'')"
  using device_write_read_roundtrip [OF dev_demo_ok(1), of 2 2 "replicate (2 * KV_PAGE_SIZE) 7"]
  by (auto simp: dev_demo_ok)

theorem device_write_failure_is_prefix_witness:
  "\<exists>k. dv_data (snd (write_pages (dev_demo\<lparr>dv_os := [Sys_ok 10, Sys_err 5]\<rparr>) 1 (replicate KV_PAGE_SIZE 7) 1)) =
    overwrite (zeros (8 * KV_PAGE_SIZE)) KV_PAGE_SIZE (take k (replicate KV_PAGE_SIZE 7))"
  using device_write_failure_is_prefix [of 1 1 "dev_demo\<lparr>dv_os := [Sys_ok 10, Sys_err 5]\<rparr>"
      "replicate KV_PAGE_SIZE 7" _ _, OF _ _ _ surjective_pairing]
  by (auto simp: dev_demo_def KV_PAGE_SIZE_def)

text \<open>A block device with 512-byte sectors over 4096-byte physical blocks.\<close>

definition probe_demo :: os_path where
  "probe_demo = \<lparr>op_open_direct = 3, op_open = 3, op_fstat = Inr (True, 65536), op_stat = Some (4096, True),
    op_statvfs = Some 1000, op_open_ro = 3, op_blksszget = Some 512, op_blkpbszget = Some 4096\<rparr>"

theorem dev_probe_block_sizes_witness:
  "\<exists>g. dev_probe probe_demo = (KV_EOK, g) \<and> dg_logical_bs g = 512 \<and> dg_physical_bs g = 4096 \<and> dg_fs_bs g = 0 \<and>
    (\<exists>k. 9 \<le> k \<and> k < 32 \<and> dg_logical_bs g = 2 ^ k) \<and> (\<exists>k. 9 \<le> k \<and> k < 32 \<and> dg_physical_bs g = 2 ^ k)"
proof -
  let ?g = "\<lparr>dg_logical_bs = 512, dg_physical_bs = 4096, dg_fs_bs = 0, dg_io_hint = 4096\<rparr>"
  have probe: "dev_probe probe_demo = (KV_EOK, ?g)" by (simp add: dev_probe_def probe_demo_def bs_valid_def)
  show ?thesis using probe dev_probe_block_sizes [OF probe] by (intro exI [of _ ?g]) simp
qed

end
