(* ===== verification/KV_Crc32.thy ===== *)
theory KV_Crc32
  imports KV_Common
begin

text \<open>
  The table-driven CRC-32 of \<open>src/crc32.hpp\<close>.  A bit-at-a-time reference definition is
  given first in the lemmas, and the table-driven routine is shown equal to it; the two
  facts the on-disk formats rely on follow from linearity: checksumming piecewise is
  checksumming the concatenation, and a corrupted run of at most four bytes never keeps
  the checksum.
\<close>

section \<open>Definitions\<close>

definition crc_bit :: "u32 \<Rightarrow> u32" where
  "crc_bit c = (if c AND 1 \<noteq> 0 then 0xEDB88320 XOR drop_bit 1 c else drop_bit 1 c)"

definition make_crc_table :: "u32 list" where
  "make_crc_table = map (\<lambda>i. (crc_bit ^^ 8) (of_nat i)) [0..<256]"

definition crc_step :: "u32 \<Rightarrow> u8 \<Rightarrow> u32" where
  "crc_step crc p = drop_bit 8 crc XOR make_crc_table ! unat ((crc XOR ucast p) AND 0xFF)"

definition crc32_partial :: "u32 \<Rightarrow> bytes \<Rightarrow> u32" where
  "crc32_partial crc data = foldl crc_step (crc XOR 0xFFFFFFFF) data XOR 0xFFFFFFFF"

definition crc32 :: "bytes \<Rightarrow> u32" where
  "crc32 data = crc32_partial 0 data"

text \<open>Reference: shift the register bit by bit, eight times per byte.\<close>

definition crc_ref :: "u32 \<Rightarrow> bytes \<Rightarrow> u32" where
  "crc_ref crc data = NOT (foldl (\<lambda>c p. (crc_bit ^^ 8) (c XOR ucast p)) (NOT crc) data)"

text \<open>A run of at most four bytes as one register value, first byte lowest.\<close>

primrec crc_pack :: "bytes \<Rightarrow> u32" where
  "crc_pack [] = 0"
| "crc_pack (b # bs) = ucast b XOR push_bit 8 (crc_pack bs)"

section \<open>The register update\<close>

lemma crc_bit_alt: "crc_bit c = drop_bit 1 c XOR (if bit c 0 then 0xEDB88320 else 0)"
  by (simp add: crc_bit_def xor.commute and_one_eq odd_iff_mod_2_eq_one bit_0)

lemma crc_bit_xor: "crc_bit (a XOR b) = crc_bit a XOR crc_bit b"
  by (simp add: crc_bit_alt bit_xor_iff drop_bit_xor xor.assoc xor.commute xor.left_commute)

lemma crc_bits_xor: "(crc_bit ^^ n) (a XOR b) = (crc_bit ^^ n) a XOR (crc_bit ^^ n) b"
  by (induction n) (simp_all add: crc_bit_xor)

lemma crc_bits_low_zero:
  "(\<And>i. i < n \<Longrightarrow> \<not> bit x i) \<Longrightarrow> (crc_bit ^^ n) x = drop_bit n x"
proof (induction n arbitrary: x)
  case (Suc n)
  have "crc_bit x = drop_bit 1 x" using Suc.prems [of 0] by (simp add: crc_bit_alt)
  moreover have "(crc_bit ^^ n) (drop_bit 1 x) = drop_bit n (drop_bit 1 x)"
    using Suc.prems by (intro Suc.IH) (simp add: bit_simps)
  ultimately show ?case
    by (simp add: funpow_Suc_right del: funpow.simps)
qed simp

lemma bit_crc_bit_31: "bit (crc_bit c) 31 \<longleftrightarrow> bit c 0"
proof -
  have "\<not> bit (drop_bit 1 c) 31" by (auto simp: bit_simps dest: bit_imp_le_length)
  moreover have "bit (0xEDB88320 :: u32) 31" by simp
  ultimately show ?thesis by (simp add: crc_bit_alt bit_xor_iff)
qed

lemma crc_bit_inject: "crc_bit a = crc_bit b \<Longrightarrow> a = b"
proof -
  assume eq: "crc_bit a = crc_bit b"
  then have b0: "bit a 0 \<longleftrightarrow> bit b 0" by (metis bit_crc_bit_31)
  with eq have "drop_bit 1 a = drop_bit 1 b"
    by (auto simp: crc_bit_alt bit_eq_iff bit_simps split: if_splits)
  then have "bit a (Suc n) \<longleftrightarrow> bit b (Suc n)" for n
    by (metis add.commute bit_drop_bit_eq comp_apply plus_1_eq_Suc)
  with b0 show "a = b"
    by (metis bit_eqI not0_implies_Suc)
qed

lemma crc_bits_inject: "(crc_bit ^^ n) a = (crc_bit ^^ n) b \<longleftrightarrow> a = b"
  by (induction n) (auto dest: crc_bit_inject)

lemma nth_make_crc_table: "i < 256 \<Longrightarrow> make_crc_table ! i = (crc_bit ^^ 8) (of_nat i)"
  by (simp add: make_crc_table_def del: funpow.simps)

lemma crc_step_bitwise: "crc_step c p = (crc_bit ^^ 8) (c XOR ucast p)"
proof -
  let ?x = "c XOR ucast p"
  have lt: "unat (?x AND 0xFF) < 256"
    by (rule unat_and_255)
  have ff: "(0xFF :: u32) = mask 8" by (simp add: mask_eq_exp_minus_1)
  have split: "?x = (?x AND NOT 0xFF) XOR (?x AND 0xFF)"
    unfolding ff by (rule bit_word_eqI) (auto simp: bit_simps)
  have "(crc_bit ^^ 8) (?x AND NOT 0xFF) = drop_bit 8 (?x AND NOT 0xFF)"
    unfolding ff by (rule crc_bits_low_zero) (simp add: bit_simps)
  also have "\<dots> = drop_bit 8 c"
    unfolding ff by (rule bit_word_eqI) (auto simp: bit_simps dest: bit_imp_le_length)
  finally have "(crc_bit ^^ 8) ?x = drop_bit 8 c XOR (crc_bit ^^ 8) (?x AND 0xFF)"
    by (subst split) (simp only: crc_bits_xor)
  then show ?thesis
    using lt by (simp add: crc_step_def nth_make_crc_table del: funpow.simps)
qed


lemma foldl_crc_step: "foldl crc_step c data = foldl (\<lambda>c p. (crc_bit ^^ 8) (c XOR ucast p)) c data"
  by (induction data arbitrary: c) (simp_all add: crc_step_bitwise del: funpow.simps)

lemma xor_ones_eq_not: "x XOR 0xFFFFFFFF = NOT (x :: u32)"
proof -
  have "(0xFFFFFFFF :: u32) = -1" by simp
  then show ?thesis by (simp only: bit.xor_one_right)
qed

lemma foldl_crc_step_inject:
  "foldl crc_step a data = foldl crc_step b data \<longleftrightarrow> a = b"
proof (induction data arbitrary: a b)
  case (Cons p data)
  have "crc_step a p = crc_step b p \<longleftrightarrow> a = b"
    by (simp only: crc_step_bitwise crc_bits_inject word_xor_right_cancel)
  then show ?case using Cons.IH by simp
qed simp

lemma crc_pack_high: "length bs \<le> k \<Longrightarrow> bit (crc_pack bs) i \<Longrightarrow> i < 8 * k"
proof (induction bs arbitrary: k i)
  case (Cons b bs)
  then obtain k' where k: "k = Suc k'" by (cases k) auto
  from Cons.prems(2) consider "bit b i" | "8 \<le> i" "bit (crc_pack bs) (i - 8)"
    by (auto simp: bit_simps)
  then show ?case
  proof cases
    case 1 then show ?thesis using k by (auto dest: bit_imp_le_length)
  next
    case 2
    then have "i - 8 < 8 * k'" using Cons.IH [of k' "i - 8"] Cons.prems(1) k by simp
    then show ?thesis using k by simp
  qed
qed simp

lemma foldl_crc_pack:
  "length bs \<le> 4 \<Longrightarrow> foldl crc_step c bs = (crc_bit ^^ (8 * length bs)) (c XOR crc_pack bs)"
proof (induction bs arbitrary: c)
  case (Cons b bs)
  let ?p = "crc_pack bs"
  have hi: "i < 24" if "bit ?p i" for i
    using crc_pack_high [of bs 3 i] that Cons.prems by simp
  have "(crc_bit ^^ 8) (push_bit 8 ?p) = drop_bit 8 (push_bit 8 ?p)"
    by (rule crc_bits_low_zero) (simp add: bit_simps)
  also have "\<dots> = ?p"
    by (rule bit_word_eqI) (auto simp: bit_simps dest: hi)
  finally have p: "?p = (crc_bit ^^ 8) (push_bit 8 ?p)" ..
  have "foldl crc_step c (b # bs) =
      (crc_bit ^^ (8 * length bs)) ((crc_bit ^^ 8) (c XOR ucast b) XOR ?p)"
    using Cons.prems by (simp add: Cons.IH crc_step_bitwise [of c b] del: funpow.simps)
  also have "\<dots> = (crc_bit ^^ (8 * length bs)) ((crc_bit ^^ 8) (c XOR crc_pack (b # bs)))"
    by (subst p) (simp only: crc_bits_xor [symmetric] crc_pack.simps xor.assoc)
  also have "\<dots> = (crc_bit ^^ (8 * length (b # bs))) (c XOR crc_pack (b # bs))"
    by (simp add: funpow_add [symmetric, THEN fun_cong, unfolded comp_def] add.commute
        del: funpow.simps)
  finally show ?case .
qed simp

lemma crc_pack_inject:
  "length a = length b \<Longrightarrow> length a \<le> 4 \<Longrightarrow> crc_pack a = crc_pack b \<Longrightarrow> a = b"
proof (induction a b rule: list_induct2)
  case (Cons x xs y ys)
  have hx: "i < 24" if "bit (crc_pack xs) i" for i
    using crc_pack_high [of xs 3 i] that Cons.prems by simp
  have hy: "i < 24" if "bit (crc_pack ys) i" for i
    using crc_pack_high [of ys 3 i] that Cons.prems Cons.hyps by simp
  have eq: "bit (ucast x XOR push_bit 8 (crc_pack xs) :: u32) i \<longleftrightarrow>
      bit (ucast y XOR push_bit 8 (crc_pack ys) :: u32) i" for i
    using Cons.prems(2) by simp
  have "bit x i \<longleftrightarrow> bit y i" if "i < 8" for i
    using eq [of i] that by (simp add: bit_simps)
  then have "x = y" by (intro bit_word_eqI) simp
  moreover have "bit (crc_pack xs) i \<longleftrightarrow> bit (crc_pack ys) i" for i
  proof (cases "i < 24")
    case True
    then show ?thesis
      using eq [of "i + 8"] by (auto simp: bit_simps dest: bit_imp_le_length)
  qed (auto dest: hx hy)
  then have "crc_pack xs = crc_pack ys" by (rule bit_eqI)
  ultimately show ?case using Cons by simp
qed simp

lemma crc32_partial_inject: "crc32_partial a d = crc32_partial b d \<longleftrightarrow> a = b"
  by (simp only: crc32_partial_def xor_ones_eq_not bit.double_compl foldl_crc_step_inject
      bit.compl_eq_compl_iff)

lemma crc32_partial_append:
  "crc32_partial (crc32_partial c a) b = crc32_partial c (a @ b)"
  by (simp only: crc32_partial_def xor_ones_eq_not bit.double_compl foldl_append)

text \<open>Two buffers of equal length that differ only inside one window of at most four bytes have
  different checksums.\<close>

lemma crc32_burst:
  assumes "length a = length b" and "length a \<le> 4" and "a \<noteq> b"
  shows "crc32 (pre @ a @ post) \<noteq> crc32 (pre @ b @ post)"
proof
  assume "crc32 (pre @ a @ post) = crc32 (pre @ b @ post)"
  then have "foldl crc_step (foldl crc_step (0 XOR 0xFFFFFFFF) pre) a =
      foldl crc_step (foldl crc_step (0 XOR 0xFFFFFFFF) pre) b"
    by (simp only: crc32_def crc32_partial_def xor_ones_eq_not bit.compl_eq_compl_iff
        foldl_append foldl_crc_step_inject)
  then have "crc_pack a = crc_pack b"
    using assms by (simp add: foldl_crc_pack crc_bits_inject)
  with assms crc_pack_inject [of a b] show False by simp
qed

section \<open>Properties\<close>

text \<open>C22: the table-driven checksum loop computes the bit-at-a-time reflected CRC-32 with
  polynomial 0xEDB88320, for every starting value and every buffer.\<close>

theorem crc32_partial_is_bitwise: "crc32_partial crc data = crc_ref crc data"
  by (simp only: crc32_partial_def crc_ref_def xor_ones_eq_not foldl_crc_step)

end
