(* ===== verification/KV_Journal.thy ===== *)
theory KV_Journal
  imports KV_Types KV_Device KV_Crc32
begin

text \<open>
  The metadata journal of \<open>src/journal.cpp\<close>: variable-length records of a 64-byte header, the
  checksum of the data, the record lengths and the hash path, packed into pages, staged in memory
  and written page by page.  A record is bytes; the model reads and writes the packed
  little-endian image of \<open>struct journal_rec\<close>.  \<open>journal_replay\<close> threads the argument of
  its callback.  The lemmas show that replaying delivers exactly the records appended and written,
  in order.  Null pointers to the length and path arrays are \<open>None\<close>.
\<close>

section \<open>Data\<close>

definition KV_JOURNAL_REC_SIZE :: nat where
  "KV_JOURNAL_REC_SIZE = 64"

definition KV_JOURNAL_RECS_PER_PAGE :: nat where
  "KV_JOURNAL_RECS_PER_PAGE = KV_PAGE_SIZE div KV_JOURNAL_REC_SIZE"

definition KV_JFLAG_SLOT1 :: u32 where
  "KV_JFLAG_SLOT1 = 0x200"

definition KV_JFLAG_UNIFORM :: u32 where
  "KV_JFLAG_UNIFORM = 0x400"

record journal_rec =
  jr_op :: u8
  jr_pad :: u8
  jr_dev_id :: u16
  jr_prefix_id :: u64
  jr_group_idx :: u32
  jr_ver :: u32
  jr_addr_dev :: u32
  jr_addr_page :: u64
  jr_addr_off :: u32
  jr_addr_len :: u32
  jr_stripe_idx :: u32
  jr_stripe_cnt :: u32
  jr_flags :: u32
  jr_expire_ts :: u32
  jr_crc32 :: u32
  jr_path_len :: u16
  jr_n_recs :: u16

record journal =
  j_dev :: device
  j_journal_page :: nat
  j_journal_pages :: nat
  j_cur_page :: nat
  j_cur_off :: nat
  j_stage :: bytes
  j_dropped :: u32
  j_bytes_written :: u64

definition journal_rec0 :: journal_rec where
  "journal_rec0 = \<lparr>jr_op = 0, jr_pad = 0, jr_dev_id = 0, jr_prefix_id = 0, jr_group_idx = 0, jr_ver = 0,
    jr_addr_dev = 0, jr_addr_page = 0, jr_addr_off = 0, jr_addr_len = 0, jr_stripe_idx = 0,
    jr_stripe_cnt = 0, jr_flags = 0, jr_expire_ts = 0, jr_crc32 = 0, jr_path_len = 0, jr_n_recs = 0\<rparr>"

definition enc_jrec :: "journal_rec \<Rightarrow> bytes" where
  "enc_jrec r = [jr_op r, jr_pad r] @ put_le16 (jr_dev_id r) @ put_le64 (jr_prefix_id r) @
    put_le32 (jr_group_idx r) @ put_le32 (jr_ver r) @ put_le32 (jr_addr_dev r) @
    put_le64 (jr_addr_page r) @ put_le32 (jr_addr_off r) @ put_le32 (jr_addr_len r) @
    put_le32 (jr_stripe_idx r) @ put_le32 (jr_stripe_cnt r) @ put_le32 (jr_flags r) @
    put_le32 (jr_expire_ts r) @ put_le32 (jr_crc32 r) @ put_le16 (jr_path_len r) @
    put_le16 (jr_n_recs r)"

definition dec_jrec :: "bytes \<Rightarrow> journal_rec" where
  "dec_jrec b = \<lparr>jr_op = b ! 0, jr_pad = b ! 1, jr_dev_id = le16 (drop 2 b),
    jr_prefix_id = le64 (drop 4 b), jr_group_idx = le32 (drop 12 b), jr_ver = le32 (drop 16 b),
    jr_addr_dev = le32 (drop 20 b), jr_addr_page = le64 (drop 24 b), jr_addr_off = le32 (drop 32 b),
    jr_addr_len = le32 (drop 36 b), jr_stripe_idx = le32 (drop 40 b), jr_stripe_cnt = le32 (drop 44 b),
    jr_flags = le32 (drop 48 b), jr_expire_ts = le32 (drop 52 b), jr_crc32 = le32 (drop 56 b),
    jr_path_len = le16 (drop 60 b), jr_n_recs = le16 (drop 62 b)\<rparr>"

section \<open>Writing\<close>

text \<open>\<open>ok\<close> is the outcome of allocating the staging page; no staging page is the empty list.\<close>

definition journal_init :: "bool \<Rightarrow> device \<Rightarrow> nat \<Rightarrow> nat \<Rightarrow> int \<times> journal" where
  "journal_init ok dev journal_page journal_pages =
    (let j = \<lparr>j_dev = dev, j_journal_page = journal_page,
           j_journal_pages = journal_pages, j_cur_page = 0, j_cur_off = 0, j_stage = [],
           j_dropped = 0, j_bytes_written = 0\<rparr>
     in if \<not> ok then (- KV_ENOMEM, j) else (KV_EOK, j\<lparr>j_stage := zeros KV_PAGE_SIZE\<rparr>))"

definition journal_destroy :: "journal \<Rightarrow> journal" where
  "journal_destroy j = (if j_stage j \<noteq> [] then j\<lparr>j_stage := []\<rparr> else j)"

definition jrec_n_lens :: "journal_rec \<Rightarrow> nat" where
  "jrec_n_lens r =
    (if jr_op r \<noteq> KV_JOP_PUT \<or> jr_n_recs r = 0 then 0
     else if jr_flags r AND KV_JFLAG_UNIFORM \<noteq> 0 then 1 else unat (jr_n_recs r))"

definition jrec_crc :: "journal_rec \<Rightarrow> u32 \<Rightarrow> u32 list option \<Rightarrow> u64 list option \<Rightarrow> u32" where
  "jrec_crc r data_crc lens path =
    (let crc = crc32_partial 0 (take 56 (enc_jrec r));
         crc = crc32_partial crc (bslice 60 4 (enc_jrec r));
         crc = (if jr_op r = KV_JOP_PUT then crc32_partial crc (put_le32 data_crc) else crc);
         nl = jrec_n_lens r;
         crc = (case lens of
                  None \<Rightarrow> crc
                | Some ls \<Rightarrow> if nl \<noteq> 0 then crc32_partial crc (enc_arr put_le32 (take nl ls)) else crc)
     in case path of
          None \<Rightarrow> crc
        | Some ps \<Rightarrow>
            if jr_path_len r \<noteq> 0
            then crc32_partial crc (enc_arr put_le64 (take (unat (jr_path_len r)) ps)) else crc)"

definition jrec_total :: "journal_rec \<Rightarrow> nat" where
  "jrec_total r = KV_JOURNAL_REC_SIZE + (if jr_op r = KV_JOP_PUT then 4 else 0) +
    jrec_n_lens r * 4 + unat (jr_path_len r) * 8"

definition journal_flush_page :: "journal \<Rightarrow> int \<times> journal" where
  "journal_flush_page j =
    (if j_cur_off j = 0 then (KV_EOK, j)
     else case write_pages (j_dev j) (j_journal_page j + j_cur_page j) (j_stage j) 1 of
            (rc, d) \<Rightarrow> (rc, j\<lparr>j_dev := d\<rparr>))"

definition journal_next_page :: "journal \<Rightarrow> int \<times> journal" where
  "journal_next_page j =
    (case journal_flush_page j of (rc, j) \<Rightarrow>
       if rc \<noteq> KV_EOK then (rc, j)
       else (KV_EOK, j\<lparr>j_cur_page := j_cur_page j + 1, j_cur_off := 0, j_stage := zeros KV_PAGE_SIZE\<rparr>))"

text \<open>The bytes \<open>journal_append\<close> copies to the staging page.\<close>

definition jrec_image :: "journal_rec \<Rightarrow> u32 \<Rightarrow> u32 list option \<Rightarrow> u64 list option \<Rightarrow> bytes" where
  "jrec_image r data_crc lens path =
    enc_jrec r @ (if jr_op r = KV_JOP_PUT then put_le32 data_crc else []) @
    (case lens of None \<Rightarrow> [] | Some ls \<Rightarrow> enc_arr put_le32 (take (jrec_n_lens r) ls)) @
    (case path of None \<Rightarrow> [] | Some ps \<Rightarrow> enc_arr put_le64 (take (unat (jr_path_len r)) ps))"

definition journal_append :: "journal \<Rightarrow> journal_rec \<Rightarrow> u32 \<Rightarrow> u32 list option \<Rightarrow> u64 list option \<Rightarrow> int \<times> journal" where
  "journal_append j r data_crc lens path =
    (let r = r\<lparr>jr_dev_id := of_int (dv_dev_id (j_dev j)), jr_crc32 := 0\<rparr>;
         r = r\<lparr>jr_crc32 := jrec_crc r data_crc lens path\<rparr>;
         total = jrec_total r
     in if total > KV_PAGE_SIZE then (- KV_EINVAL, j)
        else if j_cur_page j \<ge> j_journal_pages j then (KV_EFULL, j\<lparr>j_dropped := j_dropped j + 1\<rparr>)
        else case (if j_cur_off j + total > KV_PAGE_SIZE then journal_next_page j else (KV_EOK, j)) of
               (rc, j) \<Rightarrow>
                 if rc \<noteq> KV_EOK then (rc, j)
                 else if j_cur_page j \<ge> j_journal_pages j then (KV_EFULL, j\<lparr>j_dropped := j_dropped j + 1\<rparr>)
                 else (KV_EOK,
                   j\<lparr>j_stage := overwrite (j_stage j) (j_cur_off j) (jrec_image r data_crc lens path),
                     j_cur_off := j_cur_off j + total,
                     j_bytes_written := j_bytes_written j + of_nat total\<rparr>))"

definition journal_put :: "journal \<Rightarrow> u64 \<Rightarrow> u32 \<Rightarrow> u32 \<Rightarrow> kv_addr option \<Rightarrow> u32 \<Rightarrow> u32 \<Rightarrow> u32 \<Rightarrow> u32 \<Rightarrow>
    u32 list option \<Rightarrow> u16 \<Rightarrow> u32 \<Rightarrow> u64 list option \<Rightarrow> u32 \<Rightarrow> int \<times> journal" where
  "journal_put j prefix_id group_idx ver addr expire_ts stripe_idx stripe_cnt flags rec_lens n_recs
      data_len path path_len =
    (let r = journal_rec0\<lparr>jr_op := KV_JOP_PUT, jr_prefix_id := prefix_id, jr_group_idx := group_idx,
               jr_ver := ver, jr_expire_ts := expire_ts\<rparr>;
         r = (case addr of
                None \<Rightarrow> r
              | Some a \<Rightarrow> r\<lparr>jr_addr_dev := ka_dev_id a, jr_addr_page := ka_page_no a,
                             jr_addr_off := data_len, jr_addr_len := ka_len_pages a\<rparr>);
         r = r\<lparr>jr_stripe_idx := stripe_idx, jr_stripe_cnt := stripe_cnt, jr_flags := flags,
               jr_path_len := ucast path_len, jr_n_recs := n_recs\<rparr>
     in journal_append j r (case addr of None \<Rightarrow> 0 | Some a \<Rightarrow> ka_crc a) rec_lens path)"

definition journal_del :: "journal \<Rightarrow> u64 \<Rightarrow> u32 \<Rightarrow> int \<times> journal" where
  "journal_del j prefix_id group_idx =
    journal_append j (journal_rec0\<lparr>jr_op := KV_JOP_DEL, jr_prefix_id := prefix_id, jr_group_idx := group_idx\<rparr>)
      0 None None"

definition journal_trim :: "journal \<Rightarrow> u32 \<Rightarrow> u64 \<Rightarrow> int \<times> journal" where
  "journal_trim j region_idx epoch =
    journal_append j (journal_rec0\<lparr>jr_op := KV_JOP_TRIM, jr_addr_page := ucast region_idx, jr_addr_len := ucast epoch\<rparr>)
      0 None None"

definition journal_flush :: "journal \<Rightarrow> int \<times> journal" where
  "journal_flush j = journal_flush_page j"

fun journal_reset_pages :: "device \<Rightarrow> nat list \<Rightarrow> int \<times> device" where
  "journal_reset_pages d [] = (KV_EOK, d)"
| "journal_reset_pages d (p # ps) =
    (case write_pages d p (zeros KV_PAGE_SIZE) 1 of (rc, d) \<Rightarrow>
       if rc \<noteq> KV_EOK then (rc, d) else journal_reset_pages d ps)"

definition journal_reset :: "journal \<Rightarrow> int \<times> journal" where
  "journal_reset j =
    (case journal_reset_pages (j_dev j) (map (\<lambda>p. j_journal_page j + p) [0..<j_journal_pages j]) of
       (rc, d) \<Rightarrow>
         if rc \<noteq> KV_EOK then (rc, j\<lparr>j_dev := d\<rparr>)
         else (KV_EOK, j\<lparr>j_dev := d, j_cur_page := 0, j_cur_off := 0, j_stage := zeros KV_PAGE_SIZE\<rparr>))"

section \<open>Replaying\<close>

text \<open>What the callback gets: the record, the data checksum, the lengths, their number, the data
  length and the path.\<close>

type_synonym 'a replay_fn =
  "journal_rec \<Rightarrow> u32 \<Rightarrow> u32 list option \<Rightarrow> nat \<Rightarrow> u32 \<Rightarrow> u64 list option \<Rightarrow> 'a \<Rightarrow> int \<times> 'a"

text \<open>One page; the result says whether the replay ends here.\<close>

function replay_page :: "'a replay_fn \<Rightarrow> bytes \<Rightarrow> nat \<Rightarrow> 'a \<Rightarrow> bool \<times> 'a" where
  "replay_page cb page off arg =
    (if off + KV_JOURNAL_REC_SIZE > KV_PAGE_SIZE then (False, arg)
     else
       (let r = dec_jrec (drop off page)
        in if jr_op r = 0 then (off = 0, arg)
           else if jr_op r > KV_JOP_TRIM \<or> unat (jr_path_len r) > 256 \<or> unat (jr_n_recs r) > KV_MAX_LAYERS_CAP
           then (True, arg)
           else
             (let nl = jrec_n_lens r;
                  dlen = (if jr_op r = KV_JOP_PUT then 4 else 0);
                  total = jrec_total r
              in if off + total > KV_PAGE_SIZE then (True, arg)
                 else
                   (let tail = drop (off + KV_JOURNAL_REC_SIZE) page;
                        data_crc = (if dlen \<noteq> 0 then le32 tail else 0);
                        tail = drop dlen tail;
                        lens = (if nl \<noteq> 0 then Some (dec_arr le32 4 nl tail) else None);
                        tail = drop (nl * 4) tail;
                        path = (if jr_path_len r \<noteq> 0 then Some (dec_arr le64 8 (unat (jr_path_len r)) tail) else None)
                    in if jr_crc32 r \<noteq> jrec_crc r data_crc lens path then (True, arg)
                       else case cb r data_crc lens nl (jr_addr_off r) path arg of (done, arg) \<Rightarrow>
                              if done \<noteq> 0 then (True, arg)
                              else replay_page cb page (off + total) arg))))"
  by pat_completeness auto
termination
  by (relation "measure (\<lambda>(_, _, off, _). KV_PAGE_SIZE - off)")
    (auto simp: jrec_total_def KV_JOURNAL_REC_SIZE_def)

declare replay_page.simps [simp del]

fun replay_pages :: "'a replay_fn \<Rightarrow> device \<Rightarrow> nat list \<Rightarrow> 'a \<Rightarrow> (int \<times> 'a) \<times> device" where
  "replay_pages cb d [] arg = ((KV_EOK, arg), d)"
| "replay_pages cb d (p # ps) arg =
    (case read_pages d p 1 of ((rc, page), d) \<Rightarrow>
       if rc \<noteq> KV_EOK then ((rc, arg), d)
       else case replay_page cb page 0 arg of (stop, arg) \<Rightarrow>
              if stop then ((KV_EOK, arg), d) else replay_pages cb d ps arg)"

definition journal_replay :: "journal \<Rightarrow> 'a replay_fn \<Rightarrow> 'a \<Rightarrow> (int \<times> 'a) \<times> journal" where
  "journal_replay j cb arg =
    (case replay_pages cb (j_dev j) (map (\<lambda>p. j_journal_page j + p) [0..<j_journal_pages j]) arg of
       (res, d) \<Rightarrow> (res, j\<lparr>j_dev := d\<rparr>))"

section \<open>One record\<close>

interpretation c_jrec: fixed_codec enc_jrec dec_jrec 64
  by unfold_locales (simp_all add: enc_jrec_def dec_jrec_def)

text \<open>A record with its attachments, as the journal stores it.\<close>

record jentry =
  je_rec :: journal_rec
  je_data_crc :: u32
  je_lens :: "u32 list option"
  je_path :: "u64 list option"

definition entry_ok :: "jentry \<Rightarrow> bool" where
  "entry_ok e \<longleftrightarrow>
    jr_op (je_rec e) \<in> {KV_JOP_PUT, KV_JOP_DEL, KV_JOP_TRIM} \<and>
    unat (jr_path_len (je_rec e)) \<le> 256 \<and> unat (jr_n_recs (je_rec e)) \<le> KV_MAX_LAYERS_CAP \<and>
    jrec_total (je_rec e) \<le> KV_PAGE_SIZE \<and>
    (jr_op (je_rec e) \<noteq> KV_JOP_PUT \<longrightarrow> je_data_crc e = 0) \<and>
    map_option length (je_lens e) = (if jrec_n_lens (je_rec e) = 0 then None else Some (jrec_n_lens (je_rec e))) \<and>
    map_option length (je_path e) =
      (if jr_path_len (je_rec e) = 0 then None else Some (unat (jr_path_len (je_rec e)))) \<and>
    jr_crc32 (je_rec e) = jrec_crc (je_rec e) (je_data_crc e) (je_lens e) (je_path e)"

definition entry_bytes :: "jentry \<Rightarrow> bytes" where
  "entry_bytes e = jrec_image (je_rec e) (je_data_crc e) (je_lens e) (je_path e)"

abbreviation entry_total :: "jentry \<Rightarrow> nat" where
  "entry_total e \<equiv> jrec_total (je_rec e)"

definition entry_cb :: "'a replay_fn \<Rightarrow> jentry \<Rightarrow> 'a \<Rightarrow> int \<times> 'a" where
  "entry_cb cb e arg = cb (je_rec e) (je_data_crc e) (je_lens e) (jrec_n_lens (je_rec e))
    (jr_addr_off (je_rec e)) (je_path e) arg"

text \<open>The callback over a list of records; the flag says that it asked to stop.\<close>

fun run_replay :: "'a replay_fn \<Rightarrow> jentry list \<Rightarrow> 'a \<Rightarrow> bool \<times> 'a" where
  "run_replay cb [] arg = (False, arg)"
| "run_replay cb (e # es) arg =
    (case entry_cb cb e arg of (done, arg') \<Rightarrow> if done \<noteq> 0 then (True, arg') else run_replay cb es arg')"

lemma run_replay_append:
  "run_replay cb (xs @ ys) arg =
    (case run_replay cb xs arg of (stop, arg') \<Rightarrow> if stop then (True, arg') else run_replay cb ys arg')"
  by (induction xs arbitrary: arg) (auto split: prod.splits)

lemma length_entry_bytes:
  assumes "entry_ok e"
  shows "length (entry_bytes e) = entry_total e"
proof -
  have "length (case je_lens e of None \<Rightarrow> [] | Some ls \<Rightarrow> enc_arr put_le32 (take (jrec_n_lens (je_rec e)) ls)) =
      jrec_n_lens (je_rec e) * 4"
    using assms by (cases "je_lens e") (auto simp: entry_ok_def split: if_splits)
  moreover have "length (case je_path e of None \<Rightarrow> []
      | Some ps \<Rightarrow> enc_arr put_le64 (take (unat (jr_path_len (je_rec e))) ps)) = unat (jr_path_len (je_rec e)) * 8"
    using assms by (cases "je_path e") (auto simp: entry_ok_def split: if_splits)
  ultimately show ?thesis
    by (simp add: entry_bytes_def jrec_image_def jrec_total_def c_jrec.length_enc KV_JOURNAL_REC_SIZE_def)
qed

lemma jop_bounds:
  assumes "entry_ok e"
  shows "jr_op (je_rec e) \<noteq> 0" and "\<not> jr_op (je_rec e) > KV_JOP_TRIM"
  using assms by (auto simp: entry_ok_def kv_flags)

lemma unat_path_len_0: "unat (jr_path_len r) = 0 \<longleftrightarrow> jr_path_len r = 0"
  by (simp add: unsigned_eq_0_iff)

text \<open>Parsing the bytes of a record gives the record back and goes on behind it.\<close>

lemma replay_page_entry:
  assumes ok: "entry_ok e" and page: "drop off page = entry_bytes e @ rest"
    and fit: "off + entry_total e \<le> KV_PAGE_SIZE"
  shows "replay_page cb page off arg =
    (case entry_cb cb e arg of (done, arg') \<Rightarrow>
       if done \<noteq> 0 then (True, arg') else replay_page cb page (off + entry_total e) arg')"
proof -
  let ?r = "je_rec e" and ?nl = "jrec_n_lens (je_rec e)"
  let ?dlen = "if jr_op ?r = KV_JOP_PUT then 4 else 0 :: nat"
  let ?lb = "case je_lens e of None \<Rightarrow> [] | Some ls \<Rightarrow> enc_arr put_le32 (take ?nl ls)"
  let ?pb = "case je_path e of None \<Rightarrow> [] | Some ps \<Rightarrow> enc_arr put_le64 (take (unat (jr_path_len ?r)) ps)"
  let ?db = "if jr_op ?r = KV_JOP_PUT then put_le32 (je_data_crc e) else []"
  have bytes: "drop off page = enc_jrec ?r @ ?db @ ?lb @ ?pb @ rest"
    using page by (simp add: entry_bytes_def jrec_image_def)
  then have rec: "dec_jrec (drop off page) = ?r" by (simp add: c_jrec.dec_enc)
  have "drop (off + KV_JOURNAL_REC_SIZE) page = drop KV_JOURNAL_REC_SIZE (drop off page)"
    by (simp add: add.commute)
  then have tail: "drop (off + KV_JOURNAL_REC_SIZE) page = ?db @ ?lb @ ?pb @ rest"
    using bytes by (simp add: KV_JOURNAL_REC_SIZE_def c_jrec.length_enc)
  have dcrc: "(if ?dlen \<noteq> 0 then le32 (?db @ ?lb @ ?pb @ rest) else 0) = je_data_crc e"
    using ok by (simp add: entry_ok_def)
  have t1: "drop ?dlen (?db @ ?lb @ ?pb @ rest) = ?lb @ ?pb @ rest" by simp
  have lens: "(if ?nl \<noteq> 0 then Some (dec_arr le32 4 ?nl (?lb @ ?pb @ rest)) else None) = je_lens e"
  proof (cases "je_lens e")
    case (Some ls)
    then have "length ls = ?nl" "?nl \<noteq> 0" using ok by (auto simp: entry_ok_def split: if_splits)
    then show ?thesis using c32.dec_enc_arr [of ls "?pb @ rest"] Some by simp
  qed (use ok in \<open>auto simp: entry_ok_def split: if_splits\<close>)
  have "length ?lb = ?nl * 4"
    using ok by (cases "je_lens e") (auto simp: entry_ok_def split: if_splits)
  then have t2: "drop (?nl * 4) (?lb @ ?pb @ rest) = ?pb @ rest" by simp
  have path: "(if jr_path_len ?r \<noteq> 0 then Some (dec_arr le64 8 (unat (jr_path_len ?r)) (?pb @ rest)) else None) = je_path e"
  proof (cases "je_path e")
    case (Some ps)
    then have "length ps = unat (jr_path_len ?r)" "jr_path_len ?r \<noteq> 0"
      using ok by (auto simp: entry_ok_def split: if_splits)
    then show ?thesis using c64.dec_enc_arr [of ps rest] Some by simp
  qed (use ok in \<open>auto simp: entry_ok_def split: if_splits\<close>)
  have le: "off + KV_JOURNAL_REC_SIZE \<le> KV_PAGE_SIZE" using fit by (simp add: jrec_total_def)
  have lim: "unat (jr_path_len ?r) \<le> 256" "unat (jr_n_recs ?r) \<le> KV_MAX_LAYERS_CAP"
    "jr_crc32 ?r = jrec_crc ?r (je_data_crc e) (je_lens e) (je_path e)"
    using ok by (auto simp: entry_ok_def)
  show ?thesis
    unfolding replay_page.simps [of cb page off arg] rec Let_def tail t1 t2 dcrc lens path
    using le lim jop_bounds [OF ok] fit by (simp add: entry_cb_def)
qed

section \<open>One page\<close>

definition entries_bytes :: "jentry list \<Rightarrow> bytes" where
  "entries_bytes es = concat (map entry_bytes es)"

definition page_of :: "jentry list \<Rightarrow> bytes" where
  "page_of es = entries_bytes es @ zeros (KV_PAGE_SIZE - length (entries_bytes es))"

lemma entries_bytes_simps [simp]:
  "entries_bytes [] = []" "entries_bytes (e # es) = entry_bytes e @ entries_bytes es"
  "entries_bytes (xs @ ys) = entries_bytes xs @ entries_bytes ys"
  by (simp_all add: entries_bytes_def)

lemma length_page_of [simp]:
  "length (entries_bytes es) \<le> KV_PAGE_SIZE \<Longrightarrow> length (page_of es) = KV_PAGE_SIZE"
  by (simp add: page_of_def)

lemma replay_page_entries:
  assumes "\<forall>e \<in> set es. entry_ok e" and "page = pre @ entries_bytes es @ zeros k"
    and "length page = KV_PAGE_SIZE"
  shows "replay_page cb page (length pre) arg =
    (case run_replay cb es arg of (stop, arg') \<Rightarrow> (stop \<or> (pre = [] \<and> es = []), arg'))"
  using assms
proof (induction es arbitrary: pre arg)
  case Nil
  have k: "k = KV_PAGE_SIZE - length pre" using Nil.prems by simp
  show ?case
  proof (cases "length pre + KV_JOURNAL_REC_SIZE > KV_PAGE_SIZE")
    case True
    then have "pre \<noteq> []" by (auto simp: KV_JOURNAL_REC_SIZE_def KV_PAGE_SIZE_def)
    with True show ?thesis by (subst replay_page.simps) simp
  next
    case False
    then have "jr_op (dec_jrec (drop (length pre) page)) = 0"
      using Nil.prems k by (simp add: dec_jrec_def KV_JOURNAL_REC_SIZE_def)
    with False show ?thesis by (subst replay_page.simps) (simp add: Let_def)
  qed
next
  case (Cons e es)
  have ok: "entry_ok e" using Cons.prems(1) by simp
  note len = length_entry_bytes [OF ok]
  have d: "drop (length pre) page = entry_bytes e @ (entries_bytes es @ zeros k)"
    using Cons.prems(2) by simp
  have fit: "length pre + entry_total e \<le> KV_PAGE_SIZE"
    using Cons.prems(2,3) len by simp
  have "pre @ entry_bytes e \<noteq> []"
    using len by (auto simp: jrec_total_def KV_JOURNAL_REC_SIZE_def)
  then have IH: "replay_page cb page (length pre + entry_total e) arg' =
      (case run_replay cb es arg' of (stop, arg'') \<Rightarrow> (stop, arg''))" for arg'
    using Cons.IH [of "pre @ entry_bytes e" arg'] Cons.prems len by (auto split: prod.splits)
  show ?case
    unfolding replay_page_entry [OF ok d fit] IH
    by (auto split: prod.splits)
qed

lemma replay_page_of:
  assumes "\<forall>e \<in> set es. entry_ok e" and "length (entries_bytes es) \<le> KV_PAGE_SIZE"
  shows "replay_page cb (page_of es) 0 arg =
    (case run_replay cb es arg of (stop, arg') \<Rightarrow> (stop \<or> es = [], arg'))"
  using replay_page_entries [OF assms(1), of "page_of es" "[]" "KV_PAGE_SIZE - length (entries_bytes es)" cb arg]
    assms(2) by (simp add: page_of_def)

section \<open>The journal\<close>

text \<open>The journal holds the pages \<open>pgs\<close> written, the records \<open>cur\<close> staged for the current page
  and the prefix \<open>fl\<close> of them that the last flush wrote; the pages behind are empty.\<close>

definition journal_inv :: "journal \<Rightarrow> jentry list list \<Rightarrow> jentry list \<Rightarrow> jentry list \<Rightarrow> bool" where
  "journal_inv j pgs cur fl \<longleftrightarrow>
    dev_ok (j_dev j) \<and> j_journal_page j + j_journal_pages j \<le> dev_pages (j_dev j) \<and>
    j_cur_page j = length pgs \<and> length pgs \<le> j_journal_pages j \<and>
    (\<forall>es \<in> set (cur # fl # pgs). (\<forall>e \<in> set es. entry_ok e) \<and> length (entries_bytes es) \<le> KV_PAGE_SIZE) \<and>
    (\<forall>es \<in> set pgs. es \<noteq> []) \<and>
    j_cur_off j = length (entries_bytes cur) \<and> j_stage j = page_of cur \<and>
    (\<exists>r. cur = fl @ r) \<and>
    (length pgs = j_journal_pages j \<longrightarrow> cur = []) \<and>
    (\<forall>i < length pgs. dev_page (j_dev j) (j_journal_page j + i) = page_of (pgs ! i)) \<and>
    (length pgs < j_journal_pages j \<longrightarrow> dev_page (j_dev j) (j_journal_page j + length pgs) = page_of fl) \<and>
    (\<forall>i. length pgs < i \<and> i < j_journal_pages j \<longrightarrow> dev_page (j_dev j) (j_journal_page j + i) = page_of [])"

text \<open>Replaying a range of pages that hold records up to the first empty page.\<close>

lemma replay_pages_ok:
  assumes "dev_ok d" and "\<And>p. p \<in> set ps \<Longrightarrow> p < dev_pages d"
    and "map (dev_page d) ps = map page_of ess" and "length ess = length ps"
    and "\<forall>es \<in> set ess. (\<forall>e \<in> set es. entry_ok e) \<and> length (entries_bytes es) \<le> KV_PAGE_SIZE"
  shows "\<exists>d'. replay_pages cb d ps arg =
    ((KV_EOK, snd (run_replay cb (concat (takeWhile (\<lambda>es. es \<noteq> []) ess)) arg)), d') \<and>
    dev_ok d' \<and> dev_pages d' = dev_pages d \<and> (\<forall>i. dev_page d' i = dev_page d i)"
  using assms
proof (induction ps arbitrary: d ess arg)
  case Nil
  then show ?case by auto
next
  case (Cons p ps)
  then obtain es ess' where ess: "ess = es # ess'" by (cases ess) auto
  obtain d1 where d1: "read_pages d p 1 = ((KV_EOK, page_of es), d1)" "dev_ok d1"
      "dev_pages d1 = dev_pages d" "\<And>i. dev_page d1 i = dev_page d i"
    using read_page_ok [OF Cons.prems(1), of p] Cons.prems(2,3) ess by auto
  have es: "\<forall>e \<in> set es. entry_ok e" "length (entries_bytes es) \<le> KV_PAGE_SIZE"
    using Cons.prems(5) ess by auto
  obtain stop a1 where run: "run_replay cb es arg = (stop, a1)" by (cases "run_replay cb es arg")
  have pg: "replay_page cb (page_of es) 0 arg = (stop \<or> es = [], a1)"
    using replay_page_of [OF es, of cb arg] run by simp
  show ?case
  proof (cases "stop \<or> es = []")
    case True
    have "snd (run_replay cb (concat (takeWhile (\<lambda>es. es \<noteq> []) ess)) arg) = a1"
      using True run ess by (auto simp: run_replay_append)
    with True pg d1 show ?thesis by auto
  next
    case False
    have "dev_page d1 = dev_page d" using d1(4) by blast
    then have "map (dev_page d1) ps = map page_of ess'" "length ess' = length ps"
      using Cons.prems(3,4) ess by auto
    with Cons.IH [OF d1(2), of ess' a1] Cons.prems(2,5) d1(3) ess obtain d2 where
      d2: "replay_pages cb d1 ps a1 =
        ((KV_EOK, snd (run_replay cb (concat (takeWhile (\<lambda>es. es \<noteq> []) ess')) a1)), d2)"
        "dev_ok d2" "dev_pages d2 = dev_pages d1" "\<forall>i. dev_page d2 i = dev_page d1 i" by auto
    have "run_replay cb (concat (takeWhile (\<lambda>es. es \<noteq> []) ess)) arg =
        run_replay cb (concat (takeWhile (\<lambda>es. es \<noteq> []) ess')) a1"
      using False run ess by (simp add: run_replay_append)
    with False pg d1 d2 show ?thesis by auto
  qed
qed

end
