(* ===== verification/KV_Journal_Log.thy ===== *)
theory KV_Journal_Log
  imports KV_Journal "HOL-Library.Sublist"
begin

text \<open>
  The journal as a log.  \<open>journal_holds j all st\<close> says that the journal has accepted the
  records \<open>all\<close> since its last reset and that those of \<open>st\<close>, a prefix of them, are on the
  device.  Appending extends the first, flushing makes the two equal, and replaying the device
  delivers the second.
\<close>

definition journal_holds :: "journal \<Rightarrow> jentry list \<Rightarrow> jentry list \<Rightarrow> bool" where
  "journal_holds j all st \<longleftrightarrow>
    (\<exists>pgs cur fl. journal_inv j pgs cur fl \<and> all = concat pgs @ cur \<and> st = concat pgs @ fl)"

text \<open>The record \<open>journal_append\<close> writes for its arguments, and when its attachments are well
  formed.\<close>

definition jrec_final :: "journal \<Rightarrow> journal_rec \<Rightarrow> u32 \<Rightarrow> u32 list option \<Rightarrow> u64 list option \<Rightarrow> jentry" where
  "jrec_final j r data_crc lens path =
    (let r = r\<lparr>jr_dev_id := of_int (dv_dev_id (j_dev j)), jr_crc32 := 0\<rparr>
     in \<lparr>je_rec = r\<lparr>jr_crc32 := jrec_crc r data_crc lens path\<rparr>, je_data_crc = data_crc,
         je_lens = lens, je_path = path\<rparr>)"

definition attach_ok :: "journal_rec \<Rightarrow> u32 \<Rightarrow> u32 list option \<Rightarrow> u64 list option \<Rightarrow> bool" where
  "attach_ok r data_crc lens path \<longleftrightarrow>
    jr_op r \<in> {KV_JOP_PUT, KV_JOP_DEL, KV_JOP_TRIM} \<and>
    unat (jr_path_len r) \<le> 256 \<and> unat (jr_n_recs r) \<le> KV_MAX_LAYERS_CAP \<and>
    jrec_total r \<le> KV_PAGE_SIZE \<and> (jr_op r \<noteq> KV_JOP_PUT \<longrightarrow> data_crc = 0) \<and>
    map_option length lens = (if jrec_n_lens r = 0 then None else Some (jrec_n_lens r)) \<and>
    map_option length path = (if jr_path_len r = 0 then None else Some (unat (jr_path_len r)))"

lemma jrec_crc_ignores_crc [simp]:
  "jrec_crc (r\<lparr>jr_crc32 := c\<rparr>) data_crc lens path = jrec_crc r data_crc lens path"
proof -
  have "take 56 (enc_jrec (r\<lparr>jr_crc32 := c\<rparr>)) = take 56 (enc_jrec r)"
    "bslice 60 4 (enc_jrec (r\<lparr>jr_crc32 := c\<rparr>)) = bslice 60 4 (enc_jrec r)"
    by (simp_all add: enc_jrec_def bslice_def)
  moreover have "jrec_n_lens (r\<lparr>jr_crc32 := c\<rparr>) = jrec_n_lens r" by (simp add: jrec_n_lens_def)
  ultimately show ?thesis by (cases lens; cases path) (simp_all add: jrec_crc_def Let_def)
qed

lemma jrec_sizes_final [simp]:
  "jrec_n_lens (r\<lparr>jr_dev_id := d, jr_crc32 := c\<rparr>) = jrec_n_lens r"
  "jrec_total (r\<lparr>jr_dev_id := d, jr_crc32 := c\<rparr>) = jrec_total r"
  by (simp_all add: jrec_n_lens_def jrec_total_def)

lemma entry_ok_final:
  assumes "attach_ok r data_crc lens path"
  shows "entry_ok (jrec_final j r data_crc lens path)"
  using assms jrec_crc_ignores_crc
    [where r = "r\<lparr>jr_dev_id := of_int (dv_dev_id (j_dev j)), jr_crc32 := 0\<rparr>"]
  by (simp add: jrec_final_def Let_def entry_ok_def attach_ok_def)

lemma journal_invD:
  assumes "journal_inv j pgs cur fl"
  shows "dev_ok (j_dev j)" and "j_journal_page j + j_journal_pages j \<le> dev_pages (j_dev j)"
    and "j_cur_page j = length pgs" and "length pgs \<le> j_journal_pages j"
    and "\<And>es. es \<in> set (cur # fl # pgs) \<Longrightarrow> (\<forall>e \<in> set es. entry_ok e) \<and> length (entries_bytes es) \<le> KV_PAGE_SIZE"
    and "\<And>es. es \<in> set pgs \<Longrightarrow> es \<noteq> []"
    and "j_cur_off j = length (entries_bytes cur)" and "j_stage j = page_of cur"
    and "\<exists>r. cur = fl @ r" and "length pgs = j_journal_pages j \<Longrightarrow> cur = []"
    and "\<And>i. i < length pgs \<Longrightarrow> dev_page (j_dev j) (j_journal_page j + i) = page_of (pgs ! i)"
    and "length pgs < j_journal_pages j \<Longrightarrow> dev_page (j_dev j) (j_journal_page j + length pgs) = page_of fl"
    and "\<And>i. length pgs < i \<Longrightarrow> i < j_journal_pages j \<Longrightarrow> dev_page (j_dev j) (j_journal_page j + i) = page_of []"
  using assms unfolding journal_inv_def by blast+

section \<open>Flushing and the next page\<close>

lemma entries_bytes_empty:
  assumes "\<forall>e \<in> set es. entry_ok e" and "entries_bytes es = []"
  shows "es = []"
  using assms length_entry_bytes
  by (cases es) (auto simp: jrec_total_def KV_JOURNAL_REC_SIZE_def dest!: length_entry_bytes)

lemma journal_flush_inv:
  assumes inv: "journal_inv j pgs cur fl"
  shows "\<exists>j'. journal_flush_page j = (KV_EOK, j') \<and> journal_inv j' pgs cur cur \<and>
    j_journal_pages j' = j_journal_pages j \<and> j_dropped j' = j_dropped j \<and>
    dv_dev_id (j_dev j') = dv_dev_id (j_dev j)"
proof (cases "j_cur_off j = 0")
  case True
  note D = journal_invD [OF inv]
  have "cur = []" using True D(5) [of cur] D(7) entries_bytes_empty by simp
  then have "fl = cur" using D(9) by simp
  with inv True show ?thesis by (auto simp: journal_flush_page_def)
next
  case False
  note D = journal_invD [OF inv]
  have "cur \<noteq> []" using False D(7) by auto
  then have lt: "length pgs < j_journal_pages j" using D(4,10) by (metis le_neq_implies_less)
  then have pg: "j_journal_page j + j_cur_page j < dev_pages (j_dev j)" using D(2,3) by simp
  have st: "length (j_stage j) = KV_PAGE_SIZE" using D(5) [of cur] D(8) by simp
  obtain d' where d': "write_pages (j_dev j) (j_journal_page j + j_cur_page j) (j_stage j) 1 = (KV_EOK, d')"
      "dev_ok d'" "dev_pages d' = dev_pages (j_dev j)" "dv_dev_id d' = dv_dev_id (j_dev j)"
      "\<forall>i < dev_pages (j_dev j). dev_page d' i =
        (if i = j_journal_page j + j_cur_page j then j_stage j else dev_page (j_dev j) i)"
    using write_page_ok [OF D(1) pg st] by blast
  have page: "dev_page d' (j_journal_page j + i) =
      (if i = length pgs then page_of cur else dev_page (j_dev j) (j_journal_page j + i))"
    if "i < j_journal_pages j" for i using that d'(5) D(2,3,8) by auto
  have "journal_inv (j\<lparr>j_dev := d'\<rparr>) pgs cur cur"
    unfolding journal_inv_def
    using D d'(2,3) page lt by auto
  then show ?thesis using False d'(1,4) by (auto simp: journal_flush_page_def)
qed

lemma journal_next_page_inv:
  assumes inv: "journal_inv j pgs cur fl" and cur: "cur \<noteq> []"
  shows "\<exists>j'. journal_next_page j = (KV_EOK, j') \<and> journal_inv j' (pgs @ [cur]) [] [] \<and>
    j_journal_pages j' = j_journal_pages j \<and> j_dropped j' = j_dropped j \<and>
    dv_dev_id (j_dev j') = dv_dev_id (j_dev j)"
proof -
  obtain j1 where j1: "journal_flush_page j = (KV_EOK, j1)" "journal_inv j1 pgs cur cur"
      "j_journal_pages j1 = j_journal_pages j" "j_dropped j1 = j_dropped j"
      "dv_dev_id (j_dev j1) = dv_dev_id (j_dev j)"
    using journal_flush_inv [OF inv] by blast
  note D = journal_invD [OF j1(2)]
  have lt: "length pgs < j_journal_pages j1" using D(4,10) cur by (metis le_neq_implies_less)
  have "page_of [] = zeros KV_PAGE_SIZE" by (simp add: page_of_def)
  moreover have "dev_page (j_dev j1) (j_journal_page j1 + i) = page_of ((pgs @ [cur]) ! i)"
    if "i < Suc (length pgs)" for i
    using that D(11,12) lt by (cases "i = length pgs") (auto simp: nth_append)
  moreover have "dev_page (j_dev j1) (Suc (j_journal_page j1 + length pgs)) = page_of []"
    if "Suc (length pgs) < j_journal_pages j1" using D(13) [of "Suc (length pgs)"] that by simp
  ultimately have "journal_inv (j1\<lparr>j_cur_page := j_cur_page j1 + 1, j_cur_off := 0, j_stage := zeros KV_PAGE_SIZE\<rparr>)
      (pgs @ [cur]) [] []"
    unfolding journal_inv_def using D cur lt by auto
  then show ?thesis using j1 by (auto simp: journal_next_page_def)
qed

text \<open>Staging a record that fits.\<close>

lemma journal_stage_inv:
  assumes inv: "journal_inv j pgs cur fl" and ok: "entry_ok e" and lt: "length pgs < j_journal_pages j"
    and fit: "j_cur_off j + entry_total e \<le> KV_PAGE_SIZE"
  shows "journal_inv (j\<lparr>j_stage := overwrite (j_stage j) (j_cur_off j) (entry_bytes e),
      j_cur_off := j_cur_off j + entry_total e, j_bytes_written := b\<rparr>) pgs (cur @ [e]) fl"
proof -
  note D = journal_invD [OF inv]
  note len = length_entry_bytes [OF ok]
  have "overwrite (page_of cur) (length (entries_bytes cur)) (entry_bytes e) = page_of (cur @ [e])"
    using fit len D(7) by (simp add: page_of_def overwrite_def)
  moreover have "length (entries_bytes (cur @ [e])) \<le> KV_PAGE_SIZE" using fit len D(7) by simp
  ultimately show ?thesis
    unfolding journal_inv_def using D ok len lt by auto
qed

section \<open>Operations on the log\<close>

lemma journal_append_unfold:
  "journal_append j r data_crc lens path =
    (let e = jrec_final j r data_crc lens path
     in if entry_total e > KV_PAGE_SIZE then (- KV_EINVAL, j)
        else if j_cur_page j \<ge> j_journal_pages j then (KV_EFULL, j\<lparr>j_dropped := j_dropped j + 1\<rparr>)
        else case (if j_cur_off j + entry_total e > KV_PAGE_SIZE then journal_next_page j else (KV_EOK, j)) of
               (rc, j) \<Rightarrow>
                 if rc \<noteq> KV_EOK then (rc, j)
                 else if j_cur_page j \<ge> j_journal_pages j then (KV_EFULL, j\<lparr>j_dropped := j_dropped j + 1\<rparr>)
                 else (KV_EOK, j\<lparr>j_stage := overwrite (j_stage j) (j_cur_off j) (entry_bytes e),
                     j_cur_off := j_cur_off j + entry_total e,
                     j_bytes_written := j_bytes_written j + of_nat (entry_total e)\<rparr>))"
  unfolding journal_append_def jrec_final_def entry_bytes_def Let_def by (simp only: jentry.select_convs)

lemma journal_inv_dropped:
  "journal_inv (j\<lparr>j_dropped := k\<rparr>) pgs cur fl = journal_inv j pgs cur fl"
  by (simp add: journal_inv_def)

lemma journal_holds_dropped:
  "journal_holds (j\<lparr>j_dropped := k\<rparr>) all st = journal_holds j all st"
  by (simp add: journal_holds_def journal_inv_dropped)

lemma journal_append_holds:
  assumes "journal_holds j all st" and ok: "attach_ok r data_crc lens path"
  shows "\<exists>rc j' st'. journal_append j r data_crc lens path = (rc, j') \<and> prefix st st' \<and>
    (rc = KV_EOK \<and> journal_holds j' (all @ [jrec_final j r data_crc lens path]) st' \<or>
     rc = KV_EFULL \<and> journal_holds j' all st' \<and> j_dropped j' = j_dropped j + 1)"
proof -
  let ?e = "jrec_final j r data_crc lens path"
  obtain pgs cur fl where inv: "journal_inv j pgs cur fl" and al: "all = concat pgs @ cur"
    and st: "st = concat pgs @ fl" using assms(1) by (auto simp: journal_holds_def)
  note D = journal_invD [OF inv]
  have e: "entry_ok ?e" using ok by (rule entry_ok_final)
  then have tot: "\<not> entry_total ?e > KV_PAGE_SIZE" by (simp add: entry_ok_def)
  show ?thesis
  proof (cases "j_cur_page j \<ge> j_journal_pages j")
    case True
    have "journal_holds (j\<lparr>j_dropped := j_dropped j + 1\<rparr>) all st"
      using assms(1) by (simp add: journal_holds_dropped)
    with True tot show ?thesis by (auto simp: journal_append_unfold Let_def)
  next
    case False
    then have lt: "length pgs < j_journal_pages j" using D(3) by simp
    show ?thesis
    proof (cases "j_cur_off j + entry_total ?e > KV_PAGE_SIZE")
      case False
      have "journal_holds (j\<lparr>j_stage := overwrite (j_stage j) (j_cur_off j) (entry_bytes ?e),
          j_cur_off := j_cur_off j + entry_total ?e,
          j_bytes_written := j_bytes_written j + of_nat (entry_total ?e)\<rparr>) (all @ [?e]) st"
        unfolding journal_holds_def al st
        using journal_stage_inv [OF inv e lt] False by (intro exI conjI) auto
      moreover have "\<not> j_journal_pages j \<le> j_cur_page j" using lt D(3) by simp
      ultimately show ?thesis
        using tot False by (auto simp: journal_append_unfold Let_def KV_EOK_def)
    next
      case True
      have "cur \<noteq> []" using True tot D(7) by auto
      then obtain j1 where j1: "journal_next_page j = (KV_EOK, j1)" "journal_inv j1 (pgs @ [cur]) [] []"
          "j_journal_pages j1 = j_journal_pages j" "j_dropped j1 = j_dropped j"
          "dv_dev_id (j_dev j1) = dv_dev_id (j_dev j)"
        using journal_next_page_inv [OF inv] by blast
      note D1 = journal_invD [OF j1(2)]
      have pre: "prefix st all" using D(9) al st by (auto simp: prefix_def)
      have np: "\<not> j_journal_pages j \<le> j_cur_page j" using lt D(3) by simp
      show ?thesis
      proof (cases "j_cur_page j1 \<ge> j_journal_pages j1")
        case full: True
        have "journal_holds (j1\<lparr>j_dropped := j_dropped j1 + 1\<rparr>) all all"
          unfolding journal_holds_def journal_inv_dropped al
          using j1(2) by (intro exI [of _ "pgs @ [cur]"] exI [of _ "[]"]) auto
        then show ?thesis
          using full True tot j1 pre np by (auto simp: journal_append_unfold Let_def KV_EOK_def)
      next
        case room: False
        have fit: "j_cur_off j1 + entry_total ?e \<le> KV_PAGE_SIZE" using D1(7) tot by simp
        have "journal_holds (j1\<lparr>j_stage := overwrite (j_stage j1) (j_cur_off j1) (entry_bytes ?e),
            j_cur_off := j_cur_off j1 + entry_total ?e,
            j_bytes_written := j_bytes_written j1 + of_nat (entry_total ?e)\<rparr>) (all @ [?e]) all"
          unfolding journal_holds_def al
          using journal_stage_inv [OF j1(2) e _ fit] room D1(3)
          by (intro exI [of _ "pgs @ [cur]"] exI [of _ "[?e]"] exI [of _ "[]"]) auto
        then show ?thesis
          using room True tot j1 pre np by (auto simp: journal_append_unfold Let_def KV_EOK_def)
      qed
    qed
  qed
qed

lemma journal_flush_holds:
  assumes "journal_holds j all st"
  shows "\<exists>j'. journal_flush j = (KV_EOK, j') \<and> journal_holds j' all all"
proof -
  obtain pgs cur fl where inv: "journal_inv j pgs cur fl" and al: "all = concat pgs @ cur"
    using assms by (auto simp: journal_holds_def)
  from journal_flush_inv [OF inv] show ?thesis by (auto simp: journal_flush_def journal_holds_def al)
qed

lemma journal_holds_prefix: "journal_holds j all st \<Longrightarrow> prefix st all"
  by (auto simp: journal_holds_def journal_inv_def prefix_def)

lemma journal_reset_pages_fill:
  "journal_reset_pages d ps = dev.fill d ps (zeros KV_PAGE_SIZE)"
  by (induction ps arbitrary: d) (auto simp del: One_nat_def split: prod.splits)

lemma journal_reset_holds:
  assumes "dev_ok (j_dev j)" and "j_journal_page j + j_journal_pages j \<le> dev_pages (j_dev j)"
  shows "\<exists>j'. journal_reset j = (KV_EOK, j') \<and> journal_holds j' [] []"
proof -
  let ?ps = "map (\<lambda>p. j_journal_page j + p) [0..<j_journal_pages j]"
  have "set ?ps \<subseteq> {..<dev_pages (j_dev j)}" using assms(2) by auto
  then obtain d' where d': "dev.fill (j_dev j) ?ps (zeros KV_PAGE_SIZE) = (KV_EOK, d')" "dev_ok d'"
      "dev_pages d' = dev_pages (j_dev j)"
      "\<forall>i < dev_pages (j_dev j). dev_page d' i = (if i \<in> set ?ps then zeros KV_PAGE_SIZE else dev_page (j_dev j) i)"
    using dev.fill_ok [OF assms(1), of ?ps "zeros KV_PAGE_SIZE"] by auto
  have "page_of [] = zeros KV_PAGE_SIZE" by (simp add: page_of_def)
  then have "journal_inv (j\<lparr>j_dev := d', j_cur_page := 0, j_cur_off := 0, j_stage := zeros KV_PAGE_SIZE\<rparr>) [] [] []"
    unfolding journal_inv_def using d' assms(2) by auto
  then show ?thesis
    using d'(1) by (auto simp: journal_reset_def journal_reset_pages_fill journal_holds_def)
qed

lemma journal_replay_holds:
  assumes "journal_holds j all st"
  shows "\<exists>j'. journal_replay j cb arg = ((KV_EOK, snd (run_replay cb st arg)), j') \<and> journal_holds j' all st"
proof -
  obtain pgs cur fl where inv: "journal_inv j pgs cur fl" and al: "all = concat pgs @ cur"
    and st: "st = concat pgs @ fl" using assms by (auto simp: journal_holds_def)
  note D = journal_invD [OF inv]
  let ?n = "j_journal_pages j - length pgs"
  let ?ps = "map (\<lambda>p. j_journal_page j + p) [0..<j_journal_pages j]"
  define tl where "tl = (if ?n = 0 then [] else fl # replicate (?n - 1) [])"
  have ltl: "length tl = ?n" by (auto simp: tl_def)
  have nth: "(pgs @ tl) ! i = (if i < length pgs then pgs ! i else if i = length pgs then fl else [])"
    if "i < j_journal_pages j" for i using that by (auto simp: nth_append tl_def nth_Cons')
  have h2: "map (dev_page (j_dev j)) ?ps = map page_of (pgs @ tl)"
  proof (rule nth_equalityI)
    show "length (map (dev_page (j_dev j)) ?ps) = length (map page_of (pgs @ tl))" using ltl D(4) by simp
    fix i assume "i < length (map (dev_page (j_dev j)) ?ps)"
    then have i: "i < j_journal_pages j" by simp
    have "dev_page (j_dev j) (j_journal_page j + i) = page_of ((pgs @ tl) ! i)"
      using i D(11) [of i] D(12) D(13) [of i] nth [OF i] by (cases i "length pgs" rule: linorder_cases) auto
    then show "map (dev_page (j_dev j)) ?ps ! i = map page_of (pgs @ tl) ! i"
      using i ltl D(4) by (simp del: map_append)
  qed
  have h4: "\<forall>es \<in> set (pgs @ tl). (\<forall>e \<in> set es. entry_ok e) \<and> length (entries_bytes es) \<le> KV_PAGE_SIZE"
  proof
    fix es assume "es \<in> set (pgs @ tl)"
    then consider "es \<in> set pgs" | "es = fl" | "es = []" by (auto simp: tl_def split: if_splits)
    then show "(\<forall>e \<in> set es. entry_ok e) \<and> length (entries_bytes es) \<le> KV_PAGE_SIZE"
      by cases (use D(5) in auto)
  qed
  have h3: "length (pgs @ tl) = length ?ps" using ltl D(4) by simp
  have h1: "\<And>p. p \<in> set ?ps \<Longrightarrow> p < dev_pages (j_dev j)" using D(2) by auto
  obtain d' where d': "replay_pages cb (j_dev j) ?ps arg =
      ((KV_EOK, snd (run_replay cb (concat (takeWhile (\<lambda>es. es \<noteq> []) (pgs @ tl))) arg)), d')"
      "dev_ok d'" "dev_pages d' = dev_pages (j_dev j)" "\<forall>i. dev_page d' i = dev_page (j_dev j) i"
    using replay_pages_ok [where cb = cb and arg = arg, OF D(1) _ h2 h3 h4] h1 by auto
  have "fl = []" if "?n = 0" using that D(4,9,10) by auto
  then have "concat (takeWhile (\<lambda>es. es \<noteq> []) tl) = fl"
    by (cases "?n - 1") (auto simp: tl_def)
  moreover have "takeWhile (\<lambda>es. es \<noteq> []) (pgs @ tl) = pgs @ takeWhile (\<lambda>es. es \<noteq> []) tl"
    using D(6) by (simp add: takeWhile_append2)
  ultimately have "concat (takeWhile (\<lambda>es. es \<noteq> []) (pgs @ tl)) = st" using st by simp
  moreover have "journal_inv (j\<lparr>j_dev := d'\<rparr>) pgs cur fl"
    using inv d'(2-4) by (simp add: journal_inv_def)
  ultimately show ?thesis using d'(1) al st by (auto simp: journal_replay_def journal_holds_def)
qed

section \<open>Sequences of operations\<close>

datatype jcmd = JAppend journal_rec u32 "u32 list option" "u64 list option" | JFlush

text \<open>The records a sequence of operations gets accepted, and the journal it leaves.\<close>

fun journal_run :: "journal \<Rightarrow> jcmd list \<Rightarrow> jentry list \<times> journal" where
  "journal_run j [] = ([], j)"
| "journal_run j (JAppend r c ls ps # cs) =
    (case journal_append j r c ls ps of (rc, j') \<Rightarrow>
       case journal_run j' cs of (es, j'') \<Rightarrow>
         (if rc = KV_EOK then jrec_final j r c ls ps # es else es, j''))"
| "journal_run j (JFlush # cs) = (case journal_flush j of (_, j') \<Rightarrow> journal_run j' cs)"

fun jcmd_ok :: "jcmd \<Rightarrow> bool" where
  "jcmd_ok (JAppend r c ls ps) = attach_ok r c ls ps"
| "jcmd_ok JFlush = True"

lemma journal_run_holds:
  assumes "journal_holds j all st" and "\<forall>c \<in> set cs. jcmd_ok c" and "journal_run j cs = (es, j')"
  shows "\<exists>st'. journal_holds j' (all @ es) st' \<and> prefix st st'"
  using assms
proof (induction cs arbitrary: j all st es)
  case (Cons c cs)
  show ?case
  proof (cases c)
    case JFlush
    obtain j1 where j1: "journal_flush j = (KV_EOK, j1)" "journal_holds j1 all all"
      using journal_flush_holds [OF Cons.prems(1)] by blast
    then obtain st' where "journal_holds j' (all @ es) st'" "prefix all st'"
      using Cons.IH [OF j1(2)] Cons.prems(2,3) JFlush by auto
    moreover have "prefix st all" using Cons.prems(1) by (rule journal_holds_prefix)
    ultimately show ?thesis by (meson prefix_order.trans)
  next
    case (JAppend r d ls ps)
    have "attach_ok r d ls ps" using Cons.prems(2) JAppend by simp
    from journal_append_holds [OF Cons.prems(1) this] obtain rc j1 st1 where
      j1: "journal_append j r d ls ps = (rc, j1)" "prefix st st1"
        "rc = KV_EOK \<and> journal_holds j1 (all @ [jrec_final j r d ls ps]) st1 \<or>
         rc = KV_EFULL \<and> journal_holds j1 all st1" by blast
    obtain es1 where es1: "journal_run j1 cs = (es1, j')"
      "es = (if rc = KV_EOK then jrec_final j r d ls ps # es1 else es1)"
      using Cons.prems(3) JAppend j1(1) by (auto split: prod.splits)
    have "\<exists>st'. journal_holds j' (all @ es) st' \<and> prefix st1 st'"
      using j1(3)
    proof
      assume a: "rc = KV_EOK \<and> journal_holds j1 (all @ [jrec_final j r d ls ps]) st1"
      then show ?thesis
        using Cons.IH [of j1 "all @ [jrec_final j r d ls ps]" st1 es1] Cons.prems(2) es1 by auto
    next
      assume a: "rc = KV_EFULL \<and> journal_holds j1 all st1"
      then have "rc \<noteq> KV_EOK" by (simp add: kv_errs)
      with a show ?thesis using Cons.IH [of j1 all st1 es1] Cons.prems(2) es1 by auto
    qed
    then show ?thesis using j1(2) by (meson prefix_order.trans)
  qed
qed auto

text \<open>The records that \<open>journal_put\<close>, \<open>journal_del\<close> and \<open>journal_trim\<close> build are well formed,
  given arrays of the announced lengths.\<close>

lemma journal_del_attach_ok:
  "attach_ok (journal_rec0\<lparr>jr_op := KV_JOP_DEL, jr_prefix_id := p, jr_group_idx := g\<rparr>) 0 None None"
  by (simp add: attach_ok_def journal_rec0_def jrec_total_def jrec_n_lens_def kv_flags
      KV_JOURNAL_REC_SIZE_def KV_PAGE_SIZE_def)

section \<open>Properties\<close>

text \<open>C7: After resetting the journal and any sequence of appends and flushes on a device that
  reports no error, replaying the device calls the callback on a prefix of exactly the records
  whose append returned \<open>KV_EOK\<close>, in order and with their checksum, lengths and path as
  appended; after a final flush it is all of them.\<close>

theorem journal_log_roundtrip:
  assumes "dev_ok (j_dev j)" and "j_journal_page j + j_journal_pages j \<le> dev_pages (j_dev j)"
    and "\<forall>c \<in> set cs. jcmd_ok c"
  shows "\<exists>j0 es j1 st j2.
    journal_reset j = (KV_EOK, j0) \<and> journal_run j0 cs = (es, j1) \<and> prefix st es \<and>
    journal_flush j1 = (KV_EOK, j2) \<and>
    (\<forall>cb arg. \<exists>j'. journal_replay j1 cb arg = ((KV_EOK, snd (run_replay cb st (arg :: 'a))), j')) \<and>
    (\<forall>cb arg. \<exists>j'. journal_replay j2 cb arg = ((KV_EOK, snd (run_replay cb es (arg :: 'a))), j'))"
proof -
  obtain j0 where j0: "journal_reset j = (KV_EOK, j0)" "journal_holds j0 [] []"
    using journal_reset_holds [OF assms(1,2)] by blast
  obtain es j1 where run: "journal_run j0 cs = (es, j1)" by (cases "journal_run j0 cs")
  obtain st where st: "journal_holds j1 es st" using journal_run_holds [OF j0(2) assms(3) run] by auto
  obtain j2 where j2: "journal_flush j1 = (KV_EOK, j2)" "journal_holds j2 es es"
    using journal_flush_holds [OF st] by blast
  have r1: "\<forall>cb arg. \<exists>j'. journal_replay j1 cb arg = ((KV_EOK, snd (run_replay cb st (arg :: 'a))), j')"
  proof (intro allI)
    fix cb and arg :: 'a
    from journal_replay_holds [OF st, of cb arg]
    show "\<exists>j'. journal_replay j1 cb arg = ((KV_EOK, snd (run_replay cb st arg)), j')" by (elim exE conjE) (rule exI)
  qed
  have r2: "\<forall>cb arg. \<exists>j'. journal_replay j2 cb arg = ((KV_EOK, snd (run_replay cb es (arg :: 'a))), j')"
  proof (intro allI)
    fix cb and arg :: 'a
    from journal_replay_holds [OF j2(2), of cb arg]
    show "\<exists>j'. journal_replay j2 cb arg = ((KV_EOK, snd (run_replay cb es arg)), j')" by (elim exE conjE) (rule exI)
  qed
  show ?thesis
    by (rule exI [of _ j0], rule exI [of _ es], rule exI [of _ j1], rule exI [of _ st], rule exI [of _ j2])
      (intro conjI j0(1) run journal_holds_prefix [OF st] j2(1) r1 r2)
qed

text \<open>C8: An append never fails on a healthy device except by reporting a full journal with
  \<open>KV_EFULL\<close>; then it counts a dropped record, and nothing already accepted or written is lost.\<close>

theorem journal_append_full_or_logged:
  assumes "journal_holds j all st" and "attach_ok r data_crc lens path"
  shows "\<exists>rc j' st'. journal_append j r data_crc lens path = (rc, j') \<and> prefix st st' \<and>
    (rc = KV_EOK \<and> journal_holds j' (all @ [jrec_final j r data_crc lens path]) st' \<or>
     rc = KV_EFULL \<and> journal_holds j' all st' \<and> j_dropped j' = j_dropped j + 1)"
  using assms by (rule journal_append_holds)

section \<open>Witnesses\<close>

definition journal_demo :: journal where
  "journal_demo = snd (journal_init True dev_demo 5 2)"

lemma journal_demo_ok:
  "dev_ok (j_dev journal_demo)" "j_journal_page journal_demo + j_journal_pages journal_demo \<le> dev_pages (j_dev journal_demo)"
  using dev_demo_ok by (simp_all add: journal_demo_def journal_init_def)

theorem journal_log_roundtrip_witness:
  "\<exists>j0 es j1 j2. journal_reset journal_demo = (KV_EOK, j0) \<and>
    journal_run j0 [JAppend (journal_rec0\<lparr>jr_op := KV_JOP_DEL, jr_prefix_id := 7, jr_group_idx := 1\<rparr>) 0 None None, JFlush] = (es, j1) \<and>
    journal_flush j1 = (KV_EOK, j2) \<and>
    (\<exists>j'. journal_replay j2 (\<lambda>r _ _ _ _ _ n. (0, n + 1)) 0 = ((KV_EOK, snd (run_replay (\<lambda>r _ _ _ _ _ n. (0, n + 1)) es (0::nat))), j'))"
proof -
  let ?cs = "[JAppend (journal_rec0\<lparr>jr_op := KV_JOP_DEL, jr_prefix_id := 7, jr_group_idx := 1\<rparr>) 0 None None, JFlush]"
  have "\<forall>c \<in> set ?cs. jcmd_ok c" using journal_del_attach_ok [where p = 7 and g = 1] by simp
  from journal_log_roundtrip [OF journal_demo_ok this, where ?'a = nat]
  obtain j0 es j1 j2 where "journal_reset journal_demo = (KV_EOK, j0)" "journal_run j0 ?cs = (es, j1)"
    "journal_flush j1 = (KV_EOK, j2)"
    "\<forall>cb arg. \<exists>j'. journal_replay j2 cb arg = ((KV_EOK, snd (run_replay cb es (arg :: nat))), j')"
    by (elim exE conjE)
  then show ?thesis by metis
qed

theorem journal_append_full_or_logged_witness:
  "\<exists>j0 rc j'. journal_reset journal_demo = (KV_EOK, j0) \<and>
    journal_append j0 (journal_rec0\<lparr>jr_op := KV_JOP_DEL, jr_prefix_id := 7, jr_group_idx := 1\<rparr>) 0 None None = (rc, j') \<and>
    rc \<in> {KV_EOK, KV_EFULL}"
proof -
  obtain j0 where j0: "journal_reset journal_demo = (KV_EOK, j0)" "journal_holds j0 [] []"
    using journal_reset_holds [OF journal_demo_ok] by blast
  from journal_append_full_or_logged [OF j0(2) journal_del_attach_ok [where p = 7 and g = 1]] j0(1) show ?thesis by blast
qed

end
