(* ===== verification/KV_Region.thy ===== *)
theory KV_Region
  imports KV_Codec KV_Device KV_Crc32
begin

text \<open>
  The region manager of \<open>src/region.cpp\<close>: the two alternating superblock pages and one header
  page per region, checksummed little-endian images.  The manager holds a pointer to the device;
  here its operations take the device as an argument and return it.  Signed 64-bit counters are
  words read with \<open>sint\<close>; the clock is an argument.  The lemmas show that the header and
  superblock images validate and decode to what was written, that formatting and loading round
  trip, and that a torn superblock write leaves the previous superblock in force.
\<close>

section \<open>Data\<close>

definition kRegionBasePage :: nat where
  "kRegionBasePage = 2"

record superblock =
  sb_magic :: u32
  sb_crc32 :: u32
  sb_fmt_ts :: u64
  sb_dev_id :: u16
  sb_version :: u16
  sb_region_cnt :: u32
  sb_region_size_pages :: u64
  sb_region_base_page :: u64
  sb_journal_page :: u64
  sb_journal_pages :: u64
  sb_cur_epoch :: u64

record region_header =
  rh_magic :: u32
  rh_crc32 :: u32
  rh_epoch :: u64
  rh_base_ts :: u64
  rh_close_ts :: u64
  rh_watermark_page :: u64
  rh_live_bytes_hint :: u64
  rh_state :: u8

record region_sh =
  rs_epoch :: u64
  rs_base_ts :: u64
  rs_close_ts :: u64
  rs_watermark_page :: u64
  rs_live_bytes :: u64
  rs_state :: u8

record region_mgr =
  rm_region_cnt :: u32
  rm_region_size_pages :: u64
  rm_rg :: "region_sh list"
  rm_cur_open :: int
  rm_epoch_counter :: u64

definition region_sh0 :: region_sh where
  "region_sh0 = \<lparr>rs_epoch = 0, rs_base_ts = 0, rs_close_ts = 0, rs_watermark_page = 1,
    rs_live_bytes = 0, rs_state = KV_RG_FREE\<rparr>"

definition enc_sb :: "superblock \<Rightarrow> bytes" where
  "enc_sb s = put_le32 (sb_magic s) @ put_le32 (sb_crc32 s) @ put_le64 (sb_fmt_ts s) @
    put_le16 (sb_dev_id s) @ put_le16 (sb_version s) @ put_le32 (sb_region_cnt s) @
    put_le64 (sb_region_size_pages s) @ put_le64 (sb_region_base_page s) @
    put_le64 (sb_journal_page s) @ put_le64 (sb_journal_pages s) @ put_le64 (sb_cur_epoch s) @ zeros 448"

definition dec_sb :: "bytes \<Rightarrow> superblock" where
  "dec_sb b = \<lparr>sb_magic = le32 b, sb_crc32 = le32 (drop 4 b), sb_fmt_ts = le64 (drop 8 b),
    sb_dev_id = le16 (drop 16 b), sb_version = le16 (drop 18 b), sb_region_cnt = le32 (drop 20 b),
    sb_region_size_pages = le64 (drop 24 b), sb_region_base_page = le64 (drop 32 b),
    sb_journal_page = le64 (drop 40 b), sb_journal_pages = le64 (drop 48 b),
    sb_cur_epoch = le64 (drop 56 b)\<rparr>"

definition enc_rh :: "region_header \<Rightarrow> bytes" where
  "enc_rh h = put_le32 (rh_magic h) @ put_le32 (rh_crc32 h) @ put_le64 (rh_epoch h) @
    put_le64 (rh_base_ts h) @ put_le64 (rh_close_ts h) @ put_le64 (rh_watermark_page h) @
    put_le64 (rh_live_bytes_hint h) @ [rh_state h] @ zeros (KV_PAGE_SIZE - 49)"

definition dec_rh :: "bytes \<Rightarrow> region_header" where
  "dec_rh b = \<lparr>rh_magic = le32 b, rh_crc32 = le32 (drop 4 b), rh_epoch = le64 (drop 8 b),
    rh_base_ts = le64 (drop 16 b), rh_close_ts = le64 (drop 24 b), rh_watermark_page = le64 (drop 32 b),
    rh_live_bytes_hint = le64 (drop 40 b), rh_state = b ! 48\<rparr>"

section \<open>Operations\<close>

definition rm_init :: "u32 \<Rightarrow> u64 \<Rightarrow> region_mgr" where
  "rm_init region_cnt region_size_pages = \<lparr>rm_region_cnt = region_cnt,
    rm_region_size_pages = region_size_pages, rm_rg = replicate (unat region_cnt) region_sh0,
    rm_cur_open = -1, rm_epoch_counter = 0\<rparr>"

definition rm_destroy :: "region_mgr \<Rightarrow> region_mgr" where
  "rm_destroy rm = rm\<lparr>rm_rg := []\<rparr>"

definition page_base :: "region_mgr \<Rightarrow> nat \<Rightarrow> nat" where
  "page_base rm i = trunc64 (kRegionBasePage + i * unat (rm_region_size_pages rm))"

text \<open>Both checksums skip the checksum field itself, bytes 4 to 8.\<close>

definition sb_crc :: "bytes \<Rightarrow> u32" where
  "sb_crc b = crc32_partial (crc32_partial 0 (take 4 b)) (bslice 8 (512 - 8) b)"

definition rg_crc :: "bytes \<Rightarrow> u32" where
  "rg_crc b = crc32_partial (crc32_partial 0 (take 4 b)) (bslice 8 (KV_PAGE_SIZE - 8) b)"

definition sb_valid :: "bytes \<Rightarrow> bool" where
  "sb_valid page \<longleftrightarrow> sb_magic (dec_sb page) = KV_SB_MAGIC \<and> sb_crc page = sb_crc32 (dec_sb page)"

definition sb_load :: "device \<Rightarrow> (int \<times> superblock option) \<times> device" where
  "sb_load d =
    (case read_pages d 0 1 of ((rc0, page0), d) \<Rightarrow>
     case read_pages d 1 1 of ((rc1, page1), d) \<Rightarrow>
       (let best = (if rc0 = KV_EOK \<and> sb_valid page0 then Some (dec_sb page0) else None);
            best = (if rc1 = KV_EOK \<and> sb_valid page1 then
                      (let sb1 = dec_sb page1
                       in case best of
                            None \<Rightarrow> Some sb1
                          | Some b \<Rightarrow>
                              if sb_cur_epoch sb1 > sb_cur_epoch b \<or>
                                 (sb_cur_epoch sb1 = sb_cur_epoch b \<and> sb_fmt_ts sb1 > sb_fmt_ts b)
                              then Some sb1 else Some b)
                    else best)
        in case best of None \<Rightarrow> ((- KV_ENOENT, None), d) | Some b \<Rightarrow> ((KV_EOK, Some b), d)))"

definition sb_image :: "region_mgr \<Rightarrow> int \<Rightarrow> u64 \<Rightarrow> superblock" where
  "sb_image rm dev_id now =
    (let sb = \<lparr>sb_magic = KV_SB_MAGIC, sb_crc32 = 0,
           sb_fmt_ts = (if rs_base_ts (rm_rg rm ! 0) \<noteq> 0 then rs_base_ts (rm_rg rm ! 0) else now),
           sb_dev_id = of_int dev_id, sb_version = 1, sb_region_cnt = rm_region_cnt rm,
           sb_region_size_pages = rm_region_size_pages rm, sb_region_base_page = of_nat kRegionBasePage,
           sb_journal_page = 0, sb_journal_pages = 0, sb_cur_epoch = rm_epoch_counter rm\<rparr>
     in sb\<lparr>sb_crc32 := sb_crc (enc_sb sb)\<rparr>)"

definition sb_page :: "superblock \<Rightarrow> bytes" where
  "sb_page sb = overwrite (zeros KV_PAGE_SIZE) 0 (enc_sb sb)"

definition sb_slot :: "region_mgr \<Rightarrow> nat" where
  "sb_slot rm = (if rm_epoch_counter rm mod 2 = 0 then 0 else 1)"

definition sb_write :: "region_mgr \<Rightarrow> device \<Rightarrow> u64 \<Rightarrow> int \<times> device" where
  "sb_write rm d now = write_pages d (sb_slot rm) (sb_page (sb_image rm (dv_dev_id d) now)) 1"

definition rh_image :: "region_sh \<Rightarrow> region_header" where
  "rh_image sh =
    (let h = \<lparr>rh_magic = KV_RG_MAGIC, rh_crc32 = 0, rh_epoch = rs_epoch sh, rh_base_ts = rs_base_ts sh,
           rh_close_ts = rs_close_ts sh, rh_watermark_page = rs_watermark_page sh,
           rh_live_bytes_hint = (if sint (rs_live_bytes sh) < 0 then 0 else rs_live_bytes sh),
           rh_state = rs_state sh\<rparr>
     in h\<lparr>rh_crc32 := rg_crc (enc_rh h)\<rparr>)"

definition write_header :: "region_mgr \<Rightarrow> device \<Rightarrow> nat \<Rightarrow> int \<times> device" where
  "write_header rm d idx = write_pages d (page_base rm idx) (enc_rh (rh_image (rm_rg rm ! idx))) 1"

definition load_header :: "bytes \<Rightarrow> region_sh \<Rightarrow> region_sh" where
  "load_header buf sh =
    (let h = dec_rh buf
     in if rh_magic h \<noteq> KV_RG_MAGIC \<or> rg_crc buf \<noteq> rh_crc32 h
        then sh\<lparr>rs_state := KV_RG_FREE, rs_epoch := 0, rs_watermark_page := 1\<rparr>
        else \<lparr>rs_epoch = rh_epoch h, rs_base_ts = rh_base_ts h, rs_close_ts = rh_close_ts h,
              rs_watermark_page = rh_watermark_page h, rs_live_bytes = rh_live_bytes_hint h,
              rs_state = rh_state h\<rparr>)"

fun load_headers :: "region_mgr \<Rightarrow> device \<Rightarrow> nat list \<Rightarrow> int \<times> region_mgr \<times> device" where
  "load_headers rm d [] = (KV_EOK, rm, d)"
| "load_headers rm d (i # is) =
    (case read_pages d (page_base rm i) 1 of ((rc, buf), d) \<Rightarrow>
       if rc \<noteq> KV_EOK then (rc, rm, d)
       else load_headers (rm\<lparr>rm_rg := (rm_rg rm)[i := load_header buf (rm_rg rm ! i)]\<rparr>) d is)"

definition rm_load :: "region_mgr \<Rightarrow> device \<Rightarrow> (int \<times> superblock option) \<times> region_mgr \<times> device" where
  "rm_load rm d =
    (case sb_load d of ((rc, sb), d) \<Rightarrow>
       case sb of
         None \<Rightarrow> ((rc, None), rm, d)
       | Some s \<Rightarrow>
           if sb_region_cnt s \<noteq> rm_region_cnt rm \<or> sb_region_size_pages s \<noteq> rm_region_size_pages rm
           then ((- KV_EINVAL, Some s), rm, d)
           else case load_headers rm d [0..<unat (rm_region_cnt rm)] of (rc, rm, d) \<Rightarrow>
                  if rc \<noteq> KV_EOK then ((rc, Some s), rm, d)
                  else ((KV_EOK, Some s), rm\<lparr>rm_epoch_counter := sb_cur_epoch s\<rparr>, d))"

fun format_headers :: "region_mgr \<Rightarrow> device \<Rightarrow> u64 \<Rightarrow> nat list \<Rightarrow> int \<times> region_mgr \<times> device" where
  "format_headers rm d epoch [] = (KV_EOK, rm, d)"
| "format_headers rm d epoch (i # is) =
    (let rm = rm\<lparr>rm_rg := (rm_rg rm)[i := region_sh0\<lparr>rs_epoch := epoch\<rparr>]\<rparr>
     in case write_header rm d i of (rc, d) \<Rightarrow>
          if rc \<noteq> KV_EOK then (rc, rm, d) else format_headers rm d epoch is)"

definition rm_format :: "region_mgr \<Rightarrow> device \<Rightarrow> u64 \<Rightarrow> u64 \<Rightarrow> int \<times> region_mgr \<times> device" where
  "rm_format rm d cur_epoch now =
    (let rm = rm\<lparr>rm_epoch_counter := cur_epoch\<rparr>
     in case format_headers rm d cur_epoch [0..<unat (rm_region_cnt rm)] of (rc, rm, d) \<Rightarrow>
          if rc \<noteq> KV_EOK then (rc, rm, d)
          else case sb_write rm d now of (rc, d) \<Rightarrow> (rc, rm, d))"

definition next_free :: "region_mgr \<Rightarrow> int" where
  "next_free rm =
    (case find (\<lambda>i. rs_state (rm_rg rm ! i) = KV_RG_FREE) [0..<unat (rm_region_cnt rm)] of
       None \<Rightarrow> -1 | Some i \<Rightarrow> int i)"

text \<open>\<open>region_of_page\<close> of \<open>src/cache.hpp\<close>.\<close>

definition region_of_page :: "region_mgr \<Rightarrow> u64 \<Rightarrow> int" where
  "region_of_page rm page =
    (if page < of_nat kRegionBasePage then -1
     else sint (ucast ((page - of_nat kRegionBasePage) div rm_region_size_pages rm) :: u32))"

section \<open>Images\<close>

interpretation c_sb: fixed_codec enc_sb dec_sb 512
  by unfold_locales (simp_all add: enc_sb_def dec_sb_def)

interpretation c_rh: fixed_codec enc_rh dec_rh KV_PAGE_SIZE
  by unfold_locales (simp_all add: enc_rh_def dec_rh_def KV_PAGE_SIZE_def nth_append)

lemma sb_crc_skip [simp]: "sb_crc (enc_sb (s\<lparr>sb_crc32 := c\<rparr>)) = sb_crc (enc_sb s)"
proof -
  have "take 4 (enc_sb (s\<lparr>sb_crc32 := c\<rparr>)) = take 4 (enc_sb s)"
    "drop 8 (enc_sb (s\<lparr>sb_crc32 := c\<rparr>)) = drop 8 (enc_sb s)"
    by (simp_all add: enc_sb_def)
  then show ?thesis by (simp add: sb_crc_def bslice_def)
qed

lemma rg_crc_skip [simp]: "rg_crc (enc_rh (h\<lparr>rh_crc32 := c\<rparr>)) = rg_crc (enc_rh h)"
proof -
  have "take 4 (enc_rh (h\<lparr>rh_crc32 := c\<rparr>)) = take 4 (enc_rh h)"
    "drop 8 (enc_rh (h\<lparr>rh_crc32 := c\<rparr>)) = drop 8 (enc_rh h)"
    by (simp_all add: enc_rh_def)
  then show ?thesis by (simp add: rg_crc_def bslice_def)
qed

lemma sb_page_image:
  "length (sb_page s) = KV_PAGE_SIZE" "dec_sb (sb_page s) = s" "sb_crc (sb_page s) = sb_crc (enc_sb s)"
proof -
  have page: "sb_page s = enc_sb s @ zeros (KV_PAGE_SIZE - 512)"
    by (simp add: sb_page_def overwrite_def c_sb.length_enc)
  show "length (sb_page s) = KV_PAGE_SIZE" by (simp add: page c_sb.length_enc KV_PAGE_SIZE_def)
  show "dec_sb (sb_page s) = s" by (simp add: page c_sb.dec_enc)
  show "sb_crc (sb_page s) = sb_crc (enc_sb s)"
    by (simp add: page sb_crc_def bslice_def c_sb.length_enc)
qed

lemma sb_valid_image: "sb_valid (sb_page (sb_image rm dev_id now))"
proof -
  have "\<exists>s. sb_image rm dev_id now = s\<lparr>sb_crc32 := sb_crc (enc_sb s)\<rparr> \<and> sb_magic s = KV_SB_MAGIC"
    unfolding sb_image_def Let_def by (rule exI, rule conjI, rule refl, simp)
  then obtain s where "sb_image rm dev_id now = s\<lparr>sb_crc32 := sb_crc (enc_sb s)\<rparr>" "sb_magic s = KV_SB_MAGIC"
    by blast
  then show ?thesis by (simp add: sb_valid_def sb_page_image)
qed

text \<open>What loading a written header restores: everything, with negative live counts read as zero.\<close>

definition clamp_live :: "region_sh \<Rightarrow> region_sh" where
  "clamp_live sh = sh\<lparr>rs_live_bytes := (if sint (rs_live_bytes sh) < 0 then 0 else rs_live_bytes sh)\<rparr>"

lemma load_header_image: "load_header (enc_rh (rh_image sh)) sh' = clamp_live sh"
proof -
  have dec: "dec_rh (enc_rh h) = h" for h using c_rh.dec_enc [of h "[]"] by simp
  have "\<exists>h. rh_image sh = h\<lparr>rh_crc32 := rg_crc (enc_rh h)\<rparr>"
    unfolding rh_image_def Let_def by (rule exI, rule refl)
  then have crc: "rg_crc (enc_rh (rh_image sh)) = rh_crc32 (rh_image sh)" by auto
  show ?thesis
    unfolding load_header_def Let_def dec crc by (simp add: rh_image_def Let_def clamp_live_def)
qed

section \<open>Superblocks\<close>

text \<open>The choice between the two superblock pages.\<close>

definition sb_best :: "bytes \<Rightarrow> bytes \<Rightarrow> superblock option" where
  "sb_best p0 p1 =
    (if sb_valid p1 then
       (if sb_valid p0 \<and> \<not> (sb_cur_epoch (dec_sb p1) > sb_cur_epoch (dec_sb p0) \<or>
            (sb_cur_epoch (dec_sb p1) = sb_cur_epoch (dec_sb p0) \<and> sb_fmt_ts (dec_sb p1) > sb_fmt_ts (dec_sb p0)))
        then Some (dec_sb p0) else Some (dec_sb p1))
     else if sb_valid p0 then Some (dec_sb p0) else None)"

lemma sb_load_best:
  assumes "dev_ok d" and "2 \<le> dev_pages d"
  shows "\<exists>d'. sb_load d = ((case sb_best (dev_page d 0) (dev_page d 1) of
      None \<Rightarrow> (- KV_ENOENT, None) | Some s \<Rightarrow> (KV_EOK, Some s)), d') \<and>
    dev_ok d' \<and> dev_pages d' = dev_pages d \<and> (\<forall>i. dev_page d' i = dev_page d i)"
proof -
  obtain d1 where d1: "read_pages d 0 1 = ((KV_EOK, dev_page d 0), d1)" "dev_ok d1"
      "dev_pages d1 = dev_pages d" "\<forall>i. dev_page d1 i = dev_page d i"
    using read_page_ok [OF assms(1), of 0] assms(2) by auto
  obtain d2 where d2: "read_pages d1 1 1 = ((KV_EOK, dev_page d 1), d2)" "dev_ok d2"
      "dev_pages d2 = dev_pages d" "\<forall>i. dev_page d2 i = dev_page d i"
    using read_page_ok [OF d1(2), of 1] assms(2) d1(3,4) by auto
  have "sb_load d = ((case sb_best (dev_page d 0) (dev_page d 1) of
      None \<Rightarrow> (- KV_ENOENT, None) | Some s \<Rightarrow> (KV_EOK, Some s)), d2)"
    unfolding sb_load_def d1(1) d2(1) prod.case sb_best_def
    by (simp add: Let_def split del: if_split) (auto split: option.splits)
  with d2 show ?thesis by blast
qed

lemma sb_slot_less: "sb_slot rm < 2"
  by (simp add: sb_slot_def)

lemma sb_write_ok:
  assumes "dev_ok d" and "2 \<le> dev_pages d"
  shows "\<exists>d'. sb_write rm d now = (KV_EOK, d') \<and> dev_ok d' \<and> dev_pages d' = dev_pages d \<and>
    dv_dev_id d' = dv_dev_id d \<and>
    (\<forall>j < dev_pages d. dev_page d' j =
      (if j = sb_slot rm then sb_page (sb_image rm (dv_dev_id d) now) else dev_page d j))"
  using write_page_ok [OF assms(1), of "sb_slot rm" "sb_page (sb_image rm (dv_dev_id d) now)"]
    sb_slot_less [of rm] assms(2) sb_page_image(1)
  by (auto simp: sb_write_def)

lemma sb_slot_next:
  assumes "rm_epoch_counter rm' = rm_epoch_counter rm + 1"
  shows "sb_slot rm' = 1 - sb_slot rm"
proof -
  have "even (rm_epoch_counter rm + 1) = odd (rm_epoch_counter rm)" by simp
  then show ?thesis by (simp add: sb_slot_def assms even_iff_mod_2_eq_zero [symmetric] del: even_add)
qed

lemma less_plus_1: "(x :: 'a::len word) + 1 \<noteq> 0 \<Longrightarrow> x < x + 1"
  by (metis add.commute lessI unatSuc word_less_nat_alt)

text \<open>A superblock write under arbitrary failures touches its own page only.\<close>

lemma sb_write_torn:
  assumes ok: "dev_ok d" "2 \<le> dev_pages d" and wr: "sb_write rm (d\<lparr>dv_os := os\<rparr>) now = (rc, d')"
    and errno: "Sys_err 0 \<notin> set os"
  shows "dev_ok (d'\<lparr>dv_os := []\<rparr>) \<and> dev_pages d' = dev_pages d \<and> (\<forall>j. dev_page (d'\<lparr>dv_os := []\<rparr>) j = dev_page d' j) \<and>
    (\<forall>j < 2. j \<noteq> sb_slot rm \<longrightarrow> dev_page d' j = dev_page d j) \<and>
    (rc = KV_EOK \<longrightarrow> dev_page d' (sb_slot rm) = sb_page (sb_image rm (dv_dev_id d) now))"
  using write_page_torn [OF ok(1), of "sb_slot rm" "sb_page (sb_image rm (dv_dev_id d) now)" os rc d'] wr errno
    sb_slot_less [of rm] ok(2)
  by (auto simp: sb_write_def sb_page_image)

section \<open>Region headers\<close>

text \<open>The manager fits its device.\<close>

definition rm_fits :: "region_mgr \<Rightarrow> device \<Rightarrow> bool" where
  "rm_fits rm d \<longleftrightarrow> dev_ok d \<and> 0 < unat (rm_region_cnt rm) \<and> 0 < unat (rm_region_size_pages rm) \<and>
    length (rm_rg rm) = unat (rm_region_cnt rm) \<and>
    kRegionBasePage + unat (rm_region_cnt rm) * unat (rm_region_size_pages rm) \<le> dev_pages d"

text \<open>The header pages on the device show the manager's regions.\<close>

definition rm_synced :: "region_mgr \<Rightarrow> device \<Rightarrow> bool" where
  "rm_synced rm d \<longleftrightarrow> (\<forall>i < unat (rm_region_cnt rm). dev_page d (page_base rm i) = enc_rh (rh_image (rm_rg rm ! i)))"

lemma page_base_ok:
  assumes "rm_fits rm d" and "i < unat (rm_region_cnt rm)"
  shows "page_base rm i = kRegionBasePage + i * unat (rm_region_size_pages rm)" and "page_base rm i < dev_pages d"
proof -
  have "kRegionBasePage + Suc i * unat (rm_region_size_pages rm) \<le> dev_pages d"
    using assms mult_le_mono1 [of "Suc i" "unat (rm_region_cnt rm)" "unat (rm_region_size_pages rm)"]
    by (simp add: rm_fits_def)
  then have lt: "kRegionBasePage + i * unat (rm_region_size_pages rm) < dev_pages d"
    using assms(1) by (simp add: rm_fits_def)
  also have "dev_pages d < 2 ^ 63"
    using assms(1) by (simp add: rm_fits_def dev_ok_def KV_PAGE_SIZE_def)
  finally show b: "page_base rm i = kRegionBasePage + i * unat (rm_region_size_pages rm)"
    by (simp add: page_base_def)
  show "page_base rm i < dev_pages d" using lt b by simp
qed

lemma page_base_inj:
  assumes "rm_fits rm d" and "i < unat (rm_region_cnt rm)" and "j < unat (rm_region_cnt rm)"
    and "page_base rm i = page_base rm j"
  shows "i = j"
  using assms page_base_ok(1) [OF assms(1,2)] page_base_ok(1) [OF assms(1,3)]
  by (simp add: rm_fits_def)

lemma page_base_not_sb: "rm_fits rm d \<Longrightarrow> i < unat (rm_region_cnt rm) \<Longrightarrow> 2 \<le> page_base rm i"
  by (simp add: page_base_ok(1) kRegionBasePage_def)

lemma page_base_cong:
  "rm_region_size_pages rm' = rm_region_size_pages rm \<Longrightarrow> page_base rm' = page_base rm"
  by (simp add: page_base_def fun_eq_iff)

lemma write_header_ok:
  assumes "rm_fits rm d" and "i < unat (rm_region_cnt rm)"
  shows "\<exists>d'. write_header rm d i = (KV_EOK, d') \<and> rm_fits rm d' \<and> dev_pages d' = dev_pages d \<and>
    dv_dev_id d' = dv_dev_id d \<and>
    (\<forall>j < dev_pages d. dev_page d' j = (if j = page_base rm i then enc_rh (rh_image (rm_rg rm ! i)) else dev_page d j))"
proof -
  have "dev_ok d" using assms(1) by (simp add: rm_fits_def)
  from write_page_ok [OF this page_base_ok(2) [OF assms] c_rh.length_enc [of "rh_image (rm_rg rm ! i)"]]
  show ?thesis using assms(1) by (auto simp: write_header_def rm_fits_def)
qed

lemma format_headers_ok:
  assumes "rm_fits rm d" and "distinct is" and "set is \<subseteq> {..<unat (rm_region_cnt rm)}"
  shows "\<exists>rm' d'. format_headers rm d epoch is = (KV_EOK, rm', d') \<and> rm_fits rm' d' \<and>
    dev_pages d' = dev_pages d \<and> dv_dev_id d' = dv_dev_id d \<and>
    rm_region_cnt rm' = rm_region_cnt rm \<and> rm_region_size_pages rm' = rm_region_size_pages rm \<and>
    rm_epoch_counter rm' = rm_epoch_counter rm \<and>
    (\<forall>i < unat (rm_region_cnt rm). rm_rg rm' ! i = (if i \<in> set is then region_sh0\<lparr>rs_epoch := epoch\<rparr> else rm_rg rm ! i)) \<and>
    (\<forall>j < dev_pages d. dev_page d' j =
      (if \<exists>i \<in> set is. j = page_base rm i then enc_rh (rh_image (region_sh0\<lparr>rs_epoch := epoch\<rparr>)) else dev_page d j))"
  using assms
proof (induction "is" arbitrary: rm d)
  case (Cons i "is")
  let ?rm = "rm\<lparr>rm_rg := (rm_rg rm)[i := region_sh0\<lparr>rs_epoch := epoch\<rparr>]\<rparr>"
  have i: "i < unat (rm_region_cnt rm)" using Cons.prems(3) by simp
  have fits: "rm_fits ?rm d" using Cons.prems(1) by (simp add: rm_fits_def)
  have pb: "page_base ?rm = page_base rm" by (rule page_base_cong) simp
  have len: "i < length (rm_rg rm)" using i Cons.prems(1) by (simp add: rm_fits_def)
  have w: "rm_rg ?rm ! i = region_sh0\<lparr>rs_epoch := epoch\<rparr>" using len by simp
  have i': "i < unat (rm_region_cnt ?rm)" using i by simp
  obtain d1 where d1: "write_header ?rm d i = (KV_EOK, d1)" "rm_fits ?rm d1" "dev_pages d1 = dev_pages d"
      "dv_dev_id d1 = dv_dev_id d"
      "\<forall>j < dev_pages d. dev_page d1 j =
        (if j = page_base rm i then enc_rh (rh_image (region_sh0\<lparr>rs_epoch := epoch\<rparr>)) else dev_page d j)"
    using write_header_ok [OF fits i', unfolded pb w] by (elim exE conjE)
  have sub: "distinct is" "set is \<subseteq> {..<unat (rm_region_cnt ?rm)}" using Cons.prems(2,3) by auto
  have sel: "rm_region_cnt ?rm = rm_region_cnt rm" "rm_region_size_pages ?rm = rm_region_size_pages rm"
    "rm_epoch_counter ?rm = rm_epoch_counter rm" by simp_all
  obtain rm2 d2 where r2: "format_headers ?rm d1 epoch is = (KV_EOK, rm2, d2)" "rm_fits rm2 d2"
      "dev_pages d2 = dev_pages d" "dv_dev_id d2 = dv_dev_id d" "rm_region_cnt rm2 = rm_region_cnt rm"
      "rm_region_size_pages rm2 = rm_region_size_pages rm" "rm_epoch_counter rm2 = rm_epoch_counter rm"
      "\<forall>k < unat (rm_region_cnt rm). rm_rg rm2 ! k =
        (if k \<in> set is then region_sh0\<lparr>rs_epoch := epoch\<rparr> else rm_rg ?rm ! k)"
      "\<forall>j < dev_pages d. dev_page d2 j =
        (if \<exists>i \<in> set is. j = page_base rm i then enc_rh (rh_image (region_sh0\<lparr>rs_epoch := epoch\<rparr>)) else dev_page d1 j)"
    using Cons.IH [OF d1(2) sub, unfolded pb d1(3,4) sel] by (elim exE conjE)
  have "rm_rg rm2 ! k = (if k \<in> set (i # is) then region_sh0\<lparr>rs_epoch := epoch\<rparr> else rm_rg rm ! k)"
    if "k < unat (rm_region_cnt rm)" for k using r2(8) that len by (auto simp: nth_list_update)
  moreover have "dev_page d2 j = (if \<exists>i \<in> set (i # is). j = page_base rm i
      then enc_rh (rh_image (region_sh0\<lparr>rs_epoch := epoch\<rparr>)) else dev_page d j)" if "j < dev_pages d" for j
    using r2(9) d1(5) that by auto
  moreover have "format_headers rm d epoch (i # is) = (KV_EOK, rm2, d2)"
    using d1(1) r2(1) by (simp add: Let_def)
  ultimately show ?case using r2(2-7) by blast
qed auto

lemma rm_eqI:
  assumes "length (rm_rg a) = length (rm_rg b)" and "\<And>i. i < length (rm_rg b) \<Longrightarrow> rm_rg a ! i = rm_rg b ! i"
    and "rm_region_cnt a = rm_region_cnt b" and "rm_region_size_pages a = rm_region_size_pages b"
    and "rm_cur_open a = rm_cur_open b" and "rm_epoch_counter a = rm_epoch_counter b"
  shows "a = (b :: region_mgr)"
  using assms by (intro region_mgr.equality nth_equalityI) auto

lemma load_headers_ok:
  assumes "rm_fits rm d" and "set is \<subseteq> {..<unat (rm_region_cnt rm)}" and "distinct is"
    and "\<And>i. i \<in> set is \<Longrightarrow> dev_page d (page_base rm i) = enc_rh (rh_image (f i))"
  shows "\<exists>rg' d'. load_headers rm d is = (KV_EOK, rm\<lparr>rm_rg := rg'\<rparr>, d') \<and>
    length rg' = length (rm_rg rm) \<and> dev_pages d' = dev_pages d \<and> (\<forall>i. dev_page d' i = dev_page d i) \<and> dev_ok d' \<and>
    (\<forall>k < length (rm_rg rm). rg' ! k = (if k \<in> set is then clamp_live (f k) else rm_rg rm ! k))"
  using assms
proof (induction "is" arbitrary: rm d)
  case Nil
  then show ?case by (intro exI [of _ "rm_rg rm"] exI [of _ d]) (simp add: rm_fits_def)
next
  case (Cons i "is")
  have i: "i < unat (rm_region_cnt rm)" using Cons.prems(2) by simp
  have ok: "dev_ok d" using Cons.prems(1) by (simp add: rm_fits_def)
  obtain d1 where d1: "read_pages d (page_base rm i) 1 = ((KV_EOK, enc_rh (rh_image (f i))), d1)"
      "dev_ok d1" "dev_pages d1 = dev_pages d" "\<forall>j. dev_page d1 j = dev_page d j"
    using read_page_ok [OF ok page_base_ok(2) [OF Cons.prems(1) i]] Cons.prems(4) [of i] by auto
  let ?rm = "rm\<lparr>rm_rg := (rm_rg rm)[i := clamp_live (f i)]\<rparr>"
  have pb: "page_base ?rm = page_base rm" by (rule page_base_cong) simp
  have fits: "rm_fits ?rm d1" using Cons.prems(1) d1(2,3) by (simp add: rm_fits_def)
  have len: "i < length (rm_rg rm)" using i Cons.prems(1) by (simp add: rm_fits_def)
  obtain rg' d2 where r2: "load_headers ?rm d1 is = (KV_EOK, ?rm\<lparr>rm_rg := rg'\<rparr>, d2)"
      "length rg' = length (rm_rg rm)" "dev_pages d2 = dev_pages d" "\<forall>j. dev_page d2 j = dev_page d j" "dev_ok d2"
      "\<forall>k < length (rm_rg rm). rg' ! k = (if k \<in> set is then clamp_live (f k) else rm_rg ?rm ! k)"
  proof -
    have "set is \<subseteq> {..<unat (rm_region_cnt ?rm)}" "distinct is" using Cons.prems(2,3) by auto
    moreover have "dev_page d1 (page_base ?rm j) = enc_rh (rh_image (f j))" if "j \<in> set is" for j
      using Cons.prems(4) [of j] that d1(4) pb by simp
    moreover have "length (rm_rg ?rm) = length (rm_rg rm)" by simp
    ultimately show ?thesis
      using Cons.IH [OF fits] d1(3,4) that by metis
  qed
  have "load_headers rm d (i # is) = (KV_EOK, rm\<lparr>rm_rg := rg'\<rparr>, d2)"
    using d1(1) r2(1) by (simp add: load_header_image)
  moreover have "rg' ! k = (if k \<in> set (i # is) then clamp_live (f k) else rm_rg rm ! k)"
    if "k < length (rm_rg rm)" for k using r2(6) that len by (auto simp: nth_list_update)
  ultimately show ?case using r2 by blast
qed

section \<open>Formatting and loading\<close>

lemma rm_load_ok:
  assumes fits: "rm_fits rm d" and sync: "rm_synced rm0 d" and len0: "length (rm_rg rm0) = unat (rm_region_cnt rm0)"
    and same: "rm_region_cnt rm0 = rm_region_cnt rm" "rm_region_size_pages rm0 = rm_region_size_pages rm"
    and sb: "sb_best (dev_page d 0) (dev_page d 1) = Some s"
    and cnt: "sb_region_cnt s = rm_region_cnt rm" "sb_region_size_pages s = rm_region_size_pages rm"
  shows "\<exists>d'. rm_load rm d = ((KV_EOK, Some s),
    rm\<lparr>rm_rg := map clamp_live (rm_rg rm0), rm_epoch_counter := sb_cur_epoch s\<rparr>, d')"
proof -
  have ok: "dev_ok d" "2 \<le> dev_pages d" using fits by (auto simp: rm_fits_def kRegionBasePage_def)
  obtain d1 where d1: "sb_load d = ((KV_EOK, Some s), d1)" "dev_ok d1" "dev_pages d1 = dev_pages d"
      "\<forall>i. dev_page d1 i = dev_page d i"
    using sb_load_best [OF ok] sb by auto
  have fits1: "rm_fits rm d1" using fits d1(2,3) by (simp add: rm_fits_def)
  have pb: "page_base rm0 = page_base rm" using same(2) by (rule page_base_cong)
  have sub: "set [0..<unat (rm_region_cnt rm)] \<subseteq> {..<unat (rm_region_cnt rm)}" "distinct [0..<unat (rm_region_cnt rm)]"
    by auto
  have "dev_page d1 (page_base rm i) = enc_rh (rh_image (rm_rg rm0 ! i))"
    if "i \<in> set [0..<unat (rm_region_cnt rm)]" for i
    using that sync d1(4) same(1) by (simp add: rm_synced_def pb)
  from load_headers_ok [OF fits1 sub this]
  obtain rg' d2 where r: "load_headers rm d1 [0..<unat (rm_region_cnt rm)] = (KV_EOK, rm\<lparr>rm_rg := rg'\<rparr>, d2)"
      "length rg' = length (rm_rg rm)"
      "\<forall>k < length (rm_rg rm). rg' ! k = (if k \<in> set [0..<unat (rm_region_cnt rm)] then clamp_live (rm_rg rm0 ! k) else rm_rg rm ! k)"
    by blast
  have "rg' = map clamp_live (rm_rg rm0)"
    using r(2,3) fits len0 same(1) by (intro nth_equalityI) (auto simp: rm_fits_def)
  then show ?thesis using d1(1) r(1) cnt by (auto simp: rm_load_def)
qed

lemma rm_format_ok:
  assumes fits: "rm_fits rm d"
  shows "\<exists>rm' d'. rm_format rm d epoch now = (KV_EOK, rm', d') \<and> rm_fits rm' d' \<and> rm_synced rm' d' \<and>
    dev_pages d' = dev_pages d \<and>
    rm_region_cnt rm' = rm_region_cnt rm \<and> rm_region_size_pages rm' = rm_region_size_pages rm \<and>
    rm_epoch_counter rm' = epoch \<and>
    rm_rg rm' = replicate (unat (rm_region_cnt rm)) (region_sh0\<lparr>rs_epoch := epoch\<rparr>) \<and>
    (\<forall>j < 2. dev_page d' j =
      (if j = sb_slot rm' then sb_page (sb_image rm' (dv_dev_id d) now) else dev_page d j))"
proof -
  let ?rm = "rm\<lparr>rm_epoch_counter := epoch\<rparr>" and ?e = "region_sh0\<lparr>rs_epoch := epoch\<rparr>"
  let ?is = "[0..<unat (rm_region_cnt rm)]"
  have fits0: "rm_fits ?rm d" using fits by (simp add: rm_fits_def)
  have pb: "page_base ?rm = page_base rm" by (rule page_base_cong) simp
  have sub: "distinct ?is" "set ?is \<subseteq> {..<unat (rm_region_cnt ?rm)}" by auto
  have sel: "rm_region_cnt ?rm = rm_region_cnt rm" "rm_region_size_pages ?rm = rm_region_size_pages rm"
    "rm_epoch_counter ?rm = epoch" by simp_all
  obtain rm1 d1 where r1: "format_headers ?rm d epoch ?is = (KV_EOK, rm1, d1)" "rm_fits rm1 d1"
      "dev_pages d1 = dev_pages d" "dv_dev_id d1 = dv_dev_id d" "rm_region_cnt rm1 = rm_region_cnt rm"
      "rm_region_size_pages rm1 = rm_region_size_pages rm" "rm_epoch_counter rm1 = epoch"
      "\<forall>i < unat (rm_region_cnt rm). rm_rg rm1 ! i = (if i \<in> set ?is then ?e else rm_rg ?rm ! i)"
      "\<forall>j < dev_pages d. dev_page d1 j =
        (if \<exists>i \<in> set ?is. j = page_base rm i then enc_rh (rh_image ?e) else dev_page d j)"
    using format_headers_ok [OF fits0 sub, of epoch, unfolded pb sel] by (elim exE conjE)
  have pb1: "page_base rm1 = page_base rm" using r1(6) by (rule page_base_cong)
  have dev1: "dev_ok d1" "2 \<le> dev_pages d1" using r1(2) by (auto simp: rm_fits_def kRegionBasePage_def)
  obtain d2 where d2: "sb_write rm1 d1 now = (KV_EOK, d2)" "dev_ok d2" "dev_pages d2 = dev_pages d1"
      "\<forall>j < dev_pages d1. dev_page d2 j =
        (if j = sb_slot rm1 then sb_page (sb_image rm1 (dv_dev_id d1) now) else dev_page d1 j)"
    using sb_write_ok [OF dev1] by blast
  have rg: "rm_rg rm1 = replicate (unat (rm_region_cnt rm)) ?e"
    using r1(2,5,8) by (intro nth_equalityI) (auto simp: rm_fits_def)
  have "dev_page d2 (page_base rm1 i) = enc_rh (rh_image (rm_rg rm1 ! i))" if i: "i < unat (rm_region_cnt rm1)" for i
  proof -
    have "page_base rm1 i < dev_pages d1" "page_base rm1 i \<noteq> sb_slot rm1"
      using page_base_ok(2) [OF r1(2) i] page_base_not_sb [OF r1(2) i] sb_slot_less [of rm1] by auto
    then have "dev_page d2 (page_base rm1 i) = dev_page d1 (page_base rm i)" using d2(4) pb1 by simp
    also have "\<dots> = enc_rh (rh_image ?e)" using r1(3,5,9) i page_base_ok(2) [OF r1(2) i] pb1 by auto
    finally show ?thesis using rg i r1(5) by simp
  qed
  then have sync: "rm_synced rm1 d2" by (simp add: rm_synced_def)
  have low: "dev_page d1 j = dev_page d j" if j: "j < 2" for j
  proof -
    have "\<not> (\<exists>i \<in> set ?is. j = page_base rm i)"
      using page_base_not_sb [OF fits] j by (metis atLeastLessThan_iff not_le set_upt)
    then show ?thesis using r1(3,9) dev1(2) j by auto
  qed
  have fits2: "rm_fits rm1 d2" using r1(2) d2(2,3) by (simp add: rm_fits_def)
  have "rm_format rm d epoch now = (KV_EOK, rm1, d2)"
    using r1(1) d2(1) by (simp add: rm_format_def Let_def)
  moreover have "\<forall>j < 2. dev_page d2 j =
      (if j = sb_slot rm1 then sb_page (sb_image rm1 (dv_dev_id d) now) else dev_page d j)"
    using d2(4) dev1(2) low r1(4) by auto
  moreover have "dev_pages d2 = dev_pages d" using d2(3) r1(3) by simp
  ultimately show ?thesis using fits2 sync r1(5-7) rg by blast
qed

lemma sb_image_fields:
  "sb_cur_epoch (sb_image rm i now) = rm_epoch_counter rm" "sb_region_cnt (sb_image rm i now) = rm_region_cnt rm"
  "sb_region_size_pages (sb_image rm i now) = rm_region_size_pages rm"
  by (simp_all add: sb_image_def Let_def)

text \<open>A valid page wins over any page that does not validate or has an older epoch.\<close>

lemma sb_best_wins:
  assumes "k < (2 :: nat)" and "sb_valid (f k)"
    and "sb_valid (f (1 - k)) \<longrightarrow> sb_cur_epoch (dec_sb (f (1 - k))) < sb_cur_epoch (dec_sb (f k))"
  shows "sb_best (f 0) (f 1) = Some (dec_sb (f k))"
proof -
  have "k = 0 \<or> k = 1" using assms(1) by auto
  then show ?thesis using assms(2,3) by (auto simp: sb_best_def)
qed

section \<open>Properties\<close>

text \<open>C9: Formatting a device and loading it with a fresh region manager succeeds and restores
  every region as free with the format's epoch, whatever the superblock page of that epoch held
  before, unless the other superblock page, which the format leaves alone, holds a valid
  superblock of that epoch or a later one.\<close>

theorem region_format_load:
  assumes fits: "rm_fits (rm_init cnt sz) d"
    and other: "\<forall>k < 2. k \<noteq> (if epoch mod 2 = 0 then 0 else 1) \<longrightarrow>
      sb_valid (dev_page d k) \<longrightarrow> sb_cur_epoch (dec_sb (dev_page d k)) < epoch"
  shows "\<exists>rm' d' s d''. rm_format (rm_init cnt sz) d epoch now = (KV_EOK, rm', d') \<and>
    rm_load (rm_init cnt sz) d' = ((KV_EOK, Some s),
      (rm_init cnt sz)\<lparr>rm_rg := replicate (unat cnt) (region_sh0\<lparr>rs_epoch := epoch\<rparr>), rm_epoch_counter := epoch\<rparr>, d'') \<and>
    sb_cur_epoch s = epoch"
proof -
  let ?rm = "rm_init cnt sz"
  obtain rm' d' where r: "rm_format ?rm d epoch now = (KV_EOK, rm', d')" "rm_fits rm' d'" "rm_synced rm' d'"
      "rm_region_cnt rm' = cnt" "rm_region_size_pages rm' = sz" "rm_epoch_counter rm' = epoch"
      "rm_rg rm' = replicate (unat cnt) (region_sh0\<lparr>rs_epoch := epoch\<rparr>)"
      "\<forall>j < 2. dev_page d' j =
        (if j = sb_slot rm' then sb_page (sb_image rm' (dv_dev_id d) now) else dev_page d j)"
    using rm_format_ok [OF fits, of epoch now] by (auto simp: rm_init_def)
  let ?s = "sb_image rm' (dv_dev_id d) now"
  have slot: "sb_slot rm' < 2" by (rule sb_slot_less)
  have pg: "dev_page d' (sb_slot rm') = sb_page ?s" using r(8) slot by simp
  have "sb_best (dev_page d' 0) (dev_page d' 1) = Some (dec_sb (dev_page d' (sb_slot rm')))"
  proof (rule sb_best_wins [OF slot])
    show "sb_valid (dev_page d' (sb_slot rm'))" using pg sb_valid_image by simp
    have k: "1 - sb_slot rm' < 2" "1 - sb_slot rm' \<noteq> sb_slot rm'" using slot by arith+
    then have low: "dev_page d' (1 - sb_slot rm') = dev_page d (1 - sb_slot rm')" using r(8) by auto
    have "sb_slot rm' = (if epoch mod 2 = 0 then 0 else 1)" using r(6) by (simp add: sb_slot_def)
    then have "sb_valid (dev_page d (1 - sb_slot rm')) \<longrightarrow> sb_cur_epoch (dec_sb (dev_page d (1 - sb_slot rm'))) < epoch"
      using other k by metis
    then show "sb_valid (dev_page d' (1 - sb_slot rm')) \<longrightarrow>
        sb_cur_epoch (dec_sb (dev_page d' (1 - sb_slot rm'))) < sb_cur_epoch (dec_sb (dev_page d' (sb_slot rm')))"
      using low pg r(6) by (simp add: sb_page_image sb_image_fields)
  qed
  then have best: "sb_best (dev_page d' 0) (dev_page d' 1) = Some ?s" using pg by (simp add: sb_page_image)
  have fits': "rm_fits ?rm d'" using r(2,4,5) by (simp add: rm_fits_def rm_init_def)
  have len: "length (rm_rg rm') = unat (rm_region_cnt rm')" using r(2) by (simp add: rm_fits_def)
  have clamp: "map clamp_live (rm_rg rm') = replicate (unat cnt) (region_sh0\<lparr>rs_epoch := epoch\<rparr>)"
    using r(7) by (simp add: clamp_live_def region_sh0_def)
  have sel: "rm_region_cnt rm' = rm_region_cnt ?rm" "rm_region_size_pages rm' = rm_region_size_pages ?rm"
    using r(4,5) by (simp_all add: rm_init_def)
  obtain d'' where "rm_load ?rm d' = ((KV_EOK, Some ?s),
      ?rm\<lparr>rm_rg := map clamp_live (rm_rg rm'), rm_epoch_counter := sb_cur_epoch ?s\<rparr>, d'')"
    using rm_load_ok [OF fits' r(3) len sel best] sel by (auto simp: sb_image_fields)
  then show ?thesis using r(1,6) clamp by (auto simp: sb_image_fields)
qed

text \<open>C10: The superblock pages alternate, so a torn write cannot lose the newest superblock.  After a
  completed superblock write, let the write of the next epoch's superblock be interrupted by any
  failures, after any number of bytes.  If the page it was writing fails its checksum or still
  shows an older epoch, loading returns the superblock of the completed write; if the second
  write completed, loading returns the new superblock.\<close>

theorem superblock_survives_torn_write:
  assumes ok: "dev_ok d" "2 \<le> dev_pages d" and first: "sb_write rm d now = (KV_EOK, d1)"
    and epoch: "rm_epoch_counter rm' = rm_epoch_counter rm + 1" "rm_epoch_counter rm' \<noteq> 0"
    and crash: "sb_write rm' (d1\<lparr>dv_os := os\<rparr>) now' = (rc, d2)" and errno: "Sys_err 0 \<notin> set os"
  shows "(\<not> sb_valid (dev_page d2 (sb_slot rm')) \<or>
      sb_cur_epoch (dec_sb (dev_page d2 (sb_slot rm'))) < rm_epoch_counter rm \<longrightarrow>
      (\<exists>d3. sb_load (d2\<lparr>dv_os := []\<rparr>) = ((KV_EOK, Some (sb_image rm (dv_dev_id d) now)), d3))) \<and>
    (rc = KV_EOK \<longrightarrow> (\<exists>d3. sb_load (d2\<lparr>dv_os := []\<rparr>) = ((KV_EOK, Some (sb_image rm' (dv_dev_id d) now')), d3)))"
proof -
  have d1: "dev_ok d1" "dev_pages d1 = dev_pages d" "dv_dev_id d1 = dv_dev_id d"
      "dev_page d1 (sb_slot rm) = sb_page (sb_image rm (dv_dev_id d) now)"
    using sb_write_ok [OF ok, of rm now] ok(2) first sb_slot_less [of rm] by auto
  have slot: "sb_slot rm' = 1 - sb_slot rm" by (rule sb_slot_next [OF epoch(1)])
  then have other: "sb_slot rm \<noteq> sb_slot rm'" by arith
  have d2: "dev_ok (d2\<lparr>dv_os := []\<rparr>)" "2 \<le> dev_pages (d2\<lparr>dv_os := []\<rparr>)"
      "\<forall>j. dev_page (d2\<lparr>dv_os := []\<rparr>) j = dev_page d2 j" "dev_page d2 (sb_slot rm) = dev_page d1 (sb_slot rm)"
      "rc = KV_EOK \<longrightarrow> dev_page d2 (sb_slot rm') = sb_page (sb_image rm' (dv_dev_id d) now')"
    using sb_write_torn [OF d1(1) _ crash errno] d1(2,3) ok(2) sb_slot_less [of rm] other
    by (auto simp: dev_pages_def)
  have load: "\<exists>d3. sb_load (d2\<lparr>dv_os := []\<rparr>) = ((KV_EOK, Some s), d3)"
    if "sb_best (dev_page d2 0) (dev_page d2 1) = Some s" for s
    using sb_load_best [OF d2(1,2)] d2(3) that by auto
  have old: "sb_best (dev_page d2 0) (dev_page d2 1) = Some (sb_image rm (dv_dev_id d) now)"
    if "\<not> sb_valid (dev_page d2 (sb_slot rm')) \<or> sb_cur_epoch (dec_sb (dev_page d2 (sb_slot rm'))) < rm_epoch_counter rm"
    using sb_best_wins [OF sb_slot_less, of "dev_page d2" rm] that d2(4) d1(4) sb_valid_image slot
    by (simp add: sb_page_image sb_image_fields)
  have new: "sb_best (dev_page d2 0) (dev_page d2 1) = Some (sb_image rm' (dv_dev_id d) now')" if "rc = KV_EOK"
  proof -
    have "rm_epoch_counter rm < rm_epoch_counter rm'" using epoch by (simp add: less_plus_1)
    moreover have "1 - sb_slot rm' = sb_slot rm" using slot sb_slot_less [of rm] by arith
    ultimately show ?thesis
      using sb_best_wins [OF sb_slot_less, of "dev_page d2" rm'] that d2(4,5) d1(4) sb_valid_image
      by (simp add: sb_page_image sb_image_fields)
  qed
  show ?thesis using load old new by blast
qed

text \<open>C11: Writing a region's header persists it: after the region's state is changed and its header
  written, loading restores that region, with a negative live count read as zero, and every other
  region as it was last written.\<close>

theorem region_header_persists:
  assumes fits: "rm_fits rm d" and sync: "rm_synced rm d" and i: "i < unat (rm_region_cnt rm)"
    and sb: "sb_best (dev_page d 0) (dev_page d 1) = Some s"
    and cnt: "sb_region_cnt s = rm_region_cnt rm" "sb_region_size_pages s = rm_region_size_pages rm"
  shows "\<exists>d' d''. write_header (rm\<lparr>rm_rg := (rm_rg rm)[i := sh]\<rparr>) d i = (KV_EOK, d') \<and>
    rm_load rm d' = ((KV_EOK, Some s),
      rm\<lparr>rm_rg := map clamp_live ((rm_rg rm)[i := sh]), rm_epoch_counter := sb_cur_epoch s\<rparr>, d'')"
proof -
  let ?rm = "rm\<lparr>rm_rg := (rm_rg rm)[i := sh]\<rparr>"
  have fits1: "rm_fits ?rm d" using fits by (simp add: rm_fits_def)
  have i1: "i < unat (rm_region_cnt ?rm)" using i by simp
  have pb: "page_base ?rm = page_base rm" by (rule page_base_cong) simp
  have len: "i < length (rm_rg rm)" using fits i by (simp add: rm_fits_def)
  obtain d' where d': "write_header ?rm d i = (KV_EOK, d')" "rm_fits ?rm d'" "dev_pages d' = dev_pages d"
      "\<forall>j < dev_pages d. dev_page d' j =
        (if j = page_base rm i then enc_rh (rh_image (rm_rg ?rm ! i)) else dev_page d j)"
    using write_header_ok [OF fits1 i1, unfolded pb] by (elim exE conjE)
  have "dev_page d' (page_base rm k) = enc_rh (rh_image (rm_rg ?rm ! k))" if k: "k < unat (rm_region_cnt rm)" for k
  proof (cases "k = i")
    case True
    then show ?thesis using d'(4) page_base_ok(2) [OF fits i] by simp
  next
    case False
    then have "page_base rm k \<noteq> page_base rm i" using page_base_inj [OF fits k i] by blast
    then have "dev_page d' (page_base rm k) = dev_page d (page_base rm k)"
      using d'(4) page_base_ok(2) [OF fits k] by simp
    then show ?thesis using sync k False by (simp add: rm_synced_def)
  qed
  then have sync': "rm_synced ?rm d'" by (simp add: rm_synced_def pb)
  have low: "dev_page d' j = dev_page d j" if "j < 2" for j
    using that d'(4) page_base_not_sb [OF fits i] fits by (auto simp: rm_fits_def kRegionBasePage_def)
  have fits': "rm_fits rm d'" using d'(2) by (simp add: rm_fits_def)
  have "length (rm_rg ?rm) = unat (rm_region_cnt ?rm)" using fits by (simp add: rm_fits_def)
  from rm_load_ok [OF fits' sync' this _ _ _ cnt] sb low obtain d'' where
    "rm_load rm d' = ((KV_EOK, Some s), rm\<lparr>rm_rg := map clamp_live (rm_rg ?rm), rm_epoch_counter := sb_cur_epoch s\<rparr>, d'')"
    by auto
  then show ?thesis using d'(1) by auto
qed

text \<open>C23: Re-formatting with epoch 0 a device whose second superblock page holds a valid superblock of
  a different geometry does not take effect for the next open: that superblock has a later epoch,
  wins the comparison, and loading fails with the geometry mismatch again.\<close>

theorem region_format_keeps_stale_superblock:
  assumes fits: "rm_fits (rm_init cnt sz) d" and stale: "sb_valid (dev_page d 1)"
    and epoch: "0 < sb_cur_epoch (dec_sb (dev_page d 1))"
    and geom: "sb_region_cnt (dec_sb (dev_page d 1)) \<noteq> cnt \<or> sb_region_size_pages (dec_sb (dev_page d 1)) \<noteq> sz"
  shows "\<exists>rm' d' s d''. rm_format (rm_init cnt sz) d 0 now = (KV_EOK, rm', d') \<and>
    rm_load (rm_init cnt sz) d' = ((- KV_EINVAL, s), rm_init cnt sz, d'')"
proof -
  let ?rm = "rm_init cnt sz"
  obtain rm' d' where r: "rm_format ?rm d 0 now = (KV_EOK, rm', d')" "rm_fits rm' d'" "rm_epoch_counter rm' = 0"
      "\<forall>j < 2. dev_page d' j =
        (if j = sb_slot rm' then sb_page (sb_image rm' (dv_dev_id d) now) else dev_page d j)"
    using rm_format_ok [OF fits, of 0 now] by blast
  have slot: "sb_slot rm' = 0" using r(3) by (simp add: sb_slot_def)
  have p: "dev_page d' 0 = sb_page (sb_image rm' (dv_dev_id d) now)" "dev_page d' 1 = dev_page d 1"
    using r(4) slot by auto
  have "sb_best (dev_page d' 0) (dev_page d' 1) = Some (dec_sb (dev_page d' 1))"
    using sb_best_wins [of 1 "dev_page d'"] p stale epoch r(3) by (simp add: sb_page_image sb_image_fields)
  then have best: "sb_best (dev_page d' 0) (dev_page d' 1) = Some (dec_sb (dev_page d 1))" using p(2) by simp
  have "dev_ok d'" "2 \<le> dev_pages d'" using r(2) by (auto simp: rm_fits_def kRegionBasePage_def)
  from sb_load_best [OF this] best obtain d'' where "sb_load d' = ((KV_EOK, Some (dec_sb (dev_page d 1))), d'')"
    by auto
  then have "rm_load ?rm d' = ((- KV_EINVAL, Some (dec_sb (dev_page d 1))), ?rm, d'')"
    using geom by (auto simp: rm_load_def rm_init_def)
  then show ?thesis using r(1) by blast
qed

section \<open>Instances\<close>

lemma dev_demo_page: "k < 8 \<Longrightarrow> dev_page dev_demo k = zeros KV_PAGE_SIZE"
  by (simp add: dev_page_def dev_demo_def bslice_def zeros_def KV_PAGE_SIZE_def)

lemma sb_valid_zeros: "\<not> sb_valid (zeros KV_PAGE_SIZE)"
  by (simp add: sb_valid_def dec_sb_def le32_def zeros_def KV_PAGE_SIZE_def KV_SB_MAGIC_def)

lemma rm_demo_fits: "rm_fits (rm_init 2 3) dev_demo" "rm_fits (rm_init 1 6) dev_demo"
  by (simp_all add: rm_fits_def rm_init_def dev_demo_ok kRegionBasePage_def)

text \<open>Formatting again, with epoch 0, a device that was formatted with epoch 0.\<close>

theorem region_format_load_witness:
  "\<exists>rm1 d1 rm' d' s d''. rm_format (rm_init 2 3) dev_demo 0 7 = (KV_EOK, rm1, d1) \<and>
    sb_valid (dev_page d1 0) \<and> sb_cur_epoch (dec_sb (dev_page d1 0)) = 0 \<and>
    rm_format (rm_init 2 3) d1 0 9 = (KV_EOK, rm', d') \<and>
    rm_load (rm_init 2 3) d' = ((KV_EOK, Some s),
      (rm_init 2 3)\<lparr>rm_rg := replicate 2 (region_sh0\<lparr>rs_epoch := 0\<rparr>), rm_epoch_counter := 0\<rparr>, d'') \<and>
    sb_cur_epoch s = 0"
proof -
  obtain rm1 d1 where r: "rm_format (rm_init 2 3) dev_demo 0 7 = (KV_EOK, rm1, d1)" "rm_fits rm1 d1"
      "dev_pages d1 = dev_pages dev_demo" "rm_epoch_counter rm1 = 0"
      "\<forall>j < 2. dev_page d1 j =
        (if j = sb_slot rm1 then sb_page (sb_image rm1 (dv_dev_id dev_demo) 7) else dev_page dev_demo j)"
    using rm_format_ok [OF rm_demo_fits(1), of 0 7] by blast
  have slot: "sb_slot rm1 = 0" using r(4) by (simp add: sb_slot_def)
  have p: "dev_page d1 0 = sb_page (sb_image rm1 (dv_dev_id dev_demo) 7)" "dev_page d1 1 = zeros KV_PAGE_SIZE"
    using r(5) slot by (simp_all add: dev_demo_page)
  have fits: "rm_fits (rm_init 2 3) d1" using r(2,3) rm_demo_fits(1) by (simp add: rm_fits_def)
  have "\<forall>k < 2. k \<noteq> (if (0 :: u64) mod 2 = 0 then 0 else 1) \<longrightarrow>
      sb_valid (dev_page d1 k) \<longrightarrow> sb_cur_epoch (dec_sb (dev_page d1 k)) < 0"
    using p(2) sb_valid_zeros by (simp add: less_2_cases_iff)
  from region_format_load [OF fits this, of 9] r(1) p(1) r(4) sb_valid_image show ?thesis
    by (simp add: sb_page_image sb_image_fields)
qed

text \<open>The write of the second superblock fails after two of its bytes.\<close>

lemma torn_magic:
  "\<not> sb_valid (overwrite (zeros KV_PAGE_SIZE) 0 (take 2 (sb_page (sb_image rm i now))))"
  "overwrite (zeros KV_PAGE_SIZE) 0 (take 2 (sb_page (sb_image rm i now))) \<noteq> zeros KV_PAGE_SIZE"
proof -
  have "sb_magic (sb_image rm i now) = KV_SB_MAGIC" by (simp add: sb_image_def Let_def)
  then have two: "take 2 (sb_page (sb_image rm i now)) = take 2 (put_le32 KV_SB_MAGIC)"
    by (simp add: sb_page_def overwrite_def enc_sb_def put_le32_def)
  show "\<not> sb_valid (overwrite (zeros KV_PAGE_SIZE) 0 (take 2 (sb_page (sb_image rm i now))))"
    unfolding two
    by (simp add: sb_valid_def dec_sb_def overwrite_def put_le32_def le32_def zeros_def KV_PAGE_SIZE_def KV_SB_MAGIC_def)
  show "overwrite (zeros KV_PAGE_SIZE) 0 (take 2 (sb_page (sb_image rm i now))) \<noteq> zeros KV_PAGE_SIZE"
  proof
    assume "overwrite (zeros KV_PAGE_SIZE) 0 (take 2 (sb_page (sb_image rm i now))) = zeros KV_PAGE_SIZE"
    then have "overwrite (zeros KV_PAGE_SIZE) 0 (take 2 (put_le32 KV_SB_MAGIC)) ! 0 = zeros KV_PAGE_SIZE ! 0"
      using two by simp
    then show False by (simp add: overwrite_def put_le32_def zeros_def KV_PAGE_SIZE_def KV_SB_MAGIC_def)
  qed
qed

lemma write_two_bytes:
  assumes "dev_ok d" and "i < dev_pages d" and "length b = KV_PAGE_SIZE"
  shows "\<exists>d'. write_pages (d\<lparr>dv_os := [Sys_ok 2, Sys_err 5]\<rparr>) i b 1 = (- 5, d') \<and>
    dev_page d' i = overwrite (dev_page d i) 0 (take 2 b)"
proof -
  have len: "length (dv_data d) = dev_pages d * KV_PAGE_SIZE" "length (dv_data d) < 2 ^ 63"
    using assms(1) by (simp_all add: dev_ok_def)
  have fits: "i * KV_PAGE_SIZE + KV_PAGE_SIZE \<le> length (dv_data d)"
    using mult_le_mono1 [OF Suc_leI [OF assms(2)], of KV_PAGE_SIZE] len(1) by simp
  then have off: "trunc64 (i * KV_PAGE_SIZE) = i * KV_PAGE_SIZE" using len(2) by simp
  have "3 \<le> length b" using assms(3) by (simp add: KV_PAGE_SIZE_def)
  then obtain x y z p where b: "b = x # y # z # p" by (auto simp: numeral_3_eq_3 Suc_le_length_iff)
  have "bslice (i * KV_PAGE_SIZE) KV_PAGE_SIZE (overwrite (dv_data d) (i * KV_PAGE_SIZE) [x, y]) =
      overwrite (bslice (i * KV_PAGE_SIZE) KV_PAGE_SIZE (dv_data d)) 0 [x, y]"
    using fits by (simp add: bslice_def overwrite_def take_drop KV_PAGE_SIZE_def)
  then show ?thesis
    using off b fits assms(3) by (simp add: write_pages_def pwrite_at_def dev_page_def zeros_def KV_PAGE_SIZE_def)
qed

theorem superblock_survives_torn_write_witness:
  "\<exists>d1 d2 d3. sb_write (rm_init 2 3) dev_demo 7 = (KV_EOK, d1) \<and>
    sb_write ((rm_init 2 3)\<lparr>rm_epoch_counter := 1\<rparr>) (d1\<lparr>dv_os := [Sys_ok 2, Sys_err 5]\<rparr>) 8 = (- 5, d2) \<and>
    dev_page d2 1 \<noteq> dev_page d1 1 \<and> \<not> sb_valid (dev_page d2 1) \<and>
    sb_load (d2\<lparr>dv_os := []\<rparr>) = ((KV_EOK, Some (sb_image (rm_init 2 3) 0 7)), d3)"
proof -
  let ?rm = "rm_init 2 3"
  let ?rm' = "?rm\<lparr>rm_epoch_counter := 1\<rparr>"
  have p: "2 \<le> dev_pages dev_demo" "dv_dev_id dev_demo = 0" by (simp_all add: dev_demo_ok) (simp add: dev_demo_def)
  have slot: "sb_slot ?rm = 0" "sb_slot ?rm' = 1" by (simp_all add: sb_slot_def rm_init_def)
  have epoch: "rm_epoch_counter ?rm' = rm_epoch_counter ?rm + 1" "rm_epoch_counter ?rm' \<noteq> 0"
    by (simp_all add: rm_init_def)
  obtain d1 where d1: "sb_write ?rm dev_demo 7 = (KV_EOK, d1)" "dev_ok d1" "dev_pages d1 = 8" "dv_dev_id d1 = 0"
      "dev_page d1 1 = zeros KV_PAGE_SIZE"
    using sb_write_ok [OF dev_demo_ok(1) p(1), of ?rm 7] slot(1) p(2) by (auto simp: dev_demo_ok dev_demo_page)
  obtain d2 where d2: "sb_write ?rm' (d1\<lparr>dv_os := [Sys_ok 2, Sys_err 5]\<rparr>) 8 = (- 5, d2)"
      "dev_page d2 1 = overwrite (zeros KV_PAGE_SIZE) 0 (take 2 (sb_page (sb_image ?rm' 0 8)))"
    using write_two_bytes [OF d1(2), of 1 "sb_page (sb_image ?rm' 0 8)"] slot(2) d1(3-5)
    by (auto simp: sb_write_def sb_page_image)
  have "\<not> sb_valid (dev_page d2 1)" "dev_page d2 1 \<noteq> dev_page d1 1"
    unfolding d2(2) d1(5) by (rule torn_magic)+
  moreover from this(1) obtain d3 where "sb_load (d2\<lparr>dv_os := []\<rparr>) = ((KV_EOK, Some (sb_image ?rm 0 7)), d3)"
    using superblock_survives_torn_write [OF dev_demo_ok(1) p(1) d1(1) epoch d2(1)] slot(2) p(2) by auto
  ultimately show ?thesis using d1(1) d2(1) by blast
qed

text \<open>A device formatted for one geometry and epoch 1.\<close>

lemma demo_formatted:
  assumes "rm_fits (rm_init cnt sz) dev_demo"
  obtains rm d where "rm_format (rm_init cnt sz) dev_demo 1 7 = (KV_EOK, rm, d)" "rm_fits rm d" "rm_synced rm d"
    "rm_region_cnt rm = cnt" "rm_region_size_pages rm = sz" "dev_pages d = 8"
    "dev_page d 0 = zeros KV_PAGE_SIZE" "dev_page d 1 = sb_page (sb_image rm 0 7)"
    "rm_epoch_counter rm = 1"
proof -
  obtain rm d where r: "rm_format (rm_init cnt sz) dev_demo 1 7 = (KV_EOK, rm, d)" "rm_fits rm d" "rm_synced rm d"
      "dev_pages d = dev_pages dev_demo"
      "rm_region_cnt rm = rm_region_cnt (rm_init cnt sz)" "rm_region_size_pages rm = rm_region_size_pages (rm_init cnt sz)"
      "rm_epoch_counter rm = 1"
      "\<forall>j < 2. dev_page d j =
        (if j = sb_slot rm then sb_page (sb_image rm (dv_dev_id dev_demo) 7) else dev_page dev_demo j)"
    using rm_format_ok [OF assms, of 1 7] by blast
  have "sb_slot rm = 1" using r(7) by (simp add: sb_slot_def)
  then have "dev_page d 0 = zeros KV_PAGE_SIZE" "dev_page d 1 = sb_page (sb_image rm 0 7)"
    using r(8) by (simp_all add: dev_demo_page) (simp add: dev_demo_def)
  then show thesis using that [OF r(1-3)] r(4-7) by (simp add: rm_init_def dev_demo_ok)
qed

theorem region_header_persists_witness:
  "\<exists>rm d d' d'' s. rm_format (rm_init 2 3) dev_demo 1 7 = (KV_EOK, rm, d) \<and>
    write_header (rm\<lparr>rm_rg := (rm_rg rm)[1 := region_sh0\<lparr>rs_live_bytes := 5\<rparr>]\<rparr>) d 1 = (KV_EOK, d') \<and>
    rm_load rm d' = ((KV_EOK, Some s),
      rm\<lparr>rm_rg := map clamp_live ((rm_rg rm)[1 := region_sh0\<lparr>rs_live_bytes := 5\<rparr>]), rm_epoch_counter := sb_cur_epoch s\<rparr>, d'')"
proof -
  obtain rm d where r: "rm_format (rm_init 2 3) dev_demo 1 7 = (KV_EOK, rm, d)" "rm_fits rm d" "rm_synced rm d"
    "rm_region_cnt rm = 2" "rm_region_size_pages rm = 3"
    "dev_page d 0 = zeros KV_PAGE_SIZE" "dev_page d 1 = sb_page (sb_image rm 0 7)"
    using demo_formatted [OF rm_demo_fits(1)] by blast
  have "sb_best (dev_page d 0) (dev_page d 1) = Some (sb_image rm 0 7)"
    by (simp only: r(6,7)) (simp add: sb_best_def sb_valid_zeros sb_valid_image sb_page_image)
  from region_header_persists [OF r(2,3) _ this, of 1 "region_sh0\<lparr>rs_live_bytes := 5\<rparr>"] r(1,4,5) show ?thesis
    by (auto simp: sb_image_fields)
qed

theorem region_format_keeps_stale_superblock_witness:
  "\<exists>rm d rm' d' s d''. rm_format (rm_init 1 6) dev_demo 1 7 = (KV_EOK, rm, d) \<and>
    rm_format (rm_init 2 3) d 0 9 = (KV_EOK, rm', d') \<and>
    rm_load (rm_init 2 3) d' = ((- KV_EINVAL, s), rm_init 2 3, d'')"
proof -
  obtain rm d where r: "rm_format (rm_init 1 6) dev_demo 1 7 = (KV_EOK, rm, d)" "rm_fits rm d"
    "rm_region_cnt rm = 1" "dev_pages d = 8" "dev_page d 1 = sb_page (sb_image rm 0 7)" "rm_epoch_counter rm = 1"
    using demo_formatted [OF rm_demo_fits(2)] by blast
  have fits: "rm_fits (rm_init 2 3) d" using r(2,4) by (simp add: rm_fits_def rm_init_def kRegionBasePage_def)
  have "sb_valid (dev_page d 1)" "0 < sb_cur_epoch (dec_sb (dev_page d 1))"
    "sb_region_cnt (dec_sb (dev_page d 1)) \<noteq> 2 \<or> sb_region_size_pages (dec_sb (dev_page d 1)) \<noteq> 3"
    by (simp_all only: r(5) sb_page_image sb_valid_image) (simp_all add: sb_image_fields r(3,6))
  from region_format_keeps_stale_superblock [OF fits this, of 9] r(1) show ?thesis by auto
qed

end
