(* ===== verification/KV_Chunk.thy ===== *)
theory KV_Chunk
  imports KV_Codec KV_Crc32
begin

text \<open>
  The chunk format of \<open>src/chunk.hpp\<close> and \<open>src/chunk.cpp\<close>: a 64-byte header, a sequence of
  records each with an 8-byte header (or the slice of a stripe), padded to whole pages and
  checksummed as a whole, and the page checksums and stripe arithmetic the cache uses.  Offsets
  and lengths of the parser are 32-bit words because the code's bound checks wrap.  The lemmas
  show that what is encoded validates and parses back to the same records, that corrupted images
  are refused, and how many parts a stripe has.
\<close>

section \<open>Data\<close>

record chunk_hdr =
  ch_magic :: u32
  ch_crc32 :: u32
  ch_prefix_id :: u64
  ch_epoch :: u64
  ch_group_idx :: u32
  ch_n_tokens :: u32
  ch_ver :: u32
  ch_expire_ts :: u32
  ch_n_records :: u16
  ch_flags :: u16
  ch_total_len :: u32
  ch_stripe_idx :: u32
  ch_stripe_cnt :: u32
  ch_pad :: u64

record record_hdr =
  rd_layer_id :: u16
  rd_pad :: u16
  rd_kv_len :: u32

record kv_data_ref =
  dr_base :: bytes
  dr_off :: u32
  dr_len :: u32

record chunk_build =
  cb_prefix_id :: u64
  cb_epoch :: u64
  cb_group_idx :: u32
  cb_n_tokens :: u32
  cb_ver :: u32
  cb_expire_ts :: u32
  cb_flags :: u16
  cb_stripe_idx :: u32
  cb_stripe_cnt :: u32
  cb_recs :: "kv_data_ref list"
  cb_n_records :: u16
  cb_slice :: "bytes option"
  cb_slice_len :: u32

record rec_desc =
  rc_layer_id :: u16
  rc_off :: u32
  rc_len :: u32

definition enc_chunk_hdr :: "chunk_hdr \<Rightarrow> bytes" where
  "enc_chunk_hdr h = put_le32 (ch_magic h) @ put_le32 (ch_crc32 h) @ put_le64 (ch_prefix_id h) @
    put_le64 (ch_epoch h) @ put_le32 (ch_group_idx h) @ put_le32 (ch_n_tokens h) @ put_le32 (ch_ver h) @
    put_le32 (ch_expire_ts h) @ put_le16 (ch_n_records h) @ put_le16 (ch_flags h) @
    put_le32 (ch_total_len h) @ put_le32 (ch_stripe_idx h) @ put_le32 (ch_stripe_cnt h) @ put_le64 (ch_pad h)"

definition dec_chunk_hdr :: "bytes \<Rightarrow> chunk_hdr" where
  "dec_chunk_hdr b = \<lparr>ch_magic = le32 b, ch_crc32 = le32 (drop 4 b), ch_prefix_id = le64 (drop 8 b),
    ch_epoch = le64 (drop 16 b), ch_group_idx = le32 (drop 24 b), ch_n_tokens = le32 (drop 28 b),
    ch_ver = le32 (drop 32 b), ch_expire_ts = le32 (drop 36 b), ch_n_records = le16 (drop 40 b),
    ch_flags = le16 (drop 42 b), ch_total_len = le32 (drop 44 b), ch_stripe_idx = le32 (drop 48 b),
    ch_stripe_cnt = le32 (drop 52 b), ch_pad = le64 (drop 56 b)\<rparr>"

definition enc_record_hdr :: "record_hdr \<Rightarrow> bytes" where
  "enc_record_hdr r = put_le16 (rd_layer_id r) @ put_le16 (rd_pad r) @ put_le32 (rd_kv_len r)"

definition dec_record_hdr :: "bytes \<Rightarrow> record_hdr" where
  "dec_record_hdr b = \<lparr>rd_layer_id = le16 b, rd_pad = le16 (drop 2 b), rd_kv_len = le32 (drop 4 b)\<rparr>"

section \<open>Operations\<close>

definition chunk_len_pages :: "u32 \<Rightarrow> u32" where
  "chunk_len_pages total_len =
    ucast (page_align (of_nat KV_CHUNK_HDR_SIZE + ucast total_len) div of_nat KV_PAGE_SIZE)"

definition payload_npages :: "u64 \<Rightarrow> u32" where
  "payload_npages payload_len = ucast ((payload_len + of_nat KV_PAGE_SIZE - 1) div of_nat KV_PAGE_SIZE)"

definition pages_crc :: "bytes \<Rightarrow> nat \<Rightarrow> u32" where
  "pages_crc buf npages = crc32 (take (npages * KV_PAGE_SIZE) buf)"

definition pages_validate :: "bytes option \<Rightarrow> nat \<Rightarrow> u32 \<Rightarrow> int" where
  "pages_validate buf npages expected_crc =
    (case buf of
       None \<Rightarrow> - KV_EINVAL
     | Some b \<Rightarrow> if npages = 0 then - KV_EINVAL
                 else if pages_crc b npages = expected_crc then KV_EOK else - KV_ECRC)"

definition chunk_is_stripe :: "chunk_build \<Rightarrow> bool" where
  "chunk_is_stripe b \<longleftrightarrow> (ucast (cb_flags b) :: u32) AND KV_CHUNK_F_STRIPE \<noteq> 0"

definition chunk_build_total_len :: "chunk_build \<Rightarrow> u32" where
  "chunk_build_total_len b =
    (if chunk_is_stripe b then cb_slice_len b
     else ucast (foldl (\<lambda>t r. t + (8 + ucast (dr_len r))) (0 :: u64)
                  (take (unat (cb_n_records b)) (cb_recs b))))"

definition dref_bytes :: "kv_data_ref \<Rightarrow> bytes" where
  "dref_bytes r = bslice (unat (dr_off r)) (unat (dr_len r)) (dr_base r)"

text \<open>The record loop of the encoder, from record \<open>i\<close> on.\<close>

primrec chunk_put_recs :: "nat \<Rightarrow> kv_data_ref list \<Rightarrow> bytes" where
  "chunk_put_recs i [] = []"
| "chunk_put_recs i (r # rs) =
    enc_record_hdr \<lparr>rd_layer_id = of_nat i, rd_pad = 0, rd_kv_len = dr_len r\<rparr> @ dref_bytes r @
    chunk_put_recs (Suc i) rs"

definition chunk_body :: "chunk_build \<Rightarrow> bytes" where
  "chunk_body b =
    (if chunk_is_stripe b
     then (case cb_slice b of None \<Rightarrow> [] | Some s \<Rightarrow> take (unat (cb_slice_len b)) s)
     else chunk_put_recs 0 (take (unat (cb_n_records b)) (cb_recs b)))"

definition chunk_hdr_of :: "chunk_build \<Rightarrow> chunk_hdr" where
  "chunk_hdr_of b = \<lparr>ch_magic = KV_CK_MAGIC, ch_crc32 = 0, ch_prefix_id = cb_prefix_id b,
    ch_epoch = cb_epoch b, ch_group_idx = cb_group_idx b, ch_n_tokens = cb_n_tokens b, ch_ver = cb_ver b,
    ch_expire_ts = cb_expire_ts b, ch_n_records = (if chunk_is_stripe b then 0 else cb_n_records b),
    ch_flags = cb_flags b, ch_total_len = chunk_build_total_len b, ch_stripe_idx = cb_stripe_idx b,
    ch_stripe_cnt = cb_stripe_cnt b, ch_pad = 0\<rparr>"

definition chunk_encode :: "chunk_build \<Rightarrow> u32 \<times> bytes" where
  "chunk_encode b =
    (let total_len = chunk_build_total_len b;
         npages = chunk_len_pages total_len;
         out = zeros (unat npages * KV_PAGE_SIZE);
         out = overwrite out 0 (enc_chunk_hdr (chunk_hdr_of b));
         out = overwrite out KV_CHUNK_HDR_SIZE (chunk_body b);
         out = overwrite out 4 (put_le32 (crc32 out))
     in (npages, out))"

definition chunk_validate :: "bytes \<Rightarrow> u32 \<Rightarrow> int" where
  "chunk_validate buf npages =
    (let hdr = dec_chunk_hdr buf
     in if ch_magic hdr \<noteq> KV_CK_MAGIC then - KV_ECRC
        else if npages \<noteq> chunk_len_pages (ch_total_len hdr) then - KV_ECRC
        else let tmp = overwrite (take 64 buf) 4 (put_le32 0);
                 crc = crc32_partial 0 tmp;
                 crc = crc32_partial crc (bslice 64 (unat npages * KV_PAGE_SIZE - 64) buf)
             in if crc = ch_crc32 hdr then KV_EOK else - KV_ECRC)"

text \<open>The parser's loop: \<open>k\<close> records to go, position \<open>off\<close>, \<open>n\<close> records so far.  The first bound
  check adds a \<open>size_t\<close> and cannot wrap; the second adds two 32-bit values and can.\<close>

primrec chunk_parse_loop :: "nat \<Rightarrow> bytes \<Rightarrow> u32 \<Rightarrow> u32 \<Rightarrow> nat \<Rightarrow> nat \<Rightarrow> rec_desc list \<Rightarrow> int \<times> rec_desc list" where
  "chunk_parse_loop 0 buf lim off n cap recs = (int n, recs)"
| "chunk_parse_loop (Suc k) buf lim off n cap recs =
    (if (ucast off :: u64) + 8 > ucast lim then (- KV_EINVAL, recs)
     else let rh = dec_record_hdr (drop (unat off) buf);
              off = off + 8
          in if off + rd_kv_len rh > lim then (- KV_EINVAL, recs)
             else let recs = (if n < cap
                              then recs @ [\<lparr>rc_layer_id = rd_layer_id rh, rc_off = off, rc_len = rd_kv_len rh\<rparr>]
                              else recs)
                  in chunk_parse_loop k buf lim (off + rd_kv_len rh) (Suc n) cap recs)"

definition chunk_parse_records :: "bytes \<Rightarrow> nat \<Rightarrow> int \<times> rec_desc list" where
  "chunk_parse_records buf cap =
    (let hdr = dec_chunk_hdr buf
     in chunk_parse_loop (unat (ch_n_records hdr)) buf (of_nat KV_CHUNK_HDR_SIZE + ch_total_len hdr)
          (of_nat KV_CHUNK_HDR_SIZE) 0 cap [])"

definition stripe_split :: "u64 \<Rightarrow> u32 \<Rightarrow> int \<times> u32 option" where
  "stripe_split total_len unit =
    (if unit = 0 then (- KV_EINVAL, None)
     else let n = ucast ((total_len + ucast unit - 1) div ucast unit) :: u32;
              n = (if n = 0 then 1 else n)
          in (KV_EOK, Some n))"

section \<open>Images and lengths\<close>

interpretation c_chunk: fixed_codec enc_chunk_hdr dec_chunk_hdr 64
  by unfold_locales (simp_all add: enc_chunk_hdr_def dec_chunk_hdr_def)

interpretation c_rec: fixed_codec enc_record_hdr dec_record_hdr 8
  by unfold_locales (simp_all add: enc_record_hdr_def dec_record_hdr_def)

lemmas chunk_codec [simp] = c_chunk.length_enc c_chunk.dec_enc c_rec.length_enc c_rec.dec_enc

text \<open>A build the encoder can be called with: the records are there, their bytes are inside their
  buffers, and the chunk fits the 32-bit length field with room for its header and padding.\<close>

definition build_recs :: "chunk_build \<Rightarrow> kv_data_ref list" where
  "build_recs b = take (unat (cb_n_records b)) (cb_recs b)"

definition dref_ok :: "kv_data_ref \<Rightarrow> bool" where
  "dref_ok r \<longleftrightarrow> unat (dr_off r) + unat (dr_len r) \<le> length (dr_base r)"

definition recs_len :: "kv_data_ref list \<Rightarrow> nat" where
  "recs_len rs = sum_list (map (\<lambda>r. 8 + unat (dr_len r)) rs)"

definition build_ok :: "chunk_build \<Rightarrow> bool" where
  "build_ok b \<longleftrightarrow>
    (if chunk_is_stripe b
     then unat (cb_slice_len b) + 2 ^ 13 \<le> 2 ^ 32 \<and> (\<forall>s. cb_slice b = Some s \<longrightarrow> unat (cb_slice_len b) \<le> length s)
     else length (build_recs b) = unat (cb_n_records b) \<and> list_all dref_ok (build_recs b) \<and>
       recs_len (build_recs b) + 2 ^ 13 \<le> 2 ^ 32)"

lemma recs_len_simps [simp]: "recs_len [] = 0" "recs_len (r # rs) = 8 + unat (dr_len r) + recs_len rs"
  by (simp_all add: recs_len_def)

lemma length_dref_bytes [simp]: "dref_ok r \<Longrightarrow> length (dref_bytes r) = unat (dr_len r)"
  by (simp add: dref_ok_def dref_bytes_def)

lemma length_chunk_put_recs: "list_all dref_ok rs \<Longrightarrow> length (chunk_put_recs i rs) = recs_len rs"
  by (induction rs arbitrary: i) auto

lemma foldl_len_sum:
  assumes "unat t + recs_len rs < 2 ^ 64"
  shows "unat (foldl (\<lambda>t r. t + (8 + ucast (dr_len r))) (t :: u64) rs) = unat t + recs_len rs"
  using assms
proof (induction rs arbitrary: t)
  case (Cons r rs)
  have "unat (8 + ucast (dr_len r) :: u64) = 8 + unat (dr_len r)"
    using unat_width(3) [of "dr_len r"] by (subst unat_add_lem [THEN iffD1]) auto
  then have "unat (t + (8 + ucast (dr_len r)) :: u64) = unat t + (8 + unat (dr_len r))"
    using Cons.prems by (subst unat_add_lem [THEN iffD1]) auto
  with Cons show ?case by simp
qed simp

text \<open>The length of the body, in bytes.\<close>

definition body_len :: "chunk_build \<Rightarrow> nat" where
  "body_len b = (if chunk_is_stripe b then unat (cb_slice_len b) else recs_len (build_recs b))"

lemma total_len_ok:
  assumes "build_ok b"
  shows "unat (chunk_build_total_len b) = body_len b" and "body_len b + 2 ^ 13 \<le> 2 ^ 32"
    and "length (chunk_body b) \<le> body_len b"
proof -
  show len: "body_len b + 2 ^ 13 \<le> 2 ^ 32" using assms by (auto simp: build_ok_def body_len_def)
  show "unat (chunk_build_total_len b) = body_len b"
  proof (cases "chunk_is_stripe b")
    case False
    then have "unat (foldl (\<lambda>t r. t + (8 + ucast (dr_len r))) (0 :: u64) (build_recs b)) = recs_len (build_recs b)"
      using len by (subst foldl_len_sum) (simp_all add: body_len_def)
    then show ?thesis
      using False len by (simp add: chunk_build_total_len_def body_len_def build_recs_def [symmetric]
          unsigned_ucast_eq take_bit_nat_eq_self)
  qed (simp add: chunk_build_total_len_def body_len_def)
  show "length (chunk_body b) \<le> body_len b"
    using assms length_chunk_put_recs [of "build_recs b" 0]
    by (auto simp: chunk_body_def body_len_def build_ok_def build_recs_def split: option.splits)
qed

lemma chunk_len_pages_ok:
  assumes "unat t + 2 ^ 13 \<le> 2 ^ 32"
  shows "unat (chunk_len_pages t) = (64 + unat t + 4095) div 4096"
proof -
  have v: "unat (64 + ucast t :: u64) = 64 + unat t"
    using assms by (subst unat_add_lem [THEN iffD1]) auto
  have "unat (align_up (64 + ucast t) (2 ^ 12)) = (64 + unat t + 2 ^ 12 - 1) div 2 ^ 12 * 2 ^ 12"
    using unat_align_up [of 12 "64 + ucast t"] assms v by simp
  then have a: "unat (page_align (64 + ucast t)) = (64 + unat t + 4095) div 4096 * 4096"
    by (simp add: page_align_def KV_PAGE_SIZE_def)
  have "unat (page_align (64 + ucast t) div 4096) = (64 + unat t + 4095) div 4096"
    by (simp add: unat_div_distrib a)
  moreover have "(64 + unat t + 4095) div 4096 < 2 ^ 32" using assms by simp
  ultimately show ?thesis
    by (simp add: chunk_len_pages_def KV_CHUNK_HDR_SIZE_def KV_PAGE_SIZE_def unsigned_ucast_eq take_bit_nat_eq_self)
qed

lemma chunk_len_pages_room:
  assumes "unat t + 2 ^ 13 \<le> 2 ^ 32"
  shows "64 + unat t \<le> unat (chunk_len_pages t) * KV_PAGE_SIZE"
  using div_mult_mod_eq [of "64 + unat t + 4095" 4096] mod_less_divisor [of 4096 "64 + unat t + 4095"]
  unfolding chunk_len_pages_ok [OF assms] KV_PAGE_SIZE_def by linarith

text \<open>The encoder's output in one piece.\<close>

definition chunk_img :: "chunk_build \<Rightarrow> u32 \<Rightarrow> bytes" where
  "chunk_img b crc = enc_chunk_hdr ((chunk_hdr_of b)\<lparr>ch_crc32 := crc\<rparr>) @ chunk_body b @
    zeros (unat (chunk_len_pages (chunk_build_total_len b)) * KV_PAGE_SIZE - (64 + length (chunk_body b)))"

lemma length_chunk_img:
  assumes "build_ok b"
  shows "length (chunk_img b crc) = unat (chunk_len_pages (chunk_build_total_len b)) * KV_PAGE_SIZE"
  using chunk_len_pages_room [of "chunk_build_total_len b"] total_len_ok [OF assms]
  by (simp add: chunk_img_def)

lemma overwrite_crc:
  "overwrite (enc_chunk_hdr h @ rest) 4 (put_le32 c) = enc_chunk_hdr (h\<lparr>ch_crc32 := c\<rparr>) @ rest"
  by (simp add: overwrite_def enc_chunk_hdr_def)

lemma chunk_encode_img:
  assumes "build_ok b"
  shows "chunk_encode b = (chunk_len_pages (chunk_build_total_len b), chunk_img b (crc32 (chunk_img b 0)))"
proof -
  let ?n = "unat (chunk_len_pages (chunk_build_total_len b)) * KV_PAGE_SIZE"
  have room: "64 + length (chunk_body b) \<le> ?n"
    using chunk_len_pages_room [of "chunk_build_total_len b"] total_len_ok [OF assms] by simp
  then have "overwrite (overwrite (zeros ?n) 0 (enc_chunk_hdr (chunk_hdr_of b))) KV_CHUNK_HDR_SIZE (chunk_body b)
      = enc_chunk_hdr (chunk_hdr_of b) @ chunk_body b @ zeros (?n - (64 + length (chunk_body b)))"
    by (simp add: overwrite_def KV_CHUNK_HDR_SIZE_def)
  also have "\<dots> = chunk_img b 0" by (simp add: chunk_img_def chunk_hdr_of_def)
  finally show ?thesis
    by (simp add: chunk_encode_def Let_def overwrite_crc chunk_img_def)
qed

section \<open>Validation and parsing\<close>

lemma chunk_validate_crc:
  assumes "length buf = unat npages * KV_PAGE_SIZE" and "64 \<le> length buf"
  shows "chunk_validate buf npages =
    (if ch_magic (dec_chunk_hdr buf) = KV_CK_MAGIC \<and> npages = chunk_len_pages (ch_total_len (dec_chunk_hdr buf)) \<and>
        crc32 (overwrite buf 4 (put_le32 0)) = ch_crc32 (dec_chunk_hdr buf) then KV_EOK else - KV_ECRC)"
proof -
  have "bslice 64 (unat npages * KV_PAGE_SIZE - 64) buf = drop 64 buf"
    using assms by (simp add: bslice_def)
  moreover have "overwrite (take 64 buf) 4 (put_le32 0) @ drop 64 buf = overwrite buf 4 (put_le32 0)"
    using assms(2) overwrite_append_left [of 4 "put_le32 0" "take 64 buf" "drop 64 buf"] by simp
  ultimately have c: "crc32_partial (crc32_partial 0 (overwrite (take 64 buf) 4 (put_le32 0)))
      (bslice 64 (unat npages * KV_PAGE_SIZE - 64) buf) = crc32 (overwrite buf 4 (put_le32 0))"
    by (simp add: crc32_partial_append crc32_def)
  show ?thesis unfolding chunk_validate_def Let_def c by auto
qed

lemma chunk_img_valid:
  assumes "build_ok b"
  shows "chunk_validate (chunk_img b (crc32 (chunk_img b 0))) (chunk_len_pages (chunk_build_total_len b)) = KV_EOK"
proof -
  let ?c = "crc32 (chunk_img b 0)"
  have dec: "dec_chunk_hdr (chunk_img b ?c) = (chunk_hdr_of b)\<lparr>ch_crc32 := ?c\<rparr>" by (simp add: chunk_img_def)
  have "overwrite (chunk_img b ?c) 4 (put_le32 0) = chunk_img b 0"
    by (simp add: chunk_img_def overwrite_crc)
  moreover have "64 \<le> length (chunk_img b ?c)" by (simp add: chunk_img_def)
  ultimately show ?thesis
    using chunk_validate_crc [OF length_chunk_img [OF assms], of ?c]
    by (simp add: dec chunk_hdr_of_def)
qed

text \<open>What parsing the records at offset \<open>off\<close> yields.\<close>

primrec rec_descs :: "nat \<Rightarrow> nat \<Rightarrow> kv_data_ref list \<Rightarrow> rec_desc list" where
  "rec_descs i off [] = []"
| "rec_descs i off (r # rs) =
    \<lparr>rc_layer_id = of_nat i, rc_off = of_nat (off + 8), rc_len = dr_len r\<rparr> #
    rec_descs (Suc i) (off + 8 + unat (dr_len r)) rs"

lemma length_rec_descs [simp]: "length (rec_descs i off rs) = length rs"
  by (induction rs arbitrary: i off) auto

lemma chunk_parse_loop_ok:
  assumes "list_all dref_ok rs" and "drop off buf = chunk_put_recs i rs @ post"
    and "off + recs_len rs = unat lim"
  shows "chunk_parse_loop (length rs) buf lim (of_nat off) n (n + length rs) acc =
    (int (n + length rs), acc @ rec_descs i off rs)"
  using assms
proof (induction rs arbitrary: i off n acc)
  case (Cons r rs)
  have lim: "unat lim < 2 ^ 32" using unat_width(3) [of lim] by simp
  have room: "off + 8 + unat (dr_len r) + recs_len rs = unat lim" using Cons.prems(3) by simp
  have u: "unat (of_nat off :: u32) = off" "unat (of_nat (off + 8) :: u32) = off + 8"
    using room lim by (simp_all del: of_nat_add)
  have w: "(of_nat off :: u32) + 8 = of_nat (off + 8)" by simp
  have next_off: "(of_nat (off + 8) :: u32) + dr_len r = of_nat (off + 8 + unat (dr_len r))"
    by (simp add: add.assoc)
  have "unat (of_nat (off + 8 + unat (dr_len r)) :: u32) = off + 8 + unat (dr_len r)"
    using room lim by (simp del: of_nat_add)
  then have bound: "\<not> (of_nat (off + 8) :: u32) + dr_len r > lim"
    using room by (simp add: next_off word_less_nat_alt)
  have "unat ((ucast (of_nat off :: u32) :: u64) + 8) = off + 8"
    using u room lim by (subst unat_add_lem [THEN iffD1]) auto
  then have bound8: "\<not> (ucast (of_nat off :: u32) :: u64) + 8 > ucast lim"
    using room by (simp add: word_less_nat_alt)
  have dec: "dec_record_hdr (drop off buf) = \<lparr>rd_layer_id = of_nat i, rd_pad = 0, rd_kv_len = dr_len r\<rparr>"
    using Cons.prems(2) by simp
  have "drop (off + 8 + unat (dr_len r)) buf = drop (8 + unat (dr_len r)) (drop off buf)"
    by (simp add: ac_simps)
  also have "\<dots> = chunk_put_recs (Suc i) rs @ post"
    unfolding Cons.prems(2) using Cons.prems(1) by simp
  finally have "chunk_parse_loop (length rs) buf lim (of_nat (off + 8 + unat (dr_len r))) (Suc n) (Suc n + length rs)
      (acc @ [\<lparr>rc_layer_id = of_nat i, rc_off = of_nat (off + 8), rc_len = dr_len r\<rparr>]) =
      (int (Suc n + length rs), (acc @ [\<lparr>rc_layer_id = of_nat i, rc_off = of_nat (off + 8), rc_len = dr_len r\<rparr>]) @
        rec_descs (Suc i) (off + 8 + unat (dr_len r)) rs)"
    using Cons.prems(1) room by (intro Cons.IH) simp_all
  then show ?case
    using bound bound8 by (simp add: Let_def u(1) dec w next_off del: of_nat_add)
qed simp

lemma chunk_parse_img:
  assumes "build_ok b" and "\<not> chunk_is_stripe b"
  shows "chunk_parse_records (chunk_img b crc) (unat (cb_n_records b)) =
    (int (unat (cb_n_records b)), rec_descs 0 64 (build_recs b))"
proof -
  let ?rs = "build_recs b"
  have ok: "length ?rs = unat (cb_n_records b)" "list_all dref_ok ?rs" "recs_len ?rs + 2 ^ 13 \<le> 2 ^ 32"
    using assms by (auto simp: build_ok_def)
  have body: "chunk_body b = chunk_put_recs 0 ?rs" using assms(2) by (simp add: chunk_body_def build_recs_def)
  have "unat (64 + chunk_build_total_len b) = 64 + recs_len ?rs"
    using total_len_ok [OF assms(1)] assms(2) ok(3)
    by (subst unat_add_lem [THEN iffD1]) (auto simp: body_len_def)
  then have "chunk_parse_loop (length ?rs) (chunk_img b crc) (64 + chunk_build_total_len b) (of_nat 64) 0 (0 + length ?rs) [] =
      (int (0 + length ?rs), [] @ rec_descs 0 64 ?rs)"
    by (intro chunk_parse_loop_ok [OF ok(2)]) (simp_all add: chunk_img_def body)
  moreover have "dec_chunk_hdr (chunk_img b crc) = (chunk_hdr_of b)\<lparr>ch_crc32 := crc\<rparr>" by (simp add: chunk_img_def)
  ultimately show ?thesis
    using assms(2) ok(1) by (simp add: chunk_parse_records_def Let_def chunk_hdr_of_def KV_CHUNK_HDR_SIZE_def)
qed

text \<open>The descriptors lead to the records' bytes.\<close>

lemma rec_descs_bytes:
  assumes "list_all dref_ok rs" and "drop off buf = chunk_put_recs i rs @ post"
    and "off + recs_len rs < 2 ^ 32" and "k < length rs"
  shows "bslice (unat (rc_off (rec_descs i off rs ! k))) (unat (rc_len (rec_descs i off rs ! k))) buf = dref_bytes (rs ! k) \<and>
    rc_layer_id (rec_descs i off rs ! k) = of_nat (i + k)"
  using assms
proof (induction rs arbitrary: i off k)
  case (Cons r rs)
  have "drop (off + 8) buf = drop 8 (drop off buf)" "drop (off + 8 + unat (dr_len r)) buf = drop (8 + unat (dr_len r)) (drop off buf)"
    by (simp_all add: ac_simps)
  then have d: "drop (off + 8) buf = dref_bytes r @ chunk_put_recs (Suc i) rs @ post"
    "drop (off + 8 + unat (dr_len r)) buf = chunk_put_recs (Suc i) rs @ post"
    unfolding Cons.prems(2) using Cons.prems(1) by simp_all
  show ?case
  proof (cases k)
    case 0
    have "unat (of_nat (off + 8) :: u32) = off + 8" using Cons.prems(3) by (simp del: of_nat_add)
    then show ?thesis using 0 d(1) Cons.prems(1) by (simp add: bslice_def del: of_nat_add)
  next
    case (Suc m)
    then show ?thesis
      using Cons.prems Cons.IH [OF _ d(2), of m] by (simp add: ac_simps)
  qed
qed simp

section \<open>Properties\<close>

text \<open>C32: Encoding then decoding a chunk is the identity: the image has the announced number of
  pages and validates; an image of records parses to as many descriptors as there were records,
  numbered in order, each leading to exactly its record's bytes; an image of a stripe slice
  carries the slice after the header and no records.\<close>

theorem chunk_roundtrip:
  assumes "build_ok b"
  shows "\<exists>n out. chunk_encode b = (n, out) \<and> length out = unat n * KV_PAGE_SIZE \<and> chunk_validate out n = KV_EOK \<and>
    (chunk_is_stripe b \<longrightarrow> chunk_parse_records out 0 = (0, []) \<and>
      (\<forall>s. cb_slice b = Some s \<longrightarrow> bslice KV_CHUNK_HDR_SIZE (unat (cb_slice_len b)) out = take (unat (cb_slice_len b)) s)) \<and>
    (\<not> chunk_is_stripe b \<longrightarrow>
      (\<exists>ds. chunk_parse_records out (unat (cb_n_records b)) = (int (unat (cb_n_records b)), ds) \<and>
        length ds = unat (cb_n_records b) \<and>
        (\<forall>k < unat (cb_n_records b). rc_layer_id (ds ! k) = of_nat k \<and>
          bslice (unat (rc_off (ds ! k))) (unat (rc_len (ds ! k))) out = dref_bytes (cb_recs b ! k))))"
proof -
  let ?n = "chunk_len_pages (chunk_build_total_len b)" and ?out = "chunk_img b (crc32 (chunk_img b 0))"
  have stripe: "chunk_parse_records ?out 0 = (0, []) \<and>
      (\<forall>s. cb_slice b = Some s \<longrightarrow> bslice KV_CHUNK_HDR_SIZE (unat (cb_slice_len b)) ?out = take (unat (cb_slice_len b)) s)"
    if "chunk_is_stripe b"
    using that assms
    by (auto simp: chunk_parse_records_def chunk_img_def chunk_hdr_of_def chunk_body_def bslice_def
        KV_CHUNK_HDR_SIZE_def build_ok_def)
  have recs: "rc_layer_id (rec_descs 0 64 (build_recs b) ! k) = of_nat k \<and>
      bslice (unat (rc_off (rec_descs 0 64 (build_recs b) ! k))) (unat (rc_len (rec_descs 0 64 (build_recs b) ! k))) ?out =
        dref_bytes (cb_recs b ! k)"
    if s: "\<not> chunk_is_stripe b" and k: "k < unat (cb_n_records b)" for k
  proof -
    have ok: "length (build_recs b) = unat (cb_n_records b)" "list_all dref_ok (build_recs b)"
      "64 + recs_len (build_recs b) < 2 ^ 32"
      using s assms by (auto simp: build_ok_def)
    have "drop 64 ?out = chunk_put_recs 0 (build_recs b) @
        zeros (unat ?n * KV_PAGE_SIZE - (64 + length (chunk_body b)))"
      using s by (simp add: chunk_img_def chunk_body_def build_recs_def)
    from rec_descs_bytes [OF ok(2) this ok(3), of k] ok(1) k show ?thesis by (simp add: build_recs_def)
  qed
  show ?thesis
    using chunk_encode_img [OF assms] length_chunk_img [OF assms] chunk_img_valid [OF assms] stripe recs
      chunk_parse_img [OF assms] assms
    by (intro exI [of _ ?n] exI [of _ ?out]) (auto simp: build_ok_def)
qed

text \<open>C33: A chunk image that validates stops validating when a run of at most four bytes after the
  checksum field is changed, whatever the change does to the header.\<close>

theorem chunk_validate_detects_burst:
  assumes valid: "chunk_validate (pre @ a @ post) n = KV_EOK"
    and len: "length (pre @ a @ post) = unat n * KV_PAGE_SIZE" "0 < n" "8 \<le> length pre"
    and burst: "length a' = length a" "length a \<le> 4" "a' \<noteq> a"
  shows "chunk_validate (pre @ a' @ post) n = - KV_ECRC"
proof -
  have pos: "0 < unat n" using len(2) by (simp add: word_less_nat_alt)
  then have big: "64 \<le> unat n * KV_PAGE_SIZE" by (cases "unat n") (auto simp: KV_PAGE_SIZE_def)
  have len': "length (pre @ a' @ post) = unat n * KV_PAGE_SIZE" using len(1) burst(1) by simp
  have crc: "ch_crc32 (dec_chunk_hdr (pre @ x)) = le32 (drop 4 pre)" for x
    using len(3) by (simp add: dec_chunk_hdr_def le32_def nth_append)
  have ov: "overwrite (pre @ x @ post) 4 (put_le32 0) = overwrite pre 4 (put_le32 0) @ x @ post" for x
    using len(3) by (intro overwrite_append_left) simp
  have "crc32 (overwrite pre 4 (put_le32 0) @ a @ post) = le32 (drop 4 pre)"
    using valid chunk_validate_crc [OF len(1)] big len(1) by (simp add: crc ov kv_errs split: if_splits)
  moreover have "crc32 (overwrite pre 4 (put_le32 0) @ a' @ post) \<noteq> crc32 (overwrite pre 4 (put_le32 0) @ a @ post)"
    using burst by (intro crc32_burst) simp_all
  ultimately show ?thesis
    using chunk_validate_crc [OF len'] big len' by (simp add: crc ov)
qed

text \<open>C34: The page checksum kept in the index refuses any read whose pages differ from the written
  ones in a run of at most four bytes.\<close>

theorem pages_validate_detects_burst:
  assumes "pages_validate (Some (pre @ a @ post)) n crc = KV_EOK" and "length (pre @ a @ post) = n * KV_PAGE_SIZE"
    and "length a' = length a" and "length a \<le> 4" and "a' \<noteq> a"
  shows "pages_validate (Some (pre @ a' @ post)) n crc = - KV_ECRC"
proof -
  have n: "n \<noteq> 0" and "crc32 (pre @ a @ post) = crc"
    using assms(1,2) by (auto simp: pages_validate_def pages_crc_def kv_errs split: if_splits)
  then have "crc32 (pre @ a' @ post) \<noteq> crc" using crc32_burst [of a' a pre post] assms(3-5) by auto
  with n assms(2,3) show ?thesis by (simp add: pages_validate_def pages_crc_def)
qed

text \<open>C35: A stripe is split into the least number of units that covers its bytes, and at least one.\<close>

theorem stripe_split_covers:
  assumes "unit \<noteq> 0" and "unat len + unat unit \<le> 2 ^ 64" and "unat len < unat unit * (2 ^ 32 - 1)"
  shows "\<exists>n. stripe_split len unit = (KV_EOK, Some n) \<and> 0 < n \<and> unat len \<le> unat n * unat unit \<and>
    (\<forall>m. 0 < m \<and> unat len \<le> m * unat unit \<longrightarrow> unat n \<le> m)"
proof -
  let ?u = "unat unit" and ?t = "unat len"
  have u: "0 < ?u" using assms(1) by (simp add: unat_gt_0)
  have "unat (len + ucast unit - 1) = ?t + ?u - 1"
  proof -
    have "1 \<le> (ucast unit :: u64)" using u by (simp add: word_le_nat_alt)
    then have "unat (ucast unit - 1 :: u64) = ?u - 1" by (simp add: unat_sub)
    then have "unat (len + (ucast unit - 1)) = ?t + (?u - 1)"
      using assms(2) u by (subst unat_add_lem [THEN iffD1]) auto
    then show ?thesis using u by (simp add: algebra_simps)
  qed
  then have q: "unat ((len + ucast unit - 1) div ucast unit) = (?t + ?u - 1) div ?u" by (simp add: unat_div_distrib)
  have "(?t + ?u - 1) div ?u < 2 ^ 32"
    using assms(3) u by (simp add: less_mult_imp_div_less algebra_simps)
  then have c: "unat (ucast ((len + ucast unit - 1) div ucast unit) :: u32) = (?t + ?u - 1) div ?u"
    by (simp add: unsigned_ucast_eq take_bit_nat_eq_self q)
  define n :: u32 where "n = (let n = ucast ((len + ucast unit - 1) div ucast unit) in if n = 0 then 1 else n)"
  have split: "stripe_split len unit = (KV_EOK, Some n)" using assms(1) by (simp add: stripe_split_def n_def Let_def)
  have n: "unat n = max 1 ((?t + ?u - 1) div ?u)"
    using c by (auto simp: n_def Let_def unat_eq_zero [symmetric] simp del: unat_eq_zero)
  have cover: "?t \<le> (?t + ?u - 1) div ?u * ?u"
    using u div_mult_mod_eq [of "?t + ?u - 1" ?u] mod_less_divisor [OF u, of "?t + ?u - 1"] by linarith
  have "?t \<le> unat n * ?u" unfolding n by (rule order_trans [OF cover mult_le_mono1]) simp
  moreover have "unat n \<le> m" if m: "0 < m" "?t \<le> m * ?u" for m
  proof -
    have "?t + ?u - 1 < Suc m * ?u" using m(2) u by simp
    then have "(?t + ?u - 1) div ?u < Suc m" by (rule less_mult_imp_div_less)
    then show ?thesis using n m(1) by simp
  qed
  moreover have "0 < n" using n by (auto simp: word_less_nat_alt)
  ultimately show ?thesis using split by blast
qed

text \<open>C36: The result of the parser does not tell an error from a success.  Every well-formed build of
  eleven records encodes to a chunk that validates and parses to the result 11; and 11 is also the
  error returned for every chunk that announces records but is too short for a record header.
  The second bound check wraps at 32 bits: a chunk of one record whose length field reaches past
  4 GiB from the start of the chunk is accepted however short the chunk is.\<close>

theorem chunk_parse_errors_ambiguous:
  assumes b: "build_ok b" "\<not> chunk_is_stripe b" "unat (cb_n_records b) = 11"
    and short: "ch_n_records h \<noteq> 0" "ch_total_len h < 8"
    and long: "ch_n_records h' = 1" "8 \<le> ch_total_len h'" "64 + unat (ch_total_len h') < 2 ^ 32"
      "2 ^ 32 \<le> 72 + unat (rd_kv_len r)"
  shows "(\<exists>n out ds. chunk_encode b = (n, out) \<and> chunk_validate out n = KV_EOK \<and> chunk_parse_records out 11 = (11, ds) \<and>
      length ds = 11) \<and>
    chunk_parse_records (enc_chunk_hdr h @ rest) cap = (11, []) \<and>
    fst (chunk_parse_records (enc_chunk_hdr h' @ enc_record_hdr r @ rest) cap) = 1"
proof (intro conjI)
  show "\<exists>n out ds. chunk_encode b = (n, out) \<and> chunk_validate out n = KV_EOK \<and> chunk_parse_records out 11 = (11, ds) \<and>
      length ds = 11"
    using chunk_encode_img [OF b(1)] chunk_img_valid [OF b(1)] chunk_parse_img [OF b(1,2)] b by (auto simp: build_ok_def)
  obtain k where k: "unat (ch_n_records h) = Suc k" using short(1) by (metis not0_implies_Suc unat_eq_zero)
  have "64 + ch_total_len h < 72" using short(2) by (simp add: word_less_nat_alt unat_word_ariths(1))
  then show "chunk_parse_records (enc_chunk_hdr h @ rest) cap = (11, [])"
    using k by (simp add: chunk_parse_records_def KV_CHUNK_HDR_SIZE_def KV_EINVAL_def word_less_nat_alt)
  have "72 \<le> 64 + ch_total_len h'" using long(2,3) by (simp add: word_le_nat_alt unat_word_ariths(1))
  moreover have "72 + rd_kv_len r < 72"
    using long(4) unat_width(3) [of "rd_kv_len r"] by (simp add: word_less_nat_alt unat_word_ariths(1) mod_if) arith
  ultimately have "\<not> 64 + ch_total_len h' < 72" "\<not> 64 + ch_total_len h' < 72 + rd_kv_len r" by auto
  then show "fst (chunk_parse_records (enc_chunk_hdr h' @ enc_record_hdr r @ rest) cap) = 1"
    using long(1) by (simp add: chunk_parse_records_def KV_CHUNK_HDR_SIZE_def word_less_nat_alt Let_def)
qed

section \<open>Instances\<close>

definition build_demo :: chunk_build where
  "build_demo = \<lparr>cb_prefix_id = 7, cb_epoch = 1, cb_group_idx = 2, cb_n_tokens = 32, cb_ver = 5, cb_expire_ts = 0,
    cb_flags = 0, cb_stripe_idx = 0, cb_stripe_cnt = 1,
    cb_recs = [\<lparr>dr_base = [1, 2, 3, 4], dr_off = 1, dr_len = 2\<rparr>, \<lparr>dr_base = [9], dr_off = 0, dr_len = 1\<rparr>],
    cb_n_records = 2, cb_slice = None, cb_slice_len = 0\<rparr>"

lemma build_demo_ok: "build_ok build_demo" "\<not> chunk_is_stripe build_demo"
  by (simp_all add: build_ok_def build_demo_def chunk_is_stripe_def build_recs_def dref_ok_def)

text \<open>Eleven records of one byte, a chunk too short for a record header, and a record that claims nearly
  4 GiB in a chunk of 8 bytes.\<close>

definition build11_demo :: chunk_build where
  "build11_demo = build_demo\<lparr>cb_recs := replicate 11 \<lparr>dr_base = [9], dr_off = 0, dr_len = 1\<rparr>, cb_n_records := 11\<rparr>"

theorem chunk_parse_errors_ambiguous_witness:
  "(\<exists>n out ds. chunk_encode build11_demo = (n, out) \<and> chunk_validate out n = KV_EOK \<and>
      chunk_parse_records out 11 = (11, ds) \<and> length ds = 11) \<and>
   chunk_parse_records (enc_chunk_hdr ((chunk_hdr_of build_demo)\<lparr>ch_n_records := 1, ch_total_len := 0\<rparr>) @ []) 11 = (11, []) \<and>
   fst (chunk_parse_records (enc_chunk_hdr ((chunk_hdr_of build_demo)\<lparr>ch_n_records := 1, ch_total_len := 8\<rparr>) @
     enc_record_hdr \<lparr>rd_layer_id = 0, rd_pad = 0, rd_kv_len = 0xFFFFFFFF\<rparr> @ []) 11) = 1"
proof -
  have eleven: "replicate 11 r = [r, r, r, r, r, r, r, r, r, r, r]" for r :: kv_data_ref by (simp add: eval_nat_numeral)
  have "build_ok build11_demo" "\<not> chunk_is_stripe build11_demo" "unat (cb_n_records build11_demo) = 11"
    by (simp_all add: build_ok_def build_demo_def build11_demo_def chunk_is_stripe_def build_recs_def dref_ok_def eleven)
  then show ?thesis by (intro chunk_parse_errors_ambiguous) simp_all
qed

theorem chunk_roundtrip_witness:
  "\<exists>n out ds. chunk_encode build_demo = (n, out) \<and> chunk_validate out n = KV_EOK \<and>
    chunk_parse_records out 2 = (2, ds) \<and>
    bslice (unat (rc_off (ds ! 0))) (unat (rc_len (ds ! 0))) out = [2, 3] \<and>
    bslice (unat (rc_off (ds ! 1))) (unat (rc_len (ds ! 1))) out = [9]"
proof -
  have two: "unat (cb_n_records build_demo) = 2" by (simp add: build_demo_def)
  have d: "dref_bytes (cb_recs build_demo ! 0) = [2, 3]" "dref_bytes (cb_recs build_demo ! 1) = [9]"
    by (simp_all add: build_demo_def dref_bytes_def bslice_def)
  show ?thesis
    using chunk_roundtrip [OF build_demo_ok(1)] build_demo_ok(2) d unfolding two by fastforce
qed

theorem chunk_validate_detects_burst_witness:
  "\<exists>pre a post n. chunk_encode build_demo = (n, pre @ a @ post) \<and>
    chunk_validate (pre @ map NOT a @ post) n = - KV_ECRC"
proof -
  let ?n = "chunk_len_pages (chunk_build_total_len build_demo)"
  let ?out = "chunk_img build_demo (crc32 (chunk_img build_demo 0))"
  have n: "unat ?n = 1"
    using total_len_ok [OF build_demo_ok(1)]
    by (subst chunk_len_pages_ok) (simp_all add: body_len_def build_demo_ok build_recs_def build_demo_def)
  have len: "length ?out = unat ?n * KV_PAGE_SIZE" by (rule length_chunk_img [OF build_demo_ok(1)])
  have split: "?out = take 64 ?out @ take 4 (drop 64 ?out) @ drop 68 ?out"
    using append_take_drop_id [of 64 ?out] append_take_drop_id [of 4 "drop 64 ?out"] by simp
  have four: "length (take 4 (drop 64 ?out)) = 4" "length (take 64 ?out) = 64"
    using len n by (simp_all add: KV_PAGE_SIZE_def)
  have ne: "map NOT (take 4 (drop 64 ?out)) \<noteq> take 4 (drop 64 ?out)"
  proof
    assume "map NOT (take 4 (drop 64 ?out)) = take 4 (drop 64 ?out)"
    then have "NOT (take 4 (drop 64 ?out) ! 0) = take 4 (drop 64 ?out) ! 0" using four(1) by (metis nth_map zero_less_numeral)
    then have "bit (NOT (take 4 (drop 64 ?out) ! 0)) 0 = bit (take 4 (drop 64 ?out) ! 0) 0" by (rule arg_cong)
    then show False by (simp only: bit_not_iff) simp
  qed
  have valid: "chunk_validate (take 64 ?out @ take 4 (drop 64 ?out) @ drop 68 ?out) ?n = KV_EOK"
    using chunk_img_valid [OF build_demo_ok(1)] split by simp
  have "chunk_validate (take 64 ?out @ map NOT (take 4 (drop 64 ?out)) @ drop 68 ?out) ?n = - KV_ECRC"
    using four ne len n by (intro chunk_validate_detects_burst [OF valid])
      (simp_all add: split [symmetric] word_less_nat_alt del: append_take_drop_id)
  then show ?thesis using chunk_encode_img [OF build_demo_ok(1)] split by metis
qed

theorem pages_validate_detects_burst_witness:
  "pages_validate (Some ([1] @ [3, 2] @ zeros (KV_PAGE_SIZE - 3))) 1 (crc32 ([1] @ [2, 2] @ zeros (KV_PAGE_SIZE - 3))) = - KV_ECRC"
  by (rule pages_validate_detects_burst [where a = "[2, 2]"])
    (simp_all add: pages_validate_def pages_crc_def KV_PAGE_SIZE_def)

theorem stripe_split_covers_witness:
  "\<exists>n. stripe_split 1000000 262144 = (KV_EOK, Some n) \<and> unat n = 4"
proof -
  obtain n where n: "stripe_split 1000000 262144 = (KV_EOK, Some n)" "1000000 \<le> unat n * 262144" "unat n \<le> 4"
    using stripe_split_covers [of 262144 1000000] by auto
  then show ?thesis by (intro exI [of _ n]) auto
qed

end
