(* ===== verification/KV_Cuckoo.thy ===== *)
theory KV_Cuckoo
  imports KV_Hash "HOL-Library.Multiset"
begin

text \<open>
  The cuckoo filter of \<open>src/cuckoo.cpp\<close>: buckets of four 8-bit fingerprints, each fingerprint
  stored in one of two buckets that determine each other.  The clock bit that chooses the first
  victim is an argument.  The specification is a multiset: every stored fingerprint belongs to
  the class of its value and its pair of buckets, insertion and deletion are multiset insertion
  and deletion, and lookup is membership, so the filter has no false negatives as long as no
  insertion gives up; an insertion that gives up loses exactly one stored class.
\<close>

section \<open>Definitions\<close>

definition CK_BUCKET_SLOTS :: nat where "CK_BUCKET_SLOTS = 4"
definition CK_FP_BITS :: nat where "CK_FP_BITS = 8"
definition CK_FP_MASK :: u32 where "CK_FP_MASK = 2 ^ CK_FP_BITS - 1"
definition CK_MAX_KICKS :: nat where "CK_MAX_KICKS = 500"

type_synonym ck_bucket = "u8 list"

record kv_cuckoo =
  ck_n_buckets :: u32
  ck_count :: u32
  ck_buckets :: "ck_bucket list"

definition fp_of :: "u64 \<Rightarrow> u32" where
  "fp_of key = (let fp = ucast (hash_mix64 (key XOR 0x9e3779b97f4a7c15)) AND CK_FP_MASK
                in if fp \<noteq> 0 then fp else 1)"

definition alt_index :: "u32 \<Rightarrow> u32 \<Rightarrow> u32 \<Rightarrow> u32" where
  "alt_index i fp n_buckets = ucast ((ucast i XOR hash_mix64 (ucast fp)) AND ucast (n_buckets - 1))"

text \<open>The doubling loop of the constructor; 32-bit arithmetic, with fuel.\<close>

primrec ck_size :: "nat \<Rightarrow> u32 \<Rightarrow> u32 \<Rightarrow> u32 option" where
  "ck_size 0 nb want = None"
| "ck_size (Suc k) nb want = (if nb < want then ck_size k (push_bit 1 nb) want else Some nb)"

definition ck_want :: "u32 \<Rightarrow> u32" where
  "ck_want n_entries = (n_entries div of_nat CK_BUCKET_SLOTS) * 100 div 85 + 1"

definition kv_cuckoo_init :: "bool \<Rightarrow> bool \<Rightarrow> u32 \<Rightarrow> (int \<times> kv_cuckoo option) option" where
  "kv_cuckoo_init new_ok calloc_ok n_entries =
    (if n_entries = 0 then Some (-1, None)
     else case ck_size 32 16 (ck_want n_entries) of
            None \<Rightarrow> None
          | Some nb \<Rightarrow>
              if \<not> new_ok then Some (-1, None)
              else if \<not> calloc_ok then Some (-1, None)
              else Some (0, Some \<lparr>ck_n_buckets = nb, ck_count = 0,
                ck_buckets = replicate (unat nb) (replicate CK_BUCKET_SLOTS 0)\<rparr>))"

definition bucket_has :: "ck_bucket \<Rightarrow> u32 \<Rightarrow> bool" where
  "bucket_has b fp = list_ex (\<lambda>i. ucast (b ! i) = fp) [0..<CK_BUCKET_SLOTS]"

definition bucket_insert :: "ck_bucket \<Rightarrow> u32 \<Rightarrow> int \<times> ck_bucket" where
  "bucket_insert b fp =
    (case find (\<lambda>i. b ! i = 0) [0..<CK_BUCKET_SLOTS] of
       Some i \<Rightarrow> (0, b[i := ucast fp]) | None \<Rightarrow> (-1, b))"

definition bucket_remove :: "ck_bucket \<Rightarrow> u32 \<Rightarrow> bool \<times> ck_bucket" where
  "bucket_remove b fp =
    (case find (\<lambda>i. ucast (b ! i) = fp) [0..<CK_BUCKET_SLOTS] of
       Some i \<Rightarrow> (True, b[i := 0]) | None \<Rightarrow> (False, b))"

definition ck_index1 :: "kv_cuckoo \<Rightarrow> u64 \<Rightarrow> u32" where
  "ck_index1 cf key = ucast (hash_mix64 key AND ucast (ck_n_buckets cf - 1))"

definition ck_at :: "kv_cuckoo \<Rightarrow> u32 \<Rightarrow> ck_bucket" where
  "ck_at cf i = ck_buckets cf ! unat i"

definition ck_set :: "kv_cuckoo \<Rightarrow> u32 \<Rightarrow> ck_bucket \<Rightarrow> kv_cuckoo" where
  "ck_set cf i b = cf\<lparr>ck_buckets := (ck_buckets cf)[unat i := b]\<rparr>"

text \<open>The eviction loop: \<open>m\<close> rounds to go, round number \<open>k\<close>.\<close>

primrec ck_kick :: "nat \<Rightarrow> nat \<Rightarrow> kv_cuckoo \<Rightarrow> u64 \<Rightarrow> u32 \<Rightarrow> u32 \<Rightarrow> int \<times> kv_cuckoo" where
  "ck_kick 0 k cf key fp cur = (-1, cf)"
| "ck_kick (Suc m) k cf key fp cur =
    (let i = cur AND (ck_n_buckets cf - 1);
         b = ck_at cf i;
         slot = unat (hash_mix64 (key + of_nat k) mod of_nat CK_BUCKET_SLOTS);
         victim = ucast (b ! slot) :: u32;
         cf = ck_set cf i (b[slot := ucast fp]);
         fp = victim;
         cur = alt_index cur fp (ck_n_buckets cf)
     in case bucket_insert (ck_at cf cur) fp of
          (rc, b) \<Rightarrow> if rc = 0 then (0, (ck_set cf cur b)\<lparr>ck_count := ck_count cf + 1\<rparr>)
                    else ck_kick m (Suc k) cf key fp cur)"

definition kv_cuckoo_insert :: "u64 \<Rightarrow> kv_cuckoo \<Rightarrow> u64 \<Rightarrow> int \<times> kv_cuckoo" where
  "kv_cuckoo_insert now_ns cf key =
    (let fp = fp_of key;
         i1 = ck_index1 cf key;
         i2 = alt_index i1 fp (ck_n_buckets cf)
     in case bucket_insert (ck_at cf i1) fp of
          (rc1, b1) \<Rightarrow>
            if rc1 = 0 then (0, (ck_set cf i1 b1)\<lparr>ck_count := ck_count cf + 1\<rparr>)
            else case bucket_insert (ck_at cf i2) fp of
                   (rc2, b2) \<Rightarrow>
                     if rc2 = 0 then (0, (ck_set cf i2 b2)\<lparr>ck_count := ck_count cf + 1\<rparr>)
                     else ck_kick CK_MAX_KICKS 0 cf key fp (if now_ns AND 1 \<noteq> 0 then i1 else i2))"

definition kv_cuckoo_lookup :: "kv_cuckoo \<Rightarrow> u64 \<Rightarrow> bool" where
  "kv_cuckoo_lookup cf key =
    (let fp = fp_of key;
         i1 = ck_index1 cf key;
         i2 = alt_index i1 fp (ck_n_buckets cf)
     in bucket_has (ck_at cf i1) fp \<or> bucket_has (ck_at cf i2) fp)"

definition kv_cuckoo_delete :: "kv_cuckoo \<Rightarrow> u64 \<Rightarrow> bool \<times> kv_cuckoo" where
  "kv_cuckoo_delete cf key =
    (let fp = fp_of key;
         i1 = ck_index1 cf key;
         i2 = alt_index i1 fp (ck_n_buckets cf);
         dec = (\<lambda>cf. if ck_count cf \<noteq> 0 then cf\<lparr>ck_count := ck_count cf - 1\<rparr> else cf)
     in case bucket_remove (ck_at cf i1) fp of
          (r1, b1) \<Rightarrow>
            if r1 then (True, dec (ck_set cf i1 b1))
            else case bucket_remove (ck_at cf i2) fp of
                   (r2, b2) \<Rightarrow> if r2 then (True, dec (ck_set cf i2 b2)) else (False, cf))"

definition kv_cuckoo_count :: "kv_cuckoo \<Rightarrow> u32" where
  "kv_cuckoo_count cf = ck_count cf"

definition kv_cuckoo_capacity :: "kv_cuckoo \<Rightarrow> u32" where
  "kv_cuckoo_capacity cf = ck_n_buckets cf * of_nat CK_BUCKET_SLOTS"

section \<open>Indices and fingerprints\<close>

definition ck_wf :: "kv_cuckoo \<Rightarrow> bool" where
  "ck_wf cf \<longleftrightarrow> (\<exists>k < 30. ck_n_buckets cf = 2 ^ k) \<and> length (ck_buckets cf) = unat (ck_n_buckets cf) \<and>
    list_all (\<lambda>b. length b = CK_BUCKET_SLOTS) (ck_buckets cf)"

lemma pow2_minus_1_mask: "(2 ^ k :: 'a::len word) - 1 = mask k"
  by (simp add: mask_eq_decr_exp)

lemma unat_and_mask_less:
  fixes x :: "'a::len word"
  assumes "k < LENGTH('a)"
  shows "unat (x AND mask k) < 2 ^ k"
proof -
  have "unat (take_bit k x) < 2 ^ k" by (simp add: unsigned_take_bit_eq)
  then show ?thesis by (simp add: take_bit_eq_mask)
qed

lemma alt_index_take_bit:
  assumes "k < 32"
  shows "alt_index i fp (2 ^ k) = take_bit k (i XOR ucast (hash_mix64 (ucast fp)))"
proof -
  have "ucast ((2 ^ k :: u32) - 1) = (mask k :: u64)"
    using assms unfolding pow2_minus_1_mask by (intro bit_word_eqI) (auto simp: bit_simps)
  then show ?thesis
    using assms unfolding alt_index_def
    by (intro bit_word_eqI) (auto simp: bit_simps)
qed

lemma alt_index_alt:
  assumes "k < 32" and "unat i < 2 ^ k"
  shows "alt_index (alt_index i fp (2 ^ k)) fp (2 ^ k) = i"
proof -
  have "take_bit k i = i"
    using assms by (simp add: word_unat_eq_iff unsigned_take_bit_eq take_bit_nat_eq_self)
  then show ?thesis
    using assms(1) by (simp add: alt_index_take_bit xor.assoc)
qed

lemma ck_wfE:
  assumes "ck_wf cf"
  obtains k where "k < 30" "ck_n_buckets cf = 2 ^ k" "length (ck_buckets cf) = 2 ^ k"
    "unat (ck_n_buckets cf) = 2 ^ k"
    "\<And>i. i < 2 ^ k \<Longrightarrow> length (ck_buckets cf ! i) = CK_BUCKET_SLOTS"
proof -
  obtain k where k: "k < 30" "ck_n_buckets cf = 2 ^ k" using assms by (auto simp: ck_wf_def)
  have "(2 :: nat) ^ k < 2 ^ 30" using k(1) by (intro power_strict_increasing) simp_all
  then have "unat (2 ^ k :: u32) = 2 ^ k"
    using unat_of_nat_u32 [of "2 ^ k"] by simp
  then show thesis using that [OF k] assms k by (auto simp: ck_wf_def list_all_length)
qed

lemma index_less:
  assumes "ck_wf cf"
  shows "unat (ck_index1 cf key) < length (ck_buckets cf)"
    and "unat (alt_index i fp (ck_n_buckets cf)) < length (ck_buckets cf)"
    and "unat (cur AND (ck_n_buckets cf - 1)) < length (ck_buckets cf)"
proof -
  obtain k where k: "k < 30" "ck_n_buckets cf = 2 ^ k" "length (ck_buckets cf) = 2 ^ k"
    using assms by (rule ck_wfE)
  show "unat (alt_index i fp (ck_n_buckets cf)) < length (ck_buckets cf)"
    using k by (simp add: alt_index_take_bit unsigned_take_bit_eq del: take_bit_xor)
  show "unat (cur AND (ck_n_buckets cf - 1)) < length (ck_buckets cf)"
    using k unat_and_mask_less [of k cur] by (simp add: pow2_minus_1_mask)
  have "ucast ((2 ^ k :: u32) - 1) = (mask k :: u64)"
    using k(1) unfolding pow2_minus_1_mask by (intro bit_word_eqI) (auto simp: bit_simps)
  then have "ck_index1 cf key = ucast (hash_mix64 key) AND mask k"
    using k unfolding ck_index1_def by (intro bit_word_eqI) (auto simp: bit_simps)
  then show "unat (ck_index1 cf key) < length (ck_buckets cf)"
    using k unat_and_mask_less [of k "ucast (hash_mix64 key) :: u32"] by simp
qed

lemma alt_twice:
  assumes "ck_wf cf" and "unat i < length (ck_buckets cf)"
  shows "alt_index (alt_index i fp (ck_n_buckets cf)) fp (ck_n_buckets cf) = i"
proof -
  obtain k where "k < 30" "ck_n_buckets cf = 2 ^ k" "length (ck_buckets cf) = 2 ^ k"
    using assms(1) by (rule ck_wfE)
  then show ?thesis using alt_index_alt [of k i fp] assms(2) by simp
qed

lemma and_index:
  assumes "ck_wf cf" and "unat i < length (ck_buckets cf)"
  shows "i AND (ck_n_buckets cf - 1) = i"
proof -
  obtain k where k: "k < 30" "ck_n_buckets cf = 2 ^ k" "length (ck_buckets cf) = 2 ^ k"
    using assms(1) by (rule ck_wfE)
  have "take_bit k i = i"
    using k assms(2) by (simp add: word_unat_eq_iff unsigned_take_bit_eq take_bit_nat_eq_self)
  then show ?thesis using k by (simp add: pow2_minus_1_mask take_bit_eq_mask)
qed

lemma ucast_u8_u32_u8 [simp]: "ucast (ucast f :: u32) = (f :: u8)"
  by (intro bit_word_eqI) (auto simp: bit_simps)

lemma ucast_u8_u32_inject [simp]: "(ucast f :: u32) = ucast g \<longleftrightarrow> f = (g :: u8)"
  by (metis ucast_u8_u32_u8)

lemma fp_of_small: "fp_of key \<noteq> 0" "\<exists>f :: u8. f \<noteq> 0 \<and> fp_of key = ucast f"
proof -
  show nz: "fp_of key \<noteq> 0" by (simp add: fp_of_def Let_def)
  have "take_bit 8 (fp_of key) = fp_of key"
    by (simp add: fp_of_def Let_def CK_FP_MASK_def CK_FP_BITS_def take_bit_eq_mask mask_eq_decr_exp and.assoc)
  moreover have "ucast (ucast x :: u8) = take_bit 8 x" for x :: u32
    by (intro bit_word_eqI) (auto simp: bit_simps)
  ultimately have "fp_of key = ucast (ucast (fp_of key) :: u8)" by simp
  with nz show "\<exists>f :: u8. f \<noteq> 0 \<and> fp_of key = ucast f" by (metis unsigned_0)
qed

section \<open>The filter as a multiset\<close>

definition ck_class :: "u32 \<Rightarrow> u32 \<Rightarrow> u8 \<Rightarrow> u8 \<times> u32 set" where
  "ck_class n i f = (f, {i, alt_index i (ucast f) n})"

definition bucket_mset :: "u32 \<Rightarrow> u32 \<Rightarrow> ck_bucket \<Rightarrow> (u8 \<times> u32 set) multiset" where
  "bucket_mset n i b = image_mset (ck_class n i) (filter_mset (\<lambda>f. f \<noteq> 0) (mset b))"

definition ck_abs :: "kv_cuckoo \<Rightarrow> (u8 \<times> u32 set) multiset" where
  "ck_abs cf = (\<Sum>i < length (ck_buckets cf). bucket_mset (ck_n_buckets cf) (of_nat i) (ck_buckets cf ! i))"

definition key_class :: "kv_cuckoo \<Rightarrow> u64 \<Rightarrow> u8 \<times> u32 set" where
  "key_class cf key = ck_class (ck_n_buckets cf) (ck_index1 cf key) (ucast (fp_of key))"

lemma ck_set_simps [simp]:
  "ck_n_buckets (ck_set cf i b) = ck_n_buckets cf" "ck_count (ck_set cf i b) = ck_count cf"
  "length (ck_buckets (ck_set cf i b)) = length (ck_buckets cf)"
  by (simp_all add: ck_set_def)

lemma ck_abs_count [simp]: "ck_abs (cf\<lparr>ck_count := c\<rparr>) = ck_abs cf"
  by (simp add: ck_abs_def)

lemma ck_wf_count [simp]: "ck_wf (cf\<lparr>ck_count := c\<rparr>) = ck_wf cf"
  by (simp add: ck_wf_def)

lemma ck_wf_set [simp]:
  assumes "ck_wf cf" and "length b = CK_BUCKET_SLOTS"
  shows "ck_wf (ck_set cf i b)"
  using assms set_update_subset_insert [of "ck_buckets cf" "unat i" b]
  by (auto simp: ck_wf_def ck_set_def list_all_iff)

lemma ck_at_length: "ck_wf cf \<Longrightarrow> unat i < length (ck_buckets cf) \<Longrightarrow> length (ck_at cf i) = CK_BUCKET_SLOTS"
  by (simp add: ck_wf_def ck_at_def list_all_length)

lemma ck_at_set:
  "unat i < length (ck_buckets cf) \<Longrightarrow> ck_at (ck_set cf i b) j = (if i = j then b else ck_at cf j)"
  by (auto simp: ck_at_def ck_set_def nth_list_update word_unat_eq_iff)

lemma ck_abs_set:
  assumes "unat i < length (ck_buckets cf)"
  shows "ck_abs (ck_set cf i b) + bucket_mset (ck_n_buckets cf) i (ck_at cf i) =
    ck_abs cf + bucket_mset (ck_n_buckets cf) i b"
proof -
  let ?n = "ck_n_buckets cf" and ?bs = "ck_buckets cf"
  let ?I = "{..<length ?bs} - {unat i}"
  have i: "(of_nat (unat i) :: u32) = i" by simp
  have "(\<Sum>j < length ?bs. bucket_mset ?n (of_nat j) (?bs[unat i := b] ! j)) =
      bucket_mset ?n i b + (\<Sum>j \<in> ?I. bucket_mset ?n (of_nat j) (?bs ! j))"
    using assms by (subst sum.remove [of _ "unat i"]) (auto simp: i intro!: sum.cong)
  moreover have "(\<Sum>j < length ?bs. bucket_mset ?n (of_nat j) (?bs ! j)) =
      bucket_mset ?n i (?bs ! unat i) + (\<Sum>j \<in> ?I. bucket_mset ?n (of_nat j) (?bs ! j))"
    using assms by (subst sum.remove [of _ "unat i"]) (auto simp: i)
  ultimately show ?thesis by (simp add: ck_abs_def ck_set_def ck_at_def ac_simps)
qed

lemma bucket_mset_update:
  assumes "s < length b"
  shows "bucket_mset n i (b[s := f]) + (if b ! s = 0 then {#} else {#ck_class n i (b ! s)#}) =
    bucket_mset n i b + (if f = 0 then {#} else {#ck_class n i f#})"
proof -
  have "mset (b[s := f]) + {#b ! s#} = mset b + {#f#}"
    using assms by (simp add: mset_update)
  then have "bucket_mset n i (b[s := f]) + image_mset (ck_class n i) (filter_mset (\<lambda>f. f \<noteq> 0) {#b ! s#}) =
      bucket_mset n i b + image_mset (ck_class n i) (filter_mset (\<lambda>f. f \<noteq> 0) {#f#})"
    unfolding bucket_mset_def image_mset_union [symmetric] filter_union_mset [symmetric] by simp
  then show ?thesis by (auto split: if_splits)
qed

lemma add_swap:
  fixes a :: "'a multiset"
  assumes "a' + bo = a + bn" and "bn + x = bo + y"
  shows "a' + x = a + y"
proof -
  have "(a' + x) + bo = (a' + bo) + x" by (simp add: ac_simps)
  also have "\<dots> = a + (bn + x)" by (simp add: assms(1) ac_simps)
  also have "\<dots> = (a + y) + bo" by (simp add: assms(2) ac_simps)
  finally show ?thesis by simp
qed

text \<open>Changing one slot of one bucket.\<close>

lemma ck_abs_slot:
  assumes "ck_wf cf" and "unat i < length (ck_buckets cf)" and "s < CK_BUCKET_SLOTS"
  shows "ck_abs (ck_set cf i ((ck_at cf i)[s := f])) +
      (if ck_at cf i ! s = 0 then {#} else {#ck_class (ck_n_buckets cf) i (ck_at cf i ! s)#}) =
    ck_abs cf + (if f = 0 then {#} else {#ck_class (ck_n_buckets cf) i f#})"
proof -
  have "s < length (ck_at cf i)" using assms by (simp add: ck_at_length)
  then show ?thesis by (rule add_swap [OF ck_abs_set [OF assms(2)] bucket_mset_update])
qed

lemma find_upt_Some: "find P [0..<n] = Some i \<Longrightarrow> i < n \<and> P i"
  by (auto simp: find_Some_iff)

lemma find_upt_None: "find P [0..<n] = None \<Longrightarrow> i < n \<Longrightarrow> \<not> P i"
  by (auto simp: find_None_iff)

lemma bucket_insert_full: "bucket_insert b fp = (rc, b') \<Longrightarrow> rc \<noteq> 0 \<Longrightarrow> s < CK_BUCKET_SLOTS \<Longrightarrow> b ! s \<noteq> 0"
  by (auto simp: bucket_insert_def split: option.splits dest: find_upt_None)

text \<open>A successful insertion into a bucket adds the class.\<close>

lemma bucket_insert_abs:
  assumes wf: "ck_wf cf" and i: "unat i < length (ck_buckets cf)" and "f \<noteq> 0"
    and ins: "bucket_insert (ck_at cf i) (ucast f) = (0, b)"
  shows "ck_wf (ck_set cf i b)" and "ck_abs (ck_set cf i b) = add_mset (ck_class (ck_n_buckets cf) i f) (ck_abs cf)"
proof -
  obtain s where s: "s < CK_BUCKET_SLOTS" "ck_at cf i ! s = 0" "b = (ck_at cf i)[s := f]"
    using ins by (auto simp: bucket_insert_def split: option.splits dest!: find_upt_Some)
  show "ck_wf (ck_set cf i b)" using wf i s by (simp add: ck_at_length)
  show "ck_abs (ck_set cf i b) = add_mset (ck_class (ck_n_buckets cf) i f) (ck_abs cf)"
    using ck_abs_slot [OF wf i s(1), of f] s assms(3) by simp
qed

lemma ck_class_alt:
  assumes "ck_wf cf" and "unat i < length (ck_buckets cf)"
  shows "ck_class (ck_n_buckets cf) (alt_index i (ucast f) (ck_n_buckets cf)) f = ck_class (ck_n_buckets cf) i f"
  using alt_twice [OF assms, of "ucast f"] by (auto simp: ck_class_def)

text \<open>The eviction loop starts with full buckets; it adds one class, and loses one when it gives up.\<close>

lemma ck_kick_abs:
  assumes "ck_wf cf" and "unat cur < length (ck_buckets cf)" and "f \<noteq> 0"
    and "\<And>s. s < CK_BUCKET_SLOTS \<Longrightarrow> ck_at cf cur ! s \<noteq> 0" and "ck_kick m k cf key (ucast f) cur = (rc, cf')"
  shows "ck_wf cf' \<and> ck_n_buckets cf' = ck_n_buckets cf \<and>
    (rc = 0 \<and> ck_abs cf' = add_mset (ck_class (ck_n_buckets cf) cur f) (ck_abs cf) \<and> ck_count cf' = ck_count cf + 1 \<or>
     rc = -1 \<and> ck_count cf' = ck_count cf \<and>
       (\<exists>lost. add_mset lost (ck_abs cf') = add_mset (ck_class (ck_n_buckets cf) cur f) (ck_abs cf)))"
  using assms
proof (induction m arbitrary: k cf f cur)
  case 0
  then show ?case by auto
next
  case (Suc m)
  let ?n = "ck_n_buckets cf" and ?b = "ck_at cf cur"
  define slot where "slot = unat (hash_mix64 (key + of_nat k) mod of_nat CK_BUCKET_SLOTS)"
  have "hash_mix64 (key + of_nat k) mod 4 < 4" by (simp add: word_mod_less_divisor)
  then have slot: "slot < CK_BUCKET_SLOTS" by (simp add: slot_def CK_BUCKET_SLOTS_def word_less_nat_alt)
  let ?v = "?b ! slot" and ?cf = "ck_set cf cur (?b[slot := f])"
  let ?cur = "alt_index cur (ucast ?v) ?n"
  have v: "?v \<noteq> 0" using Suc.prems(4) slot by blast
  have len: "length ?b = CK_BUCKET_SLOTS" using Suc.prems(1,2) by (rule ck_at_length)
  have wf: "ck_wf ?cf" using Suc.prems(1) len by simp
  have cur: "unat ?cur < length (ck_buckets ?cf)" using index_less(2) [OF Suc.prems(1)] by simp
  have cls: "ck_class ?n ?cur ?v = ck_class ?n cur ?v" using Suc.prems(1,2) by (rule ck_class_alt)
  have abs: "add_mset (ck_class ?n cur ?v) (ck_abs ?cf) = add_mset (ck_class ?n cur f) (ck_abs cf)"
    using ck_abs_slot [OF Suc.prems(1,2) slot, of f] v Suc.prems(3) by simp
  obtain rc1 b1 where ins: "bucket_insert (ck_at ?cf ?cur) (ucast ?v) = (rc1, b1)" by fastforce
  have step: "ck_kick (Suc m) k cf key (ucast f) cur =
      (if rc1 = 0 then (0, (ck_set ?cf ?cur b1)\<lparr>ck_count := ck_count cf + 1\<rparr>)
       else ck_kick m (Suc k) ?cf key (ucast ?v) ?cur)"
    using ins and_index [OF Suc.prems(1,2)] by (simp add: Let_def slot_def)
  show ?case
  proof (cases "rc1 = 0")
    case True
    have "ck_wf (ck_set ?cf ?cur b1)" "ck_abs (ck_set ?cf ?cur b1) = add_mset (ck_class ?n ?cur ?v) (ck_abs ?cf)"
      using bucket_insert_abs [OF wf cur v] ins True by simp_all
    then show ?thesis using step True Suc.prems(5) abs cls by auto
  next
    case False
    have full: "ck_at ?cf ?cur ! s \<noteq> 0" if "s < CK_BUCKET_SLOTS" for s
      using bucket_insert_full [OF ins False that] .
    have "ck_kick m (Suc k) ?cf key (ucast ?v) ?cur = (rc, cf')" using step False Suc.prems(5) by simp
    from Suc.IH [OF wf cur v full this] abs cls show ?thesis by auto
  qed
qed

lemma kv_cuckoo_insert_abs:
  assumes wf: "ck_wf cf" and ins: "kv_cuckoo_insert now cf key = (rc, cf')"
  shows "ck_wf cf' \<and> ck_n_buckets cf' = ck_n_buckets cf \<and>
    (rc = 0 \<and> ck_abs cf' = add_mset (key_class cf key) (ck_abs cf) \<and> ck_count cf' = ck_count cf + 1 \<or>
     rc = -1 \<and> ck_count cf' = ck_count cf \<and>
       (\<exists>lost. add_mset lost (ck_abs cf') = add_mset (key_class cf key) (ck_abs cf)))"
proof -
  obtain f :: u8 where f: "f \<noteq> 0" "fp_of key = ucast f" using fp_of_small(2) by blast
  let ?n = "ck_n_buckets cf" and ?i1 = "ck_index1 cf key"
  let ?i2 = "alt_index ?i1 (ucast f) ?n"
  have i: "unat ?i1 < length (ck_buckets cf)" "unat ?i2 < length (ck_buckets cf)"
    using index_less [OF wf] by blast+
  have key: "key_class cf key = ck_class ?n ?i1 f" by (simp add: key_class_def f(2))
  have cls: "ck_class ?n ?i2 f = ck_class ?n ?i1 f" using wf i(1) by (rule ck_class_alt)
  obtain rc1 b1 where ins1: "bucket_insert (ck_at cf ?i1) (ucast f) = (rc1, b1)" by fastforce
  obtain rc2 b2 where ins2: "bucket_insert (ck_at cf ?i2) (ucast f) = (rc2, b2)" by fastforce
  consider "rc1 = 0" | "rc1 \<noteq> 0" "rc2 = 0" | "rc1 \<noteq> 0" "rc2 \<noteq> 0" by blast
  then show ?thesis
  proof cases
    case 1
    then show ?thesis
      using bucket_insert_abs [OF wf i(1) f(1), of b1] ins ins1 by (auto simp: kv_cuckoo_insert_def Let_def f(2) key)
  next
    case 2
    then show ?thesis
      using bucket_insert_abs [OF wf i(2) f(1), of b2] ins ins1 ins2
      by (auto simp: kv_cuckoo_insert_def Let_def f(2) key cls)
  next
    case 3
    let ?cur = "if now AND 1 \<noteq> 0 then ?i1 else ?i2"
    have full: "ck_at cf ?cur ! s \<noteq> 0" if "s < CK_BUCKET_SLOTS" for s
      using bucket_insert_full [OF ins1 3(1) that] bucket_insert_full [OF ins2 3(2) that] by simp
    have cur: "unat ?cur < length (ck_buckets cf)" "ck_class ?n ?cur f = ck_class ?n ?i1 f" using i cls by simp_all
    have "ck_kick CK_MAX_KICKS 0 cf key (ucast f) ?cur = (rc, cf')"
      using ins ins1 ins2 3 by (simp add: kv_cuckoo_insert_def Let_def f(2))
    from ck_kick_abs [OF wf cur(1) f(1) full this] cur(2) key show ?thesis by simp
  qed
qed

lemma mem_ck_abs:
  "c \<in># ck_abs cf \<longleftrightarrow> (\<exists>i f. i < length (ck_buckets cf) \<and> f \<in> set (ck_buckets cf ! i) \<and> f \<noteq> 0 \<and>
    c = ck_class (ck_n_buckets cf) (of_nat i) f)"
proof -
  have "set_mset (\<Sum>i < n. g i) = (\<Union>i < n. set_mset (g i))" for n and g :: "nat \<Rightarrow> (u8 \<times> u32 set) multiset"
    by (induction n) (auto simp: lessThan_Suc)
  then show ?thesis by (auto simp: ck_abs_def bucket_mset_def)
qed

lemma bucket_has_iff: "length b = CK_BUCKET_SLOTS \<Longrightarrow> bucket_has b (ucast f) \<longleftrightarrow> f \<in> set b"
  by (auto simp: bucket_has_def list_ex_iff in_set_conv_nth)

lemma kv_cuckoo_lookup_abs:
  assumes wf: "ck_wf cf"
  shows "kv_cuckoo_lookup cf key \<longleftrightarrow> key_class cf key \<in># ck_abs cf"
proof -
  obtain f :: u8 where f: "f \<noteq> 0" "fp_of key = ucast f" using fp_of_small(2) by blast
  let ?n = "ck_n_buckets cf" and ?i1 = "ck_index1 cf key"
  let ?i2 = "alt_index ?i1 (ucast f) ?n"
  have i: "unat ?i1 < length (ck_buckets cf)" "unat ?i2 < length (ck_buckets cf)"
    using index_less [OF wf] by blast+
  have look: "kv_cuckoo_lookup cf key \<longleftrightarrow> f \<in> set (ck_at cf ?i1) \<or> f \<in> set (ck_at cf ?i2)"
    using bucket_has_iff [OF ck_at_length [OF wf i(1)]] bucket_has_iff [OF ck_at_length [OF wf i(2)]]
    by (simp add: kv_cuckoo_lookup_def Let_def f(2))
  have key: "key_class cf key = ck_class ?n ?i1 f" by (simp add: key_class_def f(2))
  have cls: "ck_class ?n ?i2 f = ck_class ?n ?i1 f" using wf i(1) by (rule ck_class_alt)
  show ?thesis
  proof
    assume "kv_cuckoo_lookup cf key"
    then obtain j where "j = ?i1 \<or> j = ?i2" "f \<in> set (ck_at cf j)" using look by blast
    then have "unat j < length (ck_buckets cf)" "f \<in> set (ck_buckets cf ! unat j)" "key_class cf key = ck_class ?n (of_nat (unat j)) f"
      using i key cls by (auto simp: ck_at_def)
    then show "key_class cf key \<in># ck_abs cf" using f(1) unfolding mem_ck_abs by blast
  next
    assume "key_class cf key \<in># ck_abs cf"
    then obtain j where j: "j < length (ck_buckets cf)" "f \<in> set (ck_buckets cf ! j)" "of_nat j = ?i1 \<or> of_nat j = ?i2"
      by (auto simp: mem_ck_abs key ck_class_def doubleton_eq_iff)
    have "length (ck_buckets cf) < 2 ^ 32" using wf unat_width(3) [of ?n] by (simp add: ck_wf_def)
    then have "unat (of_nat j :: u32) = j" using j(1) by simp
    then show "kv_cuckoo_lookup cf key" using j(2,3) by (auto simp: look ck_at_def)
  qed
qed

lemma bucket_remove_abs:
  assumes wf: "ck_wf cf" and i: "unat i < length (ck_buckets cf)" and "f \<noteq> 0"
    and rem: "bucket_remove (ck_at cf i) (ucast f) = (True, b)"
  shows "ck_wf (ck_set cf i b)" and "ck_abs cf = add_mset (ck_class (ck_n_buckets cf) i f) (ck_abs (ck_set cf i b))"
proof -
  obtain s where s: "s < CK_BUCKET_SLOTS" "ck_at cf i ! s = f" "b = (ck_at cf i)[s := 0]"
    using rem by (auto simp: bucket_remove_def split: option.splits dest!: find_upt_Some)
  show "ck_wf (ck_set cf i b)" using wf i s by (simp add: ck_at_length)
  show "ck_abs cf = add_mset (ck_class (ck_n_buckets cf) i f) (ck_abs (ck_set cf i b))"
    using ck_abs_slot [OF wf i s(1), of 0] s assms(3) by simp
qed

lemma bucket_remove_has:
  "length b = CK_BUCKET_SLOTS \<Longrightarrow> fst (bucket_remove b fp) \<longleftrightarrow> bucket_has b fp"
  by (auto simp: bucket_remove_def bucket_has_def list_ex_iff find_None_iff split: option.splits dest!: find_upt_Some)

lemma kv_cuckoo_delete_abs:
  assumes wf: "ck_wf cf" and del: "kv_cuckoo_delete cf key = (r, cf')"
  shows "ck_wf cf' \<and> ck_n_buckets cf' = ck_n_buckets cf \<and> (r \<longleftrightarrow> key_class cf key \<in># ck_abs cf) \<and>
    ck_abs cf' = ck_abs cf - {#key_class cf key#} \<and>
    ck_count cf' = (if r \<and> ck_count cf \<noteq> 0 then ck_count cf - 1 else ck_count cf)"
proof -
  obtain f :: u8 where f: "f \<noteq> 0" "fp_of key = ucast f" using fp_of_small(2) by blast
  let ?n = "ck_n_buckets cf" and ?i1 = "ck_index1 cf key"
  let ?i2 = "alt_index ?i1 (ucast f) ?n"
  have i: "unat ?i1 < length (ck_buckets cf)" "unat ?i2 < length (ck_buckets cf)"
    using index_less [OF wf] by blast+
  have key: "key_class cf key = ck_class ?n ?i1 f" by (simp add: key_class_def f(2))
  have cls: "ck_class ?n ?i2 f = ck_class ?n ?i1 f" using wf i(1) by (rule ck_class_alt)
  obtain r1 b1 where rem1: "bucket_remove (ck_at cf ?i1) (ucast f) = (r1, b1)" by fastforce
  obtain r2 b2 where rem2: "bucket_remove (ck_at cf ?i2) (ucast f) = (r2, b2)" by fastforce
  have "r1 \<or> r2 \<longleftrightarrow> kv_cuckoo_lookup cf key"
    using bucket_remove_has [OF ck_at_length [OF wf i(1)], of "ucast f"]
      bucket_remove_has [OF ck_at_length [OF wf i(2)], of "ucast f"] rem1 rem2
    by (simp add: kv_cuckoo_lookup_def Let_def f(2))
  then have mem: "r1 \<or> r2 \<longleftrightarrow> key_class cf key \<in># ck_abs cf" by (simp add: kv_cuckoo_lookup_abs [OF wf])
  consider r1 | "\<not> r1" r2 | "\<not> r1" "\<not> r2" by blast
  then show ?thesis
  proof cases
    case 1
    then show ?thesis
      using bucket_remove_abs [OF wf i(1) f(1), of b1] del rem1 key
      by (auto simp: kv_cuckoo_delete_def Let_def f(2))
  next
    case 2
    then show ?thesis
      using bucket_remove_abs [OF wf i(2) f(1), of b2] del rem1 rem2 key cls
      by (auto simp: kv_cuckoo_delete_def Let_def f(2))
  next
    case 3
    then have "r = False" "cf' = cf" "key_class cf key \<notin># ck_abs cf"
      using del rem1 rem2 mem by (auto simp: kv_cuckoo_delete_def Let_def f(2))
    then show ?thesis using wf by (simp add: diff_single_trivial)
  qed
qed

section \<open>Construction\<close>

lemma ck_size_ok:
  assumes "unat want \<le> 2 ^ m" and "j \<le> m" and "m < 30"
  shows "\<exists>k \<le> m. ck_size (Suc m - j) (2 ^ j) want = Some (2 ^ k) \<and> unat want \<le> 2 ^ k"
  using assms
proof (induction "m - j" arbitrary: j)
  case 0
  have "(2 :: nat) ^ m < 2 ^ 30" using 0(4) by (intro power_strict_increasing) simp_all
  then have "unat (2 ^ m :: u32) = 2 ^ m" using unat_of_nat_u32 [of "2 ^ m"] by simp
  then show ?case using 0 by (auto simp: word_less_nat_alt)
next
  case (Suc d)
  have "(2 :: nat) ^ j < 2 ^ 30" using Suc(4,5) by (intro power_strict_increasing) simp_all
  then have u: "unat (2 ^ j :: u32) = 2 ^ j" using unat_of_nat_u32 [of "2 ^ j"] by simp
  have fuel: "Suc m - j = Suc (Suc m - Suc j)" using Suc.hyps(2) by simp
  show ?case
  proof (cases "(2 ^ j :: u32) < want")
    case True
    have "push_bit 1 (2 ^ j :: u32) = 2 ^ Suc j" by (simp add: push_bit_eq_mult)
    moreover have "\<exists>k \<le> m. ck_size (Suc m - Suc j) (2 ^ Suc j) want = Some (2 ^ k) \<and> unat want \<le> 2 ^ k"
      using Suc.hyps Suc.prems by (intro Suc.hyps(1)) auto
    ultimately show ?thesis using True unfolding fuel by (simp add: mult.commute)
  next
    case False
    then have "unat want \<le> 2 ^ j" using u by (simp add: word_less_nat_alt)
    then show ?thesis using False Suc.prems(2) unfolding fuel by auto
  qed
qed

lemma ck_size_mono: "ck_size k nb want = Some r \<Longrightarrow> ck_size (k + d) nb want = Some r"
  by (induction k arbitrary: nb) (auto split: if_splits)

lemma ck_want_bound: "unat (ck_want n) \<le> 2 ^ 26"
proof -
  let ?x = "(n div 4) * 100 :: u32"
  have "unat (?x div 85) = unat ?x div 85" by (simp add: unat_div_distrib)
  moreover have "unat ?x div 85 \<le> 4294967295 div 85" using unat_width(3) [of ?x] by (intro div_le_mono) simp
  ultimately have "unat (?x div 85) + 1 \<le> 2 ^ 26" by simp
  then have "unat (?x div 85 + 1) \<le> 2 ^ 26" by (subst unat_add_lem [THEN iffD1]) auto
  then show ?thesis by (simp add: ck_want_def CK_BUCKET_SLOTS_def)
qed

lemma ck_want_capacity:
  assumes "unat n < 171798692"
  shows "unat n < 4 * unat (ck_want n)"
proof -
  let ?q = "n div 4" and ?x = "(n div 4) * 100 :: u32"
  have q: "unat ?q = unat n div 4" by (simp add: unat_div_distrib)
  have x: "unat ?x = unat n div 4 * 100"
    using assms q by (subst unat_mult_lem [THEN iffD1]) auto
  have "unat (?x div 85 + 1) = unat ?x div 85 + 1"
    using assms x by (subst unat_add_lem [THEN iffD1]) (auto simp: unat_div_distrib)
  moreover have "unat n div 4 \<le> unat n div 4 * 100 div 85" by simp
  ultimately have "unat n div 4 + 1 \<le> unat (?x div 85 + 1)" using x by simp
  then show ?thesis by (simp add: ck_want_def CK_BUCKET_SLOTS_def)
qed

lemma ck_abs_empty: "ck_abs \<lparr>ck_n_buckets = nb, ck_count = c, ck_buckets = replicate n (replicate m 0)\<rparr> = {#}"
proof -
  have e: "filter_mset (\<lambda>f. f \<noteq> 0) (replicate_mset m (0 :: u8)) = {#}" by (induction m) auto
  show ?thesis by (simp add: ck_abs_def bucket_mset_def e)
qed

lemma kv_cuckoo_init_ok:
  assumes "n \<noteq> 0"
  shows "\<exists>cf. kv_cuckoo_init True True n = Some (0, Some cf) \<and> ck_wf cf \<and> ck_abs cf = {#} \<and> ck_count cf = 0 \<and>
    (unat n < 171798692 \<longrightarrow> unat n \<le> unat (kv_cuckoo_capacity cf))"
proof -
  obtain k where k: "k \<le> 26" "ck_size (Suc 26 - 4) (2 ^ 4) (ck_want n) = Some (2 ^ k)" "unat (ck_want n) \<le> 2 ^ k"
    using ck_size_ok [OF ck_want_bound, of 4 n] by auto
  have size: "ck_size 32 16 (ck_want n) = Some (2 ^ k)" using ck_size_mono [OF k(2), of 9] by simp
  let ?cf = "\<lparr>ck_n_buckets = 2 ^ k, ck_count = 0, ck_buckets = replicate (unat (2 ^ k :: u32)) (replicate CK_BUCKET_SLOTS 0)\<rparr>"
  have "(2 :: nat) ^ k \<le> 2 ^ 26" using k(1) by (intro power_increasing) simp_all
  then have u: "unat (2 ^ k * 4 :: u32) = 4 * 2 ^ k" using unat_of_nat_u32 [of "2 ^ k * 4"] by simp
  have "kv_cuckoo_init True True n = Some (0, Some ?cf)" using assms size by (simp add: kv_cuckoo_init_def)
  moreover have "ck_wf ?cf" using k(1) by (auto simp: ck_wf_def list_all_iff intro: exI [of _ k])
  moreover have "unat n \<le> unat (kv_cuckoo_capacity ?cf)" if "unat n < 171798692"
    using ck_want_capacity [OF that] k(3) u by (simp add: kv_cuckoo_capacity_def CK_BUCKET_SLOTS_def)
  ultimately show ?thesis by (auto simp: ck_abs_empty)
qed

section \<open>Sequences of operations\<close>

text \<open>The calls of a client with their arguments, the clock of an insertion included, and the results
  of running a sequence of them.\<close>

datatype ck_op = CkInsert u64 u64 | CkDelete u64 | CkLookup u64

datatype ck_res = CkRc int | CkBool bool

fun ck_do :: "kv_cuckoo \<Rightarrow> ck_op \<Rightarrow> ck_res \<times> kv_cuckoo" where
  "ck_do cf (CkInsert now key) = (case kv_cuckoo_insert now cf key of (rc, cf) \<Rightarrow> (CkRc rc, cf))"
| "ck_do cf (CkDelete key) = (case kv_cuckoo_delete cf key of (r, cf) \<Rightarrow> (CkBool r, cf))"
| "ck_do cf (CkLookup key) = (CkBool (kv_cuckoo_lookup cf key), cf)"

primrec ck_exec :: "ck_op list \<Rightarrow> kv_cuckoo \<Rightarrow> ck_res list \<times> kv_cuckoo" where
  "ck_exec [] cf = ([], cf)"
| "ck_exec (x # xs) cf = (case ck_do cf x of (r, cf) \<Rightarrow> case ck_exec xs cf of (rs, cf) \<Rightarrow> (r # rs, cf))"

text \<open>The specification: the contents are a multiset of classes.  An insertion may give up only when
  the multiset holds enough classes near the key to fill all its buckets, and then one class
  of the multiset with the new one added is lost.\<close>

definition ck_full :: "u8 \<times> u32 set \<Rightarrow> (u8 \<times> u32 set) multiset \<Rightarrow> bool" where
  "ck_full c M \<longleftrightarrow> CK_BUCKET_SLOTS * card (snd c) \<le> size {#x \<in># M. snd x \<inter> snd c \<noteq> {}#}"

inductive ck_spec :: "(u64 \<Rightarrow> u8 \<times> u32 set) \<Rightarrow> (u8 \<times> u32 set) multiset \<Rightarrow> ck_op list \<Rightarrow> ck_res list \<Rightarrow>
    (u8 \<times> u32 set) multiset \<Rightarrow> bool" for cls where
  nil: "ck_spec cls M [] [] M"
| insert: "ck_spec cls (add_mset (cls key) M) xs rs M' \<Longrightarrow> ck_spec cls M (CkInsert now key # xs) (CkRc 0 # rs) M'"
| give_up: "ck_full (cls key) M \<Longrightarrow> lost \<in># add_mset (cls key) M \<Longrightarrow>
    ck_spec cls (add_mset (cls key) M - {#lost#}) xs rs M' \<Longrightarrow> ck_spec cls M (CkInsert now key # xs) (CkRc (-1) # rs) M'"
| delete: "ck_spec cls (M - {#cls key#}) xs rs M' \<Longrightarrow> ck_spec cls M (CkDelete key # xs) (CkBool (cls key \<in># M) # rs) M'"
| lookup: "ck_spec cls M xs rs M' \<Longrightarrow> ck_spec cls M (CkLookup key # xs) (CkBool (cls key \<in># M) # rs) M'"

inductive_cases ck_spec_nilE: "ck_spec cls M [] rs M'"
inductive_cases ck_spec_insertE: "ck_spec cls M (CkInsert now key # xs) rs M'"
inductive_cases ck_spec_deleteE: "ck_spec cls M (CkDelete key # xs) rs M'"
inductive_cases ck_spec_lookupE: "ck_spec cls M (CkLookup key # xs) rs M'"

primrec ck_inserted :: "ck_op list \<Rightarrow> u64 multiset" where
  "ck_inserted [] = {#}"
| "ck_inserted (x # xs) = (case x of CkInsert now key \<Rightarrow> add_mset key (ck_inserted xs) | _ \<Rightarrow> ck_inserted xs)"

primrec ck_deleted :: "ck_op list \<Rightarrow> u64 multiset" where
  "ck_deleted [] = {#}"
| "ck_deleted (x # xs) = (case x of CkDelete key \<Rightarrow> add_mset key (ck_deleted xs) | _ \<Rightarrow> ck_deleted xs)"

text \<open>No key meets more inserted keys, itself included, than its buckets have slots.\<close>

definition ck_roomy :: "(u64 \<Rightarrow> u8 \<times> u32 set) \<Rightarrow> u64 multiset \<Rightarrow> bool" where
  "ck_roomy cls ks \<longleftrightarrow>
    (\<forall>key \<in># ks. size {#k \<in># ks. snd (cls k) \<inter> snd (cls key) \<noteq> {}#} \<le> CK_BUCKET_SLOTS * card (snd (cls key)))"

subsection \<open>The filter implements the specification\<close>

lemma key_class_cong: "ck_n_buckets cf' = ck_n_buckets cf \<Longrightarrow> key_class cf' = key_class cf"
  by (simp add: key_class_def ck_index1_def fun_eq_iff)

lemma size_bucket_mset: "size (bucket_mset n i b) \<le> length b"
  using size_filter_mset_lesseq [of "\<lambda>f. f \<noteq> 0" "mset b"] by (simp add: bucket_mset_def)

lemma size_ck_abs:
  assumes "ck_wf cf"
  shows "size (ck_abs cf) < 2 ^ 32"
proof -
  obtain k where k: "k < 30" "length (ck_buckets cf) = 2 ^ k"
    "\<And>i. i < 2 ^ k \<Longrightarrow> length (ck_buckets cf ! i) = CK_BUCKET_SLOTS" using ck_wfE [OF assms] by metis
  have "size (ck_abs cf) = (\<Sum>i < 2 ^ k. size (bucket_mset (ck_n_buckets cf) (of_nat i) (ck_buckets cf ! i)))"
    by (simp add: ck_abs_def k(2) size_multiset_sum)
  also have "\<dots> \<le> (\<Sum>i < (2 :: nat) ^ k. CK_BUCKET_SLOTS)"
    using size_bucket_mset k(3) by (intro sum_mono) (metis lessThan_iff)
  also have "\<dots> = 4 * 2 ^ k" by (simp add: CK_BUCKET_SLOTS_def)
  also have "\<dots> \<le> 4 * 2 ^ 29" using k(1) by (intro mult_le_mono2 power_increasing) simp_all
  finally show ?thesis by simp
qed

text \<open>Full buckets hold as many classes near the key as they have slots.\<close>

lemma ck_full_buckets:
  assumes wf: "ck_wf cf" and B: "B = snd c" "finite B"
    and full: "\<And>i s. i \<in> B \<Longrightarrow> unat i < length (ck_buckets cf) \<and> (s < CK_BUCKET_SLOTS \<longrightarrow> ck_at cf i ! s \<noteq> 0)"
  shows "ck_full c (ck_abs cf)"
proof -
  let ?near = "\<lambda>x. snd x \<inter> B \<noteq> {}"
  let ?g = "\<lambda>i. bucket_mset (ck_n_buckets cf) (of_nat i) (ck_buckets cf ! i)"
  have filt: "size (filter_mset ?near (\<Sum>i < m. g i)) = (\<Sum>i < m. size (filter_mset ?near (g i)))"
    for m :: nat and g :: "nat \<Rightarrow> (u8 \<times> u32 set) multiset" by (induction m) simp_all
  have "size (filter_mset ?near (?g (unat i))) = CK_BUCKET_SLOTS" if i: "i \<in> B" for i
  proof -
    have len: "length (ck_at cf i) = CK_BUCKET_SLOTS" using full [OF i] by (simp add: ck_at_length [OF wf])
    then have "\<forall>f \<in># mset (ck_at cf i). f \<noteq> 0" using full [OF i] by (auto simp: in_set_conv_nth)
    then have "filter_mset (\<lambda>f. f \<noteq> 0) (mset (ck_at cf i)) = mset (ck_at cf i)" by (simp add: filter_mset_eq_conv)
    then have g: "?g (unat i) = image_mset (ck_class (ck_n_buckets cf) i) (mset (ck_at cf i))"
      by (simp add: bucket_mset_def ck_at_def)
    have "filter_mset ?near (?g (unat i)) = ?g (unat i)"
      unfolding g using i by (auto simp: filter_mset_eq_conv ck_class_def)
    then show ?thesis unfolding g by (simp add: len)
  qed
  then have "CK_BUCKET_SLOTS * card B = (\<Sum>i \<in> unat ` B. size (filter_mset ?near (?g i)))"
    by (simp add: sum.reindex inj_on_def word_unat_eq_iff)
  also have "\<dots> \<le> (\<Sum>i < length (ck_buckets cf). size (filter_mset ?near (?g i)))"
    using full by (intro sum_mono2) auto
  finally show ?thesis by (simp add: ck_full_def ck_abs_def filt B(1) [symmetric])
qed

lemma kv_cuckoo_insert_full:
  assumes wf: "ck_wf cf" and ins: "kv_cuckoo_insert now cf key = (rc, cf')" and "rc \<noteq> 0"
  shows "ck_full (key_class cf key) (ck_abs cf)"
proof (rule ck_full_buckets [OF wf refl])
  obtain f :: u8 where f: "f \<noteq> 0" "fp_of key = ucast f" using fp_of_small(2) by blast
  let ?i1 = "ck_index1 cf key"
  let ?i2 = "alt_index ?i1 (ucast f) (ck_n_buckets cf)"
  have cls: "snd (key_class cf key) = {?i1, ?i2}" by (simp add: key_class_def ck_class_def f(2))
  show "finite (snd (key_class cf key))" by (simp add: cls)
  obtain rc1 b1 where ins1: "bucket_insert (ck_at cf ?i1) (ucast f) = (rc1, b1)" by fastforce
  obtain rc2 b2 where ins2: "bucket_insert (ck_at cf ?i2) (ucast f) = (rc2, b2)" by fastforce
  have "rc1 \<noteq> 0 \<and> rc2 \<noteq> 0"
    using ins ins1 ins2 assms(3) by (auto simp: kv_cuckoo_insert_def Let_def f(2) split: if_splits)
  then have "s < CK_BUCKET_SLOTS \<longrightarrow> ck_at cf ?i1 ! s \<noteq> 0 \<and> ck_at cf ?i2 ! s \<noteq> 0" for s
    using bucket_insert_full [OF ins1] bucket_insert_full [OF ins2] by blast
  then show "unat i < length (ck_buckets cf) \<and> (s < CK_BUCKET_SLOTS \<longrightarrow> ck_at cf i ! s \<noteq> 0)"
    if "i \<in> snd (key_class cf key)" for i s
    using that index_less [OF wf] unfolding cls by blast
qed

definition ck_inv :: "kv_cuckoo \<Rightarrow> bool" where
  "ck_inv cf \<longleftrightarrow> ck_wf cf \<and> unat (ck_count cf) = size (ck_abs cf)"

lemma ck_do_spec:
  assumes inv: "ck_inv cf" and do: "ck_do cf x = (r, cf')"
  shows "ck_inv cf' \<and> ck_n_buckets cf' = ck_n_buckets cf \<and>
    (ck_spec (key_class cf) (ck_abs cf') xs rs M' \<longrightarrow> ck_spec (key_class cf) (ck_abs cf) (x # xs) (r # rs) M')"
proof (cases x)
  case (CkInsert now key)
  let ?M = "add_mset (key_class cf key) (ck_abs cf)"
  obtain rc where ins: "kv_cuckoo_insert now cf key = (rc, cf')" "r = CkRc rc"
    using do CkInsert by (auto split: prod.splits)
  have wf: "ck_wf cf" "unat (ck_count cf) = size (ck_abs cf)" using inv by (auto simp: ck_inv_def)
  note abs = kv_cuckoo_insert_abs [OF wf(1) ins(1)]
  then consider "rc = 0" "ck_abs cf' = ?M" "ck_count cf' = ck_count cf + 1"
    | lost where "rc = -1" "ck_count cf' = ck_count cf" "add_mset lost (ck_abs cf') = ?M" by blast
  then show ?thesis
  proof cases
    case 1
    have "size ?M < 2 ^ 32" using size_ck_abs [of cf'] abs 1(2) by simp
    then have "unat (ck_count cf + 1) = size ?M" using wf(2) by (simp add: unat_word_ariths(1))
    then show ?thesis using 1 abs ins(2) CkInsert by (auto simp: ck_inv_def intro: ck_spec.insert)
  next
    case 2
    have M: "lost \<in># ?M" "ck_abs cf' = ?M - {#lost#}" using 2(3) by (metis union_single_eq_member, metis add_mset_remove_trivial)
    have "size (ck_abs cf') = size (ck_abs cf)" using arg_cong [OF 2(3), of size] by simp
    moreover have "ck_full (key_class cf key) (ck_abs cf)" using kv_cuckoo_insert_full [OF wf(1) ins(1)] 2(1) by simp
    ultimately show ?thesis
      using abs wf 2(1,2) ins(2) CkInsert M by (auto simp: ck_inv_def intro: ck_spec.give_up)
  qed
next
  case (CkDelete key)
  obtain b where del: "kv_cuckoo_delete cf key = (b, cf')" "r = CkBool b"
    using do CkDelete by (auto split: prod.splits)
  have wf: "ck_wf cf" "unat (ck_count cf) = size (ck_abs cf)" using inv by (auto simp: ck_inv_def)
  note abs = kv_cuckoo_delete_abs [OF wf(1) del(1)]
  have "unat (ck_count cf') = size (ck_abs cf')"
  proof (cases b)
    case True
    then have mem: "key_class cf key \<in># ck_abs cf" using abs by simp
    then have "0 < unat (ck_count cf)" using wf(2) by (simp add: nonempty_has_size [symmetric]) auto
    then have "ck_count cf \<noteq> 0" by auto
    then show ?thesis using abs True wf(2) mem by (simp add: size_Diff_singleton unat_minus_one)
  next
    case False
    then show ?thesis using abs wf(2) by (simp add: diff_single_trivial)
  qed
  then show ?thesis using abs del(2) CkDelete ck_spec.delete [of "key_class cf" "ck_abs cf" key] by (auto simp: ck_inv_def)
next
  case (CkLookup key)
  then show ?thesis
    using do inv kv_cuckoo_lookup_abs [of cf key] ck_spec.lookup [of "key_class cf" "ck_abs cf" xs rs M' key]
    by (auto simp: ck_inv_def)
qed

lemma ck_exec_spec:
  assumes "ck_inv cf" and "ck_exec xs cf = (rs, cf')"
  shows "ck_inv cf' \<and> ck_n_buckets cf' = ck_n_buckets cf \<and> ck_spec (key_class cf) (ck_abs cf) xs rs (ck_abs cf')"
  using assms
proof (induction xs arbitrary: cf rs)
  case Nil
  then show ?case by (auto intro: ck_spec.nil)
next
  case (Cons x xs)
  obtain r cf1 where do: "ck_do cf x = (r, cf1)" by fastforce
  obtain rs1 where run: "ck_exec xs cf1 = (rs1, cf')" "rs = r # rs1" using Cons.prems(2) do by (auto split: prod.splits)
  note st = ck_do_spec [OF Cons.prems(1) do, of xs rs1 "ck_abs cf'"]
  have n: "ck_inv cf1" "ck_n_buckets cf1 = ck_n_buckets cf" using st by blast+
  have "ck_spec (key_class cf) (ck_abs cf1) xs rs1 (ck_abs cf')"
    using Cons.IH [OF n(1) run(1)] unfolding key_class_cong [OF n(2)] by blast
  then show ?case using Cons.IH [OF n(1) run(1)] st n(2) run(2) by simp
qed

lemma ck_init_exec:
  assumes "n \<noteq> 0"
  shows "\<exists>cf. kv_cuckoo_init True True n = Some (0, Some cf) \<and>
    (unat n < 171798692 \<longrightarrow> unat n \<le> unat (kv_cuckoo_capacity cf)) \<and>
    (\<forall>xs rs cf'. ck_exec xs cf = (rs, cf') \<longrightarrow>
      ck_inv cf' \<and> key_class cf' = key_class cf \<and> ck_spec (key_class cf) {#} xs rs (ck_abs cf'))"
proof -
  obtain cf where cf: "kv_cuckoo_init True True n = Some (0, Some cf)" "ck_wf cf" "ck_abs cf = {#}" "ck_count cf = 0"
    "unat n < 171798692 \<longrightarrow> unat n \<le> unat (kv_cuckoo_capacity cf)"
    using kv_cuckoo_init_ok [OF assms] by blast
  have "ck_inv cf" using cf(2-4) by (simp add: ck_inv_def)
  then have "ck_inv cf' \<and> key_class cf' = key_class cf \<and> ck_spec (key_class cf) {#} xs rs (ck_abs cf')"
    if "ck_exec xs cf = (rs, cf')" for xs rs cf'
    using ck_exec_spec [OF _ that] key_class_cong [of cf' cf] cf(3) by simp
  then show ?thesis using cf(1,5) by blast
qed

subsection \<open>What the specification guarantees\<close>

lemma ck_spec_keeps:
  assumes "ck_spec cls M xs rs M'" and "CkRc (-1) \<notin> set rs"
  shows "M + image_mset cls (ck_inserted xs) - image_mset cls (ck_deleted xs) \<subseteq># M'"
  using assms
proof (induction rule: ck_spec.induct)
  case (delete M key xs rs M')
  let ?I = "image_mset cls (ck_inserted xs)" and ?D = "image_mset cls (ck_deleted xs)"
  have "M + ?I - add_mset (cls key) ?D \<subseteq># M - {#cls key#} + ?I - ?D" by (auto simp: subseteq_mset_def)
  then show ?case using delete by (auto intro: subset_mset.order_trans)
qed auto

lemma ck_spec_roomy:
  assumes "ck_spec cls M xs rs M'" and "\<And>k. card (snd (cls k)) \<noteq> 0"
    and "\<forall>key \<in># ck_inserted xs. size {#x \<in># M + image_mset cls (ck_inserted xs). snd x \<inter> snd (cls key) \<noteq> {}#} \<le>
      CK_BUCKET_SLOTS * card (snd (cls key))"
  shows "CkRc (-1) \<notin> set rs"
  using assms(1,3)
proof (induction rule: ck_spec.induct)
  case (give_up key M lost xs rs M' now)
  have "snd (cls key) \<inter> snd (cls key) \<noteq> {}" using assms(2) [of key] by auto
  then have "size {#x \<in># M. snd x \<inter> snd (cls key) \<noteq> {}#} < CK_BUCKET_SLOTS * card (snd (cls key))"
    using give_up.prems by auto
  then show ?case using give_up.hyps(1) by (simp add: ck_full_def)
next
  case (delete M key xs rs M')
  have "size {#x \<in># M - {#cls key#} + image_mset cls (ck_inserted xs). P x#} \<le> size {#x \<in># M + image_mset cls (ck_inserted xs). P x#}"
    for P by (intro size_mset_mono multiset_filter_mono) (simp add: diff_subset_eq_self)
  note le = this
  have "size {#x \<in># M - {#cls key#} + image_mset cls (ck_inserted xs). snd x \<inter> snd (cls k) \<noteq> {}#} \<le>
      CK_BUCKET_SLOTS * card (snd (cls k))" if k: "k \<in># ck_inserted xs" for k
  proof -
    have "size {#x \<in># M + image_mset cls (ck_inserted xs). snd x \<inter> snd (cls k) \<noteq> {}#} \<le> CK_BUCKET_SLOTS * card (snd (cls k))"
      using delete.prems k by simp
    then show ?thesis by (rule order_trans [OF le])
  qed
  then show ?case using delete.IH by simp
qed auto

lemma key_class_card: "card (snd (key_class cf k)) \<noteq> 0"
  by (simp add: key_class_def ck_class_def)

section \<open>Properties\<close>

text \<open>C37: A filter built for any nonzero number of entries refines a multiset of classes, a class being
  a fingerprint with its pair of buckets, over every sequence of insertions, deletions and
  lookups: the results are those of the multiset.  A lookup is membership, a deletion removes one
  occurrence and reports whether there was one, an insertion adds one occurrence; an insertion
  fails only if stored classes near the key fill every slot of its buckets, and then exactly one
  class of the multiset, or the new one, is lost.  The count is the size of the multiset.\<close>

theorem cuckoo_refines_multiset:
  assumes "n \<noteq> 0"
  shows "\<exists>cf. kv_cuckoo_init True True n = Some (0, Some cf) \<and>
    (\<forall>xs rs cf'. ck_exec xs cf = (rs, cf') \<longrightarrow>
      ck_spec (key_class cf) {#} xs rs (ck_abs cf') \<and> unat (kv_cuckoo_count cf') = size (ck_abs cf'))"
  using ck_init_exec [OF assms] by (auto simp: ck_inv_def kv_cuckoo_count_def)

text \<open>C38: A filter built for any nonzero number of entries has room for that many entries below about
  172 million.  After any sequence of operations in which no insertion gave up and no more
  deletions than insertions of a key were made, every key inserted more often than deleted is
  found: there are no false negatives.  And no insertion gives up as long as every inserted key
  meets at most as many inserted keys in its buckets as the buckets have slots.\<close>

theorem cuckoo_no_false_negatives:
  assumes "n \<noteq> 0"
  shows "\<exists>cf. kv_cuckoo_init True True n = Some (0, Some cf) \<and>
    (unat n < 171798692 \<longrightarrow> unat n \<le> unat (kv_cuckoo_capacity cf)) \<and>
    (\<forall>xs rs cf'. ck_exec xs cf = (rs, cf') \<longrightarrow>
      (CkRc (-1) \<notin> set rs \<and> ck_deleted xs \<subseteq># ck_inserted xs \<longrightarrow>
        (\<forall>key \<in># ck_inserted xs - ck_deleted xs. kv_cuckoo_lookup cf' key)) \<and>
      (ck_roomy (key_class cf) (ck_inserted xs) \<longrightarrow> CkRc (-1) \<notin> set rs))"
proof -
  obtain cf where cf: "kv_cuckoo_init True True n = Some (0, Some cf)"
    "unat n < 171798692 \<longrightarrow> unat n \<le> unat (kv_cuckoo_capacity cf)"
    and run: "\<And>xs rs cf'. ck_exec xs cf = (rs, cf') \<Longrightarrow>
      ck_wf cf' \<and> key_class cf' = key_class cf \<and> ck_spec (key_class cf) {#} xs rs (ck_abs cf')"
    using ck_init_exec [OF assms] by (auto simp: ck_inv_def)
  have "kv_cuckoo_lookup cf' key"
    if ex: "ck_exec xs cf = (rs, cf')" and rs: "CkRc (-1) \<notin> set rs" and sub: "ck_deleted xs \<subseteq># ck_inserted xs"
      and key: "key \<in># ck_inserted xs - ck_deleted xs" for xs rs cf' key
  proof -
    have "image_mset (key_class cf) (ck_inserted xs - ck_deleted xs) \<subseteq># ck_abs cf'"
      using ck_spec_keeps [of "key_class cf" "{#}" xs rs "ck_abs cf'"] run [OF ex] rs image_mset_Diff [OF sub, of "key_class cf"]
      by simp
    moreover have "key_class cf key \<in># image_mset (key_class cf) (ck_inserted xs - ck_deleted xs)" using key by simp
    ultimately have "key_class cf key \<in># ck_abs cf'" by (rule mset_subset_eqD)
    then show ?thesis using kv_cuckoo_lookup_abs [of cf' key] run [OF ex] by simp
  qed
  moreover have "CkRc (-1) \<notin> set rs" if "ck_exec xs cf = (rs, cf')" "ck_roomy (key_class cf) (ck_inserted xs)" for xs rs cf'
    using ck_spec_roomy [of "key_class cf" "{#}" xs rs "ck_abs cf'"] run [OF that(1)] that(2) key_class_card
    by (simp add: ck_roomy_def filter_mset_image_mset)
  ultimately show ?thesis using cf by blast
qed

section \<open>Instances\<close>

theorem cuckoo_refines_multiset_witness:
  "\<exists>cf. kv_cuckoo_init True True 100 = Some (0, Some cf) \<and>
    fst (ck_exec [CkInsert 0 7, CkLookup 7, CkDelete 7, CkLookup 7] cf) = [CkRc 0, CkBool True, CkBool True, CkBool False]"
proof -
  let ?xs = "[CkInsert 0 7, CkLookup 7, CkDelete 7, CkLookup 7]"
  have n: "(100 :: u32) \<noteq> 0" by simp
  obtain cf where cf: "kv_cuckoo_init True True 100 = Some (0, Some cf)"
    and run: "\<forall>xs rs cf'. ck_exec xs cf = (rs, cf') \<longrightarrow>
      ck_spec (key_class cf) {#} xs rs (ck_abs cf') \<and> unat (kv_cuckoo_count cf') = size (ck_abs cf')"
    using cuckoo_refines_multiset [OF n] by (elim exE conjE)
  have full: "\<not> ck_full (key_class cf 7) {#}" using key_class_card [of cf 7] by (simp add: ck_full_def CK_BUCKET_SLOTS_def)
  obtain rs cf' where ex: "ck_exec ?xs cf = (rs, cf')" by (cases "ck_exec ?xs cf")
  then have "ck_spec (key_class cf) {#} ?xs rs (ck_abs cf')" using run by blast
  then have "rs = [CkRc 0, CkBool True, CkBool True, CkBool False]"
    using full by (auto elim!: ck_spec_insertE ck_spec_lookupE ck_spec_deleteE ck_spec_nilE)
  then show ?thesis using cf ex by (intro exI [of _ cf]) (simp only: fst_conv)
qed

text \<open>Four insertions always succeed, and the three keys that are left are found.\<close>

theorem cuckoo_no_false_negatives_witness:
  "\<exists>cf. kv_cuckoo_init True True 100 = Some (0, Some cf) \<and> 100 \<le> unat (kv_cuckoo_capacity cf) \<and>
    (\<forall>rs cf'. ck_exec [CkInsert 0 7, CkInsert 1 9, CkInsert 2 11, CkInsert 3 13, CkDelete 9] cf = (rs, cf') \<longrightarrow>
      CkRc (-1) \<notin> set rs \<and> kv_cuckoo_lookup cf' 7 \<and> kv_cuckoo_lookup cf' 11 \<and> kv_cuckoo_lookup cf' 13)"
proof -
  let ?xs = "[CkInsert 0 7, CkInsert 1 9, CkInsert 2 11, CkInsert 3 13, CkDelete 9]"
  have n: "(100 :: u32) \<noteq> 0" by simp
  obtain cf where cf: "kv_cuckoo_init True True 100 = Some (0, Some cf)"
      "unat (100 :: u32) < 171798692 \<longrightarrow> unat (100 :: u32) \<le> unat (kv_cuckoo_capacity cf)"
    and run: "\<forall>xs rs cf'. ck_exec xs cf = (rs, cf') \<longrightarrow>
      (CkRc (-1) \<notin> set rs \<and> ck_deleted xs \<subseteq># ck_inserted xs \<longrightarrow>
        (\<forall>key \<in># ck_inserted xs - ck_deleted xs. kv_cuckoo_lookup cf' key)) \<and>
      (ck_roomy (key_class cf) (ck_inserted xs) \<longrightarrow> CkRc (-1) \<notin> set rs)"
    using cuckoo_no_false_negatives [OF n] by (elim exE conjE)
  have "size (ck_inserted ?xs) = 4" by simp
  then have "size {#k \<in># ck_inserted ?xs. P k#} \<le> 4" for P using size_filter_mset_lesseq [of P "ck_inserted ?xs"] by linarith
  moreover have "4 \<le> 4 * card (snd (key_class cf key))" for key using key_class_card [of cf key] by linarith
  ultimately have "size {#k \<in># ck_inserted ?xs. P k#} \<le> 4 * card (snd (key_class cf key))" for P key
    by (rule order_trans)
  then have roomy: "ck_roomy (key_class cf) (ck_inserted ?xs)"
    unfolding ck_roomy_def CK_BUCKET_SLOTS_def by (intro ballI)
  have "CkRc (-1) \<notin> set rs \<and> kv_cuckoo_lookup cf' 7 \<and> kv_cuckoo_lookup cf' 11 \<and> kv_cuckoo_lookup cf' 13"
    if "ck_exec ?xs cf = (rs, cf')" for rs cf'
  proof -
    note r = run [THEN spec, THEN spec, THEN spec, THEN mp, OF that]
    have ok: "CkRc (-1) \<notin> set rs" using conjunct2 [OF r] roomy by (rule mp)
    have "ck_deleted ?xs \<subseteq># ck_inserted ?xs" by simp
    then have "\<forall>key \<in># ck_inserted ?xs - ck_deleted ?xs. kv_cuckoo_lookup cf' key"
      using conjunct1 [OF r] ok by iprover
    then show ?thesis using ok by simp
  qed
  moreover have "100 \<le> unat (kv_cuckoo_capacity cf)" using cf(2) by simp
  ultimately show ?thesis using cf(1) by blast
qed

end
