(* ===== verification/KV_Dram.thy ===== *)
theory KV_Dram
  imports KV_Hash "HOL-Library.Multiset"
begin

text \<open>
  The DRAM read cache of \<open>src/dram.cpp\<close>: shards with hash chains and a SIEVE queue, entries
  carved from a mapped arena in size classes with free lists.  Entries live in an explicit store
  from addresses to entries; chains and queues are the code's own linked lists through that
  store, and a null pointer is \<open>None\<close>.  The outcomes of \<open>mmap\<close>, \<open>madvise\<close> and \<open>malloc\<close> and
  the clock are arguments.  A free block's link to the next one overlays the entry it held; the
  free lists are therefore kept as lists of addresses.  Loops over chains take fuel and answer
  \<open>None\<close> when it runs out.
\<close>

section \<open>Data\<close>

definition KV_DRAM_DEFAULT_BYTES :: u64 where "KV_DRAM_DEFAULT_BYTES = 256 * 1024 * 1024"
definition KV_DRAM_DEFAULT_ENTRY_MAX :: u64 where "KV_DRAM_DEFAULT_ENTRY_MAX = 8 * 1024 * 1024"
definition KV_DRAM_BACKEND_AUTO :: u8 where "KV_DRAM_BACKEND_AUTO = 0"
definition KV_DRAM_BACKEND_PLAIN :: u8 where "KV_DRAM_BACKEND_PLAIN = 1"
definition KV_DRAM_BACKEND_THP :: u8 where "KV_DRAM_BACKEND_THP = 2"
definition KV_DRAM_BACKEND_HUGETLB :: u8 where "KV_DRAM_BACKEND_HUGETLB = 3"
definition KV_DRAM_BACKEND_MAX :: u8 where "KV_DRAM_BACKEND_MAX = 3"
definition KV_DRAM_N_SHARDS :: nat where "KV_DRAM_N_SHARDS = 64"
definition KV_DRAM_SHARD_BUCKETS :: nat where "KV_DRAM_SHARD_BUCKETS = 256"
definition KV_DRAM_N_CLASSES :: nat where "KV_DRAM_N_CLASSES = 6"
definition KV_DRAM_HUGEPAGE_SZ :: u64 where "KV_DRAM_HUGEPAGE_SZ = 2 * 1024 * 1024"

definition class_cap :: "u32 list" where
  "class_cap = [4 * 1024, 16 * 1024, 64 * 1024, 256 * 1024, 1024 * 1024, 8 * 1024 * 1024]"

record dram_rec =
  dx_layer_id :: u16
  dx_off :: u32
  dx_len :: u32

record dram_entry =
  de_prefix_id :: u64
  de_group_idx :: u32
  de_ver :: u32
  de_expire_ts :: u32
  de_buf_len :: u32
  de_n_records :: u16
  de_external :: bool
  de_visited :: bool
  de_size_class :: nat
  de_hnext :: "u64 option"
  de_sprev :: "u64 option"
  de_snext :: "u64 option"
  de_recs :: "dram_rec list"
  de_buf :: bytes

type_synonym dram_mem = "u64 \<Rightarrow> dram_entry"

record dram_shard =
  ds_budget :: u64
  ds_buckets :: "u64 option list"
  ds_head :: "u64 option"
  ds_tail :: "u64 option"
  ds_hand :: "u64 option"
  ds_bytes :: u64

text \<open>\<open>dc_frees\<close> lists the addresses handed to \<open>free\<close>.\<close>

record dram_cache =
  dc_budget :: u64
  dc_shard_budget :: u64
  dc_entry_max :: u64
  dc_backend :: u8
  dc_n_shards :: nat
  dc_mmap_base :: u64
  dc_mmap_len :: u64
  dc_arena :: u64
  dc_bump :: u64
  dc_freelists :: "u64 list list"
  dc_hits :: u64
  dc_misses :: u64
  dc_evictions :: u64
  dc_entries :: u64
  dc_bytes :: u64
  dc_shards :: "dram_shard list"
  dc_mem :: dram_mem
  dc_frees :: "u64 list"

section \<open>The arena\<close>

text \<open>What the kernel answers while the arena is mapped: whether huge pages can be mapped, the
  results of the \<open>mmap\<close> calls in order, and whether \<open>madvise\<close> succeeds.\<close>

record map_outcome =
  mo_hugetlb :: bool
  mo_mmap :: "u64 option list"
  mo_madvise :: bool
  mo_pagesize :: u64

definition next_map :: "u64 option list \<Rightarrow> u64 option \<times> u64 option list" where
  "next_map ms = (case ms of [] \<Rightarrow> (None, []) | m # ms \<Rightarrow> (m, ms))"

fun arena_try :: "map_outcome \<Rightarrow> dram_cache \<Rightarrow> u8 list \<Rightarrow> u64 option list \<Rightarrow> (u8 \<times> dram_cache) + (dram_cache \<times> u64 option list)" where
  "arena_try mo d [] ms = Inr (d, ms)"
| "arena_try mo d (b # order) ms =
    (if b = KV_DRAM_BACKEND_HUGETLB then
       (if \<not> mo_hugetlb mo then arena_try mo d order ms
        else let d = d\<lparr>dc_mmap_len := align_up (dc_budget d) KV_DRAM_HUGEPAGE_SZ\<rparr>
             in case next_map ms of
                  (None, ms) \<Rightarrow> arena_try mo d order ms
                | (Some p, ms) \<Rightarrow> Inl (KV_DRAM_BACKEND_HUGETLB, d\<lparr>dc_mmap_base := p, dc_arena := p\<rparr>))
     else if b = KV_DRAM_BACKEND_THP then
       (let d = d\<lparr>dc_mmap_len := align_up (dc_budget d) 4096 + KV_DRAM_HUGEPAGE_SZ\<rparr>
        in case next_map ms of
             (None, ms) \<Rightarrow> arena_try mo d order ms
           | (Some p, ms) \<Rightarrow>
               let d = d\<lparr>dc_mmap_base := p, dc_arena := align_up p KV_DRAM_HUGEPAGE_SZ\<rparr>
               in if \<not> mo_madvise mo then arena_try mo (d\<lparr>dc_mmap_base := 0\<rparr>) order ms
                  else Inl (KV_DRAM_BACKEND_THP, d))
     else arena_try mo d order ms)"

definition arena_map :: "map_outcome \<Rightarrow> dram_cache \<Rightarrow> u8 \<Rightarrow> u8 \<times> dram_cache" where
  "arena_map mo d backend_req =
    (let order = (if backend_req = KV_DRAM_BACKEND_AUTO then [KV_DRAM_BACKEND_HUGETLB, KV_DRAM_BACKEND_THP]
                  else [backend_req])
     in case arena_try mo d order (mo_mmap mo) of
          Inl (b, d) \<Rightarrow> (b, d)
        | Inr (d, ms) \<Rightarrow>
            let d = d\<lparr>dc_mmap_len := align_up (dc_budget d) (mo_pagesize mo)\<rparr>
            in case next_map ms of
                 (None, _) \<Rightarrow> (0, d)
               | (Some p, _) \<Rightarrow> (KV_DRAM_BACKEND_PLAIN, d\<lparr>dc_mmap_base := p, dc_arena := p\<rparr>))"

definition entry_total :: "u16 \<Rightarrow> u32 \<Rightarrow> u32" where
  "entry_total n_records buf_len = ucast ((56 :: u64) + ucast n_records * 12 + ucast buf_len)"

definition pick_class :: "u32 \<Rightarrow> nat" where
  "pick_class total_len =
    (case find (\<lambda>c. total_len \<le> class_cap ! c) [0..<KV_DRAM_N_CLASSES] of Some c \<Rightarrow> c | None \<Rightarrow> KV_DRAM_N_CLASSES)"

text \<open>\<open>m\<close> is the result of \<open>malloc\<close>, should it be called.\<close>

definition class_alloc :: "u64 option \<Rightarrow> dram_cache \<Rightarrow> nat \<Rightarrow> u64 option \<times> dram_cache" where
  "class_alloc m d cls =
    (if cls < KV_DRAM_N_CLASSES then
       (case dc_freelists d ! cls of
          p # ps \<Rightarrow> (Some p, d\<lparr>dc_freelists := (dc_freelists d)[cls := ps]\<rparr>)
        | [] \<Rightarrow>
            if dc_bump d + ucast (class_cap ! cls) \<le> dc_mmap_len d - (dc_arena d - dc_mmap_base d)
            then (Some (dc_arena d + dc_bump d), d\<lparr>dc_bump := dc_bump d + ucast (class_cap ! cls)\<rparr>)
            else (m, d))
     else (m, d))"

definition class_free :: "dram_cache \<Rightarrow> u64 \<Rightarrow> nat \<Rightarrow> dram_cache" where
  "class_free d p cls =
    (if cls < KV_DRAM_N_CLASSES then d\<lparr>dc_freelists := (dc_freelists d)[cls := p # dc_freelists d ! cls]\<rparr>
     else d\<lparr>dc_frees := dc_frees d @ [p]\<rparr>)"

definition block_in_arena :: "dram_cache \<Rightarrow> u64 \<Rightarrow> bool" where
  "block_in_arena d x \<longleftrightarrow> dc_arena d \<le> x \<and> x < dc_arena d + dc_bump d"

section \<open>Queue and chains\<close>

definition queue_unlink :: "dram_mem \<Rightarrow> dram_shard \<Rightarrow> u64 \<Rightarrow> dram_mem \<times> dram_shard" where
  "queue_unlink m sh e =
    (let (m, sh) = (case de_sprev (m e) of
           Some p \<Rightarrow> (m(p := (m p)\<lparr>de_snext := de_snext (m e)\<rparr>), sh)
         | None \<Rightarrow> (m, sh\<lparr>ds_head := de_snext (m e)\<rparr>));
         (m, sh) = (case de_snext (m e) of
           Some n \<Rightarrow> (m(n := (m n)\<lparr>de_sprev := de_sprev (m e)\<rparr>), sh)
         | None \<Rightarrow> (m, sh\<lparr>ds_tail := de_sprev (m e)\<rparr>));
         sh = (if ds_hand sh = Some e then sh\<lparr>ds_hand := de_snext (m e)\<rparr> else sh)
     in (m(e := (m e)\<lparr>de_sprev := None, de_snext := None\<rparr>), sh))"

definition queue_push_tail :: "dram_mem \<Rightarrow> dram_shard \<Rightarrow> u64 \<Rightarrow> dram_mem \<times> dram_shard" where
  "queue_push_tail m sh e =
    (let m = m(e := (m e)\<lparr>de_snext := None, de_sprev := ds_tail sh\<rparr>);
         (m, sh) = (case ds_tail sh of
           Some t \<Rightarrow> (m(t := (m t)\<lparr>de_snext := Some e\<rparr>), sh)
         | None \<Rightarrow> (m, sh\<lparr>ds_head := Some e\<rparr>))
     in (m, sh\<lparr>ds_tail := Some e\<rparr>))"

definition dram_hash :: "u64 \<Rightarrow> u32 \<Rightarrow> u64" where
  "dram_hash prefix_id group_idx = hash_mix64 (prefix_id XOR push_bit 32 (ucast group_idx))"

definition shard_of :: "dram_cache \<Rightarrow> u64 \<Rightarrow> u32 \<Rightarrow> nat" where
  "shard_of d prefix_id group_idx = unat (dram_hash prefix_id group_idx mod of_nat (dc_n_shards d))"

definition bucket_of :: "u64 \<Rightarrow> u32 \<Rightarrow> nat" where
  "bucket_of prefix_id group_idx =
    unat ((ucast (dram_hash prefix_id group_idx) :: u32) AND of_nat (KV_DRAM_SHARD_BUCKETS - 1))"

primrec entry_find :: "nat \<Rightarrow> dram_mem \<Rightarrow> u64 option \<Rightarrow> u64 \<Rightarrow> u32 \<Rightarrow> u64 option option" where
  "entry_find 0 m e prefix_id group_idx = None"
| "entry_find (Suc k) m e prefix_id group_idx =
    (case e of
       None \<Rightarrow> Some None
     | Some a \<Rightarrow> if de_prefix_id (m a) = prefix_id \<and> de_group_idx (m a) = group_idx then Some (Some a)
                 else entry_find k m (de_hnext (m a)) prefix_id group_idx)"

text \<open>The unlinking loop walks a pointer to a link: a bucket's head or some entry's \<open>hnext\<close>.  The
  first argument pair of the result is the store, the second the new head.\<close>

primrec chain_unlink :: "nat \<Rightarrow> dram_mem \<Rightarrow> u64 option \<Rightarrow> u64 option \<Rightarrow> u64 \<Rightarrow> (dram_mem \<times> u64 option) option" where
  "chain_unlink 0 m head at e = None"
| "chain_unlink (Suc k) m head at e =
    (case (case at of None \<Rightarrow> head | Some q \<Rightarrow> de_hnext (m q)) of
       None \<Rightarrow> Some (m, head)
     | Some x \<Rightarrow>
         if x \<noteq> e then chain_unlink k m head (Some x) e
         else (case at of
                 None \<Rightarrow> Some (m, de_hnext (m e))
               | Some q \<Rightarrow> Some (m(q := (m q)\<lparr>de_hnext := de_hnext (m e)\<rparr>), head)))"

definition dram_fuel :: "dram_cache \<Rightarrow> nat" where
  "dram_fuel d = Suc (unat (dc_entries d))"

definition dc_shard :: "dram_cache \<Rightarrow> nat \<Rightarrow> dram_shard" where
  "dc_shard d i = dc_shards d ! i"

definition dc_set :: "dram_cache \<Rightarrow> nat \<Rightarrow> dram_mem \<Rightarrow> dram_shard \<Rightarrow> dram_cache" where
  "dc_set d i m sh = d\<lparr>dc_mem := m, dc_shards := (dc_shards d)[i := sh]\<rparr>"

definition entry_free :: "dram_cache \<Rightarrow> nat \<Rightarrow> u64 \<Rightarrow> dram_cache" where
  "entry_free d i e =
    (let en = dc_mem d e;
         tot = ucast (entry_total (de_n_records en) (de_buf_len en)) :: u64;
         sh = dc_shard d i;
         d = d\<lparr>dc_shards := (dc_shards d)[i := sh\<lparr>ds_bytes := ds_bytes sh - tot\<rparr>],
               dc_bytes := dc_bytes d - tot, dc_entries := dc_entries d - 1\<rparr>
     in if de_external en then d\<lparr>dc_frees := dc_frees d @ [e]\<rparr> else class_free d e (de_size_class en))"

text \<open>Taking an entry out of its chain and the queue, as eviction, replacement and invalidation
  all do.\<close>

definition entry_unlink :: "dram_cache \<Rightarrow> nat \<Rightarrow> u64 \<Rightarrow> dram_cache option" where
  "entry_unlink d i e =
    (let b = bucket_of (de_prefix_id (dc_mem d e)) (de_group_idx (dc_mem d e));
         sh = dc_shard d i
     in case chain_unlink (dram_fuel d) (dc_mem d) (ds_buckets sh ! b) None e of
          None \<Rightarrow> None
        | Some (m, head) \<Rightarrow>
            (case queue_unlink m (sh\<lparr>ds_buckets := (ds_buckets sh)[b := head]\<rparr>) e of
               (m, sh) \<Rightarrow> Some (dc_set d i m sh)))"

text \<open>The eviction loop; its first argument counts the rounds left of the guard.\<close>

primrec sieve_loop :: "nat \<Rightarrow> dram_cache \<Rightarrow> nat \<Rightarrow> u64 \<Rightarrow> dram_cache option" where
  "sieve_loop 0 d i protect = Some d"
| "sieve_loop (Suc k) d i protect =
    (let sh = dc_shard d i
     in if \<not> (ds_bytes sh > ds_budget sh) then Some d
        else case ds_head sh of
          None \<Rightarrow> Some d
        | Some h \<Rightarrow>
            let e = (case ds_hand sh of Some x \<Rightarrow> x | None \<Rightarrow> h);
                en = dc_mem d e
            in if e = protect then
                 sieve_loop k (dc_set d i (dc_mem d) (sh\<lparr>ds_hand := de_snext en\<rparr>)) i protect
               else if de_visited en then
                 sieve_loop k (dc_set d i ((dc_mem d)(e := en\<lparr>de_visited := False\<rparr>))
                     (sh\<lparr>ds_hand := de_snext en\<rparr>)) i protect
               else case entry_unlink d i e of
                 None \<Rightarrow> None
               | Some d \<Rightarrow>
                   let sh = dc_shard d i;
                       d = dc_set d i (dc_mem d) (sh\<lparr>ds_hand := de_snext en\<rparr>);
                       d = d\<lparr>dc_evictions := dc_evictions d + 1\<rparr>
                   in sieve_loop k (entry_free d i e) i protect)"

definition sieve_evict :: "dram_cache \<Rightarrow> nat \<Rightarrow> u64 \<Rightarrow> dram_cache option" where
  "sieve_evict d i protect =
    (case sieve_loop 4096 d i protect of
       None \<Rightarrow> None
     | Some d \<Rightarrow>
         let sh = dc_shard d i
         in Some (if ds_head sh = None then dc_set d i (dc_mem d) (sh\<lparr>ds_hand := None\<rparr>) else d))"

section \<open>Interface\<close>

function dram_n_shards :: "u64 \<Rightarrow> nat \<Rightarrow> nat" where
  "dram_n_shards budget n =
    (if 1 < n \<and> budget div of_nat n < 1024 * 1024 then dram_n_shards budget (n div 2) else n)"
  by pat_completeness auto
termination by (relation "measure snd") auto

definition dram_shard0 :: dram_shard where
  "dram_shard0 = \<lparr>ds_budget = 0, ds_buckets = replicate KV_DRAM_SHARD_BUCKETS None, ds_head = None,
    ds_tail = None, ds_hand = None, ds_bytes = 0\<rparr>"

definition dram_entry0 :: dram_entry where
  "dram_entry0 = \<lparr>de_prefix_id = 0, de_group_idx = 0, de_ver = 0, de_expire_ts = 0, de_buf_len = 0,
    de_n_records = 0, de_external = False, de_visited = False, de_size_class = 0, de_hnext = None,
    de_sprev = None, de_snext = None, de_recs = [], de_buf = []\<rparr>"

definition dram_init :: "map_outcome \<Rightarrow> u64 \<Rightarrow> u64 \<Rightarrow> u8 \<Rightarrow> int \<times> dram_cache option" where
  "dram_init mo budget entry_max backend_req =
    (if budget = 0 then (KV_EOK, None)
     else if backend_req > KV_DRAM_BACKEND_MAX then (- KV_EINVAL, None)
     else let n = dram_n_shards budget KV_DRAM_N_SHARDS;
              sb = budget div of_nat n;
              d = \<lparr>dc_budget = budget, dc_shard_budget = sb,
                   dc_entry_max = (if entry_max \<noteq> 0 then min_of entry_max budget else KV_DRAM_DEFAULT_ENTRY_MAX),
                   dc_backend = 0, dc_n_shards = n, dc_mmap_base = 0, dc_mmap_len = 0, dc_arena = 0, dc_bump = 0,
                   dc_freelists = replicate KV_DRAM_N_CLASSES [], dc_hits = 0, dc_misses = 0, dc_evictions = 0,
                   dc_entries = 0, dc_bytes = 0,
                   dc_shards = replicate n (dram_shard0\<lparr>ds_budget := sb\<rparr>) @ replicate (KV_DRAM_N_SHARDS - n) dram_shard0,
                   dc_mem = (\<lambda>_. dram_entry0), dc_frees = []\<rparr>
          in case arena_map mo d backend_req of
               (b, d) \<Rightarrow> if b = 0 then (- KV_ENOMEM, None) else (KV_EOK, Some (d\<lparr>dc_backend := b\<rparr>)))"

text \<open>Destruction frees the external entries of every chain.\<close>

primrec chain_external :: "nat \<Rightarrow> dram_mem \<Rightarrow> u64 option \<Rightarrow> u64 list option" where
  "chain_external 0 m e = None"
| "chain_external (Suc k) m e =
    (case e of
       None \<Rightarrow> Some []
     | Some a \<Rightarrow> map_option (\<lambda>r. (if de_external (m a) then [a] else []) @ r) (chain_external k m (de_hnext (m a))))"

primrec chains_external :: "nat \<Rightarrow> dram_mem \<Rightarrow> u64 option list \<Rightarrow> u64 list option" where
  "chains_external k m [] = Some []"
| "chains_external k m (b # bs) =
    (case chain_external k m b of
       None \<Rightarrow> None
     | Some r \<Rightarrow> map_option (\<lambda>rs. r @ rs) (chains_external k m bs))"

definition dram_destroy :: "dram_cache option \<Rightarrow> u64 list option" where
  "dram_destroy dopt =
    (case dopt of
       None \<Rightarrow> Some []
     | Some d \<Rightarrow> chains_external (dram_fuel d) (dc_mem d)
         (concat (map ds_buckets (take (dc_n_shards d) (dc_shards d)))))"

text \<open>\<open>ok\<close> is the outcome of allocating the copy.\<close>

definition dram_get :: "bool \<Rightarrow> u64 \<Rightarrow> dram_cache \<Rightarrow> u64 \<Rightarrow> u32 \<Rightarrow> u32 \<Rightarrow> nat \<Rightarrow>
    ((int \<times> (bytes \<times> dram_rec list) option) \<times> dram_cache) option" where
  "dram_get ok now d prefix_id group_idx expect_ver rec_cap =
    (let i = shard_of d prefix_id group_idx;
         b = bucket_of prefix_id group_idx
     in case entry_find (dram_fuel d) (dc_mem d) (ds_buckets (dc_shard d i) ! b) prefix_id group_idx of
          None \<Rightarrow> None
        | Some None \<Rightarrow> Some ((- KV_ENOENT, None), d\<lparr>dc_misses := dc_misses d + 1\<rparr>)
        | Some (Some e) \<Rightarrow>
            let en = dc_mem d e
            in if de_ver en \<noteq> expect_ver \<or> de_expire_ts en \<noteq> 0 \<and> ucast (de_expire_ts en) < now
               then Some ((- KV_ENOENT, None), d\<lparr>dc_misses := dc_misses d + 1\<rparr>)
               else if \<not> ok then Some ((- KV_ENOMEM, None), d)
               else Some ((KV_EOK, Some (de_buf en, take (min (unat (de_n_records en)) rec_cap) (de_recs en))),
                 d\<lparr>dc_mem := (dc_mem d)(e := en\<lparr>de_visited := True\<rparr>), dc_hits := dc_hits d + 1\<rparr>))"

definition dram_new_entry :: "u64 \<Rightarrow> u32 \<Rightarrow> u32 \<Rightarrow> u32 \<Rightarrow> bytes \<Rightarrow> dram_rec list \<Rightarrow> bool \<Rightarrow> nat \<Rightarrow> dram_entry" where
  "dram_new_entry prefix_id group_idx ver expire_ts buf recs external cls =
    dram_entry0\<lparr>de_prefix_id := prefix_id, de_group_idx := group_idx, de_ver := ver, de_expire_ts := expire_ts,
      de_buf_len := of_nat (length buf), de_n_records := of_nat (length recs), de_external := external,
      de_size_class := cls, de_recs := recs, de_buf := buf\<rparr>"

definition dram_link :: "dram_cache \<Rightarrow> nat \<Rightarrow> nat \<Rightarrow> u64 \<Rightarrow> dram_entry \<Rightarrow> u64 \<Rightarrow> dram_cache" where
  "dram_link d i b e en tot =
    (let sh = dc_shard d i;
         m = (dc_mem d)(e := en\<lparr>de_hnext := ds_buckets sh ! b\<rparr>);
         sh = sh\<lparr>ds_buckets := (ds_buckets sh)[b := Some e]\<rparr>;
         (m, sh) = queue_push_tail m sh e;
         sh = sh\<lparr>ds_bytes := ds_bytes sh + tot\<rparr>
     in (dc_set d i m sh)\<lparr>dc_bytes := dc_bytes d + tot, dc_entries := dc_entries d + 1\<rparr>)"

definition dram_put :: "u64 option \<Rightarrow> dram_cache \<Rightarrow> u64 \<Rightarrow> u32 \<Rightarrow> u32 \<Rightarrow> u32 \<Rightarrow> bytes \<Rightarrow> dram_rec list \<Rightarrow>
    (int \<times> dram_cache) option" where
  "dram_put mres d prefix_id group_idx ver expire_ts buf recs =
    (let tot = entry_total (of_nat (length recs)) (of_nat (length buf))
     in if of_nat (length buf) = (0 :: u32) \<or> ucast tot > dc_entry_max d \<or> ucast tot > dc_budget d then Some (KV_EFULL, d)
        else let i = shard_of d prefix_id group_idx;
                 b = bucket_of prefix_id group_idx
             in case entry_find (dram_fuel d) (dc_mem d) (ds_buckets (dc_shard d i) ! b) prefix_id group_idx of
                  None \<Rightarrow> None
                | Some old \<Rightarrow>
                    if (case old of None \<Rightarrow> False | Some e \<Rightarrow> de_ver (dc_mem d e) \<ge> ver) then Some (KV_EOK, d)
                    else case (case old of None \<Rightarrow> Some d
                                 | Some e \<Rightarrow> map_option (\<lambda>d. entry_free d i e) (entry_unlink d i e)) of
                           None \<Rightarrow> None
                         | Some d \<Rightarrow>
                             let cls = pick_class tot
                             in case class_alloc mres d cls of
                                  (None, d) \<Rightarrow> Some (KV_EFULL, d)
                                | (Some e, d) \<Rightarrow>
                                    let ext = (cls \<ge> KV_DRAM_N_CLASSES \<or> \<not> block_in_arena d e);
                                        en = dram_new_entry prefix_id group_idx ver expire_ts buf recs ext cls;
                                        d = dram_link d i b e en (ucast tot)
                                    in map_option (\<lambda>d. (KV_EOK, d)) (sieve_evict d i e))"

definition dram_invalidate :: "dram_cache \<Rightarrow> u64 \<Rightarrow> u32 \<Rightarrow> dram_cache option" where
  "dram_invalidate d prefix_id group_idx =
    (let i = shard_of d prefix_id group_idx;
         b = bucket_of prefix_id group_idx
     in case entry_find (dram_fuel d) (dc_mem d) (ds_buckets (dc_shard d i) ! b) prefix_id group_idx of
          None \<Rightarrow> None
        | Some None \<Rightarrow> Some d
        | Some (Some e) \<Rightarrow> map_option (\<lambda>d. entry_free d i e) (entry_unlink d i e))"

definition dram_stat :: "dram_cache option \<Rightarrow> string \<Rightarrow> u64" where
  "dram_stat dopt key =
    (case dopt of
       None \<Rightarrow> 0
     | Some d \<Rightarrow>
         if key = ''dram_hits'' then dc_hits d
         else if key = ''dram_misses'' then dc_misses d
         else if key = ''dram_evictions'' then dc_evictions d
         else if key = ''dram_entries'' then dc_entries d
         else if key = ''dram_bytes'' then dc_bytes d
         else if key = ''dram_backend'' then ucast (dc_backend d)
         else 0)"

end
