(* ===== verification/KV_Dram_Links.thy ===== *)
theory KV_Dram_Links
  imports KV_Dram
begin

text \<open>
  The linked structures of the DRAM cache: hash chains and the doubly linked queue as lists of
  addresses in the store, and what following, unlinking and appending do to those lists.  The
  structural invariant of one shard is \<open>shard_links\<close>; the fields of an entry that are not links
  are its data, which none of these operations change.
\<close>

section \<open>Lists in the store\<close>

primrec chain :: "dram_mem \<Rightarrow> u64 option \<Rightarrow> u64 list \<Rightarrow> bool" where
  "chain m p [] \<longleftrightarrow> p = None"
| "chain m p (a # as) \<longleftrightarrow> p = Some a \<and> chain m (de_hnext (m a)) as"

text \<open>A segment of the queue: the element before it, its first pointer, its elements, its last
  element and the pointer after it.\<close>

primrec dseg :: "dram_mem \<Rightarrow> u64 option \<Rightarrow> u64 option \<Rightarrow> u64 list \<Rightarrow> u64 option \<Rightarrow> u64 option \<Rightarrow> bool" where
  "dseg m pr f [] l n \<longleftrightarrow> f = n \<and> l = pr"
| "dseg m pr f (a # as) l n \<longleftrightarrow>
    f = Some a \<and> de_sprev (m a) = pr \<and> dseg m (Some a) (de_snext (m a)) as l n"

definition de_data :: "dram_entry \<Rightarrow> dram_entry" where
  "de_data en = en\<lparr>de_hnext := None, de_sprev := None, de_snext := None\<rparr>"

definition same_data :: "dram_mem \<Rightarrow> dram_mem \<Rightarrow> bool" where
  "same_data m m' \<longleftrightarrow> (\<forall>a. de_data (m' a) = de_data (m a))"

lemma de_data_fields:
  assumes "de_data x = de_data y"
  shows "de_prefix_id x = de_prefix_id y" "de_group_idx x = de_group_idx y" "de_ver x = de_ver y"
    "de_expire_ts x = de_expire_ts y" "de_buf_len x = de_buf_len y" "de_n_records x = de_n_records y"
    "de_external x = de_external y" "de_visited x = de_visited y" "de_size_class x = de_size_class y"
    "de_recs x = de_recs y" "de_buf x = de_buf y"
  using assms by (cases x; cases y; simp add: de_data_def)+

lemma de_data_links [simp]:
  "de_data (en\<lparr>de_hnext := h\<rparr>) = de_data en" "de_data (en\<lparr>de_sprev := p\<rparr>) = de_data en"
  "de_data (en\<lparr>de_snext := n\<rparr>) = de_data en"
  by (simp_all add: de_data_def)

lemma same_data_refl [simp]: "same_data m m"
  by (simp add: same_data_def)

lemma same_data_trans: "same_data m m' \<Longrightarrow> same_data m' m'' \<Longrightarrow> same_data m m''"
  by (simp add: same_data_def)

lemma same_data_upd: "de_data en = de_data (m a) \<Longrightarrow> same_data m (m(a := en))"
  by (simp add: same_data_def)

lemma chain_cong:
  assumes "\<And>a. a \<in> set xs \<Longrightarrow> de_hnext (m' a) = de_hnext (m a)"
  shows "chain m' p xs = chain m p xs"
  using assms by (induction xs arbitrary: p) auto

lemma dseg_cong:
  assumes "\<And>a. a \<in> set xs \<Longrightarrow> de_sprev (m' a) = de_sprev (m a) \<and> de_snext (m' a) = de_snext (m a)"
  shows "dseg m' pr f xs l n = dseg m pr f xs l n"
  using assms by (induction xs arbitrary: pr f) auto

lemma dseg_append:
  "dseg m pr f (xs @ ys) l n \<longleftrightarrow> (\<exists>p q. dseg m pr f xs p q \<and> dseg m p q ys l n)"
  by (induction xs arbitrary: pr f) auto

lemma dseg_last: "dseg m pr f xs l n \<Longrightarrow> l = (if xs = [] then pr else Some (last xs))"
  by (induction xs arbitrary: pr f) auto

lemma dseg_first: "dseg m pr f xs l n \<Longrightarrow> f = (if xs = [] then n else Some (hd xs))"
  by (cases xs) auto

section \<open>Chains\<close>

lemma entry_find_chain:
  assumes "chain m p xs" and "length xs < k"
  shows "entry_find k m p pid g = Some (find (\<lambda>a. de_prefix_id (m a) = pid \<and> de_group_idx (m a) = g) xs)"
  using assms
proof (induction xs arbitrary: p k)
  case Nil
  then show ?case by (cases k) auto
next
  case (Cons a xs)
  then show ?case by (cases k) auto
qed

text \<open>Unlinking from a position: the elements before it, the pointer to follow, the rest.\<close>

lemma chain_unlink_at:
  assumes "chain m head (pre @ q # xs)" and "distinct (pre @ q # xs)" and "e \<in> set xs" and "length xs < k"
  shows "\<exists>m'. chain_unlink k m head (Some q) e = Some (m', head) \<and> chain m' head (pre @ q # remove1 e xs) \<and>
    same_data m m' \<and> (\<forall>a. de_sprev (m' a) = de_sprev (m a) \<and> de_snext (m' a) = de_snext (m a)) \<and>
    (\<forall>a. a \<notin> set (pre @ q # xs) \<longrightarrow> m' a = m a)"
  using assms
proof (induction xs arbitrary: pre q k)
  case (Cons x xs)
  obtain k' where k: "k = Suc k'" "length xs < k'" using Cons.prems(4) by (cases k) auto
  have split: "chain m p (as @ bs) \<Longrightarrow> \<exists>r. chain m r bs" for p as bs
    by (induction as arbitrary: p) auto
  obtain r where "chain m r (q # x # xs)" using split Cons.prems(1) by blast
  then have x: "de_hnext (m q) = Some x" and tl: "chain m (de_hnext (m x)) xs" by auto
  show ?case
  proof (cases "x = e")
    case True
    let ?m = "m(q := (m q)\<lparr>de_hnext := de_hnext (m e)\<rparr>)"
    have step: "chain_unlink k m head (Some q) e = Some (?m, head)" using k x True by simp
    have fr: "de_hnext (?m a) = de_hnext (m a)" if "a \<noteq> q" for a using that by simp
    have "chain ?m (de_hnext (m e)) xs"
      using tl True Cons.prems(2) by (subst chain_cong [of xs ?m m]) auto
    moreover have "chain m p (as @ q # bs) \<Longrightarrow> q \<notin> set as \<Longrightarrow> chain ?m (de_hnext (m e)) xs \<Longrightarrow> chain ?m p (as @ q # xs)"
      for p as bs by (induction as arbitrary: p) auto
    ultimately have "chain ?m head (pre @ q # remove1 e (x # xs))"
      using Cons.prems(1,2) True by auto
    then show ?thesis using step by (auto intro!: exI [of _ ?m] same_data_upd)
  next
    case False
    then have "chain_unlink k m head (Some q) e = chain_unlink k' m head (Some x) e" using k x by simp
    moreover have "\<exists>m'. chain_unlink k' m head (Some x) e = Some (m', head) \<and> chain m' head ((pre @ [q]) @ x # remove1 e xs) \<and>
        same_data m m' \<and> (\<forall>a. de_sprev (m' a) = de_sprev (m a) \<and> de_snext (m' a) = de_snext (m a)) \<and>
        (\<forall>a. a \<notin> set ((pre @ [q]) @ x # xs) \<longrightarrow> m' a = m a)"
      using Cons.prems False k(2) by (intro Cons.IH) auto
    ultimately show ?thesis using False by auto
  qed
qed simp

lemma chain_unlink_ok:
  assumes "chain m head xs" and "distinct xs" and "e \<in> set xs" and "length xs < k"
  shows "\<exists>m' head'. chain_unlink k m head None e = Some (m', head') \<and> chain m' head' (remove1 e xs) \<and>
    same_data m m' \<and> (\<forall>a. de_sprev (m' a) = de_sprev (m a) \<and> de_snext (m' a) = de_snext (m a)) \<and>
    (\<forall>a. a \<notin> set xs \<longrightarrow> m' a = m a)"
proof (cases xs)
  case (Cons x ys)
  obtain k' where k: "k = Suc k'" using assms(4) by (cases k) auto
  show ?thesis
  proof (cases "x = e")
    case True
    then show ?thesis using Cons assms k by (auto intro!: exI [of _ m])
  next
    case False
    then have "e \<in> set ys" "length ys < k'" using assms Cons k by auto
    then obtain m' where m': "chain_unlink k' m head (Some x) e = Some (m', head)" "chain m' head ([] @ x # remove1 e ys)"
        "same_data m m'" "\<forall>a. de_sprev (m' a) = de_sprev (m a) \<and> de_snext (m' a) = de_snext (m a)"
        "\<forall>a. a \<notin> set ([] @ x # ys) \<longrightarrow> m' a = m a"
      using chain_unlink_at [of m head "[]" x ys e k'] assms Cons by auto
    have "chain_unlink k m head None e = Some (m', head)" using m'(1) assms(1) Cons False k by simp
    then show ?thesis using m'(2-5) Cons False by auto
  qed
qed (use assms in simp)

section \<open>The queue\<close>

lemma queue_unlink_ok:
  assumes seg: "dseg m None (ds_head sh) xs (ds_tail sh) None" and dist: "distinct xs" and e: "e \<in> set xs"
  shows "\<exists>m' sh'. queue_unlink m sh e = (m', sh') \<and> dseg m' None (ds_head sh') (remove1 e xs) (ds_tail sh') None \<and>
    same_data m m' \<and> (\<forall>a. de_hnext (m' a) = de_hnext (m a)) \<and> (\<forall>a. a \<notin> set xs \<longrightarrow> m' a = m a) \<and>
    ds_budget sh' = ds_budget sh \<and> ds_buckets sh' = ds_buckets sh \<and> ds_bytes sh' = ds_bytes sh \<and>
    ds_hand sh' = (if ds_hand sh = Some e then de_snext (m e) else ds_hand sh) \<and>
    (de_snext (m e) = None \<or> (\<exists>x \<in> set xs. x \<noteq> e \<and> de_snext (m e) = Some x))"
proof -
  obtain as bs where xs: "xs = as @ e # bs" using e by (meson split_list)
  have rem: "remove1 e xs = as @ bs" using dist xs by (simp add: remove1_append)
  obtain p where as: "dseg m None (ds_head sh) as p (Some e)" and pe: "de_sprev (m e) = p"
    and bs: "dseg m (Some e) (de_snext (m e)) bs (ds_tail sh) None"
    using seg by (auto simp: xs dseg_append)
  have p: "p = (if as = [] then None else Some (last as))" using dseg_last [OF as] by simp
  have n: "de_snext (m e) = (if bs = [] then None else Some (hd bs))" using dseg_first [OF bs] by simp
  let ?n = "de_snext (m e)"
  define m1 where "m1 = (case p of Some p' \<Rightarrow> m(p' := (m p')\<lparr>de_snext := ?n\<rparr>) | None \<Rightarrow> m)"
  define sh1 where "sh1 = (case p of Some _ \<Rightarrow> sh | None \<Rightarrow> sh\<lparr>ds_head := ?n\<rparr>)"
  define m2 where "m2 = (case ?n of Some n' \<Rightarrow> m1(n' := (m1 n')\<lparr>de_sprev := p\<rparr>) | None \<Rightarrow> m1)"
  define sh2 where "sh2 = (case ?n of Some _ \<Rightarrow> sh1 | None \<Rightarrow> sh1\<lparr>ds_tail := p\<rparr>)"
  define sh3 where "sh3 = (if ds_hand sh2 = Some e then sh2\<lparr>ds_hand := ?n\<rparr> else sh2)"
  define m3 where "m3 = m2(e := (m2 e)\<lparr>de_sprev := None, de_snext := None\<rparr>)"
  have dd: "e \<notin> set as" "e \<notin> set bs" "set as \<inter> set bs = {}" "distinct as" "distinct bs" using dist xs by auto
  have pin: "p' \<in> set as \<and> p' \<noteq> e" if "p = Some p'" for p' using p that dd(1) by (auto split: if_splits)
  have nin: "n' \<in> set bs \<and> n' \<noteq> e" if "?n = Some n'" for n' using n that dd(2) by (auto split: if_splits)
  have e1: "m1 e = m e" using pin by (auto simp: m1_def split: option.splits)
  have e2: "m2 e = m e" using nin e1 by (auto simp: m2_def split: option.splits)
  have q: "queue_unlink m sh e = (m3, sh3)"
    unfolding queue_unlink_def Let_def pe
    using e1 e2 by (auto simp: m1_def sh1_def m2_def sh2_def m3_def sh3_def pe split: option.splits)
  have same: "same_data m m3"
  proof -
    have "same_data m m1" by (auto simp: m1_def same_data_upd split: option.splits)
    moreover have "same_data m1 m2" by (auto simp: m2_def same_data_upd split: option.splits)
    moreover have "same_data m2 m3" by (simp add: m3_def same_data_def)
    ultimately show ?thesis by (blast intro: same_data_trans)
  qed
  have hn: "de_hnext (m3 a) = de_hnext (m a)" for a
    by (simp add: m3_def m2_def m1_def split: option.splits)
  have out: "m3 a = m a" if "a \<notin> set xs" for a
    using that pin nin xs by (auto simp: m3_def m2_def m1_def split: option.splits)
  have sprev_as: "de_sprev (m3 a) = de_sprev (m a)" if "a \<in> set as" for a
    using that dd nin by (auto simp: m3_def m2_def m1_def split: option.splits)
  have snext_bs: "de_snext (m3 a) = de_snext (m a)" if "a \<in> set bs" for a
    using that dd pin by (auto simp: m3_def m2_def m1_def split: option.splits)
  have snext_as: "de_snext (m3 a) = (if p = Some a then ?n else de_snext (m a))" if "a \<in> set as" for a
    using that dd nin by (auto simp: m3_def m2_def m1_def split: option.splits)
  have sprev_bs: "de_sprev (m3 a) = (if ?n = Some a then p else de_sprev (m a))" if "a \<in> set bs" for a
    using that dd pin by (auto simp: m3_def m2_def m1_def split: option.splits)
  have segA: "dseg m3 None (ds_head sh3) as p ?n"
  proof (cases "as" rule: rev_cases)
    case Nil
    then show ?thesis using p by (auto simp: sh3_def sh2_def sh1_def split: option.splits)
  next
    case (snoc cs c)
    have pc: "p = Some c" using p snoc by simp
    have h: "ds_head sh3 = ds_head sh" using pc by (auto simp: sh3_def sh2_def sh1_def split: option.splits)
    obtain r where r: "dseg m None (ds_head sh) cs r (Some c)" "de_sprev (m c) = r" "de_snext (m c) = Some e"
      using as snoc pc by (auto simp: dseg_append)
    have cs: "dseg m3 None (ds_head sh) cs r (Some c)"
      using r(1) snoc dd(4) pc sprev_as snext_as by (subst dseg_cong [where m = m]) auto
    show ?thesis using cs r snoc pc h sprev_as [of c] snext_as [of c] by (auto simp: dseg_append)
  qed
  have segB: "dseg m3 p ?n bs (ds_tail sh3) None"
  proof (cases bs)
    case Nil
    then show ?thesis using n by (auto simp: sh3_def sh2_def sh1_def split: option.splits)
  next
    case (Cons b cs)
    have nb: "?n = Some b" using n Cons by simp
    have t: "ds_tail sh3 = ds_tail sh" using nb by (auto simp: sh3_def sh2_def sh1_def split: option.splits)
    have "dseg m (Some b) (de_snext (m b)) cs (ds_tail sh) None" using bs Cons by simp
    then have "dseg m3 (Some b) (de_snext (m b)) cs (ds_tail sh) None"
      using Cons dd(5) nb sprev_bs snext_bs by (subst dseg_cong [where m = m]) auto
    then show ?thesis using Cons nb t sprev_bs [of b] snext_bs [of b] by simp
  qed
  have "dseg m3 None (ds_head sh3) (remove1 e xs) (ds_tail sh3) None"
    unfolding rem dseg_append using segA segB by blast
  moreover have "ds_budget sh3 = ds_budget sh \<and> ds_buckets sh3 = ds_buckets sh \<and> ds_bytes sh3 = ds_bytes sh \<and>
      ds_hand sh3 = (if ds_hand sh = Some e then ?n else ds_hand sh)"
    by (auto simp: sh3_def sh2_def sh1_def split: option.splits)
  moreover have "?n = None \<or> (\<exists>x \<in> set xs. x \<noteq> e \<and> ?n = Some x)" using nin xs by (cases ?n) auto
  ultimately show ?thesis using q same hn out by blast
qed

lemma queue_push_tail_ok:
  assumes seg: "dseg m None (ds_head sh) xs (ds_tail sh) None" and dist: "distinct xs" and e: "e \<notin> set xs"
  shows "\<exists>m' sh'. queue_push_tail m sh e = (m', sh') \<and> dseg m' None (ds_head sh') (xs @ [e]) (ds_tail sh') None \<and>
    same_data m m' \<and> (\<forall>a. de_hnext (m' a) = de_hnext (m a)) \<and> (\<forall>a. a \<notin> set (e # xs) \<longrightarrow> m' a = m a) \<and>
    ds_budget sh' = ds_budget sh \<and> ds_buckets sh' = ds_buckets sh \<and> ds_bytes sh' = ds_bytes sh \<and> ds_hand sh' = ds_hand sh"
proof (cases xs rule: rev_cases)
  case Nil
  then have "ds_head sh = None" "ds_tail sh = None" using seg by auto
  then show ?thesis using Nil
    by (auto simp: queue_push_tail_def Let_def same_data_def de_data_def)
next
  case (snoc ys y)
  have t: "ds_tail sh = Some y" using dseg_last [OF seg] snoc by simp
  let ?m = "m(e := (m e)\<lparr>de_snext := None, de_sprev := Some y\<rparr>)"
  let ?m' = "?m(y := (?m y)\<lparr>de_snext := Some e\<rparr>)"
  have ye: "y \<noteq> e" using e snoc by auto
  have q: "queue_push_tail m sh e = (?m', sh\<lparr>ds_tail := Some e\<rparr>)" by (simp add: queue_push_tail_def Let_def t)
  obtain r where r: "dseg m None (ds_head sh) ys r (Some y)" "de_sprev (m y) = r"
    using seg snoc by (auto simp: dseg_append)
  have "dseg ?m' None (ds_head sh) ys r (Some y)"
    using r(1) dist e snoc by (subst dseg_cong [where m = m]) auto
  then have "dseg ?m' None (ds_head sh) ((ys @ [y]) @ [e]) (Some e) None"
    using r(2) ye by (auto simp: dseg_append)
  moreover have "same_data m ?m'" using ye by (auto simp: same_data_def de_data_def)
  ultimately show ?thesis using q snoc by auto
qed

section \<open>One shard\<close>

abbreviation de_bucket :: "dram_entry \<Rightarrow> nat" where
  "de_bucket en \<equiv> bucket_of (de_prefix_id en) (de_group_idx en)"

text \<open>The queue holds \<open>qs\<close> and the chains hold \<open>cs\<close>, the same entries filed by bucket.\<close>

definition shard_links :: "dram_mem \<Rightarrow> dram_shard \<Rightarrow> u64 list \<Rightarrow> u64 list list \<Rightarrow> bool" where
  "shard_links m sh qs cs \<longleftrightarrow>
    dseg m None (ds_head sh) qs (ds_tail sh) None \<and> distinct qs \<and>
    (\<forall>h. ds_hand sh = Some h \<longrightarrow> h \<in> set qs) \<and>
    length (ds_buckets sh) = KV_DRAM_SHARD_BUCKETS \<and> length cs = KV_DRAM_SHARD_BUCKETS \<and>
    (\<forall>b < KV_DRAM_SHARD_BUCKETS. chain m (ds_buckets sh ! b) (cs ! b) \<and> (\<forall>a \<in> set (cs ! b). de_bucket (m a) = b)) \<and>
    mset (concat cs) = mset qs"

lemma shard_links_cong:
  assumes "\<And>a. a \<in> set qs \<Longrightarrow> de_hnext (m' a) = de_hnext (m a) \<and> de_sprev (m' a) = de_sprev (m a) \<and>
      de_snext (m' a) = de_snext (m a) \<and> de_prefix_id (m' a) = de_prefix_id (m a) \<and> de_group_idx (m' a) = de_group_idx (m a)"
    and "shard_links m sh qs cs"
  shows "shard_links m' sh qs cs"
proof -
  have "set (concat cs) = set qs" using assms(2) by (metis shard_links_def mset_eq_setD)
  then have sub: "set (cs ! b) \<subseteq> set qs" if "b < KV_DRAM_SHARD_BUCKETS" for b
    using that assms(2) by (auto simp: shard_links_def)
  have "chain m' p (cs ! b) = chain m p (cs ! b)" if "b < KV_DRAM_SHARD_BUCKETS" for b p
    using sub [OF that] assms(1) by (intro chain_cong) blast
  moreover have "dseg m' None (ds_head sh) qs (ds_tail sh) None = dseg m None (ds_head sh) qs (ds_tail sh) None"
    using assms(1) by (intro dseg_cong) blast
  moreover have "de_bucket (m' a) = de_bucket (m a)" if "b < KV_DRAM_SHARD_BUCKETS" "a \<in> set (cs ! b)" for a b
    using assms(1) [of a] sub [OF that(1)] that(2) by auto
  ultimately show ?thesis using assms(2) unfolding shard_links_def by simp
qed

lemma shard_links_hand:
  "shard_links m sh qs cs \<Longrightarrow> (\<And>h. hand = Some h \<Longrightarrow> h \<in> set qs) \<Longrightarrow> shard_links m (sh\<lparr>ds_hand := hand\<rparr>) qs cs"
  by (simp add: shard_links_def)

lemma shard_links_bytes: "shard_links m (sh\<lparr>ds_bytes := n\<rparr>) qs = shard_links m sh qs"
  by (simp add: shard_links_def fun_eq_iff)

lemma bucket_of_less: "bucket_of p g < KV_DRAM_SHARD_BUCKETS"
proof -
  have "(ucast (dram_hash p g) AND 255 :: u32) \<le> 255" by (rule word_and_le1)
  then have "unat (ucast (dram_hash p g) AND 255 :: u32) \<le> unat (255 :: u32)" by (simp only: word_le_nat_alt)
  then show ?thesis by (simp add: bucket_of_def KV_DRAM_SHARD_BUCKETS_def)
qed

lemma mset_concat_update:
  "b < length cs \<Longrightarrow> mset (concat (cs[b := ys])) + mset (cs ! b) = mset (concat cs) + mset ys"
proof (induction cs arbitrary: b)
  case (Cons c cs)
  then show ?case by (cases b) (auto simp: ac_simps)
qed simp

lemma mset_cancel_one: "A + B = Q + R \<Longrightarrow> B = add_mset e R \<Longrightarrow> Q = add_mset e Q' \<Longrightarrow> A = Q'"
  by simp

lemma shard_links_chain:
  assumes "shard_links m sh qs cs" and "a \<in> set qs"
  shows "a \<in> set (cs ! de_bucket (m a))"
proof -
  have "a \<in> set (concat cs)" using assms by (metis shard_links_def mset_eq_setD)
  then obtain c where "c \<in> set cs" "a \<in> set c" by auto
  then obtain b where "b < length cs" "a \<in> set (cs ! b)" by (metis in_set_conv_nth)
  moreover then have "de_bucket (m a) = b" using assms(1) by (auto simp: shard_links_def)
  ultimately show ?thesis by simp
qed

lemma shard_links_chain_sub:
  assumes "shard_links m sh qs cs" and "b < KV_DRAM_SHARD_BUCKETS"
  shows "set (cs ! b) \<subseteq> set qs" and "distinct (cs ! b)" and "length (cs ! b) \<le> length qs"
proof -
  have len: "b < length cs" and ms: "mset (concat cs) = mset qs" and d: "distinct qs"
    using assms by (auto simp: shard_links_def)
  have split: "mset (concat cs) = mset (concat (cs[b := []])) + mset (cs ! b)"
    using mset_concat_update [OF len, of "[]"] by simp
  have sub: "mset (cs ! b) \<subseteq># mset qs" using split ms by (metis mset_subset_eq_add_right)
  show "set (cs ! b) \<subseteq> set qs" using sub by (metis set_mset_mono set_mset_mset)
  show "length (cs ! b) \<le> length qs" using size_mset_mono [OF sub] by simp
  have "distinct (concat cs)" using ms d by (metis mset_eq_imp_distinct_iff)
  then show "distinct (cs ! b)" using len by (metis distinct_concat_iff nth_mem)
qed

text \<open>Taking one entry out of its chain and the queue.\<close>

lemma shard_unlink_ok:
  assumes links: "shard_links m sh qs cs" and e: "e \<in> set qs" and k: "length qs < k"
  shows "\<exists>m1 head m2 sh2 cs2. chain_unlink k m (ds_buckets sh ! de_bucket (m e)) None e = Some (m1, head) \<and>
    queue_unlink m1 (sh\<lparr>ds_buckets := (ds_buckets sh)[de_bucket (m e) := head]\<rparr>) e = (m2, sh2) \<and>
    shard_links m2 sh2 (remove1 e qs) cs2 \<and> same_data m m2 \<and> (\<forall>a. a \<notin> set qs \<longrightarrow> m2 a = m a) \<and>
    ds_budget sh2 = ds_budget sh \<and> ds_bytes sh2 = ds_bytes sh \<and>
    (de_snext (m e) = None \<or> (\<exists>x \<in> set (remove1 e qs). de_snext (m e) = Some x))"
proof -
  define b where "b = de_bucket (m e)"
  have b: "b < KV_DRAM_SHARD_BUCKETS" unfolding b_def by (rule bucket_of_less)
  have ch: "chain m (ds_buckets sh ! c) (cs ! c)" "\<forall>a \<in> set (cs ! c). de_bucket (m a) = c" if "c < KV_DRAM_SHARD_BUCKETS" for c
    using links that by (auto simp: shard_links_def)
  have l: "length (ds_buckets sh) = KV_DRAM_SHARD_BUCKETS" "length cs = KV_DRAM_SHARD_BUCKETS" "distinct qs"
    "mset (concat cs) = mset qs" using links by (auto simp: shard_links_def)
  note sub = shard_links_chain_sub [OF links]
  have eb: "e \<in> set (cs ! b)" unfolding b_def using links e by (rule shard_links_chain)
  have lk: "length (cs ! b) < k" using sub(3) [OF b] k by simp
  obtain m1 head where c1: "chain_unlink k m (ds_buckets sh ! b) None e = Some (m1, head)"
      "chain m1 head (remove1 e (cs ! b))" "same_data m m1"
      "\<forall>a. de_sprev (m1 a) = de_sprev (m a) \<and> de_snext (m1 a) = de_snext (m a)" "\<forall>a. a \<notin> set (cs ! b) \<longrightarrow> m1 a = m a"
    using chain_unlink_ok [OF ch(1) [OF b] sub(2) [OF b] eb lk] by (elim exE conjE)
  let ?sh = "sh\<lparr>ds_buckets := (ds_buckets sh)[b := head]\<rparr>"
  have "dseg m None (ds_head sh) qs (ds_tail sh) None" using links by (simp add: shard_links_def)
  then have seg: "dseg m1 None (ds_head ?sh) qs (ds_tail ?sh) None"
    using c1(4) by (subst dseg_cong [where m = m]) auto
  obtain m2 sh2 where q: "queue_unlink m1 ?sh e = (m2, sh2)"
      "dseg m2 None (ds_head sh2) (remove1 e qs) (ds_tail sh2) None" "same_data m1 m2"
      "\<forall>a. de_hnext (m2 a) = de_hnext (m1 a)" "\<forall>a. a \<notin> set qs \<longrightarrow> m2 a = m1 a"
      "ds_budget sh2 = ds_budget ?sh" "ds_buckets sh2 = ds_buckets ?sh" "ds_bytes sh2 = ds_bytes ?sh"
      "ds_hand sh2 = (if ds_hand ?sh = Some e then de_snext (m1 e) else ds_hand ?sh)"
      "de_snext (m1 e) = None \<or> (\<exists>x \<in> set qs. x \<noteq> e \<and> de_snext (m1 e) = Some x)"
    using queue_unlink_ok [OF seg l(3) e] by (elim exE conjE)
  let ?cs = "cs[b := remove1 e (cs ! b)]"
  have same: "same_data m m2" using c1(3) q(3) by (rule same_data_trans)
  have bk: "de_bucket (m2 a) = de_bucket (m a)" for a
    using same de_data_fields(1,2) [of "m2 a" "m a"] by (simp add: same_data_def)
  have chains: "chain m2 (ds_buckets sh2 ! c) (?cs ! c) \<and> (\<forall>a \<in> set (?cs ! c). de_bucket (m2 a) = c)"
    if c: "c < KV_DRAM_SHARD_BUCKETS" for c
  proof (cases "c = b")
    case True
    then have "chain m2 head (remove1 e (cs ! b))" using c1(2) q(4) by (subst chain_cong [where m = m1]) auto
    moreover have "\<forall>a \<in> set (remove1 e (cs ! b)). de_bucket (m a) = b" using ch(2) [OF b] by (meson notin_set_remove1)
    ultimately show ?thesis using True l(1,2) b q(7) unfolding bk by simp
  next
    case False
    have "de_hnext (m2 a) = de_hnext (m a)" if "a \<in> set (cs ! c)" for a
    proof -
      have "a \<notin> set (cs ! b)" using that ch(2) [OF b] ch(2) [OF c] False by metis
      then show ?thesis using c1(5) q(4) by simp
    qed
    then have "chain m2 (ds_buckets sh ! c) (cs ! c)" using ch(1) [OF c] by (subst chain_cong [where m = m]) auto
    then show ?thesis using False ch(2) [OF c] q(7) unfolding bk by simp
  qed
  have m1: "mset (concat ?cs) + mset (cs ! b) = mset qs + mset (remove1 e (cs ! b))"
    using mset_concat_update [of b cs "remove1 e (cs ! b)"] l(2,4) b by simp
  have m2: "mset (cs ! b) = add_mset e (mset (remove1 e (cs ! b)))" using eb by simp
  have m3: "mset qs = add_mset e (mset (remove1 e qs))" using e by simp
  have ms: "mset (concat ?cs) = mset (remove1 e qs)" using m1 m2 m3 by (rule mset_cancel_one)
  have hand: "h \<in> set (remove1 e qs)" if "ds_hand sh2 = Some h" for h
    using that q(9,10) c1(4) links l(3) by (auto simp: shard_links_def set_remove1_eq split: if_splits)
  have "shard_links m2 sh2 (remove1 e qs) ?cs"
    unfolding shard_links_def using q(2,7) l chains ms hand by simp
  moreover have "de_snext (m e) = None \<or> (\<exists>x \<in> set (remove1 e qs). de_snext (m e) = Some x)"
    using q(10) c1(4) l(3) by (auto simp: set_remove1_eq)
  moreover have "\<forall>a. a \<notin> set qs \<longrightarrow> m2 a = m a" using q(5) c1(5) sub(1) [OF b] by (metis subsetD)
  ultimately show ?thesis unfolding b_def [symmetric] using c1(1) q(1,6,8) same by auto
qed

text \<open>Filing a new entry: in front of its chain and at the end of the queue.\<close>

lemma shard_link_ok:
  assumes links: "shard_links m sh qs cs" and e: "e \<notin> set qs" and b: "b = de_bucket en"
    and hn: "de_hnext en = ds_buckets sh ! b"
  shows "\<exists>m2 sh2 cs2. queue_push_tail (m(e := en)) (sh\<lparr>ds_buckets := (ds_buckets sh)[b := Some e]\<rparr>) e = (m2, sh2) \<and>
    shard_links m2 sh2 (qs @ [e]) cs2 \<and> same_data (m(e := en)) m2 \<and> (\<forall>a. a \<notin> set (e # qs) \<longrightarrow> m2 a = m a) \<and>
    ds_budget sh2 = ds_budget sh \<and> ds_bytes sh2 = ds_bytes sh"
proof -
  have bl: "b < KV_DRAM_SHARD_BUCKETS" unfolding b by (rule bucket_of_less)
  let ?m = "m(e := en)" and ?sh = "sh\<lparr>ds_buckets := (ds_buckets sh)[b := Some e]\<rparr>"
  have l: "length (ds_buckets sh) = KV_DRAM_SHARD_BUCKETS" "length cs = KV_DRAM_SHARD_BUCKETS" "distinct qs"
    "mset (concat cs) = mset qs" using links by (auto simp: shard_links_def)
  have ch: "chain m (ds_buckets sh ! c) (cs ! c)" "\<forall>a \<in> set (cs ! c). de_bucket (m a) = c" if "c < KV_DRAM_SHARD_BUCKETS" for c
    using links that by (auto simp: shard_links_def)
  have ec: "e \<notin> set (cs ! c)" if "c < KV_DRAM_SHARD_BUCKETS" for c
    using shard_links_chain_sub(1) [OF links that] e by blast
  have seg: "dseg ?m None (ds_head ?sh) qs (ds_tail ?sh) None"
    using links e by (subst dseg_cong [where m = m]) (auto simp: shard_links_def)
  obtain m2 sh2 where q: "queue_push_tail ?m ?sh e = (m2, sh2)"
      "dseg m2 None (ds_head sh2) (qs @ [e]) (ds_tail sh2) None" "same_data ?m m2"
      "\<forall>a. de_hnext (m2 a) = de_hnext (?m a)" "\<forall>a. a \<notin> set (e # qs) \<longrightarrow> m2 a = ?m a"
      "ds_budget sh2 = ds_budget ?sh" "ds_buckets sh2 = ds_buckets ?sh" "ds_bytes sh2 = ds_bytes ?sh" "ds_hand sh2 = ds_hand ?sh"
    using queue_push_tail_ok [OF seg l(3) e] by (elim exE conjE)
  let ?cs = "cs[b := e # cs ! b]"
  have bk: "de_bucket (m2 a) = de_bucket (?m a)" for a
    using q(3) de_data_fields(1,2) [of "m2 a" "?m a"] by (simp add: same_data_def)
  have old: "chain m2 (ds_buckets sh ! c) (cs ! c)" if "c < KV_DRAM_SHARD_BUCKETS" for c
    using ch(1) [OF that] q(4) ec [OF that] by (subst chain_cong [where m = m]) auto
  have chains: "chain m2 (ds_buckets sh2 ! c) (?cs ! c) \<and> (\<forall>a \<in> set (?cs ! c). de_bucket (m2 a) = c)"
    if c: "c < KV_DRAM_SHARD_BUCKETS" for c
  proof (cases "c = b")
    case True
    then show ?thesis using old [OF c] ch(2) [OF c] ec [OF c] q(4,7) l(1,2) bl hn b unfolding bk by auto
  next
    case False
    then show ?thesis using old [OF c] ch(2) [OF c] ec [OF c] q(7) unfolding bk by auto
  qed
  have "mset (concat ?cs) = mset (qs @ [e])"
    using mset_concat_update [of b cs "e # cs ! b"] l(2,4) bl by simp
  then have "shard_links m2 sh2 (qs @ [e]) ?cs"
    unfolding shard_links_def using q(2,7,9) l chains e links by (auto simp: shard_links_def)
  then show ?thesis using q by auto
qed

end
