(* ===== verification/KV_Dram_Inv.thy ===== *)
theory KV_Dram_Inv
  imports KV_Dram_Links
begin

text \<open>
  The invariant of the DRAM cache and the properties of its interface.  \<open>dram_links\<close> is the
  structure of every shard, \<open>dram_data\<close> the accounting and the ownership of memory: byte and
  entry counters are exact, no block is in use twice, every arena block is one of the blocks
  carved off in order, and every entry fits its block.
\<close>

section \<open>The invariant\<close>

definition tot_of :: "dram_entry \<Rightarrow> u64" where
  "tot_of en = ucast (entry_total (de_n_records en) (de_buf_len en))"

abbreviation de_key :: "dram_entry \<Rightarrow> u64 \<times> u32" where
  "de_key en \<equiv> (de_prefix_id en, de_group_idx en)"

definition arena_len :: "dram_cache \<Rightarrow> u64" where
  "arena_len d = dc_mmap_len d - (dc_arena d - dc_mmap_base d)"

text \<open>The blocks carved off the arena, as offset and class, when their classes in order are \<open>ks\<close>.\<close>

definition cap_of :: "nat \<Rightarrow> nat" where
  "cap_of c = unat (class_cap ! c)"

fun blocks_at :: "nat \<Rightarrow> nat list \<Rightarrow> (nat \<times> nat) list" where
  "blocks_at off [] = []"
| "blocks_at off (c # ks) = (off, c) # blocks_at (off + cap_of c) ks"

definition dram_links :: "dram_cache \<Rightarrow> u64 list list \<Rightarrow> bool" where
  "dram_links d Q \<longleftrightarrow> length Q = dc_n_shards d \<and> dc_n_shards d \<le> length (dc_shards d) \<and> 0 < dc_n_shards d \<and>
    dc_n_shards d < 2 ^ 32 \<and>
    (\<forall>i < dc_n_shards d. (\<exists>cs. shard_links (dc_mem d) (dc_shard d i) (Q ! i) cs) \<and>
      (\<forall>a \<in> set (Q ! i). shard_of d (de_prefix_id (dc_mem d a)) (de_group_idx (dc_mem d a)) = i)) \<and>
    distinct (concat Q) \<and> inj_on (\<lambda>a. de_key (dc_mem d a)) (set (concat Q))"

definition arena_ok :: "dram_cache \<Rightarrow> nat list \<Rightarrow> bool" where
  "arena_ok d ks \<longleftrightarrow> dc_arena d \<noteq> 0 \<and> unat (dc_arena d) + unat (arena_len d) < 2 ^ 63 \<and>
    unat (dc_bump d) \<le> unat (arena_len d) \<and> unat (dc_bump d) = sum_list (map cap_of ks) \<and>
    set ks \<subseteq> {..<KV_DRAM_N_CLASSES}"

definition block_ok :: "dram_cache \<Rightarrow> nat list \<Rightarrow> u64 \<Rightarrow> nat \<Rightarrow> bool" where
  "block_ok d ks a c \<longleftrightarrow> (unat a - unat (dc_arena d), c) \<in> set (blocks_at 0 ks) \<and> dc_arena d \<le> a"

definition outside_arena :: "dram_cache \<Rightarrow> u64 \<Rightarrow> bool" where
  "outside_arena d a \<longleftrightarrow> a < dc_arena d \<or> unat (dc_arena d) + unat (arena_len d) \<le> unat a"

definition entry_size :: "dram_entry \<Rightarrow> nat" where
  "entry_size en = 56 + 12 * length (de_recs en) + length (de_buf en)"

definition dentry_ok :: "dram_cache \<Rightarrow> nat list \<Rightarrow> u64 \<Rightarrow> bool" where
  "dentry_ok d ks a \<longleftrightarrow> a \<noteq> 0 \<and>
    (let en = dc_mem d a
     in unat (de_buf_len en) = length (de_buf en) \<and> unat (de_n_records en) = length (de_recs en) \<and>
        entry_size en < 2 ^ 32 \<and>
        (if de_external en then outside_arena d a
         else block_ok d ks a (de_size_class en) \<and> unat (tot_of en) \<le> cap_of (de_size_class en)))"

definition dram_data :: "dram_cache \<Rightarrow> u64 list list \<Rightarrow> nat list \<Rightarrow> bool" where
  "dram_data d Q ks \<longleftrightarrow> arena_ok d ks \<and>
    length (dc_freelists d) = KV_DRAM_N_CLASSES \<and> distinct (concat Q @ concat (dc_freelists d)) \<and>
    (\<forall>a \<in> set (concat Q). dentry_ok d ks a) \<and>
    (\<forall>c < KV_DRAM_N_CLASSES. \<forall>a \<in> set (dc_freelists d ! c). block_ok d ks a c) \<and>
    dc_bytes d = sum_list (map (\<lambda>a. tot_of (dc_mem d a)) (concat Q)) \<and> dc_entries d = of_nat (length (concat Q)) \<and>
    length Q \<le> length (dc_shards d) \<and>
    (\<forall>i < length Q. ds_bytes (dc_shard d i) = sum_list (map (\<lambda>a. tot_of (dc_mem d a)) (Q ! i)))"

definition dram_inv :: "dram_cache \<Rightarrow> bool" where
  "dram_inv d \<longleftrightarrow> (\<exists>Q ks. dram_links d Q \<and> dram_data d Q ks)"

section \<open>Basic facts\<close>

lemma shard_of_less: "dram_links d Q \<Longrightarrow> shard_of d p g < dc_n_shards d"
proof -
  assume "dram_links d Q"
  then have n: "0 < dc_n_shards d" "dc_n_shards d < 2 ^ 32" by (auto simp: dram_links_def)
  then have u: "unat (of_nat (dc_n_shards d) :: u64) = dc_n_shards d" by simp
  have "unat (dram_hash p g mod of_nat (dc_n_shards d)) = unat (dram_hash p g) mod dc_n_shards d"
    by (simp add: unat_mod_distrib u)
  then show ?thesis using n by (simp add: shard_of_def)
qed

lemma entries_count:
  assumes "dram_data d Q ks"
  shows "unat (dc_entries d) = length (concat Q)"
proof -
  have d: "distinct (concat Q)" "0 \<notin> set (concat Q)"
    using assms by (auto simp: dram_data_def dentry_ok_def)
  have "length (concat Q) = card (set (concat Q))" using d(1) by (rule distinct_card [symmetric])
  also have "\<dots> < card (UNIV :: u64 set)" using d(2) by (intro psubset_card_mono) auto
  also have "\<dots> = 2 ^ 64" by (simp add: card_word)
  finally show ?thesis using assms by (simp add: dram_data_def)
qed

lemma length_nth_concat: "i < length Q \<Longrightarrow> length (Q ! i) \<le> length (concat Q)"
  by (induction Q arbitrary: i) (auto simp: nth_Cons intro: trans_le_add2 split: nat.splits)

lemma mset_concat_remove1:
  assumes "i < length Q" and "e \<in> set (Q ! i)"
  shows "mset (concat Q) = add_mset e (mset (concat (Q[i := remove1 e (Q ! i)])))"
proof -
  have "mset (concat (Q[i := remove1 e (Q ! i)])) + mset (Q ! i) = mset (concat Q) + mset (remove1 e (Q ! i))"
    using assms(1) by (rule mset_concat_update)
  moreover have "mset (Q ! i) = add_mset e (mset (remove1 e (Q ! i)))" using assms(2) by simp
  ultimately show ?thesis by (metis add_mset_add_single add_right_imp_eq union_mset_add_mset_left union_mset_add_mset_right)
qed

lemma fuel_enough:
  assumes "dram_data d Q ks" and "i < length Q"
  shows "length (Q ! i) < dram_fuel d"
  using entries_count [OF assms(1)] length_nth_concat [OF assms(2)] by (simp add: dram_fuel_def)

lemma blocks_at_class: "(x, c) \<in> set (blocks_at off ks) \<Longrightarrow> c \<in> set ks"
  by (induction ks arbitrary: off) auto

lemma block_class: "arena_ok d ks \<Longrightarrow> block_ok d ks a c \<Longrightarrow> c < KV_DRAM_N_CLASSES"
  using blocks_at_class [of "unat a - unat (dc_arena d)" c 0 ks] by (auto simp: arena_ok_def block_ok_def)

text \<open>The lookup finds exactly the entry with the key.\<close>

lemma entry_find_ok:
  assumes links: "dram_links d Q" and data: "dram_data d Q ks" and i: "i = shard_of d p g"
  shows "\<exists>r. entry_find (dram_fuel d) (dc_mem d) (ds_buckets (dc_shard d i) ! bucket_of p g) p g = Some r \<and>
    (\<forall>a. r = Some a \<longleftrightarrow> a \<in> set (Q ! i) \<and> de_key (dc_mem d a) = (p, g)) \<and>
    (r = None \<longleftrightarrow> (\<forall>a \<in> set (concat Q). de_key (dc_mem d a) \<noteq> (p, g)))"
proof -
  let ?m = "dc_mem d" and ?b = "bucket_of p g"
  have len: "length Q = dc_n_shards d" using links by (simp add: dram_links_def)
  have il: "i < length Q" using shard_of_less [OF links] i len by simp
  obtain cs where sl: "shard_links ?m (dc_shard d i) (Q ! i) cs" using links il len by (auto simp: dram_links_def)
  have b: "?b < KV_DRAM_SHARD_BUCKETS" by (rule bucket_of_less)
  have ch: "chain ?m (ds_buckets (dc_shard d i) ! ?b) (cs ! ?b)" using sl b by (simp add: shard_links_def)
  have lk: "length (cs ! ?b) < dram_fuel d"
    using shard_links_chain_sub(3) [OF sl b] fuel_enough [OF data il] by simp
  let ?r = "find (\<lambda>a. de_prefix_id (?m a) = p \<and> de_group_idx (?m a) = g) (cs ! ?b)"
  have inj: "inj_on (\<lambda>a. de_key (?m a)) (set (concat Q))" using links by (simp add: dram_links_def)
  have sub: "set (Q ! i) \<subseteq> set (concat Q)" using nth_mem [OF il] by auto
  have r1: "a \<in> set (Q ! i) \<and> de_key (?m a) = (p, g)" if "?r = Some a" for a
  proof -
    obtain n where "n < length (cs ! ?b)" "a = cs ! ?b ! n" "de_prefix_id (?m a) = p \<and> de_group_idx (?m a) = g"
      using \<open>?r = Some a\<close> by (auto simp: find_Some_iff)
    then show ?thesis using shard_links_chain_sub(1) [OF sl b] by auto
  qed
  have r2: "?r \<noteq> None" if "a \<in> set (Q ! i)" "de_key (?m a) = (p, g)" for a
  proof -
    have "a \<in> set (cs ! ?b)" using shard_links_chain [OF sl that(1)] that(2) by simp
    then show ?thesis using that(2) by (auto simp: find_None_iff)
  qed
  have r3: "a \<in> set (Q ! i)" if a: "a \<in> set (concat Q)" "de_key (?m a) = (p, g)" for a
  proof -
    obtain xs where "xs \<in> set Q" "a \<in> set xs" using a(1) by auto
    then obtain j where j: "j < length Q" "a \<in> set (Q ! j)" by (metis in_set_conv_nth)
    then have "shard_of d (de_prefix_id (?m a)) (de_group_idx (?m a)) = j" using links len by (auto simp: dram_links_def)
    then show ?thesis using a(2) i j by simp
  qed
  have one: "?r = Some a" if a: "a \<in> set (Q ! i)" "de_key (?m a) = (p, g)" for a
  proof -
    obtain a' where a': "?r = Some a'" using r2 [OF a] by auto
    have "a' = a" using inj_onD [OF inj, of a' a] r1 [OF a'] a sub by auto
    then show ?thesis using a' by simp
  qed
  have some: "\<forall>a. ?r = Some a \<longleftrightarrow> a \<in> set (Q ! i) \<and> de_key (?m a) = (p, g)" using r1 one by blast
  have none: "?r = None \<longleftrightarrow> (\<forall>a \<in> set (concat Q). de_key (?m a) \<noteq> (p, g))"
  proof
    show "\<forall>a \<in> set (concat Q). de_key (?m a) \<noteq> (p, g)" if "?r = None" using r2 r3 that by blast
    show "?r = None" if none: "\<forall>a \<in> set (concat Q). de_key (?m a) \<noteq> (p, g)"
    proof (cases ?r)
      case (Some a)
      then show ?thesis using r1 [OF Some] sub none by blast
    qed
  qed
  show ?thesis using entry_find_chain [OF ch lk, of p g] some none by (intro exI [of _ ?r] conjI)
qed

section \<open>Removing an entry\<close>

lemma distinct_concat_disjoint:
  assumes "distinct (concat Q)" and "i < length Q" and "j < length Q" and "i \<noteq> j" and "a \<in> set (Q ! i)"
  shows "a \<notin> set (Q ! j)"
  using assms
proof (induction Q arbitrary: i j)
  case (Cons q Q)
  show ?case
  proof (cases i; cases j)
    fix i' j' assume "i = Suc i'" "j = Suc j'"
    then show ?thesis using Cons by auto
  next
    fix j' assume "i = 0" "j = Suc j'"
    then show ?thesis using Cons.prems by (auto dest!: nth_mem)
  next
    fix i' assume "i = Suc i'" "j = 0"
    then show ?thesis using Cons.prems by (auto dest!: nth_mem)
  qed (use Cons.prems in auto)
qed simp

text \<open>Fields that unlinking leaves alone.\<close>

definition same_rest :: "dram_cache \<Rightarrow> dram_cache \<Rightarrow> bool" where
  "same_rest d d' \<longleftrightarrow> (\<exists>m shs. d' = d\<lparr>dc_mem := m, dc_shards := shs\<rparr>)"

lemma same_restD:
  assumes "same_rest d d'"
  shows "dc_budget d' = dc_budget d" "dc_entry_max d' = dc_entry_max d" "dc_n_shards d' = dc_n_shards d"
    "dc_arena d' = dc_arena d" "dc_bump d' = dc_bump d" "dc_freelists d' = dc_freelists d" "dc_bytes d' = dc_bytes d"
    "dc_entries d' = dc_entries d" "dc_mmap_len d' = dc_mmap_len d" "dc_mmap_base d' = dc_mmap_base d"
  using assms by (auto simp: same_rest_def)

lemma shard_of_cong: "dc_n_shards d' = dc_n_shards d \<Longrightarrow> shard_of d' = shard_of d"
  by (simp add: shard_of_def fun_eq_iff)

text \<open>The data without the bit that a hit sets and eviction clears.\<close>

definition de_core :: "dram_entry \<Rightarrow> dram_entry" where
  "de_core en = (de_data en)\<lparr>de_visited := False\<rparr>"

definition same_core :: "dram_mem \<Rightarrow> dram_mem \<Rightarrow> bool" where
  "same_core m m' \<longleftrightarrow> (\<forall>a. de_core (m' a) = de_core (m a))"

lemma de_core_fields:
  assumes "de_core x = de_core y"
  shows "de_prefix_id x = de_prefix_id y" "de_group_idx x = de_group_idx y" "de_ver x = de_ver y"
    "de_expire_ts x = de_expire_ts y" "de_buf_len x = de_buf_len y" "de_n_records x = de_n_records y"
    "de_external x = de_external y" "de_size_class x = de_size_class y"
    "de_recs x = de_recs y" "de_buf x = de_buf y"
  using assms by (cases x; cases y; simp add: de_core_def de_data_def)+

lemma same_core_refl [simp]: "same_core m m"
  by (simp add: same_core_def)

lemma same_core_trans: "same_core m m' \<Longrightarrow> same_core m' m'' \<Longrightarrow> same_core m m''"
  by (simp add: same_core_def)

lemma same_data_core: "same_data m m' \<Longrightarrow> same_core m m'"
  by (simp add: same_core_def same_data_def de_core_def)

lemma tot_of_core: "de_core x = de_core y \<Longrightarrow> tot_of x = tot_of y"
  using de_core_fields(5,6) [of x y] by (simp add: tot_of_def)

lemma sum_tot_cong:
  "same_core m m' \<Longrightarrow> sum_list (map (\<lambda>a. tot_of (m' a)) xs) = sum_list (map (\<lambda>a. tot_of (m a)) xs)"
  by (intro arg_cong [where f = sum_list] map_cong refl tot_of_core) (simp add: same_core_def)

lemma dram_data_cong:
  assumes data: "dram_data d Q ks" and same: "same_core (dc_mem d) (dc_mem d')"
    and f: "dc_arena d' = dc_arena d" "dc_bump d' = dc_bump d" "dc_freelists d' = dc_freelists d"
      "dc_bytes d' = dc_bytes d" "dc_entries d' = dc_entries d" "arena_len d' = arena_len d"
    and sh: "length (dc_shards d') = length (dc_shards d)"
      "\<And>i. i < length Q \<Longrightarrow> ds_bytes (dc_shard d' i) = ds_bytes (dc_shard d i)"
  shows "dram_data d' Q ks"
proof -
  have eq: "de_core (dc_mem d' a) = de_core (dc_mem d a)" for a using same by (simp add: same_core_def)
  have bo: "block_ok d' ks a c = block_ok d ks a c" for a c using f by (simp add: block_ok_def)
  have "dentry_ok d' ks a = dentry_ok d ks a" for a
    using de_core_fields [OF eq [of a]] tot_of_core [OF eq [of a]] f
    by (simp add: dentry_ok_def Let_def bo outside_arena_def entry_size_def)
  then show ?thesis
    using data f sh sum_tot_cong [OF same] bo by (simp add: dram_data_def arena_ok_def)
qed

lemma same_data_keys:
  assumes "same_data m m'"
  shows "de_prefix_id (m' a) = de_prefix_id (m a)" "de_group_idx (m' a) = de_group_idx (m a)"
  using de_data_fields(1,2) [of "m' a" "m a"] assms by (auto simp: same_data_def)

lemma entry_unlink_ok:
  assumes links: "dram_links d Q" and data: "dram_data d Q ks" and i: "i < length Q" and e: "e \<in> set (Q ! i)"
  shows "\<exists>d'. entry_unlink d i e = Some d' \<and> dram_links d' (Q[i := remove1 e (Q ! i)]) \<and> dram_data d' Q ks \<and>
    same_data (dc_mem d) (dc_mem d') \<and> same_rest d d' \<and>
    (\<forall>j. ds_budget (dc_shard d' j) = ds_budget (dc_shard d j) \<and> ds_bytes (dc_shard d' j) = ds_bytes (dc_shard d j)) \<and>
    (de_snext (dc_mem d e) = None \<or> (\<exists>x \<in> set (remove1 e (Q ! i)). de_snext (dc_mem d e) = Some x))"
proof -
  let ?m = "dc_mem d" and ?sh = "dc_shard d i" and ?q = "remove1 e (Q ! i)"
  have n: "length Q = dc_n_shards d" "dc_n_shards d \<le> length (dc_shards d)" "distinct (concat Q)"
    "inj_on (\<lambda>a. de_key (?m a)) (set (concat Q))" using links by (auto simp: dram_links_def)
  obtain cs where sl: "shard_links ?m ?sh (Q ! i) cs" using links i n(1) by (auto simp: dram_links_def)
  obtain m1 head m2 sh2 cs2 where u:
      "chain_unlink (dram_fuel d) ?m (ds_buckets ?sh ! de_bucket (?m e)) None e = Some (m1, head)"
      "queue_unlink m1 (?sh\<lparr>ds_buckets := (ds_buckets ?sh)[de_bucket (?m e) := head]\<rparr>) e = (m2, sh2)"
      "shard_links m2 sh2 ?q cs2" "same_data ?m m2" "\<forall>a. a \<notin> set (Q ! i) \<longrightarrow> m2 a = ?m a"
      "ds_budget sh2 = ds_budget ?sh" "ds_bytes sh2 = ds_bytes ?sh"
      "de_snext (?m e) = None \<or> (\<exists>x \<in> set ?q. de_snext (?m e) = Some x)"
    using shard_unlink_ok [OF sl e fuel_enough [OF data i]] by (elim exE conjE)
  let ?d = "dc_set d i m2 sh2"
  have un: "entry_unlink d i e = Some ?d" using u(1,2) by (simp add: entry_unlink_def Let_def)
  have il: "i < length (dc_shards d)" using i n by simp
  have sh: "dc_shard ?d j = (if j = i then sh2 else dc_shard d j)" for j
    using il by (simp add: dc_shard_def dc_set_def)
  have sub: "set ?q \<subseteq> set (Q ! i)" by (rule set_remove1_subset)
  have keys: "de_key (m2 a) = de_key (?m a)" for a using same_data_keys [OF u(4), of a] by simp
  have so: "shard_of ?d = shard_of d" by (rule shard_of_cong) (simp add: dc_set_def)
  have "mset (concat Q) = add_mset e (mset (concat (Q[i := ?q])))" using i e by (rule mset_concat_remove1)
  then have dist: "distinct (concat (Q[i := ?q]))" and cs: "set (concat (Q[i := ?q])) \<subseteq> set (concat Q)"
    using n(3) by (metis distinct.simps(2) mset.simps(2) mset_eq_imp_distinct_iff,
        metis mset.simps(2) mset_eq_setD set_subset_Cons)
  have per: "(\<exists>cs. shard_links (dc_mem ?d) (dc_shard ?d j) (Q[i := ?q] ! j) cs) \<and>
      (\<forall>a \<in> set (Q[i := ?q] ! j). shard_of ?d (de_prefix_id (dc_mem ?d a)) (de_group_idx (dc_mem ?d a)) = j)"
    if j: "j < length Q" for j
  proof (cases "j = i")
    case True
    then show ?thesis using u(3) sh i links n(1) sub keys so by (auto simp: dc_set_def dram_links_def)
  next
    case False
    obtain cj where cj: "shard_links ?m (dc_shard d j) (Q ! j) cj" using links j n(1) by (auto simp: dram_links_def)
    have "m2 a = ?m a" if "a \<in> set (Q ! j)" for a
      using u(5) distinct_concat_disjoint [OF n(3) j i False that] by blast
    then have "shard_links m2 (dc_shard d j) (Q ! j) cj" by (intro shard_links_cong [OF _ cj]) auto
    then show ?thesis using False sh links j n(1) keys so by (auto simp: dc_set_def dram_links_def)
  qed
  have inj: "inj_on (\<lambda>a. de_key (m2 a)) (set (concat (Q[i := ?q])))"
    unfolding keys using n(4) cs by (rule inj_on_subset)
  have "dram_links ?d (Q[i := ?q])"
    using per dist inj links n(1) by (simp add: dram_links_def dc_set_def)
  moreover have "dram_data ?d Q ks"
    using same_data_core [OF u(4)] u(7) sh by (intro dram_data_cong [OF data]) (simp_all add: dc_set_def arena_len_def)
  moreover have "same_rest d ?d" by (auto simp: same_rest_def dc_set_def)
  ultimately show ?thesis using un u(4,6,7,8) sh by (intro exI [of _ ?d]) (simp add: dc_set_def)
qed

lemma sum_list_mset: "mset xs = add_mset e (mset ys) \<Longrightarrow> sum_list (map f xs) = f e + sum_list (map f ys)"
  for f :: "'b \<Rightarrow> 'a::comm_monoid_add"
  by (metis sum_mset_sum_list image_mset_add_mset mset_map sum_mset.add_mset)

lemma distinct_sub_mset:
  assumes sub: "mset xs \<subseteq># mset ys" and "distinct ys"
  shows "distinct xs"
  unfolding distinct_count_atmost_1
proof
  fix a
  have "count (mset ys) a \<le> 1" using assms(2) by (simp add: distinct_count_atmost_1)
  then have "count (mset xs) a \<le> 1" using mset_subset_eq_count [OF sub, of a] by linarith
  then show "count (mset xs) a = (if a \<in> set xs then 1 else 0)"
    by (auto simp: count_eq_zero_iff le_Suc_eq)
qed

text \<open>Giving the memory of an unlinked entry back.\<close>

lemma entry_free_ok:
  assumes links: "dram_links d (Q[i := remove1 e (Q ! i)])" and data: "dram_data d Q ks"
    and i: "i < length Q" and e: "e \<in> set (Q ! i)"
  shows "dram_links (entry_free d i e) (Q[i := remove1 e (Q ! i)])"
    and "dram_data (entry_free d i e) (Q[i := remove1 e (Q ! i)]) ks"
proof -
  let ?d = "entry_free d i e" and ?Q = "Q[i := remove1 e (Q ! i)]" and ?en = "dc_mem d e"
  have il: "i < length (dc_shards d)" using i data by (simp add: dram_data_def)
  have mem: "dc_mem ?d = dc_mem d" "dc_n_shards ?d = dc_n_shards d" "dc_arena ?d = dc_arena d" "dc_bump ?d = dc_bump d"
    "arena_len ?d = arena_len d" "length (dc_shards ?d) = length (dc_shards d)"
    by (simp_all add: entry_free_def Let_def class_free_def arena_len_def)
  have sh: "dc_shard ?d j = (if j = i then (dc_shard d i)\<lparr>ds_bytes := ds_bytes (dc_shard d i) - tot_of ?en\<rparr> else dc_shard d j)" for j
    using il by (simp add: entry_free_def Let_def class_free_def dc_shard_def tot_of_def)
  have so: "shard_of ?d = shard_of d" by (rule shard_of_cong) (rule mem(2))
  have "\<exists>cs. shard_links (dc_mem ?d) (dc_shard ?d j) (?Q ! j) cs" if "j < dc_n_shards d" for j
  proof -
    have "\<exists>cs. shard_links (dc_mem d) (dc_shard d j) (?Q ! j) cs" using links that by (simp add: dram_links_def)
    then show ?thesis unfolding sh mem(1) by (auto simp: shard_links_bytes)
  qed
  then show "dram_links ?d ?Q" using links mem so by (simp add: dram_links_def)
  have ms: "mset (concat Q) = add_mset e (mset (concat ?Q))" using i e by (rule mset_concat_remove1)
  have msi: "mset (Q ! i) = add_mset e (mset (remove1 e (Q ! i)))" using e by simp
  have "e \<in> set (concat Q)" using nth_mem [OF i] e by auto
  then have eok: "dentry_ok d ks e" using data unfolding dram_data_def by blast
  have subset: "set (concat ?Q) \<subseteq> set (concat Q)" using ms by (metis mset.simps(2) mset_eq_setD set_subset_Cons)
  have fl: "length (dc_freelists d) = KV_DRAM_N_CLASSES" "distinct (concat Q @ concat (dc_freelists d))"
    "\<forall>c < KV_DRAM_N_CLASSES. \<forall>a \<in> set (dc_freelists d ! c). block_ok d ks a c" using data by (auto simp: dram_data_def)
  have bo: "block_ok ?d ks a c = block_ok d ks a c" for a c using mem by (simp add: block_ok_def)
  have eo: "dentry_ok ?d ks a = dentry_ok d ks a" for a
    using mem by (simp add: dentry_ok_def bo outside_arena_def)
  have cls: "de_size_class ?en < KV_DRAM_N_CLASSES" "block_ok d ks e (de_size_class ?en)" if "\<not> de_external ?en"
  proof -
    show b: "block_ok d ks e (de_size_class ?en)" using eok that by (simp add: dentry_ok_def Let_def)
    show "de_size_class ?en < KV_DRAM_N_CLASSES"
      using data by (intro block_class [OF _ b]) (simp add: dram_data_def)
  qed
  have freelists: "dc_freelists ?d = (if de_external ?en then dc_freelists d
      else (dc_freelists d)[de_size_class ?en := e # dc_freelists d ! de_size_class ?en])"
    using cls by (auto simp: entry_free_def Let_def class_free_def)
  have fmset: "mset (concat ?Q @ concat (dc_freelists ?d)) + (if de_external ?en then {#e#} else {#}) =
      mset (concat Q @ concat (dc_freelists d))"
  proof (cases "de_external ?en")
    case False
    have "mset (concat ((dc_freelists d)[de_size_class ?en := e # dc_freelists d ! de_size_class ?en])) =
        add_mset e (mset (concat (dc_freelists d)))"
      using mset_concat_update [of "de_size_class ?en" "dc_freelists d" "e # dc_freelists d ! de_size_class ?en"]
        cls(1) [OF False] fl(1) by simp
    then show ?thesis using False freelists ms by simp
  qed (use freelists ms in simp)
  have dist: "distinct (concat ?Q @ concat (dc_freelists ?d))"
  proof (rule distinct_sub_mset [OF _ fl(2)])
    show "mset (concat ?Q @ concat (dc_freelists ?d)) \<subseteq># mset (concat Q @ concat (dc_freelists d))"
      unfolding fmset [symmetric] by (rule mset_subset_eq_add_left)
  qed
  have blocks: "block_ok ?d ks a c" if "c < KV_DRAM_N_CLASSES" "a \<in> set (dc_freelists ?d ! c)" for a c
    using that fl cls bo unfolding freelists by (auto simp: nth_list_update split: if_splits)
  have bytes: "dc_bytes ?d = dc_bytes d - tot_of ?en" "dc_entries ?d = dc_entries d - 1"
    by (simp_all add: entry_free_def Let_def class_free_def tot_of_def)
  have sums: "sum_list (map (\<lambda>a. tot_of (dc_mem d a)) (concat Q)) = tot_of ?en + sum_list (map (\<lambda>a. tot_of (dc_mem d a)) (concat ?Q))"
    using ms by (rule sum_list_mset)
  have sumi: "sum_list (map (\<lambda>a. tot_of (dc_mem d a)) (Q ! i)) = tot_of ?en + sum_list (map (\<lambda>a. tot_of (dc_mem d a)) (remove1 e (Q ! i)))"
    using msi by (rule sum_list_mset)
  have len: "length (concat Q) = Suc (length (concat ?Q))" using arg_cong [OF ms, of size] by simp
  show "dram_data ?d ?Q ks"
    unfolding dram_data_def
  proof (intro conjI)
    show "arena_ok ?d ks" using data mem by (simp add: dram_data_def arena_ok_def)
    show "length (dc_freelists ?d) = KV_DRAM_N_CLASSES" using fl(1) by (simp add: freelists)
    show "distinct (concat ?Q @ concat (dc_freelists ?d))" by (rule dist)
    show "\<forall>a \<in> set (concat ?Q). dentry_ok ?d ks a" using data subset eo unfolding dram_data_def by blast
    show "\<forall>c < KV_DRAM_N_CLASSES. \<forall>a \<in> set (dc_freelists ?d ! c). block_ok ?d ks a c" using blocks by blast
    show "dc_bytes ?d = sum_list (map (\<lambda>a. tot_of (dc_mem ?d a)) (concat ?Q))"
      using data sums mem(1) bytes(1) by (simp add: dram_data_def)
    show "dc_entries ?d = of_nat (length (concat ?Q))" using data len bytes(2) by (simp add: dram_data_def)
    show "length ?Q \<le> length (dc_shards ?d)" using data mem(6) by (simp add: dram_data_def)
    show "\<forall>j < length ?Q. ds_bytes (dc_shard ?d j) = sum_list (map (\<lambda>a. tot_of (dc_mem ?d a)) (?Q ! j))"
      using data sumi mem(1) i by (auto simp: dram_data_def sh nth_list_update)
  qed
qed

section \<open>Allocation\<close>

lemma class_cap_pos:
  assumes "c < KV_DRAM_N_CLASSES"
  shows "0 < cap_of c \<and> cap_of c \<le> 2 ^ 23"
proof -
  have "c = 0 \<or> c = 1 \<or> c = 2 \<or> c = 3 \<or> c = 4 \<or> c = 5" using assms by (simp add: KV_DRAM_N_CLASSES_def) arith
  then show ?thesis by (elim disjE) (simp_all add: cap_of_def class_cap_def)
qed

lemma blocks_at_append:
  "blocks_at off (ks @ [c]) = blocks_at off ks @ [(off + sum_list (map cap_of ks), c)]"
  by (induction ks arbitrary: off) (auto simp: add.assoc)

lemma blocks_at_range:
  "(x, c) \<in> set (blocks_at off ks) \<Longrightarrow> off \<le> x \<and> x + cap_of c \<le> off + sum_list (map cap_of ks)"
  by (induction ks arbitrary: off) fastforce+

lemma blocks_at_disjoint:
  "(x, c) \<in> set (blocks_at off ks) \<Longrightarrow> (y, c') \<in> set (blocks_at off ks) \<Longrightarrow> x \<noteq> y \<Longrightarrow>
    x + cap_of c \<le> y \<or> y + cap_of c' \<le> x"
proof (induction ks arbitrary: off)
  case (Cons k ks)
  then show ?case
    using blocks_at_range [of x c "off + cap_of k" ks] blocks_at_range [of y c' "off + cap_of k" ks] by auto
qed simp

lemma block_in_range:
  assumes "arena_ok d ks" and "block_ok d ks a c"
  shows "unat (dc_arena d) \<le> unat a" and "unat a + cap_of c \<le> unat (dc_arena d) + unat (dc_bump d)"
    and "block_in_arena d a"
proof -
  show le: "unat (dc_arena d) \<le> unat a" using assms(2) by (simp add: block_ok_def word_le_nat_alt)
  have "unat a - unat (dc_arena d) + cap_of c \<le> unat (dc_bump d)"
    using blocks_at_range [of "unat a - unat (dc_arena d)" c 0 ks] assms by (auto simp: block_ok_def arena_ok_def)
  with le show top: "unat a + cap_of c \<le> unat (dc_arena d) + unat (dc_bump d)" by linarith
  have "unat (dc_arena d + dc_bump d) = unat (dc_arena d) + unat (dc_bump d)"
    using assms(1) by (subst unat_add_lem [THEN iffD1]) (auto simp: arena_ok_def)
  then show "block_in_arena d a"
    using top class_cap_pos [OF block_class [OF assms]] assms(2)
    by (simp add: block_in_arena_def block_ok_def word_less_nat_alt)
qed

lemma outside_not_in:
  assumes "arena_ok d ks" and "outside_arena d a"
  shows "\<not> block_in_arena d a"
proof -
  have "unat (dc_arena d + dc_bump d) = unat (dc_arena d) + unat (dc_bump d)"
    using assms(1) by (subst unat_add_lem [THEN iffD1]) (auto simp: arena_ok_def)
  then show ?thesis
    using assms by (auto simp: block_in_arena_def outside_arena_def arena_ok_def word_less_nat_alt word_le_nat_alt)
qed

lemma tot_of_size:
  assumes "unat (de_buf_len en) = length (de_buf en)" and "unat (de_n_records en) = length (de_recs en)"
    and "entry_size en < 2 ^ 32"
  shows "unat (tot_of en) = entry_size en"
proof -
  let ?w = "(56 :: u64) + ucast (de_n_records en) * 12 + ucast (de_buf_len en)"
  have "?w = of_nat (56 + unat (de_n_records en) * 12 + unat (de_buf_len en))" by simp
  then have "unat ?w = entry_size en" using assms by (simp add: entry_size_def mult.commute del: of_nat_add of_nat_mult)
  then have "unat (ucast ?w :: u32) = entry_size en" using assms(3) by (simp only: unsigned_ucast_eq take_bit_eq_mod) simp
  then show ?thesis by (simp add: tot_of_def entry_total_def)
qed

text \<open>What \<open>malloc\<close> promises: a block that is not null, not in the mapped arena and not in use.\<close>

definition malloc_fresh :: "dram_cache \<Rightarrow> u64 list list \<Rightarrow> u64 option \<Rightarrow> bool" where
  "malloc_fresh d Q mres \<longleftrightarrow> (\<forall>p. mres = Some p \<longrightarrow> p \<noteq> 0 \<and> outside_arena d p \<and> p \<notin> set (concat Q))"

definition alloc_ok :: "dram_cache \<Rightarrow> u64 list list \<Rightarrow> nat list \<Rightarrow> u64 \<Rightarrow> nat \<Rightarrow> bool" where
  "alloc_ok d Q ks e cls \<longleftrightarrow> e \<noteq> 0 \<and> e \<notin> set (concat Q) \<and> e \<notin> set (concat (dc_freelists d)) \<and>
    (if cls < KV_DRAM_N_CLASSES \<and> block_in_arena d e then block_ok d ks e cls else outside_arena d e)"

definition same_but_free :: "dram_cache \<Rightarrow> dram_cache \<Rightarrow> bool" where
  "same_but_free d d' \<longleftrightarrow> (\<exists>f b. d' = d\<lparr>dc_freelists := f, dc_bump := b\<rparr>)"

lemma same_but_freeD:
  assumes "same_but_free d d'"
  shows "dc_mem d' = dc_mem d" "dc_shards d' = dc_shards d" "dc_n_shards d' = dc_n_shards d" "dc_arena d' = dc_arena d"
    "arena_len d' = arena_len d" "dc_bytes d' = dc_bytes d" "dc_entries d' = dc_entries d" "dc_shard d' = dc_shard d"
    "dc_entry_max d' = dc_entry_max d" "dc_budget d' = dc_budget d"
  using assms by (auto simp: same_but_free_def arena_len_def dc_shard_def fun_eq_iff)

lemma dram_links_free: "same_but_free d d' \<Longrightarrow> dram_links d' Q = dram_links d Q"
  using same_but_freeD [of d d'] shard_of_cong [of d' d] by (simp add: dram_links_def)

lemma class_alloc_ok:
  assumes data: "dram_data d Q ks" and fresh: "malloc_fresh d Q mres"
    and alloc: "class_alloc mres d cls = (Some e, d')"
  shows "\<exists>ks'. dram_data d' Q ks' \<and> same_but_free d d' \<and> alloc_ok d' Q ks' e cls"
proof -
  have ar: "arena_ok d ks" and fl: "length (dc_freelists d) = KV_DRAM_N_CLASSES" "distinct (concat Q @ concat (dc_freelists d))"
    "\<And>a. a \<in> set (concat Q) \<Longrightarrow> dentry_ok d ks a"
    "\<And>c a. c < KV_DRAM_N_CLASSES \<Longrightarrow> a \<in> set (dc_freelists d ! c) \<Longrightarrow> block_ok d ks a c" using data by (auto simp: dram_data_def)
  have free_block: "\<exists>c < KV_DRAM_N_CLASSES. block_ok d ks a c" if a: "a \<in> set (concat (dc_freelists d))" for a
  proof -
    obtain xs where "xs \<in> set (dc_freelists d)" "a \<in> set xs" using a by auto
    then obtain c where "c < length (dc_freelists d)" "a \<in> set (dc_freelists d ! c)" by (metis in_set_conv_nth)
    then show ?thesis using fl(1,4) by auto
  qed
  consider (pop) p ps where "cls < KV_DRAM_N_CLASSES" "dc_freelists d ! cls = p # ps" "e = p"
      "d' = d\<lparr>dc_freelists := (dc_freelists d)[cls := ps]\<rparr>"
    | (bump) "cls < KV_DRAM_N_CLASSES" "dc_bump d + ucast (class_cap ! cls) \<le> arena_len d"
      "e = dc_arena d + dc_bump d" "d' = d\<lparr>dc_bump := dc_bump d + ucast (class_cap ! cls)\<rparr>"
    | (heap) "mres = Some e" "d' = d"
    using alloc by (auto simp: class_alloc_def arena_len_def split: if_splits list.splits)
  then show ?thesis
  proof cases
    case pop
    have ms: "mset (concat (dc_freelists d)) = add_mset e (mset (concat (dc_freelists d')))"
      using mset_concat_update [of cls "dc_freelists d" ps] pop fl(1) by simp
    have s: "same_but_free d d'" using pop(4) unfolding same_but_free_def by (intro exI [of _ "(dc_freelists d)[cls := ps]"] exI [of _ "dc_bump d"]) simp
    note f = same_but_freeD [OF s]
    have blk: "block_ok d ks e cls" using fl(4) [OF pop(1), of e] pop by simp
    have b': "dc_bump d' = dc_bump d" using pop by simp
    have bo: "block_ok d' ks a c = block_ok d ks a c" for a c using f by (simp add: block_ok_def)
    have "mset (concat Q @ concat (dc_freelists d)) = add_mset e (mset (concat Q @ concat (dc_freelists d')))" using ms by simp
    then have "distinct (e # concat Q @ concat (dc_freelists d'))" using fl(2) by (metis mset.simps(2) mset_eq_imp_distinct_iff)
    then have dist: "distinct (concat Q @ concat (dc_freelists d'))" "e \<notin> set (concat Q)" "e \<notin> set (concat (dc_freelists d'))"
      by auto
    have lists: "block_ok d' ks a c" if "c < KV_DRAM_N_CLASSES" "a \<in> set (dc_freelists d' ! c)" for a c
      using that pop fl(1) fl(4) [of c a] bo by (auto simp: nth_list_update split: if_splits)
    have "dentry_ok d' ks a = dentry_ok d ks a" for a using f bo by (simp add: dentry_ok_def outside_arena_def)
    then have "dram_data d' Q ks"
      using data dist(1) lists f b' pop(4) by (simp add: dram_data_def arena_ok_def)
    moreover have "alloc_ok d' Q ks e cls"
    proof -
      have "e \<noteq> 0" using block_in_range(1) [OF ar blk] ar by (auto simp: arena_ok_def unat_eq_zero)
      moreover have "block_in_arena d' e" using block_in_range(3) [OF ar blk] f b' by (simp add: block_in_arena_def)
      ultimately show ?thesis using dist bo blk pop(1) by (simp add: alloc_ok_def)
    qed
    ultimately show ?thesis using s by blast
  next
    case bump
    let ?ks = "ks @ [cls]"
    have s: "same_but_free d d'" using bump(4) unfolding same_but_free_def
      by (intro exI [of _ "dc_freelists d"] exI [of _ "dc_bump d + ucast (class_cap ! cls)"]) simp
    note f = same_but_freeD [OF s]
    have fl': "dc_freelists d' = dc_freelists d" using bump by simp
    have cap: "unat (ucast (class_cap ! cls) :: u64) = cap_of cls" by (simp add: cap_of_def)
    have ub: "unat (dc_bump d') = unat (dc_bump d) + cap_of cls"
      using bump(4) ar class_cap_pos [OF bump(1)] cap by (simp, subst unat_add_lem [THEN iffD1]) (auto simp: arena_ok_def)
    then have le: "unat (dc_bump d) + cap_of cls \<le> unat (arena_len d)" using bump(2,4) by (simp add: word_le_nat_alt)
    have ue: "unat e = unat (dc_arena d) + unat (dc_bump d)"
      using bump(3) ar by (simp, subst unat_add_lem [THEN iffD1]) (auto simp: arena_ok_def)
    have bo: "block_ok d' ?ks a c" if "block_ok d ks a c" for a c
      using that f by (auto simp: block_ok_def blocks_at_append)
    have blk: "block_ok d' ?ks e cls"
      using ar ue f by (simp add: block_ok_def blocks_at_append arena_ok_def word_le_nat_alt)
    have old: "a \<noteq> e" if "block_ok d ks a c" for a c
      using block_in_range(2) [OF ar that] class_cap_pos [OF block_class [OF ar that]] ue by auto
    have out: "a \<noteq> e" if "outside_arena d a" for a
      using that ue le class_cap_pos [OF bump(1)] by (auto simp: outside_arena_def word_less_nat_alt)
    have eQ: "e \<notin> set (concat Q)" using fl(3) [of e] old out unfolding dentry_ok_def Let_def by (metis (full_types))
    have eF: "e \<notin> set (concat (dc_freelists d'))" using free_block [of e] old fl' by auto
    have ent: "dentry_ok d' ?ks a" if "dentry_ok d ks a" for a
      using that f bo by (auto simp: dentry_ok_def Let_def outside_arena_def)
    have "dram_data d' Q ?ks"
      using data f fl' ub le ent bo bump(1) ar by (auto simp: dram_data_def arena_ok_def)
    moreover have ar': "arena_ok d' ?ks" using calculation by (simp add: dram_data_def)
    moreover have "alloc_ok d' Q ?ks e cls"
      using eQ eF blk bump(1) block_in_range(3) [OF ar' blk] ue ar by (auto simp: alloc_ok_def arena_ok_def unat_eq_zero)
    ultimately show ?thesis using s by blast
  next
    case heap
    then have e: "e \<noteq> 0" "outside_arena d e" "e \<notin> set (concat Q)" using fresh by (auto simp: malloc_fresh_def)
    have "e \<notin> set (concat (dc_freelists d))"
      using free_block [of e] block_in_range(3) [OF ar] outside_not_in [OF ar e(2)] by blast
    moreover have "same_but_free d d" unfolding same_but_free_def
      by (intro exI [of _ "dc_freelists d"] exI [of _ "dc_bump d"]) simp
    ultimately show ?thesis using e data heap outside_not_in [OF ar e(2)] by (auto simp: alloc_ok_def)
  qed
qed

end
