(* ===== verification/KV_Dram_Ops.thy ===== *)
theory KV_Dram_Ops
  imports KV_Dram_Inv
begin

text \<open>
  The operations of the DRAM cache keep its invariant, and what they return.  Eviction removes
  only entries other than the one just inserted, ends within its guard, and brings the shard
  within its budget unless the new entry is alone in it.
\<close>

section \<open>Linking a new entry\<close>

lemma dram_link_ok:
  assumes links: "dram_links d Q" and data: "dram_data d Q ks" and i: "i < length Q"
    and key: "shard_of d (de_prefix_id en) (de_group_idx en) = i"
      "\<forall>a \<in> set (concat Q). de_key (dc_mem d a) \<noteq> de_key en"
    and alloc: "alloc_ok d Q ks e (de_size_class en)"
    and en: "unat (de_buf_len en) = length (de_buf en)" "unat (de_n_records en) = length (de_recs en)"
      "entry_size en < 2 ^ 32" "de_external en = (\<not> (de_size_class en < KV_DRAM_N_CLASSES \<and> block_in_arena d e))"
      "\<not> de_external en \<Longrightarrow> unat (tot_of en) \<le> cap_of (de_size_class en)"
  defines "d' \<equiv> dram_link d i (de_bucket en) e en (tot_of en)"
  shows "dram_links d' (Q[i := Q ! i @ [e]])" and "dram_data d' (Q[i := Q ! i @ [e]]) ks"
    and "de_core (dc_mem d' e) = de_core en" and "\<forall>a. a \<noteq> e \<longrightarrow> de_core (dc_mem d' a) = de_core (dc_mem d a)"
    and "dc_n_shards d' = dc_n_shards d" and "\<forall>j. ds_budget (dc_shard d' j) = ds_budget (dc_shard d j)"
proof -
  let ?m = "dc_mem d" and ?sh = "dc_shard d i" and ?b = "de_bucket en"
  let ?en = "en\<lparr>de_hnext := ds_buckets ?sh ! ?b\<rparr>"
  have n: "length Q = dc_n_shards d" "dc_n_shards d \<le> length (dc_shards d)" "distinct (concat Q)"
    "inj_on (\<lambda>a. de_key (?m a)) (set (concat Q))" using links by (auto simp: dram_links_def)
  obtain cs where sl: "shard_links ?m ?sh (Q ! i) cs" using links i n(1) by (auto simp: dram_links_def)
  have eQ: "e \<notin> set (concat Q)" and eF: "e \<notin> set (concat (dc_freelists d))" using alloc by (auto simp: alloc_ok_def)
  have ei: "e \<notin> set (Q ! i)" using eQ nth_mem [OF i] by auto
  obtain m2 sh2 cs2 where q: "queue_push_tail (?m(e := ?en)) (?sh\<lparr>ds_buckets := (ds_buckets ?sh)[?b := Some e]\<rparr>) e = (m2, sh2)"
      "shard_links m2 sh2 (Q ! i @ [e]) cs2" "same_data (?m(e := ?en)) m2" "\<forall>a. a \<notin> set (e # Q ! i) \<longrightarrow> m2 a = ?m a"
      "ds_budget sh2 = ds_budget ?sh" "ds_bytes sh2 = ds_bytes ?sh"
    using shard_link_ok [OF sl ei, of ?b ?en] by auto
  let ?sh2 = "sh2\<lparr>ds_bytes := ds_bytes sh2 + tot_of en\<rparr>"
  have d': "d' = (dc_set d i m2 ?sh2)\<lparr>dc_bytes := dc_bytes d + tot_of en, dc_entries := dc_entries d + 1\<rparr>"
    unfolding d'_def dram_link_def Let_def q(1) by simp
  have il: "i < length (dc_shards d)" using i n by simp
  have sh: "dc_shard d' j = (if j = i then ?sh2 else dc_shard d j)" for j
    using il by (simp add: dc_shard_def dc_set_def d')
  have mem: "dc_mem d' = m2" "dc_n_shards d' = dc_n_shards d" "dc_arena d' = dc_arena d" "arena_len d' = arena_len d"
    "dc_freelists d' = dc_freelists d" "dc_bump d' = dc_bump d" "length (dc_shards d') = length (dc_shards d)"
    by (simp_all add: d' dc_set_def arena_len_def)
  have core: "de_core (m2 a) = (if a = e then de_core en else de_core (?m a))" for a
    using q(3) by (auto simp: same_data_def de_core_def)
  show "de_core (dc_mem d' e) = de_core en" "\<forall>a. a \<noteq> e \<longrightarrow> de_core (dc_mem d' a) = de_core (?m a)"
    "dc_n_shards d' = dc_n_shards d" using core mem by simp_all
  show "\<forall>j. ds_budget (dc_shard d' j) = ds_budget (dc_shard d j)" using sh q(5) by simp
  have ckey: "de_core x = de_core y \<Longrightarrow> de_key x = de_key y" for x y
    using de_core_fields(1,2) [of x y] by simp
  have keys: "de_key (m2 a) = (if a = e then de_key en else de_key (?m a))" for a
    using ckey [of "m2 a" en] ckey [of "m2 a" "?m a"] core [of a] by (cases "a = e") simp_all
  have so: "shard_of d' = shard_of d" by (rule shard_of_cong) (rule mem(2))
  have ms: "mset (concat (Q[i := Q ! i @ [e]])) = add_mset e (mset (concat Q))"
    using mset_concat_update [OF i, of "Q ! i @ [e]"] by simp
  have dist: "distinct (concat (Q[i := Q ! i @ [e]]))"
    using ms n(3) eQ by (metis distinct.simps(2) mset.simps(2) mset_eq_imp_distinct_iff)
  have cs: "set (concat (Q[i := Q ! i @ [e]])) = insert e (set (concat Q))"
    using mset_eq_setD [of "concat (Q[i := Q ! i @ [e]])" "e # concat Q"] ms by simp
  have per: "(\<exists>cs. shard_links (dc_mem d') (dc_shard d' j) (Q[i := Q ! i @ [e]] ! j) cs) \<and>
      (\<forall>a \<in> set (Q[i := Q ! i @ [e]] ! j). shard_of d' (de_prefix_id (dc_mem d' a)) (de_group_idx (dc_mem d' a)) = j)"
    if j: "j < length Q" for j
  proof (cases "j = i")
    case True
    have "shard_links (dc_mem d') (dc_shard d' i) (Q ! i @ [e]) cs2" using q(2) by (simp add: sh mem shard_links_bytes)
    moreover have "shard_of d' (de_prefix_id (m2 a)) (de_group_idx (m2 a)) = i" if "a \<in> set (Q ! i @ [e])" for a
      using that keys [of a] key(1) links i n(1) ei by (auto simp: so dram_links_def split: if_splits)
    ultimately show ?thesis using True i mem(1) by auto
  next
    case False
    obtain cj where cj: "shard_links ?m (dc_shard d j) (Q ! j) cj" using links j n(1) by (auto simp: dram_links_def)
    have je: "e \<notin> set (Q ! j)" using eQ nth_mem [OF j] by auto
    have "m2 a = ?m a" if a: "a \<in> set (Q ! j)" for a
      using q(4) distinct_concat_disjoint [OF n(3) j i False a] a je by auto
    then have "shard_links m2 (dc_shard d j) (Q ! j) cj" by (intro shard_links_cong [OF _ cj]) auto
    moreover have "shard_of d' (de_prefix_id (m2 a)) (de_group_idx (m2 a)) = j" if a: "a \<in> set (Q ! j)" for a
    proof -
      have "a \<noteq> e" using a je by blast
      then show ?thesis using a keys [of a] links j n(1) by (simp add: so dram_links_def)
    qed
    ultimately show ?thesis using False sh mem(1) by auto
  qed
  have inj: "inj_on (\<lambda>a. de_key (m2 a)) (insert e (set (concat Q)))"
  proof (rule inj_onI)
    fix x y assume xy: "x \<in> insert e (set (concat Q))" "y \<in> insert e (set (concat Q))" "de_key (m2 x) = de_key (m2 y)"
    show "x = y"
    proof (cases "x = e \<or> y = e")
      case True
      then show ?thesis using xy key(2) keys [of x] keys [of y] by (metis insertE)
    next
      case False
      then have "de_key (?m x) = de_key (?m y)" using xy(3) keys [of x] keys [of y] by simp
      then show ?thesis using inj_onD [OF n(4), of x y] xy(1,2) False by blast
    qed
  qed
  show "dram_links d' (Q[i := Q ! i @ [e]])"
    using per dist inj links n(1) mem unfolding dram_links_def cs by simp
  have tot: "tot_of (m2 a) = (if a = e then tot_of en else tot_of (?m a))" for a
    using core [of a] tot_of_core [of "m2 a" en] tot_of_core [of "m2 a" "?m a"] by (cases "a = e") simp_all
  have sum: "sum_list (map (\<lambda>a. tot_of (m2 a)) xs) = sum_list (map (\<lambda>a. tot_of (?m a)) xs)" if "e \<notin> set xs" for xs
    using that tot by (intro arg_cong [where f = sum_list] map_cong) auto
  have bo: "block_ok d' ks a c = block_ok d ks a c" for a c using mem by (simp add: block_ok_def)
  have oa: "outside_arena d' a = outside_arena d a" for a using mem by (simp add: outside_arena_def)
  have old: "dentry_ok d' ks a" if "a \<noteq> e" "dentry_ok d ks a" for a
    using that de_core_fields [of "m2 a" "?m a"] core [of a] tot [of a] mem bo
    by (simp add: dentry_ok_def Let_def oa entry_size_def)
  have new: "dentry_ok d' ks e"
    using alloc en de_core_fields [of "m2 e" en] core [of e] tot [of e] mem bo
    by (auto simp: dentry_ok_def Let_def oa alloc_ok_def entry_size_def split: if_splits)
  have sums: "sum_list (map (\<lambda>a. tot_of (m2 a)) (concat (Q[i := Q ! i @ [e]]))) = tot_of en + sum_list (map (\<lambda>a. tot_of (?m a)) (concat Q))"
    using sum_list_mset [OF ms, of "\<lambda>a. tot_of (m2 a)"] sum [OF eQ] tot [of e] by simp
  have sumj: "sum_list (map (\<lambda>a. tot_of (m2 a)) (Q ! j)) = sum_list (map (\<lambda>a. tot_of (?m a)) (Q ! j))" if "j < length Q" for j
    using sum [of "Q ! j"] eQ nth_mem [OF that] by auto
  show "dram_data d' (Q[i := Q ! i @ [e]]) ks"
    unfolding dram_data_def
  proof (intro conjI)
    show "arena_ok d' ks" using data mem by (simp add: dram_data_def arena_ok_def)
    show "length (dc_freelists d') = KV_DRAM_N_CLASSES" using data mem by (simp add: dram_data_def)
    have "mset (concat (Q[i := Q ! i @ [e]]) @ concat (dc_freelists d')) = mset (e # concat Q @ concat (dc_freelists d))"
      using ms mem by simp
    moreover have "distinct (e # concat Q @ concat (dc_freelists d))" using data eQ eF by (simp add: dram_data_def)
    ultimately show "distinct (concat (Q[i := Q ! i @ [e]]) @ concat (dc_freelists d'))" by (metis mset_eq_imp_distinct_iff)
    show "\<forall>a \<in> set (concat (Q[i := Q ! i @ [e]])). dentry_ok d' ks a"
    proof
      fix a assume "a \<in> set (concat (Q[i := Q ! i @ [e]]))"
      then have "a = e \<or> a \<noteq> e \<and> a \<in> set (concat Q)" unfolding cs using eQ by blast
      moreover have "dentry_ok d ks a" if "a \<in> set (concat Q)" using data that unfolding dram_data_def by blast
      ultimately show "dentry_ok d' ks a" using new old by blast
    qed
    show "\<forall>c < KV_DRAM_N_CLASSES. \<forall>a \<in> set (dc_freelists d' ! c). block_ok d' ks a c" using data mem bo by (simp add: dram_data_def)
    show "dc_bytes d' = sum_list (map (\<lambda>a. tot_of (dc_mem d' a)) (concat (Q[i := Q ! i @ [e]])))"
      using data sums mem(1) by (simp add: d' dram_data_def)
    show "dc_entries d' = of_nat (length (concat (Q[i := Q ! i @ [e]])))"
      using data arg_cong [OF ms, of size] by (simp add: d' dram_data_def)
    show "length (Q[i := Q ! i @ [e]]) \<le> length (dc_shards d')" using data mem by (simp add: dram_data_def)
    show "\<forall>j < length (Q[i := Q ! i @ [e]]). ds_bytes (dc_shard d' j) = sum_list (map (\<lambda>a. tot_of (dc_mem d' a)) (Q[i := Q ! i @ [e]] ! j))"
      using data sumj q(6) mem(1) tot [of e] by (auto simp: dram_data_def sh nth_list_update)
  qed
qed

section \<open>Eviction\<close>

text \<open>Changing a shard's hand and the visited bits.\<close>

lemma dram_touch_links:
  assumes links: "dram_links d Q" and i: "i < length Q" and hand: "\<And>h. hand = Some h \<Longrightarrow> h \<in> set (Q ! i)"
    and m: "\<And>a. m a = (dc_mem d a)\<lparr>de_visited := v a\<rparr>"
  shows "dram_links (dc_set d i m ((dc_shard d i)\<lparr>ds_hand := hand\<rparr>)) Q"
proof -
  let ?d = "dc_set d i m ((dc_shard d i)\<lparr>ds_hand := hand\<rparr>)"
  have n: "length Q = dc_n_shards d" "dc_n_shards d \<le> length (dc_shards d)" using links by (auto simp: dram_links_def)
  have sh: "dc_shard ?d j = (if j = i then (dc_shard d i)\<lparr>ds_hand := hand\<rparr> else dc_shard d j)" for j
    using i n by (simp add: dc_shard_def dc_set_def)
  have mem: "dc_mem ?d = m" "dc_n_shards ?d = dc_n_shards d" "length (dc_shards ?d) = length (dc_shards d)"
    by (simp_all add: dc_set_def)
  have so: "shard_of ?d = shard_of d" by (rule shard_of_cong) (rule mem(2))
  have "\<exists>cs. shard_links m (dc_shard ?d j) (Q ! j) cs" if j: "j < dc_n_shards d" for j
  proof -
    obtain cs where "shard_links (dc_mem d) (dc_shard d j) (Q ! j) cs" using links j by (auto simp: dram_links_def)
    then have "shard_links m (dc_shard d j) (Q ! j) cs" by (rule shard_links_cong [rotated]) (simp add: m)
    then show ?thesis using hand by (auto simp: sh intro: shard_links_hand)
  qed
  then show ?thesis using links mem so by (simp add: dram_links_def m)
qed

lemma dram_touch_data:
  assumes data: "dram_data d Q ks" and i: "i < length Q" and m: "\<And>a. m a = (dc_mem d a)\<lparr>de_visited := v a\<rparr>"
  shows "dram_data (dc_set d i m ((dc_shard d i)\<lparr>ds_hand := hand\<rparr>)) Q ks"
proof -
  let ?d = "dc_set d i m ((dc_shard d i)\<lparr>ds_hand := hand\<rparr>)"
  have "same_core (dc_mem d) (dc_mem ?d)" by (simp add: m same_core_def de_core_def de_data_def dc_set_def)
  moreover have "ds_bytes (dc_shard ?d j) = ds_bytes (dc_shard d j)" for j
    using i data by (simp add: dc_shard_def dc_set_def dram_data_def nth_list_update)
  ultimately show ?thesis by (intro dram_data_cong [OF data]) (simp_all add: dc_set_def arena_len_def)
qed

lemma dram_links_stat [simp]:
  "dram_links (d\<lparr>dc_evictions := x\<rparr>) Q = dram_links d Q" "dram_links (d\<lparr>dc_misses := x\<rparr>) Q = dram_links d Q"
  "dram_links (d\<lparr>dc_hits := x\<rparr>) Q = dram_links d Q" "dram_links (d\<lparr>dc_backend := b\<rparr>) Q = dram_links d Q"
  by (simp_all add: dram_links_def shard_of_def dc_shard_def)

lemma dram_data_stat [simp]:
  "dram_data (d\<lparr>dc_evictions := x\<rparr>) Q ks = dram_data d Q ks" "dram_data (d\<lparr>dc_misses := x\<rparr>) Q ks = dram_data d Q ks"
  "dram_data (d\<lparr>dc_hits := x\<rparr>) Q ks = dram_data d Q ks" "dram_data (d\<lparr>dc_backend := b\<rparr>) Q ks = dram_data d Q ks"
  by (simp_all add: dram_data_def arena_ok_def dentry_ok_def outside_arena_def block_ok_def arena_len_def dc_shard_def)

text \<open>What no operation changes: the configuration, the arena and the budgets of the shards.\<close>

definition dram_env :: "dram_cache \<Rightarrow> dram_cache \<Rightarrow> bool" where
  "dram_env d d' \<longleftrightarrow> dc_n_shards d' = dc_n_shards d \<and> dc_budget d' = dc_budget d \<and> dc_entry_max d' = dc_entry_max d \<and>
    dc_arena d' = dc_arena d \<and> arena_len d' = arena_len d \<and> (\<forall>j. ds_budget (dc_shard d' j) = ds_budget (dc_shard d j))"

lemma dram_env_refl [simp]: "dram_env d d"
  by (simp add: dram_env_def)

lemma dram_env_trans: "dram_env d d' \<Longrightarrow> dram_env d' d'' \<Longrightarrow> dram_env d d''"
  by (simp add: dram_env_def)

lemma dram_env_stat [simp]:
  "dram_env d (d'\<lparr>dc_evictions := x\<rparr>) = dram_env d d'" "dram_env d (d'\<lparr>dc_misses := x\<rparr>) = dram_env d d'"
  "dram_env d (d'\<lparr>dc_hits := x\<rparr>) = dram_env d d'"
  by (simp_all add: dram_env_def arena_len_def dc_shard_def)

lemma dram_env_set [intro]: "i < length (dc_shards d) \<Longrightarrow> ds_budget sh = ds_budget (dc_shard d i) \<Longrightarrow> dram_env d (dc_set d i m sh)"
  by (auto simp: dram_env_def dc_set_def dc_shard_def arena_len_def nth_list_update)

lemma dram_env_free [intro]: "i < length (dc_shards d) \<Longrightarrow> dram_env d (entry_free d i e)"
  by (auto simp: dram_env_def entry_free_def class_free_def Let_def dc_shard_def arena_len_def nth_list_update)

lemma dram_env_rest:
  "same_rest d d' \<Longrightarrow> (\<forall>j. ds_budget (dc_shard d' j) = ds_budget (dc_shard d j)) \<Longrightarrow> dram_env d d'"
  by (auto simp: dram_env_def same_rest_def arena_len_def)

lemma entry_free_mem [simp]: "dc_mem (entry_free d i e) = dc_mem d"
  by (simp add: entry_free_def class_free_def Let_def)

text \<open>One eviction.\<close>

lemma evict_step:
  assumes links: "dram_links d Q" and data: "dram_data d Q ks" and i: "i < length Q" and e: "e \<in> set (Q ! i)"
  shows "\<exists>d1. entry_unlink d i e = Some d1 \<and>
    (\<forall>ev. let d2 = (dc_set d1 i (dc_mem d1) ((dc_shard d1 i)\<lparr>ds_hand := de_snext (dc_mem d e)\<rparr>))\<lparr>dc_evictions := ev\<rparr>;
         d3 = entry_free d2 i e
     in dram_links d3 (Q[i := remove1 e (Q ! i)]) \<and> dram_data d3 (Q[i := remove1 e (Q ! i)]) ks \<and>
        same_data (dc_mem d) (dc_mem d3) \<and> dram_env d d3)"
proof -
  let ?Q = "Q[i := remove1 e (Q ! i)]"
  obtain d1 where d1: "entry_unlink d i e = Some d1" "dram_links d1 ?Q" "dram_data d1 Q ks"
      "same_data (dc_mem d) (dc_mem d1)" "same_rest d d1"
      "\<forall>j. ds_budget (dc_shard d1 j) = ds_budget (dc_shard d j)"
      "de_snext (dc_mem d e) = None \<or> (\<exists>x \<in> set (remove1 e (Q ! i)). de_snext (dc_mem d e) = Some x)"
    using entry_unlink_ok [OF links data i e] by blast
  define d2 where "d2 ev = (dc_set d1 i (dc_mem d1) ((dc_shard d1 i)\<lparr>ds_hand := de_snext (dc_mem d e)\<rparr>))\<lparr>dc_evictions := ev\<rparr>" for ev
  have m: "dc_mem d1 a = (dc_mem d1 a)\<lparr>de_visited := de_visited (dc_mem d1 a)\<rparr>" for a by simp
  have "dram_links (dc_set d1 i (dc_mem d1) ((dc_shard d1 i)\<lparr>ds_hand := de_snext (dc_mem d e)\<rparr>)) ?Q"
    using i d1(7) by (intro dram_touch_links [OF d1(2) _ _ m]) auto
  then have l2: "dram_links (d2 ev) ?Q" for ev by (simp add: d2_def)
  have t2: "dram_data (d2 ev) Q ks" for ev using dram_touch_data [OF d1(3) i m] by (simp add: d2_def)
  have il: "i < length (dc_shards d1)" using i d1(3) by (simp add: dram_data_def)
  have "dram_env d1 (dc_set d1 i (dc_mem d1) ((dc_shard d1 i)\<lparr>ds_hand := de_snext (dc_mem d e)\<rparr>))"
    using il by (intro dram_env_set) simp_all
  then have "dram_env d1 (d2 ev)" for ev by (simp add: d2_def)
  moreover have "dram_env (d2 ev) (entry_free (d2 ev) i e)" for ev
    using il by (intro dram_env_free) (simp add: d2_def dc_set_def)
  ultimately have env: "dram_env d (entry_free (d2 ev) i e)" for ev
    using dram_env_rest [OF d1(5,6)] dram_env_trans by blast
  have "dc_mem (entry_free (d2 ev) i e) = dc_mem d1" for ev by (simp add: d2_def dc_set_def)
  then show ?thesis
    using d1(1,4) entry_free_ok [OF l2 t2 i e] env unfolding d2_def Let_def by (intro exI [of _ d1]) simp
qed

definition others :: "u64 list \<Rightarrow> u64 \<Rightarrow> u64 list" where
  "others qs p = filter (\<lambda>a. a \<noteq> p) qs"

definition hand_at :: "dram_shard \<Rightarrow> u64 list \<Rightarrow> u64" where
  "hand_at sh qs = (case ds_hand sh of Some x \<Rightarrow> x | None \<Rightarrow> hd qs)"

text \<open>How many rounds eviction can still take: two for every other entry and for every visited
  bit among them, one more when the hand is at the protected entry.\<close>

definition sieve_rank :: "dram_mem \<Rightarrow> dram_shard \<Rightarrow> u64 list \<Rightarrow> u64 \<Rightarrow> nat" where
  "sieve_rank m sh qs p = 2 * (length (others qs p) + length (filter (\<lambda>a. de_visited (m a)) (others qs p))) +
    (if hand_at sh qs = p then 1 else 0)"

lemma others_empty: "distinct qs \<Longrightarrow> p \<in> set qs \<Longrightarrow> others qs p = [] \<Longrightarrow> qs = [p]"
proof -
  assume d: "distinct qs" "p \<in> set qs" "others qs p = []"
  then have "\<forall>a \<in> set qs. a = p" by (auto simp: others_def filter_empty_conv)
  then show ?thesis using d(1,2) by (cases qs; cases "tl qs") auto
qed

lemma others_remove1: "distinct qs \<Longrightarrow> e \<noteq> p \<Longrightarrow> others (remove1 e qs) p = remove1 e (others qs p)"
  by (simp add: others_def filter_remove1)

lemma dseg_next_last:
  assumes "dseg m pr f qs l None" and "p \<in> set qs" and "distinct qs" and "de_snext (m p) = None"
  shows "last qs = p"
  using assms
proof (induction qs arbitrary: pr f)
  case (Cons a qs)
  show ?case
  proof (cases "p = a")
    case True
    then have "dseg m (Some a) None qs l None" using Cons.prems by simp
    then have "qs = []" by (cases qs) auto
    then show ?thesis using True by simp
  next
    case False
    then have "p \<in> set qs" using Cons.prems(2) by simp
    then show ?thesis using Cons.IH [of "Some a" "de_snext (m a)"] Cons.prems by auto
  qed
qed simp

lemma dseg_next_mem:
  assumes "dseg m pr f qs l None" and "p \<in> set qs" and "distinct qs" and "de_snext (m p) = Some x"
  shows "x \<in> set qs \<and> x \<noteq> p"
  using assms
proof (induction qs arbitrary: pr f)
  case (Cons a qs)
  show ?case
  proof (cases "p = a")
    case True
    then have "dseg m (Some a) (Some x) qs l None" using Cons.prems by simp
    then show ?thesis using True Cons.prems(3) by (cases qs) auto
  next
    case False
    then have "p \<in> set qs" using Cons.prems(2) by simp
    then show ?thesis using Cons.IH [of "Some a" "de_snext (m a)"] Cons.prems False by auto
  qed
qed simp

lemma hand_after:
  assumes "dseg m None (ds_head sh) qs (ds_tail sh) None" and "distinct qs" and "p \<in> set qs" and "others qs p \<noteq> []"
    and "ds_hand sh' = de_snext (m p)"
  shows "hand_at sh' qs \<noteq> p"
proof (cases "de_snext (m p)")
  case None
  then have last: "last qs = p" using dseg_next_last [OF assms(1,3,2)] by simp
  have "hd qs \<noteq> last qs"
  proof
    assume eq: "hd qs = last qs"
    then have "qs = [p]" using assms(2,3) last
      by (cases qs) (auto simp: last_ConsR split: if_splits)
    then show False using assms(4) by (simp add: others_def)
  qed
  then show ?thesis using None assms(5) last by (simp add: hand_at_def)
next
  case (Some x)
  then show ?thesis using dseg_next_mem [OF assms(1,3,2) Some] assms(5) by (simp add: hand_at_def)
qed

lemma same_visited: "same_data m m' \<Longrightarrow> de_visited (m' a) = de_visited (m a)"
proof -
  assume "same_data m m'"
  then have "de_visited (de_data (m' a)) = de_visited (de_data (m a))" by (simp add: same_data_def)
  then show ?thesis by (simp add: de_data_def)
qed

lemma visited_remove1:
  "\<not> de_visited (m e) \<Longrightarrow> filter (\<lambda>a. de_visited (m a)) (remove1 e xs) = filter (\<lambda>a. de_visited (m a)) xs"
  by (induction xs) auto

lemma visited_clear:
  assumes "distinct xs" and "e \<in> set xs" and "de_visited (m e)"
  shows "length (filter (\<lambda>a. de_visited ((m(e := (m e)\<lparr>de_visited := False\<rparr>)) a)) xs) < length (filter (\<lambda>a. de_visited (m a)) xs)"
proof -
  let ?f = "filter (\<lambda>a. de_visited (m a)) xs"
  have "filter (\<lambda>a. de_visited ((m(e := (m e)\<lparr>de_visited := False\<rparr>)) a)) xs = filter (\<lambda>a. a \<noteq> e) ?f"
    unfolding filter_filter by (intro filter_cong) auto
  then have "filter (\<lambda>a. de_visited ((m(e := (m e)\<lparr>de_visited := False\<rparr>)) a)) xs = remove1 e ?f"
    using assms(1) by (simp add: distinct_remove1_removeAll removeAll_filter_not_eq eq_commute)
  moreover have "e \<in> set ?f" using assms by simp
  ultimately show ?thesis using length_pos_if_in_set [of e ?f] by (simp add: length_remove1 del: length_greater_0_conv)
qed

lemma sieve_loop_ok:
  assumes "dram_links d Q" and "dram_data d Q ks" and "i < length Q" and "p \<in> set (Q ! i)"
  shows "\<exists>d' q. sieve_loop k d i p = Some d' \<and> dram_links d' (Q[i := q]) \<and> dram_data d' (Q[i := q]) ks \<and>
    set q \<subseteq> set (Q ! i) \<and> p \<in> set q \<and> same_core (dc_mem d) (dc_mem d') \<and> dram_env d d' \<and>
    (sieve_rank (dc_mem d) (dc_shard d i) (Q ! i) p < k \<longrightarrow>
      ds_bytes (dc_shard d' i) \<le> ds_budget (dc_shard d' i) \<or> others (Q ! i) p = [] \<or> others q p = [])"
  using assms
proof (induction k arbitrary: d Q)
  case 0
  then show ?case by (intro exI [of _ d] exI [of _ "Q ! i"]) simp
next
  case (Suc k)
  note links = Suc.prems(1) and data = Suc.prems(2) and i = Suc.prems(3) and p = Suc.prems(4)
  let ?sh = "dc_shard d i" and ?q = "Q ! i" and ?m = "dc_mem d"
  have n: "length Q = dc_n_shards d" "dc_n_shards d \<le> length (dc_shards d)" using links by (auto simp: dram_links_def)
  have il: "i < length (dc_shards d)" using i n by simp
  obtain cs where sl: "shard_links ?m ?sh ?q cs" using links i n(1) by (auto simp: dram_links_def)
  then have seg: "dseg ?m None (ds_head ?sh) ?q (ds_tail ?sh) None" and dist: "distinct ?q"
    and hand: "\<And>h. ds_hand ?sh = Some h \<Longrightarrow> h \<in> set ?q" by (auto simp: shard_links_def)
  have head: "ds_head ?sh = Some (hd ?q)" using seg p by (cases ?q) auto
  define e where "e = hand_at ?sh ?q"
  have e: "e \<in> set ?q" using hand p list.set_sel(1) [of ?q] by (cases "ds_hand ?sh"; cases "?q = []") (simp_all add: e_def hand_at_def)
  have eh: "(case ds_hand ?sh of Some x \<Rightarrow> x | None \<Rightarrow> hd ?q) = e" by (simp add: e_def hand_at_def)
  have nxt: "\<And>h. de_snext (?m e) = Some h \<Longrightarrow> h \<in> set ?q" using dseg_next_mem [OF seg e dist] by blast
  have step: ?case if
      s: "sieve_loop (Suc k) d i p = sieve_loop k d2 i p" "dram_links d2 (Q[i := q2])" "dram_data d2 (Q[i := q2]) ks"
        "p \<in> set q2" "set q2 \<subseteq> set ?q" "same_core ?m (dc_mem d2)" "dram_env d d2"
        "others ?q p \<noteq> [] \<Longrightarrow> sieve_rank (dc_mem d2) (dc_shard d2 i) q2 p < sieve_rank ?m ?sh ?q p"
    for d2 q2
  proof -
    have q2: "Q[i := q2] ! i = q2" "i < length (Q[i := q2])" using i by simp_all
    obtain d' q where r: "sieve_loop k d2 i p = Some d'" "dram_links d' (Q[i := q])" "dram_data d' (Q[i := q]) ks"
        "set q \<subseteq> set q2" "p \<in> set q" "same_core (dc_mem d2) (dc_mem d')" "dram_env d2 d'"
        "sieve_rank (dc_mem d2) (dc_shard d2 i) q2 p < k \<longrightarrow>
          ds_bytes (dc_shard d' i) \<le> ds_budget (dc_shard d' i) \<or> others q2 p = [] \<or> others q p = []"
      using Suc.IH [OF s(2,3) q2(2)] s(4) unfolding q2(1) list_update_overwrite by blast
    have "others q p = []" if "others q2 p = []" using that r(4) by (auto simp: others_def filter_empty_conv)
    then have "sieve_rank ?m ?sh ?q p < Suc k \<longrightarrow>
        ds_bytes (dc_shard d' i) \<le> ds_budget (dc_shard d' i) \<or> others ?q p = [] \<or> others q p = []"
      using r(8) s(8) by (cases "others ?q p = []") auto
    then show ?thesis
      using s(1,5) r(1-5) same_core_trans [OF s(6) r(6)] dram_env_trans [OF s(7) r(7)]
      by (intro exI [of _ d'] exI [of _ q]) (simp del: sieve_loop.simps)
  qed
  show ?case
  proof (cases "ds_bytes ?sh > ds_budget ?sh")
    case False
    then show ?thesis using Suc.prems by (intro exI [of _ d] exI [of _ ?q]) (simp add: Let_def not_less)
  next
    case over: True
    define touch where "touch m = dc_set d i m (?sh\<lparr>ds_hand := de_snext (?m e)\<rparr>)" for m
    have tsh: "dc_shard (touch m) i = ?sh\<lparr>ds_hand := de_snext (?m e)\<rparr>" "dc_mem (touch m) = m" for m
      using il by (simp_all add: touch_def dc_shard_def dc_set_def)
    have tenv: "dram_env d (touch m)" for m unfolding touch_def using il by (intro dram_env_set) simp_all
    have tok: "dram_links (touch m) Q" "dram_data (touch m) Q ks" if m: "\<forall>a. m a = (?m a)\<lparr>de_visited := v a\<rparr>" for m v
      unfolding touch_def
      by (rule dram_touch_links [OF links i nxt], assumption, rule m [rule_format], rule dram_touch_data [OF data i], rule m [rule_format])
    have after: "hand_at (dc_shard (touch m) i) ?q \<noteq> e" if "others ?q e \<noteq> []" for m
      using hand_after [OF seg dist e that] by (simp add: tsh)
    consider (prot) "e = p" | (vis) "e \<noteq> p" "de_visited (?m e)" | (ev) "e \<noteq> p" "\<not> de_visited (?m e)" by blast
    then show ?thesis
    proof cases
      case prot
      have "dram_links (touch ?m) Q" "dram_data (touch ?m) Q ks"
        by (rule tok [of ?m "\<lambda>a. de_visited (?m a)"], simp)+
      moreover have "sieve_loop (Suc k) d i p = sieve_loop k (touch ?m) i p"
        using over head eh prot by (simp add: Let_def touch_def)
      moreover have "sieve_rank (dc_mem (touch ?m)) (dc_shard (touch ?m) i) ?q p < sieve_rank ?m ?sh ?q p" if "others ?q p \<noteq> []"
        using after [of ?m] that prot e_def by (simp add: sieve_rank_def tsh)
      ultimately show ?thesis using p tenv by (intro step [of "touch ?m" ?q]) (simp_all add: tsh)
    next
      case vis
      let ?m2 = "?m(e := (?m e)\<lparr>de_visited := False\<rparr>)"
      have "dram_links (touch ?m2) Q" "dram_data (touch ?m2) Q ks"
        by (rule tok [of ?m2 "\<lambda>a. a \<noteq> e \<and> de_visited (?m a)"], simp)+
      moreover have "sieve_loop (Suc k) d i p = sieve_loop k (touch ?m2) i p"
        using over head eh vis by (simp add: Let_def touch_def)
      moreover have "same_core ?m ?m2" by (simp add: same_core_def de_core_def de_data_def)
      moreover have "sieve_rank ?m2 (dc_shard (touch ?m2) i) ?q p < sieve_rank ?m ?sh ?q p"
      proof -
        have "distinct (others ?q p)" "e \<in> set (others ?q p)" using dist e vis(1) by (simp_all add: others_def)
        from visited_clear [of _ _ ?m, OF this vis(2)] show ?thesis by (simp add: sieve_rank_def)
      qed
      ultimately show ?thesis using p tenv by (intro step [of "touch ?m2" ?q]) (simp_all add: tsh)
    next
      case ev
      let ?q2 = "remove1 e ?q"
      obtain d1 where d1: "entry_unlink d i e = Some d1" and r: "\<And>ev. let d2 = (dc_set d1 i (dc_mem d1) ((dc_shard d1 i)
            \<lparr>ds_hand := de_snext (?m e)\<rparr>))\<lparr>dc_evictions := ev\<rparr>; d3 = entry_free d2 i e
          in dram_links d3 (Q[i := ?q2]) \<and> dram_data d3 (Q[i := ?q2]) ks \<and> same_data ?m (dc_mem d3) \<and> dram_env d d3"
        using evict_step [OF links data i e] by blast
      let ?d2 = "dc_set d1 i (dc_mem d1) ((dc_shard d1 i)\<lparr>ds_hand := de_snext (?m e)\<rparr>)"
      define d3 where "d3 = entry_free (?d2\<lparr>dc_evictions := dc_evictions ?d2 + 1\<rparr>) i e"
      have d3: "sieve_loop (Suc k) d i p = sieve_loop k d3 i p"
        using over head eh ev d1 by (simp add: Let_def d3_def)
      have d3': "dram_links d3 (Q[i := ?q2])" "dram_data d3 (Q[i := ?q2]) ks" "same_data ?m (dc_mem d3)" "dram_env d d3"
        using r [of "dc_evictions ?d2 + 1"] unfolding Let_def d3_def [symmetric] by blast+
      have o: "others ?q2 p = remove1 e (others ?q p)" "e \<in> set (others ?q p)"
        using dist ev(1) e by (simp_all add: others_remove1) (simp add: others_def)
      have "filter (\<lambda>a. de_visited (dc_mem d3 a)) (others ?q2 p) = filter (\<lambda>a. de_visited (?m a)) (others ?q p)"
        unfolding same_visited [OF d3'(3)] o(1) by (rule visited_remove1) (rule ev(2))
      moreover have "length (others ?q2 p) < length (others ?q p)"
        using o length_pos_if_in_set [OF o(2)] by (simp add: length_remove1 del: length_greater_0_conv)
      ultimately have "sieve_rank (dc_mem d3) (dc_shard d3 i) ?q2 p < sieve_rank ?m ?sh ?q p" by (simp add: sieve_rank_def)
      then show ?thesis
        using p ev(1) by (intro step [OF d3 d3'(1,2) _ set_remove1_subset same_data_core [OF d3'(3)] d3'(4)]) simp_all
    qed
  qed
qed

lemma sieve_evict_ok:
  assumes "dram_links d Q" and "dram_data d Q ks" and "i < length Q" and "p \<in> set (Q ! i)"
  shows "\<exists>d' q. sieve_evict d i p = Some d' \<and> dram_links d' (Q[i := q]) \<and> dram_data d' (Q[i := q]) ks \<and>
    set q \<subseteq> set (Q ! i) \<and> p \<in> set q \<and> same_core (dc_mem d) (dc_mem d') \<and> dram_env d d' \<and>
    (length (Q ! i) \<le> 1024 \<longrightarrow> ds_bytes (dc_shard d' i) \<le> ds_budget (dc_shard d' i) \<or> q = [p])"
proof -
  obtain d' q where r: "sieve_loop 4096 d i p = Some d'" "dram_links d' (Q[i := q])" "dram_data d' (Q[i := q]) ks"
      "set q \<subseteq> set (Q ! i)" "p \<in> set q" "same_core (dc_mem d) (dc_mem d')" "dram_env d d'"
      "sieve_rank (dc_mem d) (dc_shard d i) (Q ! i) p < 4096 \<longrightarrow>
        ds_bytes (dc_shard d' i) \<le> ds_budget (dc_shard d' i) \<or> others (Q ! i) p = [] \<or> others q p = []"
    using sieve_loop_ok [OF assms, of 4096] by blast
  have n: "length Q = dc_n_shards d'" using r(2) by (simp add: dram_links_def)
  obtain cs where "shard_links (dc_mem d') (dc_shard d' i) q cs" using r(2) assms(3) n by (auto simp: dram_links_def)
  then have q: "distinct q" "dseg (dc_mem d') None (ds_head (dc_shard d' i)) q (ds_tail (dc_shard d' i)) None"
    by (auto simp: shard_links_def)
  obtain h where head: "ds_head (dc_shard d' i) = Some h" using q(2) r(5) by (cases q) auto
  have "distinct (Q ! i)" using assms(1,3) by (auto simp: dram_links_def shard_links_def)
  then have "length (others (Q ! i) p) < length (Q ! i)"
    using assms(4) by (auto simp: others_def intro: length_filter_less)
  moreover have "length (filter (\<lambda>a. de_visited (dc_mem d a)) (others (Q ! i) p)) \<le> length (others (Q ! i) p)"
    by (rule length_filter_le)
  ultimately have "sieve_rank (dc_mem d) (dc_shard d i) (Q ! i) p < 4096" if "length (Q ! i) \<le> 1024"
    using that by (simp add: sieve_rank_def del: length_filter_le)
  moreover have "q = [p]" if "others (Q ! i) p = [] \<or> others q p = []"
    using that r(4) q(1) by (intro others_empty r(5)) (auto simp: others_def filter_empty_conv)
  ultimately have "length (Q ! i) \<le> 1024 \<longrightarrow> ds_bytes (dc_shard d' i) \<le> ds_budget (dc_shard d' i) \<or> q = [p]"
    using r(8) by blast
  then show ?thesis
    using r(1-7) head by (intro exI [of _ d'] exI [of _ q]) (simp add: sieve_evict_def Let_def)
qed

end
