(* ===== verification/KV_Dram_Api.thy ===== *)
theory KV_Dram_Api
  imports KV_Dram_Ops
begin

text \<open>
  What the interface of the DRAM cache promises: every call returns and keeps the invariant, a
  put is found by the following get, an entry of another key is either unchanged or gone, a
  shard is brought within its budget, and the memory of live entries never overlaps.
\<close>

section \<open>Contents\<close>

type_synonym dram_value = "u32 \<times> u32 \<times> bytes \<times> dram_rec list"

definition de_value :: "dram_entry \<Rightarrow> dram_value" where
  "de_value en = (de_ver en, de_expire_ts en, de_buf en, de_recs en)"

text \<open>The entry that a lookup finds, whatever its version and age.\<close>

definition dram_lookup :: "dram_cache \<Rightarrow> u64 \<times> u32 \<Rightarrow> dram_value option" where
  "dram_lookup d k =
    (case entry_find (dram_fuel d) (dc_mem d) (ds_buckets (dc_shard d (shard_of d (fst k) (snd k))) ! bucket_of (fst k) (snd k)) (fst k) (snd k) of
       Some (Some a) \<Rightarrow> Some (de_value (dc_mem d a))
     | _ \<Rightarrow> None)"

text \<open>The addresses of the live entries, by walking the queues.\<close>

primrec queue_addrs :: "nat \<Rightarrow> dram_mem \<Rightarrow> u64 option \<Rightarrow> u64 list" where
  "queue_addrs 0 m a = []"
| "queue_addrs (Suc k) m a = (case a of None \<Rightarrow> [] | Some x \<Rightarrow> x # queue_addrs k m (de_snext (m x)))"

definition shard_addrs :: "dram_cache \<Rightarrow> nat \<Rightarrow> u64 list" where
  "shard_addrs d i = queue_addrs (dram_fuel d) (dc_mem d) (ds_head (dc_shard d i))"

definition dram_addrs :: "dram_cache \<Rightarrow> u64 list" where
  "dram_addrs d = concat (map (shard_addrs d) [0..<dc_n_shards d])"

lemma queue_addrs_seg: "dseg m pr f qs l None \<Longrightarrow> length qs < k \<Longrightarrow> queue_addrs k m f = qs"
proof (induction k arbitrary: pr f qs)
  case (Suc k)
  show ?case
  proof (cases qs)
    case (Cons a as)
    then have "dseg m (Some a) (de_snext (m a)) as l None" using Suc.prems(1) by simp
    then show ?thesis using Suc.IH Suc.prems Cons by simp
  qed (use Suc.prems in simp)
qed simp

lemma shard_addrs_eq:
  assumes "dram_links d Q" and "dram_data d Q ks" and "i < length Q"
  shows "shard_addrs d i = Q ! i"
proof -
  have "length Q = dc_n_shards d" using assms(1) by (simp add: dram_links_def)
  then obtain cs where "shard_links (dc_mem d) (dc_shard d i) (Q ! i) cs" using assms by (auto simp: dram_links_def)
  then have "dseg (dc_mem d) None (ds_head (dc_shard d i)) (Q ! i) (ds_tail (dc_shard d i)) None" by (simp add: shard_links_def)
  then show ?thesis unfolding shard_addrs_def using fuel_enough [OF assms(2,3)] by (rule queue_addrs_seg)
qed

lemma dram_addrs_eq:
  assumes "dram_links d Q" and "dram_data d Q ks"
  shows "dram_addrs d = concat Q"
proof -
  have "length Q = dc_n_shards d" using assms(1) by (simp add: dram_links_def)
  then have "map (shard_addrs d) [0..<dc_n_shards d] = Q"
    using shard_addrs_eq [OF assms] by (intro nth_equalityI) simp_all
  then show ?thesis by (simp add: dram_addrs_def)
qed

lemma dram_lookup_Some:
  assumes "dram_links d Q" and "dram_data d Q ks"
  shows "dram_lookup d k = Some v \<longleftrightarrow> (\<exists>a \<in> set (concat Q). de_key (dc_mem d a) = k \<and> de_value (dc_mem d a) = v)"
proof -
  obtain p g where k: "k = (p, g)" by (cases k)
  have len: "length Q = dc_n_shards d" using assms(1) by (simp add: dram_links_def)
  have i: "shard_of d p g < length Q" using shard_of_less [OF assms(1)] len by simp
  obtain r where r: "entry_find (dram_fuel d) (dc_mem d) (ds_buckets (dc_shard d (shard_of d p g)) ! bucket_of p g) p g = Some r"
      "\<forall>a. r = Some a \<longleftrightarrow> a \<in> set (Q ! shard_of d p g) \<and> de_key (dc_mem d a) = (p, g)"
      "r = None \<longleftrightarrow> (\<forall>a \<in> set (concat Q). de_key (dc_mem d a) \<noteq> (p, g))"
    using entry_find_ok [OF assms refl] by blast
  show ?thesis
  proof (cases r)
    case None
    then show ?thesis using r(1,3) by (auto simp: dram_lookup_def k)
  next
    case (Some a)
    then have a: "a \<in> set (concat Q)" "de_key (dc_mem d a) = k" using r(2) nth_mem [OF i] k by auto
    have "inj_on (\<lambda>a. de_key (dc_mem d a)) (set (concat Q))" using assms(1) by (simp add: dram_links_def)
    then have "b = a" if "b \<in> set (concat Q)" "de_key (dc_mem d b) = k" for b
      using that a by (metis (mono_tags, lifting) inj_onD)
    moreover have "dram_lookup d k = Some (de_value (dc_mem d a))" using r(1) Some by (simp add: dram_lookup_def k)
    ultimately show ?thesis using a by (metis option.inject)
  qed
qed

lemma dram_lookup_None:
  assumes "dram_links d Q" and "dram_data d Q ks"
  shows "dram_lookup d k = None \<longleftrightarrow> (\<forall>a \<in> set (concat Q). de_key (dc_mem d a) \<noteq> k)"
  using dram_lookup_Some [OF assms, of k] by (metis not_None_eq)

section \<open>Operations\<close>

lemma entry_remove_ok:
  assumes links: "dram_links d Q" and data: "dram_data d Q ks" and i: "i < length Q" and e: "e \<in> set (Q ! i)"
  shows "\<exists>d'. map_option (\<lambda>d. entry_free d i e) (entry_unlink d i e) = Some d' \<and>
    dram_links d' (Q[i := remove1 e (Q ! i)]) \<and> dram_data d' (Q[i := remove1 e (Q ! i)]) ks \<and>
    same_core (dc_mem d) (dc_mem d') \<and> dram_env d d'"
proof -
  obtain d1 where d1: "entry_unlink d i e = Some d1" "dram_links d1 (Q[i := remove1 e (Q ! i)])" "dram_data d1 Q ks"
      "same_data (dc_mem d) (dc_mem d1)" "same_rest d d1" "\<forall>j. ds_budget (dc_shard d1 j) = ds_budget (dc_shard d j)"
    using entry_unlink_ok [OF assms] by blast
  have "i < length (dc_shards d1)" using i d1(3) by (simp add: dram_data_def)
  then have "dram_env d (entry_free d1 i e)" using dram_env_rest [OF d1(5,6)] by (blast intro: dram_env_trans)
  then show ?thesis
    using d1(1) entry_free_ok [OF d1(2,3) i e] same_data_core [OF d1(4)] by (intro exI [of _ "entry_free d1 i e"]) simp
qed

lemma pick_class_cap:
  assumes "pick_class t < KV_DRAM_N_CLASSES"
  shows "unat t \<le> cap_of (pick_class t)"
proof (cases "find (\<lambda>c. t \<le> class_cap ! c) [0..<KV_DRAM_N_CLASSES]")
  case None
  then show ?thesis using assms by (simp add: pick_class_def)
next
  case (Some c)
  then have "t \<le> class_cap ! c" by (auto simp: find_Some_iff)
  then show ?thesis using Some by (simp add: pick_class_def cap_of_def word_le_nat_alt)
qed

lemma malloc_fresh_mono:
  "malloc_fresh d Q mres \<Longrightarrow> dram_env d d' \<Longrightarrow> set (concat Q') \<subseteq> set (concat Q) \<Longrightarrow> malloc_fresh d' Q' mres"
  by (auto simp: malloc_fresh_def dram_env_def outside_arena_def)

lemma dram_env_alloc: "same_but_free d d' \<Longrightarrow> dram_env d d'"
  using same_but_freeD [of d d'] by (simp add: dram_env_def)

lemma core_key: "de_core x = de_core y \<Longrightarrow> de_key x = de_key y"
  using de_core_fields(1,2) [of x y] by simp

lemma core_value: "de_core x = de_core y \<Longrightarrow> de_value x = de_value y"
  using de_core_fields(3,4,9,10) [of x y] by (simp add: de_value_def)

text \<open>Insertion once the key is absent.\<close>

lemma dram_insert_ok:
  assumes links: "dram_links d Q" and data: "dram_data d Q ks" and fresh: "malloc_fresh d Q mres"
    and size: "length recs < 2 ^ 16" "56 + 12 * length recs + length buf < 2 ^ 32"
    and key: "\<forall>a \<in> set (concat Q). de_key (dc_mem d a) \<noteq> (p, g)" and i: "i = shard_of d p g"
    and alloc: "class_alloc mres d cls = (Some e, d1)" and t: "t = entry_total (of_nat (length recs)) (of_nat (length buf))"
    and cls: "cls = pick_class t"
    and en: "en = dram_new_entry p g ver expire_ts buf recs (cls \<ge> KV_DRAM_N_CLASSES \<or> \<not> block_in_arena d1 e) cls"
  shows "\<exists>d' q ks'. sieve_evict (dram_link d1 i (bucket_of p g) e en (ucast t)) i e = Some d' \<and>
    dram_links d' (Q[i := q]) \<and> dram_data d' (Q[i := q]) ks' \<and> dram_env d d' \<and>
    set q \<subseteq> insert e (set (Q ! i)) \<and> e \<in> set q \<and> de_core (dc_mem d' e) = de_core en \<and>
    (\<forall>a. a \<noteq> e \<longrightarrow> de_core (dc_mem d' a) = de_core (dc_mem d a)) \<and>
    (length (Q ! i) < 1024 \<longrightarrow> ds_bytes (dc_shard d' i) \<le> ds_budget (dc_shard d' i) \<or> q = [e])"
proof -
  have len: "length Q = dc_n_shards d" using links by (simp add: dram_links_def)
  have il: "i < length Q" using shard_of_less [OF links] len i by simp
  obtain ks1 where d1: "dram_data d1 Q ks1" "same_but_free d d1" "alloc_ok d1 Q ks1 e cls"
    using class_alloc_ok [OF data fresh alloc] by blast
  note f = same_but_freeD [OF d1(2)]
  have l1: "dram_links d1 Q" using links dram_links_free [OF d1(2)] by simp
  have so: "shard_of d1 = shard_of d" by (rule shard_of_cong) (rule f(3))
  have nr: "unat (of_nat (length recs) :: u16) = length recs" using size(1) by (simp add: take_bit_nat_eq_self unat_of_nat)
  have nb: "unat (of_nat (length buf) :: u32) = length buf" using size(2) by simp
  have flds: "de_prefix_id en = p" "de_group_idx en = g" "de_size_class en = cls" "de_buf en = buf" "de_recs en = recs"
    "de_buf_len en = of_nat (length buf)" "de_n_records en = of_nat (length recs)"
    "de_external en = (cls \<ge> KV_DRAM_N_CLASSES \<or> \<not> block_in_arena d1 e)"
    by (simp_all add: en dram_new_entry_def)
  have tot: "ucast t = tot_of en" by (simp add: tot_of_def flds t)
  have cap: "unat (tot_of en) \<le> cap_of (de_size_class en)" if "\<not> de_external en"
    using that pick_class_cap [of t] cls tot [symmetric] by (simp add: flds)
  let ?d2 = "dram_link d1 i (de_bucket en) e en (tot_of en)"
  have sh: "shard_of d1 (de_prefix_id en) (de_group_idx en) = i" using i flds so by simp
  have ky: "\<forall>a \<in> set (concat Q). de_key (dc_mem d1 a) \<noteq> de_key en" using key flds f(1) by simp
  have al: "alloc_ok d1 Q ks1 e (de_size_class en)" using d1(3) flds by simp
  have sz: "unat (de_buf_len en) = length (de_buf en)" "unat (de_n_records en) = length (de_recs en)" "entry_size en < 2 ^ 32"
    using nr nb size by (simp_all add: flds entry_size_def)
  have ex: "de_external en = (\<not> (de_size_class en < KV_DRAM_N_CLASSES \<and> block_in_arena d1 e))" using flds by auto
  note lk = dram_link_ok [OF l1 d1(1) il sh ky al sz ex cap]
  let ?Q = "Q[i := Q ! i @ [e]]"
  have q: "?Q ! i = Q ! i @ [e]" "i < length ?Q" using il by simp_all
  obtain d' q where r: "sieve_evict ?d2 i e = Some d'" "dram_links d' (Q[i := q])" "dram_data d' (Q[i := q]) ks1"
      "set q \<subseteq> set (Q ! i @ [e])" "e \<in> set q" "same_core (dc_mem ?d2) (dc_mem d')" "dram_env ?d2 d'"
      "length (Q ! i @ [e]) \<le> 1024 \<longrightarrow> ds_bytes (dc_shard d' i) \<le> ds_budget (dc_shard d' i) \<or> q = [e]"
    using sieve_evict_ok [OF lk(1,2) q(2), of e] unfolding q(1) list_update_overwrite by auto
  have "dram_env d1 ?d2" using lk(5,6) by (simp add: dram_env_def dram_link_def Let_def split_beta dc_set_def arena_len_def)
  then have env: "dram_env d d'" using dram_env_alloc [OF d1(2)] r(7) dram_env_trans by blast
  have core: "de_core (dc_mem d' a) = de_core (dc_mem ?d2 a)" for a using r(6) by (simp add: same_core_def)
  have "de_bucket en = bucket_of p g" by (simp add: flds)
  then show ?thesis
    using r env core lk(3,4) f(1) tot by (intro exI [of _ d'] exI [of _ q] exI [of _ ks1]) auto
qed

text \<open>What a put leaves of the entries: everything in the queue afterwards was there before with
  the same contents, or has the key that is put.\<close>

definition put_keeps :: "dram_cache \<Rightarrow> u64 list \<Rightarrow> u64 \<times> u32 \<Rightarrow> dram_cache \<Rightarrow> u64 list \<Rightarrow> bool" where
  "put_keeps d q k d' q' \<longleftrightarrow> (\<forall>a \<in> set q'. a \<in> set q \<and> de_core (dc_mem d' a) = de_core (dc_mem d a) \<or> de_key (dc_mem d' a) = k) \<and>
    (\<forall>a. a \<notin> set q' \<longrightarrow> de_core (dc_mem d' a) = de_core (dc_mem d a))"

definition dram_rejects :: "dram_cache \<Rightarrow> bytes \<Rightarrow> dram_rec list \<Rightarrow> bool" where
  "dram_rejects d buf recs \<longleftrightarrow> buf = [] \<or> unat (dc_entry_max d) < 56 + 12 * length recs + length buf \<or>
    unat (dc_budget d) < 56 + 12 * length recs + length buf"

lemma entry_total_size:
  fixes recs :: "dram_rec list" and buf :: bytes
  assumes "length recs < 2 ^ 16" and "56 + 12 * length recs + length buf < 2 ^ 32"
  shows "unat (ucast (entry_total (of_nat (length recs)) (of_nat (length buf))) :: u64) = 56 + 12 * length recs + length buf"
    and "(of_nat (length buf) = (0 :: u32)) = (buf = [])"
proof -
  let ?en = "dram_entry0\<lparr>de_n_records := of_nat (length recs), de_buf_len := of_nat (length buf), de_recs := recs, de_buf := buf\<rparr>"
  have nr: "unat (of_nat (length recs) :: u16) = length recs" using assms(1) by (simp add: take_bit_nat_eq_self unat_of_nat)
  have nb: "unat (of_nat (length buf) :: u32) = length buf" using assms(2) by simp
  show "unat (ucast (entry_total (of_nat (length recs)) (of_nat (length buf))) :: u64) = 56 + 12 * length recs + length buf"
    using tot_of_size [of ?en] nr nb assms by (simp add: tot_of_def entry_size_def)
  show "(of_nat (length buf) = (0 :: u32)) = (buf = [])" using arg_cong [of "of_nat (length buf)" "0 :: u32" unat] unfolding nb by auto
qed

lemma dram_put_ok:
  assumes links: "dram_links d Q" and data: "dram_data d Q ks" and fresh: "malloc_fresh d Q mres"
    and size: "length recs < 2 ^ 16" "56 + 12 * length recs + length buf < 2 ^ 32" and i: "i = shard_of d p g"
  shows "\<exists>r d' q ks'. dram_put mres d p g ver expire_ts buf recs = Some (r, d') \<and>
    dram_links d' (Q[i := q]) \<and> dram_data d' (Q[i := q]) ks' \<and> dram_env d d' \<and> put_keeps d (Q ! i) (p, g) d' q \<and>
    (if dram_rejects d buf recs then r = KV_EFULL \<and> d' = d
     else if \<exists>a \<in> set (Q ! i). de_key (dc_mem d a) = (p, g) \<and> ver \<le> de_ver (dc_mem d a) then r = KV_EOK \<and> d' = d
     else r = KV_EOK \<and> (\<exists>e \<in> set q. de_key (dc_mem d' e) = (p, g) \<and> de_value (dc_mem d' e) = (ver, expire_ts, buf, recs) \<and>
            (length (Q ! i) < 1024 \<longrightarrow> ds_bytes (dc_shard d' i) \<le> ds_budget (dc_shard d' i) \<or> q = [e])) \<or>
          r = KV_EFULL \<and> mres = None \<and> (\<forall>a \<in> set q. de_key (dc_mem d' a) \<noteq> (p, g)))"
proof -
  let ?b = "bucket_of p g" and ?t = "entry_total (of_nat (length recs)) (of_nat (length buf))"
  have len: "length Q = dc_n_shards d" using links by (simp add: dram_links_def)
  have il: "i < length Q" using shard_of_less [OF links] len i by simp
  have rej: "(of_nat (length buf) = (0 :: u32) \<or> ucast ?t > dc_entry_max d \<or> ucast ?t > dc_budget d) = dram_rejects d buf recs"
    by (simp only: dram_rejects_def word_less_nat_alt entry_total_size [OF size])
  obtain old where old: "entry_find (dram_fuel d) (dc_mem d) (ds_buckets (dc_shard d i) ! ?b) p g = Some old"
      "\<forall>a. old = Some a \<longleftrightarrow> a \<in> set (Q ! i) \<and> de_key (dc_mem d a) = (p, g)"
      "old = None \<longleftrightarrow> (\<forall>a \<in> set (concat Q). de_key (dc_mem d a) \<noteq> (p, g))"
    using entry_find_ok [OF links data i] by blast
  have same: ?thesis if "dram_put mres d p g ver expire_ts buf recs = Some (r, d)"
      "if dram_rejects d buf recs then r = KV_EFULL else
        (\<exists>a \<in> set (Q ! i). de_key (dc_mem d a) = (p, g) \<and> ver \<le> de_ver (dc_mem d a)) \<and> r = KV_EOK" for r
    using that links data by (intro exI [of _ r] exI [of _ d] exI [of _ "Q ! i"] exI [of _ ks]) (auto simp: put_keeps_def split: if_splits)
  show ?thesis
  proof (cases "dram_rejects d buf recs")
    case True
    then show ?thesis using rej by (intro same [of KV_EFULL]) (simp_all add: dram_put_def Let_def)
  next
    case fits: False
    define newer where "newer = (case old of None \<Rightarrow> False | Some e \<Rightarrow> ver \<le> de_ver (dc_mem d e))"
    have nw: "newer = (\<exists>a \<in> set (Q ! i). de_key (dc_mem d a) = (p, g) \<and> ver \<le> de_ver (dc_mem d a))"
    proof (cases old)
      case (Some x)
      then have "x \<in> set (Q ! i) \<and> de_key (dc_mem d x) = (p, g)" "\<forall>a \<in> set (Q ! i). de_key (dc_mem d a) = (p, g) \<longrightarrow> a = x"
        using old(2) by (simp_all, metis option.inject)
      then show ?thesis by (auto simp: newer_def Some)
    qed (use old(2) in \<open>auto simp: newer_def\<close>)
    define d0 where "d0 = (case old of None \<Rightarrow> Some d | Some e \<Rightarrow> map_option (\<lambda>d. entry_free d i e) (entry_unlink d i e))"
    have put: "dram_put mres d p g ver expire_ts buf recs = (if newer then Some (KV_EOK, d)
        else case d0 of None \<Rightarrow> None | Some d \<Rightarrow> (case class_alloc mres d (pick_class ?t) of
            (None, d) \<Rightarrow> Some (KV_EFULL, d)
          | (Some e, d) \<Rightarrow> map_option (\<lambda>d. (KV_EOK, d)) (sieve_evict (dram_link d i ?b e (dram_new_entry p g ver expire_ts buf recs
              (KV_DRAM_N_CLASSES \<le> pick_class ?t \<or> \<not> block_in_arena d e) (pick_class ?t)) (ucast ?t)) i e)))"
      unfolding dram_put_def Let_def rej i [symmetric] old(1) newer_def d0_def using fits by simp
    show ?thesis
    proof (cases newer)
      case True
      then show ?thesis using put nw fits by (intro same [of KV_EOK]) simp_all
    next
      case new: False
      obtain d1 q1 where d1: "d0 = Some d1" "dram_links d1 (Q[i := q1])" "dram_data d1 (Q[i := q1]) ks" "dram_env d d1"
          "same_core (dc_mem d) (dc_mem d1)" "set q1 \<subseteq> set (Q ! i)" "length q1 \<le> length (Q ! i)"
          "\<forall>a \<in> set (concat (Q[i := q1])). de_key (dc_mem d1 a) \<noteq> (p, g)"
      proof (cases old)
        case None
        then show thesis using links data old(3) by (intro that [of d "Q ! i"]) (simp_all add: d0_def)
      next
        case (Some e)
        then have e: "e \<in> set (Q ! i)" "de_key (dc_mem d e) = (p, g)" using old(2) by auto
        let ?q = "remove1 e (Q ! i)"
        obtain d' where d': "map_option (\<lambda>d. entry_free d i e) (entry_unlink d i e) = Some d'" "dram_links d' (Q[i := ?q])"
            "dram_data d' (Q[i := ?q]) ks" "same_core (dc_mem d) (dc_mem d')" "dram_env d d'"
          using entry_remove_ok [OF links data il e(1)] by blast
        have "de_key (dc_mem d' a) \<noteq> (p, g)" if a: "a \<in> set (concat (Q[i := ?q]))" for a
        proof
          assume k: "de_key (dc_mem d' a) = (p, g)"
          have ms: "mset (concat Q) = add_mset e (mset (concat (Q[i := ?q])))" using il e(1) by (rule mset_concat_remove1)
          have "distinct (concat Q)" using links by (simp add: dram_links_def)
          then have "distinct (e # concat (Q[i := ?q]))" using ms by (metis mset.simps(2) mset_eq_imp_distinct_iff)
          then have "a \<noteq> e" using a by auto
          moreover have "a \<in> set (concat Q)" using a ms by (metis list.set_intros(2) mset.simps(2) mset_eq_setD)
          moreover have "e \<in> set (concat Q)" using nth_mem [OF il] e(1) by auto
          moreover have "de_key (dc_mem d a) = (p, g)" using k core_key [of "dc_mem d' a" "dc_mem d a"] d'(4) by (simp add: same_core_def)
          moreover have "inj_on (\<lambda>a. de_key (dc_mem d a)) (set (concat Q))" using links by (simp add: dram_links_def)
          ultimately show False using e(2) by (metis (mono_tags, lifting) inj_onD)
        qed
        then show thesis using d' Some set_remove1_subset [of e "Q ! i"]
          by (intro that [of d' ?q]) (simp_all add: d0_def length_remove1)
      qed
      have sub: "set (concat (Q[i := q1])) \<subseteq> set (concat Q)"
      proof
        fix a assume "a \<in> set (concat (Q[i := q1]))"
        then obtain xs where "xs \<in> set (Q[i := q1])" "a \<in> set xs" by auto
        then have "xs \<in> set Q \<or> xs = q1" using set_update_subset_insert by fast
        then show "a \<in> set (concat Q)" using \<open>a \<in> set xs\<close> d1(6) nth_mem [OF il] by auto
      qed
      have fresh1: "malloc_fresh d1 (Q[i := q1]) mres" using fresh d1(4) sub by (rule malloc_fresh_mono)
      have i1: "i = shard_of d1 p g" using i shard_of_cong [of d1 d] d1(4) by (simp add: dram_env_def)
      have q1: "Q[i := q1] ! i = q1" using il by simp
      have old_core: "de_core (dc_mem d1 a) = de_core (dc_mem d a)" for a using d1(5) by (simp add: same_core_def)
      show ?thesis
      proof (cases "class_alloc mres d1 (pick_class ?t)")
        case (Pair eo d2)
        show ?thesis
        proof (cases eo)
          case None
          have d2: "d2 = d1" "mres = None" using Pair None by (auto simp: class_alloc_def split: if_splits list.splits)
          have "a \<in> set q1 \<Longrightarrow> a \<in> set (concat (Q[i := q1]))" for a
            using set_update_memI [OF il, of q1] by auto
          then have "\<forall>a \<in> set q1. de_key (dc_mem d2 a) \<noteq> (p, g)" using d1(8) d2 by blast
          moreover have "dram_put mres d p g ver expire_ts buf recs = Some (KV_EFULL, d2)" using put new d1(1) Pair None by simp
          moreover have "put_keeps d (Q ! i) (p, g) d2 q1" using d1(6) old_core d2 by (auto simp: put_keeps_def)
          ultimately show ?thesis
            using d1 d2 fits new nw by (intro exI [of _ KV_EFULL] exI [of _ d2] exI [of _ q1] exI [of _ ks]) auto
        next
          case (Some e)
          then have al: "class_alloc mres d1 (pick_class ?t) = (Some e, d2)" using Pair by simp
          let ?en = "dram_new_entry p g ver expire_ts buf recs (KV_DRAM_N_CLASSES \<le> pick_class ?t \<or> \<not> block_in_arena d2 e) (pick_class ?t)"
          obtain d' q ks' where r: "sieve_evict (dram_link d2 i ?b e ?en (ucast ?t)) i e = Some d'"
              "dram_links d' (Q[i := q])" "dram_data d' (Q[i := q]) ks'" "dram_env d1 d'" "set q \<subseteq> insert e (set q1)" "e \<in> set q"
              "de_core (dc_mem d' e) = de_core ?en" "\<forall>a. a \<noteq> e \<longrightarrow> de_core (dc_mem d' a) = de_core (dc_mem d1 a)"
              "length q1 < 1024 \<longrightarrow> ds_bytes (dc_shard d' i) \<le> ds_budget (dc_shard d' i) \<or> q = [e]"
            using dram_insert_ok [OF d1(2,3) fresh1 size d1(8) i1 al refl refl refl, of ver expire_ts]
            unfolding q1 list_update_overwrite by blast
          have e: "de_key (dc_mem d' e) = (p, g)" "de_value (dc_mem d' e) = (ver, expire_ts, buf, recs)"
            using core_key [OF r(7)] core_value [OF r(7)] by (simp_all add: dram_new_entry_def de_value_def)
          have "put_keeps d (Q ! i) (p, g) d' q"
            using r(5,6,8) e(1) d1(6) old_core unfolding put_keeps_def by (metis insertE subsetD)
          moreover have "dram_put mres d p g ver expire_ts buf recs = Some (KV_EOK, d')" using put new d1(1) al r(1) by simp
          moreover have "dram_env d d'" using d1(4) r(4) by (rule dram_env_trans)
          moreover have "length (Q ! i) < 1024 \<longrightarrow> ds_bytes (dc_shard d' i) \<le> ds_budget (dc_shard d' i) \<or> q = [e]"
            using r(9) d1(7) by auto
          ultimately show ?thesis
            using r(2,3,6) e fits new nw by (intro exI [of _ KV_EOK] exI [of _ d'] exI [of _ q] exI [of _ ks']) auto
        qed
      qed
    qed
  qed
qed

end
