(* ===== verification/KV_Mpsc.thy ===== *)
theory KV_Mpsc
  imports KV_Common
begin

text \<open>
  The bounded queue of \<open>src/writer.cpp\<close> between the callers of \<open>cache_put\<close> and a writer
  thread: many producers, one consumer, a ring of slots with sequence numbers.  \<open>mpsc_push\<close> and
  \<open>mpsc_pop\<close> are the two operations run without interference; \<open>mpsc_step\<close> is the same code
  with one step for every atomic access, any number of producers interleaved with the consumer.
  The lemmas show that the operations refine a bounded first-in first-out queue, and that every
  interleaving delivers what was claimed, in the order of the claims, once each.
\<close>

section \<open>Data and operations\<close>

record 'a mpsc_slot =
  ms_seq :: u64
  ms_ptr :: "'a option"

record 'a mpsc_ring =
  mq_slots :: "'a mpsc_slot list"
  mq_mask :: u64
  mq_tail :: u64
  mq_head :: u64
  mq_init :: bool

definition mpsc_ring0 :: "'a mpsc_ring" where
  "mpsc_ring0 = \<lparr>mq_slots = [], mq_mask = 0, mq_tail = 0, mq_head = 0, mq_init = False\<rparr>"

text \<open>\<open>ok\<close> is the outcome of \<open>calloc\<close>.\<close>

definition mpsc_init :: "bool \<Rightarrow> 'a mpsc_ring \<Rightarrow> u32 \<Rightarrow> int \<times> 'a mpsc_ring" where
  "mpsc_init ok q pw =
    (let pw = (if pw < 4 then 4 else pw);
         cap = push_bit (unat pw) 1 :: u64
     in if \<not> ok then (- KV_ENOMEM, q\<lparr>mq_slots := []\<rparr>)
        else (KV_EOK, \<lparr>mq_slots = map (\<lambda>i. \<lparr>ms_seq = of_nat i, ms_ptr = None\<rparr>) [0..<unat cap],
                mq_mask = cap - 1, mq_tail = 0, mq_head = 0, mq_init = True\<rparr>))"

definition mpsc_destroy :: "'a mpsc_ring \<Rightarrow> 'a mpsc_ring" where
  "mpsc_destroy q = q\<lparr>mq_slots := []\<rparr>"

definition mpsc_pos :: "'a mpsc_ring \<Rightarrow> u64 \<Rightarrow> nat" where
  "mpsc_pos q n = unat (n AND mq_mask q)"

text \<open>Without interference a slot ahead of the tail would make the producer spin forever: \<open>None\<close>.\<close>

definition mpsc_push :: "'a mpsc_ring \<Rightarrow> 'a \<Rightarrow> (int \<times> 'a mpsc_ring) option" where
  "mpsc_push q ptr =
    (let tail = mq_tail q;
         pos = mpsc_pos q tail;
         seq = ms_seq (mq_slots q ! pos);
         diff = sint seq - sint tail
     in if diff = 0 then
          Some (KV_EOK, q\<lparr>mq_tail := tail + 1, mq_slots := (mq_slots q)[pos := \<lparr>ms_seq = tail + 1, ms_ptr = Some ptr\<rparr>]\<rparr>)
        else if diff < 0 then Some (- KV_EFULL, q)
        else None)"

definition mpsc_pop :: "'a mpsc_ring \<Rightarrow> 'a option \<times> 'a mpsc_ring" where
  "mpsc_pop q =
    (let head = mq_head q;
         pos = mpsc_pos q head;
         s = mq_slots q ! pos
     in if sint (ms_seq s) - sint (head + 1) \<noteq> 0 then (None, q)
        else (ms_ptr s, q\<lparr>mq_head := head + 1, mq_slots := (mq_slots q)[pos := s\<lparr>ms_seq := head + mq_mask q + 1\<rparr>]\<rparr>))"

section \<open>Interleaved steps\<close>

text \<open>Where a producer is: before a call, after loading the tail, after finding the slot free,
  after claiming the slot, after storing the pointer.  Where the consumer is: before a call, after
  finding the slot published, after loading the pointer, after releasing the slot.\<close>

datatype 'a producer = P_idle | P_tail 'a u64 | P_cas 'a u64 | P_ptr 'a u64 | P_seq 'a u64

datatype 'a consumer = C_idle | C_ready u64 | C_read u64 "'a option" | C_head u64 "'a option"

text \<open>\<open>sy_claimed\<close> and \<open>sy_popped\<close> record what has been claimed and what pops have returned.\<close>

record 'a mpsc_sys =
  sy_q :: "'a mpsc_ring"
  sy_prod :: "nat \<Rightarrow> 'a producer"
  sy_cons :: "'a consumer"
  sy_claimed :: "'a list"
  sy_popped :: "'a option list"

definition slot_at :: "'a mpsc_ring \<Rightarrow> u64 \<Rightarrow> 'a mpsc_slot" where
  "slot_at q n = mq_slots q ! mpsc_pos q n"

definition slot_set :: "'a mpsc_ring \<Rightarrow> u64 \<Rightarrow> 'a mpsc_slot \<Rightarrow> 'a mpsc_ring" where
  "slot_set q n s = q\<lparr>mq_slots := (mq_slots q)[mpsc_pos q n := s]\<rparr>"

inductive mpsc_step :: "'a mpsc_sys \<Rightarrow> 'a mpsc_sys \<Rightarrow> bool" where
  call: "sy_prod s p = P_idle \<Longrightarrow> mpsc_step s (s\<lparr>sy_prod := (sy_prod s)(p := P_tail x (mq_tail (sy_q s)))\<rparr>)"
| free: "sy_prod s p = P_tail x t \<Longrightarrow> sint (ms_seq (slot_at (sy_q s) t)) - sint t = 0 \<Longrightarrow>
    mpsc_step s (s\<lparr>sy_prod := (sy_prod s)(p := P_cas x t)\<rparr>)"
| full: "sy_prod s p = P_tail x t \<Longrightarrow> sint (ms_seq (slot_at (sy_q s) t)) - sint t < 0 \<Longrightarrow>
    mpsc_step s (s\<lparr>sy_prod := (sy_prod s)(p := P_idle)\<rparr>)"
| behind: "sy_prod s p = P_tail x t \<Longrightarrow> sint (ms_seq (slot_at (sy_q s) t)) - sint t > 0 \<Longrightarrow>
    mpsc_step s (s\<lparr>sy_prod := (sy_prod s)(p := P_tail x (mq_tail (sy_q s)))\<rparr>)"
| cas_fail: "sy_prod s p = P_cas x t \<Longrightarrow>
    mpsc_step s (s\<lparr>sy_prod := (sy_prod s)(p := P_tail x (mq_tail (sy_q s)))\<rparr>)"
| cas: "sy_prod s p = P_cas x t \<Longrightarrow> mq_tail (sy_q s) = t \<Longrightarrow>
    mpsc_step s (s\<lparr>sy_q := (sy_q s)\<lparr>mq_tail := t + 1\<rparr>, sy_prod := (sy_prod s)(p := P_ptr x t),
      sy_claimed := sy_claimed s @ [x]\<rparr>)"
| store_ptr: "sy_prod s p = P_ptr x t \<Longrightarrow>
    mpsc_step s (s\<lparr>sy_q := slot_set (sy_q s) t ((slot_at (sy_q s) t)\<lparr>ms_ptr := Some x\<rparr>),
      sy_prod := (sy_prod s)(p := P_seq x t)\<rparr>)"
| store_seq: "sy_prod s p = P_seq x t \<Longrightarrow>
    mpsc_step s (s\<lparr>sy_q := slot_set (sy_q s) t ((slot_at (sy_q s) t)\<lparr>ms_seq := t + 1\<rparr>),
      sy_prod := (sy_prod s)(p := P_idle)\<rparr>)"
| pop_ready: "sy_cons s = C_idle \<Longrightarrow> sint (ms_seq (slot_at (sy_q s) (mq_head (sy_q s)))) - sint (mq_head (sy_q s) + 1) = 0 \<Longrightarrow>
    mpsc_step s (s\<lparr>sy_cons := C_ready (mq_head (sy_q s))\<rparr>)"
| pop_read: "sy_cons s = C_ready h \<Longrightarrow> mpsc_step s (s\<lparr>sy_cons := C_read h (ms_ptr (slot_at (sy_q s) h))\<rparr>)"
| pop_seq: "sy_cons s = C_read h x \<Longrightarrow>
    mpsc_step s (s\<lparr>sy_q := slot_set (sy_q s) h ((slot_at (sy_q s) h)\<lparr>ms_seq := h + mq_mask (sy_q s) + 1\<rparr>),
      sy_cons := C_head h x\<rparr>)"
| pop_head: "sy_cons s = C_head h x \<Longrightarrow>
    mpsc_step s (s\<lparr>sy_q := (sy_q s)\<lparr>mq_head := h + 1\<rparr>, sy_cons := C_idle, sy_popped := sy_popped s @ [x]\<rparr>)"

inductive mpsc_reach :: "'a mpsc_ring \<Rightarrow> 'a mpsc_sys \<Rightarrow> bool" for q0 where
  start: "mpsc_reach q0 \<lparr>sy_q = q0, sy_prod = (\<lambda>_. P_idle), sy_cons = C_idle, sy_claimed = [], sy_popped = []\<rparr>"
| step: "mpsc_reach q0 s \<Longrightarrow> mpsc_step s s' \<Longrightarrow> mpsc_reach q0 s'"

section \<open>Positions in the ring\<close>

lemma unat_mask_u64: "k \<le> 62 \<Longrightarrow> unat (mask k :: u64) + 1 = 2 ^ k"
proof -
  assume "k \<le> 62"
  then have "(2 :: nat) ^ k \<le> 2 ^ 62" by (intro power_increasing) auto
  moreover have "(mask k :: u64) = of_nat (2 ^ k - 1)" by (simp add: mask_eq_exp_minus_1 of_nat_diff)
  ultimately show ?thesis by (simp del: of_nat_diff)
qed

definition ring_of :: "'a mpsc_ring \<Rightarrow> nat \<Rightarrow> bool" where
  "ring_of q k \<longleftrightarrow> 1 \<le> k \<and> k \<le> 62 \<and> length (mq_slots q) = 2 ^ k \<and> mq_mask q = mask k"

lemma ring_of_upd [simp]:
  "ring_of (q\<lparr>mq_tail := t\<rparr>) k = ring_of q k" "ring_of (q\<lparr>mq_head := t\<rparr>) k = ring_of q k"
  "ring_of (slot_set q n s) k = ring_of q k"
  by (simp_all add: ring_of_def slot_set_def)

lemma mpsc_pos_mod:
  assumes "ring_of q k"
  shows "mpsc_pos q (of_nat n) = n mod 2 ^ k"
proof -
  have "of_nat n AND mask k = (of_nat (take_bit k n) :: u64)"
    unfolding take_bit_eq_mask [symmetric] by (simp add: take_bit_of_nat)
  moreover have "take_bit k n < 2 ^ 64"
  proof -
    have "take_bit k n < 2 ^ k" by simp
    also have "(2 :: nat) ^ k \<le> 2 ^ 64" using assms by (intro power_increasing) (auto simp: ring_of_def)
    finally show ?thesis .
  qed
  ultimately show ?thesis using assms by (simp add: mpsc_pos_def ring_of_def take_bit_eq_mod)
qed

lemma slot_at_eq:
  assumes "ring_of q k"
  shows "slot_at q (of_nat n) = mq_slots q ! (n mod 2 ^ k)"
  using assms by (simp add: slot_at_def mpsc_pos_mod)

lemma slot_at_upd [simp]:
  "slot_at (q\<lparr>mq_tail := t\<rparr>) n = slot_at q n" "slot_at (q\<lparr>mq_head := t\<rparr>) n = slot_at q n"
  by (simp_all add: slot_at_def mpsc_pos_def)

lemma slot_at_set:
  assumes "ring_of q k"
  shows "slot_at (slot_set q (of_nat m) s) (of_nat n) = (if n mod 2 ^ k = m mod 2 ^ k then s else slot_at q (of_nat n))"
proof -
  have "ring_of (slot_set q (of_nat m) s) k" using assms by simp
  moreover have "m mod 2 ^ k < length (mq_slots q)" using assms by (simp add: ring_of_def)
  ultimately show ?thesis using assms by (auto simp: slot_at_eq slot_set_def mpsc_pos_mod)
qed

lemma mod_near:
  assumes "(a::nat) mod c = b mod c" and "a \<le> b" and "b < a + c"
  shows "a = b"
proof -
  have "(b - a) mod c = 0" using assms(1,2) by (metis mod_eq_dvd_iff_nat dvd_imp_mod_0)
  then show ?thesis using assms(2,3) by (cases "b - a") (auto simp: mod_less)
qed

lemma of_nat_u64_eq: "m < 2 ^ 64 \<Longrightarrow> n < 2 ^ 64 \<Longrightarrow> (of_nat m :: u64) = of_nat n \<longleftrightarrow> m = n"
  using unat_of_nat_u64 by metis

lemma sint_small: "n < 2 ^ 63 \<Longrightarrow> sint (of_nat n :: u64) = int n"
proof -
  assume "n < 2 ^ 63"
  then have "uint (of_nat n :: u64) = int n" by (simp add: uint_nat)
  then show ?thesis using \<open>n < 2 ^ 63\<close> by (simp add: sint_uint signed_take_bit_int_eq_self)
qed

section \<open>The invariant\<close>

fun owner :: "'a producer \<Rightarrow> u64 option" where
  "owner (P_ptr x t) = Some t"
| "owner (P_seq x t) = Some t"
| "owner _ = None"

definition freed :: "'a mpsc_sys \<Rightarrow> nat" where
  "freed s = length (sy_popped s) + (case sy_cons s of C_head h x \<Rightarrow> 1 | _ \<Rightarrow> 0)"

definition published :: "'a mpsc_sys \<Rightarrow> nat \<Rightarrow> bool" where
  "published s n \<longleftrightarrow> slot_at (sy_q s) (of_nat n) = \<lparr>ms_seq = of_nat (n + 1), ms_ptr = Some (sy_claimed s ! n)\<rparr>"

definition pending :: "'a mpsc_sys \<Rightarrow> nat \<Rightarrow> bool" where
  "pending s n \<longleftrightarrow> ms_seq (slot_at (sy_q s) (of_nat n)) = of_nat n \<and> (\<exists>p. owner (sy_prod s p) = Some (of_nat n))"

definition prod_ok :: "nat \<Rightarrow> 'a mpsc_sys \<Rightarrow> 'a producer \<Rightarrow> bool" where
  "prod_ok k s pr \<longleftrightarrow>
    (case pr of
       P_idle \<Rightarrow> True
     | P_tail x t \<Rightarrow> \<exists>n \<le> length (sy_claimed s). t = of_nat n
     | P_cas x t \<Rightarrow> \<exists>n \<le> length (sy_claimed s). t = of_nat n \<and> n < freed s + 2 ^ k
     | P_ptr x t \<Rightarrow> \<exists>n. t = of_nat n \<and> freed s \<le> n \<and> n < length (sy_claimed s) \<and> sy_claimed s ! n = x \<and>
         ms_seq (slot_at (sy_q s) t) = t
     | P_seq x t \<Rightarrow> \<exists>n. t = of_nat n \<and> freed s \<le> n \<and> n < length (sy_claimed s) \<and> sy_claimed s ! n = x \<and>
         slot_at (sy_q s) t = \<lparr>ms_seq = t, ms_ptr = Some x\<rparr>)"

definition cons_ok :: "'a mpsc_sys \<Rightarrow> bool" where
  "cons_ok s \<longleftrightarrow>
    (let n = length (sy_popped s)
     in case sy_cons s of
          C_idle \<Rightarrow> True
        | C_ready h \<Rightarrow> h = of_nat n \<and> n < length (sy_claimed s) \<and> published s n
        | C_read h x \<Rightarrow> h = of_nat n \<and> n < length (sy_claimed s) \<and> published s n \<and> x = Some (sy_claimed s ! n)
        | C_head h x \<Rightarrow> h = of_nat n \<and> n < length (sy_claimed s) \<and> x = Some (sy_claimed s ! n))"

definition mpsc_inv :: "nat \<Rightarrow> 'a mpsc_sys \<Rightarrow> bool" where
  "mpsc_inv k s \<longleftrightarrow> ring_of (sy_q s) k \<and> mq_tail (sy_q s) = of_nat (length (sy_claimed s)) \<and>
    mq_head (sy_q s) = of_nat (length (sy_popped s)) \<and> length (sy_claimed s) < 2 ^ 62 \<and>
    freed s \<le> length (sy_claimed s) \<and> length (sy_claimed s) \<le> freed s + 2 ^ k \<and>
    (\<forall>n. length (sy_claimed s) \<le> n \<and> n < freed s + 2 ^ k \<longrightarrow> ms_seq (slot_at (sy_q s) (of_nat n)) = of_nat n) \<and>
    (\<forall>n. freed s \<le> n \<and> n < length (sy_claimed s) \<longrightarrow> published s n \<or> pending s n) \<and>
    (\<forall>p. prod_ok k s (sy_prod s p)) \<and>
    (\<forall>p p' t. owner (sy_prod s p) = Some t \<and> owner (sy_prod s p') = Some t \<longrightarrow> p = p') \<and>
    cons_ok s \<and> map Some (take (length (sy_popped s)) (sy_claimed s)) = sy_popped s"

lemma mpsc_invD:
  assumes "mpsc_inv k s"
  shows "ring_of (sy_q s) k" "mq_tail (sy_q s) = of_nat (length (sy_claimed s))"
    "mq_head (sy_q s) = of_nat (length (sy_popped s))" "length (sy_claimed s) < 2 ^ 62"
    "freed s \<le> length (sy_claimed s)" "length (sy_claimed s) \<le> freed s + 2 ^ k"
    "\<And>n. length (sy_claimed s) \<le> n \<Longrightarrow> n < freed s + 2 ^ k \<Longrightarrow> ms_seq (slot_at (sy_q s) (of_nat n)) = of_nat n"
    "\<And>n. freed s \<le> n \<Longrightarrow> n < length (sy_claimed s) \<Longrightarrow> published s n \<or> pending s n"
    "\<And>p. prod_ok k s (sy_prod s p)"
    "\<And>p p' t. owner (sy_prod s p) = Some t \<Longrightarrow> owner (sy_prod s p') = Some t \<Longrightarrow> p = p'"
    "cons_ok s" "map Some (take (length (sy_popped s)) (sy_claimed s)) = sy_popped s"
    "(2 :: nat) ^ k \<le> 2 ^ 62"
proof -
  show k: "(2 :: nat) ^ k \<le> 2 ^ 62"
    using assms by (intro power_increasing) (simp_all add: mpsc_inv_def ring_of_def)
qed (use assms in \<open>unfold mpsc_inv_def, simp_all\<close>)

lemma freed_upd [simp]:
  "freed (s\<lparr>sy_q := q\<rparr>) = freed s" "freed (s\<lparr>sy_prod := pr\<rparr>) = freed s" "freed (s\<lparr>sy_claimed := xs\<rparr>) = freed s"
  by (simp_all add: freed_def)

lemma mpsc_invI:
  assumes "ring_of (sy_q s) k" "mq_tail (sy_q s) = of_nat (length (sy_claimed s))"
    "mq_head (sy_q s) = of_nat (length (sy_popped s))" "length (sy_claimed s) < 2 ^ 62"
    "freed s \<le> length (sy_claimed s)" "length (sy_claimed s) \<le> freed s + 2 ^ k"
    "\<And>n. length (sy_claimed s) \<le> n \<Longrightarrow> n < freed s + 2 ^ k \<Longrightarrow> ms_seq (slot_at (sy_q s) (of_nat n)) = of_nat n"
    "\<And>n. freed s \<le> n \<Longrightarrow> n < length (sy_claimed s) \<Longrightarrow> published s n \<or> pending s n"
    "\<And>p. prod_ok k s (sy_prod s p)"
    "\<And>p p' t. owner (sy_prod s p) = Some t \<Longrightarrow> owner (sy_prod s p') = Some t \<Longrightarrow> p = p'"
    "cons_ok s" "map Some (take (length (sy_popped s)) (sy_claimed s)) = sy_popped s"
  shows "mpsc_inv k s"
  unfolding mpsc_inv_def using assms by blast

text \<open>A step that moves one producer that owns no slot to a state that owns none.\<close>

lemma mpsc_inv_prod:
  assumes inv: "mpsc_inv k s" and "owner (sy_prod s p) = None" and "owner pr = None" and "prod_ok k s pr"
  shows "mpsc_inv k (s\<lparr>sy_prod := (sy_prod s)(p := pr)\<rparr>)"
proof -
  let ?s = "s\<lparr>sy_prod := (sy_prod s)(p := pr)\<rparr>"
  have f: "freed ?s = freed s" by (simp add: freed_def)
  have pub: "published ?s n = published s n" for n by (simp add: published_def)
  have pen: "pending s n \<Longrightarrow> pending ?s n" for n
    using assms(2) by (auto simp: pending_def) (metis option.distinct(1))
  have pok: "prod_ok k ?s x = prod_ok k s x" for x by (cases x) (simp_all add: prod_ok_def f)
  have cok: "cons_ok ?s = cons_ok s" by (cases "sy_cons s") (simp_all add: cons_ok_def pub Let_def)
  have uniq: "q = q'" if "owner (sy_prod ?s q) = Some t" "owner (sy_prod ?s q') = Some t" for q q' t
    using that assms(3) mpsc_invD(10) [OF inv, of q t q'] by (auto split: if_splits)
  note I = mpsc_invD [OF inv]
  show ?thesis
  proof (rule mpsc_invI)
    show "published ?s n \<or> pending ?s n" if "freed ?s \<le> n" "n < length (sy_claimed ?s)" for n
      using I(8) [of n] pen [of n] that by (simp add: f pub) blast
    show "prod_ok k ?s (sy_prod ?s q)" for q using I(9) [of q] assms(4) by (simp add: pok)
    show "q = q'" if "owner (sy_prod ?s q) = Some t" "owner (sy_prod ?s q') = Some t" for q q' t
      using uniq that by blast
  qed (use I in \<open>simp_all add: f cok\<close>)
qed

lemma window_other:
  assumes "ring_of q k" and "f \<le> m" "m < f + 2 ^ k" and "f \<le> n" "n < f + 2 ^ k" and "n \<noteq> m"
  shows "slot_at (slot_set q (of_nat m) sl) (of_nat n) = slot_at q (of_nat n)"
proof -
  have "n mod 2 ^ k \<noteq> m mod 2 ^ k"
    using mod_near [of m "2 ^ k" n] mod_near [of n "2 ^ k" m] assms(2-6) by (cases "m \<le> n") auto
  then show ?thesis using assms(1) by (simp add: slot_at_set)
qed

lemma window_same: "ring_of q k \<Longrightarrow> slot_at (slot_set q (of_nat m) sl) (of_nat m) = sl"
  by (simp add: slot_at_set)

lemma slot_set_fields [simp]:
  "mq_tail (slot_set q n sl) = mq_tail q" "mq_head (slot_set q n sl) = mq_head q" "mq_mask (slot_set q n sl) = mq_mask q"
  by (simp_all add: slot_set_def)

text \<open>The slot a producer looks at belongs to one index of the window.\<close>

lemma window_index:
  assumes c: "0 < (c::nat)"
  shows "\<exists>i. f \<le> i \<and> i < f + c \<and> i mod c = n mod c"
proof (intro exI conjI)
  let ?i = "f + (n + c * f - f) mod c"
  show "f \<le> ?i" "?i < f + c" using c by simp_all
  have "f \<le> n + c * f" using c by (cases c) auto
  then have "(f + (n + c * f - f) mod c) mod c = (n + c * f) mod c" by (simp add: mod_add_right_eq)
  then show "?i mod c = n mod c" by simp
qed

text \<open>The sequence number a producer reads, compared with the tail value it holds.\<close>

lemma seq_read:
  assumes inv: "mpsc_inv k s" and n: "n \<le> length (sy_claimed s)"
  shows "sint (ms_seq (slot_at (sy_q s) (of_nat n))) - sint (of_nat n :: u64) = 0 \<Longrightarrow> n < freed s + 2 ^ k"
    and "sint (ms_seq (slot_at (sy_q s) (of_nat n))) - sint (of_nat n :: u64) < 0 \<Longrightarrow> freed s + 2 ^ k \<le> n"
proof -
  note I = mpsc_invD [OF inv]
  have k: "(2 :: nat) \<le> 2 ^ k" using I(1) power_increasing [of 1 k "2 :: nat"] by (simp add: ring_of_def)
  obtain i where i: "freed s \<le> i" "i < freed s + 2 ^ k" "i mod 2 ^ k = n mod 2 ^ k"
    using window_index [of "2 ^ k" "freed s" n] by auto
  have sl: "slot_at (sy_q s) (of_nat n) = slot_at (sy_q s) (of_nat i)" using I(1) i(3) by (simp add: slot_at_eq)
  have "ms_seq (slot_at (sy_q s) (of_nat i)) = of_nat (i + 0) \<or> ms_seq (slot_at (sy_q s) (of_nat i)) = of_nat (i + 1)"
    using I(7) [of i] I(8) [OF i(1)] i(2) by (cases "i < length (sy_claimed s)") (auto simp: published_def pending_def)
  then obtain e where e: "ms_seq (slot_at (sy_q s) (of_nat i)) = of_nat (i + e)" "e = 0 \<or> e = 1" by blast
  have b: "i + e < 2 ^ 63" "n < 2 ^ 63" using i(2) e(2) I(4,5,13) n by auto
  have d: "sint (ms_seq (slot_at (sy_q s) (of_nat n))) - sint (of_nat n :: u64) = int (i + e) - int n"
    unfolding sl e(1) using b by (simp add: sint_small del: of_nat_add)
  have ne: "i + 1 \<noteq> n"
  proof
    assume "i + 1 = n"
    then have "i mod 2 ^ k = (i + 1) mod 2 ^ k" using i(3) by simp
    then show False using mod_near [of i "2 ^ k" "i + 1"] k by simp
  qed
  show "n < freed s + 2 ^ k" if "sint (ms_seq (slot_at (sy_q s) (of_nat n))) - sint (of_nat n :: u64) = 0"
    using that d e(2) ne i(2) by auto
  show "freed s + 2 ^ k \<le> n" if "sint (ms_seq (slot_at (sy_q s) (of_nat n))) - sint (of_nat n :: u64) < 0"
  proof (rule ccontr)
    assume "\<not> freed s + 2 ^ k \<le> n"
    then have "i = n" using that d i mod_near [of i "2 ^ k" n] by auto
    then show False using that d by simp
  qed
qed

section \<open>Every step keeps the invariant\<close>

lemma step_claim:
  assumes inv: "mpsc_inv k s" and p: "sy_prod s p = P_cas x (mq_tail (sy_q s))" and len: "length (sy_claimed s) + 1 < 2 ^ 62"
  shows "mpsc_inv k (s\<lparr>sy_q := (sy_q s)\<lparr>mq_tail := mq_tail (sy_q s) + 1\<rparr>,
    sy_prod := (sy_prod s)(p := P_ptr x (mq_tail (sy_q s))), sy_claimed := sy_claimed s @ [x]\<rparr>)" (is "mpsc_inv k ?s")
proof -
  note I = mpsc_invD [OF inv]
  let ?n = "length (sy_claimed s)"
  have f: "freed ?s = freed s" by (simp add: freed_def)
  obtain m where m: "m \<le> ?n" "(of_nat ?n :: u64) = of_nat m" "m < freed s + 2 ^ k"
    using I(9) [of p] p I(2) by (auto simp: prod_ok_def)
  then have "m = ?n" using of_nat_u64_eq [of ?n m] I(4) by auto
  then have room: "?n < freed s + 2 ^ k" using m by simp
  have seq: "ms_seq (slot_at (sy_q s) (of_nat ?n)) = of_nat ?n" using I(7) [of ?n] room by simp
  have pub: "published ?s i = published s i" if "i < ?n" for i using that by (simp add: published_def nth_append)
  have pen: "pending ?s i" if "pending s i" for i using that p by (auto simp: pending_def) (metis option.distinct(1) owner.simps(5))
  have old: "prod_ok k ?s pr" if "prod_ok k s pr" for pr
    using that by (cases pr) (auto simp: prod_ok_def f nth_append intro: le_SucI)
  have fresh: "owner (sy_prod s q) \<noteq> Some (of_nat ?n)" for q
  proof
    assume "owner (sy_prod s q) = Some (of_nat ?n)"
    then obtain i where "i < ?n" "(of_nat i :: u64) = of_nat ?n"
      using I(9) [of q] by (cases "sy_prod s q") (auto simp: prod_ok_def)
    then show False using of_nat_u64_eq [of i ?n] I(4) by auto
  qed
  show ?thesis
  proof (rule mpsc_invI)
    show "ms_seq (slot_at (sy_q ?s) (of_nat n)) = of_nat n" if "length (sy_claimed ?s) \<le> n" "n < freed ?s + 2 ^ k" for n
      using that I(7) [of n] by (simp add: f)
    show "published ?s n \<or> pending ?s n" if "freed ?s \<le> n" "n < length (sy_claimed ?s)" for n
    proof (cases "n = ?n")
      case True
      then show ?thesis using seq I(2) by (auto simp: pending_def)
    next
      case False
      then show ?thesis using that I(8) [of n] pub [of n] pen [of n] by (auto simp: f)
    qed
    have "prod_ok k ?s (P_ptr x (mq_tail (sy_q s)))"
      unfolding prod_ok_def producer.case I(2) using seq I(5) by (intro exI [of _ ?n]) (simp add: freed_def)
    then show "prod_ok k ?s (sy_prod ?s q)" for q using old [OF I(9) [of q]] by simp
    show "q = q'" if "owner (sy_prod ?s q) = Some t" "owner (sy_prod ?s q') = Some t" for q q' t
      using that fresh [of q] fresh [of q'] I(10) [of q t q'] I(2) by (auto split: if_splits)
    show "cons_ok ?s" using I(11) pub [of "length (sy_popped s)"]
      by (cases "sy_cons s") (auto simp: cons_ok_def Let_def nth_append)
    have "length (sy_popped s) \<le> ?n" using I(5) by (simp add: freed_def)
    then show "map Some (take (length (sy_popped ?s)) (sy_claimed ?s)) = sy_popped ?s" using I(12) by simp
  qed (use I len room in \<open>simp_all add: f\<close>)
qed

text \<open>Writing the slot that a producer or the consumer holds.\<close>

lemma owner_index:
  assumes inv: "mpsc_inv k s" and "owner (sy_prod s p) = Some t"
  shows "\<exists>n. t = of_nat n \<and> freed s \<le> n \<and> n < length (sy_claimed s) \<and> ms_seq (slot_at (sy_q s) t) = t"
  using mpsc_invD(9) [OF inv, of p] assms(2) by (cases "sy_prod s p") (auto simp: prod_ok_def)

lemma prod_ok_slots:
  assumes "\<And>n. freed s \<le> n \<Longrightarrow> n < length (sy_claimed s) \<Longrightarrow> owner pr = Some (of_nat n) \<Longrightarrow>
      slot_at (sy_q s') (of_nat n) = slot_at (sy_q s) (of_nat n)"
    and "freed s' = freed s" and "sy_claimed s' = sy_claimed s" and "prod_ok k s pr"
  shows "prod_ok k s' pr"
  using assms(2-) assms(1) by (cases pr) (auto simp: prod_ok_def)

lemma step_store:
  assumes inv: "mpsc_inv k s" and p: "owner (sy_prod s p) = Some (of_nat m)" "freed s \<le> m" "m < length (sy_claimed s)"
    and seq: "ms_seq (slot_at (sy_q s) (of_nat m)) = of_nat m"
    and new: "(owner pr = Some (of_nat m) \<and> ms_seq sl = of_nat m) \<or>
      (owner pr = None \<and> sl = \<lparr>ms_seq = of_nat (m + 1), ms_ptr = Some (sy_claimed s ! m)\<rparr>)"
    and pr: "prod_ok k (s\<lparr>sy_q := slot_set (sy_q s) (of_nat m) sl, sy_prod := (sy_prod s)(p := pr)\<rparr>) pr"
  shows "mpsc_inv k (s\<lparr>sy_q := slot_set (sy_q s) (of_nat m) sl, sy_prod := (sy_prod s)(p := pr)\<rparr>)" (is "mpsc_inv k ?s")
proof -
  note I = mpsc_invD [OF inv]
  have f: "freed ?s = freed s" by (simp add: freed_def)
  have mw: "m < freed s + 2 ^ k" using p(3) I(6) by simp
  have same: "slot_at (sy_q ?s) (of_nat n) = slot_at (sy_q s) (of_nat n)" if "freed s \<le> n" "n < freed s + 2 ^ k" "n \<noteq> m" for n
    using window_other [OF I(1) p(2) mw that] by simp
  have at_m: "slot_at (sy_q ?s) (of_nat m) = sl" using window_same [OF I(1)] by simp
  have inj: "of_nat n = (of_nat m :: u64) \<longleftrightarrow> n = m" if "n < length (sy_claimed s)" for n
    using of_nat_u64_eq [of n m] that p(3) I(4) by auto
  have others: "q = p" if "owner (sy_prod s q) = Some (of_nat m)" for q using I(10) [OF that p(1)] .
  have pub: "published ?s n = published s n" if "freed s \<le> n" "n < length (sy_claimed s)" "n \<noteq> m" for n
    using same [of n] that I(6) by (simp add: published_def)
  show ?thesis
  proof (rule mpsc_invI)
    show "ms_seq (slot_at (sy_q ?s) (of_nat n)) = of_nat n" if "length (sy_claimed ?s) \<le> n" "n < freed ?s + 2 ^ k" for n
      using that I(7) [of n] same [of n] I(5) p(3) by (simp add: f)
    show "published ?s n \<or> pending ?s n" if n: "freed ?s \<le> n" "n < length (sy_claimed ?s)" for n
    proof (cases "n = m")
      case True
      then show ?thesis using new at_m by (auto simp: published_def pending_def)
    next
      case False
      have n': "freed s \<le> n" "n < length (sy_claimed s)" "n < freed s + 2 ^ k" using n I(6) by (simp_all add: f)
      have "pending ?s n" if pe: "pending s n"
      proof -
        obtain q where q: "owner (sy_prod s q) = Some (of_nat n)" using pe by (auto simp: pending_def)
        have "q \<noteq> p" using q p(1) inj [OF n'(2)] False by auto
        then show ?thesis using pe q same [OF n'(1,3) False] by (auto simp: pending_def intro!: exI [of _ q])
      qed
      then show ?thesis using I(8) [OF n'(1,2)] pub [OF n'(1,2) False] by blast
    qed
    show "prod_ok k ?s (sy_prod ?s q)" for q
    proof (cases "q = p")
      case False
      have "prod_ok k ?s (sy_prod s q)"
      proof (rule prod_ok_slots [where s = s])
        fix n assume n: "freed s \<le> n" "n < length (sy_claimed s)" "owner (sy_prod s q) = Some (of_nat n)"
        then have "n \<noteq> m" using others False by auto
        then show "slot_at (sy_q ?s) (of_nat n) = slot_at (sy_q s) (of_nat n)" using same n I(6) by auto
      qed (use I(9) f in simp_all)
      then show ?thesis using False by simp
    qed (use pr in simp)
    show "q = q'" if o: "owner (sy_prod ?s q) = Some t" "owner (sy_prod ?s q') = Some t" for q q' t
    proof -
      have own: "t = of_nat m" if "owner pr = Some t" using new that by auto
      show ?thesis
      proof (cases "q = p \<or> q' = p")
        case True
        then have "t = of_nat m" using o own by auto
        have "r = p" if r: "owner (sy_prod ?s r) = Some (of_nat m)" for r
        proof (rule ccontr)
          assume "r \<noteq> p"
          then have "owner (sy_prod s r) = Some (of_nat m)" using r by simp
          then show False using others \<open>r \<noteq> p\<close> by blast
        qed
        then show ?thesis using o \<open>t = of_nat m\<close> by blast
      next
        case False
        then have "owner (sy_prod s q) = Some t" "owner (sy_prod s q') = Some t" using o by simp_all
        then show ?thesis by (rule I(10))
      qed
    qed
    have "published ?s (length (sy_popped s))" if "published s (length (sy_popped s))" "freed s = length (sy_popped s)"
        "length (sy_popped s) < length (sy_claimed s)"
    proof -
      have "length (sy_popped s) \<noteq> m"
      proof
        assume eq: "length (sy_popped s) = m"
        then have "(of_nat (m + 1) :: u64) = of_nat m" using that(1) seq by (simp add: published_def)
        then show False using of_nat_u64_eq [of "m + 1" m] p(3) I(4) by simp
      qed
      then show ?thesis using pub [of "length (sy_popped s)"] that by simp
    qed
    then show "cons_ok ?s" using I(11) by (cases "sy_cons s") (auto simp: cons_ok_def Let_def freed_def)
  qed (use I in \<open>simp_all add: f\<close>)
qed

lemma step_release:
  assumes inv: "mpsc_inv k s" and c: "sy_cons s = C_read h x"
  shows "mpsc_inv k (s\<lparr>sy_q := slot_set (sy_q s) h ((slot_at (sy_q s) h)\<lparr>ms_seq := h + mq_mask (sy_q s) + 1\<rparr>),
    sy_cons := C_head h x\<rparr>)" (is "mpsc_inv k ?s")
proof -
  note I = mpsc_invD [OF inv]
  let ?m = "length (sy_popped s)"
  have m: "h = of_nat ?m" "?m < length (sy_claimed s)" "published s ?m" "x = Some (sy_claimed s ! ?m)"
    using I(11) c by (simp_all add: cons_ok_def Let_def)
  have f: "freed s = ?m" "freed ?s = ?m + 1" using c by (simp_all add: freed_def)
  have seq: "h + mq_mask (sy_q s) + 1 = of_nat (?m + 2 ^ k)"
    using I(1) by (simp add: m(1) ring_of_def mask_eq_exp_minus_1)
  have same: "slot_at (sy_q ?s) (of_nat n) = slot_at (sy_q s) (of_nat n)" if "?m \<le> n" "n < ?m + 2 ^ k" "n \<noteq> ?m" for n
    using window_other [OF I(1), of ?m ?m n] that by (simp add: m(1))
  have wrap: "slot_at (sy_q ?s) (of_nat (?m + 2 ^ k)) = slot_at (sy_q ?s) (of_nat ?m)"
    using I(1) slot_at_eq [of "sy_q ?s" k] by (simp del: of_nat_add)
  have at_m: "slot_at (sy_q ?s) (of_nat ?m) = (slot_at (sy_q s) h)\<lparr>ms_seq := of_nat (?m + 2 ^ k)\<rparr>"
    using window_same [OF I(1)] seq by (simp add: m(1))
  have not_own: "owner (sy_prod s q) \<noteq> Some (of_nat ?m)" for q
  proof
    assume "owner (sy_prod s q) = Some (of_nat ?m)"
    then have "ms_seq (slot_at (sy_q s) (of_nat ?m)) = of_nat ?m" using owner_index [OF inv] by blast
    then have "(of_nat (?m + 1) :: u64) = of_nat ?m" using m(3) by (simp add: published_def)
    then show False using of_nat_u64_eq [of "?m + 1" ?m] m(2) I(4) by simp
  qed
  show ?thesis
  proof (rule mpsc_invI)
    show "ms_seq (slot_at (sy_q ?s) (of_nat n)) = of_nat n" if n: "length (sy_claimed ?s) \<le> n" "n < freed ?s + 2 ^ k" for n
    proof (cases "n = ?m + 2 ^ k")
      case True
      then show ?thesis using wrap at_m by simp
    next
      case False
      then show ?thesis using n I(7) [of n] same [of n] m(2) f by simp
    qed
    show "published ?s n \<or> pending ?s n" if "freed ?s \<le> n" "n < length (sy_claimed ?s)" for n
      using that I(6) I(8) [of n] same [of n] f by (auto simp: published_def pending_def)
    show "prod_ok k ?s (sy_prod ?s q)" for q
    proof (cases "owner (sy_prod s q)")
      case None
      then show ?thesis using I(9) [of q] f by (cases "sy_prod s q") (auto simp: prod_ok_def)
    next
      case (Some t)
      then obtain n where n: "t = of_nat n" "freed s \<le> n" "n < length (sy_claimed s)" using owner_index [OF inv] by blast
      have "n \<noteq> ?m" using not_own [of q] Some n(1) by auto
      then have w: "slot_at (sy_q ?s) t = slot_at (sy_q s) t" "freed ?s \<le> n" using same [of n] n I(6) f by simp_all
      have u: "i = n" if "(of_nat i :: u64) = of_nat n" "i < length (sy_claimed s)" for i
        using of_nat_u64_eq [of i n] that n(3) I(4) by simp
      show ?thesis
        using I(9) [of q] Some w n(1) u by (cases "sy_prod s q") (auto simp: prod_ok_def)
    qed
  qed (use I m f c in \<open>simp_all add: cons_ok_def Let_def\<close>)
qed

text \<open>The consumer's steps that leave the slots alone.\<close>

lemma mpsc_inv_cons:
  assumes inv: "mpsc_inv k s" and q: "slot_at (sy_q s') = slot_at (sy_q s)" "ring_of (sy_q s') k" "mq_tail (sy_q s') = mq_tail (sy_q s)"
    and f: "freed s' = freed s" "sy_claimed s' = sy_claimed s" "sy_prod s' = sy_prod s"
    and c: "mq_head (sy_q s') = of_nat (length (sy_popped s'))" "cons_ok s'"
      "map Some (take (length (sy_popped s')) (sy_claimed s')) = sy_popped s'"
  shows "mpsc_inv k s'"
proof -
  note I = mpsc_invD [OF inv]
  have "prod_ok k s' pr = prod_ok k s pr" for pr by (cases pr) (simp_all add: prod_ok_def f q)
  moreover have "published s' n = published s n" "pending s' n = pending s n" for n
    by (simp_all add: published_def pending_def f q)
  ultimately show ?thesis
    by (intro mpsc_invI) (use I q f c in \<open>simp_all\<close>)
qed

lemma mpsc_step_inv:
  assumes "mpsc_step s s'" and "mpsc_inv k s" and "length (sy_claimed s') < 2 ^ 62"
  shows "mpsc_inv k s'"
  using assms
proof (cases rule: mpsc_step.cases)
  case (call p x)
  then show ?thesis using assms(2) mpsc_invD(2) [OF assms(2)] by (auto intro!: mpsc_inv_prod simp: prod_ok_def)
next
  case (free p x t)
  obtain n where "n \<le> length (sy_claimed s)" "t = of_nat n"
    using mpsc_invD(9) [OF assms(2), of p] free by (auto simp: prod_ok_def)
  then have "prod_ok k s (P_cas x t)"
    unfolding prod_ok_def producer.case using free seq_read(1) [OF assms(2), of n] by (intro exI [of _ n]) simp
  then show ?thesis using free assms(2) by (auto intro!: mpsc_inv_prod)
next
  case (full p x t)
  then show ?thesis using assms(2) by (auto intro!: mpsc_inv_prod simp: prod_ok_def)
next
  case (behind p x t)
  then show ?thesis using assms(2) mpsc_invD(2) [OF assms(2)] by (auto intro!: mpsc_inv_prod simp: prod_ok_def)
next
  case (cas_fail p x t)
  then show ?thesis using assms(2) mpsc_invD(2) [OF assms(2)] by (auto intro!: mpsc_inv_prod simp: prod_ok_def)
next
  case (cas p x t)
  then show ?thesis using step_claim [OF assms(2), of p x] assms(3) by simp
next
  case (store_ptr p x t)
  obtain n where n: "t = of_nat n" "freed s \<le> n" "n < length (sy_claimed s)" "sy_claimed s ! n = x" "ms_seq (slot_at (sy_q s) t) = t"
    using mpsc_invD(9) [OF assms(2), of p] store_ptr by (auto simp: prod_ok_def)
  show ?thesis unfolding store_ptr(1) n(1)
  proof (rule step_store [OF assms(2)])
    show "prod_ok k (s\<lparr>sy_q := slot_set (sy_q s) (of_nat n) ((slot_at (sy_q s) (of_nat n))\<lparr>ms_ptr := Some x\<rparr>),
        sy_prod := (sy_prod s)(p := P_seq x (of_nat n))\<rparr>) (P_seq x (of_nat n))"
      unfolding prod_ok_def producer.case using n mpsc_invD(1) [OF assms(2)]
      by (intro exI [of _ n]) (simp add: freed_def window_same)
  qed (use store_ptr n in simp_all)
next
  case (store_seq p x t)
  obtain n where n: "t = of_nat n" "freed s \<le> n" "n < length (sy_claimed s)" "sy_claimed s ! n = x"
      "slot_at (sy_q s) t = \<lparr>ms_seq = t, ms_ptr = Some x\<rparr>"
    using mpsc_invD(9) [OF assms(2), of p] store_seq by (auto simp: prod_ok_def)
  show ?thesis unfolding store_seq(1) n(1)
    by (rule step_store [OF assms(2)]) (use store_seq n in \<open>simp_all add: prod_ok_def\<close>)
next
  case pop_ready
  note I = mpsc_invD [OF assms(2)]
  let ?m = "length (sy_popped s)"
  have f: "freed s = ?m" using pop_ready by (simp add: freed_def)
  have b: "?m + 1 < 2 ^ 63" using I(4,5) f by simp
  have k: "(2 :: nat) \<le> 2 ^ k" using I(1) power_increasing [of 1 k "2 :: nat"] by (simp add: ring_of_def)
  have seq: "ms_seq (slot_at (sy_q s) (of_nat ?m)) = of_nat (?m + 1)"
    using pop_ready(3) by (intro signed_word_eqI) (simp add: I(3) add.commute)
  have "?m < length (sy_claimed s)"
  proof (rule ccontr)
    assume "\<not> ?m < length (sy_claimed s)"
    then have "ms_seq (slot_at (sy_q s) (of_nat ?m)) = of_nat ?m" using I(7) [of ?m] f by simp
    then show False using seq of_nat_u64_eq [of "?m + 1" ?m] b by simp
  qed
  moreover have "published s ?m"
    using I(8) [of ?m] f calculation seq of_nat_u64_eq [of "?m + 1" ?m] b by (auto simp: pending_def)
  ultimately show ?thesis unfolding pop_ready(1)
    by (intro mpsc_inv_cons [OF assms(2)]) (use I f pop_ready in \<open>simp_all add: freed_def cons_ok_def Let_def published_def\<close>)
next
  case (pop_read h)
  note I = mpsc_invD [OF assms(2)]
  have m: "h = of_nat (length (sy_popped s))" "length (sy_popped s) < length (sy_claimed s)" "published s (length (sy_popped s))"
    using I(11) pop_read by (simp_all add: cons_ok_def Let_def)
  show ?thesis unfolding pop_read(1)
    by (intro mpsc_inv_cons [OF assms(2)]) (use I m pop_read in \<open>simp_all add: freed_def cons_ok_def Let_def published_def\<close>)
next
  case (pop_seq h x)
  then show ?thesis using step_release [OF assms(2)] by simp
next
  case (pop_head h x)
  note I = mpsc_invD [OF assms(2)]
  have m: "h = of_nat (length (sy_popped s))" "length (sy_popped s) < length (sy_claimed s)" "x = Some (sy_claimed s ! length (sy_popped s))"
    using I(11) pop_head by (simp_all add: cons_ok_def Let_def)
  have p: "map Some (take (Suc (length (sy_popped s))) (sy_claimed s)) = sy_popped s @ [x]"
    using I(12) m by (simp add: take_Suc_conv_app_nth)
  show ?thesis unfolding pop_head(1)
    by (intro mpsc_inv_cons [OF assms(2)])
      (use I m p pop_head in \<open>simp_all add: freed_def cons_ok_def Let_def fun_eq_iff slot_at_def mpsc_pos_def add.commute\<close>)
qed

section \<open>Reachable states\<close>

lemma mpsc_init_inv:
  assumes "mpsc_init True q pw = (KV_EOK, q0)" and "unat pw \<le> 62"
  shows "mpsc_inv (max 4 (unat pw)) \<lparr>sy_q = q0, sy_prod = (\<lambda>_. P_idle), sy_cons = C_idle, sy_claimed = [], sy_popped = []\<rparr>"
    and "unat (mq_mask q0) + 1 = 2 ^ max 4 (unat pw)"
proof -
  define k where "k = max 4 (unat pw)"
  have k: "1 \<le> k" "k \<le> 62" using assms(2) by (auto simp: k_def)
  have pw: "unat (if pw < 4 then 4 else pw) = k" by (auto simp: k_def word_less_nat_alt max_def)
  have cap: "(push_bit k 1 :: u64) = 2 ^ k" by (simp add: push_bit_eq_mult)
  have "(2 :: nat) ^ k < 2 ^ 64" using k by (intro power_strict_increasing) auto
  then have ucap: "unat (2 ^ k :: u64) = 2 ^ k" using unat_of_nat_u64 [of "2 ^ k"] by simp
  have q0: "q0 = \<lparr>mq_slots = map (\<lambda>i. \<lparr>ms_seq = of_nat i, ms_ptr = None\<rparr>) [0..<2 ^ k], mq_mask = mask k,
      mq_tail = 0, mq_head = 0, mq_init = True\<rparr>"
    using assms(1) by (simp add: mpsc_init_def Let_def pw cap ucap mask_eq_decr_exp)
  have ring: "ring_of q0 k" using k by (simp add: ring_of_def q0)
  have "ms_seq (slot_at q0 (of_nat n)) = of_nat n" if "n < 2 ^ k" for n
    unfolding slot_at_eq [OF ring] using that by (simp add: q0)
  then show "mpsc_inv (max 4 (unat pw)) \<lparr>sy_q = q0, sy_prod = (\<lambda>_. P_idle), sy_cons = C_idle, sy_claimed = [], sy_popped = []\<rparr>"
    unfolding k_def [symmetric] using ring
    by (intro mpsc_invI) (simp_all add: freed_def prod_ok_def cons_ok_def q0)
  show "unat (mq_mask q0) + 1 = 2 ^ max 4 (unat pw)" unfolding k_def [symmetric] using unat_mask_u64 [of k] k by (simp add: q0)
qed

lemma mpsc_step_claimed: "mpsc_step s s' \<Longrightarrow> length (sy_claimed s) \<le> length (sy_claimed s')"
  by (induction rule: mpsc_step.induct) simp_all

lemma mpsc_reach_inv:
  assumes "mpsc_init True q pw = (KV_EOK, q0)" and "unat pw \<le> 62" and "mpsc_reach q0 s" and "length (sy_claimed s) < 2 ^ 62"
  shows "mpsc_inv (max 4 (unat pw)) s"
  using assms(3,4)
proof (induction rule: mpsc_reach.induct)
  case start
  then show ?case using mpsc_init_inv(1) [OF assms(1,2)] by simp
next
  case (step s s')
  then show ?case using mpsc_step_claimed [OF step.hyps(2)] mpsc_step_inv by fastforce
qed

section \<open>Without interference\<close>

text \<open>What a client of a bounded queue relies on; \<open>inv n\<close> leaves room for \<open>n\<close> more insertions
  before the counters could wrap.\<close>

locale bounded_queue =
  fixes push :: "'q \<Rightarrow> 'a \<Rightarrow> (int \<times> 'q) option" and pop :: "'q \<Rightarrow> 'a option \<times> 'q"
    and inv :: "nat \<Rightarrow> 'q \<Rightarrow> bool" and items :: "'q \<Rightarrow> 'a list" and room :: "'q \<Rightarrow> nat"
  assumes push_ok: "inv (Suc n) q \<Longrightarrow> length (items q) < room q \<Longrightarrow>
      \<exists>q'. push q x = Some (KV_EOK, q') \<and> inv n q' \<and> items q' = items q @ [x] \<and> room q' = room q"
    and push_full: "inv n q \<Longrightarrow> length (items q) = room q \<Longrightarrow> push q x = Some (- KV_EFULL, q)"
    and bounded: "inv n q \<Longrightarrow> length (items q) \<le> room q"
    and pop_nil: "inv n q \<Longrightarrow> items q = [] \<Longrightarrow> pop q = (None, q)"
    and pop_cons: "inv n q \<Longrightarrow> items q = x # xs \<Longrightarrow>
      \<exists>q'. pop q = (Some x, q') \<and> inv n q' \<and> items q' = xs \<and> room q' = room q"
begin

primrec drain :: "nat \<Rightarrow> 'q \<Rightarrow> ('a list \<times> 'q) option" where
  "drain 0 q = None"
| "drain (Suc k) q =
    (case pop q of
       (None, q) \<Rightarrow> Some ([], q)
     | (Some x, q) \<Rightarrow> map_option (\<lambda>(xs, q). (x # xs, q)) (drain k q))"

lemma drain_items: "inv n q \<Longrightarrow> length (items q) < k \<Longrightarrow> \<exists>q'. drain k q = Some (items q, q') \<and> inv n q' \<and> items q' = []"
proof (induction k arbitrary: q)
  case (Suc k)
  show ?case
  proof (cases "items q")
    case Nil
    then show ?thesis using pop_nil [OF Suc.prems(1) Nil] Suc.prems(1) by simp
  next
    case (Cons x xs)
    obtain q' where q': "pop q = (Some x, q')" "inv n q'" "items q' = xs" using pop_cons [OF Suc.prems(1) Cons] by blast
    obtain q'' where "drain k q' = Some (xs, q'')" "inv n q''" "items q'' = []"
      using Suc.IH [OF q'(2)] q'(3) Suc.prems(2) Cons by auto
    then show ?thesis using q'(1) Cons by simp
  qed
qed simp

end

definition mpsc_items :: "'a mpsc_ring \<Rightarrow> 'a list" where
  "mpsc_items q = map (\<lambda>i. the (ms_ptr (slot_at q (mq_head q + of_nat i)))) [0..<unat (mq_tail q - mq_head q)]"

definition mpsc_room :: "'a mpsc_ring \<Rightarrow> nat" where
  "mpsc_room q = unat (mq_mask q) + 1"

text \<open>The ring with nobody in the middle of an operation.\<close>

definition mpsc_quiet :: "nat \<Rightarrow> 'a mpsc_ring \<Rightarrow> 'a list \<Rightarrow> nat \<Rightarrow> bool" where
  "mpsc_quiet k q cs h \<longleftrightarrow> h \<le> length cs \<and>
    mpsc_inv k \<lparr>sy_q = q, sy_prod = (\<lambda>_. P_idle), sy_cons = C_idle, sy_claimed = cs, sy_popped = map Some (take h cs)\<rparr>"

definition mpsc_ok :: "nat \<Rightarrow> 'a mpsc_ring \<Rightarrow> bool" where
  "mpsc_ok n q \<longleftrightarrow> (\<exists>k cs h. mpsc_quiet k q cs h \<and> length cs + n < 2 ^ 62)"

lemma mpsc_quietD:
  assumes "mpsc_quiet k q cs h"
  shows "ring_of q k" "mq_tail q = of_nat (length cs)" "mq_head q = of_nat h" "length cs < 2 ^ 62" "h \<le> length cs"
    "length cs \<le> h + 2 ^ k" "mpsc_room q = 2 ^ k" "mpsc_items q = drop h cs"
    "\<And>n. length cs \<le> n \<Longrightarrow> n < h + 2 ^ k \<Longrightarrow> ms_seq (slot_at q (of_nat n)) = of_nat n"
    "\<And>n. h \<le> n \<Longrightarrow> n < length cs \<Longrightarrow> slot_at q (of_nat n) = \<lparr>ms_seq = of_nat (n + 1), ms_ptr = Some (cs ! n)\<rparr>"
proof -
  let ?s = "\<lparr>sy_q = q, sy_prod = (\<lambda>_. P_idle), sy_cons = C_idle, sy_claimed = cs, sy_popped = map Some (take h cs)\<rparr>"
  have inv: "mpsc_inv k ?s" and h: "h \<le> length cs" using assms by (simp_all add: mpsc_quiet_def)
  note I = mpsc_invD [OF inv]
  have f: "freed ?s = h" using h by (simp add: freed_def)
  show "ring_of q k" "mq_tail q = of_nat (length cs)" "mq_head q = of_nat h" "length cs < 2 ^ 62" "h \<le> length cs"
    "length cs \<le> h + 2 ^ k" using I h f by simp_all
  show "ms_seq (slot_at q (of_nat n)) = of_nat n" if "length cs \<le> n" "n < h + 2 ^ k" for n
    using I(7) [of n] that f by simp
  show pub: "slot_at q (of_nat n) = \<lparr>ms_seq = of_nat (n + 1), ms_ptr = Some (cs ! n)\<rparr>" if "h \<le> n" "n < length cs" for n
    using I(8) [of n] that f by (simp add: published_def pending_def)
  show "mpsc_room q = 2 ^ k" using I(1) unat_mask_u64 [of k] by (simp add: mpsc_room_def ring_of_def)
  have "mq_tail q - mq_head q = of_nat (length cs - h)" using I(2,3) h by (simp add: of_nat_diff)
  then have n: "unat (mq_tail q - mq_head q) = length cs - h" using I(4) by simp
  have "the (ms_ptr (slot_at q (mq_head q + of_nat i))) = cs ! (h + i)" if "i < length cs - h" for i
    using pub [of "h + i"] that I(3) h by (simp add: add.commute)
  then show "mpsc_items q = drop h cs"
    unfolding mpsc_items_def n by (intro nth_equalityI) (simp_all add: h)
qed

text \<open>A push and a pop without interference are runs of the interleaved steps.\<close>

lemma slot_both [simp]: "(sl :: 'a mpsc_slot)\<lparr>ms_ptr := a, ms_seq := b\<rparr> = \<lparr>ms_seq = b, ms_ptr = a\<rparr>"
  by (cases sl) simp

lemma mpsc_quiet_push:
  assumes qu: "mpsc_quiet k q cs h" and room: "length cs < h + 2 ^ k" and len: "length cs + 1 < 2 ^ 62"
  shows "\<exists>q'. mpsc_push q x = Some (KV_EOK, q') \<and> mpsc_quiet k q' (cs @ [x]) h"
proof -
  note Q = mpsc_quietD [OF qu]
  let ?t = "of_nat (length cs) :: u64"
  let ?st = "\<lambda>q pr cs. \<lparr>sy_q = q, sy_prod = (\<lambda>_. P_idle)(0 := pr), sy_cons = C_idle, sy_claimed = cs, sy_popped = map Some (take h cs)\<rparr>"
  have seq: "ms_seq (slot_at q ?t) = ?t" using Q(9) [of "length cs"] room by simp
  let ?q1 = "q\<lparr>mq_tail := ?t + 1\<rparr>"
  let ?q2 = "slot_set ?q1 ?t ((slot_at ?q1 ?t)\<lparr>ms_ptr := Some x\<rparr>)"
  let ?q3 = "slot_set ?q2 ?t ((slot_at ?q2 ?t)\<lparr>ms_seq := ?t + 1\<rparr>)"
  have t1: "take h (cs @ [x]) = take h cs" using Q(5) by simp
  have "mpsc_inv k (?st q P_idle cs)" using qu by (simp add: mpsc_quiet_def fun_upd_idem)
  then have "mpsc_inv k (?st q (P_tail x ?t) cs)"
    by (rule mpsc_step_inv [rotated]) (use Q mpsc_step.call [of "?st q P_idle cs" 0 x] in simp_all)
  then have "mpsc_inv k (?st q (P_cas x ?t) cs)"
    by (rule mpsc_step_inv [rotated]) (use Q seq mpsc_step.free [of "?st q (P_tail x ?t) cs" 0 x ?t] in simp_all)
  then have "mpsc_inv k (?st ?q1 (P_ptr x ?t) (cs @ [x]))"
    by (rule mpsc_step_inv [rotated]) (use Q len t1 mpsc_step.cas [of "?st q (P_cas x ?t) cs" 0 x ?t] in simp_all)
  then have "mpsc_inv k (?st ?q2 (P_seq x ?t) (cs @ [x]))"
    by (rule mpsc_step_inv [rotated]) (use len mpsc_step.store_ptr [of "?st ?q1 (P_ptr x ?t) (cs @ [x])" 0 x ?t] in simp_all)
  then have "mpsc_inv k (?st ?q3 P_idle (cs @ [x]))"
    by (rule mpsc_step_inv [rotated]) (use len mpsc_step.store_seq [of "?st ?q2 (P_seq x ?t) (cs @ [x])" 0 x ?t] in simp_all)
  then have "mpsc_quiet k ?q3 (cs @ [x]) h" using Q(5) by (simp add: mpsc_quiet_def fun_upd_idem)
  moreover have "mpsc_push q x = Some (KV_EOK, ?q3)"
  proof -
    have "mpsc_pos q ?t < length (mq_slots q)" unfolding mpsc_pos_mod [OF Q(1)] using Q(1) by (simp add: ring_of_def)
    then show ?thesis
      using seq by (simp add: mpsc_push_def Let_def Q(2) slot_at_def slot_set_def mpsc_pos_def)
  qed
  ultimately show ?thesis by blast
qed

lemma mpsc_quiet_full:
  assumes qu: "mpsc_quiet k q cs h" and "length cs = h + 2 ^ k"
  shows "mpsc_push q x = Some (- KV_EFULL, q)"
proof -
  note Q = mpsc_quietD [OF qu]
  let ?s = "\<lparr>sy_q = q, sy_prod = (\<lambda>_. P_idle), sy_cons = C_idle, sy_claimed = cs, sy_popped = map Some (take h cs)\<rparr>"
  have h: "h < length cs" using assms(2) by simp
  have "slot_at q (of_nat (length cs)) = slot_at q (of_nat h)" using Q(1) assms(2) by (simp add: slot_at_eq del: of_nat_add)
  then have "ms_seq (slot_at q (mq_tail q)) = of_nat (h + 1)" using Q(10) [of h] h by (simp add: Q(2))
  moreover have "(2 :: int) \<le> 2 ^ k" using Q(1) power_increasing [of 1 k "2 :: int"] by (simp add: ring_of_def)
  ultimately have "sint (ms_seq (slot_at q (mq_tail q))) - sint (mq_tail q) < 0"
    using Q(2,4) assms(2) sint_small [of "h + 1"] sint_small [of "length cs"] by simp
  then show ?thesis by (simp add: mpsc_push_def Let_def slot_at_def)
qed

lemma mpsc_quiet_pop:
  assumes qu: "mpsc_quiet k q cs h" and h: "h < length cs"
  shows "\<exists>q'. mpsc_pop q = (Some (cs ! h), q') \<and> mpsc_quiet k q' cs (h + 1)"
proof -
  note Q = mpsc_quietD [OF qu]
  let ?h = "of_nat h :: u64"
  let ?st = "\<lambda>q c h. \<lparr>sy_q = q, sy_prod = (\<lambda>_. P_idle), sy_cons = c, sy_claimed = cs, sy_popped = map Some (take h cs)\<rparr>"
  have sl: "slot_at q ?h = \<lparr>ms_seq = of_nat (h + 1), ms_ptr = Some (cs ! h)\<rparr>" using Q(10) [of h] h by simp
  let ?q1 = "slot_set q ?h ((slot_at q ?h)\<lparr>ms_seq := ?h + mq_mask q + 1\<rparr>)"
  let ?q2 = "?q1\<lparr>mq_head := ?h + 1\<rparr>"
  have tk: "map Some (take h cs) @ [Some (cs ! h)] = map Some (take (h + 1) cs)" using h by (simp add: take_Suc_conv_app_nth)
  have "mpsc_inv k (?st q C_idle h)" using qu by (simp add: mpsc_quiet_def)
  then have "mpsc_inv k (?st q (C_ready ?h) h)"
    by (rule mpsc_step_inv [rotated]) (use Q sl mpsc_step.pop_ready [of "?st q C_idle h"] in \<open>simp_all add: add.commute\<close>)
  then have "mpsc_inv k (?st q (C_read ?h (Some (cs ! h))) h)"
    by (rule mpsc_step_inv [rotated]) (use Q(4) sl mpsc_step.pop_read [of "?st q (C_ready ?h) h" ?h] in simp_all)
  then have "mpsc_inv k (?st ?q1 (C_head ?h (Some (cs ! h))) h)"
    by (rule mpsc_step_inv [rotated]) (use Q(4) mpsc_step.pop_seq [of "?st q (C_read ?h (Some (cs ! h))) h" ?h "Some (cs ! h)"] in simp_all)
  then have "mpsc_inv k (?st ?q2 C_idle (h + 1))"
    by (rule mpsc_step_inv [rotated]) (use Q(4) tk mpsc_step.pop_head [of "?st ?q1 (C_head ?h (Some (cs ! h))) h" ?h "Some (cs ! h)"] in simp_all)
  then have "mpsc_quiet k ?q2 cs (h + 1)" using h by (simp add: mpsc_quiet_def)
  moreover have "mpsc_pop q = (Some (cs ! h), ?q2)"
    using sl by (simp add: mpsc_pop_def Let_def Q(3) slot_at_def slot_set_def add.commute)
  ultimately show ?thesis by blast
qed

lemma mpsc_quiet_empty:
  assumes qu: "mpsc_quiet k q cs h" and "h = length cs"
  shows "mpsc_pop q = (None, q)"
proof -
  note Q = mpsc_quietD [OF qu]
  have "ms_seq (slot_at q (mq_head q)) = of_nat h" using Q(9) [of h] assms(2) by (simp add: Q(3))
  moreover have "sint (of_nat h :: u64) - sint (of_nat (h + 1) :: u64) \<noteq> 0"
    using sint_small [of h] sint_small [of "h + 1"] Q(4) assms(2) by (simp del: of_nat_add)
  ultimately show ?thesis by (simp add: mpsc_pop_def Let_def slot_at_def Q(3) add.commute)
qed

interpretation mq: bounded_queue mpsc_push mpsc_pop mpsc_ok mpsc_items mpsc_room
proof unfold_locales
  fix n :: nat and q :: "'a mpsc_ring" and x :: 'a
  assume "mpsc_ok (Suc n) q" "length (mpsc_items q) < mpsc_room q"
  then obtain k cs h where qu: "mpsc_quiet k q cs h" "length cs + Suc n < 2 ^ 62" by (auto simp: mpsc_ok_def)
  note Q = mpsc_quietD [OF qu(1)]
  have "length cs < h + 2 ^ k" using \<open>length (mpsc_items q) < mpsc_room q\<close> by (simp add: Q(7,8))
  then obtain q' where q': "mpsc_push q x = Some (KV_EOK, q')" "mpsc_quiet k q' (cs @ [x]) h"
    using mpsc_quiet_push [OF qu(1)] qu(2) by auto
  then show "\<exists>q'. mpsc_push q x = Some (KV_EOK, q') \<and> mpsc_ok n q' \<and> mpsc_items q' = mpsc_items q @ [x] \<and> mpsc_room q' = mpsc_room q"
    using mpsc_quietD(7,8) [OF q'(2)] Q(5,7,8) qu(2) unfolding mpsc_ok_def
    by (intro exI [of _ q'] conjI exI [of _ k] exI [of _ "cs @ [x]"] exI [of _ h]) simp_all
next
  fix n :: nat and q :: "'a mpsc_ring" and x :: 'a
  assume "mpsc_ok n q" "length (mpsc_items q) = mpsc_room q"
  then obtain k cs h where qu: "mpsc_quiet k q cs h" by (auto simp: mpsc_ok_def)
  then have "length cs = h + 2 ^ k"
    using mpsc_quietD(5,7,8) [OF qu] \<open>length (mpsc_items q) = mpsc_room q\<close> by simp
  then show "mpsc_push q x = Some (- KV_EFULL, q)" using mpsc_quiet_full [OF qu] by simp
next
  fix n :: nat and q :: "'a mpsc_ring"
  assume "mpsc_ok n q"
  then obtain k cs h where qu: "mpsc_quiet k q cs h" by (auto simp: mpsc_ok_def)
  then show "length (mpsc_items q) \<le> mpsc_room q" using mpsc_quietD(5,6,7,8) [OF qu] by simp
next
  fix n :: nat and q :: "'a mpsc_ring"
  assume "mpsc_ok n q" "mpsc_items q = []"
  then obtain k cs h where qu: "mpsc_quiet k q cs h" by (auto simp: mpsc_ok_def)
  then show "mpsc_pop q = (None, q)"
    using mpsc_quietD(5,8) [OF qu] \<open>mpsc_items q = []\<close> by (intro mpsc_quiet_empty [OF qu]) simp
next
  fix n :: nat and q :: "'a mpsc_ring" and x xs
  assume ok: "mpsc_ok n q" and it: "mpsc_items q = x # xs"
  then obtain k cs h where qu: "mpsc_quiet k q cs h" "length cs + n < 2 ^ 62" by (auto simp: mpsc_ok_def)
  note Q = mpsc_quietD [OF qu(1)]
  have h: "h < length cs" using it Q(5,8) by (cases "h = length cs") simp_all
  then have x: "x = cs ! h" "xs = drop (h + 1) cs" using it Q(8) Cons_nth_drop_Suc [OF h] by simp_all
  obtain q' where q': "mpsc_pop q = (Some (cs ! h), q')" "mpsc_quiet k q' cs (h + 1)" using mpsc_quiet_pop [OF qu(1) h] by blast
  then show "\<exists>q'. mpsc_pop q = (Some x, q') \<and> mpsc_ok n q' \<and> mpsc_items q' = xs \<and> mpsc_room q' = mpsc_room q"
    using mpsc_quietD(7,8) [OF q'(2)] Q(7) x qu(2) unfolding mpsc_ok_def
    by (intro exI [of _ q'] conjI exI [of _ k] exI [of _ cs] exI [of _ "h + 1"]) simp_all
qed

section \<open>Properties\<close>

text \<open>C39: However producers and the consumer interleave, one atomic access at a time, and for fewer
  than 2^62 claims in the life of the ring: the pops return the claimed pointers in the order in
  which their slots were claimed, each exactly once and none lost; a producer is turned away only
  when as many claimed slots as the ring holds have not been released; and when no producer is
  between its claim and its publication, the next pop finds a pointer exactly when one is left.\<close>

theorem mpsc_interleaving_fifo:
  assumes "mpsc_init True q pw = (KV_EOK, q0)" and "unat pw \<le> 62" and "mpsc_reach q0 s" and "length (sy_claimed s) < 2 ^ 62"
  shows "sy_popped s = map Some (take (length (sy_popped s)) (sy_claimed s)) \<and>
    (\<forall>p x t. sy_prod s p = P_tail x t \<and> sint (ms_seq (slot_at (sy_q s) t)) - sint t < 0 \<longrightarrow>
      length (sy_claimed s) = freed s + 2 ^ max 4 (unat pw)) \<and>
    (sy_cons s = C_idle \<and> (\<forall>p. owner (sy_prod s p) = None) \<longrightarrow>
      (sint (ms_seq (slot_at (sy_q s) (mq_head (sy_q s)))) - sint (mq_head (sy_q s) + 1) = 0) =
      (length (sy_popped s) < length (sy_claimed s)))"
proof (intro conjI allI impI)
  note inv = mpsc_reach_inv [OF assms]
  note I = mpsc_invD [OF inv]
  show "sy_popped s = map Some (take (length (sy_popped s)) (sy_claimed s))" using I(12) by simp
  show "length (sy_claimed s) = freed s + 2 ^ max 4 (unat pw)"
    if pt: "sy_prod s p = P_tail x t \<and> sint (ms_seq (slot_at (sy_q s) t)) - sint t < 0" for p x t
  proof -
    obtain n where "n \<le> length (sy_claimed s)" "t = of_nat n" using I(9) [of p] pt by (auto simp: prod_ok_def)
    then show ?thesis using seq_read(2) [OF inv, of n] pt I(6) by auto
  qed
  assume q: "sy_cons s = C_idle \<and> (\<forall>p. owner (sy_prod s p) = None)"
  let ?m = "length (sy_popped s)"
  have f: "freed s = ?m" using q by (simp add: freed_def)
  have m: "?m + 1 < 2 ^ 63" using I(4,5) f by simp
  show "(sint (ms_seq (slot_at (sy_q s) (mq_head (sy_q s)))) - sint (mq_head (sy_q s) + 1) = 0) = (?m < length (sy_claimed s))"
  proof (cases "?m < length (sy_claimed s)")
    case True
    then have "published s ?m" using I(8) [of ?m] f q by (auto simp: pending_def)
    then show ?thesis using True I(3) by (simp add: published_def add.commute)
  next
    case False
    then have "ms_seq (slot_at (sy_q s) (of_nat ?m)) = of_nat ?m" using I(5) I(7) [of ?m] f by simp
    then show ?thesis
      using False m sint_small [of ?m] sint_small [of "?m + 1"] by (simp add: I(3) add.commute)
  qed
qed

theorem mpsc_interleaving_fifo_witness:
  "\<exists>q0 s. mpsc_init True (mpsc_ring0 :: nat mpsc_ring) 12 = (KV_EOK, q0) \<and> mpsc_reach q0 s \<and>
    sy_prod s 3 = P_tail 7 0 \<and> sy_popped s = map Some (take (length (sy_popped s)) (sy_claimed s))"
proof -
  obtain q0 where q0: "mpsc_init True (mpsc_ring0 :: nat mpsc_ring) 12 = (KV_EOK, q0)" "mq_tail q0 = 0"
    by (simp add: mpsc_init_def Let_def)
  let ?s = "\<lparr>sy_q = q0, sy_prod = (\<lambda>_. P_idle), sy_cons = C_idle, sy_claimed = [], sy_popped = []\<rparr>"
  let ?s1 = "?s\<lparr>sy_prod := (sy_prod ?s)(3 := P_tail 7 (mq_tail (sy_q ?s)))\<rparr>"
  have "mpsc_reach q0 ?s1" by (rule mpsc_reach.step [OF mpsc_reach.start mpsc_step.call]) simp
  moreover have "sy_popped ?s1 = map Some (take (length (sy_popped ?s1)) (sy_claimed ?s1))"
    using mpsc_interleaving_fifo [OF q0(1) _ \<open>mpsc_reach q0 ?s1\<close>] by simp
  ultimately show ?thesis using q0 by (intro exI [of _ q0] exI [of _ ?s1]) simp
qed

end
