(* ===== verification/KV_Hist.thy ===== *)
theory KV_Hist
  imports KV_Common
begin

text \<open>
  The latency histograms of \<open>src/metrics/metrics.cpp\<close>: 32 power-of-two buckets with a sample
  count, a sum, a minimum and a maximum.  The compare-and-swap loops that maintain the extremes are
  taken as one atomic update each, the value they end with.  The lemmas show that a
  histogram holds, per bucket, the number of samples of that size, and so that a percentile is an
  upper bound that is at most a factor of two from the true one.
\<close>

section \<open>Data and operations\<close>

definition KV_MLEVEL_BASIC :: u8 where "KV_MLEVEL_BASIC = 1"
definition KV_MLEVEL_FULL :: u8 where "KV_MLEVEL_FULL = 2"
definition KV_METRICS_MAX_DEVS :: nat where "KV_METRICS_MAX_DEVS = 16"
definition KV_HIST_BUCKETS :: nat where "KV_HIST_BUCKETS = 32"

record kv_hist =
  kh_count :: "u64 list"
  kh_n :: u64
  kh_total_ns :: u64
  kh_min_ns :: u64
  kh_max_ns :: u64

record kv_metrics =
  km_put_ack :: kv_hist
  km_get :: kv_hist

definition kv_hist_clear :: "kv_hist \<Rightarrow> kv_hist" where
  "kv_hist_clear h = h\<lparr>kh_count := replicate KV_HIST_BUCKETS 0, kh_n := 0, kh_total_ns := 0,
    kh_min_ns := 0, kh_max_ns := 0\<rparr>"

definition kv_hist_init :: "kv_hist \<Rightarrow> kv_hist" where
  "kv_hist_init h = kv_hist_clear h"

text \<open>A histogram as its constructor leaves it.\<close>

definition kv_hist0 :: kv_hist where
  "kv_hist0 = \<lparr>kh_count = replicate KV_HIST_BUCKETS 0, kh_n = 0, kh_total_ns = 0, kh_min_ns = 0,
    kh_max_ns = 0\<rparr>"

text \<open>The number of leading zero bits of a nonzero 64-bit word.\<close>

definition clz64 :: "u64 \<Rightarrow> nat" where
  "clz64 x = length (takeWhile Not (map (bit x) (rev [0..<64])))"

definition hist_bucket :: "u64 \<Rightarrow> nat" where
  "hist_bucket ns = (let b = (if ns \<noteq> 0 then 63 - clz64 ns else 0)
    in if b \<ge> KV_HIST_BUCKETS then KV_HIST_BUCKETS - 1 else b)"

definition kv_hist_sample :: "kv_hist \<Rightarrow> u64 \<Rightarrow> kv_hist" where
  "kv_hist_sample h ns =
    (let b = hist_bucket ns
     in h\<lparr>kh_count := (kh_count h)[b := kh_count h ! b + 1], kh_n := kh_n h + 1,
          kh_total_ns := kh_total_ns h + ns,
          kh_min_ns := (if kh_min_ns h = 0 \<or> ns < kh_min_ns h then ns else kh_min_ns h),
          kh_max_ns := (if ns > kh_max_ns h then ns else kh_max_ns h)\<rparr>)"

definition kv_hist_merge :: "kv_hist \<Rightarrow> kv_hist \<Rightarrow> kv_hist" where
  "kv_hist_merge dst src =
    dst\<lparr>kh_count := map2 (+) (kh_count dst) (kh_count src), kh_n := kh_n dst + kh_n src,
        kh_total_ns := kh_total_ns dst + kh_total_ns src,
        kh_min_ns := (if kh_min_ns src \<noteq> 0 \<and> (kh_min_ns dst = 0 \<or> kh_min_ns src < kh_min_ns dst)
                      then kh_min_ns src else kh_min_ns dst),
        kh_max_ns := (if kh_max_ns src \<noteq> 0 \<and> kh_max_ns src > kh_max_ns dst
                      then kh_max_ns src else kh_max_ns dst)\<rparr>"

fun percentile_scan :: "u64 list \<Rightarrow> nat \<Rightarrow> u64 \<Rightarrow> u64 \<Rightarrow> u64" where
  "percentile_scan [] i acc target = 0"
| "percentile_scan (k # ks) i acc target =
    (let acc = acc + k
     in if acc \<ge> target then (if i + 1 < KV_HIST_BUCKETS then push_bit (i + 1) 1 else push_bit i 1)
        else percentile_scan ks (i + 1) acc target)"

definition kv_hist_percentile :: "kv_hist \<Rightarrow> u32 \<Rightarrow> u64" where
  "kv_hist_percentile h pct =
    (if pct > 100 then 0
     else if kh_n h = 0 then 0
     else percentile_scan (kh_count h) 0 0 ((kh_n h * ucast pct + 99) div 100))"

definition kv_hist_avg :: "kv_hist \<Rightarrow> u64" where
  "kv_hist_avg h = (if kh_n h \<noteq> 0 then kh_total_ns h div kh_n h else 0)"

definition kv_hist_max :: "kv_hist \<Rightarrow> u64" where
  "kv_hist_max h = kh_max_ns h"

definition kv_hist_count :: "kv_hist \<Rightarrow> u64" where
  "kv_hist_count h = kh_n h"

section \<open>Buckets\<close>

definition hist_of :: "u64 list \<Rightarrow> kv_hist" where
  "hist_of xs = foldl kv_hist_sample kv_hist0 xs"


lemma unat_less_pow_iff:
  fixes x :: u64
  shows "unat x < 2 ^ n \<longleftrightarrow> (\<forall>j \<ge> n. \<not> bit x j)"
proof -
  have "unat x < 2 ^ n \<longleftrightarrow> take_bit n (unat x) = unat x"
    using take_bit_nat_eq_self_iff by blast
  also have "\<dots> \<longleftrightarrow> (\<forall>j \<ge> n. \<not> bit (unat x) j)"
    unfolding bit_eq_iff [of "take_bit n (unat x)"] bit_take_bit_iff
    by (metis linorder_not_le possible_bit_nat)
  finally show ?thesis by (simp only: bit_unsigned_iff possible_bit_nat simp_thms)
qed

lemma clz64_le_iff:
  assumes "x \<noteq> 0" and "i < 64"
  shows "63 - clz64 x \<le> i \<longleftrightarrow> unat x < 2 ^ (i + 1)"
proof -
  let ?L = "map (bit x) (rev [0..<64])"
  define k where "k = length (takeWhile Not ?L)"
  have nth: "?L ! j = bit x (63 - j)" if "j < 64" for j
    using that by (simp add: rev_nth)
  have "unat x \<noteq> 0" using assms(1) by (simp add: unat_eq_0)
  then have "\<not> unat x < 2 ^ 0" by simp
  then obtain j where j: "bit x j" using unat_less_pow_iff [of x 0] by blast
  then have "j < 64" using bit_imp_le_length [OF j] by simp
  with j have "\<not> (\<forall>b \<in> set ?L. \<not> b)" by auto
  then have "takeWhile Not ?L \<noteq> ?L" using takeWhile_eq_all_conv [of Not ?L] by blast
  then have "k < length ?L"
    unfolding k_def using length_takeWhile_le [of Not ?L]
    by (metis le_neq_implies_less length_map takeWhile_eq_take take_all_iff order_refl)
  then have k: "k < 64" by simp
  have top: "bit x (63 - k)"
    using nth_length_takeWhile [of Not ?L] \<open>k < length ?L\<close> nth [OF k] unfolding k_def by blast
  have above: "\<not> bit x j" if "63 - k < j" for j
  proof (cases "j < 64")
    case True
    then have "63 - j < k" using that k by linarith
    then have "\<not> ?L ! (63 - j)" unfolding k_def by (metis nth_mem set_takeWhileD takeWhile_nth)
    with nth [of "63 - j"] True show ?thesis by simp
  qed (use bit_imp_le_length [of x j] in auto)
  have "clz64 x = k" by (simp add: clz64_def k_def)
  moreover have "63 - k \<le> i \<longleftrightarrow> (\<forall>j \<ge> i + 1. \<not> bit x j)"
    using top above by (metis Suc_eq_plus1 Suc_leI le_less_trans not_less not_less_eq_eq)
  ultimately show ?thesis using unat_less_pow_iff [of x "i + 1"] by simp
qed

lemma unat_pow2: "j < 64 \<Longrightarrow> unat (2 ^ j :: u64) = 2 ^ j"
  using unat_of_nat_u64 [of "2 ^ j"] power_strict_increasing [of j 64 "2 :: nat"] by simp

lemma pow2_half:
  assumes "j + 1 < 64"
  shows "(2 ^ (j + 1) :: u64) div 2 = 2 ^ j"
proof (rule unsigned_word_eqI)
  have "unat ((2 ^ (j + 1) :: u64) div 2) = unat (2 ^ (j + 1) :: u64) div unat (2 :: u64)"
    by (rule unat_div_distrib)
  also have "\<dots> = 2 ^ j" unfolding unat_pow2 [OF assms] by simp
  finally show "unat ((2 ^ (j + 1) :: u64) div 2) = unat (2 ^ j :: u64)"
    using unat_pow2 [of j] assms by simp
qed

lemma hist_bucket_less: "hist_bucket x < KV_HIST_BUCKETS"
  by (auto simp: hist_bucket_def KV_HIST_BUCKETS_def Let_def)

lemma hist_bucket_le_iff:
  assumes "i < KV_HIST_BUCKETS - 1"
  shows "hist_bucket x \<le> i \<longleftrightarrow> unat x < 2 ^ (i + 1)"
proof (cases "x = 0")
  case False
  have "hist_bucket x \<le> i \<longleftrightarrow> 63 - clz64 x \<le> i"
    using assms False by (auto simp: hist_bucket_def Let_def KV_HIST_BUCKETS_def)
  with clz64_le_iff [OF False, of i] assms show ?thesis by (simp add: KV_HIST_BUCKETS_def)
qed (simp add: hist_bucket_def KV_HIST_BUCKETS_def)

section \<open>Sampling\<close>

text \<open>A histogram counts, per bucket, the samples that fall into it.\<close>

lemma hist_of_snoc: "hist_of (xs @ [x]) = kv_hist_sample (hist_of xs) x"
  by (simp add: hist_of_def)

lemma hist_of_count:
  "kh_count (hist_of xs) = map (\<lambda>i. of_nat (length (filter (\<lambda>x. hist_bucket x = i) xs))) [0..<KV_HIST_BUCKETS]"
  "kh_n (hist_of xs) = of_nat (length xs)"
proof (induction xs rule: rev_induct)
  case Nil
  show "kh_count (hist_of []) = map (\<lambda>i. of_nat (length (filter (\<lambda>x. hist_bucket x = i) []))) [0..<KV_HIST_BUCKETS]"
    by (simp add: hist_of_def kv_hist0_def map_replicate_const)
  show "kh_n (hist_of []) = of_nat (length [])"
    by (simp add: hist_of_def kv_hist0_def)
next
  case (snoc x xs)
  show "kh_n (hist_of (xs @ [x])) = of_nat (length (xs @ [x]))"
    using snoc by (simp add: hist_of_snoc kv_hist_sample_def Let_def)
  show "kh_count (hist_of (xs @ [x])) =
      map (\<lambda>i. of_nat (length (filter (\<lambda>y. hist_bucket y = i) (xs @ [x])))) [0..<KV_HIST_BUCKETS]"
    using snoc(1) hist_bucket_less [of x]
    by (intro nth_equalityI)
      (auto simp: hist_of_snoc kv_hist_sample_def Let_def nth_list_update)
qed

lemma filter_bucket_split:
  "length (filter (\<lambda>x. hist_bucket x < Suc i) xs) =
    length (filter (\<lambda>x. hist_bucket x < i) xs) + length (filter (\<lambda>x. hist_bucket x = i) xs)"
  by (induction xs) auto

text \<open>The scan stops at the first bucket whose cumulative count reaches the target.\<close>

lemma percentile_scan_hist:
  assumes "i \<le> KV_HIST_BUCKETS" and "length xs < 2 ^ 64"
    and "0 < target" and "target \<le> length xs" and "target < 2 ^ 64"
    and "length (filter (\<lambda>x. hist_bucket x < i) xs) < target"
  shows "\<exists>k. i \<le> k \<and> k < KV_HIST_BUCKETS \<and>
    percentile_scan (drop i (kh_count (hist_of xs))) i
      (of_nat (length (filter (\<lambda>x. hist_bucket x < i) xs))) (of_nat target) =
      (if k + 1 < KV_HIST_BUCKETS then push_bit (k + 1) 1 else push_bit k 1) \<and>
    length (filter (\<lambda>x. hist_bucket x < k) xs) < target \<and>
    target \<le> length (filter (\<lambda>x. hist_bucket x \<le> k) xs)"
  using assms
proof (induction "KV_HIST_BUCKETS - i" arbitrary: i)
  case 0
  then have "i = KV_HIST_BUCKETS" by simp
  then have "filter (\<lambda>x. hist_bucket x < i) xs = xs"
    using hist_bucket_less by (simp add: filter_id_conv)
  with 0 show ?case by simp
next
  case (Suc d)
  then have i: "i < KV_HIST_BUCKETS" by simp
  let ?c = "\<lambda>i. length (filter (\<lambda>x. hist_bucket x < i) xs)"
  have drop: "drop i (kh_count (hist_of xs)) =
      of_nat (length (filter (\<lambda>x. hist_bucket x = i) xs)) # drop (Suc i) (kh_count (hist_of xs))"
    using i by (simp add: hist_of_count Cons_nth_drop_Suc [symmetric])
  have acc: "(of_nat (?c i) :: u64) + of_nat (length (filter (\<lambda>x. hist_bucket x = i) xs)) = of_nat (?c (Suc i))"
    by (simp add: filter_bucket_split)
  have bound: "?c (Suc i) < 2 ^ 64"
    using length_filter_le [of "\<lambda>x. hist_bucket x < Suc i" xs] Suc.prems(2) by linarith
  have ge: "(of_nat (?c (Suc i)) :: u64) \<ge> of_nat target \<longleftrightarrow> target \<le> ?c (Suc i)"
    using bound Suc.prems(5) by (simp only: word_le_nat_alt unat_of_nat_u64)
  have le: "(\<lambda>x. hist_bucket x < Suc i) = (\<lambda>x. hist_bucket x \<le> i)" by auto
  show ?case
  proof (cases "target \<le> ?c (Suc i)")
    case True
    with ge Suc.prems(6) i le show ?thesis
      by (intro exI [of _ i]) (simp add: drop acc Let_def)
  next
    case False
    have "d = KV_HIST_BUCKETS - Suc i" using Suc.hyps(2) by simp
    from Suc.hyps(1) [OF this _ Suc.prems(2-5)] False i
    obtain k where k: "Suc i \<le> k" "k < KV_HIST_BUCKETS"
      "percentile_scan (drop (Suc i) (kh_count (hist_of xs))) (Suc i) (of_nat (?c (Suc i))) (of_nat target) =
        (if k + 1 < KV_HIST_BUCKETS then push_bit (k + 1) 1 else push_bit k 1)"
      "?c k < target" "target \<le> length (filter (\<lambda>x. hist_bucket x \<le> k) xs)" by auto
    have "percentile_scan (drop i (kh_count (hist_of xs))) i (of_nat (?c i)) (of_nat target) =
        percentile_scan (drop (Suc i) (kh_count (hist_of xs))) (Suc i) (of_nat (?c (Suc i))) (of_nat target)"
      using False ge by (simp add: drop acc Let_def)
    with k show ?thesis by (intro exI [of _ k]) simp
  qed
qed

section \<open>Properties\<close>

text \<open>C40: The value a histogram reports as the \<open>pct\<close>th percentile of samples below \<open>2 ^ 31\<close> ns is a
  power of two that at least \<open>pct\<close> per cent of the samples are below, while fewer than \<open>pct\<close> per
  cent are below half of it (unless it is the smallest value, 2).\<close>

theorem kv_hist_percentile_bounds:
  assumes "xs \<noteq> []" and "length xs * 100 + 99 < 2 ^ 64" and "0 < pct" and "pct \<le> 100"
    and "\<forall>x \<in> set xs. unat x < 2 ^ 31"
  shows "unat pct * length xs \<le>
      100 * length (filter (\<lambda>x. x < kv_hist_percentile (hist_of xs) pct) xs) \<and>
    (2 < kv_hist_percentile (hist_of xs) pct \<longrightarrow>
      100 * length (filter (\<lambda>x. x < kv_hist_percentile (hist_of xs) pct div 2) xs) < unat pct * length xs)"
proof -
  let ?n = "length xs" and ?p = "unat pct"
  define target where "target = (?n * ?p + 99) div 100"
  have n: "0 < ?n" using assms(1) by simp
  have p: "0 < ?p" "?p \<le> 100"
    using assms(3,4) by (simp_all add: word_le_nat_alt word_less_nat_alt)
  have np: "?n * ?p \<le> ?n * 100" "0 < ?n * ?p" using p n by simp_all
  have ceil: "?n * ?p \<le> 100 * target" "100 * target < ?n * ?p + 100" unfolding target_def by arith+
  have tb: "0 < target" "target \<le> ?n" "target < 2 ^ 64"
    using np ceil assms(2) by linarith+
  have n64: "?n < 2 ^ 64" using assms(2) by linarith
  have kn: "kh_n (hist_of xs) = of_nat ?n" "unat (kh_n (hist_of xs)) = ?n"
    unfolding hist_of_count(2) by (rule refl, rule unat_of_nat_u64 [OF n64])
  then have kn0: "kh_n (hist_of xs) \<noteq> 0" using n by (metis unat_0 less_irrefl)
  have "kh_n (hist_of xs) * ucast pct + 99 = of_nat (?n * ?p + 99)"
    unfolding kn(1) by simp
  moreover have "unat (of_nat (?n * ?p + 99) :: u64) = ?n * ?p + 99"
    using np assms(2) by (intro unat_of_nat_u64) linarith
  ultimately have "unat (kh_n (hist_of xs) * ucast pct + 99) = ?n * ?p + 99" by (simp only:)
  then have "unat ((kh_n (hist_of xs) * ucast pct + 99) div 100) = unat (of_nat target :: u64)"
    unfolding unat_of_nat_u64 [OF tb(3)] by (simp add: unat_div_distrib target_def)
  then have "(kh_n (hist_of xs) * ucast pct + 99) div 100 = of_nat target" by (rule unsigned_word_eqI)
  then have val: "kv_hist_percentile (hist_of xs) pct = percentile_scan (kh_count (hist_of xs)) 0 0 (of_nat target)"
    using kn0 leD [OF assms(4)] by (simp add: kv_hist_percentile_def)
  obtain k where k: "k < KV_HIST_BUCKETS"
    "kv_hist_percentile (hist_of xs) pct = (if k + 1 < KV_HIST_BUCKETS then push_bit (k + 1) 1 else push_bit k 1)"
    "length (filter (\<lambda>x. hist_bucket x < k) xs) < target"
    "target \<le> length (filter (\<lambda>x. hist_bucket x \<le> k) xs)"
    using percentile_scan_hist [of 0 xs target] tb n64 unfolding val by auto
  have small: "hist_bucket x \<le> 30" if "x \<in> set xs" for x
    using hist_bucket_le_iff [of 30 x] that assms(5) by (simp add: KV_HIST_BUCKETS_def)
  have "k \<noteq> KV_HIST_BUCKETS - 1"
  proof
    assume "k = KV_HIST_BUCKETS - 1"
    then have "filter (\<lambda>x. hist_bucket x < k) xs = xs"
      using small by (fastforce simp: filter_id_conv KV_HIST_BUCKETS_def)
    with k(3) tb show False by simp
  qed
  with k(1) have k31: "k < KV_HIST_BUCKETS - 1" by simp
  then have v: "kv_hist_percentile (hist_of xs) pct = 2 ^ (k + 1)" and k': "k < 31"
    using k(2) by (simp_all add: KV_HIST_BUCKETS_def push_bit_eq_mult)
  note pw = unat_pow2
  have below: "x < 2 ^ (j + 1) \<longleftrightarrow> hist_bucket x \<le> j" if "j < 31" for x j
    using hist_bucket_le_iff [of j x] that pw [of "j + 1"]
    by (simp add: word_less_nat_alt KV_HIST_BUCKETS_def)
  have "?p * ?n \<le> 100 * length (filter (\<lambda>x. x < kv_hist_percentile (hist_of xs) pct) xs)"
    unfolding v below [OF k'] using ceil k(4) by (simp add: mult.commute)
  moreover have "100 * length (filter (\<lambda>x. x < kv_hist_percentile (hist_of xs) pct div 2) xs) < ?p * ?n"
    if "2 < kv_hist_percentile (hist_of xs) pct"
  proof -
    have "k \<noteq> 0" using that unfolding v by (cases k) simp_all
    then obtain j where j: "k = j + 1" by (metis Suc_eq_plus1 not0_implies_Suc)
    have "(2 ^ (k + 1) :: u64) div 2 = 2 ^ (j + 1)"
      using pow2_half [of k] k' by (simp add: j)
    moreover have "(\<lambda>x. hist_bucket x \<le> j) = (\<lambda>x. hist_bucket x < k)" using j by auto
    moreover have "j < 31" using j k' by simp
    ultimately show ?thesis unfolding v using below [of j] k(3) ceil by (simp add: mult.commute)
  qed
  ultimately show ?thesis by blast
qed

theorem kv_hist_percentile_bounds_witness:
  "unat (50 :: u32) * length [1, 2, 900, 4000 :: u64] \<le>
      100 * length (filter (\<lambda>x. x < kv_hist_percentile (hist_of [1, 2, 900, 4000]) 50) [1, 2, 900, 4000])"
  using kv_hist_percentile_bounds [of "[1, 2, 900, 4000]" 50] by simp

end
