(* ===== verification/KV_Io.thy ===== *)
theory KV_Io
  imports KV_Device
begin

text \<open>
  I/O contexts and the synchronous transport of \<open>src/io.hpp\<close> and \<open>src/io.cpp\<close>.  A context
  counts the transfers in flight and keeps the worst error; the last \<open>unref\<close> runs the callback,
  which here is a flag in the result.  The ring falls back to blocking transfers when
  \<open>io_uring\<close> is not available; that transport is modelled, the kernel's shared rings are not.
\<close>

section \<open>Contexts\<close>

record io_ctx =
  ic_inflight :: int
  ic_first_err :: int

definition io_ctx0 :: io_ctx where
  "io_ctx0 = \<lparr>ic_inflight = 0, ic_first_err = KV_EOK\<rparr>"

definition io_ref :: "io_ctx \<Rightarrow> io_ctx" where
  "io_ref x = x\<lparr>ic_inflight := ic_inflight x + 1\<rparr>"

text \<open>The flag says that the callback ran.\<close>

definition io_unref :: "io_ctx \<Rightarrow> bool \<times> io_ctx" where
  "io_unref x = (ic_inflight x = 1, x\<lparr>ic_inflight := ic_inflight x - 1\<rparr>)"

definition io_set_err :: "io_ctx \<Rightarrow> int \<Rightarrow> io_ctx" where
  "io_set_err x err =
    (if ic_first_err x = KV_EOK \<or> ic_first_err x > err then x\<lparr>ic_first_err := err\<rparr> else x)"

section \<open>The ring\<close>

definition kIoUring :: int where "kIoUring = 1"
definition kIoSync :: int where "kIoSync = 2"

record io_ring =
  ir_mode :: int
  ir_qd :: int

definition io_ring_init :: "bool \<Rightarrow> int \<Rightarrow> int \<times> io_ring" where
  "io_ring_init uring_ok qd_in =
    (let qd_in = (if qd_in < 8 then 8 else qd_in);
         qd_in = (if qd_in > 4096 then 4096 else qd_in)
     in (KV_EOK, \<lparr>ir_mode = (if uring_ok then kIoUring else kIoSync), ir_qd = qd_in\<rparr>))"

datatype io_op = IoRead | IoWrite

text \<open>One blocking transfer between a buffer and the device; the result has the buffer, the flag of
  \<open>io_unref\<close>, the context and the device.\<close>

definition sync_submit :: "io_op \<Rightarrow> device \<Rightarrow> nat \<Rightarrow> bytes \<Rightarrow> nat \<Rightarrow> io_ctx \<Rightarrow> bytes \<times> bool \<times> io_ctx \<times> device" where
  "sync_submit op d page_no buf npages x =
    (case (case op of
             IoWrite \<Rightarrow> (case write_pages d page_no buf npages of (rc, d) \<Rightarrow> (rc, buf, d))
           | IoRead \<Rightarrow> (case read_pages d page_no npages of ((rc, b), d) \<Rightarrow> (rc, overwrite buf 0 b, d))) of
       (rc, buf, d) \<Rightarrow>
         (let x = (if rc \<noteq> KV_EOK then io_set_err x rc else x);
              (fired, x) = io_unref x
          in (buf, fired, x, d)))"

end
