(* ===== verification/KV_Cache.thy ===== *)
theory KV_Cache
  imports KV_Side KV_Radix_Visit KV_Journal_Log KV_Region KV_Chunk KV_Cuckoo KV_Dram_Api KV_Mpsc
    KV_Hist KV_Io
begin

text \<open>
  The state of the cache (\<open>struct cache\<close> of \<open>src/cache.hpp\<close> with the writer's structs of
  \<open>src/writer.hpp\<close>) and its configuration; the operations are in the theories that follow.  Leaves live in a heap \<open>c_leaves\<close> whose entry is \<open>None\<close> once freed; a
  node's \<open>rn_leaf\<close> and the deferred-free list hold indices into it.  A leaf's stripe block is
  freed with its leaf.  Requests are owned by one queue or batch at a time and are values; put
  contexts are shared and live in the heap \<open>c_ctxs\<close>.  Allocation outcomes come from the script
  \<open>rt_mem\<close> of the tree.  The counters of the statistics are grouped in one record.  An operation
  whose result is an option returns \<open>None\<close> when the program aborts or a loop does not end.
  Every critical section is atomic; the clock is read once per operation.
\<close>

section \<open>Configuration\<close>

record kv_config =
  cf_n_groups_tokens :: u32
  cf_region_cnt :: u32
  cf_region_size_pages :: u64
  cf_epoch_secs :: u32
  cf_gc_high_water_pct :: u32
  cf_hot_hit_threshold :: u32
  cf_hot_decay_ms :: u32
  cf_sync_mode :: bool
  cf_journal_pages :: u32
  cf_stripe_threshold :: u64
  cf_metrics_level :: u8
  cf_gc_start_pct :: u32
  cf_gc_stop_pct :: u32
  cf_gc_step_gens :: u32
  cf_min_gen_age_secs :: u32
  cf_evict_tomb_cap :: u32
  cf_max_layers :: u32
  cf_batch_min_bytes :: u32
  cf_dram_cache_bytes :: u64
  cf_dram_entry_max_bytes :: u64
  cf_dram_alloc_backend :: u8
  cf_dram_cache_side :: u8
  cf_stripe_unit :: u64
  cf_region_align_bytes :: u64
  cf_abi_version :: u32

definition KV_CONFIG_ABI_VERSION :: u32 where
  "KV_CONFIG_ABI_VERSION = 2"

definition kv_config_default :: kv_config where
  "kv_config_default = \<lparr>cf_n_groups_tokens = of_nat KV_TOKENS_PER_GROUP, cf_region_cnt = 6,
    cf_region_size_pages = 0, cf_epoch_secs = 1800, cf_gc_high_water_pct = 10, cf_hot_hit_threshold = 64,
    cf_hot_decay_ms = 10000, cf_sync_mode = False, cf_journal_pages = 512,
    cf_stripe_threshold = of_nat KV_STRIPE_THRESHOLD, cf_metrics_level = 1, cf_gc_start_pct = 80,
    cf_gc_stop_pct = 70, cf_gc_step_gens = 1, cf_min_gen_age_secs = 0, cf_evict_tomb_cap = 65536,
    cf_max_layers = of_nat KV_MAX_LAYERS_CAP, cf_batch_min_bytes = of_nat KV_BATCH_MIN_BYTES,
    cf_dram_cache_bytes = KV_DRAM_DEFAULT_BYTES, cf_dram_entry_max_bytes = KV_DRAM_DEFAULT_ENTRY_MAX,
    cf_dram_alloc_backend = 0, cf_dram_cache_side = 0, cf_stripe_unit = 0, cf_region_align_bytes = 0,
    cf_abi_version = KV_CONFIG_ABI_VERSION\<rparr>"

record kv_layout =
  ly_page_size :: u32
  ly_alignment :: u32
  ly_stripe_unit :: u64
  ly_stripe_threshold :: u64
  ly_batch_min_bytes :: u64
  ly_region_align_bytes :: u64
  ly_dram_entry_max_bytes :: u64

definition kv_layout_derive :: "kv_config \<Rightarrow> kv_layout" where
  "kv_layout_derive cfg = \<lparr>ly_page_size = of_nat KV_PAGE_SIZE, ly_alignment = of_nat KV_PAGE_SIZE,
    ly_stripe_unit = (if cf_stripe_unit cfg \<noteq> 0 then cf_stripe_unit cfg else of_nat KV_STRIPE_UNIT),
    ly_stripe_threshold =
      (if cf_stripe_threshold cfg \<noteq> 0 then cf_stripe_threshold cfg else of_nat KV_STRIPE_THRESHOLD),
    ly_batch_min_bytes =
      (if cf_batch_min_bytes cfg \<noteq> 0 then ucast (cf_batch_min_bytes cfg) else of_nat KV_BATCH_MIN_BYTES),
    ly_region_align_bytes =
      (if cf_region_align_bytes cfg \<noteq> 0 then cf_region_align_bytes cfg else of_nat KV_PAGE_SIZE),
    ly_dram_entry_max_bytes =
      (if cf_dram_entry_max_bytes cfg \<noteq> 0 then cf_dram_entry_max_bytes cfg else KV_DRAM_DEFAULT_ENTRY_MAX)\<rparr>"

section \<open>State\<close>

record clock =
  ck_s :: u64
  ck_ms :: u64
  ck_ns :: u64

text \<open>The caller of a put; an acknowledgement names it.\<close>

record put_ctx =
  pc_refs :: int
  pc_err :: int
  pc_ack :: "nat option"
  pc_staging :: "bytes option"
  pc_t0_ns :: u64

text \<open>A request's records point into a buffer of the caller, which the writer reads when it lays
  out the batch, or into a buffer of its own.\<close>

datatype data_base = Caller nat | Own bytes

record put_ref =
  pr_base :: data_base
  pr_off :: u32
  pr_len :: u32

record put_req =
  rq_prefix_id :: u64
  rq_group_idx :: u32
  rq_n_tokens :: u32
  rq_n_tokens_total :: u32
  rq_expire_ts :: u32
  rq_ver :: u32
  rq_flags :: u16
  rq_stripe_idx :: u32
  rq_stripe_cnt :: u32
  rq_stripe_total :: u32
  rq_recs :: "put_ref list"
  rq_slice :: bytes
  rq_hashes :: "u64 list option"
  rq_ctx :: nat
  rq_mig_ver :: u32
  rq_gc_req :: bool
  rq_page_no :: u64
  rq_npages :: u32
  rq_crc :: u32
  rq_data_len :: u32
  rq_shape :: "nat option"
  rq_slot :: u32

definition put_req0 :: put_req where
  "put_req0 = \<lparr>rq_prefix_id = 0, rq_group_idx = 0, rq_n_tokens = 0, rq_n_tokens_total = 0,
    rq_expire_ts = 0, rq_ver = 0, rq_flags = 0, rq_stripe_idx = 0, rq_stripe_cnt = 0, rq_stripe_total = 0,
    rq_recs = [], rq_slice = [], rq_hashes = None, rq_ctx = 0, rq_mig_ver = 0, rq_gc_req = False,
    rq_page_no = 0, rq_npages = 0, rq_crc = 0, rq_data_len = 0, rq_shape = None, rq_slot = 0\<rparr>"

record batch_buf =
  bb_buf :: bytes
  bb_used :: u32
  bb_start_page :: u64
  bb_npages :: u32
  bb_reqs :: "put_req list"
  bb_ictx :: io_ctx
  bb_busy :: bool
  bb_last_page :: u64
  bb_region :: nat
  bb_submit_ns :: u64

record shard_writer =
  sw_region :: nat
  sw_next_page :: u64
  sw_q :: "put_req mpsc_ring"
  sw_batch :: "batch_buf list"
  sw_cur_buf :: nat
  sw_stop :: bool
  sw_started :: bool
  sw_since_wm :: u64
  sw_confirmed_page :: u64
  sw_stat_bytes_written :: u64
  sw_stat_stripe_parts :: u64
  sw_stat_q_max :: u64
  sw_h_batch :: kv_hist

record cache_stat =
  cs_put_reqs :: u64
  cs_get_hits :: u64
  cs_get_misses :: u64
  cs_batches :: u64
  cs_bytes_written :: u64
  cs_bytes_migrated :: u64
  cs_rotations :: u64
  cs_drops :: u64
  cs_puts_err :: u64
  cs_payload_bytes :: u64
  cs_puts_replica :: u64
  cs_gc_triggers :: u64
  cs_gc_evicted_leaves :: u64

record cache =
  c_cfg :: kv_config
  c_layout :: kv_layout
  c_n_devs :: nat
  c_devs :: "device list"
  c_rms :: "region_mgr list"
  c_journals :: "journal list"
  c_writers :: "shard_writer list"
  c_radix :: radix_tree
  c_side :: side_tbl
  c_shapes :: "kv_shape list"
  c_leaves :: "radix_leaf option list"
  c_dfree :: "nat list"
  c_ctxs :: "put_ctx option list"
  c_acks :: "(nat \<times> int) list"
  c_ver_counter :: u64
  c_stop :: bool
  c_gc_stop :: bool
  c_replaying :: bool
  c_ckpt_wanted :: bool
  c_last_decay_ms :: u64
  c_last_ttl_ms :: u64
  c_last_ckpt_ms :: u64
  c_stat :: cache_stat
  c_gc_draining :: bool
  c_tomb_keys :: "u64 list option"
  c_tomb_mask :: u32
  c_tomb_cf :: "kv_cuckoo option"
  c_dram :: "dram_cache option"
  c_m :: kv_metrics
  c_ckpt_file :: "bytes option"

end
