(* ===== verification/KV_Leaf.thy ===== *)
theory KV_Leaf
  imports KV_Cache
begin

text \<open>
  Tombstones, the shape pool, the deferred-free list, live-byte accounting, and publishing and
  dropping leaves (\<open>src/cache.cpp\<close>, lines 91 to 504).  A writer is named by its device, \<open>None\<close>
  standing for the null writer of recovery.
\<close>

section \<open>Tombstones\<close>

definition tomb_insert :: "cache \<Rightarrow> clock \<Rightarrow> u64 \<Rightarrow> cache" where
  "tomb_insert c clk prefix_id =
    (case c_tomb_cf c of
       Some cf \<Rightarrow>
         if prefix_id \<noteq> 0 then c\<lparr>c_tomb_cf := Some (snd (kv_cuckoo_insert (ck_ns clk) cf prefix_id))\<rparr> else c
     | None \<Rightarrow>
         (case c_tomb_keys c of
            None \<Rightarrow> c
          | Some keys \<Rightarrow>
              if prefix_id = 0 then c
              else
                let m = c_tomb_mask c;
                    j = ucast (hash_mix64 prefix_id AND ucast m) :: u32;
                    at = (\<lambda>k. unat ((j + of_nat k) AND m))
                in case find (\<lambda>k. keys ! at k = 0 \<or> keys ! at k = prefix_id) [0..<4] of
                     Some k \<Rightarrow> c\<lparr>c_tomb_keys := Some (keys[at k := prefix_id])\<rparr>
                   | None \<Rightarrow>
                       c\<lparr>c_tomb_keys := Some (keys[unat ((j + ucast (drop_bit 20 (ck_ns clk))) AND m) := prefix_id])\<rparr>))"

definition tomb_lookup :: "cache \<Rightarrow> u64 \<Rightarrow> bool" where
  "tomb_lookup c prefix_id =
    (case c_tomb_cf c of
       Some cf \<Rightarrow> if prefix_id \<noteq> 0 then kv_cuckoo_lookup cf prefix_id else False
     | None \<Rightarrow>
         (case c_tomb_keys c of
            None \<Rightarrow> False
          | Some keys \<Rightarrow>
              if prefix_id = 0 then False
              else
                let m = c_tomb_mask c;
                    j = ucast (hash_mix64 prefix_id AND ucast m) :: u32
                in \<exists>k \<in> set [0..<4]. keys ! unat ((j + of_nat k) AND m) = prefix_id))"

section \<open>Shapes\<close>

text \<open>\<open>ok\<close> is the outcome of \<open>malloc\<close>; the result is the index of the shape.\<close>

definition shape_pool_intern :: "bool \<Rightarrow> kv_shape list \<Rightarrow> u32 list \<Rightarrow> u16 \<Rightarrow> nat option \<times> kv_shape list" where
  "shape_pool_intern ok items lens n_recs =
    (case find (\<lambda>i. sh_n_recs (items ! i) = n_recs \<and>
            (n_recs = 0 \<or> take (unat n_recs) (sh_lens (items ! i)) = take (unat n_recs) lens)) [0..<length items] of
       Some i \<Rightarrow> (Some i, items)
     | None \<Rightarrow>
         if \<not> ok then (None, items)
         else (Some (length items),
           items @ [\<lparr>sh_id = of_nat (length items), sh_n_recs = n_recs, sh_lens = take (unat n_recs) lens\<rparr>]))"

definition shape_pool_destroy :: "kv_shape list \<Rightarrow> kv_shape list" where
  "shape_pool_destroy items = []"

section \<open>Leaves\<close>

definition leaf_at :: "cache \<Rightarrow> nat \<Rightarrow> radix_leaf" where
  "leaf_at c l = the (c_leaves c ! l)"

definition leaf_set :: "cache \<Rightarrow> nat \<Rightarrow> radix_leaf \<Rightarrow> cache" where
  "leaf_set c l lf = c\<lparr>c_leaves := (c_leaves c)[l := Some lf]\<rparr>"

definition leaf_free :: "cache \<Rightarrow> nat \<Rightarrow> cache" where
  "leaf_free c l = c\<lparr>c_leaves := (c_leaves c)[l := None]\<rparr>"

definition node_leaf :: "cache \<Rightarrow> nat \<Rightarrow> nat option" where
  "node_leaf c node = rn_leaf (rt_nodes (c_radix c) ! node)"

definition node_set_leaf :: "cache \<Rightarrow> nat \<Rightarrow> nat option \<Rightarrow> cache" where
  "node_set_leaf c node l =
    c\<lparr>c_radix := (c_radix c)\<lparr>rt_nodes := (rt_nodes (c_radix c))
        [node := (rt_nodes (c_radix c) ! node)\<lparr>rn_leaf := l\<rparr>]\<rparr>\<rparr>"

text \<open>An allocation: its outcome and the rest of the script.\<close>

definition c_alloc :: "cache \<Rightarrow> bool \<times> cache" where
  "c_alloc c = (case alloc (rt_mem (c_radix c)) of (ok, mem) \<Rightarrow>
    (ok, c\<lparr>c_radix := (c_radix c)\<lparr>rt_mem := mem\<rparr>\<rparr>))"

definition dfree_push :: "cache \<Rightarrow> nat \<Rightarrow> cache" where
  "dfree_push c l =
    (if lf_refcnt (leaf_at c l) = 0 then leaf_free c l else c\<lparr>c_dfree := c_dfree c @ [l]\<rparr>)"

definition dfree_reap :: "cache \<Rightarrow> cache" where
  "dfree_reap c =
    fold (\<lambda>l c. if lf_refcnt (leaf_at c l) = 0 then leaf_free c l else c\<lparr>c_dfree := c_dfree c @ [l]\<rparr>)
      (c_dfree c) (c\<lparr>c_dfree := []\<rparr>)"

definition dfree_destroy :: "cache \<Rightarrow> cache" where
  "dfree_destroy c =
    (let c = dfree_reap c in (fold (\<lambda>l c. leaf_free c l) (c_dfree c) c)\<lparr>c_dfree := []\<rparr>)"

section \<open>Live bytes\<close>

definition rm_live_upd :: "region_mgr \<Rightarrow> nat \<Rightarrow> (u64 \<Rightarrow> u64) \<Rightarrow> region_mgr" where
  "rm_live_upd rm i f =
    rm\<lparr>rm_rg := (rm_rg rm)[i := (rm_rg rm ! i)\<lparr>rs_live_bytes := f (rs_live_bytes (rm_rg rm ! i))\<rparr>]\<rparr>"

definition region_live_add :: "cache \<Rightarrow> u32 \<Rightarrow> u64 \<Rightarrow> u32 \<Rightarrow> cache" where
  "region_live_add c dev_id page_no len_pages =
    (let rm = c_rms c ! unat dev_id;
         idx = region_of_page rm page_no
     in if idx < 0 then c
        else c\<lparr>c_rms := (c_rms c)[unat dev_id :=
          rm_live_upd rm (nat idx) (\<lambda>x. x + ucast len_pages * of_nat KV_PAGE_SIZE)]\<rparr>)"

definition region_live_sub :: "cache \<Rightarrow> u32 \<Rightarrow> u64 \<Rightarrow> u32 \<Rightarrow> cache" where
  "region_live_sub c dev_id page_no len_pages =
    (let rm = c_rms c ! unat dev_id;
         idx = region_of_page rm page_no
     in if idx < 0 then c
        else c\<lparr>c_rms := (c_rms c)[unat dev_id :=
          rm_live_upd rm (nat idx) (\<lambda>x. x - ucast len_pages * of_nat KV_PAGE_SIZE)]\<rparr>)"

definition addr_sub_live :: "cache \<Rightarrow> kv_addr \<Rightarrow> cache" where
  "addr_sub_live c a =
    (if ka_dev_id a \<noteq> KV_INVALID_DEV then region_live_sub c (ka_dev_id a) (ka_page_no a) (ka_len_pages a) else c)"

definition leaf_sub_live :: "cache \<Rightarrow> radix_leaf \<Rightarrow> cache" where
  "leaf_sub_live c lf =
    (let c = addr_sub_live (addr_sub_live c (lf_addr0 lf)) (lf_addr1 lf)
     in case lf_stripe lf of
          None \<Rightarrow> c
        | Some s \<Rightarrow> fold (\<lambda>p c. region_live_sub c (sp_dev_id p) (sp_page_no p) (sp_len_pages p))
            (take (unat (sa_n_parts s)) (sa_parts s)) c)"

section \<open>Publishing\<close>

text \<open>An operation of the journal of device \<open>i\<close>, which writes to that device.\<close>

definition with_journal :: "cache \<Rightarrow> nat \<Rightarrow> (journal \<Rightarrow> int \<times> journal) \<Rightarrow> int \<times> cache" where
  "with_journal c i f =
    (case f ((c_journals c ! i)\<lparr>j_dev := c_devs c ! i\<rparr>) of (rc, j) \<Rightarrow>
       (rc, c\<lparr>c_journals := (c_journals c)[i := j], c_devs := (c_devs c)[i := j_dev j]\<rparr>))"

definition leaf_journal :: "cache \<Rightarrow> nat option \<Rightarrow> u64 \<Rightarrow> u32 \<Rightarrow> u32 \<Rightarrow> kv_addr \<Rightarrow> u32 \<Rightarrow> u32 \<Rightarrow> u32 \<Rightarrow> u32 \<Rightarrow>
    u32 \<Rightarrow> nat option \<Rightarrow> u64 list option \<Rightarrow> u32 \<Rightarrow> cache" where
  "leaf_journal c w prefix_id group_idx ver addr expire_ts stripe_idx stripe_cnt flags data_len shape path path_len =
    (case w of
       None \<Rightarrow> c
     | Some i \<Rightarrow>
         (let put = (\<lambda>flags lens n. with_journal c i (\<lambda>j. journal_put j prefix_id group_idx ver (Some addr)
                expire_ts stripe_idx stripe_cnt flags lens n data_len path path_len))
          in case (case shape of
                     Some s \<Rightarrow>
                       if sh_n_recs (c_shapes c ! s) \<noteq> 0 then
                         let lens = sh_lens (c_shapes c ! s);
                             n = sh_n_recs (c_shapes c ! s)
                         in if \<forall>k \<in> set [1..<unat n]. lens ! k = lens ! 0
                            then put (flags OR KV_JFLAG_UNIFORM) (Some [lens ! 0]) n
                            else put flags (Some lens) n
                       else put flags None 0
                   | None \<Rightarrow> put flags None 0) of
               (rc, c) \<Rightarrow> if rc = - KV_EFULL then c\<lparr>c_ckpt_wanted := True\<rparr> else c))"

definition cache_dram_invalidate :: "cache \<Rightarrow> u64 \<Rightarrow> u32 \<Rightarrow> cache option" where
  "cache_dram_invalidate c prefix_id group_idx =
    (case c_dram c of
       None \<Rightarrow> Some c
     | Some d \<Rightarrow> map_option (\<lambda>d. c\<lparr>c_dram := Some d\<rparr>) (dram_invalidate d prefix_id group_idx))"

definition n_leaves_add :: "cache \<Rightarrow> u32 \<Rightarrow> cache" where
  "n_leaves_add c k = c\<lparr>c_radix := (c_radix c)\<lparr>rt_n_leaves := rt_n_leaves (c_radix c) + k\<rparr>\<rparr>"

text \<open>The leaf a publication replaces is taken out of the accounts and freed or deferred.\<close>

definition leaf_retire :: "cache \<Rightarrow> nat option \<Rightarrow> cache" where
  "leaf_retire c old =
    (case old of None \<Rightarrow> c | Some l \<Rightarrow> dfree_push (leaf_sub_live c (leaf_at c l)) l)"

text \<open>A part of a stripe that the leaf already has.\<close>

definition leaf_update_part :: "cache \<Rightarrow> nat \<Rightarrow> kv_addr \<Rightarrow> u32 \<Rightarrow> nat option \<Rightarrow> cache" where
  "leaf_update_part c l addr stripe_idx shape =
    (let lf = leaf_at c l;
         s = the (lf_stripe lf);
         p = sa_parts s ! unat stripe_idx;
         c = (if sp_dev_id p \<noteq> KV_INVALID_DEV
              then region_live_sub c (sp_dev_id p) (sp_page_no p) (sp_len_pages p) else c);
         p' = \<lparr>sp_dev_id = ka_dev_id addr, sp_page_no = ka_page_no addr, sp_len_pages = ka_len_pages addr\<rparr>;
         lf = lf\<lparr>lf_stripe := Some (s\<lparr>sa_parts := (sa_parts s)[unat stripe_idx := p']\<rparr>),
                 lf_addr0 := (lf_addr0 lf)\<lparr>ka_crc := ka_crc addr\<rparr>,
                 lf_shape := (if lf_shape lf = None then shape else lf_shape lf)\<rparr>
     in region_live_add (leaf_set c l lf) (ka_dev_id addr) (ka_page_no addr) (ka_len_pages addr))"

text \<open>A replica slot of the leaf.\<close>

definition leaf_update_slot :: "cache \<Rightarrow> nat \<Rightarrow> kv_addr \<Rightarrow> u32 \<Rightarrow> nat option \<Rightarrow> cache" where
  "leaf_update_slot c l addr slot shape =
    (let lf = leaf_at c l;
         c = addr_sub_live c (if slot = 0 then lf_addr0 lf else lf_addr1 lf);
         lf = (if slot = 0 then lf\<lparr>lf_addr0 := addr\<rparr> else lf\<lparr>lf_addr1 := addr\<rparr>);
         lf = lf\<lparr>lf_shape := (if lf_shape lf = None then shape else lf_shape lf)\<rparr>
     in region_live_add (leaf_set c l lf) (ka_dev_id addr) (ka_page_no addr) (ka_len_pages addr))"

text \<open>A new leaf in place of \<open>old\<close>.  A publication is \<open>None\<close> when the program aborts for lack of
  memory or the part number lies outside the stripe's parts.\<close>

definition leaf_install :: "cache \<Rightarrow> nat \<Rightarrow> nat option \<Rightarrow> radix_leaf \<Rightarrow> kv_addr \<Rightarrow> cache" where
  "leaf_install c node old lf addr =
    (let l = length (c_leaves c);
         c = node_set_leaf (c\<lparr>c_leaves := c_leaves c @ [Some lf]\<rparr>) node (Some l);
         c = (if old = None then n_leaves_add c 1 else c)
     in region_live_add c (ka_dev_id addr) (ka_page_no addr) (ka_len_pages addr))"

definition stripe_part_none :: kv_stripe_part where
  "stripe_part_none = \<lparr>sp_dev_id = KV_INVALID_DEV, sp_page_no = 0, sp_len_pages = 0\<rparr>"

definition leaf_new_stripe :: "u64 \<Rightarrow> u32 \<Rightarrow> kv_addr \<Rightarrow> u32 \<Rightarrow> u32 \<Rightarrow> u32 \<Rightarrow> nat option \<Rightarrow> radix_leaf" where
  "leaf_new_stripe prefix_id ver addr stripe_idx stripe_cnt stripe_total shape =
    radix_leaf0\<lparr>lf_ver := ver, lf_prefix_id := prefix_id, lf_shape := shape,
      lf_stripe := Some \<lparr>sa_n_parts = stripe_cnt, sa_total_len = stripe_total,
        sa_parts = (replicate (unat stripe_cnt) stripe_part_none)
          [unat stripe_idx := \<lparr>sp_dev_id = ka_dev_id addr, sp_page_no = ka_page_no addr,
             sp_len_pages = ka_len_pages addr\<rparr>]\<rparr>,
      lf_addr0 := kv_addr0\<lparr>ka_crc := ka_crc addr\<rparr>\<rparr>"

definition leaf_new :: "u64 \<Rightarrow> u32 \<Rightarrow> kv_addr \<Rightarrow> u32 \<Rightarrow> nat option \<Rightarrow> radix_leaf" where
  "leaf_new prefix_id ver addr slot shape =
    (let lf = radix_leaf0\<lparr>lf_ver := ver, lf_prefix_id := prefix_id, lf_shape := shape,
           lf_addr0 := kv_addr0\<lparr>ka_dev_id := KV_INVALID_DEV\<rparr>,
           lf_addr1 := kv_addr0\<lparr>ka_dev_id := KV_INVALID_DEV\<rparr>\<rparr>
     in if slot = 1 then lf\<lparr>lf_addr1 := addr\<rparr> else lf\<lparr>lf_addr0 := addr\<rparr>)"

definition leaf_publish :: "cache \<Rightarrow> nat option \<Rightarrow> nat \<Rightarrow> u64 \<Rightarrow> u32 \<Rightarrow> u32 \<Rightarrow> kv_addr \<Rightarrow> u32 \<Rightarrow> u32 \<Rightarrow> u32 \<Rightarrow>
    u32 \<Rightarrow> u32 \<Rightarrow> u32 \<Rightarrow> nat option \<Rightarrow> u64 list option \<Rightarrow> u32 \<Rightarrow> cache option" where
  "leaf_publish c w node prefix_id group_idx ver addr slot flags stripe_idx stripe_cnt stripe_total
      data_len shape path path_len =
    (let old = node_leaf c node;
         old_ver = (\<lambda>l. lf_ver (leaf_at c l));
         jflags = flags OR (if slot = 1 then KV_JFLAG_SLOT1 else 0);
         expire_ts = ka_expire_ts addr;
         striped = (flags AND KV_CHUNK_F_STRIPE \<noteq> 0);
         log = (\<lambda>c. leaf_journal c w prefix_id group_idx ver addr expire_ts
                  (if striped then stripe_idx else 0) (if striped then stripe_cnt else 0)
                  jflags data_len shape path path_len)
     in if (case old of None \<Rightarrow> False | Some l \<Rightarrow> old_ver l > ver) then Some c
        else if striped \<and> (case old of None \<Rightarrow> False | Some l \<Rightarrow> old_ver l = ver \<and> lf_stripe (leaf_at c l) \<noteq> None)
        then (if stripe_idx < sa_n_parts (the (lf_stripe (leaf_at c (the old))))
              then Some (log (leaf_update_part c (the old) addr stripe_idx shape)) else None)
        else if \<not> striped \<and> (case old of None \<Rightarrow> False | Some l \<Rightarrow> old_ver l = ver)
        then (if slot < of_nat KV_REPLICA_CNT then Some (log (leaf_update_slot c (the old) addr slot shape)) else Some c)
        else
          case cache_dram_invalidate (leaf_retire c old) prefix_id group_idx of
            None \<Rightarrow> None
          | Some c \<Rightarrow>
              (case c_alloc c of (ok, c) \<Rightarrow>
                 if \<not> ok then None
                 else case (if striped then c_alloc c else (True, c)) of (ok, c) \<Rightarrow>
                   if \<not> ok \<or> striped \<and> \<not> stripe_idx < stripe_cnt then None
                   else Some (log (leaf_install c node old
                     (if striped then leaf_new_stripe prefix_id ver addr stripe_idx stripe_cnt stripe_total shape
                      else leaf_new prefix_id ver addr slot shape) addr))))"

section \<open>Dropping\<close>

definition node_group :: "cache \<Rightarrow> nat \<Rightarrow> u32" where
  "node_group c node =
    (let depth = rn_depth (rt_nodes (c_radix c) ! node) in if depth \<noteq> 0 then depth - 1 else 0)"

definition leaf_drop :: "cache \<Rightarrow> nat \<Rightarrow> cache option" where
  "leaf_drop c node =
    (case node_leaf c node of
       None \<Rightarrow> Some c
     | Some l \<Rightarrow>
         (let lf = leaf_at c l
          in case cache_dram_invalidate c (lf_prefix_id lf) (node_group c node) of
               None \<Rightarrow> None
             | Some c \<Rightarrow>
                 (let c = leaf_sub_live c lf;
                      j = (if ka_dev_id (lf_addr0 lf) = KV_INVALID_DEV then 0 else unat (ka_dev_id (lf_addr0 lf)));
                      c = (if c_replaying c then c
                           else snd (with_journal c j (\<lambda>jr. journal_del jr (lf_prefix_id lf) (node_group c node))))
                  in Some (n_leaves_add (node_set_leaf (dfree_push c l) node None) (-1)))))"

section \<open>Regions\<close>

definition rm_set_sh :: "cache \<Rightarrow> nat \<Rightarrow> nat \<Rightarrow> (region_sh \<Rightarrow> region_sh) \<Rightarrow> cache" where
  "rm_set_sh c dev i f =
    (let rm = c_rms c ! dev
     in c\<lparr>c_rms := (c_rms c)[dev := rm\<lparr>rm_rg := (rm_rg rm)[i := f (rm_rg rm ! i)]\<rparr>]\<rparr>)"

definition cache_write_header :: "cache \<Rightarrow> nat \<Rightarrow> nat \<Rightarrow> int \<times> cache" where
  "cache_write_header c dev i =
    (case write_header (c_rms c ! dev) (c_devs c ! dev) i of (rc, d) \<Rightarrow> (rc, c\<lparr>c_devs := (c_devs c)[dev := d]\<rparr>))"

definition trim_region :: "cache \<Rightarrow> nat \<Rightarrow> nat \<Rightarrow> cache" where
  "trim_region c dev idx =
    (let rm = c_rms c ! dev;
         c = c\<lparr>c_devs := (c_devs c)[dev := snd (dev_trim (c_devs c ! dev) (trunc64 (page_base rm idx + 1))
               (unat (ucast (rm_region_size_pages rm - 1) :: u32)))]\<rparr>;
         c = rm_set_sh c dev idx (\<lambda>sh. sh\<lparr>rs_state := KV_RG_FREE, rs_live_bytes := 0, rs_epoch := 0,
               rs_close_ts := 0, rs_watermark_page := 1\<rparr>)
     in snd (cache_write_header c dev idx))"

text \<open>Whether one of the leaf's extents starts in the pages \<open>base\<close> to \<open>end\<close> of a device.\<close>

definition addr_in :: "nat \<Rightarrow> nat \<Rightarrow> nat \<Rightarrow> u32 \<Rightarrow> u64 \<Rightarrow> bool" where
  "addr_in dev base stop dev_id page_no \<longleftrightarrow> dev_id = of_nat dev \<and> base \<le> unat page_no \<and> unat page_no < stop"

definition leaf_in_pages :: "nat \<Rightarrow> nat \<Rightarrow> nat \<Rightarrow> radix_leaf \<Rightarrow> bool" where
  "leaf_in_pages dev base stop lf \<longleftrightarrow>
    addr_in dev base stop (ka_dev_id (lf_addr0 lf)) (ka_page_no (lf_addr0 lf)) \<or>
    addr_in dev base stop (ka_dev_id (lf_addr1 lf)) (ka_page_no (lf_addr1 lf)) \<or>
    (case lf_stripe lf of
       None \<Rightarrow> False
     | Some s \<Rightarrow> \<exists>p \<in> set (take (unat (sa_n_parts s)) (sa_parts s)). addr_in dev base stop (sp_dev_id p) (sp_page_no p))"

abbreviation upd_stat :: "(cache_stat \<Rightarrow> cache_stat) \<Rightarrow> cache \<Rightarrow> cache" where
  "upd_stat f c \<equiv> c\<lparr>c_stat := f (c_stat c)\<rparr>"

text \<open>One slot of the scan.\<close>

definition drop_region_slot :: "clock \<Rightarrow> nat \<Rightarrow> nat \<Rightarrow> nat \<Rightarrow> side_slot \<Rightarrow> cache \<Rightarrow> cache option" where
  "drop_region_slot clk dev base stop s c =
    (case (if ss_used s = 0 then None else ss_node s) of
       None \<Rightarrow> Some c
     | Some node \<Rightarrow>
         (case node_leaf c node of
            None \<Rightarrow> Some c
          | Some l \<Rightarrow>
              if leaf_in_pages dev base stop (leaf_at c l) \<and> lf_refcnt (leaf_at c l) = 0 then
                map_option (\<lambda>c.
                    upd_stat (\<lambda>s. s\<lparr>cs_gc_evicted_leaves := cs_gc_evicted_leaves s + 1\<rparr>)
                      (if ss_prefix_id s \<le> 100 then tomb_insert c clk (ss_prefix_id s) else c))
                  (leaf_drop c node)
              else Some c))"

definition fold_opt :: "('a \<Rightarrow> 'b \<Rightarrow> 'b option) \<Rightarrow> 'a list \<Rightarrow> 'b \<Rightarrow> 'b option" where
  "fold_opt f xs b = fold (\<lambda>x acc. Option.bind acc (f x)) xs (Some b)"

definition cache_drop_region :: "clock \<Rightarrow> cache \<Rightarrow> nat \<Rightarrow> nat \<Rightarrow> cache option" where
  "cache_drop_region clk c dev region_idx =
    (let rm = c_rms c ! dev;
         base = page_base rm region_idx;
         stop = trunc64 (base + unat (rm_region_size_pages rm))
     in map_option (upd_stat (\<lambda>s. s\<lparr>cs_drops := cs_drops s + 1\<rparr>))
          (fold_opt (drop_region_slot clk dev base stop) (take (unat (st_cap (c_side c))) (st_slots (c_side c))) c))"

definition leaf_add_live :: "cache \<Rightarrow> radix_leaf \<Rightarrow> cache" where
  "leaf_add_live c lf =
    (let add = (\<lambda>a c. if ka_dev_id a \<noteq> KV_INVALID_DEV
           then region_live_add c (ka_dev_id a) (ka_page_no a) (ka_len_pages a) else c);
         c = add (lf_addr1 lf) (add (lf_addr0 lf) c)
     in case lf_stripe lf of
          None \<Rightarrow> c
        | Some s \<Rightarrow> fold (\<lambda>p c. region_live_add c (sp_dev_id p) (sp_page_no p) (sp_len_pages p))
            (take (unat (sa_n_parts s)) (sa_parts s)) c)"

definition cache_recompute_live :: "cache \<Rightarrow> cache option" where
  "cache_recompute_live c =
    (let c = fold (\<lambda>d x. fold (\<lambda>i x. rm_set_sh x d i (\<lambda>sh. sh\<lparr>rs_live_bytes := 0\<rparr>))
           [0..<unat (cf_region_cnt (c_cfg c))] x) [0..<c_n_devs c] c
     in map_option snd (radix_visit_leaves (c_radix c) (\<lambda>l c. (0, leaf_add_live c (leaf_at c l))) c))"

end
