(* ===== verification/KV_Ckpt.thy ===== *)
theory KV_Ckpt
  imports KV_Leaf
begin

text \<open>
  Checkpoints (\<open>src/journal.cpp\<close>, lines 221 to 642): the tree with its leaves and the shape pool
  written to a file in depth-first order, and read back with a stack of the nodes on the current
  path.  The outcomes of the standard I/O calls are a script; an exhausted script means success.
  The file becomes visible by the final rename, so a failed checkpoint leaves the old file.  A
  result \<open>None\<close> of the loader stands for an access outside its 128-entry stack or through a null
  pointer.  The caller passes no callback to the loader.
\<close>

section \<open>Records\<close>

record ckpt_hdr =
  kh_magic :: u32
  kh_version :: u32
  kh_n_devs :: u32
  kh_region_cnt :: u32
  kh_region_size_pages :: u64
  kh_n_recs :: u64
  kh_ver_counter :: u64
  kh_crc32 :: u32
  kh_pad :: u32

definition CKPT_REC_INTERNAL :: u8 where "CKPT_REC_INTERNAL = 1"
definition CKPT_REC_LEAF :: u8 where "CKPT_REC_LEAF = 2"
definition CKPT_REC_LEAF_STRIPE :: u8 where "CKPT_REC_LEAF_STRIPE = 3"
definition KV_SHAPE_NONE :: u32 where "KV_SHAPE_NONE = 0xFFFFFFFF"

record ckpt_node_rec =
  kr_type :: u8
  kr_depth :: u32
  kr_child_hash :: u64
  kr_prefix_id :: u64
  kr_group_idx :: u32
  kr_ver :: u32
  kr_expire_ts :: u32
  kr_last_write_ts :: u64
  kr_addr0 :: kv_addr
  kr_addr1 :: kv_addr
  kr_n_parts :: u32
  kr_total_len :: u32
  kr_shape_id :: u32
  kr_crc32 :: u32

definition ckpt_rec0 :: ckpt_node_rec where
  "ckpt_rec0 = \<lparr>kr_type = 0, kr_depth = 0, kr_child_hash = 0, kr_prefix_id = 0, kr_group_idx = 0, kr_ver = 0,
    kr_expire_ts = 0, kr_last_write_ts = 0, kr_addr0 = kv_addr0, kr_addr1 = kv_addr0, kr_n_parts = 0,
    kr_total_len = 0, kr_shape_id = 0, kr_crc32 = 0\<rparr>"

definition enc_ckpt_hdr :: "ckpt_hdr \<Rightarrow> bytes" where
  "enc_ckpt_hdr h = put_le32 (kh_magic h) @ put_le32 (kh_version h) @ put_le32 (kh_n_devs h) @
    put_le32 (kh_region_cnt h) @ put_le64 (kh_region_size_pages h) @ put_le64 (kh_n_recs h) @
    put_le64 (kh_ver_counter h) @ put_le32 (kh_crc32 h) @ put_le32 (kh_pad h)"

definition dec_ckpt_hdr :: "bytes \<Rightarrow> ckpt_hdr" where
  "dec_ckpt_hdr b = \<lparr>kh_magic = le32 b, kh_version = le32 (drop 4 b), kh_n_devs = le32 (drop 8 b),
    kh_region_cnt = le32 (drop 12 b), kh_region_size_pages = le64 (drop 16 b), kh_n_recs = le64 (drop 24 b),
    kh_ver_counter = le64 (drop 32 b), kh_crc32 = le32 (drop 40 b), kh_pad = le32 (drop 44 b)\<rparr>"

text \<open>The three bytes after the type are padding, written as zeros.\<close>

definition enc_ckpt_rec :: "ckpt_node_rec \<Rightarrow> bytes" where
  "enc_ckpt_rec r = [kr_type r, 0, 0, 0] @ put_le32 (kr_depth r) @ put_le64 (kr_child_hash r) @
    put_le64 (kr_prefix_id r) @ put_le32 (kr_group_idx r) @ put_le32 (kr_ver r) @ put_le32 (kr_expire_ts r) @
    put_le64 (kr_last_write_ts r) @ enc_kv_addr (kr_addr0 r) @ enc_kv_addr (kr_addr1 r) @
    put_le32 (kr_n_parts r) @ put_le32 (kr_total_len r) @ put_le32 (kr_shape_id r) @ put_le32 (kr_crc32 r)"

definition dec_ckpt_rec :: "bytes \<Rightarrow> ckpt_node_rec" where
  "dec_ckpt_rec b = \<lparr>kr_type = b ! 0, kr_depth = le32 (drop 4 b), kr_child_hash = le64 (drop 8 b),
    kr_prefix_id = le64 (drop 16 b), kr_group_idx = le32 (drop 24 b), kr_ver = le32 (drop 28 b),
    kr_expire_ts = le32 (drop 32 b), kr_last_write_ts = le64 (drop 36 b), kr_addr0 = dec_kv_addr (drop 44 b),
    kr_addr1 = dec_kv_addr (drop 80 b), kr_n_parts = le32 (drop 116 b), kr_total_len = le32 (drop 120 b),
    kr_shape_id = le32 (drop 124 b), kr_crc32 = le32 (drop 128 b)\<rparr>"

text \<open>The header's checksum leaves out the magic, itself and the shape count; a record's leaves out
  the type and itself.\<close>

definition ckpt_hdr_crc :: "bytes \<Rightarrow> u32" where
  "ckpt_hdr_crc b = crc32 (bslice 4 (48 - 4 - 8) b)"

definition ckpt_rec_crc :: "bytes \<Rightarrow> u32" where
  "ckpt_rec_crc b = crc32 (bslice 4 (132 - 4 - 4) b)"

definition ckpt_rec_seal :: "ckpt_node_rec \<Rightarrow> ckpt_node_rec" where
  "ckpt_rec_seal r = r\<lparr>kr_crc32 := ckpt_rec_crc (enc_ckpt_rec (r\<lparr>kr_crc32 := 0\<rparr>))\<rparr>"

section \<open>Writing\<close>

record ck_out =
  ko_buf :: bytes
  ko_count :: u64
  ko_os :: "bool list"

definition ck_fwrite :: "ck_out \<Rightarrow> bytes \<Rightarrow> bool \<times> ck_out" where
  "ck_fwrite s b = (case alloc (ko_os s) of (ok, os) \<Rightarrow>
    (ok, if ok then s\<lparr>ko_buf := ko_buf s @ b, ko_os := os\<rparr> else s\<lparr>ko_os := os\<rparr>))"

definition ckpt_internal_rec :: "radix_node \<Rightarrow> u64 \<Rightarrow> ckpt_node_rec" where
  "ckpt_internal_rec n child_hash =
    ckpt_rec_seal (ckpt_rec0\<lparr>kr_type := CKPT_REC_INTERNAL, kr_depth := rn_depth n, kr_child_hash := child_hash\<rparr>)"

definition ckpt_leaf_rec :: "kv_shape list \<Rightarrow> radix_node \<Rightarrow> u64 \<Rightarrow> radix_leaf \<Rightarrow> ckpt_node_rec" where
  "ckpt_leaf_rec shapes n child_hash lf =
    ckpt_rec_seal (ckpt_rec0\<lparr>
      kr_type := (case lf_stripe lf of None \<Rightarrow> CKPT_REC_LEAF | Some _ \<Rightarrow> CKPT_REC_LEAF_STRIPE),
      kr_n_parts := (case lf_stripe lf of None \<Rightarrow> 0 | Some s \<Rightarrow> sa_n_parts s),
      kr_total_len := (case lf_stripe lf of None \<Rightarrow> 0 | Some s \<Rightarrow> sa_total_len s),
      kr_depth := rn_depth n, kr_child_hash := child_hash, kr_prefix_id := lf_prefix_id lf,
      kr_group_idx := (if rn_depth n \<noteq> 0 then rn_depth n - 1 else 0), kr_ver := lf_ver lf,
      kr_expire_ts := ka_expire_ts (lf_addr0 lf), kr_last_write_ts := ka_last_write_ts (lf_addr0 lf),
      kr_shape_id := (case lf_shape lf of None \<Rightarrow> KV_SHAPE_NONE | Some i \<Rightarrow> sh_id (shapes ! i)),
      kr_addr0 := lf_addr0 lf, kr_addr1 := lf_addr1 lf\<rparr>)"

definition ckpt_write_leaf :: "kv_shape list \<Rightarrow> radix_node \<Rightarrow> u64 \<Rightarrow> radix_leaf \<Rightarrow> ck_out \<Rightarrow> int \<times> ck_out" where
  "ckpt_write_leaf shapes n child_hash lf s =
    (case ck_fwrite s (enc_ckpt_rec (ckpt_leaf_rec shapes n child_hash lf)) of (ok, s) \<Rightarrow>
       if \<not> ok then (- KV_EIO, s)
       else
         (let s = s\<lparr>ko_count := ko_count s + 1\<rparr>
          in case lf_stripe lf of
               None \<Rightarrow> (KV_EOK, s)
             | Some st \<Rightarrow>
                 if sa_n_parts st = 0 then (KV_EOK, s)
                 else case ck_fwrite s (enc_arr enc_stripe_part (take (unat (sa_n_parts st)) (sa_parts st))) of
                        (ok, s) \<Rightarrow> (if ok then KV_EOK else - KV_EIO, s)))"

text \<open>The loop over the live edges of a node, stopping at the first error.\<close>

fun ckpt_scan :: "(nat \<Rightarrow> u64 \<Rightarrow> ck_out \<Rightarrow> (int \<times> ck_out) option) \<Rightarrow> radix_edge list \<Rightarrow> ck_out \<Rightarrow> (int \<times> ck_out) option" where
  "ckpt_scan f [] s = Some (KV_EOK, s)"
| "ckpt_scan f (e # es) s =
    (if edge_live e
     then case f (the (re_child e)) (re_child_hash e) s of
            None \<Rightarrow> None
          | Some (rc, s) \<Rightarrow> if rc \<noteq> KV_EOK then Some (- KV_EIO, s) else ckpt_scan f es s
     else ckpt_scan f es s)"

primrec ckpt_write_rec :: "nat \<Rightarrow> radix_node list \<Rightarrow> radix_leaf option list \<Rightarrow> kv_shape list \<Rightarrow> nat \<Rightarrow> u64 \<Rightarrow> ck_out \<Rightarrow>
    (int \<times> ck_out) option" where
  "ckpt_write_rec 0 ns leaves shapes i child_hash s = None"
| "ckpt_write_rec (Suc fuel) ns leaves shapes i child_hash s =
    (case ck_fwrite s (enc_ckpt_rec (ckpt_internal_rec (ns ! i) child_hash)) of (ok, s) \<Rightarrow>
       if \<not> ok then Some (- KV_EIO, s)
       else
         (let s = s\<lparr>ko_count := ko_count s + 1\<rparr>
          in case (case rn_leaf (ns ! i) of
                     None \<Rightarrow> (KV_EOK, s)
                   | Some l \<Rightarrow> ckpt_write_leaf shapes (ns ! i) child_hash (the (leaves ! l)) s) of
               (rc, s) \<Rightarrow>
                 if rc \<noteq> KV_EOK then Some (- KV_EIO, s)
                 else ckpt_scan (ckpt_write_rec fuel ns leaves shapes) (node_edges (ns ! i)) s))"

fun ckpt_write_shapes :: "kv_shape list \<Rightarrow> ck_out \<Rightarrow> bool \<times> ck_out" where
  "ckpt_write_shapes [] s = (True, s)"
| "ckpt_write_shapes (sh # shs) s =
    (case ck_fwrite s (put_le32 (ucast (sh_n_recs sh))) of (ok, s) \<Rightarrow>
       if \<not> ok then (False, s)
       else if sh_n_recs sh = 0 then ckpt_write_shapes shs s
       else case ck_fwrite s (enc_arr put_le32 (take (unat (sh_n_recs sh)) (sh_lens sh))) of (ok, s) \<Rightarrow>
         if \<not> ok then (False, s) else ckpt_write_shapes shs s)"

definition ckpt_hdr_init :: "u64 \<Rightarrow> u32 \<Rightarrow> u32 \<Rightarrow> u64 \<Rightarrow> nat \<Rightarrow> ckpt_hdr" where
  "ckpt_hdr_init ver_counter n_devs region_cnt region_size_pages n_shapes =
    \<lparr>kh_magic = KV_CP_MAGIC, kh_version = 2, kh_n_devs = n_devs, kh_region_cnt = region_cnt,
     kh_region_size_pages = region_size_pages, kh_n_recs = 0, kh_ver_counter = ver_counter, kh_crc32 = 0,
     kh_pad = of_nat n_shapes\<rparr>"

text \<open>The result has the return code and the checkpoint file afterwards.  The last six calls, of
  which each ends the function on failure, are the seek, the header, the flush, the sync, the close and the
  rename.\<close>

definition ckpt_write :: "bool list \<Rightarrow> radix_tree \<Rightarrow> radix_leaf option list \<Rightarrow> u64 \<Rightarrow> u32 \<Rightarrow> u32 \<Rightarrow> u64 \<Rightarrow>
    kv_shape list \<Rightarrow> bytes option \<Rightarrow> (int \<times> bytes option) option" where
  "ckpt_write os t leaves ver_counter n_devs region_cnt region_size_pages shapes file =
    (case alloc os of (ok, os) \<Rightarrow>
       if \<not> ok then Some (- KV_EIO, file)
       else
         (let hdr = ckpt_hdr_init ver_counter n_devs region_cnt region_size_pages (length shapes)
          in case ck_fwrite \<lparr>ko_buf = [], ko_count = 0, ko_os = os\<rparr> (enc_ckpt_hdr hdr) of (ok, s) \<Rightarrow>
               if \<not> ok then Some (- KV_EIO, file)
               else case ckpt_write_shapes shapes s of (ok, s) \<Rightarrow>
                 if \<not> ok then Some (- KV_EIO, file)
                 else case ckpt_scan (ckpt_write_rec (length (rt_nodes t)) (rt_nodes t) leaves shapes)
                             (node_edges (rt_nodes t ! rt_root t)) s of
                        None \<Rightarrow> None
                      | Some (rc, s) \<Rightarrow>
                          if rc \<noteq> KV_EOK then Some (- KV_EIO, file)
                          else
                            (let hdr = hdr\<lparr>kh_n_recs := ko_count s\<rparr>;
                                 hdr = hdr\<lparr>kh_crc32 := ckpt_hdr_crc (enc_ckpt_hdr hdr)\<rparr>
                             in if False \<in> set (take 6 (ko_os s)) then Some (- KV_EIO, file)
                                else Some (KV_EOK, Some (overwrite (ko_buf s) 0 (enc_ckpt_hdr hdr))))))"

section \<open>Reading\<close>

text \<open>Adding an edge: the loader's own copy of \<open>edge_add\<close>.\<close>

fun ckpt_fill :: "radix_edge list \<Rightarrow> radix_edge list \<Rightarrow> u32 \<Rightarrow> (radix_edge list \<times> u32) option" where
  "ckpt_fill [] slots used = Some (slots, used)"
| "ckpt_fill (e # es) slots used =
    (if re_child_hash e = 0 then ckpt_fill es slots used
     else case ovf_probe (\<lambda>e. re_child_hash e = 0) slots 16 (re_child_hash e) of
            None \<Rightarrow> None
          | Some j \<Rightarrow> ckpt_fill es (slots[j := e]) (used + 1))"

definition ckpt_edge_add :: "radix_node \<Rightarrow> u64 \<Rightarrow> nat option \<Rightarrow> bool list \<Rightarrow> (int \<times> radix_node \<times> bool list) option" where
  "ckpt_edge_add n h child mem =
    (let e = \<lparr>re_child_hash = h, re_child = child, re_flags = 0\<rparr>
     in if rn_ovf_flag n = 0 then
          (case edge_free_slot (rn_slots n) of
             Some k \<Rightarrow> Some (KV_EOK, n\<lparr>rn_slots := (rn_slots n)[k := e], rn_n_edges := rn_n_edges n + 1\<rparr>, mem)
           | None \<Rightarrow>
               (case alloc mem of (ok1, mem) \<Rightarrow>
                  if \<not> ok1 then None
                  else case alloc mem of (ok2, mem) \<Rightarrow>
                    if \<not> ok2 then Some (- KV_ENOMEM, n\<lparr>rn_ovf := Some (radix_ovf0\<lparr>ro_cap := 16\<rparr>)\<rparr>, mem)
                    else case ckpt_fill (rn_slots n) (replicate 16 radix_edge0) 0 of
                           None \<Rightarrow> None
                         | Some (slots, used) \<Rightarrow>
                             (case ovf_probe (\<lambda>e. re_child_hash e = 0) slots 16 h of
                                None \<Rightarrow> None
                              | Some j \<Rightarrow>
                                  Some (KV_EOK,
                                    n\<lparr>rn_ovf := Some \<lparr>ro_cap = 16, ro_used = used + 1, ro_n_del = 0, ro_slots = slots[j := e]\<rparr>,
                                      rn_slots := replicate KV_INLINE_SLOTS radix_edge0, rn_ovf_flag := 1,
                                      rn_n_edges := rn_n_edges n + 1\<rparr>, mem))))
        else
          (case rn_ovf n of
             None \<Rightarrow> None
           | Some ov \<Rightarrow>
               (let put = (\<lambda>ov mem.
                      case ovf_probe (\<lambda>e. re_child_hash e = 0 \<or> edge_deleted e) (ro_slots ov) (ro_cap ov) h of
                        None \<Rightarrow> None
                      | Some i \<Rightarrow>
                          Some (KV_EOK,
                            n\<lparr>rn_ovf := Some ((if re_child_hash (ro_slots ov ! i) = 0 then ov\<lparr>ro_used := ro_used ov + 1\<rparr>
                                 else ov\<lparr>ro_n_del := ro_n_del ov - 1\<rparr>)\<lparr>ro_slots := (ro_slots ov)[i := e]\<rparr>),
                              rn_n_edges := rn_n_edges n + 1\<rparr>, mem))
                in if ro_used ov + ro_n_del ov + 1 > ro_cap ov * 7 div 10 then
                     (case alloc mem of (ok, mem) \<Rightarrow>
                        if \<not> ok then Some (- KV_ENOMEM, n, mem)
                        else case ovf_fill (ro_cap ov * 2) (take (unat (ro_cap ov)) (ro_slots ov))
                                    (replicate (unat (ro_cap ov * 2)) radix_edge0) 0 of
                               None \<Rightarrow> None
                             | Some (slots, _) \<Rightarrow> put (ov\<lparr>ro_slots := slots, ro_cap := ro_cap ov * 2, ro_n_del := 0\<rparr>) mem)
                   else put ov mem)))"

record ck_load =
  kl_tree :: radix_tree
  kl_leaves :: "radix_leaf option list"
  kl_shapes :: "kv_shape list"
  kl_in :: bytes
  kl_stack :: "nat option list"
  kl_sp :: nat

definition ck_fread :: "ck_load \<Rightarrow> nat \<Rightarrow> bytes option \<times> ck_load" where
  "ck_fread s n =
    (if length (kl_in s) < n then (None, s\<lparr>kl_in := []\<rparr>)
     else (Some (take n (kl_in s)), s\<lparr>kl_in := drop n (kl_in s)\<rparr>))"

definition ck_alloc :: "ck_load \<Rightarrow> bool \<times> ck_load" where
  "ck_alloc s = (case alloc (rt_mem (kl_tree s)) of (ok, mem) \<Rightarrow> (ok, s\<lparr>kl_tree := (kl_tree s)\<lparr>rt_mem := mem\<rparr>\<rparr>))"

definition ckpt_load_internal :: "ckpt_node_rec \<Rightarrow> ck_load \<Rightarrow> (int \<times> ck_load) option" where
  "ckpt_load_internal rec s =
    (let d = unat (kr_depth rec)
     in if 2 ^ 31 \<le> d then None
        else
          (let sp = min (kl_sp s) d;
               s = s\<lparr>kl_sp := sp\<rparr>
           in if sp = 0 then Some (- KV_EIO, s)
              else if 128 \<le> d - 1 then None
              else case kl_stack s ! (d - 1) of
                     None \<Rightarrow> None
                   | Some parent \<Rightarrow>
                       (case ck_alloc s of (ok, s) \<Rightarrow>
                          if \<not> ok then Some (- KV_ENOMEM, s)
                          else
                            (let ns = rt_nodes (kl_tree s);
                                 child = length ns
                             in case ckpt_edge_add (ns ! parent) (kr_child_hash rec) (Some child) (rt_mem (kl_tree s)) of
                                  None \<Rightarrow> None
                                | Some (rc, n, mem) \<Rightarrow>
                                    if rc \<noteq> KV_EOK then
                                      Some (rc, s\<lparr>kl_tree := (kl_tree s)\<lparr>rt_nodes := ns[parent := n], rt_mem := mem\<rparr>\<rparr>)
                                    else
                                      (let s = s\<lparr>kl_tree := (kl_tree s)\<lparr>rt_nodes := ns[parent := n] @
                                                [(node_new (kr_depth rec))\<lparr>rn_parent := Some parent\<rparr>], rt_mem := mem\<rparr>\<rparr>
                                       in Some (KV_EOK,
                                            if sp < 128 then s\<lparr>kl_stack := (kl_stack s)[sp := Some child], kl_sp := sp + 1\<rparr>
                                            else s))))))"

definition ckpt_load_leaf :: "ckpt_node_rec \<Rightarrow> ck_load \<Rightarrow> (int \<times> ck_load) option" where
  "ckpt_load_leaf rec s =
    (let d = unat (kr_depth rec)
     in if 2 ^ 31 \<le> d + 1 then None
        else
          (let sp = min (kl_sp s) (d + 1);
               s = s\<lparr>kl_sp := sp\<rparr>
           in if sp < d + 1 then Some (- KV_EIO, s)
              else case kl_stack s ! d of
                     None \<Rightarrow> None
                   | Some node \<Rightarrow>
                       (case ck_alloc s of (ok, s) \<Rightarrow>
                          if \<not> ok then Some (- KV_ENOMEM, s)
                          else
                            (let lf = radix_leaf0\<lparr>lf_ver := kr_ver rec, lf_prefix_id := kr_prefix_id rec,
                                   lf_addr0 := kr_addr0 rec, lf_addr1 := kr_addr1 rec,
                                   lf_shape := (if kr_shape_id rec \<noteq> KV_SHAPE_NONE \<and> unat (kr_shape_id rec) < length (kl_shapes s)
                                                then Some (unat (kr_shape_id rec)) else None)\<rparr>;
                                 attach = (\<lambda>lf s. Some (KV_EOK,
                                   s\<lparr>kl_leaves := kl_leaves s @ [Some lf],
                                     kl_tree := (kl_tree s)\<lparr>rt_nodes := (rt_nodes (kl_tree s))
                                         [node := (rt_nodes (kl_tree s) ! node)\<lparr>rn_leaf := Some (length (kl_leaves s))\<rparr>],
                                       rt_n_leaves := rt_n_leaves (kl_tree s) + 1\<rparr>\<rparr>))
                             in if kr_type rec = CKPT_REC_LEAF_STRIPE then
                                  (case ck_alloc s of (ok, s) \<Rightarrow>
                                     if \<not> ok then Some (- KV_ENOMEM, s)
                                     else case ck_fread s (unat (kr_n_parts rec) * 24) of
                                            (None, s) \<Rightarrow> Some (- KV_EIO, s)
                                          | (Some b, s) \<Rightarrow>
                                              attach (lf\<lparr>lf_stripe := Some \<lparr>sa_n_parts = kr_n_parts rec,
                                                  sa_total_len = kr_total_len rec,
                                                  sa_parts = dec_arr dec_stripe_part 24 (unat (kr_n_parts rec)) b\<rparr>\<rparr>) s)
                                else attach lf s))))"

fun ckpt_load_recs :: "nat \<Rightarrow> ck_load \<Rightarrow> (int \<times> ck_load) option" where
  "ckpt_load_recs 0 s = Some (KV_EOK, s)"
| "ckpt_load_recs (Suc k) s =
    (case ck_fread s 132 of
       (None, s) \<Rightarrow> Some (- KV_EIO, s)
     | (Some b, s) \<Rightarrow>
         (let rec = dec_ckpt_rec b
          in if kr_crc32 rec \<noteq> ckpt_rec_crc b then Some (- KV_ECRC, s)
             else case (if kr_type rec = CKPT_REC_INTERNAL then ckpt_load_internal rec s
                        else if kr_type rec = CKPT_REC_LEAF \<or> kr_type rec = CKPT_REC_LEAF_STRIPE then ckpt_load_leaf rec s
                        else Some (- KV_EINVAL, s)) of
                    None \<Rightarrow> None
                  | Some (rc, s) \<Rightarrow> if rc \<noteq> KV_EOK then Some (rc, s) else ckpt_load_recs k s))"

fun ckpt_load_shapes :: "nat \<Rightarrow> ck_load \<Rightarrow> int \<times> ck_load" where
  "ckpt_load_shapes 0 s = (KV_EOK, s)"
| "ckpt_load_shapes (Suc k) s =
    (case ck_fread s 4 of
       (None, s) \<Rightarrow> (- KV_EIO, s)
     | (Some b, s) \<Rightarrow>
         (let n = unat (le32 b)
          in if n > KV_MAX_LAYERS_CAP then (- KV_EIO, s)
             else case (if n = 0 then (Some [], s) else ck_fread s (n * 4)) of
                    (None, s) \<Rightarrow> (- KV_EIO, s)
                  | (Some b, s) \<Rightarrow>
                      (case ck_alloc s of (ok, s) \<Rightarrow>
                         ckpt_load_shapes k
                           (s\<lparr>kl_shapes := snd (shape_pool_intern ok (kl_shapes s) (dec_arr le32 4 n b) (of_nat n))\<rparr>))))"

definition ckpt_load :: "bytes option \<Rightarrow> radix_tree \<Rightarrow> radix_leaf option list \<Rightarrow> u32 \<Rightarrow> u32 \<Rightarrow> u64 \<Rightarrow> kv_shape list \<Rightarrow>
    (int \<times> u64 option \<times> radix_tree \<times> radix_leaf option list \<times> kv_shape list) option" where
  "ckpt_load file t leaves n_devs region_cnt region_size_pages shapes =
    (case file of
       None \<Rightarrow> Some (- KV_ENOENT, None, t, leaves, shapes)
     | Some b \<Rightarrow>
         (let hb = take 48 b;
              hdr = dec_ckpt_hdr hb
          in if length b < 48 then Some (- KV_EIO, None, t, leaves, shapes)
             else if kh_magic hdr \<noteq> KV_CP_MAGIC \<or> kh_crc32 hdr \<noteq> ckpt_hdr_crc hb
             then Some (- KV_ECRC, None, t, leaves, shapes)
             else if kh_n_devs hdr \<noteq> n_devs \<or> kh_region_cnt hdr \<noteq> region_cnt \<or> kh_region_size_pages hdr \<noteq> region_size_pages
             then Some (- KV_EINVAL, None, t, leaves, shapes)
             else
               (let done = (\<lambda>rc s. (rc, Some (kh_ver_counter hdr), kl_tree s, kl_leaves s, kl_shapes s))
                in case ckpt_load_shapes (unat (kh_pad hdr))
                          \<lparr>kl_tree = t, kl_leaves = leaves, kl_shapes = shapes, kl_in = drop 48 b,
                           kl_stack = replicate 128 None, kl_sp = 0\<rparr> of
                     (rc, s) \<Rightarrow>
                       if rc \<noteq> KV_EOK then Some (done rc s)
                       else case ck_alloc s of (ok, s) \<Rightarrow>
                         if \<not> ok then Some (done (- KV_ENOMEM) s)
                         else map_option (\<lambda>(rc, s). done rc s)
                           (ckpt_load_recs (unat (kh_n_recs hdr))
                             (s\<lparr>kl_stack := (kl_stack s)[0 := Some (rt_root (kl_tree s))], kl_sp := 1\<rparr>)))))"

section \<open>The cache's checkpoint\<close>

text \<open>\<open>os\<close> is the script of the standard I/O calls.\<close>

definition cache_checkpoint :: "bool list \<Rightarrow> cache \<Rightarrow> (int \<times> cache) option" where
  "cache_checkpoint os c =
    (case ckpt_write os (c_radix c) (c_leaves c) (c_ver_counter c) (of_nat (c_n_devs c)) (cf_region_cnt (c_cfg c))
            (cf_region_size_pages (c_cfg c)) (c_shapes c) (c_ckpt_file c) of
       None \<Rightarrow> None
     | Some (rc, file) \<Rightarrow>
         (let c = c\<lparr>c_ckpt_file := file\<rparr>
          in Some (rc, if rc = KV_EOK then fold (\<lambda>i c. snd (with_journal c i journal_reset)) [0..<c_n_devs c] c else c)))"

end
