(* ===== verification/KV_Leaf_Inv.thy ===== *)
theory KV_Leaf_Inv
  imports KV_Leaf
begin

text \<open>
  The leaf heap and its accounts.  An extent is a run of pages a leaf refers to.  \<open>leaves_ok\<close>
  says, of the region managers, the leaves attached to nodes, the heap and the deferred-free list:
  attached and deferred leaves are allocated, no leaf is both or attached twice, every
  allocated leaf is one of the two, and the live bytes of every region are exactly the bytes of
  the attached leaves' extents in it, modulo \<open>2 ^ 64\<close> as the code counts.
\<close>

section \<open>Extents\<close>

type_synonym extent = "u32 \<times> u64 \<times> u32"

definition addr_ext :: "kv_addr \<Rightarrow> extent" where
  "addr_ext a = (ka_dev_id a, ka_page_no a, ka_len_pages a)"

definition addr_exts :: "kv_addr \<Rightarrow> extent list" where
  "addr_exts a = (if ka_dev_id a \<noteq> KV_INVALID_DEV then [addr_ext a] else [])"

definition part_ext :: "kv_stripe_part \<Rightarrow> extent" where
  "part_ext p = (sp_dev_id p, sp_page_no p, sp_len_pages p)"

definition stripe_exts :: "kv_stripe_addr option \<Rightarrow> extent list" where
  "stripe_exts so = (case so of None \<Rightarrow> [] | Some s \<Rightarrow> map part_ext (take (unat (sa_n_parts s)) (sa_parts s)))"

definition leaf_exts :: "radix_leaf \<Rightarrow> extent list" where
  "leaf_exts lf = addr_exts (lf_addr0 lf) @ addr_exts (lf_addr1 lf) @ stripe_exts (lf_stripe lf)"

section \<open>Accounts\<close>

definition lv :: "region_mgr list \<Rightarrow> nat \<Rightarrow> nat \<Rightarrow> u64" where
  "lv rms d r = rs_live_bytes (rm_rg (rms ! d) ! r)"

definition ext_live :: "region_mgr list \<Rightarrow> nat \<Rightarrow> nat \<Rightarrow> extent \<Rightarrow> u64" where
  "ext_live rms d r e = (case e of (dev, page, len) \<Rightarrow>
    if unat dev = d \<and> region_of_page (rms ! d) page = int r then ucast len * of_nat KV_PAGE_SIZE else 0)"

definition exts_live :: "region_mgr list \<Rightarrow> nat \<Rightarrow> nat \<Rightarrow> extent list \<Rightarrow> u64" where
  "exts_live rms d r es = sum_list (map (ext_live rms d r) es)"

definition ext_ok :: "region_mgr list \<Rightarrow> extent \<Rightarrow> bool" where
  "ext_ok rms e \<longleftrightarrow> (case e of (dev, page, len) \<Rightarrow>
    if dev = KV_INVALID_DEV then page < of_nat kRegionBasePage
    else unat dev < length rms \<and>
      (page < of_nat kRegionBasePage \<or>
       (unat page < kRegionBasePage + length (rm_rg (rms ! unat dev)) * unat (rm_region_size_pages (rms ! unat dev)) \<and>
        0 \<le> region_of_page (rms ! unat dev) page \<and>
        nat (region_of_page (rms ! unat dev) page) < length (rm_rg (rms ! unat dev)))))"

definition same_geom :: "region_mgr list \<Rightarrow> region_mgr list \<Rightarrow> bool" where
  "same_geom rms rms' \<longleftrightarrow> length rms' = length rms \<and>
    (\<forall>d < length rms. rm_region_size_pages (rms' ! d) = rm_region_size_pages (rms ! d) \<and>
      rm_region_cnt (rms' ! d) = rm_region_cnt (rms ! d) \<and>
      length (rm_rg (rms' ! d)) = length (rm_rg (rms ! d)))"

text \<open>The accounts of two manager lists of the same geometry differ by \<open>f\<close>.\<close>

definition lv_upd :: "region_mgr list \<Rightarrow> region_mgr list \<Rightarrow> (nat \<Rightarrow> nat \<Rightarrow> u64) \<Rightarrow> bool" where
  "lv_upd rms rms' f \<longleftrightarrow> same_geom rms rms' \<and>
    (\<forall>d < length rms. \<forall>r < length (rm_rg (rms ! d)). lv rms' d r = lv rms d r + f d r)"

lemma same_geom_refl [simp]: "same_geom rms rms"
  by (simp add: same_geom_def)

lemma same_geom_trans: "same_geom a b \<Longrightarrow> same_geom b c \<Longrightarrow> same_geom a c"
  by (simp add: same_geom_def)

lemma same_geom_sym: "same_geom a b \<Longrightarrow> same_geom b a"
  by (simp add: same_geom_def)

lemma region_of_page_cong:
  "rm_region_size_pages rm = rm_region_size_pages rm' \<Longrightarrow> region_of_page rm = region_of_page rm'"
  by (simp add: region_of_page_def fun_eq_iff)

lemma same_geom_region:
  "same_geom rms rms' \<Longrightarrow> d < length rms \<Longrightarrow> region_of_page (rms' ! d) = region_of_page (rms ! d)"
  by (intro region_of_page_cong) (simp add: same_geom_def)

lemma same_geom_ext_live: "same_geom rms rms' \<Longrightarrow> d < length rms \<Longrightarrow> ext_live rms' d r = ext_live rms d r"
  by (simp add: ext_live_def fun_eq_iff same_geom_region split: prod.split)

lemma same_geom_exts_live: "same_geom rms rms' \<Longrightarrow> d < length rms \<Longrightarrow> exts_live rms' d r es = exts_live rms d r es"
  by (simp add: exts_live_def same_geom_ext_live)

lemma same_geom_ext_ok: "same_geom rms rms' \<Longrightarrow> ext_ok rms' e \<longleftrightarrow> ext_ok rms e"
proof -
  assume g: "same_geom rms rms'"
  obtain dev page len where e: "e = (dev, page, len)" by (cases e)
  show ?thesis
  proof (cases "unat dev < length rms")
    case True
    with g same_geom_region [OF g True] show ?thesis by (simp add: ext_ok_def e same_geom_def)
  qed (use g in \<open>simp add: ext_ok_def e same_geom_def\<close>)
qed

lemma lv_upd_refl: "lv_upd rms rms (\<lambda>d r. 0)"
  by (simp add: lv_upd_def)

lemma lv_upd_trans: "lv_upd a b f \<Longrightarrow> lv_upd b c g \<Longrightarrow> lv_upd a c (\<lambda>d r. f d r + g d r)"
  by (auto simp: lv_upd_def same_geom_def)

lemma lv_upd_cong:
  "lv_upd a b f \<Longrightarrow> (\<And>d r. d < length a \<Longrightarrow> r < length (rm_rg (a ! d)) \<Longrightarrow> f d r = g d r) \<Longrightarrow> lv_upd a b g"
  by (simp add: lv_upd_def)

section \<open>The accounting operations as functions on the managers\<close>

definition rms_ext :: "(u64 \<Rightarrow> u64 \<Rightarrow> u64) \<Rightarrow> extent \<Rightarrow> region_mgr list \<Rightarrow> region_mgr list" where
  "rms_ext f e rms = (case e of (dev, page, len) \<Rightarrow>
    (let idx = region_of_page (rms ! unat dev) page
     in if idx < 0 then rms
        else rms[unat dev := rm_live_upd (rms ! unat dev) (nat idx) (\<lambda>x. f x (ucast len * of_nat KV_PAGE_SIZE))]))"

lemma region_live_add_rms: "region_live_add c dev page len = c\<lparr>c_rms := rms_ext (+) (dev, page, len) (c_rms c)\<rparr>"
  by (simp add: region_live_add_def rms_ext_def Let_def)

lemma region_live_sub_rms: "region_live_sub c dev page len = c\<lparr>c_rms := rms_ext (-) (dev, page, len) (c_rms c)\<rparr>"
  by (simp add: region_live_sub_def rms_ext_def Let_def)

lemma region_of_page_low: "page < of_nat kRegionBasePage \<Longrightarrow> region_of_page rm page = -1"
  by (simp add: region_of_page_def)

lemma rms_ext_lv:
  assumes "ext_ok rms e" and "\<And>x y. f x y = x + g y" and g0: "g 0 = 0"
  shows "lv_upd rms (rms_ext f e rms) (\<lambda>d r. g (ext_live rms d r e))"
proof -
  obtain dev page len where e: "e = (dev, page, len)" by (cases e)
  let ?idx = "region_of_page (rms ! unat dev) page"
  show ?thesis
  proof (cases "?idx < 0")
    case True
    then have "ext_live rms d r e = 0" for d r by (auto simp: ext_live_def e)
    with True g0 lv_upd_refl show ?thesis by (simp add: rms_ext_def e)
  next
    case False
    then have "\<not> page < of_nat kRegionBasePage" using region_of_page_low by force
    with assms(1) have d: "unat dev < length rms" and r: "nat ?idx < length (rm_rg (rms ! unat dev))"
      by (auto simp: ext_ok_def e split: if_splits)
    have "rms_ext f e rms = rms[unat dev := rm_live_upd (rms ! unat dev) (nat ?idx) (\<lambda>x. f x (ucast len * of_nat KV_PAGE_SIZE))]"
      using False by (simp add: rms_ext_def e)
    moreover have "(int k = ?idx) = (k = nat ?idx)" for k using False by auto
    ultimately show ?thesis
      using d r g0 assms(2) False
      by (auto simp: lv_upd_def same_geom_def lv_def rm_live_upd_def nth_list_update ext_live_def e)
  qed
qed

lemma rms_add_lv: "ext_ok rms e \<Longrightarrow> lv_upd rms (rms_ext (+) e rms) (\<lambda>d r. ext_live rms d r e)"
  using rms_ext_lv [of rms e "(+)" "\<lambda>x. x"] by simp

lemma rms_sub_lv: "ext_ok rms e \<Longrightarrow> lv_upd rms (rms_ext (-) e rms) (\<lambda>d r. - ext_live rms d r e)"
  using rms_ext_lv [of rms e "(-)" uminus] by simp

lemma lv_upd_geom: "lv_upd a b f \<Longrightarrow> same_geom a b"
  by (simp add: lv_upd_def)

lemma rms_subs_lv:
  assumes "\<forall>e \<in> set es. ext_ok rms e"
  shows "lv_upd rms (fold (rms_ext (-)) es rms) (\<lambda>d r. - exts_live rms d r es)"
  using assms
proof (induction es arbitrary: rms)
  case Nil
  show ?case using lv_upd_refl by (simp add: exts_live_def)
next
  case (Cons e es)
  let ?rms = "rms_ext (-) e rms"
  have 1: "lv_upd rms ?rms (\<lambda>d r. - ext_live rms d r e)" using Cons.prems by (intro rms_sub_lv) simp
  note g = lv_upd_geom [OF 1]
  have 2: "lv_upd ?rms (fold (rms_ext (-)) es ?rms) (\<lambda>d r. - exts_live ?rms d r es)"
    using Cons.prems by (intro Cons.IH) (simp add: same_geom_ext_ok [OF g])
  show ?case
    using lv_upd_trans [OF 1 2] same_geom_exts_live [OF g] by (auto elim!: lv_upd_cong simp: exts_live_def)
qed

lemma rms_adds_lv:
  assumes "\<forall>e \<in> set es. ext_ok rms e"
  shows "lv_upd rms (fold (rms_ext (+)) es rms) (\<lambda>d r. exts_live rms d r es)"
  using assms
proof (induction es arbitrary: rms)
  case Nil
  show ?case using lv_upd_refl by (simp add: exts_live_def)
next
  case (Cons e es)
  let ?rms = "rms_ext (+) e rms"
  have 1: "lv_upd rms ?rms (\<lambda>d r. ext_live rms d r e)" using Cons.prems by (intro rms_add_lv) simp
  note g = lv_upd_geom [OF 1]
  have 2: "lv_upd ?rms (fold (rms_ext (+)) es ?rms) (\<lambda>d r. exts_live ?rms d r es)"
    using Cons.prems by (intro Cons.IH) (simp add: same_geom_ext_ok [OF g])
  show ?case
    using lv_upd_trans [OF 1 2] same_geom_exts_live [OF g] by (auto elim!: lv_upd_cong simp: exts_live_def)
qed

lemma fold_c_rms:
  assumes "\<And>x c. f x c = c\<lparr>c_rms := g x (c_rms c)\<rparr>"
  shows "fold f xs c = c\<lparr>c_rms := fold g xs (c_rms c)\<rparr>"
  by (induction xs arbitrary: c) (simp_all add: assms)

lemma leaf_sub_live_rms: "leaf_sub_live c lf = c\<lparr>c_rms := fold (rms_ext (-)) (leaf_exts lf) (c_rms c)\<rparr>"
proof -
  have "fold (\<lambda>p c. region_live_sub c (sp_dev_id p) (sp_page_no p) (sp_len_pages p)) ps c =
      c\<lparr>c_rms := fold (rms_ext (-)) (map part_ext ps) (c_rms c)\<rparr>" for ps and c :: cache
    by (subst fold_c_rms [where g = "\<lambda>p. rms_ext (-) (part_ext p)"])
      (simp_all add: region_live_sub_rms part_ext_def fold_map o_def)
  then show ?thesis
    by (simp add: leaf_sub_live_def addr_sub_live_def region_live_sub_rms leaf_exts_def addr_exts_def
      addr_ext_def stripe_exts_def Let_def split: option.split)
qed

lemma leaf_add_live_rms: "leaf_add_live c lf = c\<lparr>c_rms := fold (rms_ext (+)) (leaf_exts lf) (c_rms c)\<rparr>"
proof -
  have "fold (\<lambda>p c. region_live_add c (sp_dev_id p) (sp_page_no p) (sp_len_pages p)) ps c =
      c\<lparr>c_rms := fold (rms_ext (+)) (map part_ext ps) (c_rms c)\<rparr>" for ps and c :: cache
    by (subst fold_c_rms [where g = "\<lambda>p. rms_ext (+) (part_ext p)"])
      (simp_all add: region_live_add_rms part_ext_def fold_map o_def)
  then show ?thesis
    by (simp add: leaf_add_live_def region_live_add_rms leaf_exts_def addr_exts_def
      addr_ext_def stripe_exts_def Let_def split: option.split)
qed

section \<open>The leaf heap\<close>

lemma nth_upd: "xs[i := x] ! j = (if i = j \<and> i < length xs then x else xs ! j)"
  by (cases "i < length xs") (auto simp: nth_list_update list_update_beyond)

definition att_live :: "region_mgr list \<Rightarrow> radix_leaf option list \<Rightarrow> nat \<Rightarrow> nat \<Rightarrow> nat option \<Rightarrow> u64" where
  "att_live rms leaves d r a = (case a of None \<Rightarrow> 0 | Some l \<Rightarrow> exts_live rms d r (leaf_exts (the (leaves ! l))))"

definition leaf_ok :: "region_mgr list \<Rightarrow> radix_leaf \<Rightarrow> bool" where
  "leaf_ok rms lf \<longleftrightarrow> (\<forall>e \<in> set (leaf_exts lf). ext_ok rms e) \<and>
    (\<forall>s. lf_stripe lf = Some s \<longrightarrow> length (sa_parts s) = unat (sa_n_parts s))"

definition attached_ok :: "region_mgr list \<Rightarrow> radix_leaf option list \<Rightarrow> nat list \<Rightarrow> nat \<Rightarrow> bool" where
  "attached_ok rms leaves dfree l \<longleftrightarrow> l < length leaves \<and> leaves ! l \<noteq> None \<and> l \<notin> set dfree \<and>
    leaf_ok rms (the (leaves ! l))"

definition accounts_ok :: "region_mgr list \<Rightarrow> nat option list \<Rightarrow> radix_leaf option list \<Rightarrow> bool" where
  "accounts_ok rms atts leaves \<longleftrightarrow>
    (\<forall>d < length rms. \<forall>r < length (rm_rg (rms ! d)).
      lv rms d r = (\<Sum>i < length atts. att_live rms leaves d r (atts ! i)))"

definition leaves_ok :: "region_mgr list \<Rightarrow> nat option list \<Rightarrow> radix_leaf option list \<Rightarrow> nat list \<Rightarrow> bool" where
  "leaves_ok rms atts leaves dfree \<longleftrightarrow>
    (\<forall>l. Some l \<in> set atts \<longrightarrow> attached_ok rms leaves dfree l) \<and>
    (\<forall>i < length atts. \<forall>j < length atts. \<forall>l. atts ! i = Some l \<longrightarrow> atts ! j = Some l \<longrightarrow> i = j) \<and>
    distinct dfree \<and> (\<forall>l \<in> set dfree. l < length leaves \<and> leaves ! l \<noteq> None) \<and>
    (\<forall>l < length leaves. leaves ! l \<noteq> None \<longrightarrow> Some l \<in> set atts \<or> l \<in> set dfree) \<and>
    accounts_ok rms atts leaves"

lemma leaves_okD:
  assumes "leaves_ok rms atts leaves dfree"
  shows "\<And>l. Some l \<in> set atts \<Longrightarrow> attached_ok rms leaves dfree l"
    and "\<And>i j l. i < length atts \<Longrightarrow> j < length atts \<Longrightarrow> atts ! i = Some l \<Longrightarrow> atts ! j = Some l \<Longrightarrow> i = j"
    and "distinct dfree" and "\<And>l. l \<in> set dfree \<Longrightarrow> l < length leaves \<and> leaves ! l \<noteq> None"
    and "\<And>l. l < length leaves \<Longrightarrow> leaves ! l \<noteq> None \<Longrightarrow> Some l \<in> set atts \<or> l \<in> set dfree"
    and "accounts_ok rms atts leaves"
  using assms unfolding leaves_ok_def by blast+

lemma leaves_okI:
  assumes "\<And>l. Some l \<in> set atts \<Longrightarrow> attached_ok rms leaves dfree l"
    and "\<And>i j l. i < length atts \<Longrightarrow> j < length atts \<Longrightarrow> atts ! i = Some l \<Longrightarrow> atts ! j = Some l \<Longrightarrow> i = j"
    and "distinct dfree" and "\<And>l. l \<in> set dfree \<Longrightarrow> l < length leaves \<and> leaves ! l \<noteq> None"
    and "\<And>l. l < length leaves \<Longrightarrow> leaves ! l \<noteq> None \<Longrightarrow> Some l \<in> set atts \<or> l \<in> set dfree"
    and "accounts_ok rms atts leaves"
  shows "leaves_ok rms atts leaves dfree"
  using assms unfolding leaves_ok_def by blast

lemma same_geom_leaf_ok: "same_geom rms rms' \<Longrightarrow> leaf_ok rms' lf \<longleftrightarrow> leaf_ok rms lf"
  by (simp add: leaf_ok_def same_geom_ext_ok)

lemma same_geom_attached_ok: "same_geom rms rms' \<Longrightarrow> attached_ok rms' leaves dfree l \<longleftrightarrow> attached_ok rms leaves dfree l"
  by (simp add: attached_ok_def same_geom_leaf_ok)

lemma same_geom_att_live: "same_geom rms rms' \<Longrightarrow> d < length rms \<Longrightarrow> att_live rms' leaves d r a = att_live rms leaves d r a"
  by (simp add: att_live_def same_geom_exts_live split: option.split)

lemma sum_change_one:
  fixes f g :: "nat \<Rightarrow> 'a :: ab_group_add"
  assumes "i < n" and "\<And>j. j < n \<Longrightarrow> j \<noteq> i \<Longrightarrow> g j = f j"
  shows "(\<Sum>j<n. g j) = (\<Sum>j<n. f j) + (g i - f i)"
proof -
  have "(\<Sum>j<n. g j) = g i + (\<Sum>j\<in>{..<n} - {i}. g j)" using assms(1) by (intro sum.remove) auto
  moreover have "(\<Sum>j<n. f j) = f i + (\<Sum>j\<in>{..<n} - {i}. f j)" using assms(1) by (intro sum.remove) auto
  moreover have "(\<Sum>j\<in>{..<n} - {i}. g j) = (\<Sum>j\<in>{..<n} - {i}. f j)" using assms(2) by (intro sum.cong) auto
  ultimately show ?thesis by (simp add: algebra_simps)
qed

text \<open>The accounts stay right when one attachment changes and the live bytes change with it.\<close>

lemma accounts_change:
  assumes "accounts_ok rms atts leaves" and "i < length atts" and "length atts' = length atts"
    and "\<And>j. j < length atts \<Longrightarrow> j \<noteq> i \<Longrightarrow> \<forall>d r. att_live rms leaves' d r (atts' ! j) = att_live rms leaves d r (atts ! j)"
    and "lv_upd rms rms' (\<lambda>d r. att_live rms leaves' d r (atts' ! i) - att_live rms leaves d r (atts ! i))"
  shows "accounts_ok rms' atts' leaves'"
proof -
  have g: "same_geom rms rms'" using assms(5) by (simp add: lv_upd_def)
  have "lv rms' d r = (\<Sum>i < length atts'. att_live rms' leaves' d r (atts' ! i))"
    if d: "d < length rms" and r: "r < length (rm_rg (rms ! d))" for d r
  proof -
    have "(\<Sum>j < length atts. att_live rms leaves' d r (atts' ! j)) =
        (\<Sum>j < length atts. att_live rms leaves d r (atts ! j)) +
        (att_live rms leaves' d r (atts' ! i) - att_live rms leaves d r (atts ! i))"
      using assms(4) by (intro sum_change_one [OF assms(2)]) blast
    moreover have "lv rms d r = (\<Sum>j < length atts. att_live rms leaves d r (atts ! j))"
      using assms(1) d r by (simp add: accounts_ok_def)
    ultimately show ?thesis
      using assms(5) d r by (simp add: lv_upd_def assms(3) same_geom_att_live [OF g d])
  qed
  with g show ?thesis by (auto simp: accounts_ok_def same_geom_def)
qed

text \<open>Detaching a leaf: it leaves the accounts and is freed, or deferred when it is pinned.\<close>

lemma leaves_ok_detach:
  assumes ok: "leaves_ok rms atts leaves dfree" and i: "i < length atts" and l: "atts ! i = Some l"
    and rms': "rms' = fold (rms_ext (-)) (leaf_exts (the (leaves ! l))) rms"
    and res: "(leaves', dfree') = (leaves[l := None], dfree) \<or> (leaves', dfree') = (leaves, dfree @ [l])"
  shows "leaves_ok rms' (atts[i := None]) leaves' dfree'"
proof -
  note D = leaves_okD [OF ok]
  have mem: "Some l \<in> set atts" using i l by (metis nth_mem)
  note a = D(1) [OF mem, unfolded attached_ok_def]
  have up: "lv_upd rms rms' (\<lambda>d r. - exts_live rms d r (leaf_exts (the (leaves ! l))))"
    unfolding rms' using a by (intro rms_subs_lv) (simp add: leaf_ok_def)
  note g = lv_upd_geom [OF up]
  have other: "k \<noteq> l" if "j < length atts" "j \<noteq> i" "atts ! j = Some k" for j k
    using D(2) [OF that(1) i] that l by auto
  have len: "length leaves' = length leaves" using res by auto
  have same: "leaves' ! k = leaves ! k" if "k \<noteq> l" for k using res that by auto
  have rest: "Some k \<in> set atts \<and> k \<noteq> l" if "Some k \<in> set (atts[i := None])" for k
    using that other i by (auto simp: in_set_conv_nth nth_upd split: if_splits)
  show ?thesis
  proof (rule leaves_okI)
    fix k assume "Some k \<in> set (atts[i := None])"
    with rest have k: "Some k \<in> set atts" "k \<noteq> l" by auto
    from D(1) [OF k(1)] same [OF k(2)] res len k(2) show "attached_ok rms' leaves' dfree' k"
      unfolding same_geom_attached_ok [OF g] by (auto simp: attached_ok_def)
  next
    fix x y k assume "x < length (atts[i := None])" "y < length (atts[i := None])"
      "atts[i := None] ! x = Some k" "atts[i := None] ! y = Some k"
    then show "x = y" using D(2) [of x y k] i by (auto simp: nth_upd split: if_splits)
  next
    show "distinct dfree'" using res D(3) a by auto
  next
    fix k assume "k \<in> set dfree'"
    then show "k < length leaves' \<and> leaves' ! k \<noteq> None" using res D(4) a by (auto simp: nth_upd)
  next
    fix k assume k: "k < length leaves'" "leaves' ! k \<noteq> None"
    show "Some k \<in> set (atts[i := None]) \<or> k \<in> set dfree'"
    proof (cases "k = l")
      case True
      with res k a show ?thesis by auto
    next
      case False
      with D(5) [of k] k len same have "Some k \<in> set atts \<or> k \<in> set dfree" by simp
      moreover have "Some k \<in> set (atts[i := None])" if "Some k \<in> set atts"
        using that False l by (metis in_set_conv_nth length_list_update nth_list_update_neq option.inject)
      ultimately show ?thesis using res by auto
    qed
  next
    show "accounts_ok rms' (atts[i := None]) leaves'"
    proof (rule accounts_change [OF D(6) i])
      fix j assume "j < length atts" "j \<noteq> i"
      with other same show "\<forall>d r. att_live rms leaves' d r (atts[i := None] ! j) = att_live rms leaves d r (atts ! j)"
        by (auto simp: att_live_def split: option.splits)
    qed (use up i l in \<open>simp_all add: att_live_def\<close>)
  qed
qed

text \<open>Attaching a new leaf whose only extent in a region is \<open>e\<close>.\<close>

lemma leaves_ok_attach:
  assumes ok: "leaves_ok rms atts leaves dfree" and i: "i < length atts" and l: "atts ! i = None"
    and lf: "leaf_ok rms lf" and up: "lv_upd rms rms' (\<lambda>d r. exts_live rms d r (leaf_exts lf))"
  shows "leaves_ok rms' (atts[i := Some (length leaves)]) (leaves @ [Some lf]) dfree"
proof -
  note D = leaves_okD [OF ok]
  note g = lv_upd_geom [OF up]
  have old: "k < length leaves" if "Some k \<in> set atts" for k using D(1) [OF that] by (simp add: attached_ok_def)
  have old': "k < length leaves" if "k \<in> set dfree" for k using D(4) [OF that] by simp
  have upd: "Some k \<in> set (atts[i := Some (length leaves)]) \<longleftrightarrow> k = length leaves \<or> Some k \<in> set atts" for k
  proof -
    have "Some k \<in> set (atts[i := Some (length leaves)])" if "j < length atts" "atts ! j = Some k" for j
      using that i l by (metis length_list_update nth_list_update_neq nth_mem option.distinct(1))
    then show ?thesis
      using set_update_subset_insert [of atts i "Some (length leaves)"] set_update_memI [OF i]
      by (metis in_set_conv_nth insertE option.inject subsetD)
  qed
  show ?thesis
  proof (rule leaves_okI)
    fix k assume "Some k \<in> set (atts[i := Some (length leaves)])"
    then show "attached_ok rms' (leaves @ [Some lf]) dfree k"
      unfolding same_geom_attached_ok [OF g] upd
      using D(1) [of k] lf old' by (auto simp: attached_ok_def nth_append)
  next
    fix x y k assume "x < length (atts[i := Some (length leaves)])" "y < length (atts[i := Some (length leaves)])"
      "atts[i := Some (length leaves)] ! x = Some k" "atts[i := Some (length leaves)] ! y = Some k"
    then show "x = y" using D(2) [of x y k] old [of k] i
      by (auto simp: nth_list_update dest: nth_mem split: if_splits) 
  next
    fix k assume "k < length (leaves @ [Some lf])" "(leaves @ [Some lf]) ! k \<noteq> None"
    then show "Some k \<in> set (atts[i := Some (length leaves)]) \<or> k \<in> set dfree"
      unfolding upd using D(5) [of k] by (auto simp: nth_append split: if_splits)
  next
    show "accounts_ok rms' (atts[i := Some (length leaves)]) (leaves @ [Some lf])"
    proof (rule accounts_change [OF D(6) i])
      fix j assume "j < length atts" "j \<noteq> i"
      then show "\<forall>d r. att_live rms (leaves @ [Some lf]) d r (atts[i := Some (length leaves)] ! j) = att_live rms leaves d r (atts ! j)"
        using old nth_mem [of j atts] by (cases "atts ! j") (auto simp: att_live_def nth_append)
    qed (use up i l in \<open>simp_all add: att_live_def\<close>)
  qed (use D(3,4) in \<open>auto simp: nth_append less_Suc_eq\<close>)
qed

text \<open>Changing an attached or deferred leaf in place.\<close>

lemma leaves_ok_update:
  assumes ok: "leaves_ok rms atts leaves dfree" and i: "i < length atts" and l: "atts ! i = Some l"
    and lf: "leaf_ok rms lf"
    and up: "lv_upd rms rms' (\<lambda>d r. exts_live rms d r (leaf_exts lf) - exts_live rms d r (leaf_exts (the (leaves ! l))))"
  shows "leaves_ok rms' atts (leaves[l := Some lf]) dfree"
proof -
  note D = leaves_okD [OF ok]
  note g = lv_upd_geom [OF up]
  have mem: "Some l \<in> set atts" using i l by (metis nth_mem)
  note a = D(1) [OF mem, unfolded attached_ok_def]
  have other: "k \<noteq> l" if "j < length atts" "j \<noteq> i" "atts ! j = Some k" for j k
    using D(2) [OF that(1) i] that l by auto
  show ?thesis
  proof (rule leaves_okI)
    fix k assume "Some k \<in> set atts"
    from D(1) [OF this] lf a show "attached_ok rms' (leaves[l := Some lf]) dfree k"
      unfolding same_geom_attached_ok [OF g] by (auto simp: attached_ok_def nth_list_update)
  next
    fix k assume "k < length (leaves[l := Some lf])" "leaves[l := Some lf] ! k \<noteq> None"
    then show "Some k \<in> set atts \<or> k \<in> set dfree"
      using D(5) [of k] mem a by (auto simp: nth_upd split: if_splits)
  next
    show "accounts_ok rms' atts (leaves[l := Some lf])"
    proof (rule accounts_change [OF D(6) i])
      fix j assume "j < length atts" "j \<noteq> i"
      with other show "\<forall>d r. att_live rms (leaves[l := Some lf]) d r (atts ! j) = att_live rms leaves d r (atts ! j)"
        by (fastforce simp: att_live_def split: option.splits)
    qed (use up i l a in \<open>simp_all add: att_live_def\<close>)
  qed (use D(2-4) a in \<open>auto simp: nth_upd\<close>)
qed

text \<open>Changing the reference count of any allocated leaf.\<close>

lemma leaves_ok_refcnt:
  assumes ok: "leaves_ok rms atts leaves dfree" and l: "l < length leaves" "leaves ! l = Some lf"
  shows "leaves_ok rms atts (leaves[l := Some (lf\<lparr>lf_refcnt := n\<rparr>)]) dfree"
proof -
  note D = leaves_okD [OF ok]
  have ex: "leaf_exts (lf\<lparr>lf_refcnt := n\<rparr>) = leaf_exts lf" by (simp add: leaf_exts_def)
  have lk: "leaf_ok rms (lf\<lparr>lf_refcnt := n\<rparr>) \<longleftrightarrow> leaf_ok rms lf" by (simp add: leaf_ok_def ex)
  have "att_live rms (leaves[l := Some (lf\<lparr>lf_refcnt := n\<rparr>)]) d r a = att_live rms leaves d r a" for d r a
    using l ex by (auto simp: att_live_def nth_upd split: option.split)
  with D(6) have "accounts_ok rms atts (leaves[l := Some (lf\<lparr>lf_refcnt := n\<rparr>)])" by (simp add: accounts_ok_def)
  moreover have "attached_ok rms (leaves[l := Some (lf\<lparr>lf_refcnt := n\<rparr>)]) dfree k" if "Some k \<in> set atts" for k
    using D(1) [OF that] lk l by (auto simp: attached_ok_def nth_list_update)
  ultimately show ?thesis
    using D l by (intro leaves_okI) (auto simp: nth_upd split: if_splits)
qed

text \<open>Freeing a deferred leaf.\<close>

lemma leaves_ok_reap:
  assumes ok: "leaves_ok rms atts leaves (pre @ l # post)"
  shows "leaves_ok rms atts (leaves[l := None]) (pre @ post)"
proof -
  note D = leaves_okD [OF ok]
  have na: "Some l \<notin> set atts" using D(1) [of l] by (auto simp: attached_ok_def)
  have nth: "k \<noteq> l" if "j < length atts" "atts ! j = Some k" for j k using that na by (metis nth_mem)
  show ?thesis
  proof (rule leaves_okI)
    fix k assume k: "Some k \<in> set atts"
    with na have "k \<noteq> l" by auto
    with D(1) [OF k] show "attached_ok rms (leaves[l := None]) (pre @ post) k"
      by (auto simp: attached_ok_def)
  next
    have "att_live rms (leaves[l := None]) d r (atts ! j) = att_live rms leaves d r (atts ! j)"
      if "j < length atts" for d r j
      using nth [OF that] by (auto simp: att_live_def split: option.split)
    then show "accounts_ok rms atts (leaves[l := None])" using D(6) by (simp add: accounts_ok_def)
  next
    fix k assume "k < length (leaves[l := None])" "leaves[l := None] ! k \<noteq> None"
    then show "Some k \<in> set atts \<or> k \<in> set (pre @ post)"
      using D(5) [of k] by (auto simp: nth_upd split: if_splits)
  qed (use D(2-4) in \<open>auto simp: nth_upd\<close>)
qed

end
