(* ===== verification/KV_Dram_Spec.thy ===== *)
theory KV_Dram_Spec
  imports KV_Dram_Api
begin

text \<open>
  The states the DRAM cache can reach, the invariant in all of them, and the properties of the
  interface.
\<close>

section \<open>Mapping the arena\<close>

text \<open>What is relied on of the kernel and of the allocator: mappings are not null and in the user
  half of the address space, pages are at most two megabytes, and \<open>malloc\<close> returns memory that is
  neither in the arena nor in use.\<close>

definition mmap_ok :: "map_outcome \<Rightarrow> bool" where
  "mmap_ok mo \<longleftrightarrow> (\<forall>p. Some p \<in> set (mo_mmap mo) \<longrightarrow> p \<noteq> 0 \<and> unat p < 2 ^ 47) \<and> (\<exists>k \<le> 21. mo_pagesize mo = 2 ^ k)"

definition malloc_ok :: "dram_cache \<Rightarrow> u64 option \<Rightarrow> bool" where
  "malloc_ok d mres \<longleftrightarrow> (\<forall>p. mres = Some p \<longrightarrow> p \<noteq> 0 \<and> outside_arena d p \<and> p \<notin> set (dram_addrs d))"

definition same_but_map :: "dram_cache \<Rightarrow> dram_cache \<Rightarrow> bool" where
  "same_but_map d d' \<longleftrightarrow>
    d'\<lparr>dc_mmap_base := 0, dc_mmap_len := 0, dc_arena := 0\<rparr> = d\<lparr>dc_mmap_base := 0, dc_mmap_len := 0, dc_arena := 0\<rparr>"

definition mapped_ok :: "dram_cache \<Rightarrow> bool" where
  "mapped_ok d \<longleftrightarrow> dc_arena d \<noteq> 0 \<and> unat (dc_arena d) + unat (arena_len d) < 2 ^ 63"

inductive dram_reach :: "dram_cache \<Rightarrow> bool" where
  init: "dram_init mo budget entry_max backend = (KV_EOK, Some d) \<Longrightarrow> mmap_ok mo \<Longrightarrow> unat budget \<le> 2 ^ 46 \<Longrightarrow> dram_reach d"
| put: "dram_reach d \<Longrightarrow> malloc_ok d mres \<Longrightarrow> length recs < 2 ^ 16 \<Longrightarrow> 56 + 12 * length recs + length buf < 2 ^ 32 \<Longrightarrow>
    dram_put mres d p g ver expire_ts buf recs = Some (r, d') \<Longrightarrow> dram_reach d'"
| get: "dram_reach d \<Longrightarrow> dram_get ok now d p g ver cap = Some (r, d') \<Longrightarrow> dram_reach d'"
| invalidate: "dram_reach d \<Longrightarrow> dram_invalidate d p g = Some d' \<Longrightarrow> dram_reach d'"

lemma same_but_map_upd [simp]:
  "same_but_map d (d'\<lparr>dc_mmap_base := x\<rparr>) = same_but_map d d'"
  "same_but_map d (d'\<lparr>dc_mmap_len := x\<rparr>) = same_but_map d d'"
  "same_but_map d (d'\<lparr>dc_arena := x\<rparr>) = same_but_map d d'"
  by (simp_all add: same_but_map_def)

lemma same_but_mapD:
  assumes "same_but_map d d'"
  shows "dc_budget d' = dc_budget d" "dc_n_shards d' = dc_n_shards d" "dc_shards d' = dc_shards d" "dc_mem d' = dc_mem d"
    "dc_bump d' = dc_bump d" "dc_freelists d' = dc_freelists d" "dc_bytes d' = dc_bytes d" "dc_entries d' = dc_entries d"
  using assms unfolding same_but_map_def by (cases d; cases d'; simp)+

lemma align_up_range:
  assumes "k < 40" and "unat v \<le> 2 ^ 50"
  shows "unat v \<le> unat (align_up v (2 ^ k)) \<and> unat (align_up v (2 ^ k)) < unat v + 2 ^ k"
proof -
  have k: "(2 :: nat) ^ k \<le> 2 ^ 40" using assms(1) by (intro power_increasing) auto
  have u: "unat (align_up v (2 ^ k)) = (unat v + 2 ^ k - 1) div 2 ^ k * 2 ^ k" using assms k by (intro unat_align_up) auto
  have "(unat v + 2 ^ k - 1) div 2 ^ k * 2 ^ k + (unat v + 2 ^ k - 1) mod 2 ^ k = unat v + 2 ^ k - 1" by (rule div_mult_mod_eq)
  moreover have "(unat v + 2 ^ k - 1) mod 2 ^ k < 2 ^ k" by simp
  ultimately show ?thesis unfolding u by linarith
qed

lemma mapped_direct:
  assumes "p \<noteq> 0" and "unat p < 2 ^ 47" and "unat l < 2 ^ 48"
    and "dc_arena d = p" and "dc_mmap_base d = p" and "dc_mmap_len d = l"
  shows "mapped_ok d"
  using assms by (simp add: mapped_ok_def arena_len_def)

lemma mapped_aligned:
  assumes p: "p \<noteq> 0" "unat p < 2 ^ 47" and l: "unat l < 2 ^ 48" "2 ^ 21 \<le> unat l"
    and d: "dc_arena d = align_up p (2 ^ 21)" "dc_mmap_base d = p" "dc_mmap_len d = l"
  shows "mapped_ok d"
proof -
  have a: "unat p \<le> unat (align_up p (2 ^ 21)) \<and> unat (align_up p (2 ^ 21)) < unat p + 2 ^ 21"
    using p(2) by (intro align_up_range) auto
  then have "unat (align_up p (2 ^ 21) - p) = unat (align_up p (2 ^ 21)) - unat p"
    by (intro unat_sub) (simp add: word_le_nat_alt)
  then have "unat (align_up p (2 ^ 21) - p) \<le> unat l" using a l(2) by linarith
  then have "unat (l - (align_up p (2 ^ 21) - p)) \<le> unat l" by (subst unat_sub) (simp_all add: word_le_nat_alt)
  moreover have "align_up p (2 ^ 21) \<noteq> 0" using a p(1) by (auto simp: unat_eq_zero)
  ultimately show ?thesis using a p(2) l(1) d unfolding mapped_ok_def arena_len_def by simp
qed

lemma arena_try_ok:
  assumes "mmap_ok mo" and "unat (dc_budget d0) \<le> 2 ^ 46" and "same_but_map d0 d" and "set ms \<subseteq> set (mo_mmap mo)"
  shows "(case arena_try mo d order ms of Inl (b, d') \<Rightarrow> same_but_map d0 d' \<and> mapped_ok d'
      | Inr (d', ms') \<Rightarrow> same_but_map d0 d' \<and> set ms' \<subseteq> set (mo_mmap mo))"
  using assms
proof (induction mo d order ms rule: arena_try.induct)
  case (2 mo d b order ms)
  have bud: "unat (dc_budget d) \<le> 2 ^ 46" using 2 same_but_mapD(1) [of d0 d] by simp
  have hp: "KV_DRAM_HUGEPAGE_SZ = 2 ^ 21" by (simp add: KV_DRAM_HUGEPAGE_SZ_def)
  have len1: "unat (align_up (dc_budget d) KV_DRAM_HUGEPAGE_SZ) < 2 ^ 48"
    using align_up_range [of 21 "dc_budget d"] bud unfolding hp by simp
  have a2: "unat (align_up (dc_budget d) 4096) < 2 ^ 46 + 2 ^ 12"
    using align_up_range [of 12 "dc_budget d"] bud by simp
  then have len2: "unat (align_up (dc_budget d) 4096 + KV_DRAM_HUGEPAGE_SZ) = unat (align_up (dc_budget d) 4096) + 2 ^ 21"
    unfolding hp by (subst unat_add_lem [THEN iffD1]) simp_all
  show ?case
  proof (cases ms)
    case Nil
    then show ?thesis using 2 by (auto simp: Let_def next_map_def split: sum.splits)
  next
    case (Cons m ms')
    have ms': "set ms' \<subseteq> set (mo_mmap mo)" using Cons 2 by simp
    have p: "p \<noteq> 0 \<and> unat p < 2 ^ 47" if "m = Some p" for p using Cons that 2 by (auto simp: mmap_ok_def)
    have t1: "mapped_ok (d\<lparr>dc_mmap_len := align_up (dc_budget d) KV_DRAM_HUGEPAGE_SZ, dc_mmap_base := p, dc_arena := p\<rparr>)"
      if "m = Some p" for p using p [OF that] len1 by (auto intro: mapped_direct)
    have t2: "mapped_ok (d\<lparr>dc_mmap_len := align_up (dc_budget d) 4096 + KV_DRAM_HUGEPAGE_SZ, dc_mmap_base := p,
        dc_arena := align_up p KV_DRAM_HUGEPAGE_SZ\<rparr>)" if "m = Some p" for p
      using p [OF that] len2 a2 by (intro mapped_aligned [of p "align_up (dc_budget d) 4096 + KV_DRAM_HUGEPAGE_SZ"]) (simp_all add: hp)
    show ?thesis
      using 2 Cons ms' t1 t2 by (cases m) (simp_all add: Let_def next_map_def)
  qed
qed simp

lemma arena_map_ok:
  assumes "mmap_ok mo" and "unat (dc_budget d) \<le> 2 ^ 46" and "arena_map mo d req = (b, d')" and "b \<noteq> 0"
  shows "same_but_map d d' \<and> mapped_ok d'"
proof -
  let ?order = "if req = KV_DRAM_BACKEND_AUTO then [KV_DRAM_BACKEND_HUGETLB, KV_DRAM_BACKEND_THP] else [req]"
  have att: "case arena_try mo d ?order (mo_mmap mo) of Inl (b, d') \<Rightarrow> same_but_map d d' \<and> mapped_ok d'
      | Inr (d', ms') \<Rightarrow> same_but_map d d' \<and> set ms' \<subseteq> set (mo_mmap mo)"
    using assms(1,2) by (intro arena_try_ok) (simp_all add: same_but_map_def)
  show ?thesis
  proof (cases "arena_try mo d ?order (mo_mmap mo)")
    case (Inl r)
    then show ?thesis using att assms(3) by (cases r) (simp add: arena_map_def)
  next
    case (Inr r)
    obtain d1 ms where r: "r = (d1, ms)" by (cases r)
    have d1: "same_but_map d d1" "set ms \<subseteq> set (mo_mmap mo)" using att Inr r by simp_all
    obtain k where k: "k \<le> 21" "mo_pagesize mo = 2 ^ k" using assms(1) by (auto simp: mmap_ok_def)
    have "unat (align_up (dc_budget d1) (mo_pagesize mo)) < unat (dc_budget d1) + 2 ^ k"
      using align_up_range [of k "dc_budget d1"] k assms(2) same_but_mapD(1) [OF d1(1)] by simp
    moreover have "(2 :: nat) ^ k \<le> 2 ^ 21" using k(1) by (intro power_increasing) auto
    ultimately have l: "unat (align_up (dc_budget d1) (mo_pagesize mo)) < 2 ^ 48"
      using assms(2) same_but_mapD(1) [OF d1(1)] by simp
    obtain p ms' where ms: "ms = Some p # ms'" and
        d': "d' = d1\<lparr>dc_mmap_len := align_up (dc_budget d1) (mo_pagesize mo), dc_mmap_base := p, dc_arena := p\<rparr>"
      using assms(3,4) Inr r by (auto simp: arena_map_def Let_def next_map_def split: list.splits option.splits)
    have "p \<noteq> 0 \<and> unat p < 2 ^ 47" using d1(2) ms assms(1) by (auto simp: mmap_ok_def)
    then have "mapped_ok d'" using l by (intro mapped_direct) (simp_all add: d')
    then show ?thesis using d1(1) by (simp add: d')
  qed
qed

declare dram_n_shards.simps [simp del]

lemma dram_n_shards_bounds: "0 < n \<Longrightarrow> 0 < dram_n_shards b n \<and> dram_n_shards b n \<le> n"
proof (induction b n rule: dram_n_shards.induct)
  case (1 budget n)
  show ?case
  proof (cases "1 < n \<and> budget div of_nat n < 1024 * 1024")
    case True
    then have "0 < n div 2" by auto
    then have "0 < dram_n_shards budget (n div 2) \<and> dram_n_shards budget (n div 2) \<le> n div 2" using 1(1) [OF True] by simp
    moreover have "dram_n_shards budget n = dram_n_shards budget (n div 2)" using True by (subst dram_n_shards.simps) simp
    ultimately show ?thesis by linarith
  next
    case False
    then have "dram_n_shards budget n = n" by (subst dram_n_shards.simps) (rule if_not_P)
    then show ?thesis using 1(2) by simp
  qed
qed

lemma shard0_links: "shard_links m (dram_shard0\<lparr>ds_budget := b\<rparr>) [] (replicate KV_DRAM_SHARD_BUCKETS [])"
  by (simp add: shard_links_def dram_shard0_def)

lemma dram_init_inv:
  assumes "dram_init mo budget entry_max backend = (KV_EOK, Some d)" and "mmap_ok mo" and "unat budget \<le> 2 ^ 46"
  shows "dram_inv d"
proof -
  define n where "n = dram_n_shards budget KV_DRAM_N_SHARDS"
  have n: "0 < n" "n \<le> 64" using dram_n_shards_bounds [of KV_DRAM_N_SHARDS budget] by (simp_all add: n_def KV_DRAM_N_SHARDS_def)
  obtain d0 b d1 where d0: "arena_map mo d0 backend = (b, d1)" "b \<noteq> 0" "d = d1\<lparr>dc_backend := b\<rparr>" "dc_budget d0 = budget"
      "dc_n_shards d0 = n" "dc_shards d0 = replicate n (dram_shard0\<lparr>ds_budget := budget div of_nat n\<rparr>) @ replicate (64 - n) dram_shard0"
      "dc_bump d0 = 0" "dc_freelists d0 = replicate KV_DRAM_N_CLASSES []" "dc_bytes d0 = 0" "dc_entries d0 = 0"
    using assms(1) by (auto simp: dram_init_def Let_def n_def KV_DRAM_N_SHARDS_def split: if_splits prod.splits)
  have m: "same_but_map d0 d1" "mapped_ok d1" using arena_map_ok [OF assms(2) _ d0(1,2)] d0(4) assms(3) by simp_all
  note f = same_but_mapD [OF m(1)]
  let ?Q = "replicate n ([] :: u64 list)"
  have sh: "dc_shard d1 i = dram_shard0\<lparr>ds_budget := budget div of_nat n\<rparr>" if "i < n" for i
    using that d0(6) f(3) by (simp add: dc_shard_def nth_append)
  have "dram_links d1 ?Q"
    using n d0 f sh shard0_links by (auto simp: dram_links_def)
  moreover have "dram_data d1 ?Q []"
    using n d0 f sh m(2) by (auto simp: dram_data_def arena_ok_def mapped_ok_def dram_shard0_def)
  ultimately have "dram_links d ?Q" "dram_data d ?Q []" by (simp_all add: d0(3))
  then show ?thesis unfolding dram_inv_def by blast
qed

section \<open>Every operation keeps the invariant\<close>

lemma dram_invI: "dram_links d Q \<Longrightarrow> dram_data d Q ks \<Longrightarrow> dram_inv d"
  unfolding dram_inv_def by blast

lemma dram_inv_misses [simp]: "dram_inv (d\<lparr>dc_misses := x\<rparr>) = dram_inv d"
  by (simp only: dram_inv_def dram_links_stat dram_data_stat)

lemma option_eqI:
  assumes "\<And>v. x = Some v \<longleftrightarrow> y = Some v"
  shows "x = y"
  using assms [of "the x"] assms [of "the y"] by (cases x; cases y) simp_all

lemma lookup_cong:
  assumes "dram_links d Q" "dram_data d Q ks" "dram_links d' Q" "dram_data d' Q ks'" "same_core (dc_mem d) (dc_mem d')"
  shows "dram_lookup d' = dram_lookup d"
proof
  fix k
  have c: "de_core (dc_mem d' a) = de_core (dc_mem d a)" for a using assms(5) by (simp add: same_core_def)
  have "dram_lookup d' k = Some v \<longleftrightarrow> dram_lookup d k = Some v" for v
    unfolding dram_lookup_Some [OF assms(1,2)] dram_lookup_Some [OF assms(3,4)] core_key [OF c] core_value [OF c] ..
  then show "dram_lookup d' k = dram_lookup d k" by (rule option_eqI)
qed

definition get_result :: "bool \<Rightarrow> u64 \<Rightarrow> u32 \<Rightarrow> nat \<Rightarrow> dram_value option \<Rightarrow> int \<times> (bytes \<times> dram_rec list) option" where
  "get_result ok now ver cap v =
    (case v of
       None \<Rightarrow> (- KV_ENOENT, None)
     | Some (v, ex, buf, recs) \<Rightarrow>
         if v \<noteq> ver \<or> ex \<noteq> 0 \<and> ucast ex < now then (- KV_ENOENT, None)
         else if \<not> ok then (- KV_ENOMEM, None)
         else (KV_EOK, Some (buf, take cap recs)))"

lemma dram_get_ok:
  assumes "dram_inv d"
  shows "\<exists>d'. dram_get ok now d p g ver cap = Some (get_result ok now ver cap (dram_lookup d (p, g)), d') \<and>
    dram_inv d' \<and> dram_env d d' \<and> dram_lookup d' = dram_lookup d"
proof -
  obtain Q ks where links: "dram_links d Q" and data: "dram_data d Q ks" using assms by (auto simp: dram_inv_def)
  let ?i = "shard_of d p g"
  have len: "length Q = dc_n_shards d" using links by (simp add: dram_links_def)
  have il: "?i < length Q" using shard_of_less [OF links] len by simp
  have miss: "dram_lookup (d\<lparr>dc_misses := x\<rparr>) = dram_lookup d" for x
    using links data by (intro lookup_cong [of d Q ks]) simp_all
  obtain r where r: "entry_find (dram_fuel d) (dc_mem d) (ds_buckets (dc_shard d ?i) ! bucket_of p g) p g = Some r"
      "\<forall>a. r = Some a \<longleftrightarrow> a \<in> set (Q ! ?i) \<and> de_key (dc_mem d a) = (p, g)"
    using entry_find_ok [OF links data refl] by blast
  show ?thesis
  proof (cases r)
    case None
    then have "dram_get ok now d p g ver cap = Some (get_result ok now ver cap (dram_lookup d (p, g)), d\<lparr>dc_misses := dc_misses d + 1\<rparr>)"
      using r(1) by (simp add: dram_get_def dram_lookup_def get_result_def Let_def)
    then show ?thesis using assms miss by auto
  next
    case (Some e)
    have e: "e \<in> set (Q ! ?i)" using r(2) Some by blast
    then have "e \<in> set (concat Q)" using nth_mem [OF il] by auto
    then have ok: "dentry_ok d ks e" using data unfolding dram_data_def by blast
    have lk: "dram_lookup d (p, g) = Some (de_value (dc_mem d e))" using r(1) Some by (simp add: dram_lookup_def)
    let ?m = "(dc_mem d)(e := (dc_mem d e)\<lparr>de_visited := True\<rparr>)" and ?sh = "dc_shard d ?i"
    let ?d = "d\<lparr>dc_mem := ?m, dc_hits := dc_hits d + 1\<rparr>"
    have eq: "dc_set d ?i ?m (?sh\<lparr>ds_hand := ds_hand ?sh\<rparr>) = d\<lparr>dc_mem := ?m\<rparr>"
      by (simp add: dc_set_def dc_shard_def)
    have m: "?m a = (dc_mem d a)\<lparr>de_visited := (a = e \<or> de_visited (dc_mem d a))\<rparr>" for a by simp
    obtain cs where "shard_links (dc_mem d) ?sh (Q ! ?i) cs" using links il len by (auto simp: dram_links_def)
    then have hand: "\<And>h. ds_hand ?sh = Some h \<Longrightarrow> h \<in> set (Q ! ?i)" by (simp add: shard_links_def)
    have "dram_links (dc_set d ?i ?m (?sh\<lparr>ds_hand := ds_hand ?sh\<rparr>)) Q"
      by (rule dram_touch_links [OF links il], erule hand, rule m)
    then have l2: "dram_links ?d Q" unfolding eq by simp
    have "dram_data (dc_set d ?i ?m (?sh\<lparr>ds_hand := ds_hand ?sh\<rparr>)) Q ks"
      by (rule dram_touch_data [OF data il], rule m)
    then have t2: "dram_data ?d Q ks" unfolding eq by simp
    have "same_core (dc_mem d) (dc_mem ?d)" by (simp add: same_core_def de_core_def de_data_def)
    then have hit: "dram_lookup ?d = dram_lookup d" by (rule lookup_cong [OF links data l2 t2])
    have env: "dram_env d ?d" by (simp add: dram_env_def arena_len_def dc_shard_def)
    have nr: "take (min (unat (de_n_records (dc_mem d e))) cap) (de_recs (dc_mem d e)) = take cap (de_recs (dc_mem d e))"
      using ok by (simp add: dentry_ok_def Let_def min_def)
    have g: "dram_get ok now d p g ver cap = Some (get_result ok now ver cap (dram_lookup d (p, g)),
        if de_ver (dc_mem d e) \<noteq> ver \<or> de_expire_ts (dc_mem d e) \<noteq> 0 \<and> ucast (de_expire_ts (dc_mem d e)) < now
        then d\<lparr>dc_misses := dc_misses d + 1\<rparr> else if \<not> ok then d else ?d)" for ok
      unfolding dram_get_def Let_def r(1) Some lk get_result_def de_value_def nr by (simp add: nr)
    show ?thesis
      unfolding g using assms dram_invI [OF l2 t2] hit miss env by simp
  qed
qed

lemma dram_invalidate_ok:
  assumes "dram_inv d"
  shows "\<exists>d'. dram_invalidate d p g = Some d' \<and> dram_inv d' \<and> dram_env d d' \<and> dram_lookup d' = (dram_lookup d)((p, g) := None)"
proof -
  obtain Q ks where links: "dram_links d Q" and data: "dram_data d Q ks" using assms by (auto simp: dram_inv_def)
  let ?i = "shard_of d p g"
  have len: "length Q = dc_n_shards d" using links by (simp add: dram_links_def)
  have il: "?i < length Q" using shard_of_less [OF links] len by simp
  obtain r where r: "entry_find (dram_fuel d) (dc_mem d) (ds_buckets (dc_shard d ?i) ! bucket_of p g) p g = Some r"
      "\<forall>a. r = Some a \<longleftrightarrow> a \<in> set (Q ! ?i) \<and> de_key (dc_mem d a) = (p, g)"
    using entry_find_ok [OF links data refl] by blast
  show ?thesis
  proof (cases r)
    case None
    then have "dram_lookup d (p, g) = None" using r(1) by (simp add: dram_lookup_def)
    then have "(dram_lookup d)((p, g) := None) = dram_lookup d" by auto
    then show ?thesis using None r(1) assms by (simp add: dram_invalidate_def Let_def)
  next
    case (Some e)
    have e: "e \<in> set (Q ! ?i)" "de_key (dc_mem d e) = (p, g)" using r(2) Some by blast+
    let ?q = "remove1 e (Q ! ?i)"
    obtain d' where d': "map_option (\<lambda>d. entry_free d ?i e) (entry_unlink d ?i e) = Some d'" "dram_links d' (Q[?i := ?q])"
        "dram_data d' (Q[?i := ?q]) ks" "same_core (dc_mem d) (dc_mem d')" "dram_env d d'"
      using entry_remove_ok [OF links data il e(1)] by blast
    have c: "de_core (dc_mem d' a) = de_core (dc_mem d a)" for a using d'(4) by (simp add: same_core_def)
    have ms: "mset (concat Q) = add_mset e (mset (concat (Q[?i := ?q])))" using il e(1) by (rule mset_concat_remove1)
    have st: "set (concat Q) = insert e (set (concat (Q[?i := ?q])))"
      using mset_eq_setD [of "concat Q" "e # concat (Q[?i := ?q])"] ms by simp
    have "distinct (concat Q)" using links by (simp add: dram_links_def)
    then have ne: "e \<notin> set (concat (Q[?i := ?q]))" using ms by (metis distinct.simps(2) mset.simps(2) mset_eq_imp_distinct_iff)
    have inj: "inj_on (\<lambda>a. de_key (dc_mem d a)) (set (concat Q))" using links by (simp add: dram_links_def)
    have other: "a \<in> set (concat (Q[?i := ?q])) \<longleftrightarrow> a \<in> set (concat Q) \<and> de_key (dc_mem d a) \<noteq> (p, g)" for a
    proof
      assume a: "a \<in> set (concat (Q[?i := ?q]))"
      then have "a \<noteq> e" "a \<in> set (concat Q)" "e \<in> set (concat Q)" using ne st by blast+
      then show "a \<in> set (concat Q) \<and> de_key (dc_mem d a) \<noteq> (p, g)" using inj_onD [OF inj, of a e] e(2) by auto
    qed (use st e(2) in auto)
    have "dram_lookup d' k = ((dram_lookup d)((p, g) := None)) k" for k
    proof -
      have "dram_lookup d' k = Some v \<longleftrightarrow> k \<noteq> (p, g) \<and> dram_lookup d k = Some v" for v
        unfolding dram_lookup_Some [OF links data] dram_lookup_Some [OF d'(2,3)] core_key [OF c] core_value [OF c]
        using other by metis
      then show ?thesis by (intro option_eqI) simp
    qed
    then have "dram_lookup d' = (dram_lookup d)((p, g) := None)" by (rule ext)
    moreover have "dram_invalidate d p g = Some d'" using d'(1) Some r(1) by (simp add: dram_invalidate_def Let_def)
    ultimately show ?thesis using dram_invI [OF d'(2,3)] d'(5) by blast
  qed
qed

lemma in_concat_nth: "a \<in> set (concat Q) \<Longrightarrow> \<exists>j < length Q. a \<in> set (Q ! j)"
proof -
  assume "a \<in> set (concat Q)"
  then obtain xs where "xs \<in> set Q" "a \<in> set xs" by auto
  then show ?thesis by (metis in_set_conv_nth)
qed

lemma links_at:
  assumes "dram_links d Q" and "a \<in> set (concat Q)" and "de_key (dc_mem d a) = (p, g)"
  shows "a \<in> set (Q ! shard_of d p g)"
proof -
  obtain j where j: "j < length Q" "a \<in> set (Q ! j)" using in_concat_nth [OF assms(2)] by blast
  then have "shard_of d (de_prefix_id (dc_mem d a)) (de_group_idx (dc_mem d a)) = j" using assms(1) by (simp add: dram_links_def)
  then show ?thesis using j assms(3) by simp
qed

lemma put_keeps_lookup:
  assumes links: "dram_links d Q" and data: "dram_data d Q ks" and i: "i < length Q"
    and links': "dram_links d' (Q[i := q])" and data': "dram_data d' (Q[i := q]) ks'"
    and keeps: "put_keeps d (Q ! i) k d' q" and k: "k' \<noteq> k"
  shows "dram_lookup d' k' = None \<or> dram_lookup d' k' = dram_lookup d k'"
proof (cases "dram_lookup d' k'")
  case (Some v)
  then obtain a where a: "a \<in> set (concat (Q[i := q]))" "de_key (dc_mem d' a) = k'" "de_value (dc_mem d' a) = v"
    using dram_lookup_Some [OF links' data'] by blast
  obtain j where j: "j < length Q" "a \<in> set (Q[i := q] ! j)"
    using in_concat_nth [OF a(1)] by auto
  have "a \<in> set (Q ! j) \<and> de_core (dc_mem d' a) = de_core (dc_mem d a)"
  proof (cases "j = i")
    case True
    then have "a \<in> set q" using j i by simp
    then show ?thesis using keeps a(2) k True unfolding put_keeps_def by blast
  next
    case False
    then have aj: "a \<in> set (Q ! j)" using j by simp
    have "distinct (concat (Q[i := q]))" using links' by (simp add: dram_links_def)
    then have "a \<notin> set (Q[i := q] ! i)" using j i False by (intro distinct_concat_disjoint [of "Q[i := q]" j i]) auto
    then show ?thesis using keeps aj i unfolding put_keeps_def by simp
  qed
  then have "a \<in> set (concat Q)" "de_core (dc_mem d' a) = de_core (dc_mem d a)" using nth_mem [OF j(1)] by auto
  then have "dram_lookup d k' = Some v"
    using a core_key [of "dc_mem d' a" "dc_mem d a"] core_value [of "dc_mem d' a" "dc_mem d a"] dram_lookup_Some [OF links data] by metis
  then show ?thesis using Some by simp
qed simp

definition put_outcome :: "dram_cache \<Rightarrow> u64 \<times> u32 \<Rightarrow> dram_value \<Rightarrow> u64 option \<Rightarrow> int \<Rightarrow> dram_cache \<Rightarrow> bool" where
  "put_outcome d k v mres r d' \<longleftrightarrow>
    (case v of (ver, ex, buf, recs) \<Rightarrow>
      if dram_rejects d buf recs then r = KV_EFULL \<and> d' = d
      else if (case dram_lookup d k of None \<Rightarrow> False | Some w \<Rightarrow> ver \<le> fst w) then r = KV_EOK \<and> d' = d
      else r = KV_EOK \<and> dram_lookup d' k = Some v \<or> r = KV_EFULL \<and> mres = None \<and> dram_lookup d' k = None)"

lemma dram_put_inv:
  assumes "dram_inv d" and "malloc_ok d mres" and "length recs < 2 ^ 16" and "56 + 12 * length recs + length buf < 2 ^ 32"
  shows "\<exists>r d'. dram_put mres d p g ver expire_ts buf recs = Some (r, d') \<and> dram_inv d' \<and> dram_env d d' \<and>
    (\<forall>k. k \<noteq> (p, g) \<longrightarrow> dram_lookup d' k = None \<or> dram_lookup d' k = dram_lookup d k) \<and>
    put_outcome d (p, g) (ver, expire_ts, buf, recs) mres r d' \<and>
    (let i = shard_of d p g
     in d' \<noteq> d \<and> r = KV_EOK \<and> length (shard_addrs d i) < 1024 \<longrightarrow>
       ds_bytes (dc_shard d' i) \<le> ds_budget (dc_shard d' i) \<or> length (shard_addrs d' i) = 1)"
proof -
  obtain Q ks where links: "dram_links d Q" and data: "dram_data d Q ks" using assms(1) by (auto simp: dram_inv_def)
  define i where "i = shard_of d p g"
  have il: "i < length Q" using shard_of_less [OF links] links by (simp add: dram_links_def i_def)
  have fresh: "malloc_fresh d Q mres" using assms(2) dram_addrs_eq [OF links data] by (simp add: malloc_ok_def malloc_fresh_def)
  obtain r d' q ks' where r: "dram_put mres d p g ver expire_ts buf recs = Some (r, d')" "dram_links d' (Q[i := q])"
      "dram_data d' (Q[i := q]) ks'" "dram_env d d'" "put_keeps d (Q ! i) (p, g) d' q"
      "if dram_rejects d buf recs then r = KV_EFULL \<and> d' = d
       else if \<exists>a \<in> set (Q ! i). de_key (dc_mem d a) = (p, g) \<and> ver \<le> de_ver (dc_mem d a) then r = KV_EOK \<and> d' = d
       else r = KV_EOK \<and> (\<exists>e \<in> set q. de_key (dc_mem d' e) = (p, g) \<and> de_value (dc_mem d' e) = (ver, expire_ts, buf, recs) \<and>
              (length (Q ! i) < 1024 \<longrightarrow> ds_bytes (dc_shard d' i) \<le> ds_budget (dc_shard d' i) \<or> q = [e])) \<or>
            r = KV_EFULL \<and> mres = None \<and> (\<forall>a \<in> set q. de_key (dc_mem d' a) \<noteq> (p, g))"
    using dram_put_ok [OF links data fresh assms(3,4) i_def] by blast
  have at_i: "a \<in> set (Q ! i)" if "a \<in> set (concat Q)" "de_key (dc_mem d a) = (p, g)" for a
    unfolding i_def using links that by (rule links_at)
  have at_q: "a \<in> set q" if "a \<in> set (concat (Q[i := q]))" "de_key (dc_mem d' a) = (p, g)" for a
  proof -
    have "i = shard_of d' p g" using i_def shard_of_cong [of d' d] r(4) by (simp add: dram_env_def)
    then show ?thesis using links_at [OF r(2) that] il by simp
  qed
  have sub: "a \<in> set (concat (Q[i := q]))" if "a \<in> set q" for a using that set_update_memI [OF il, of q] by auto
  have nth: "a \<in> set (concat Q)" if "a \<in> set (Q ! i)" for a using that nth_mem [OF il] by auto
  have newer: "(case dram_lookup d (p, g) of None \<Rightarrow> False | Some w \<Rightarrow> ver \<le> fst w) \<longleftrightarrow>
      (\<exists>a \<in> set (Q ! i). de_key (dc_mem d a) = (p, g) \<and> ver \<le> de_ver (dc_mem d a))"
  proof (cases "dram_lookup d (p, g)")
    case None
    then have "\<forall>a \<in> set (Q ! i). de_key (dc_mem d a) \<noteq> (p, g)" using dram_lookup_None [OF links data] nth by blast
    then show ?thesis using None by auto
  next
    case (Some w)
    have w: "de_ver (dc_mem d a) = fst w" if "a \<in> set (Q ! i)" "de_key (dc_mem d a) = (p, g)" for a
    proof -
      have "dram_lookup d (p, g) = Some (de_value (dc_mem d a))"
        using dram_lookup_Some [OF links data] nth [OF that(1)] that(2) by blast
      then show ?thesis using Some by (auto simp: de_value_def)
    qed
    obtain a where "a \<in> set (concat Q)" "de_key (dc_mem d a) = (p, g)" using dram_lookup_Some [OF links data] Some by blast
    then have "a \<in> set (Q ! i)" "de_key (dc_mem d a) = (p, g)" using at_i by blast+
    then show ?thesis unfolding Some option.case using w by metis
  qed
  have some: "dram_lookup d' (p, g) = Some v" if "e \<in> set q" "de_key (dc_mem d' e) = (p, g)" "de_value (dc_mem d' e) = v" for e v
    using dram_lookup_Some [OF r(2,3)] sub [OF that(1)] that(2,3) by blast
  have none: "dram_lookup d' (p, g) = None" if "\<forall>a \<in> set q. de_key (dc_mem d' a) \<noteq> (p, g)"
    using dram_lookup_None [OF r(2,3)] at_q that by blast
  have "put_outcome d (p, g) (ver, expire_ts, buf, recs) mres r d'"
    unfolding put_outcome_def prod.case newer
    using r(6) some none by metis
  moreover have "\<forall>k. k \<noteq> (p, g) \<longrightarrow> dram_lookup d' k = None \<or> dram_lookup d' k = dram_lookup d k"
    using put_keeps_lookup [OF links data il r(2,3,5)] by blast
  moreover have "length (shard_addrs d i) < 1024 \<longrightarrow> ds_bytes (dc_shard d' i) \<le> ds_budget (dc_shard d' i) \<or> length (shard_addrs d' i) = 1"
    if "d' \<noteq> d" "r = KV_EOK"
    using that r(6) shard_addrs_eq [OF links data il] shard_addrs_eq [OF r(2,3), of i] il by (auto simp: KV_EOK_def KV_EFULL_def split: if_splits)
  ultimately show ?thesis using r(1,4) dram_invI [OF r(2,3)] i_def by (intro exI [of _ r] exI [of _ d']) (simp add: Let_def)
qed

lemma dram_reach_inv: "dram_reach d \<Longrightarrow> dram_inv d"
proof (induction rule: dram_reach.induct)
  case (init mo budget entry_max backend d)
  then show ?case by (rule dram_init_inv)
next
  case (put d mres recs buf p g ver expire_ts r d')
  obtain r1 d1 where "dram_put mres d p g ver expire_ts buf recs = Some (r1, d1)" "dram_inv d1"
    using dram_put_inv [OF put.IH put.hyps(2-4), of p g ver expire_ts] by blast
  then show ?case using put.hyps(5) by simp
next
  case (get d ok now p g ver cap r d')
  obtain r1 d1 where "dram_get ok now d p g ver cap = Some (r1, d1)" "dram_inv d1"
    using dram_get_ok [OF get.IH, of ok now p g ver cap] by blast
  then show ?case using get.hyps(2) by simp
next
  case (invalidate d p g d')
  obtain d1 where "dram_invalidate d p g = Some d1" "dram_inv d1" using dram_invalidate_ok [OF invalidate.IH, of p g] by blast
  then show ?case using invalidate.hyps(2) by simp
qed

lemma dram_data_disjoint:
  assumes data: "dram_data d Q ks" and ab: "a \<in> set (concat Q)" "b \<in> set (concat Q)" "a \<noteq> b"
    and ext: "\<not> de_external (dc_mem d a)" "\<not> de_external (dc_mem d b)"
  shows "unat a + entry_size (dc_mem d a) \<le> unat b \<or> unat b + entry_size (dc_mem d b) \<le> unat a"
proof -
  have ok: "dentry_ok d ks a" "dentry_ok d ks b" using data ab unfolding dram_data_def by blast+
  have ar: "arena_ok d ks" using data by (simp add: dram_data_def)
  let ?c = "\<lambda>a. de_size_class (dc_mem d a)" and ?o = "\<lambda>a. unat a - unat (dc_arena d)"
  have blk: "block_ok d ks a (?c a)" "block_ok d ks b (?c b)" using ok ext by (simp_all add: dentry_ok_def Let_def)
  have "entry_size (dc_mem d a) \<le> cap_of (?c a)" "entry_size (dc_mem d b) \<le> cap_of (?c b)"
    using ok ext tot_of_size [of "dc_mem d a"] tot_of_size [of "dc_mem d b"] by (simp_all add: dentry_ok_def Let_def)
  moreover have "unat (dc_arena d) \<le> unat a" "unat (dc_arena d) \<le> unat b"
    using block_in_range(1) [OF ar blk(1)] block_in_range(1) [OF ar blk(2)] by simp_all
  moreover have "unat a \<noteq> unat b" using ab(3) by (simp add: word_unat_eq_iff)
  moreover have "?o a \<noteq> ?o b" using calculation(3-5) by linarith
  then have "?o a + cap_of (?c a) \<le> ?o b \<or> ?o b + cap_of (?c b) \<le> ?o a"
    using blk by (intro blocks_at_disjoint [of _ _ 0 ks]) (simp_all add: block_ok_def)
  ultimately show ?thesis by linarith
qed

section \<open>A small cache\<close>

definition sample_map :: map_outcome where
  "sample_map = \<lparr>mo_hugetlb = False, mo_mmap = [Some 0x10000000], mo_madvise = True, mo_pagesize = 4096\<rparr>"

definition sample_dram :: dram_cache where
  "sample_dram = the (snd (dram_init sample_map 1048576 0 KV_DRAM_BACKEND_PLAIN))"

definition sample_dram1 :: dram_cache where
  "sample_dram1 = snd (the (dram_put None sample_dram 7 1 1 0 [1, 2, 3] []))"

lemma sample_dram_reach: "dram_reach sample_dram"
proof (rule dram_reach.init)
  have "fst (dram_init sample_map 1048576 0 KV_DRAM_BACKEND_PLAIN) = KV_EOK" by code_simp
  moreover have "\<not> Option.is_none (snd (dram_init sample_map 1048576 0 KV_DRAM_BACKEND_PLAIN))" by code_simp
  ultimately show "dram_init sample_map 1048576 0 KV_DRAM_BACKEND_PLAIN = (KV_EOK, Some sample_dram)"
    by (simp add: sample_dram_def prod_eq_iff Option.is_none_def)
  show "mmap_ok sample_map" unfolding mmap_ok_def sample_map_def by (auto intro: exI [of _ 12])
  show "unat (1048576 :: u64) \<le> 2 ^ 46" by simp
qed

lemma sample_dram_put: "dram_put None sample_dram 7 1 1 0 [1, 2, 3] [] = Some (KV_EOK, sample_dram1)"
proof -
  have "map_option fst (dram_put None sample_dram 7 1 1 0 [1, 2, 3] []) = Some KV_EOK" by code_simp
  then show ?thesis unfolding sample_dram1_def by (cases "dram_put None sample_dram 7 1 1 0 [1, 2, 3] []") auto
qed

lemma sample_malloc [simp]: "malloc_ok d None"
  by (simp add: malloc_ok_def)

lemma sample_dram1_reach: "dram_reach sample_dram1"
  by (rule dram_reach.put [OF sample_dram_reach sample_malloc _ _ sample_dram_put]) simp_all

section \<open>Properties\<close>

text \<open>C26: In every state the cache can reach from its creation by puts, gets and invalidations, for
  whatever the kernel and the allocator answer within their contracts: no address is in use
  twice, the entry count and the byte count are exact, an entry in the arena ends within the
  mapped arena, and two entries in the arena never overlap, header, record table and payload
  included.\<close>

theorem dram_memory_safe:
  assumes "dram_reach d"
  shows "distinct (dram_addrs d) \<and> unat (dc_entries d) = length (dram_addrs d) \<and>
    dc_bytes d = (\<Sum>a \<leftarrow> dram_addrs d. of_nat (entry_size (dc_mem d a))) \<and>
    (\<forall>a \<in> set (dram_addrs d). a \<noteq> 0 \<and> (if de_external (dc_mem d a) then outside_arena d a
      else dc_arena d \<le> a \<and> unat a + entry_size (dc_mem d a) \<le> unat (dc_arena d) + unat (arena_len d))) \<and>
    (\<forall>a \<in> set (dram_addrs d). \<forall>b \<in> set (dram_addrs d).
      a \<noteq> b \<and> \<not> de_external (dc_mem d a) \<and> \<not> de_external (dc_mem d b) \<longrightarrow>
      unat a + entry_size (dc_mem d a) \<le> unat b \<or> unat b + entry_size (dc_mem d b) \<le> unat a)"
proof -
  obtain Q ks where links: "dram_links d Q" and data: "dram_data d Q ks"
    using dram_reach_inv [OF assms] by (auto simp: dram_inv_def)
  have dist: "distinct (concat Q)" using links by (simp add: dram_links_def)
  have ar: "arena_ok d ks" using data by (simp add: dram_data_def)
  have ok: "dentry_ok d ks a" if "a \<in> set (concat Q)" for a using data that unfolding dram_data_def by blast
  have size: "unat (tot_of (dc_mem d a)) = entry_size (dc_mem d a)" if "a \<in> set (concat Q)" for a
    using ok [OF that] by (intro tot_of_size) (simp_all add: dentry_ok_def Let_def)
  have "map (\<lambda>a. tot_of (dc_mem d a)) (concat Q) = map (\<lambda>a. of_nat (entry_size (dc_mem d a))) (concat Q)"
    using size by (intro map_cong) (auto simp: word_unat_eq_iff [symmetric] simp flip: size)
  moreover have "dc_bytes d = (\<Sum>a \<leftarrow> concat Q. tot_of (dc_mem d a))" using data unfolding dram_data_def by blast
  ultimately have bytes: "dc_bytes d = (\<Sum>a \<leftarrow> concat Q. of_nat (entry_size (dc_mem d a)))" by (simp only:)
  have place: "a \<noteq> 0 \<and> (if de_external (dc_mem d a) then outside_arena d a
      else dc_arena d \<le> a \<and> unat a + entry_size (dc_mem d a) \<le> unat (dc_arena d) + unat (arena_len d))"
    if a: "a \<in> set (concat Q)" for a
  proof (cases "de_external (dc_mem d a)")
    case False
    then have "block_ok d ks a (de_size_class (dc_mem d a))" "entry_size (dc_mem d a) \<le> cap_of (de_size_class (dc_mem d a))"
      using ok [OF a] size [OF a] by (simp_all add: dentry_ok_def Let_def)
    then show ?thesis
      using ok [OF a] block_in_range(1,2) [OF ar] ar False by (fastforce simp: dentry_ok_def arena_ok_def word_le_nat_alt)
  qed (use ok [OF a] in \<open>simp add: dentry_ok_def Let_def\<close>)
  then have all: "\<forall>a \<in> set (concat Q). a \<noteq> 0 \<and> (if de_external (dc_mem d a) then outside_arena d a
      else dc_arena d \<le> a \<and> unat a + entry_size (dc_mem d a) \<le> unat (dc_arena d) + unat (arena_len d))" ..
  have disj: "\<forall>a \<in> set (concat Q). \<forall>b \<in> set (concat Q).
      a \<noteq> b \<and> \<not> de_external (dc_mem d a) \<and> \<not> de_external (dc_mem d b) \<longrightarrow>
      unat a + entry_size (dc_mem d a) \<le> unat b \<or> unat b + entry_size (dc_mem d b) \<le> unat a"
    using dram_data_disjoint [OF data] by blast
  show ?thesis
    unfolding dram_addrs_eq [OF links data] by (intro conjI dist entries_count [OF data] bytes all disj)
qed

theorem dram_memory_safe_witness:
  "distinct (dram_addrs sample_dram1) \<and> unat (dc_entries sample_dram1) = length (dram_addrs sample_dram1)"
  using dram_memory_safe [OF sample_dram1_reach] by blast

text \<open>C27: A put is found.  When a put of a payload that fits, with no newer version of the key in the
  cache, answers success, a following get of the same key and version that has not expired
  returns exactly the payload and the records that were put, in full when the caller has room for
  them; every other key answers afterwards what it answered before or is gone.\<close>

theorem dram_put_get:
  assumes "dram_reach d" and "malloc_ok d mres" and "length recs < 2 ^ 16" and "56 + 12 * length recs + length buf < 2 ^ 32"
    and "\<not> dram_rejects d buf recs" and "case dram_lookup d (p, g) of None \<Rightarrow> True | Some w \<Rightarrow> fst w < ver"
    and "dram_put mres d p g ver expire_ts buf recs = Some (KV_EOK, d')"
    and "expire_ts = 0 \<or> now \<le> ucast expire_ts" and "length recs \<le> cap"
  shows "(\<exists>d''. dram_get True now d' p g ver cap = Some ((KV_EOK, Some (buf, recs)), d'')) \<and>
    (\<forall>k. k \<noteq> (p, g) \<longrightarrow> dram_lookup d' k = None \<or> dram_lookup d' k = dram_lookup d k)"
proof -
  obtain r1 d1 where d1: "dram_put mres d p g ver expire_ts buf recs = Some (r1, d1)" "dram_inv d1"
      "\<forall>k. k \<noteq> (p, g) \<longrightarrow> dram_lookup d1 k = None \<or> dram_lookup d1 k = dram_lookup d k"
      "put_outcome d (p, g) (ver, expire_ts, buf, recs) mres r1 d1"
    using dram_put_inv [OF dram_reach_inv [OF assms(1)] assms(2-4), of p g ver expire_ts] by blast
  have eq: "d1 = d'" "r1 = KV_EOK" using d1(1) assms(7) by simp_all
  have "\<not> (case dram_lookup d (p, g) of None \<Rightarrow> False | Some w \<Rightarrow> ver \<le> fst w)"
    using assms(6) by (auto split: option.splits)
  then have "dram_lookup d' (p, g) = Some (ver, expire_ts, buf, recs)"
    using d1(4) assms(5) unfolding put_outcome_def eq prod.case by (simp add: KV_EOK_def KV_EFULL_def)
  then have "get_result True now ver cap (dram_lookup d' (p, g)) = (KV_EOK, Some (buf, recs))"
    using assms(8,9) by (auto simp: get_result_def)
  then show ?thesis using dram_get_ok [OF d1(2), of True now p g ver cap] d1(3) unfolding eq by auto
qed

theorem dram_put_get_witness:
  "\<exists>d''. dram_get True 5 sample_dram1 7 1 1 0 = Some ((KV_EOK, Some ([1, 2, 3], [])), d'')"
proof -
  have "dc_entry_max sample_dram = 8388608 \<and> dc_budget sample_dram = 1048576" by code_simp
  then have "\<not> dram_rejects sample_dram [1, 2, 3] []" by (simp add: dram_rejects_def)
  moreover have "case dram_lookup sample_dram (7, 1) of None \<Rightarrow> True | Some w \<Rightarrow> fst w < (1 :: u32)" by code_simp
  ultimately show ?thesis
    using dram_put_get [OF sample_dram_reach sample_malloc _ _ _ _ sample_dram_put, of 5 0] by simp
qed

text \<open>C29: What a get and an invalidation do in every reachable state.  Both return.  A get answers
  from the entry of the key alone: not found when there is none, when its version differs or when
  it has expired, out of memory when the copy cannot be allocated, and otherwise the stored
  payload with as many records as the caller has room for; it changes the contents of no entry.
  An invalidation removes exactly the entry of its key.\<close>

theorem dram_get_exact:
  assumes "dram_reach d"
  shows "(\<exists>d'. dram_get ok now d p g ver cap = Some (get_result ok now ver cap (dram_lookup d (p, g)), d') \<and>
      dram_lookup d' = dram_lookup d) \<and>
    (\<exists>d'. dram_invalidate d p g = Some d' \<and> dram_lookup d' = (dram_lookup d)((p, g) := None))"
  using dram_get_ok [OF dram_reach_inv [OF assms], of ok now p g ver cap]
    dram_invalidate_ok [OF dram_reach_inv [OF assms], of p g] by blast

theorem dram_get_exact_witness:
  "\<exists>d'. dram_invalidate sample_dram1 7 1 = Some d' \<and> dram_lookup d' = (dram_lookup sample_dram1)((7, 1) := None)"
  using dram_get_exact [OF sample_dram1_reach, where p = 7 and g = 1] by blast

text \<open>C28: Eviction ends and reaches its goal.  A put returns in every reachable state; when it changed
  the cache and the shard held fewer than 1024 entries, so that the guard of 4096 rounds cannot
  run out, the shard is afterwards within its byte budget or holds the new entry alone.\<close>

theorem dram_put_within_budget:
  assumes "dram_reach d" and "malloc_ok d mres" and "length recs < 2 ^ 16" and "56 + 12 * length recs + length buf < 2 ^ 32"
  shows "\<exists>r d'. dram_put mres d p g ver expire_ts buf recs = Some (r, d') \<and>
    (let i = shard_of d p g
     in d' \<noteq> d \<and> r = KV_EOK \<and> length (shard_addrs d i) < 1024 \<longrightarrow>
       ds_bytes (dc_shard d' i) \<le> ds_budget (dc_shard d i) \<or> length (shard_addrs d' i) = 1)"
proof -
  obtain r d' where r: "dram_put mres d p g ver expire_ts buf recs = Some (r, d')" "dram_env d d'"
      "let i = shard_of d p g in d' \<noteq> d \<and> r = KV_EOK \<and> length (shard_addrs d i) < 1024 \<longrightarrow>
        ds_bytes (dc_shard d' i) \<le> ds_budget (dc_shard d' i) \<or> length (shard_addrs d' i) = 1"
    using dram_put_inv [OF dram_reach_inv [OF assms(1)] assms(2-4), of p g ver expire_ts] by blast
  have "ds_budget (dc_shard d' j) = ds_budget (dc_shard d j)" for j using r(2) by (simp add: dram_env_def)
  then show ?thesis using r(1,3) by (intro exI [of _ r] exI [of _ d']) simp
qed

theorem dram_put_within_budget_witness:
  "\<exists>r d'. dram_put None sample_dram1 7 2 1 0 [4, 5] [] = Some (r, d')"
  using dram_put_within_budget [OF sample_dram1_reach sample_malloc, where p = 7 and g = 2 and ver = 1 and expire_ts = 0 and buf = "[4, 5]" and recs = "[]"]
  by auto

end
