(* ===== verification/KV_Leaf_Ops.thy ===== *)
theory KV_Leaf_Ops
  imports KV_Leaf_Inv KV_Dram_Spec
begin

text \<open>
  The invariant of the cache's index and accounts, and that publishing, dropping, pinning,
  reaping and dropping a region keep it.
\<close>

section \<open>Invariant\<close>

definition atts :: "cache \<Rightarrow> nat option list" where
  "atts c = map rn_leaf (rt_nodes (c_radix c))"

definition n_att :: "nat option list \<Rightarrow> nat" where
  "n_att as = length (filter (\<lambda>a. a \<noteq> None) as)"

definition side_nodes_ok :: "cache \<Rightarrow> bool" where
  "side_nodes_ok c \<longleftrightarrow> side_inv (c_side c) \<and>
    (\<forall>s \<in> set (st_slots (c_side c)). ss_used s \<noteq> 0 \<longrightarrow>
      (\<exists>n. ss_node s = Some n \<and> n < length (rt_nodes (c_radix c))))"

definition cache_dims :: "cache \<Rightarrow> bool" where
  "cache_dims c \<longleftrightarrow> 0 < c_n_devs c \<and> length (c_devs c) = c_n_devs c \<and> length (c_rms c) = c_n_devs c \<and>
    length (c_journals c) = c_n_devs c \<and> c_n_devs c < 2 ^ 31 \<and>
    (\<forall>rm \<in> set (c_rms c). length (rm_rg rm) = unat (rm_region_cnt rm) \<and> 0 < unat (rm_region_cnt rm) \<and>
      unat (rm_region_cnt rm) < 2 ^ 31 \<and> rm_region_size_pages rm \<noteq> 0 \<and>
      kRegionBasePage + unat (rm_region_cnt rm) * unat (rm_region_size_pages rm) < 2 ^ 63)"

definition cache_inv :: "cache \<Rightarrow> bool" where
  "cache_inv c \<longleftrightarrow> cache_dims c \<and> leaves_ok (c_rms c) (atts c) (c_leaves c) (c_dfree c) \<and>
    rt_n_leaves (c_radix c) = of_nat (n_att (atts c)) \<and> radix_inv (c_radix c) \<and>
    (\<forall>d. c_dram c = Some d \<longrightarrow> dram_inv d) \<and> side_nodes_ok c"

lemma cache_invD:
  assumes "cache_inv c"
  shows "cache_dims c" "leaves_ok (c_rms c) (atts c) (c_leaves c) (c_dfree c)"
    "rt_n_leaves (c_radix c) = of_nat (n_att (atts c))" "radix_inv (c_radix c)"
    "\<And>d. c_dram c = Some d \<Longrightarrow> dram_inv d" "side_nodes_ok c"
  using assms by (auto simp: cache_inv_def)

lemma cache_invI:
  assumes "cache_dims c" "leaves_ok (c_rms c) (atts c) (c_leaves c) (c_dfree c)"
    "rt_n_leaves (c_radix c) = of_nat (n_att (atts c))" "radix_inv (c_radix c)"
    "\<And>d. c_dram c = Some d \<Longrightarrow> dram_inv d" "side_nodes_ok c"
  shows "cache_inv c"
  using assms by (auto simp: cache_inv_def)

text \<open>Fields the invariant does not read.\<close>

lemma cache_inv_frame [simp]:
  "cache_inv (c\<lparr>c_ckpt_wanted := b\<rparr>) = cache_inv c" "cache_inv (c\<lparr>c_stat := st\<rparr>) = cache_inv c"
  "cache_inv (c\<lparr>c_tomb_keys := tk\<rparr>) = cache_inv c" "cache_inv (c\<lparr>c_tomb_cf := tc\<rparr>) = cache_inv c"
  "cache_inv (c\<lparr>c_radix := (c_radix c)\<lparr>rt_mem := mem\<rparr>\<rparr>) = cache_inv c"
  "cache_inv (c\<lparr>c_shapes := sh\<rparr>) = cache_inv c" "cache_inv (c\<lparr>c_ctxs := cx\<rparr>) = cache_inv c"
  "cache_inv (c\<lparr>c_acks := ak\<rparr>) = cache_inv c" "cache_inv (c\<lparr>c_writers := ws\<rparr>) = cache_inv c"
  "cache_inv (c\<lparr>c_ver_counter := vc\<rparr>) = cache_inv c" "cache_inv (c\<lparr>c_m := m\<rparr>) = cache_inv c"
  by (simp_all add: cache_inv_def cache_dims_def atts_def side_nodes_ok_def radix_inv_def)

lemma cache_inv_io:
  "length js = length (c_journals c) \<Longrightarrow> length ds = length (c_devs c) \<Longrightarrow>
    cache_inv (c\<lparr>c_journals := js, c_devs := ds\<rparr>) = cache_inv c"
  by (simp add: cache_inv_def cache_dims_def atts_def side_nodes_ok_def)

lemma with_journal_frame:
  "\<exists>js ds. snd (with_journal c i f) = c\<lparr>c_journals := js, c_devs := ds\<rparr> \<and>
    length js = length (c_journals c) \<and> length ds = length (c_devs c)"
  by (simp add: with_journal_def split: prod.split)
    (metis length_list_update)

lemma with_journal_inv [simp]: "cache_inv (snd (with_journal c i f)) = cache_inv c"
  using with_journal_frame [of c i f] cache_inv_io by metis

lemma leaf_journal_frame:
  "\<exists>js ds b. leaf_journal c w p g v a x si sn fl dl sh path pl =
    c\<lparr>c_journals := js, c_devs := ds, c_ckpt_wanted := b\<rparr> \<and>
    length js = length (c_journals c) \<and> length ds = length (c_devs c)"
proof -
  have wj: "\<exists>js ds b. (case with_journal c i f of (rc, c) \<Rightarrow> if rc = - KV_EFULL then c\<lparr>c_ckpt_wanted := True\<rparr> else c) =
      c\<lparr>c_journals := js, c_devs := ds, c_ckpt_wanted := b\<rparr> \<and>
      length js = length (c_journals c) \<and> length ds = length (c_devs c)" for i f
  proof -
    obtain js ds where 1: "snd (with_journal c i f) = c\<lparr>c_journals := js, c_devs := ds\<rparr>"
      "length js = length (c_journals c)" "length ds = length (c_devs c)" using with_journal_frame by blast
    obtain rc c' where 2: "with_journal c i f = (rc, c')" by (cases "with_journal c i f")
    show ?thesis
    proof (cases "rc = - KV_EFULL")
      case True
      with 1 2 show ?thesis by (intro exI [of _ js] exI [of _ ds] exI [of _ True]) simp
    next
      case False
      with 1 2 show ?thesis by (intro exI [of _ js] exI [of _ ds] exI [of _ "c_ckpt_wanted c"]) simp
    qed
  qed
  show ?thesis
  proof (cases w)
    case None
    then show ?thesis
      by (intro exI [of _ "c_journals c"] exI [of _ "c_devs c"] exI [of _ "c_ckpt_wanted c"]) (simp add: leaf_journal_def)
  next
    case (Some i)
    then show ?thesis unfolding leaf_journal_def Let_def
      using wj by (cases sh) (simp_all split: if_split)
  qed
qed

lemma leaf_journal_inv [simp]: "cache_inv (leaf_journal c w p g v a x si sn fl dl sh path pl) = cache_inv c"
proof -
  obtain js ds b where "leaf_journal c w p g v a x si sn fl dl sh path pl =
      (c\<lparr>c_journals := js, c_devs := ds\<rparr>)\<lparr>c_ckpt_wanted := b\<rparr>"
    "length js = length (c_journals c)" "length ds = length (c_devs c)"
    using leaf_journal_frame [of c w p g v a x si sn fl dl sh path pl] by auto
  then show ?thesis using cache_inv_io [of js c ds] by simp
qed

section \<open>Attaching and detaching\<close>

lemma node_leaf_simps [simp]:
  "node_wf (n\<lparr>rn_leaf := l\<rparr>) = node_wf n" "node_map (n\<lparr>rn_leaf := l\<rparr>) = node_map n"
  "node_child (n\<lparr>rn_leaf := l\<rparr>) = node_child n"
  by (simp_all add: node_wf_def node_map_def node_child_def node_edges_def fun_eq_iff)

lemma heap_inv_leaf [simp]: "heap_inv (ns[i := (ns ! i)\<lparr>rn_leaf := l\<rparr>]) = heap_inv ns"
proof -
  let ?ns = "ns[i := (ns ! i)\<lparr>rn_leaf := l\<rparr>]"
  have eq: "node_wf (?ns ! k) = node_wf (ns ! k)" "node_map (?ns ! k) = node_map (ns ! k)"
    "node_child (?ns ! k) = node_child (ns ! k)" "rn_parent (?ns ! k) = rn_parent (ns ! k)"
    "rn_depth (?ns ! k) = rn_depth (ns ! k)" for k
    by (auto simp: nth_upd)
  show ?thesis unfolding heap_inv_def eq by simp
qed

lemma atts_simps [simp]:
  "atts (node_set_leaf c node l) = (atts c)[node := l]"
  "length (atts c) = length (rt_nodes (c_radix c))"
  by (simp_all add: atts_def node_set_leaf_def map_update)

lemma atts_nth: "node < length (rt_nodes (c_radix c)) \<Longrightarrow> atts c ! node = node_leaf c node"
  by (simp add: atts_def node_leaf_def)

lemma n_att_update:
  assumes "i < length as"
  shows "(of_nat (n_att (as[i := a])) :: u32) =
    of_nat (n_att as) + (if a = None then 0 else 1) - (if as ! i = None then 0 else 1)"
proof -
  have n: "of_nat (n_att as) = (\<Sum>k < length as. if as ! k = None then 0 else 1 :: u32)" for as
  proof (induction as rule: rev_induct)
    case (snoc x xs)
    have "(\<Sum>k < length xs. if (xs @ [x]) ! k = None then 0 else 1 :: u32) = (\<Sum>k < length xs. if xs ! k = None then 0 else 1)"
      by (intro sum.cong) (simp_all add: nth_append)
    with snoc show ?case by (simp add: n_att_def)
  qed (simp add: n_att_def)
  show ?thesis
    unfolding n length_list_update
    by (subst sum_change_one [OF assms, where f = "\<lambda>k. if as ! k = None then 0 else 1"]) (use assms in auto)
qed

definition leaf_addr_ok :: "cache \<Rightarrow> kv_addr \<Rightarrow> bool" where
  "leaf_addr_ok c a \<longleftrightarrow> ka_dev_id a \<noteq> KV_INVALID_DEV \<and> ext_ok (c_rms c) (addr_ext a)"

lemma dfree_push_frame:
  "\<exists>ls df. dfree_push c l = c\<lparr>c_leaves := ls, c_dfree := df\<rparr> \<and>
    ((ls, df) = ((c_leaves c)[l := None], c_dfree c) \<or> (ls, df) = (c_leaves c, c_dfree c @ [l]))"
proof (cases "lf_refcnt (leaf_at c l) = 0")
  case True
  then show ?thesis
    by (intro exI [of _ "(c_leaves c)[l := None]"] exI [of _ "c_dfree c"]) (simp add: dfree_push_def leaf_free_def)
next
  case False
  then show ?thesis by (intro exI [of _ "c_leaves c"] exI [of _ "c_dfree c @ [l]"]) (simp add: dfree_push_def)
qed

text \<open>Taking a leaf out of the accounts and off its node.\<close>

lemma retire_ok:
  assumes inv: "cache_inv c" and node: "node < length (rt_nodes (c_radix c))" and old: "node_leaf c node = old"
  shows "\<exists>rms ls df. leaf_retire c old = c\<lparr>c_rms := rms, c_leaves := ls, c_dfree := df\<rparr> \<and>
    same_geom (c_rms c) rms \<and> leaves_ok rms ((atts c)[node := None]) ls df"
proof (cases old)
  case None
  have "(atts c)[node := None] = atts c" using node old None by (metis atts_nth list_update_id)
  with None show ?thesis
    by (intro exI [of _ "c_rms c"] exI [of _ "c_leaves c"] exI [of _ "c_dfree c"])
      (use cache_invD(2) [OF inv] in \<open>simp add: leaf_retire_def\<close>)
next
  case (Some l)
  have l: "atts c ! node = Some l" using node old Some by (simp add: atts_nth)
  let ?rms = "fold (rms_ext (-)) (leaf_exts (the (c_leaves c ! l))) (c_rms c)"
  let ?c = "c\<lparr>c_rms := ?rms\<rparr>"
  obtain ls df where df: "dfree_push ?c l = ?c\<lparr>c_leaves := ls, c_dfree := df\<rparr>"
    "(ls, df) = ((c_leaves c)[l := None], c_dfree c) \<or> (ls, df) = (c_leaves c, c_dfree c @ [l])"
    using dfree_push_frame [of ?c l] by auto
  have ok: "leaves_ok ?rms ((atts c)[node := None]) ls df"
    using leaves_ok_detach [OF cache_invD(2) [OF inv] _ l refl df(2)] node by simp
  have "Some l \<in> set (atts c)" using l node by (metis atts_simps(2) nth_mem)
  then have "leaf_ok (c_rms c) (the (c_leaves c ! l))"
    using leaves_okD(1) [OF cache_invD(2) [OF inv]] by (simp add: attached_ok_def)
  then have "same_geom (c_rms c) ?rms"
    using lv_upd_geom [OF rms_subs_lv] by (simp add: leaf_ok_def)
  with ok df(1) Some show ?thesis
    by (intro exI [of _ ?rms] exI [of _ ls] exI [of _ df])
      (simp add: leaf_retire_def leaf_sub_live_rms leaf_at_def)
qed

lemma cache_dram_invalidate_ok:
  assumes "\<And>d. c_dram c = Some d \<Longrightarrow> dram_inv d"
  shows "\<exists>d. cache_dram_invalidate c p g = Some (c\<lparr>c_dram := d\<rparr>) \<and> (\<forall>x. d = Some x \<longrightarrow> dram_inv x)"
proof (cases "c_dram c")
  case None
  then show ?thesis by (intro exI [of _ None]) (simp add: cache_dram_invalidate_def)
next
  case (Some d)
  then obtain d' where "dram_invalidate d p g = Some d'" "dram_inv d'" using dram_invalidate_ok assms by blast
  with Some show ?thesis by (intro exI [of _ "Some d'"]) (simp add: cache_dram_invalidate_def)
qed

lemma same_geom_dims:
  "cache_dims c \<Longrightarrow> same_geom (c_rms c) rms \<Longrightarrow> cache_dims (c\<lparr>c_rms := rms\<rparr>)"
  by (auto simp: cache_dims_def same_geom_def all_set_conv_all_nth)

section \<open>Extents of new and changed leaves\<close>

lemma ext_live_low: "page < of_nat kRegionBasePage \<Longrightarrow> ext_live rms d r (dev, page, len) = 0"
  by (simp add: ext_live_def region_of_page_low)

lemma exts_live_append: "exts_live rms d r (xs @ ys) = exts_live rms d r xs + exts_live rms d r ys"
  by (simp add: exts_live_def)

lemma exts_live_addr:
  "ka_dev_id a \<noteq> KV_INVALID_DEV \<Longrightarrow> exts_live rms d r (addr_exts a) = ext_live rms d r (addr_ext a)"
  "ka_dev_id a = KV_INVALID_DEV \<Longrightarrow> exts_live rms d r (addr_exts a) = 0"
  by (simp_all add: addr_exts_def exts_live_def)

lemma exts_live_leaf:
  "exts_live rms d r (leaf_exts lf) = exts_live rms d r (addr_exts (lf_addr0 lf)) +
    exts_live rms d r (addr_exts (lf_addr1 lf)) + exts_live rms d r (stripe_exts (lf_stripe lf))"
  by (simp add: leaf_exts_def exts_live_append add.assoc)

lemma exts_live_update:
  assumes "k < length xs"
  shows "exts_live rms d r (xs[k := e]) = exts_live rms d r xs + (ext_live rms d r e - ext_live rms d r (xs ! k))"
proof -
  have s: "exts_live rms d r xs = (\<Sum>i < length xs. ext_live rms d r (xs ! i))" for xs
    by (simp add: exts_live_def sum_list_sum_nth atLeast0LessThan)
  show ?thesis unfolding s length_list_update
    by (subst sum_change_one [OF assms, where f = "\<lambda>i. ext_live rms d r (xs ! i)"]) (use assms in auto)
qed

lemma part_none_ext: "part_ext stripe_part_none = (KV_INVALID_DEV, 0, 0)"
  by (simp add: part_ext_def stripe_part_none_def)

lemma ext_live_none: "ext_live rms d r (dev, 0, len) = 0"
  by (rule ext_live_low) (simp add: kRegionBasePage_def)

lemma exts_live_replicate: "exts_live rms d r (replicate n (dev, 0, len)) = 0"
  by (simp add: exts_live_def ext_live_none sum_list_replicate)

lemma addr_ext0: "addr_ext (kv_addr0\<lparr>ka_crc := x\<rparr>) = (0, 0, 0)" "addr_ext kv_addr0 = (0, 0, 0)"
  by (simp_all add: addr_ext_def kv_addr0_def)

lemma addr_exts0: "addr_exts (kv_addr0\<lparr>ka_crc := x\<rparr>) = [(0, 0, 0)]" "addr_exts kv_addr0 = [(0, 0, 0)]"
  "addr_exts (kv_addr0\<lparr>ka_dev_id := KV_INVALID_DEV\<rparr>) = []"
  by (simp_all add: addr_exts_def addr_ext0, simp_all add: kv_addr0_def KV_INVALID_DEV_def)

lemma addr_exts_crc [simp]: "addr_exts (a\<lparr>ka_crc := x\<rparr>) = addr_exts a"
  by (simp add: addr_exts_def addr_ext_def)

lemma ext_ok_zero: "0 < length rms \<Longrightarrow> ext_ok rms (0, 0, len)"
  by (simp add: ext_ok_def KV_INVALID_DEV_def kRegionBasePage_def)

lemma ext_ok_none: "ext_ok rms (KV_INVALID_DEV, 0, len)"
  by (simp add: ext_ok_def kRegionBasePage_def)

lemma leaf_new_exts: "ka_dev_id addr \<noteq> KV_INVALID_DEV \<Longrightarrow> leaf_exts (leaf_new p v addr slot sh) = [addr_ext addr]"
  by (simp add: leaf_exts_def leaf_new_def Let_def radix_leaf0_def addr_exts0 stripe_exts_def)
    (simp add: addr_exts_def)

lemma leaf_new_ok:
  assumes "ka_dev_id addr \<noteq> KV_INVALID_DEV" and "ext_ok rms (addr_ext addr)"
  shows "leaf_ok rms (leaf_new p v addr slot sh)"
  using assms by (simp add: leaf_ok_def leaf_new_exts) (simp add: leaf_new_def radix_leaf0_def Let_def)

lemma leaf_new_stripe_exts:
  "leaf_exts (leaf_new_stripe p v addr si sn st sh) =
    (0, 0, 0) # (0, 0, 0) # (replicate (unat sn) (KV_INVALID_DEV, 0, 0))[unat si := addr_ext addr]"
  by (simp add: leaf_exts_def leaf_new_stripe_def radix_leaf0_def addr_exts0 stripe_exts_def map_update
    part_none_ext) (simp add: part_ext_def addr_ext_def)

lemma leaf_new_stripe_live:
  assumes "unat si < unat sn"
  shows "exts_live rms d r (leaf_exts (leaf_new_stripe p v addr si sn st sh)) = ext_live rms d r (addr_ext addr)"
proof -
  have "exts_live rms d r (x # xs) = ext_live rms d r x + exts_live rms d r xs" for x xs by (simp add: exts_live_def)
  then show ?thesis
    using assms exts_live_update [of "unat si" "replicate (unat sn) (KV_INVALID_DEV, 0, 0)" rms d r "addr_ext addr"]
    by (simp add: leaf_new_stripe_exts ext_live_none exts_live_replicate)
qed

lemma leaf_new_stripe_ok:
  assumes "ext_ok rms (addr_ext addr)" and "0 < length rms"
  shows "leaf_ok rms (leaf_new_stripe p v addr si sn st sh)"
proof -
  have "\<forall>e \<in> set ((replicate (unat sn) (KV_INVALID_DEV, 0, 0))[unat si := addr_ext addr]). ext_ok rms e"
    using set_update_subset_insert [of "replicate (unat sn) (KV_INVALID_DEV, 0, 0)" "unat si" "addr_ext addr"]
      assms(1) ext_ok_none by (auto dest!: subsetD)
  then show ?thesis
    using ext_ok_zero [OF assms(2)] by (simp add: leaf_ok_def leaf_new_stripe_exts) (simp add: leaf_new_stripe_def)
qed

section \<open>Publishing\<close>

lemma leaf_install_inv:
  assumes dims: "cache_dims c" and lo: "leaves_ok (c_rms c) ((atts c)[node := None]) (c_leaves c) (c_dfree c)"
    and nl: "rt_n_leaves (c_radix c) = of_nat (n_att (atts c))" and rx: "radix_inv (c_radix c)"
    and dr: "\<And>d. c_dram c = Some d \<Longrightarrow> dram_inv d" and sd: "side_nodes_ok c"
    and node: "node < length (rt_nodes (c_radix c))" and old: "old = node_leaf c node"
    and lf: "leaf_ok (c_rms c) lf" and e: "ext_ok (c_rms c) (addr_ext addr)"
    and live: "\<And>d r. exts_live (c_rms c) d r (leaf_exts lf) = ext_live (c_rms c) d r (addr_ext addr)"
  shows "cache_inv (leaf_install c node old lf addr)"
proof -
  let ?rms = "rms_ext (+) (addr_ext addr) (c_rms c)"
  have up: "lv_upd (c_rms c) ?rms (\<lambda>d r. exts_live (c_rms c) d r (leaf_exts lf))"
    unfolding live by (rule rms_add_lv [OF e])
  note g = lv_upd_geom [OF up]
  let ?l = "length (c_leaves c)"
  let ?t = "\<lambda>k. (c_radix c)\<lparr>rt_nodes := (rt_nodes (c_radix c))[node := (rt_nodes (c_radix c) ! node)\<lparr>rn_leaf := Some ?l\<rparr>],
    rt_n_leaves := rt_n_leaves (c_radix c) + k\<rparr>"
  have eq: "leaf_install c node old lf addr =
      c\<lparr>c_rms := ?rms, c_leaves := c_leaves c @ [Some lf], c_radix := ?t (if old = None then 1 else 0)\<rparr>"
    by (simp add: leaf_install_def Let_def region_live_add_rms node_set_leaf_def n_leaves_add_def addr_ext_def)
  have at: "atts (leaf_install c node old lf addr) = (atts c)[node := Some ?l]"
    by (simp add: eq atts_def map_update)
  show ?thesis
  proof (rule cache_invI)
    show "cache_dims (leaf_install c node old lf addr)"
      using same_geom_dims [OF dims g] by (simp add: eq cache_dims_def)
    have "leaves_ok ?rms ((atts c)[node := None, node := Some ?l]) (c_leaves c @ [Some lf]) (c_dfree c)"
      using node by (intro leaves_ok_attach [OF lo _ _ lf up]) simp_all
    then show "leaves_ok (c_rms (leaf_install c node old lf addr)) (atts (leaf_install c node old lf addr))
        (c_leaves (leaf_install c node old lf addr)) (c_dfree (leaf_install c node old lf addr))"
      unfolding at by (simp add: eq)
    have "rt_n_leaves (c_radix (leaf_install c node old lf addr)) = rt_n_leaves (c_radix c) + (if old = None then 1 else 0)"
      by (simp add: eq)
    then show "rt_n_leaves (c_radix (leaf_install c node old lf addr)) = of_nat (n_att (atts (leaf_install c node old lf addr)))"
      unfolding at using n_att_update [of node "atts c" "Some ?l"] node nl old by (simp add: atts_nth)
    show "radix_inv (c_radix (leaf_install c node old lf addr))" using rx by (simp add: eq radix_inv_def)
    show "side_nodes_ok (leaf_install c node old lf addr)" using sd by (simp add: eq side_nodes_ok_def)
  qed (use dr in \<open>simp add: eq\<close>)
qed

text \<open>A change of an attached leaf in place, with the accounts.\<close>

lemma leaf_change_inv:
  assumes inv: "cache_inv c" and node: "node < length (rt_nodes (c_radix c))" and l: "node_leaf c node = Some l"
    and lf: "leaf_ok (c_rms c) lf"
    and up: "lv_upd (c_rms c) rms (\<lambda>d r. exts_live (c_rms c) d r (leaf_exts lf) -
      exts_live (c_rms c) d r (leaf_exts (leaf_at c l)))"
  shows "cache_inv (c\<lparr>c_leaves := (c_leaves c)[l := Some lf], c_rms := rms\<rparr>)"
proof (rule cache_invI)
  note D = cache_invD [OF inv]
  let ?c = "c\<lparr>c_leaves := (c_leaves c)[l := Some lf], c_rms := rms\<rparr>"
  have at: "atts ?c = atts c" by (simp add: atts_def)
  show "cache_dims ?c" using same_geom_dims [OF D(1) lv_upd_geom [OF up]] by (simp add: cache_dims_def)
  show "leaves_ok (c_rms ?c) (atts ?c) (c_leaves ?c) (c_dfree ?c)"
    using leaves_ok_update [OF D(2) _ _ lf, of node l rms] node l up by (simp add: at atts_nth leaf_at_def)
qed (use cache_invD [OF inv] in \<open>auto simp: atts_def side_nodes_ok_def\<close>)

lemma attached_leaf:
  assumes "cache_inv c" and "node < length (rt_nodes (c_radix c))" and "node_leaf c node = Some l"
  shows "l < length (c_leaves c)" and "c_leaves c ! l = Some (leaf_at c l)" and "leaf_ok (c_rms c) (leaf_at c l)"
    and "l \<notin> set (c_dfree c)"
proof -
  have "Some l \<in> set (atts c)" using assms(2,3) by (metis atts_nth atts_simps(2) nth_mem)
  from leaves_okD(1) [OF cache_invD(2) [OF assms(1)] this]
  show "l < length (c_leaves c)" "c_leaves c ! l = Some (leaf_at c l)" "leaf_ok (c_rms c) (leaf_at c l)"
    "l \<notin> set (c_dfree c)"
    by (auto simp: attached_ok_def leaf_at_def)
qed

lemma addr_sub_live_rms:
  "addr_sub_live c a = c\<lparr>c_rms := fold (rms_ext (-)) (addr_exts a) (c_rms c)\<rparr>"
  by (simp add: addr_sub_live_def region_live_sub_rms addr_exts_def addr_ext_def)

text \<open>Subtracting some extents and adding one.\<close>

lemma swap_lv:
  assumes "\<forall>e \<in> set es. ext_ok rms e" and "ext_ok rms e'"
  shows "lv_upd rms (rms_ext (+) e' (fold (rms_ext (-)) es rms)) (\<lambda>d r. ext_live rms d r e' - exts_live rms d r es)"
proof -
  note 1 = rms_subs_lv [OF assms(1)]
  note g = lv_upd_geom [OF 1]
  have 2: "lv_upd (fold (rms_ext (-)) es rms) (rms_ext (+) e' (fold (rms_ext (-)) es rms))
      (\<lambda>d r. ext_live (fold (rms_ext (-)) es rms) d r e')"
    using assms(2) by (intro rms_add_lv) (simp add: same_geom_ext_ok [OF g])
  show ?thesis using lv_upd_trans [OF 1 2] by (rule lv_upd_cong) (simp add: same_geom_ext_live [OF g])
qed

lemma leaf_update_slot_inv:
  assumes inv: "cache_inv c" and node: "node < length (rt_nodes (c_radix c))" and l: "node_leaf c node = Some l"
    and a: "leaf_addr_ok c addr"
  shows "cache_inv (leaf_update_slot c l addr slot sh)"
proof -
  note L = attached_leaf [OF inv node l]
  let ?lf = "leaf_at c l"
  let ?old = "if slot = 0 then lf_addr0 ?lf else lf_addr1 ?lf"
  define lf where "lf = (if slot = 0 then ?lf\<lparr>lf_addr0 := addr\<rparr> else ?lf\<lparr>lf_addr1 := addr\<rparr>)
    \<lparr>lf_shape := (if lf_shape ?lf = None then sh else lf_shape ?lf)\<rparr>"
  have exts: "set (addr_exts ?old) \<subseteq> set (leaf_exts ?lf)" by (auto simp: leaf_exts_def)
  have old_ok: "\<forall>e \<in> set (addr_exts ?old). ext_ok (c_rms c) e" using L(3) exts by (auto simp: leaf_ok_def)
  have new: "addr_exts addr = [addr_ext addr]" using a by (simp add: leaf_addr_ok_def addr_exts_def)
  have lf_ok: "leaf_ok (c_rms c) lf"
    using L(3) a unfolding leaf_ok_def leaf_addr_ok_def by (auto simp: lf_def leaf_exts_def new)
  have "lv_upd (c_rms c) (rms_ext (+) (addr_ext addr) (fold (rms_ext (-)) (addr_exts ?old) (c_rms c)))
      (\<lambda>d r. exts_live (c_rms c) d r (leaf_exts lf) - exts_live (c_rms c) d r (leaf_exts ?lf))"
    using a by (intro lv_upd_cong [OF swap_lv [OF old_ok]])
      (auto simp: leaf_addr_ok_def exts_live_leaf lf_def exts_live_addr)
  from leaf_change_inv [OF inv node l lf_ok this] show ?thesis
    by (auto simp: leaf_update_slot_def Let_def addr_sub_live_rms region_live_add_rms leaf_set_def
      lf_def addr_ext_def split: if_splits)
qed

lemma leaf_update_part_inv:
  assumes inv: "cache_inv c" and node: "node < length (rt_nodes (c_radix c))" and l: "node_leaf c node = Some l"
    and a: "leaf_addr_ok c addr" and s: "lf_stripe (leaf_at c l) = Some s" and k: "unat si < unat (sa_n_parts s)"
  shows "cache_inv (leaf_update_part c l addr si sh)"
proof -
  note L = attached_leaf [OF inv node l]
  let ?lf = "leaf_at c l" and ?k = "unat si"
  let ?p = "sa_parts s ! ?k"
  let ?p' = "\<lparr>sp_dev_id = ka_dev_id addr, sp_page_no = ka_page_no addr, sp_len_pages = ka_len_pages addr\<rparr>"
  define lf where "lf = ?lf\<lparr>lf_stripe := Some (s\<lparr>sa_parts := (sa_parts s)[?k := ?p']\<rparr>),
    lf_addr0 := (lf_addr0 ?lf)\<lparr>ka_crc := ka_crc addr\<rparr>,
    lf_shape := (if lf_shape ?lf = None then sh else lf_shape ?lf)\<rparr>"
  have len: "length (sa_parts s) = unat (sa_n_parts s)" using L(3) s by (simp add: leaf_ok_def)
  have se: "stripe_exts (Some s) = map part_ext (sa_parts s)" by (simp add: stripe_exts_def len [symmetric])
  have p': "part_ext ?p' = addr_ext addr" by (simp add: part_ext_def addr_ext_def)
  have se': "stripe_exts (lf_stripe lf) = (stripe_exts (Some s))[?k := addr_ext addr]"
    by (simp add: lf_def stripe_exts_def len [symmetric] map_update p')
  have pk: "stripe_exts (Some s) ! ?k = part_ext ?p" and kl: "?k < length (stripe_exts (Some s))"
    using k by (simp_all add: se len)
  have mem: "part_ext ?p \<in> set (leaf_exts ?lf)" using s pk nth_mem [OF kl] by (simp add: leaf_exts_def)
  let ?es = "if sp_dev_id ?p \<noteq> KV_INVALID_DEV then [part_ext ?p] else []"
  have old_ok: "\<forall>e \<in> set ?es. ext_ok (c_rms c) e" using L(3) mem by (simp add: leaf_ok_def)
  have old_live: "exts_live (c_rms c) d r ?es = ext_live (c_rms c) d r (part_ext ?p)" for d r
  proof (cases "sp_dev_id ?p = KV_INVALID_DEV")
    case True
    have "ext_ok (c_rms c) (part_ext ?p)" using L(3) mem by (simp add: leaf_ok_def)
    with True have "sp_page_no ?p < of_nat kRegionBasePage" by (simp add: ext_ok_def part_ext_def)
    then show ?thesis using True by (simp add: part_ext_def ext_live_low exts_live_def)
  qed (simp add: exts_live_def)
  have "set (stripe_exts (lf_stripe lf)) \<subseteq> insert (addr_ext addr) (set (stripe_exts (Some s)))"
    unfolding se' by (rule set_update_subset_insert)
  then have lf_ok: "leaf_ok (c_rms c) lf"
    using L(3) a s len unfolding leaf_ok_def leaf_addr_ok_def leaf_exts_def
    by (auto simp: lf_def dest!: subsetD)
  have diff: "ext_live (c_rms c) d r (addr_ext addr) - exts_live (c_rms c) d r ?es =
      exts_live (c_rms c) d r (leaf_exts lf) - exts_live (c_rms c) d r (leaf_exts ?lf)" for d r
    unfolding exts_live_leaf se' exts_live_update [OF kl] pk old_live s by (simp add: lf_def)
  have "lv_upd (c_rms c) (rms_ext (+) (addr_ext addr) (fold (rms_ext (-)) ?es (c_rms c)))
      (\<lambda>d r. exts_live (c_rms c) d r (leaf_exts lf) - exts_live (c_rms c) d r (leaf_exts ?lf))"
    using a unfolding diff [symmetric] leaf_addr_ok_def by (intro swap_lv [OF old_ok]) simp
  from leaf_change_inv [OF inv node l lf_ok this] show ?thesis
    using s by (auto simp: leaf_update_part_def Let_def region_live_sub_rms region_live_add_rms leaf_set_def
      lf_def addr_ext_def part_ext_def split: if_splits)
qed

lemma c_alloc_frame: "\<exists>mem. snd (c_alloc c) = c\<lparr>c_radix := (c_radix c)\<lparr>rt_mem := mem\<rparr>\<rparr>"
  by (auto simp: c_alloc_def split: prod.split)

text \<open>What the caller of \<open>leaf_publish\<close> passes: an address in a region, and a part number that
  exists.\<close>

definition publish_args_ok :: "cache \<Rightarrow> nat \<Rightarrow> u32 \<Rightarrow> kv_addr \<Rightarrow> u32 \<Rightarrow> u32 \<Rightarrow> u32 \<Rightarrow> bool" where
  "publish_args_ok c node ver addr flags stripe_idx stripe_cnt \<longleftrightarrow>
    node < length (rt_nodes (c_radix c)) \<and> leaf_addr_ok c addr \<and>
    (flags AND KV_CHUNK_F_STRIPE \<noteq> 0 \<longrightarrow> unat stripe_idx < unat stripe_cnt \<and>
      (\<forall>l s. node_leaf c node = Some l \<and> lf_ver (leaf_at c l) = ver \<and> lf_stripe (leaf_at c l) = Some s \<longrightarrow>
        unat stripe_idx < unat (sa_n_parts s)))"

lemma leaf_publish_inv:
  assumes inv: "cache_inv c" and node: "node < length (rt_nodes (c_radix c))" and a: "leaf_addr_ok c addr"
    and pub: "leaf_publish c w node p g ver addr slot flags si sn st dl sh path pl = Some c'"
  shows "cache_inv c'"
proof -
  note D = cache_invD [OF inv]
  let ?old = "node_leaf c node" and ?str = "flags AND KV_CHUNK_F_STRIPE \<noteq> 0"
  obtain rms ls df where r: "leaf_retire c ?old = c\<lparr>c_rms := rms, c_leaves := ls, c_dfree := df\<rparr>"
    "same_geom (c_rms c) rms" "leaves_ok rms ((atts c)[node := None]) ls df"
    using retire_ok [OF inv node refl] by blast
  let ?c1 = "c\<lparr>c_rms := rms, c_leaves := ls, c_dfree := df\<rparr>"
  obtain d where d: "cache_dram_invalidate ?c1 p g = Some (?c1\<lparr>c_dram := d\<rparr>)" "\<And>x. d = Some x \<Longrightarrow> dram_inv x"
    using cache_dram_invalidate_ok [of ?c1 p g] D(5) by auto
  have rms0: "0 < length rms" using D(1) r(2) by (simp add: cache_dims_def same_geom_def)
  have addr: "ka_dev_id addr \<noteq> KV_INVALID_DEV" "ext_ok rms (addr_ext addr)"
    using a r(2) by (simp_all add: leaf_addr_ok_def same_geom_ext_ok)
  have fresh: "cache_inv (leaf_install (?c1\<lparr>c_dram := d, c_radix := (c_radix c)\<lparr>rt_mem := mem\<rparr>\<rparr>) node ?old lf addr)"
    if lf: "leaf_ok rms lf" "\<And>x y. exts_live rms x y (leaf_exts lf) = ext_live rms x y (addr_ext addr)" for mem lf
    using D node r(2,3) d(2) addr lf same_geom_dims [OF D(1) r(2)]
    by (intro leaf_install_inv) (auto simp: atts_def radix_inv_def side_nodes_ok_def node_leaf_def cache_dims_def)
  have new: "cache_inv (leaf_install (?c1\<lparr>c_dram := d, c_radix := (c_radix c)\<lparr>rt_mem := mem\<rparr>\<rparr>) node ?old
      (if ?str then leaf_new_stripe p ver addr si sn st sh else leaf_new p ver addr slot sh) addr)"
    if "\<not> (?str \<and> \<not> si < sn)" for mem
    using that fresh [of "leaf_new_stripe p ver addr si sn st sh" mem] fresh [of "leaf_new p ver addr slot sh" mem]
      leaf_new_stripe_ok [OF addr(2) rms0] leaf_new_ok [OF addr] leaf_new_exts [OF addr(1)] leaf_new_stripe_live
    by (cases ?str) (simp_all add: word_less_nat_alt exts_live_def)
  show ?thesis
  proof (cases "case ?old of None \<Rightarrow> False | Some l \<Rightarrow> lf_ver (leaf_at c l) > ver")
    case True
    with pub inv show ?thesis by (simp add: leaf_publish_def Let_def)
  next
    case False
    show ?thesis
    proof (cases "case ?old of None \<Rightarrow> False | Some l \<Rightarrow> lf_ver (leaf_at c l) = ver \<and> (?str \<longrightarrow> lf_stripe (leaf_at c l) \<noteq> None)")
      case True
      then obtain l where l: "?old = Some l" "lf_ver (leaf_at c l) = ver" "?str \<longrightarrow> lf_stripe (leaf_at c l) \<noteq> None"
        by (auto split: option.splits)
      show ?thesis
      proof (cases ?str)
        case True
        with l obtain s where s: "lf_stripe (leaf_at c l) = Some s" by auto
        with True l pub have "unat si < unat (sa_n_parts s)"
          by (auto simp: leaf_publish_def Let_def word_less_nat_alt split: if_splits)
        from leaf_update_part_inv [OF inv node l(1) a s this] pub l s True show ?thesis
          by (auto simp: leaf_publish_def Let_def split: if_splits)
      next
        case False
        with pub l leaf_update_slot_inv [OF inv node l(1) a] inv show ?thesis
          by (auto simp: leaf_publish_def Let_def split: if_splits)
      qed
    next
      case nf: False
      obtain ok1 m1 where m1: "alloc (rt_mem (c_radix c)) = (ok1, m1)" by (cases "alloc (rt_mem (c_radix c))")
      obtain ok2 m2 where m2: "alloc m1 = (ok2, m2)" by (cases "alloc m1")
      have "leaf_publish c w node p g ver addr slot flags si sn st dl sh path pl =
        (case cache_dram_invalidate (leaf_retire c ?old) p g of None \<Rightarrow> None | Some c \<Rightarrow>
              (case c_alloc c of (ok, c) \<Rightarrow>
                 if \<not> ok then None
                 else case (if ?str then c_alloc c else (True, c)) of (ok, c) \<Rightarrow>
                   if \<not> ok \<or> ?str \<and> \<not> si < sn then None
                   else Some (leaf_journal (leaf_install c node ?old
                     (if ?str then leaf_new_stripe p ver addr si sn st sh
                      else leaf_new p ver addr slot sh) addr) w p g ver addr (ka_expire_ts addr)
                  (if ?str then si else 0) (if ?str then sn else 0)
                  (flags OR (if slot = 1 then KV_JFLAG_SLOT1 else 0)) dl sh path pl)))"
        using False nf unfolding leaf_publish_def Let_def by (auto split: option.splits)
      with pub new m1 m2 show ?thesis
        unfolding r(1) d(1) by (auto simp: c_alloc_def split: if_splits)
    qed
  qed
qed

lemma leaf_publish_returns:
  assumes inv: "cache_inv c" and args: "publish_args_ok c node ver addr flags si sn"
    and mem: "no_oom (rt_mem (c_radix c))"
  shows "\<exists>c'. leaf_publish c w node p g ver addr slot flags si sn st dl sh path pl = Some c'"
proof -
  have node: "node < length (rt_nodes (c_radix c))" using args by (simp add: publish_args_ok_def)
  let ?old = "node_leaf c node"
  obtain rms ls df where r: "leaf_retire c ?old = c\<lparr>c_rms := rms, c_leaves := ls, c_dfree := df\<rparr>"
    using retire_ok [OF inv node refl] by blast
  let ?c1 = "c\<lparr>c_rms := rms, c_leaves := ls, c_dfree := df\<rparr>"
  obtain d where d: "cache_dram_invalidate ?c1 p g = Some (?c1\<lparr>c_dram := d\<rparr>)"
    using cache_dram_invalidate_ok [of ?c1 p g] cache_invD(5) [OF inv] by auto
  obtain m1 where m1: "alloc (rt_mem (c_radix c)) = (True, m1)" "no_oom m1" using alloc_no_oom [OF mem] by blast
  obtain m2 where m2: "alloc m1 = (True, m2)" using alloc_no_oom [OF m1(2)] by blast
  let ?str = "flags AND KV_CHUNK_F_STRIPE \<noteq> 0"
  have part: "?str \<and> (case ?old of None \<Rightarrow> False | Some l \<Rightarrow> lf_ver (leaf_at c l) = ver \<and> lf_stripe (leaf_at c l) \<noteq> None) \<longrightarrow>
      si < sa_n_parts (the (lf_stripe (leaf_at c (the ?old))))" and idx: "?str \<longrightarrow> si < sn"
    using args by (auto simp: publish_args_ok_def word_less_nat_alt split: option.splits)
  show ?thesis
    unfolding leaf_publish_def Let_def r d using m1 m2 part idx by (simp add: c_alloc_def)
qed

section \<open>Dropping\<close>

lemma leaf_drop_ok:
  assumes inv: "cache_inv c" and node: "node < length (rt_nodes (c_radix c))"
  shows "\<exists>c'. leaf_drop c node = Some c' \<and> cache_inv c' \<and> atts c' = (atts c)[node := None] \<and>
    length (c_leaves c') = length (c_leaves c) \<and> c_side c' = c_side c \<and> same_geom (c_rms c) (c_rms c') \<and>
    (\<forall>l. node_leaf c node \<noteq> Some l \<longrightarrow> c_leaves c' ! l = c_leaves c ! l)"
proof (cases "node_leaf c node")
  case None
  have "(atts c)[node := None] = atts c" using node None by (metis atts_nth list_update_id)
  with None inv show ?thesis by (simp add: leaf_drop_def)
next
  case (Some l)
  note D = cache_invD [OF inv]
  have l: "atts c ! node = Some l" using node Some by (simp add: atts_nth)
  let ?lf = "leaf_at c l" and ?g = "node_group c node"
  obtain d where d: "cache_dram_invalidate c (lf_prefix_id ?lf) ?g = Some (c\<lparr>c_dram := d\<rparr>)"
    "\<And>x. d = Some x \<Longrightarrow> dram_inv x"
    using cache_dram_invalidate_ok [of c "lf_prefix_id ?lf" ?g] D(5) by auto
  let ?rms = "fold (rms_ext (-)) (leaf_exts ?lf) (c_rms c)"
  let ?c1 = "c\<lparr>c_dram := d, c_rms := ?rms\<rparr>"
  let ?j = "if ka_dev_id (lf_addr0 ?lf) = KV_INVALID_DEV then 0 else unat (ka_dev_id (lf_addr0 ?lf))"
  define c2 where "c2 = (if c_replaying ?c1 then ?c1
    else snd (with_journal ?c1 ?j (\<lambda>jr. journal_del jr (lf_prefix_id ?lf) (node_group ?c1 node))))"
  obtain js ds where c2: "c2 = ?c1\<lparr>c_journals := js, c_devs := ds\<rparr>"
    "length js = length (c_journals c)" "length ds = length (c_devs c)"
  proof (cases "c_replaying ?c1")
    case True
    then show ?thesis using that [where js = "c_journals c" and ds = "c_devs c"] by (simp add: c2_def)
  next
    case False
    obtain js ds where "snd (with_journal ?c1 ?j (\<lambda>jr. journal_del jr (lf_prefix_id ?lf) (node_group ?c1 node))) =
        ?c1\<lparr>c_journals := js, c_devs := ds\<rparr>" "length js = length (c_journals ?c1)" "length ds = length (c_devs ?c1)"
      using with_journal_frame by blast
    with False show ?thesis using that [where js = js and ds = ds] by (simp add: c2_def)
  qed
  obtain ls df where df: "dfree_push c2 l = c2\<lparr>c_leaves := ls, c_dfree := df\<rparr>"
    "(ls, df) = ((c_leaves c)[l := None], c_dfree c) \<or> (ls, df) = (c_leaves c, c_dfree c @ [l])"
    using dfree_push_frame [of c2 l] by (auto simp: c2(1))
  have lo: "leaves_ok ?rms ((atts c)[node := None]) ls df"
    using leaves_ok_detach [OF D(2) _ l _ df(2)] node by (simp add: leaf_at_def)
  have g: "same_geom (c_rms c) ?rms"
    using lv_upd_geom [OF rms_subs_lv] attached_leaf(3) [OF inv node Some] by (simp add: leaf_ok_def)
  let ?c3 = "c2\<lparr>c_leaves := ls, c_dfree := df\<rparr>"
  let ?c' = "n_leaves_add (node_set_leaf ?c3 node None) (-1)"
  have c1: "leaf_sub_live (c\<lparr>c_dram := d\<rparr>) ?lf = ?c1" by (simp add: leaf_sub_live_rms)
  have eq: "leaf_drop c node = Some ?c'"
    unfolding leaf_drop_def Some option.case Let_def d(1) c1 c2_def [symmetric] df(1) by (rule refl)
  have at: "atts ?c' = (atts c)[node := None]"
    by (simp add: n_leaves_add_def) (simp add: atts_def node_set_leaf_def map_update c2)
  have "cache_inv ?c'"
  proof (rule cache_invI)
    show "cache_dims ?c'"
      using same_geom_dims [OF D(1) g] c2(2,3) by (simp add: n_leaves_add_def node_set_leaf_def c2 cache_dims_def)
    show "leaves_ok (c_rms ?c') (atts ?c') (c_leaves ?c') (c_dfree ?c')"
      unfolding at using lo by (simp add: n_leaves_add_def node_set_leaf_def c2)
    show "rt_n_leaves (c_radix ?c') = of_nat (n_att (atts ?c'))"
      unfolding at using n_att_update [of node "atts c" None] node l D(3)
      by (simp add: n_leaves_add_def node_set_leaf_def c2)
  qed (use D d(2) in \<open>simp_all add: n_leaves_add_def node_set_leaf_def c2 radix_inv_def side_nodes_ok_def\<close>)
  moreover have "length ls = length (c_leaves c)" using df(2) by auto
  moreover have "ls ! k = c_leaves c ! k" if "node_leaf c node \<noteq> Some k" for k
    using df(2) that Some by (auto simp: nth_upd)
  ultimately show ?thesis
    using eq at g by (intro exI [of _ ?c']) (simp add: n_leaves_add_def node_set_leaf_def c2)
qed

section \<open>Deferred frees and pins\<close>

lemma dfree_reap_inv:
  assumes "cache_inv c"
  shows "cache_inv (dfree_reap c)"
    and "\<forall>l \<in> set (c_dfree (dfree_reap c)). lf_refcnt (leaf_at (dfree_reap c) l) \<noteq> 0"
proof -
  let ?f = "\<lambda>l c. if lf_refcnt (leaf_at c l) = 0 then leaf_free c l else c\<lparr>c_dfree := c_dfree c @ [l]\<rparr>"
  have step: "leaves_ok (c_rms x) (atts x) (c_leaves x) (c_dfree x @ l # ls) \<Longrightarrow>
      leaves_ok (c_rms (?f l x)) (atts (?f l x)) (c_leaves (?f l x)) (c_dfree (?f l x) @ ls)" for x l ls
    using leaves_ok_reap [of "c_rms x" "atts x" "c_leaves x" "c_dfree x" l ls] by (simp add: leaf_free_def atts_def)
  have run: "\<exists>lv df. fold ?f ls x = x\<lparr>c_leaves := lv, c_dfree := df\<rparr> \<and>
      leaves_ok (c_rms x) (atts x) lv df \<and> (\<forall>l \<in> set df. lf_refcnt (the (lv ! l)) \<noteq> 0)"
    if "leaves_ok (c_rms x) (atts x) (c_leaves x) (c_dfree x @ ls)"
      "\<forall>l \<in> set (c_dfree x). lf_refcnt (leaf_at x l) \<noteq> 0" for ls x
    using that
  proof (induction ls arbitrary: x)
    case Nil
    then show ?case
      by (intro exI [of _ "c_leaves x"] exI [of _ "c_dfree x"]) (simp add: leaf_at_def)
  next
    case (Cons l ls)
    have nin: "l \<notin> set (c_dfree x)" using leaves_okD(3) [OF Cons.prems(1)] by simp
    have r: "\<forall>k \<in> set (c_dfree (?f l x)). lf_refcnt (leaf_at (?f l x) k) \<noteq> 0"
      using Cons.prems(2) nin by (auto simp: leaf_free_def leaf_at_def nth_upd)
    obtain lv df where "fold ?f ls (?f l x) = (?f l x)\<lparr>c_leaves := lv, c_dfree := df\<rparr>"
      "leaves_ok (c_rms (?f l x)) (atts (?f l x)) lv df" "\<forall>l \<in> set df. lf_refcnt (the (lv ! l)) \<noteq> 0"
      using Cons.IH [OF step [OF Cons.prems(1)] r] by blast
    then show ?case
      by (intro exI [of _ lv] exI [of _ df]) (auto simp: leaf_free_def atts_def split: if_splits)
  qed
  have "atts (c\<lparr>c_dfree := []\<rparr>) = atts c" by (simp add: atts_def)
  with cache_invD(2) [OF assms] obtain lv df where
    eq: "dfree_reap c = c\<lparr>c_leaves := lv, c_dfree := df\<rparr>" and ok: "leaves_ok (c_rms c) (atts c) lv df"
    and pos: "\<forall>l \<in> set df. lf_refcnt (the (lv ! l)) \<noteq> 0"
    using run [of "c\<lparr>c_dfree := []\<rparr>" "c_dfree c"] unfolding dfree_reap_def by auto
  show "cache_inv (dfree_reap c)"
    unfolding eq by (rule cache_invI)
      (use cache_invD [OF assms] ok in \<open>auto simp: cache_dims_def atts_def side_nodes_ok_def\<close>)
  show "\<forall>l \<in> set (c_dfree (dfree_reap c)). lf_refcnt (leaf_at (dfree_reap c) l) \<noteq> 0"
    using pos by (simp add: eq leaf_at_def)
qed

text \<open>Reference counts change under any of the locks.\<close>

definition leaf_ref :: "cache \<Rightarrow> nat \<Rightarrow> u32 \<Rightarrow> cache" where
  "leaf_ref c l k = leaf_set c l ((leaf_at c l)\<lparr>lf_refcnt := lf_refcnt (leaf_at c l) + k\<rparr>)"

lemma leaf_ref_inv:
  assumes "cache_inv c" and "l < length (c_leaves c)" and "c_leaves c ! l \<noteq> None"
  shows "cache_inv (leaf_ref c l k)"
proof (rule cache_invI)
  note D = cache_invD [OF assms(1)]
  have "c_leaves c ! l = Some (leaf_at c l)" using assms(3) by (auto simp: leaf_at_def)
  from leaves_ok_refcnt [OF D(2) assms(2) this]
  show "leaves_ok (c_rms (leaf_ref c l k)) (atts (leaf_ref c l k)) (c_leaves (leaf_ref c l k)) (c_dfree (leaf_ref c l k))"
    by (simp add: leaf_ref_def leaf_set_def atts_def)
qed (use cache_invD [OF assms(1)] in \<open>auto simp: leaf_ref_def leaf_set_def cache_dims_def atts_def side_nodes_ok_def\<close>)

end
