(* ===== verification/KV_Leaf_Region.thy ===== *)
theory KV_Leaf_Region
  imports KV_Leaf_Ops
begin

text \<open>
  Dropping, trimming and recounting regions.  Dropping a region detaches every unpinned leaf that
  the side table knows and that has an extent in the region; when no such leaf is pinned the
  region's account is zero afterwards, so trimming it keeps the accounts.  Recounting sets the
  accounts right whatever they were.
\<close>

section \<open>Loops that may not return\<close>

lemma fold_opt_Nil [simp]: "fold_opt f [] b = Some b"
  by (simp add: fold_opt_def)

lemma fold_opt_None: "fold (\<lambda>x acc. Option.bind acc (f x)) xs None = None"
  by (induction xs) simp_all

lemma fold_opt_Cons [simp]: "fold_opt f (x # xs) b = Option.bind (f x b) (fold_opt f xs)"
  by (cases "f x b") (simp_all add: fold_opt_def fold_opt_None)

lemma fold_opt_inv:
  assumes "P b" and "\<And>x b. x \<in> set xs \<Longrightarrow> P b \<Longrightarrow> \<exists>b'. f x b = Some b' \<and> P b'"
  shows "\<exists>b'. fold_opt f xs b = Some b' \<and> P b'"
  using assms
proof (induction xs arbitrary: b)
  case (Cons x xs)
  obtain b1 where b1: "f x b = Some b1" "P b1" using Cons.prems(2) [of x b] Cons.prems(1) by auto
  from Cons.IH [OF b1(2)] Cons.prems(2) have "\<exists>b'. fold_opt f xs b1 = Some b' \<and> P b'" by simp
  with b1(1) show ?case by simp
qed simp

section \<open>Pages and regions\<close>

lemma cache_dims_rm:
  assumes "cache_dims c" and "d < c_n_devs c"
  shows "length (rm_rg (c_rms c ! d)) = unat (rm_region_cnt (c_rms c ! d))" "0 < unat (rm_region_cnt (c_rms c ! d))"
    "unat (rm_region_cnt (c_rms c ! d)) < 2 ^ 31" "0 < unat (rm_region_size_pages (c_rms c ! d))"
    "kRegionBasePage + unat (rm_region_cnt (c_rms c ! d)) * unat (rm_region_size_pages (c_rms c ! d)) < 2 ^ 63"
proof -
  have "c_rms c ! d \<in> set (c_rms c)" using assms by (simp add: cache_dims_def)
  with assms(1) have "length (rm_rg (c_rms c ! d)) = unat (rm_region_cnt (c_rms c ! d)) \<and> 0 < unat (rm_region_cnt (c_rms c ! d)) \<and>
    unat (rm_region_cnt (c_rms c ! d)) < 2 ^ 31 \<and> rm_region_size_pages (c_rms c ! d) \<noteq> 0 \<and>
    kRegionBasePage + unat (rm_region_cnt (c_rms c ! d)) * unat (rm_region_size_pages (c_rms c ! d)) < 2 ^ 63"
    unfolding cache_dims_def by blast
  then show "length (rm_rg (c_rms c ! d)) = unat (rm_region_cnt (c_rms c ! d))" "0 < unat (rm_region_cnt (c_rms c ! d))"
    "unat (rm_region_cnt (c_rms c ! d)) < 2 ^ 31" "0 < unat (rm_region_size_pages (c_rms c ! d))"
    "kRegionBasePage + unat (rm_region_cnt (c_rms c ! d)) * unat (rm_region_size_pages (c_rms c ! d)) < 2 ^ 63"
    by (auto simp: unat_gt_0)
qed

lemma div_range:
  fixes s :: nat
  assumes "0 < s" and "b \<le> p"
  shows "(p - b) div s = r \<longleftrightarrow> b + r * s \<le> p \<and> p < b + r * s + s"
proof
  assume "(p - b) div s = r"
  then have "p - b = r * s + (p - b) mod s" using div_mult_mod_eq [of "p - b" s] by simp
  with assms mod_less_divisor [OF assms(1), of "p - b"] show "b + r * s \<le> p \<and> p < b + r * s + s" by linarith
next
  assume a: "b + r * s \<le> p \<and> p < b + r * s + s"
  then have "s * r \<le> p - b" "p - b < s * Suc r" by (auto simp: mult.commute)
  then show "(p - b) div s = r" by (rule div_nat_eqI)
qed

lemma sint_u32_small:
  fixes x :: u32
  assumes "unat x < 2 ^ 31"
  shows "sint x = int (unat x)"
proof -
  have "int (unat x) < int (2 ^ 31)" using assms by (simp only: of_nat_less_iff)
  then have "uint x < 2 ^ 31" by simp
  moreover have "0 \<le> uint x" by simp
  ultimately have "signed_take_bit 31 (uint x) = uint x" by (intro signed_take_bit_int_eq_self) linarith+
  then show ?thesis by (simp add: sint_uint)
qed

lemma region_of_page_exact:
  assumes "kRegionBasePage \<le> unat page" and "unat page < kRegionBasePage + n * unat (rm_region_size_pages rm)"
    and "n < 2 ^ 31"
  shows "region_of_page rm page = int ((unat page - kRegionBasePage) div unat (rm_region_size_pages rm))"
proof -
  let ?s = "unat (rm_region_size_pages rm)"
  have ge: "\<not> page < of_nat kRegionBasePage" using assms(1) by (simp add: word_less_nat_alt kRegionBasePage_def)
  have "unat (page - of_nat kRegionBasePage) = unat page - kRegionBasePage"
    using assms(1) by (simp add: unat_sub word_le_nat_alt kRegionBasePage_def)
  then have q: "unat ((page - of_nat kRegionBasePage) div rm_region_size_pages rm) = (unat page - kRegionBasePage) div ?s"
    by (simp add: unat_div_distrib)
  have "unat page - kRegionBasePage < n * ?s" using assms(1,2) by linarith
  then have lt: "(unat page - kRegionBasePage) div ?s < n" by (simp add: less_mult_imp_div_less)
  have "unat (ucast ((page - of_nat kRegionBasePage) div rm_region_size_pages rm) :: u32) = (unat page - kRegionBasePage) div ?s"
    using lt assms(3) by (simp add: unsigned_ucast_eq q take_bit_nat_eq_self)
  with sint_u32_small [of "ucast ((page - of_nat kRegionBasePage) div rm_region_size_pages rm)"] lt assms(3)
  show ?thesis using ge by (simp add: region_of_page_def)
qed

text \<open>An extent counts for a region exactly when it starts in the region's pages.\<close>

lemma addr_in_region:
  assumes dims: "cache_dims c" and dev: "dev < c_n_devs c" and r: "r < length (rm_rg (c_rms c ! dev))"
    and ok: "ext_ok (c_rms c) (dv, page, len)"
  shows "addr_in dev (page_base (c_rms c ! dev) r)
      (trunc64 (page_base (c_rms c ! dev) r + unat (rm_region_size_pages (c_rms c ! dev)))) dv page \<longleftrightarrow>
    unat dv = dev \<and> region_of_page (c_rms c ! dev) page = int r"
proof -
  let ?rm = "c_rms c ! dev"
  let ?s = "unat (rm_region_size_pages ?rm)"
  note G = cache_dims_rm [OF dims dev]
  have "Suc r * ?s \<le> unat (rm_region_cnt ?rm) * ?s" using r G(1) by (intro mult_le_mono1) simp
  then have top: "kRegionBasePage + r * ?s + ?s < 2 ^ 63" using G(5) by simp
  then have base: "page_base ?rm r = kRegionBasePage + r * ?s"
    and stop: "trunc64 (page_base ?rm r + ?s) = kRegionBasePage + r * ?s + ?s" by (simp_all add: page_base_def)
  have dv: "dv = of_nat dev \<longleftrightarrow> unat dv = dev"
  proof -
    have "dev < 2 ^ 32" using dims dev by (simp add: cache_dims_def)
    then show ?thesis by (metis unat_of_nat_u32 word_nat_cases of_nat_unat ucast_id)
  qed
  show ?thesis
  proof (cases "unat dv = dev")
    case True
    have "dv \<noteq> KV_INVALID_DEV" using True dims dev by (auto simp: KV_INVALID_DEV_def cache_dims_def)
    with ok True have alt: "page < of_nat kRegionBasePage \<or>
        unat page < kRegionBasePage + length (rm_rg ?rm) * ?s" by (auto simp: ext_ok_def)
    show ?thesis
    proof (cases "page < of_nat kRegionBasePage")
      case True
      then have "unat page < kRegionBasePage" by (simp add: word_less_nat_alt kRegionBasePage_def)
      then show ?thesis by (simp add: addr_in_def base region_of_page_low [OF True])
    next
      case False
      then have ge: "kRegionBasePage \<le> unat page" by (simp add: word_less_nat_alt kRegionBasePage_def)
      have "region_of_page ?rm page = int ((unat page - kRegionBasePage) div ?s)"
        using alt False G(1,3) by (intro region_of_page_exact [OF ge, of "length (rm_rg ?rm)"]) auto
      moreover have "(unat page - kRegionBasePage) div ?s = r \<longleftrightarrow>
          kRegionBasePage + r * ?s \<le> unat page \<and> unat page < kRegionBasePage + r * ?s + ?s"
        by (rule div_range [OF G(4) ge])
      ultimately show ?thesis using dv \<open>unat dv = dev\<close>
        by (auto simp: addr_in_def base stop [unfolded base])
    qed
  qed (simp add: addr_in_def dv)
qed

section \<open>Dropping a region\<close>

definition in_region :: "cache \<Rightarrow> nat \<Rightarrow> nat \<Rightarrow> radix_leaf \<Rightarrow> bool" where
  "in_region c dev r lf \<longleftrightarrow> leaf_in_pages dev (page_base (c_rms c ! dev) r)
    (trunc64 (page_base (c_rms c ! dev) r + unat (rm_region_size_pages (c_rms c ! dev)))) lf"

text \<open>The caches a scan goes through: leaves are only taken off nodes.\<close>

definition detached_from :: "cache \<Rightarrow> cache \<Rightarrow> bool" where
  "detached_from c c' \<longleftrightarrow> cache_inv c' \<and> c_side c' = c_side c \<and> same_geom (c_rms c) (c_rms c') \<and>
    length (rt_nodes (c_radix c')) = length (rt_nodes (c_radix c)) \<and>
    (\<forall>n < length (rt_nodes (c_radix c)). \<forall>l. node_leaf c' n = Some l \<longrightarrow>
      node_leaf c n = Some l \<and> c_leaves c' ! l = c_leaves c ! l)"

lemma detached_refl: "cache_inv c \<Longrightarrow> detached_from c c"
  by (simp add: detached_from_def)

lemma detached_stat [simp]: "detached_from c (c'\<lparr>c_stat := st\<rparr>) = detached_from c c'"
  by (simp add: detached_from_def node_leaf_def)

lemma tomb_insert_frame:
  "\<exists>tk tc. tomb_insert c clk p = c\<lparr>c_tomb_keys := tk, c_tomb_cf := tc\<rparr>"
proof -
  have "tomb_insert c clk p = c\<lparr>c_tomb_keys := c_tomb_keys (tomb_insert c clk p), c_tomb_cf := c_tomb_cf (tomb_insert c clk p)\<rparr>"
    by (simp add: tomb_insert_def Let_def split: option.split)
  then show ?thesis by blast
qed

lemma detached_tomb [simp]: "detached_from c (tomb_insert c' clk p) = detached_from c c'"
proof -
  obtain tk tc where "tomb_insert c' clk p = c'\<lparr>c_tomb_keys := tk, c_tomb_cf := tc\<rparr>" using tomb_insert_frame by blast
  then show ?thesis by (simp add: detached_from_def node_leaf_def)
qed

lemma leaf_drop_detached:
  assumes "detached_from c c1" and "node < length (rt_nodes (c_radix c))"
  shows "\<exists>c2. leaf_drop c1 node = Some c2 \<and> detached_from c c2 \<and> detached_from c1 c2 \<and> node_leaf c2 node = None"
proof -
  have inv: "cache_inv c1" and node: "node < length (rt_nodes (c_radix c1))"
    using assms by (simp_all add: detached_from_def)
  obtain c2 where c2: "leaf_drop c1 node = Some c2" "cache_inv c2" "atts c2 = (atts c1)[node := None]"
    "c_side c2 = c_side c1" "same_geom (c_rms c1) (c_rms c2)"
    "\<forall>l. node_leaf c1 node \<noteq> Some l \<longrightarrow> c_leaves c2 ! l = c_leaves c1 ! l"
    using leaf_drop_ok [OF inv node] by blast
  have len: "length (rt_nodes (c_radix c2)) = length (rt_nodes (c_radix c1))"
    using arg_cong [OF c2(3), of length] by simp
  have nl: "node_leaf c2 n = (if n = node then None else node_leaf c1 n)" if "n < length (rt_nodes (c_radix c1))" for n
    using that node len atts_nth [of n c2] atts_nth [of n c1] c2(3) by (cases "n = node") simp_all
  have "c_leaves c2 ! l = c_leaves c1 ! l" if "n < length (rt_nodes (c_radix c1))" "n \<noteq> node" "node_leaf c1 n = Some l" for n l
    using c2(6) leaves_okD(2) [OF cache_invD(2) [OF inv], of n node l] that node by (auto simp: atts_nth)
  with nl c2 len inv have d: "detached_from c1 c2" by (auto simp: detached_from_def split: if_splits)
  moreover have "detached_from c c2"
    using assms(1) d by (auto simp: detached_from_def intro: same_geom_trans)
  ultimately show ?thesis using c2(1) nl [OF node] by auto
qed

lemma detached_trans: "detached_from a b \<Longrightarrow> detached_from b c \<Longrightarrow> detached_from a c"
  by (auto simp: detached_from_def intro: same_geom_trans)

lemma drop_region_scan:
  assumes "detached_from c c1" and "\<forall>s \<in> set ss. s \<in> set (st_slots (c_side c))" and "side_nodes_ok c"
  shows "\<exists>c2. fold_opt (drop_region_slot clk dev base stop) ss c1 = Some c2 \<and> detached_from c c2 \<and> detached_from c1 c2 \<and>
    (\<forall>s \<in> set ss. \<forall>n l. ss_used s \<noteq> 0 \<and> ss_node s = Some n \<and> node_leaf c2 n = Some l \<longrightarrow>
      \<not> (leaf_in_pages dev base stop (leaf_at c2 l) \<and> lf_refcnt (leaf_at c2 l) = 0))"
  using assms(1,2)
proof (induction ss arbitrary: c1)
  case Nil
  then show ?case using detached_refl by (auto simp: detached_from_def)
next
  case (Cons s ss)
  have node: "n < length (rt_nodes (c_radix c))" if "ss_used s \<noteq> 0" "ss_node s = Some n" for n
    using assms(3) Cons.prems(2) that by (force simp: side_nodes_ok_def)
  have self: "detached_from c1 c1" using Cons.prems(1) by (intro detached_refl) (simp add: detached_from_def)
  have "\<exists>c2. drop_region_slot clk dev base stop s c1 = Some c2 \<and> detached_from c c2 \<and> detached_from c1 c2 \<and>
      (\<forall>n l. ss_used s \<noteq> 0 \<and> ss_node s = Some n \<and> node_leaf c2 n = Some l \<longrightarrow>
        \<not> (leaf_in_pages dev base stop (leaf_at c2 l) \<and> lf_refcnt (leaf_at c2 l) = 0))"
  proof (cases "ss_used s = 0 \<or> ss_node s = None")
    case True
    then show ?thesis using Cons.prems(1) self by (intro exI [of _ c1]) (auto simp: drop_region_slot_def)
  next
    case False
    then obtain n where n: "ss_used s \<noteq> 0" "ss_node s = Some n" by auto
    show ?thesis
    proof (cases "\<exists>l. node_leaf c1 n = Some l \<and> leaf_in_pages dev base stop (leaf_at c1 l) \<and> lf_refcnt (leaf_at c1 l) = 0")
      case False
      then have "drop_region_slot clk dev base stop s c1 = Some c1"
        using n by (auto simp: drop_region_slot_def split: option.split)
      with False n Cons.prems(1) self show ?thesis by (intro exI [of _ c1]) auto
    next
      case True
      then obtain l where l: "node_leaf c1 n = Some l" "leaf_in_pages dev base stop (leaf_at c1 l)"
        "lf_refcnt (leaf_at c1 l) = 0" by blast
      obtain c2 where c2: "leaf_drop c1 n = Some c2" "detached_from c c2" "detached_from c1 c2" "node_leaf c2 n = None"
        using leaf_drop_detached [OF Cons.prems(1) node [OF n]] by blast
      let ?t = "if ss_prefix_id s \<le> 100 then tomb_insert c2 clk (ss_prefix_id s) else c2"
      have nl: "node_leaf ?t n = None"
        using c2(4) tomb_insert_frame [of c2 clk "ss_prefix_id s"] by (auto simp: node_leaf_def)
      show ?thesis
        using c2(1-3) l n nl
        by (intro exI [of _ "upd_stat (\<lambda>s. s\<lparr>cs_gc_evicted_leaves := cs_gc_evicted_leaves s + 1\<rparr>) ?t"])
          (simp add: drop_region_slot_def node_leaf_def)
    qed
  qed
  then obtain c2 where c2: "drop_region_slot clk dev base stop s c1 = Some c2" "detached_from c c2" "detached_from c1 c2"
    "\<forall>n l. ss_used s \<noteq> 0 \<and> ss_node s = Some n \<and> node_leaf c2 n = Some l \<longrightarrow>
        \<not> (leaf_in_pages dev base stop (leaf_at c2 l) \<and> lf_refcnt (leaf_at c2 l) = 0)" by blast
  obtain c3 where c3: "fold_opt (drop_region_slot clk dev base stop) ss c2 = Some c3" "detached_from c c3" "detached_from c2 c3"
    "\<forall>s \<in> set ss. \<forall>n l. ss_used s \<noteq> 0 \<and> ss_node s = Some n \<and> node_leaf c3 n = Some l \<longrightarrow>
      \<not> (leaf_in_pages dev base stop (leaf_at c3 l) \<and> lf_refcnt (leaf_at c3 l) = 0)"
    using Cons.IH [OF c2(2)] Cons.prems(2) by auto
  have keep: "node_leaf c2 n = Some l \<and> leaf_at c3 l = leaf_at c2 l" if "ss_used s \<noteq> 0" "ss_node s = Some n" "node_leaf c3 n = Some l" for n l
    using c3(3) c2(2) node [OF that(1,2)] that(3) by (simp add: detached_from_def leaf_at_def)
  show ?case
  proof (intro exI [of _ c3] conjI ballI)
    show "fold_opt (drop_region_slot clk dev base stop) (s # ss) c1 = Some c3" using c2(1) c3(1) by simp
    show "detached_from c c3" "detached_from c1 c3" using c3(2) detached_trans [OF c2(3) c3(3)] by simp_all
    fix x assume "x \<in> set (s # ss)"
    then show "\<forall>n l. ss_used x \<noteq> 0 \<and> ss_node x = Some n \<and> node_leaf c3 n = Some l \<longrightarrow>
        \<not> (leaf_in_pages dev base stop (leaf_at c3 l) \<and> lf_refcnt (leaf_at c3 l) = 0)"
    proof (cases "x = s")
      case True
      show ?thesis
      proof (intro allI impI)
        fix n l assume a: "ss_used x \<noteq> 0 \<and> ss_node x = Some n \<and> node_leaf c3 n = Some l"
        with True keep have k: "node_leaf c2 n = Some l" "leaf_at c3 l = leaf_at c2 l" by blast+
        show "\<not> (leaf_in_pages dev base stop (leaf_at c3 l) \<and> lf_refcnt (leaf_at c3 l) = 0)"
          using c2(4) a k True by simp
      qed
    next
      case False
      with \<open>x \<in> set (s # ss)\<close> have "x \<in> set ss" by simp
      with c3(4) show ?thesis by blast
    qed
  qed
qed

lemma cache_drop_region_ok:
  assumes inv: "cache_inv c"
  shows "\<exists>c'. cache_drop_region clk c dev r = Some c' \<and> detached_from c c' \<and>
    (\<forall>s \<in> set (st_slots (c_side c)). \<forall>n l. ss_used s \<noteq> 0 \<and> ss_node s = Some n \<and> node_leaf c' n = Some l \<longrightarrow>
      \<not> (in_region c dev r (leaf_at c' l) \<and> lf_refcnt (leaf_at c' l) = 0))"
proof -
  let ?base = "page_base (c_rms c ! dev) r"
  let ?stop = "trunc64 (?base + unat (rm_region_size_pages (c_rms c ! dev)))"
  have "unat (st_cap (c_side c)) = length (st_slots (c_side c))"
    using cache_invD(6) [OF inv] by (simp add: side_nodes_ok_def side_inv_def)
  then have all: "take (unat (st_cap (c_side c))) (st_slots (c_side c)) = st_slots (c_side c)" by simp
  obtain c2 where c2: "fold_opt (drop_region_slot clk dev ?base ?stop) (st_slots (c_side c)) c = Some c2" "detached_from c c2"
    "\<forall>s \<in> set (st_slots (c_side c)). \<forall>n l. ss_used s \<noteq> 0 \<and> ss_node s = Some n \<and> node_leaf c2 n = Some l \<longrightarrow>
      \<not> (leaf_in_pages dev ?base ?stop (leaf_at c2 l) \<and> lf_refcnt (leaf_at c2 l) = 0)"
    using drop_region_scan [OF detached_refl [OF inv] _ cache_invD(6) [OF inv], of "st_slots (c_side c)" clk dev ?base ?stop]
    by blast
  let ?c' = "upd_stat (\<lambda>s. s\<lparr>cs_drops := cs_drops s + 1\<rparr>) c2"
  have "cache_drop_region clk c dev r = Some ?c'" unfolding cache_drop_region_def Let_def all c2(1) by simp
  moreover have "node_leaf ?c' n = node_leaf c2 n" "leaf_at ?c' l = leaf_at c2 l" for n l
    by (simp_all add: node_leaf_def leaf_at_def)
  ultimately show ?thesis using c2(2,3) unfolding in_region_def by (intro exI [of _ ?c']) simp
qed

text \<open>Every leaf is on a node the side table knows.\<close>

definition side_covers :: "cache \<Rightarrow> bool" where
  "side_covers c \<longleftrightarrow> (\<forall>n < length (rt_nodes (c_radix c)). node_leaf c n \<noteq> None \<longrightarrow>
    (\<exists>s \<in> set (st_slots (c_side c)). ss_used s \<noteq> 0 \<and> ss_node s = Some n))"

definition region_pinned :: "cache \<Rightarrow> nat \<Rightarrow> nat \<Rightarrow> bool" where
  "region_pinned c dev r \<longleftrightarrow> (\<exists>n < length (rt_nodes (c_radix c)). \<exists>l. node_leaf c n = Some l \<and>
    in_region c dev r (leaf_at c l) \<and> lf_refcnt (leaf_at c l) \<noteq> 0)"

lemma ext_live_outside:
  assumes "cache_dims c" and "dev < c_n_devs c" and "r < length (rm_rg (c_rms c ! dev))" and "leaf_ok (c_rms c) lf"
    and "\<not> in_region c dev r lf"
  shows "exts_live (c_rms c) dev r (leaf_exts lf) = 0"
proof -
  have zero: "ext_live (c_rms c) dev r (dv, page, len) = 0"
    if "(dv, page, len) \<in> set (leaf_exts lf)" "\<not> addr_in dev (page_base (c_rms c ! dev) r)
      (trunc64 (page_base (c_rms c ! dev) r + unat (rm_region_size_pages (c_rms c ! dev)))) dv page" for dv page len
    using addr_in_region [OF assms(1-3), of dv page len] that assms(4) by (auto simp: leaf_ok_def ext_live_def)
  have "ext_live (c_rms c) dev r e = 0" if e: "e \<in> set (leaf_exts lf)" for e
  proof -
    obtain dv page len where d: "e = (dv, page, len)" by (cases e)
    have "\<not> addr_in dev (page_base (c_rms c ! dev) r)
        (trunc64 (page_base (c_rms c ! dev) r + unat (rm_region_size_pages (c_rms c ! dev)))) dv page"
      using e assms(5) unfolding d in_region_def leaf_in_pages_def
      by (auto simp: leaf_exts_def addr_exts_def addr_ext_def stripe_exts_def part_ext_def split: if_splits option.splits)
    with zero e show ?thesis by (simp add: d)
  qed
  then have "sum_list (map (ext_live (c_rms c) dev r) (leaf_exts lf)) = sum_list (map (\<lambda>_. 0) (leaf_exts lf))"
    by (intro arg_cong [of _ _ sum_list] map_cong) auto
  then show ?thesis by (simp add: exts_live_def)
qed

text \<open>The account of a region without leaves is zero.\<close>

lemma region_account_zero:
  assumes inv: "cache_inv c" and dev: "dev < c_n_devs c" and r: "r < length (rm_rg (c_rms c ! dev))"
    and none: "\<And>n l. n < length (rt_nodes (c_radix c)) \<Longrightarrow> node_leaf c n = Some l \<Longrightarrow> \<not> in_region c dev r (leaf_at c l)"
  shows "lv (c_rms c) dev r = 0"
proof -
  note D = cache_invD [OF inv]
  have "att_live (c_rms c) (c_leaves c) dev r (atts c ! n) = 0" if n: "n < length (rt_nodes (c_radix c))" for n
  proof (cases "node_leaf c n")
    case None
    then show ?thesis using n by (simp add: atts_nth att_live_def)
  next
    case (Some l)
    from ext_live_outside [OF D(1) dev r attached_leaf(3) [OF inv n Some] none [OF n Some]]
    show ?thesis using n Some by (simp add: atts_nth att_live_def leaf_at_def)
  qed
  moreover have "dev < length (c_rms c)" using D(1) dev by (simp add: cache_dims_def)
  ultimately show ?thesis using leaves_okD(6) [OF D(2)] r by (simp add: accounts_ok_def)
qed

lemma rms_write_ok:
  assumes "cache_inv c" and "lv_upd (c_rms c) rms (\<lambda>d r. 0)"
  shows "cache_inv (c\<lparr>c_rms := rms\<rparr>)"
proof (rule cache_invI)
  note D = cache_invD [OF assms(1)]
  note g = lv_upd_geom [OF assms(2)]
  show "cache_dims (c\<lparr>c_rms := rms\<rparr>)" by (rule same_geom_dims [OF D(1) g])
  have "accounts_ok rms (atts c) (c_leaves c)"
    using leaves_okD(6) [OF D(2)] assms(2) g
    by (auto simp: accounts_ok_def lv_upd_def same_geom_att_live [OF g] same_geom_def)
  then show "leaves_ok (c_rms (c\<lparr>c_rms := rms\<rparr>)) (atts (c\<lparr>c_rms := rms\<rparr>)) (c_leaves (c\<lparr>c_rms := rms\<rparr>)) (c_dfree (c\<lparr>c_rms := rms\<rparr>))"
    using D(2) by (auto simp: leaves_ok_def atts_def same_geom_attached_ok [OF g])
qed (use cache_invD [OF assms(1)] in \<open>auto simp: atts_def side_nodes_ok_def\<close>)

text \<open>Setting the fields of a region whose account is zero, the account to zero.\<close>

lemma rm_set_sh_inv:
  assumes "cache_inv c" and "dev < c_n_devs c" and "r < length (rm_rg (c_rms c ! dev))"
    and "\<And>sh. rs_live_bytes (f sh) = 0 \<or> rs_live_bytes (f sh) = rs_live_bytes sh"
    and "lv (c_rms c) dev r = 0 \<or> (\<forall>sh. rs_live_bytes (f sh) = rs_live_bytes sh)"
  shows "cache_inv (rm_set_sh c dev r f)"
proof -
  have dl: "dev < length (c_rms c)" using assms(1,2) by (simp add: cache_inv_def cache_dims_def)
  have "lv_upd (c_rms c) ((c_rms c)[dev := (c_rms c ! dev)\<lparr>rm_rg := (rm_rg (c_rms c ! dev))[r := f (rm_rg (c_rms c ! dev) ! r)]\<rparr>])
      (\<lambda>d r. 0)"
    using assms(3-5) dl by (auto simp: lv_upd_def same_geom_def lv_def nth_upd)
      (metis)+
  from rms_write_ok [OF assms(1) this] show ?thesis by (simp add: rm_set_sh_def Let_def)
qed

lemma cache_inv_devs: "length ds = length (c_devs c) \<Longrightarrow> cache_inv (c\<lparr>c_devs := ds\<rparr>) = cache_inv c"
  using cache_inv_io [of "c_journals c" c ds] by simp

lemma cache_write_header_inv [simp]: "cache_inv (snd (cache_write_header c dev r)) = cache_inv c"
  by (simp add: cache_write_header_def cache_inv_devs split: prod.split)

lemma trim_region_inv:
  assumes inv: "cache_inv c" and dev: "dev < c_n_devs c" and r: "r < length (rm_rg (c_rms c ! dev))"
    and zero: "lv (c_rms c) dev r = 0"
  shows "cache_inv (trim_region c dev r)"
proof -
  let ?d = "snd (dev_trim (c_devs c ! dev) (trunc64 (page_base (c_rms c ! dev) r + 1))
     (unat (ucast (rm_region_size_pages (c_rms c ! dev) - 1) :: u32)))"
  let ?c = "c\<lparr>c_devs := (c_devs c)[dev := ?d]\<rparr>"
  have "cache_inv ?c" using inv by (simp add: cache_inv_devs)
  from rm_set_sh_inv [OF this, of dev r "\<lambda>sh. sh\<lparr>rs_state := KV_RG_FREE, rs_live_bytes := 0, rs_epoch := 0,
      rs_close_ts := 0, rs_watermark_page := 1\<rparr>"] dev r zero
  show ?thesis by (simp add: trim_region_def Let_def)
qed

text \<open>Dropping a region without pinned leaves empties it.\<close>

lemma drop_region_empties:
  assumes inv: "cache_inv c" and cov: "side_covers c" and dev: "dev < c_n_devs c"
    and r: "r < length (rm_rg (c_rms c ! dev))" and pin: "\<not> region_pinned c dev r"
    and drop: "cache_drop_region clk c dev r = Some c'"
  shows "lv (c_rms c') dev r = 0"
proof -
  have d: "detached_from c c'" and gone: "\<forall>s \<in> set (st_slots (c_side c)). \<forall>n l. ss_used s \<noteq> 0 \<and> ss_node s = Some n \<and>
      node_leaf c' n = Some l \<longrightarrow> \<not> (in_region c dev r (leaf_at c' l) \<and> lf_refcnt (leaf_at c' l) = 0)"
    using cache_drop_region_ok [OF inv, of clk dev r] drop by auto
  have g: "same_geom (c_rms c) (c_rms c')" using d by (simp add: detached_from_def)
  have dl: "dev < length (c_rms c)" using inv dev by (simp add: cache_inv_def cache_dims_def)
  have "page_base (c_rms c' ! dev) = page_base (c_rms c ! dev)"
    using g dl by (intro page_base_cong) (simp add: same_geom_def)
  then have ir: "in_region c' dev r = in_region c dev r"
    using g dl by (simp add: in_region_def fun_eq_iff same_geom_def)
  show ?thesis
  proof (rule region_account_zero)
    show "cache_inv c'" using d by (simp add: detached_from_def)
    then show "dev < c_n_devs c'" using dl g by (simp add: cache_inv_def cache_dims_def same_geom_def)
    show "r < length (rm_rg (c_rms c' ! dev))" using r g dl by (simp add: same_geom_def)
  next
    fix n l assume n: "n < length (rt_nodes (c_radix c'))" and l: "node_leaf c' n = Some l"
    from d n have n': "n < length (rt_nodes (c_radix c))" by (simp add: detached_from_def)
    with d l have old: "node_leaf c n = Some l" "leaf_at c' l = leaf_at c l" by (simp_all add: detached_from_def leaf_at_def)
    obtain s where s: "s \<in> set (st_slots (c_side c))" "ss_used s \<noteq> 0" "ss_node s = Some n"
      using cov n' old by (auto simp: side_covers_def)
    from gone s l have "\<not> (in_region c dev r (leaf_at c' l) \<and> lf_refcnt (leaf_at c' l) = 0)" by blast
    moreover have "\<not> (in_region c dev r (leaf_at c' l) \<and> lf_refcnt (leaf_at c' l) \<noteq> 0)"
      using pin n' old by (auto simp: region_pinned_def)
    ultimately show "\<not> in_region c' dev r (leaf_at c' l)" by (simp add: ir)
  qed
qed

section \<open>Recounting\<close>

lemma zero_region_loop:
  "fold (\<lambda>i c. rm_set_sh c d i (\<lambda>sh. sh\<lparr>rs_live_bytes := 0\<rparr>)) [0..<n] c =
    c\<lparr>c_rms := (c_rms c)[d := (c_rms c ! d)\<lparr>rm_rg :=
      map (\<lambda>i. if i < n then (rm_rg (c_rms c ! d) ! i)\<lparr>rs_live_bytes := 0\<rparr> else rm_rg (c_rms c ! d) ! i)
        [0..<length (rm_rg (c_rms c ! d))]\<rparr>]\<rparr>" if "d < length (c_rms c)"
proof (induction n)
  case 0
  have "map (\<lambda>i. rm_rg (c_rms c ! d) ! i) [0..<length (rm_rg (c_rms c ! d))] = rm_rg (c_rms c ! d)" by (rule map_nth)
  then show ?case by simp
next
  case (Suc n)
  let ?rg = "rm_rg (c_rms c ! d)"
  have "(map (\<lambda>i. if i < n then (?rg ! i)\<lparr>rs_live_bytes := 0\<rparr> else ?rg ! i) [0..<length ?rg])
      [n := (map (\<lambda>i. if i < n then (?rg ! i)\<lparr>rs_live_bytes := 0\<rparr> else ?rg ! i) [0..<length ?rg] ! n)\<lparr>rs_live_bytes := 0\<rparr>] =
      map (\<lambda>i. if i < Suc n then (?rg ! i)\<lparr>rs_live_bytes := 0\<rparr> else ?rg ! i) [0..<length ?rg]"
    by (intro nth_equalityI) (auto simp: nth_upd)
  then show ?case using Suc that by (simp add: rm_set_sh_def Let_def)
qed

text \<open>All accounts zero, nothing else changed.\<close>

definition zeroed :: "region_mgr list \<Rightarrow> region_mgr list \<Rightarrow> bool" where
  "zeroed rms rms' \<longleftrightarrow> same_geom rms rms' \<and> (\<forall>d < length rms. \<forall>r < length (rm_rg (rms ! d)). lv rms' d r = 0)"

lemma zero_all_loop:
  assumes "\<And>rm. rm \<in> set (c_rms c) \<Longrightarrow> length (rm_rg rm) \<le> n"
  shows "\<exists>rms. fold (\<lambda>d c. fold (\<lambda>i c. rm_set_sh c d i (\<lambda>sh. sh\<lparr>rs_live_bytes := 0\<rparr>)) [0..<n] c) [0..<length (c_rms c)] c =
    c\<lparr>c_rms := rms\<rparr> \<and> zeroed (c_rms c) rms"
proof -
  let ?f = "\<lambda>d c. fold (\<lambda>i c. rm_set_sh c d i (\<lambda>sh. sh\<lparr>rs_live_bytes := 0\<rparr>)) [0..<n] c"
  have "\<exists>rms. fold ?f [0..<k] c = c\<lparr>c_rms := rms\<rparr> \<and> same_geom (c_rms c) rms \<and>
      (\<forall>d < k. \<forall>r < length (rm_rg (c_rms c ! d)). lv rms d r = 0)" if "k \<le> length (c_rms c)" for k
    using that
  proof (induction k)
    case 0
    show ?case by (intro exI [of _ "c_rms c"]) simp
  next
    case (Suc k)
    then obtain rms where rms: "fold ?f [0..<k] c = c\<lparr>c_rms := rms\<rparr>" "same_geom (c_rms c) rms"
      "\<forall>d < k. \<forall>r < length (rm_rg (c_rms c ! d)). lv rms d r = 0" by auto
    have k: "k < length rms" using Suc.prems rms(2) by (simp add: same_geom_def)
    have n: "length (rm_rg (rms ! k)) \<le> n"
      using assms [of "c_rms c ! k"] rms(2) Suc.prems by (simp add: same_geom_def)
    let ?rms = "rms[k := (rms ! k)\<lparr>rm_rg := map (\<lambda>i. if i < n then (rm_rg (rms ! k) ! i)\<lparr>rs_live_bytes := 0\<rparr>
        else rm_rg (rms ! k) ! i) [0..<length (rm_rg (rms ! k))]\<rparr>]"
    have "fold ?f [0..<Suc k] c = c\<lparr>c_rms := ?rms\<rparr>"
      using rms(1) zero_region_loop [of k "c\<lparr>c_rms := rms\<rparr>" n] k by (simp cong: if_cong)
    moreover have "same_geom (c_rms c) ?rms" using rms(2) by (simp add: same_geom_def nth_upd)
    moreover have "lv ?rms d r = 0" if "d < Suc k" "r < length (rm_rg (c_rms c ! d))" for d r
      using that rms(2,3) k n Suc.prems by (auto simp: lv_def nth_upd same_geom_def less_Suc_eq)
    ultimately show ?case by blast
  qed
  from this [of "length (c_rms c)"] show ?thesis by (auto simp: zeroed_def)
qed

lemma recount_leaves:
  assumes "\<And>n l. n \<in> set js \<Longrightarrow> node_leaf c n = Some l \<Longrightarrow> leaf_ok rms (leaf_at c l)"
  shows "\<exists>rms'. run_cb (\<lambda>i x. case rn_leaf (rt_nodes (c_radix c) ! i) of None \<Rightarrow> (0, x)
        | Some l \<Rightarrow> (0, leaf_add_live x (leaf_at x l))) js (c\<lparr>c_rms := rms\<rparr>) = (0, c\<lparr>c_rms := rms'\<rparr>) \<and>
    lv_upd rms rms' (\<lambda>d r. \<Sum>n \<leftarrow> js. att_live rms (c_leaves c) d r (node_leaf c n))"
  using assms
proof (induction js arbitrary: rms)
  case Nil
  show ?case using lv_upd_refl by (intro exI [of _ rms]) simp
next
  case (Cons j js)
  let ?cb = "\<lambda>i x. case rn_leaf (rt_nodes (c_radix c) ! i) of None \<Rightarrow> (0 :: int, x)
        | Some l \<Rightarrow> (0, leaf_add_live x (leaf_at x l))"
  have "\<exists>rms1. ?cb j (c\<lparr>c_rms := rms\<rparr>) = (0, c\<lparr>c_rms := rms1\<rparr>) \<and>
      lv_upd rms rms1 (\<lambda>d r. att_live rms (c_leaves c) d r (node_leaf c j))"
  proof (cases "node_leaf c j")
    case None
    then show ?thesis using lv_upd_refl by (intro exI [of _ rms]) (simp add: node_leaf_def att_live_def)
  next
    case (Some l)
    then have "leaf_ok rms (leaf_at c l)" using Cons.prems [of j l] by simp
    with rms_adds_lv [of "leaf_exts (leaf_at c l)" rms] Some show ?thesis
      by (intro exI [of _ "fold (rms_ext (+)) (leaf_exts (leaf_at c l)) rms"])
        (simp add: node_leaf_def att_live_def leaf_add_live_rms leaf_ok_def leaf_at_def)
  qed
  then obtain rms1 where r1: "?cb j (c\<lparr>c_rms := rms\<rparr>) = (0, c\<lparr>c_rms := rms1\<rparr>)"
    "lv_upd rms rms1 (\<lambda>d r. att_live rms (c_leaves c) d r (node_leaf c j))" by blast
  note g = lv_upd_geom [OF r1(2)]
  obtain rms2 where r2: "run_cb ?cb js (c\<lparr>c_rms := rms1\<rparr>) = (0, c\<lparr>c_rms := rms2\<rparr>)"
    "lv_upd rms1 rms2 (\<lambda>d r. \<Sum>n \<leftarrow> js. att_live rms1 (c_leaves c) d r (node_leaf c n))"
    using Cons.IH [of rms1] Cons.prems same_geom_leaf_ok [OF g] by auto
  have "lv_upd rms rms2 (\<lambda>d r. \<Sum>n \<leftarrow> j # js. att_live rms (c_leaves c) d r (node_leaf c n))"
    using lv_upd_trans [OF r1(2) r2(2)] by (rule lv_upd_cong) (simp add: same_geom_att_live [OF g])
  with r1(1) r2(1) show ?case by (intro exI [of _ rms2]) simp
qed

text \<open>Recounting rights the accounts of a cache whose index is sound.\<close>

lemma cache_recompute_live_ok:
  assumes inv: "cache_inv (c\<lparr>c_rms := rms0\<rparr>)" and g0: "same_geom rms0 (c_rms c)"
    and cnt: "\<And>rm. rm \<in> set (c_rms c) \<Longrightarrow> length (rm_rg rm) \<le> unat (cf_region_cnt (c_cfg c))"
    and mem: "no_oom (rt_mem (c_radix c))"
  shows "\<exists>rms. cache_recompute_live c = Some (c\<lparr>c_rms := rms\<rparr>) \<and> cache_inv (c\<lparr>c_rms := rms\<rparr>) \<and> same_geom (c_rms c) rms"
proof -
  let ?c0 = "c\<lparr>c_rms := rms0\<rparr>"
  note D = cache_invD [OF inv]
  have n: "length (c_rms c) = c_n_devs c" using D(1) g0 by (simp add: cache_dims_def same_geom_def)
  obtain z where z: "fold (\<lambda>d x. fold (\<lambda>i x. rm_set_sh x d i (\<lambda>sh. sh\<lparr>rs_live_bytes := 0\<rparr>)) [0..<unat (cf_region_cnt (c_cfg c))] x)
      [0..<c_n_devs c] c = c\<lparr>c_rms := z\<rparr>" "zeroed (c_rms c) z"
    using zero_all_loop [of c "unat (cf_region_cnt (c_cfg c))"] cnt unfolding n by blast
  have gz: "same_geom rms0 z" using g0 z(2) same_geom_trans by (auto simp: zeroed_def)
  let ?js = "radix_rev.dfs (length (rt_nodes (c_radix c))) (rt_nodes (c_radix c)) 0"
  have rx: "radix_inv (c_radix c)" using D(4) by simp
  note vo = visit_order [OF rx]
  have leaf: "leaf_ok z (leaf_at c l)" if "n \<in> set ?js" "node_leaf c n = Some l" for n l
    using attached_leaf(3) [OF inv, of n l] that vo(2) same_geom_leaf_ok [OF gz] by (simp add: node_leaf_def leaf_at_def)
  obtain rms where r: "run_cb (\<lambda>i x. case rn_leaf (rt_nodes (c_radix c) ! i) of None \<Rightarrow> (0, x)
        | Some l \<Rightarrow> (0, leaf_add_live x (leaf_at x l))) ?js (c\<lparr>c_rms := z\<rparr>) = (0, c\<lparr>c_rms := rms\<rparr>)"
    "lv_upd z rms (\<lambda>d r. \<Sum>n \<leftarrow> ?js. att_live z (c_leaves c) d r (node_leaf c n))"
    using recount_leaves [of ?js c z] leaf by blast
  have gr: "same_geom rms0 rms" using same_geom_trans [OF gz lv_upd_geom [OF r(2)]] .
  have "cache_recompute_live c = Some (c\<lparr>c_rms := rms\<rparr>)"
    unfolding cache_recompute_live_def Let_def z(1) radix_visit_leaves_def
    using r(1) by (simp add: radix_visit_ok [OF rx mem])
  moreover have "cache_inv (c\<lparr>c_rms := rms\<rparr>)"
  proof (rule cache_invI)
    let ?c = "c\<lparr>c_rms := rms\<rparr>"
    show "cache_dims ?c" using same_geom_dims [OF D(1), of rms] gr by simp
    have "lv rms d r = (\<Sum>i < length (atts c). att_live rms (c_leaves c) d r (atts c ! i))"
      if d: "d < length rms" and r': "r < length (rm_rg (rms ! d))" for d r
    proof -
      have dz: "d < length z" "r < length (rm_rg (z ! d))" and "lv z d r = 0"
        using d r' gr gz z(2) by (auto simp: same_geom_def zeroed_def)
      then have "lv rms d r = (\<Sum>n \<leftarrow> ?js. att_live z (c_leaves c) d r (node_leaf c n))"
        using r(2) by (simp add: lv_upd_def)
      also have "\<dots> = (\<Sum>n \<in> set ?js. att_live z (c_leaves c) d r (node_leaf c n))"
        by (rule sum_list_distinct_conv_sum_set [OF vo(1)])
      also have "\<dots> = (\<Sum>i < length (atts c). att_live rms (c_leaves c) d r (atts c ! i))"
        unfolding vo(2) using same_geom_att_live [OF lv_upd_geom [OF r(2)] dz(1)] by (simp add: atts_nth)
      finally show ?thesis .
    qed
    then have "accounts_ok rms (atts c) (c_leaves c)" by (simp add: accounts_ok_def)
    with D(2) show "leaves_ok (c_rms ?c) (atts ?c) (c_leaves ?c) (c_dfree ?c)"
      by (auto simp: leaves_ok_def atts_def same_geom_attached_ok [OF gr])
  qed (use D in \<open>auto simp: atts_def side_nodes_ok_def\<close>)
  moreover have "same_geom (c_rms c) rms" using same_geom_trans [OF same_geom_sym [OF g0] gr] .
  ultimately show ?thesis by blast
qed

end
