(* ===== verification/KV_Gc.thy ===== *)
theory KV_Gc
  imports KV_Ckpt KV_Leaf_Region "HOL-Library.Monad_Syntax"
begin

text \<open>
  The garbage collector (\<open>src/gc.cpp\<close>): decay of the hit counts, expiry, trimming of empty
  regions, checkpoints, and dropping whole generations of regions between the two water marks; and
  the synchronous freeing of a region for a writer that has none.  A region's live bytes are a
  signed 64-bit counter, kept as a word.  The wake-ups of the collector's thread are a list with
  the clock and the outcomes of the standard I/O calls of each.
\<close>

section \<open>One tick\<close>

definition gc_ttl_slot :: "clock \<Rightarrow> side_slot \<Rightarrow> cache \<Rightarrow> cache option" where
  "gc_ttl_slot clk s c =
    (case (if ss_used s = 0 then None else ss_node s) of
       None \<Rightarrow> Some c
     | Some node \<Rightarrow>
         (case node_leaf c node of
            None \<Rightarrow> Some c
          | Some l \<Rightarrow>
              (let exp = ka_expire_ts (lf_addr0 (leaf_at c l))
               in if exp \<noteq> 0 \<and> ucast exp < ck_s clk \<and> lf_refcnt (leaf_at c l) = 0 then leaf_drop c node else Some c)))"

definition gc_ttl :: "clock \<Rightarrow> cache \<Rightarrow> cache option" where
  "gc_ttl clk c =
    map_option dfree_reap
      (fold_opt (gc_ttl_slot clk) (take (unat (st_cap (c_side c))) (st_slots (c_side c))) (c\<lparr>c_last_ttl_ms := ck_ms clk\<rparr>))"

text \<open>The regions of all devices, in the order of the two nested loops.\<close>

definition all_regions :: "cache \<Rightarrow> (nat \<times> nat) list" where
  "all_regions c = concat (map (\<lambda>d. map (Pair d) [0..<unat (rm_region_cnt (c_rms c ! d))]) [0..<c_n_devs c])"

definition region_at :: "cache \<Rightarrow> nat \<Rightarrow> nat \<Rightarrow> region_sh" where
  "region_at c d i = rm_rg (c_rms c ! d) ! i"

definition gc_trim_empty :: "clock \<Rightarrow> cache \<Rightarrow> cache" where
  "gc_trim_empty clk c =
    fold (\<lambda>(d, i) c.
        let sh = region_at c d i
        in if rs_state sh = KV_RG_FROZEN \<and> rs_live_bytes sh = 0 \<and> rs_close_ts sh \<noteq> 0 \<and>
              ck_s clk > rs_base_ts sh + ucast (cf_epoch_secs (c_cfg c))
           then trim_region c d i else c)
      (all_regions c) c"

definition gc_journal_full :: "cache \<Rightarrow> nat \<Rightarrow> bool" where
  "gc_journal_full c d \<longleftrightarrow>
    (let j = c_journals c ! d
     in j_cur_off j > KV_PAGE_SIZE * 4 div 5 \<or> j_cur_page j \<ge> unat (cf_journal_pages (c_cfg c) - 1) \<or> j_dropped j \<noteq> 0)"

definition gc_checkpoint :: "clock \<Rightarrow> bool list \<Rightarrow> cache \<Rightarrow> cache option" where
  "gc_checkpoint clk os c =
    (if ck_ms clk - c_last_ckpt_ms c \<ge> 2000 then
       map_option (\<lambda>c. c\<lparr>c_last_ckpt_ms := ck_ms clk\<rparr>)
         (if \<exists>d \<in> set [0..<c_n_devs c]. gc_journal_full c d then map_option snd (cache_checkpoint os c) else Some c)
     else Some c)"

definition gc_usage :: "cache \<Rightarrow> u64 \<times> u64" where
  "gc_usage c =
    fold (\<lambda>(d, i) (cap, live).
        (cap + rm_region_size_pages (c_rms c ! d) * of_nat KV_PAGE_SIZE,
         if rs_state (region_at c d i) \<noteq> KV_RG_FREE then live + rs_live_bytes (region_at c d i) else live))
      (all_regions c) (0, 0)"

definition gc_oldest :: "clock \<Rightarrow> cache \<Rightarrow> u64" where
  "gc_oldest clk c =
    fold (\<lambda>(d, i) oldest.
        let sh = region_at c d i
        in if rs_state sh \<noteq> KV_RG_FROZEN \<or> rs_epoch sh = 0 then oldest
           else if cf_min_gen_age_secs (c_cfg c) \<noteq> 0 \<and> ck_s clk < rs_base_ts sh + ucast (cf_min_gen_age_secs (c_cfg c)) then oldest
           else if rs_epoch sh < oldest then rs_epoch sh else oldest)
      (all_regions c) (- 1)"

definition gc_drop_gen :: "clock \<Rightarrow> u64 \<Rightarrow> cache \<Rightarrow> cache option" where
  "gc_drop_gen clk oldest c =
    fold_opt (\<lambda>(d, i) c.
        if rs_state (region_at c d i) = KV_RG_FROZEN \<and> rs_epoch (region_at c d i) = oldest then
          map_option (\<lambda>c. if rs_live_bytes (region_at c d i) = 0 then trim_region c d i else c) (cache_drop_region clk c d i)
        else Some c)
      (all_regions c) c"

fun gc_rounds :: "clock \<Rightarrow> nat \<Rightarrow> cache \<Rightarrow> cache option" where
  "gc_rounds clk 0 c = Some c"
| "gc_rounds clk (Suc step) c =
    (let oldest = gc_oldest clk c
     in if oldest = - 1 then Some c else Option.bind (gc_drop_gen clk oldest c) (gc_rounds clk step))"

definition gc_drain :: "clock \<Rightarrow> cache \<Rightarrow> cache option" where
  "gc_drain clk c =
    (case gc_usage c of (cap_bytes, live_total) \<Rightarrow>
       (let cfg = c_cfg c;
            start_pct = (if cf_gc_start_pct cfg \<noteq> 0 then cf_gc_start_pct cfg else 80);
            stop_pct = (if cf_gc_stop_pct cfg \<noteq> 0 then cf_gc_stop_pct cfg else 70);
            step = (if cf_gc_step_gens cfg \<noteq> 0 then cf_gc_step_gens cfg else 1);
            over_start = (cap_bytes \<noteq> 0 \<and> live_total * 100 > cap_bytes * ucast start_pct);
            over_stop = (cap_bytes \<noteq> 0 \<and> live_total * 100 > cap_bytes * ucast stop_pct);
            c = (if over_start \<and> \<not> c_gc_draining c
                 then upd_stat (\<lambda>s. s\<lparr>cs_gc_triggers := cs_gc_triggers s + 1\<rparr>) (c\<lparr>c_gc_draining := True\<rparr>)
                 else if \<not> over_stop \<and> c_gc_draining c then c\<lparr>c_gc_draining := False\<rparr> else c)
        in if c_gc_draining c \<and> over_stop then gc_rounds clk (unat step) c else Some c))"

definition gc_tick :: "clock \<Rightarrow> bool list \<Rightarrow> cache \<Rightarrow> cache option" where
  "gc_tick clk os c =
    do {
      c \<leftarrow> (if c_last_decay_ms c \<noteq> 0 \<and> ck_ms clk - c_last_decay_ms c \<ge> ucast (cf_hot_decay_ms (c_cfg c))
            then map_option (\<lambda>t. c\<lparr>c_radix := t, c_last_decay_ms := ck_ms clk\<rparr>) (hot_decay (c_radix c))
            else Some c);
      c \<leftarrow> (if ck_ms clk - c_last_ttl_ms c \<ge> 1000 then gc_ttl clk c else Some c);
      c \<leftarrow> gc_checkpoint clk os (gc_trim_empty clk c);
      gc_drain clk c
    }"

section \<open>The thread\<close>

fun gc_thread_main :: "(clock \<times> bool list \<times> bool list) list \<Rightarrow> cache \<Rightarrow> cache option" where
  "gc_thread_main [] c = Some c"
| "gc_thread_main ((clk, os, os') # wakeups) c =
    (if c_gc_stop c then Some c
     else
       do {
         c \<leftarrow> (if c_ckpt_wanted c then map_option snd (cache_checkpoint os (c\<lparr>c_ckpt_wanted := False\<rparr>)) else Some c);
         c \<leftarrow> (if ck_ms clk mod 2000 < 210 then gc_tick clk os' c else Some c);
         gc_thread_main wakeups c
       })"

text \<open>\<open>ok\<close> is the outcome of starting the thread.\<close>

definition gc_start :: "bool \<Rightarrow> clock \<Rightarrow> cache \<Rightarrow> int \<times> cache" where
  "gc_start ok clk c =
    (if ok then KV_EOK else - KV_EIO,
     c\<lparr>c_last_decay_ms := ck_ms clk, c_last_ttl_ms := ck_ms clk, c_last_ckpt_ms := ck_ms clk\<rparr>)"

definition gc_stop :: "cache \<Rightarrow> cache" where
  "gc_stop c = c\<lparr>c_gc_stop := True\<rparr>"

section \<open>Freeing a region for a writer\<close>

definition ff_candidate :: "cache \<Rightarrow> nat \<Rightarrow> int \<Rightarrow> nat \<Rightarrow> bool" where
  "ff_candidate c dev avoid i \<longleftrightarrow>
    \<not> (int i = avoid \<or> rs_state (region_at c dev i) = KV_RG_FREE) \<and> rs_state (region_at c dev i) = KV_RG_FROZEN"

definition ff_victim :: "cache \<Rightarrow> nat \<Rightarrow> int \<Rightarrow> int" where
  "ff_victim c dev avoid =
    fst (fold (\<lambda>i (victim, best).
        if ff_candidate c dev avoid i \<and> sint (rs_live_bytes (region_at c dev i)) < best
        then (int i, sint (rs_live_bytes (region_at c dev i))) else (victim, best))
      [0..<unat (rm_region_cnt (c_rms c ! dev))] (-1, 2 ^ 63 - 1))"

definition cache_force_free_region :: "clock \<Rightarrow> cache \<Rightarrow> nat \<Rightarrow> int \<Rightarrow> (int \<times> cache) option" where
  "cache_force_free_region clk c dev avoid =
    (case find (\<lambda>i. ff_candidate c dev avoid i \<and> rs_live_bytes (region_at c dev i) = 0)
            [0..<unat (rm_region_cnt (c_rms c ! dev))] of
       Some i \<Rightarrow> Some (int i, trim_region c dev i)
     | None \<Rightarrow>
         (let victim = ff_victim c dev avoid
          in if victim < 0 then Some (-1, c)
             else map_option (\<lambda>c. (victim, trim_region c dev (nat victim))) (cache_drop_region clk c dev (nat victim))))"

end
