(* ===== verification/KV_Writer.thy ===== *)
theory KV_Writer
  imports KV_Gc
begin

text \<open>
  The shard writer (\<open>src/writer.cpp\<close>): one writer per device collects requests from its queue
  into one of two batch buffers, lays them out in the open region, writes the batch and, when the
  write has completed, publishes the leaves, flushes the journal and releases the put contexts.
  Writers are named by their device.  The transport is the synchronous one, so the completion
  callback runs inside the submission; a wait for a busy buffer then never ends (\<open>None\<close>).  The
  callers' memory at the time of the batch is the argument \<open>um\<close>.  \<open>None\<close> also stands for an
  access outside a buffer.
\<close>

section \<open>Put contexts\<close>

definition put_ctx_init :: "nat option \<Rightarrow> put_ctx" where
  "put_ctx_init ack = \<lparr>pc_refs = 0, pc_err = KV_EOK, pc_ack = ack, pc_staging = None, pc_t0_ns = 0\<rparr>"

definition ctx_at :: "cache \<Rightarrow> nat \<Rightarrow> put_ctx" where
  "ctx_at c k = the (c_ctxs c ! k)"

definition ctx_set :: "cache \<Rightarrow> nat \<Rightarrow> put_ctx option \<Rightarrow> cache" where
  "ctx_set c k pc = c\<lparr>c_ctxs := (c_ctxs c)[k := pc]\<rparr>"

definition put_ctx_unref :: "clock \<Rightarrow> cache \<Rightarrow> nat \<Rightarrow> cache" where
  "put_ctx_unref clk c k =
    (let pc = ctx_at c k
     in if pc_refs pc = 1 then
          (let err = pc_err pc;
               c = (if err \<noteq> KV_EOK then upd_stat (\<lambda>s. s\<lparr>cs_puts_err := cs_puts_err s + 1\<rparr>) c else c);
               c = (if cf_metrics_level (c_cfg c) \<ge> KV_MLEVEL_FULL \<and> pc_t0_ns pc \<noteq> 0
                    then c\<lparr>c_m := (c_m c)\<lparr>km_put_ack := kv_hist_sample (km_put_ack (c_m c)) (ck_ns clk - pc_t0_ns pc)\<rparr>\<rparr> else c);
               c = (case pc_ack pc of None \<Rightarrow> c | Some user \<Rightarrow> c\<lparr>c_acks := c_acks c @ [(user, err)]\<rparr>)
           in ctx_set c k None)
        else ctx_set c k (Some (pc\<lparr>pc_refs := pc_refs pc - 1\<rparr>)))"

definition put_ctx_set_err :: "cache \<Rightarrow> nat \<Rightarrow> int \<Rightarrow> cache" where
  "put_ctx_set_err c k err =
    (if err \<noteq> KV_EOK \<and> pc_err (ctx_at c k) = KV_EOK then ctx_set c k (Some ((ctx_at c k)\<lparr>pc_err := err\<rparr>)) else c)"

section \<open>The write cursor\<close>

definition w_at :: "cache \<Rightarrow> nat \<Rightarrow> shard_writer" where
  "w_at c i = c_writers c ! i"

definition w_upd :: "cache \<Rightarrow> nat \<Rightarrow> (shard_writer \<Rightarrow> shard_writer) \<Rightarrow> cache" where
  "w_upd c i f = c\<lparr>c_writers := (c_writers c)[i := f (c_writers c ! i)]\<rparr>"

definition batch_buf_size :: "cache \<Rightarrow> u32" where
  "batch_buf_size c =
    (let m = cf_stripe_threshold (c_cfg c);
         m = (if ly_stripe_unit (c_layout c) > m then ly_stripe_unit (c_layout c) else m)
     in ucast (m + 4 * of_nat KV_PAGE_SIZE))"

definition region_abs_page :: "region_mgr \<Rightarrow> nat \<Rightarrow> u64 \<Rightarrow> u64" where
  "region_abs_page rm idx rel = of_nat (page_base rm idx) + rel"

definition writer_flush_watermark :: "cache \<Rightarrow> nat \<Rightarrow> cache" where
  "writer_flush_watermark c i =
    (let rm = c_rms c ! i;
         idx = sw_region (w_at c i);
         base = of_nat (page_base rm idx);
         confirmed = sw_confirmed_page (w_at c i)
     in if confirmed < base then c
        else
          (let rel = confirmed - base;
               rel = (if rel > rm_region_size_pages rm then rm_region_size_pages rm else rel)
           in snd (cache_write_header (rm_set_sh c i idx (\<lambda>sh. sh\<lparr>rs_watermark_page := rel\<rparr>)) i idx)))"

text \<open>The open region is closed and the next one, or one freed by force, is opened.\<close>

definition writer_freeze :: "clock \<Rightarrow> cache \<Rightarrow> nat \<Rightarrow> cache" where
  "writer_freeze clk c i =
    (let old = sw_region (w_at c i);
         base = of_nat (page_base (c_rms c ! i) old);
         confirmed = sw_confirmed_page (w_at c i);
         rel = (if confirmed > base then confirmed - base else 1);
         c = rm_set_sh c i old (\<lambda>sh. sh\<lparr>rs_watermark_page := rel, rs_close_ts := ck_s clk, rs_state := KV_RG_FROZEN\<rparr>);
         c = snd (cache_write_header c i old);
         c = snd (with_journal c i (\<lambda>j. journal_trim j (of_nat old) (rs_epoch (region_at c i old))))
     in snd (with_journal c i journal_flush))"

definition cache_sb_write :: "clock \<Rightarrow> cache \<Rightarrow> nat \<Rightarrow> cache" where
  "cache_sb_write clk c i =
    c\<lparr>c_devs := (c_devs c)[i := snd (sb_write (c_rms c ! i) (c_devs c ! i) (ck_s clk))]\<rparr>"

definition writer_open_region :: "clock \<Rightarrow> cache \<Rightarrow> nat \<Rightarrow> nat \<Rightarrow> cache" where
  "writer_open_region clk c i next =
    (let c = c\<lparr>c_rms := (c_rms c)[i := (c_rms c ! i)\<lparr>rm_epoch_counter := rm_epoch_counter (c_rms c ! i) + 1\<rparr>]\<rparr>;
         c = rm_set_sh c i next (\<lambda>sh. sh\<lparr>rs_epoch := rm_epoch_counter (c_rms c ! i), rs_base_ts := ck_s clk,
               rs_close_ts := 0, rs_watermark_page := 1, rs_live_bytes := 0, rs_state := KV_RG_OPEN\<rparr>);
         c = cache_sb_write clk (snd (cache_write_header c i next)) i;
         c = w_upd c i (\<lambda>w. w\<lparr>sw_region := next, sw_next_page := 1,
               sw_confirmed_page := region_abs_page (c_rms c ! i) next 1, sw_since_wm := 0\<rparr>)
     in upd_stat (\<lambda>s. s\<lparr>cs_rotations := cs_rotations s + 1\<rparr>) c)"

definition writer_freeze_and_rotate :: "clock \<Rightarrow> cache \<Rightarrow> nat \<Rightarrow> (int \<times> cache) option" where
  "writer_freeze_and_rotate clk c i =
    (let old = sw_region (w_at c i);
         c = writer_freeze clk c i;
         next = (old + 1) mod unat (rm_region_cnt (c_rms c ! i))
     in case (if rs_state (region_at c i next) \<noteq> KV_RG_FREE then cache_force_free_region clk c i (int old)
              else Some (int next, c)) of
          None \<Rightarrow> None
        | Some (next, c) \<Rightarrow>
            if next < 0 then Some (- KV_EFULL, c) else Some (KV_EOK, writer_open_region clk c i (nat next)))"

section \<open>Completion\<close>

definition req_addr :: "clock \<Rightarrow> nat \<Rightarrow> put_req \<Rightarrow> kv_addr" where
  "req_addr clk i r = kv_addr0\<lparr>ka_dev_id := of_nat i, ka_page_no := rq_page_no r, ka_page_off := 0,
    ka_len_pages := rq_npages r, ka_last_write_ts := ck_ms clk, ka_expire_ts := rq_expire_ts r, ka_crc := rq_crc r\<rparr>"

definition req_publish :: "clock \<Rightarrow> cache \<Rightarrow> nat \<Rightarrow> nat \<Rightarrow> put_req \<Rightarrow> cache option" where
  "req_publish clk c i node r =
    leaf_publish c (Some i) node (rq_prefix_id r) (rq_group_idx r) (rq_ver r) (req_addr clk i r) (rq_slot r)
      (ucast (rq_flags r)) (rq_stripe_idx r) (rq_stripe_cnt r) (rq_stripe_total r) (rq_data_len r) (rq_shape r)
      (rq_hashes r) (case rq_hashes r of None \<Rightarrow> 0 | Some _ \<Rightarrow> rq_group_idx r + 1)"

text \<open>The node of a request: from the side table, or created by its path of hashes.\<close>

definition req_node :: "cache \<Rightarrow> put_req \<Rightarrow> (nat option \<times> cache) option" where
  "req_node c r =
    (case side_get (c_side c) (rq_prefix_id r) (rq_group_idx r) of
       None \<Rightarrow> None
     | Some (Some node) \<Rightarrow> Some (Some node, c)
     | Some None \<Rightarrow>
         (case rq_hashes r of
            None \<Rightarrow> Some (None, c)
          | Some hashes \<Rightarrow>
              (case radix_walk (c_radix c) (take (unat (rq_group_idx r + 1)) hashes) True of
                 None \<Rightarrow> None
               | Some (None, t) \<Rightarrow> Some (None, c\<lparr>c_radix := t\<rparr>)
               | Some (Some node, t) \<Rightarrow>
                   map_option (\<lambda>(rc, side). (Some node, c\<lparr>c_radix := t, c_side := side\<rparr>))
                     (side_put (c_side c) (rq_prefix_id r) (rq_group_idx r) (Some node)))))"

definition batch_publish_req :: "clock \<Rightarrow> nat \<Rightarrow> put_req \<Rightarrow> cache \<Rightarrow> cache option" where
  "batch_publish_req clk i r c =
    (case req_node c r of
       None \<Rightarrow> None
     | Some (None, c) \<Rightarrow> Some (put_ctx_set_err c (rq_ctx r) (- KV_ENOMEM))
     | Some (Some node, c) \<Rightarrow>
         if rq_gc_req r then
           (case node_leaf c node of
              None \<Rightarrow> Some (put_ctx_set_err c (rq_ctx r) KV_EOK)
            | Some l \<Rightarrow>
                if lf_ver (leaf_at c l) = rq_mig_ver r \<and> lf_refcnt (leaf_at c l) = 0 then
                  map_option (upd_stat (\<lambda>s. s\<lparr>cs_bytes_migrated := cs_bytes_migrated s +
                      ucast (rq_npages r) * of_nat KV_PAGE_SIZE\<rparr>)) (req_publish clk c i node r)
                else Some (put_ctx_set_err c (rq_ctx r) KV_EOK))
         else req_publish clk c i node r)"

definition batch_confirm :: "shard_writer \<Rightarrow> batch_buf \<Rightarrow> shard_writer" where
  "batch_confirm w bb =
    (if bb_region bb = sw_region w then
       w\<lparr>sw_confirmed_page := (if bb_last_page bb > sw_confirmed_page w then bb_last_page bb else sw_confirmed_page w),
         sw_since_wm := sw_since_wm w + ucast (bb_npages bb)\<rparr>
     else w)"

definition writer_watermark :: "cache \<Rightarrow> nat \<Rightarrow> cache" where
  "writer_watermark c i =
    (if sw_since_wm (w_at c i) \<ge> of_nat KV_WATERMARK_INTERVAL
     then w_upd (writer_flush_watermark c i) i (\<lambda>w. w\<lparr>sw_since_wm := 0\<rparr>) else c)"

definition bb_upd :: "cache \<Rightarrow> nat \<Rightarrow> nat \<Rightarrow> (batch_buf \<Rightarrow> batch_buf) \<Rightarrow> cache" where
  "bb_upd c i b f = w_upd c i (\<lambda>w. w\<lparr>sw_batch := (sw_batch w)[b := f (sw_batch w ! b)]\<rparr>)"

definition batch_reset :: "batch_buf \<Rightarrow> batch_buf" where
  "batch_reset bb = bb\<lparr>bb_reqs := [], bb_used := 0, bb_busy := False\<rparr>"

definition on_batch_io_done :: "clock \<Rightarrow> cache \<Rightarrow> nat \<Rightarrow> nat \<Rightarrow> cache option" where
  "on_batch_io_done clk c i b =
    (let bb = sw_batch (w_at c i) ! b;
         c = (if cf_metrics_level (c_cfg c) \<ge> KV_MLEVEL_FULL \<and> bb_submit_ns bb \<noteq> 0
              then w_upd c i (\<lambda>w. w\<lparr>sw_h_batch := kv_hist_sample (sw_h_batch w) (ck_ns clk - bb_submit_ns bb)\<rparr>) else c);
         err = ic_first_err (bb_ictx bb);
         c = (if err \<noteq> KV_EOK then fold (\<lambda>r c. put_ctx_set_err c (rq_ctx r) (- KV_EWRITE)) (bb_reqs bb) c else c);
         c = w_upd c i (\<lambda>w. batch_confirm w bb)
     in case (if err = KV_EOK then fold_opt (batch_publish_req clk i) (bb_reqs bb) c else Some c) of
          None \<Rightarrow> None
        | Some c \<Rightarrow>
            (let c = writer_watermark c i;
                 c = snd (with_journal c i journal_flush);
                 c = fold (\<lambda>r c. put_ctx_unref clk c (rq_ctx r)) (bb_reqs bb) c
             in Some (bb_upd c i b batch_reset)))"

section \<open>Submission\<close>

type_synonym user_mem = "nat \<Rightarrow> bytes"

text \<open>The bytes of a record: \<open>None\<close> when it lies outside its buffer.\<close>

definition ref_bytes :: "user_mem \<Rightarrow> put_ref \<Rightarrow> bytes option" where
  "ref_bytes um r =
    (let b = (case pr_base r of Caller k \<Rightarrow> um k | Own b \<Rightarrow> b)
     in if pr_len r = 0 then Some []
        else if unat (pr_off r) + unat (pr_len r) \<le> length b then Some (bslice (unat (pr_off r)) (unat (pr_len r)) b)
        else None)"

text \<open>The payload of a request; the length is that of the running offset.\<close>

definition req_payload :: "user_mem \<Rightarrow> put_req \<Rightarrow> bytes option" where
  "req_payload um r =
    (if ucast (rq_flags r) AND KV_CHUNK_F_STRIPE \<noteq> 0 then
       (if unat (rq_data_len r) \<le> length (rq_slice r) then Some (take (unat (rq_data_len r)) (rq_slice r)) else None)
     else map_option concat (those (map (ref_bytes um) (rq_recs r))))"

text \<open>One request is laid out at \<open>dst\<close> in the buffer.\<close>

record layout_st =
  lo_buf :: bytes
  lo_dst :: nat
  lo_abs_page :: u64
  lo_total :: u32
  lo_reqs :: "put_req list"

definition layout_req :: "user_mem \<Rightarrow> put_req \<Rightarrow> layout_st \<Rightarrow> layout_st option" where
  "layout_req um r s =
    (case req_payload um r of
       None \<Rightarrow> None
     | Some p \<Rightarrow>
         (let npages = payload_npages (of_nat (length p));
              img = p @ zeros (unat npages * KV_PAGE_SIZE - length p);
              striped = (ucast (rq_flags r) AND KV_CHUNK_F_STRIPE \<noteq> 0);
              r = (if striped then r else r\<lparr>rq_data_len := of_nat (length p), rq_crc := pages_crc img (unat npages)\<rparr>)
          in if lo_dst s + length img \<le> length (lo_buf s) then
               Some \<lparr>lo_buf = overwrite (lo_buf s) (lo_dst s) img, lo_dst = lo_dst s + unat npages * KV_PAGE_SIZE,
                 lo_abs_page = lo_abs_page s + ucast npages, lo_total = lo_total s + npages,
                 lo_reqs = lo_reqs s @ [r\<lparr>rq_page_no := lo_abs_page s, rq_npages := npages\<rparr>]\<rparr>
             else None))"

definition batch_layout :: "user_mem \<Rightarrow> u64 \<Rightarrow> batch_buf \<Rightarrow> layout_st option" where
  "batch_layout um start bb =
    fold_opt (layout_req um) (bb_reqs bb)
      \<lparr>lo_buf = bb_buf bb, lo_dst = 0, lo_abs_page = start, lo_total = 0, lo_reqs = []\<rparr>"

definition batch_need_pages :: "batch_buf \<Rightarrow> u64" where
  "batch_need_pages bb = fold (\<lambda>r n. n + ucast (payload_npages (ucast (rq_data_len r)))) (bb_reqs bb) 0"

definition batch_fail :: "clock \<Rightarrow> cache \<Rightarrow> nat \<Rightarrow> nat \<Rightarrow> int \<Rightarrow> cache" where
  "batch_fail clk c i b err =
    bb_upd (fold (\<lambda>r c. put_ctx_unref clk (put_ctx_set_err c (rq_ctx r) err) (rq_ctx r))
      (bb_reqs (sw_batch (w_at c i) ! b)) c) i b batch_reset"

text \<open>The write itself, with the completion callback when the last reference to the context goes.\<close>

definition batch_io :: "clock \<Rightarrow> cache \<Rightarrow> nat \<Rightarrow> nat \<Rightarrow> cache option" where
  "batch_io clk c i b =
    (let bb = sw_batch (w_at c i) ! b
     in case sync_submit IoWrite (c_devs c ! i) (unat (bb_start_page bb)) (bb_buf bb) (unat (bb_npages bb))
               (io_ref (bb_ictx bb)) of
          (_, fired, x, d) \<Rightarrow>
            (let c = bb_upd (c\<lparr>c_devs := (c_devs c)[i := d]\<rparr>) i b (\<lambda>bb. bb\<lparr>bb_ictx := x\<rparr>)
             in if fired then on_batch_io_done clk c i b else Some c))"

definition batch_stats :: "cache \<Rightarrow> nat \<Rightarrow> layout_st \<Rightarrow> cache" where
  "batch_stats c i s =
    (let bytes = ucast (lo_total s) * of_nat KV_PAGE_SIZE;
         parts = length (filter (\<lambda>r. ucast (rq_flags r) AND KV_CHUNK_F_STRIPE \<noteq> 0) (lo_reqs s))
     in w_upd (upd_stat (\<lambda>s. s\<lparr>cs_bytes_written := cs_bytes_written s + bytes, cs_batches := cs_batches s + 1\<rparr>) c) i
          (\<lambda>w. w\<lparr>sw_next_page := sw_next_page w + ucast (lo_total s), sw_stat_bytes_written := sw_stat_bytes_written w + bytes,
             sw_stat_stripe_parts := sw_stat_stripe_parts w + of_nat parts\<rparr>))"

definition writer_write_batch :: "clock \<Rightarrow> user_mem \<Rightarrow> cache \<Rightarrow> nat \<Rightarrow> (int \<times> cache) option" where
  "writer_write_batch clk um c i =
    (let b = sw_cur_buf (w_at c i);
         region = sw_region (w_at c i);
         start = region_abs_page (c_rms c ! i) region (sw_next_page (w_at c i))
     in case batch_layout um start (sw_batch (w_at c i) ! b) of
          None \<Rightarrow> None
        | Some s \<Rightarrow>
            (let c = batch_stats c i s;
                 full = (cf_metrics_level (c_cfg c) \<ge> KV_MLEVEL_FULL);
                 c = bb_upd c i b (\<lambda>bb. bb\<lparr>bb_region := region, bb_start_page := start, bb_buf := lo_buf s,
                       bb_reqs := lo_reqs s, bb_npages := lo_total s, bb_last_page := start + ucast (lo_total s),
                       bb_submit_ns := (if full then ck_ns clk else bb_submit_ns bb), bb_busy := True\<rparr>)
             in case batch_io clk c i b of
                  None \<Rightarrow> None
                | Some c \<Rightarrow>
                    (let nb = 1 - b;
                         c = w_upd c i (\<lambda>w. w\<lparr>sw_cur_buf := nb\<rparr>)
                     in if bb_busy (sw_batch (w_at c i) ! nb) then None
                        else Some (KV_EOK, bb_upd c i nb (\<lambda>bb. bb\<lparr>bb_used := 0, bb_reqs := []\<rparr>)))))"

definition writer_submit_batch :: "clock \<Rightarrow> user_mem \<Rightarrow> cache \<Rightarrow> nat \<Rightarrow> (int \<times> cache) option" where
  "writer_submit_batch clk um c i =
    (let b = sw_cur_buf (w_at c i);
         bb = sw_batch (w_at c i) ! b
     in if bb_reqs bb = [] then Some (KV_EOK, c)
        else if bb_busy bb then None
        else case (if sw_next_page (w_at c i) + batch_need_pages bb > rm_region_size_pages (c_rms c ! i)
                   then writer_freeze_and_rotate clk c i else Some (KV_EOK, c)) of
               None \<Rightarrow> None
             | Some (rc, c) \<Rightarrow>
                 if rc \<noteq> KV_EOK then Some (rc, batch_fail clk c i b (- KV_EFULL)) else writer_write_batch clk um c i)"

section \<open>The thread\<close>

definition KV_BATCH_MAX_REQS :: nat where "KV_BATCH_MAX_REQS = 512"

definition writer_pop :: "cache \<Rightarrow> nat \<Rightarrow> put_req option \<times> cache" where
  "writer_pop c i = (case mpsc_pop (sw_q (w_at c i)) of (r, q) \<Rightarrow> (r, w_upd c i (\<lambda>w. w\<lparr>sw_q := q\<rparr>)))"

definition bb_push :: "u32 \<Rightarrow> put_req \<Rightarrow> batch_buf \<Rightarrow> batch_buf" where
  "bb_push bytes r bb = bb\<lparr>bb_reqs := bb_reqs bb @ [r], bb_used := bb_used bb + bytes\<rparr>"

text \<open>Filling the current batch; every round but the last adds a request, so \<open>KV_BATCH_MAX_REQS\<close> rounds
  and one more are enough.\<close>

primrec writer_collect :: "nat \<Rightarrow> cache \<Rightarrow> nat \<Rightarrow> put_req option \<Rightarrow> cache option" where
  "writer_collect 0 c i first = None"
| "writer_collect (Suc fuel) c i first =
    (let b = sw_cur_buf (w_at c i);
         bb = sw_batch (w_at c i) ! b
     in if length (bb_reqs bb) \<ge> KV_BATCH_MAX_REQS then Some c
        else if bb_used bb \<ge> cf_batch_min_bytes (c_cfg c) then Some c
        else case (case first of Some r \<Rightarrow> (Some r, c) | None \<Rightarrow> writer_pop c i) of
               (None, c) \<Rightarrow> Some c
             | (Some r, c) \<Rightarrow>
                 (let bytes = payload_npages (ucast (rq_data_len r)) * of_nat KV_PAGE_SIZE
                  in if bb_reqs bb \<noteq> [] \<and> bb_used bb + bytes > batch_buf_size c then
                       map_option (\<lambda>(rc, q). w_upd c i (\<lambda>w. w\<lparr>sw_q := q\<rparr>)) (mpsc_push (sw_q (w_at c i)) r)
                     else writer_collect fuel (bb_upd c i b (bb_push bytes r)) i None))"

text \<open>The last batch, after the stop flag.\<close>

primrec writer_drain_q :: "nat \<Rightarrow> cache \<Rightarrow> nat \<Rightarrow> cache option" where
  "writer_drain_q 0 c i = None"
| "writer_drain_q (Suc fuel) c i =
    (case writer_pop c i of
       (None, c) \<Rightarrow> Some c
     | (Some r, c) \<Rightarrow>
         if length (bb_reqs (sw_batch (w_at c i) ! sw_cur_buf (w_at c i))) \<ge> KV_BATCH_MAX_REQS then None
         else writer_drain_q fuel (bb_upd c i (sw_cur_buf (w_at c i)) (bb_push (of_nat KV_PAGE_SIZE) r)) i)"

definition writer_drain :: "clock \<Rightarrow> user_mem \<Rightarrow> cache \<Rightarrow> nat \<Rightarrow> cache option" where
  "writer_drain clk um c i =
    Option.bind (writer_drain_q (Suc (KV_BATCH_MAX_REQS)) c i) (\<lambda>c. map_option snd (writer_submit_batch clk um c i))"

text \<open>One round of the thread's loop; the flag says that the thread has ended.\<close>

definition writer_round :: "clock \<Rightarrow> user_mem \<Rightarrow> cache \<Rightarrow> nat \<Rightarrow> (bool \<times> cache) option" where
  "writer_round clk um c i =
    (case writer_pop c i of
       (None, c) \<Rightarrow>
         if sw_stop (w_at c i) then map_option (Pair True) (writer_drain clk um c i) else Some (False, c)
     | (Some r, c) \<Rightarrow>
         Option.bind (writer_collect (KV_BATCH_MAX_REQS + 2) c i (Some r))
           (\<lambda>c. map_option (\<lambda>(rc, c). (False, c)) (writer_submit_batch clk um c i)))"

text \<open>A run of the thread, one clock and memory per round: \<open>None\<close> when it has not ended by then.\<close>

fun writer_thread :: "(clock \<times> user_mem) list \<Rightarrow> cache \<Rightarrow> nat \<Rightarrow> cache option" where
  "writer_thread [] c i = None"
| "writer_thread ((clk, um) # rounds) c i =
    (case writer_round clk um c i of
       None \<Rightarrow> None
     | Some (fin, c) \<Rightarrow> if fin then Some c else writer_thread rounds c i)"

section \<open>Starting and stopping\<close>

definition batch_start :: "u32 \<Rightarrow> batch_buf \<Rightarrow> batch_buf" where
  "batch_start bbuf bb = bb\<lparr>bb_buf := zeros (unat bbuf), bb_reqs := [], bb_used := 0, bb_busy := False, bb_ictx := io_ctx0\<rparr>"

text \<open>The outcomes are those of \<open>calloc\<close> for the queue, of the two buffers and of the thread.\<close>

definition shard_writer_start :: "bool \<Rightarrow> bool \<Rightarrow> bool \<Rightarrow> bool \<Rightarrow> cache \<Rightarrow> nat \<Rightarrow> int \<times> cache" where
  "shard_writer_start q_ok b0_ok b1_ok t_ok c i =
    (let c = w_upd c i (\<lambda>w. w\<lparr>sw_q := snd (mpsc_init q_ok (sw_q w) 12)\<rparr>);
         size = batch_buf_size c
     in if \<not> b0_ok then (- KV_ENOMEM, bb_upd c i 0 (\<lambda>bb. bb\<lparr>bb_buf := []\<rparr>))
        else
          (let c = bb_upd c i 0 (batch_start size)
           in if \<not> b1_ok then (- KV_ENOMEM, bb_upd c i 1 (\<lambda>bb. bb\<lparr>bb_buf := []\<rparr>))
              else
                (let c = bb_upd c i 1 (batch_start size);
                     c = w_upd c i (\<lambda>w. w\<lparr>sw_cur_buf := 0, sw_since_wm := 0,
                           sw_confirmed_page := region_abs_page (c_rms c ! i) (sw_region w) 1,
                           sw_h_batch := kv_hist_init (sw_h_batch w)\<rparr>)
                 in if t_ok then (KV_EOK, w_upd c i (\<lambda>w. w\<lparr>sw_started := True\<rparr>)) else (- KV_EIO, c))))"

text \<open>\<open>rounds\<close> are those of the thread until it has seen the flag and ended.\<close>

definition shard_writer_stop :: "clock \<Rightarrow> (clock \<times> user_mem) list \<Rightarrow> cache \<Rightarrow> nat \<Rightarrow> cache option" where
  "shard_writer_stop clk rounds c i =
    (let release = (\<lambda>c. w_upd c i (\<lambda>w. w\<lparr>sw_q := mpsc_destroy (sw_q w)\<rparr>))
     in if \<not> sw_started (w_at c i) then Some (release c)
        else
          map_option (\<lambda>c.
              let fail = (\<lambda>b c. fold (\<lambda>r c. put_ctx_unref clk (put_ctx_set_err c (rq_ctx r) (- KV_EIO)) (rq_ctx r))
                    (bb_reqs (sw_batch (w_at c i) ! b)) c)
              in w_upd (release (fail 1 (fail 0 c))) i (\<lambda>w. w\<lparr>sw_started := False\<rparr>))
            (writer_thread rounds (w_upd c i (\<lambda>w. w\<lparr>sw_stop := True\<rparr>)) i))"

text \<open>A full queue makes the caller yield and try again: \<open>None\<close>.\<close>

definition shard_writer_enqueue :: "cache \<Rightarrow> nat \<Rightarrow> put_req \<Rightarrow> (int \<times> cache) option" where
  "shard_writer_enqueue c i r =
    (case mpsc_push (sw_q (w_at c i)) r of
       None \<Rightarrow> None
     | Some (rc, q) \<Rightarrow>
         if rc = - KV_EFULL then None
         else
           (let backlog = mq_tail q - mq_head q;
                c = w_upd c i (\<lambda>w. w\<lparr>sw_q := q, sw_stat_q_max := (if backlog > sw_stat_q_max w then backlog else sw_stat_q_max w)\<rparr>)
            in Some (rc, c)))"

end
