(* ===== verification/KV_Api.thy ===== *)
theory KV_Api
  imports KV_Writer
begin

text \<open>
  The public operations (\<open>src/cache.cpp\<close>, lines 1175 to 1751): put, get, evict and statistics.  A
  put hands its requests to the writers and returns; a get pins the leaf, reads through the DRAM
  cache and the devices, and unpins it.  A put waits while a queue is full; here it then has no
  result.  \<open>None\<close> also stands for an access outside a buffer.  The checksum of a striped payload is
  taken over whole pages, past the end of the buffer when its length is not a multiple of the page
  size: the bytes that follow the buffer are the argument \<open>slack\<close>.
\<close>

section \<open>Paths\<close>

definition KV_MAX_GROUPS :: u32 where "KV_MAX_GROUPS = 256"

definition group_token_count :: "u32 \<Rightarrow> u32 \<Rightarrow> u32" where
  "group_token_count n_tokens_total k =
    (let start = k * of_nat KV_TOKENS_PER_GROUP
     in if n_tokens_total \<le> start then 0
        else let cnt = n_tokens_total - start in if cnt > of_nat KV_TOKENS_PER_GROUP then of_nat KV_TOKENS_PER_GROUP else cnt)"

definition group_hashes :: "u64 \<Rightarrow> u32 list \<Rightarrow> u32 \<Rightarrow> nat \<Rightarrow> u64 list" where
  "group_hashes prefix_id tokens n_tokens_total n =
    map (\<lambda>k. hash_path prefix_id
        (take (unat (group_token_count n_tokens_total (of_nat k))) (drop (k * KV_TOKENS_PER_GROUP) tokens)) (of_nat k)) [0..<n]"

definition group_count :: "u32 \<Rightarrow> u32" where
  "group_count n_tokens_total = (n_tokens_total + of_nat KV_TOKENS_PER_GROUP - 1) div of_nat KV_TOKENS_PER_GROUP"

section \<open>Put\<close>

definition put_req_base :: "u64 \<Rightarrow> u32 \<Rightarrow> u32 \<Rightarrow> u32 \<Rightarrow> u32 \<Rightarrow> nat \<Rightarrow> nat \<Rightarrow> put_req" where
  "put_req_base prefix_id group_idx n_tokens_total expire_ts ver shape ctx =
    put_req0\<lparr>rq_prefix_id := prefix_id, rq_group_idx := group_idx,
      rq_n_tokens := group_token_count n_tokens_total group_idx, rq_n_tokens_total := n_tokens_total,
      rq_expire_ts := expire_ts, rq_ver := ver, rq_shape := Some shape, rq_ctx := ctx\<rparr>"

text \<open>The copy of the hashes may fail; the request then has none.\<close>

definition put_enqueue :: "u64 list \<Rightarrow> nat \<Rightarrow> put_req \<Rightarrow> cache \<Rightarrow> cache option" where
  "put_enqueue hashes dev r c =
    (case c_alloc c of (ok, c) \<Rightarrow>
       map_option snd (shard_writer_enqueue c dev (r\<lparr>rq_hashes := (if ok then Some hashes else None)\<rparr>)))"

definition stripe_req :: "kv_layout \<Rightarrow> bytes \<Rightarrow> u32 \<Rightarrow> u32 \<Rightarrow> put_req \<Rightarrow> nat \<Rightarrow> put_req" where
  "stripe_req ly stream stream_crc n_parts r part =
    (let stream_len = of_nat (length stream) :: u32;
         off = of_nat part * ly_stripe_unit ly;
         len = ucast (min_of (ly_stripe_unit ly) (ucast stream_len - off)) :: u32
     in r\<lparr>rq_flags := ucast KV_CHUNK_F_STRIPE, rq_stripe_idx := of_nat part, rq_stripe_cnt := n_parts,
          rq_stripe_total := stream_len, rq_slice := bslice (unat off) (unat len) stream, rq_data_len := len,
          rq_crc := stream_crc\<rparr>)"

definition put_striped :: "clock \<Rightarrow> user_mem \<Rightarrow> bytes \<Rightarrow> cache \<Rightarrow> put_ref list \<Rightarrow> u64 list \<Rightarrow> nat \<Rightarrow> put_req \<Rightarrow>
    (int \<times> cache) option" where
  "put_striped clk um slack c recs hashes base_dev r =
    (case c_alloc c of (ok, c) \<Rightarrow>
       if \<not> ok then Some (- KV_ENOMEM, put_ctx_unref clk c (rq_ctx r))
       else case map_option concat (those (map (ref_bytes um) recs)) of
              None \<Rightarrow> None
            | Some stream \<Rightarrow>
                if length stream \<ge> 2 ^ 32 then None
                else
                  (let c = ctx_set c (rq_ctx r) (Some ((ctx_at c (rq_ctx r))\<lparr>pc_staging := Some stream\<rparr>));
                       npages = unat (payload_npages (of_nat (length stream)));
                       stream_crc = pages_crc (stream @ slack) npages
                   in case stripe_split (of_nat (length stream)) (ucast (ly_stripe_unit (c_layout c))) of
                        (rc, n) \<Rightarrow>
                          if rc \<noteq> KV_EOK \<or> the n > of_nat KV_MAX_STRIPE_PARTS
                          then Some (- KV_EINVAL, put_ctx_unref clk c (rq_ctx r))
                          else
                            (let c = ctx_set c (rq_ctx r) (Some ((ctx_at c (rq_ctx r))\<lparr>pc_refs := int (unat (the n))\<rparr>))
                             in map_option (Pair KV_EOK)
                                  (fold_opt (\<lambda>part c. put_enqueue hashes ((base_dev + part) mod c_n_devs c)
                                      (stripe_req (c_layout c) stream stream_crc (the n) r part) c)
                                    [0..<unat (the n)] c))))"

definition put_replicated :: "cache \<Rightarrow> u64 list \<Rightarrow> nat \<Rightarrow> put_req \<Rightarrow> cache option" where
  "put_replicated c hashes base_dev r =
    (let c = upd_stat (\<lambda>s. s\<lparr>cs_puts_replica := cs_puts_replica s + 1\<rparr>) c;
         c = ctx_set c (rq_ctx r) (Some ((ctx_at c (rq_ctx r))\<lparr>pc_refs := 2\<rparr>));
         r = r\<lparr>rq_flags := ucast (KV_CHUNK_F_REPLICA OR KV_CHUNK_F_HOT)\<rparr>
     in Option.bind (put_enqueue hashes base_dev (r\<lparr>rq_slot := 0\<rparr>) c)
          (put_enqueue hashes ((base_dev + 1) mod c_n_devs c) (r\<lparr>rq_slot := 1\<rparr>)))"

definition put_plain :: "cache \<Rightarrow> u64 list \<Rightarrow> nat \<Rightarrow> put_req \<Rightarrow> cache option" where
  "put_plain c hashes base_dev r =
    put_enqueue hashes base_dev r (ctx_set c (rq_ctx r) (Some ((ctx_at c (rq_ctx r))\<lparr>pc_refs := 1\<rparr>)))"

definition recs_total :: "put_ref list \<Rightarrow> u64" where
  "recs_total recs = fold (\<lambda>r t. t + ucast (pr_len r)) recs 0"

text \<open>\<open>ack\<close> names the caller's completion callback.\<close>

definition cache_put_impl :: "clock \<Rightarrow> user_mem \<Rightarrow> bytes \<Rightarrow> cache \<Rightarrow> u64 \<Rightarrow> u32 \<Rightarrow> u32 list \<Rightarrow> u32 \<Rightarrow> u32 \<Rightarrow> u16 \<Rightarrow>
    put_ref list \<Rightarrow> nat option \<Rightarrow> (int \<times> cache) option" where
  "cache_put_impl clk um slack c prefix_id group_idx tokens n_tokens_total expire_ts n_layers recs ack =
    (if c_stop c \<or> group_idx \<ge> KV_MAX_GROUPS then Some (- KV_EINVAL, c)
     else if ucast n_layers > cf_max_layers (c_cfg c) then Some (- KV_EINVAL, c)
     else
       (let recs = take (unat n_layers) recs;
            hashes = group_hashes prefix_id tokens n_tokens_total (unat group_idx + 1);
            total_len = recs_total recs;
            ver = ucast (c_ver_counter c) + 1;
            c = c\<lparr>c_ver_counter := c_ver_counter c + 1\<rparr>
        in case hot_check_path (c_radix c) (take (unat group_idx) hashes) (cf_hot_hit_threshold (c_cfg c)) of
             None \<Rightarrow> None
           | Some hot \<Rightarrow>
               (let base_dev = unat (hash_mix64 prefix_id mod of_nat (c_n_devs c));
                    c = upd_stat (\<lambda>s. s\<lparr>cs_put_reqs := cs_put_reqs s + 1, cs_payload_bytes := cs_payload_bytes s + total_len\<rparr>) c;
                    pc = length (c_ctxs c);
                    t0 = (if cf_metrics_level (c_cfg c) \<ge> KV_MLEVEL_FULL then ck_ns clk else 0);
                    c = c\<lparr>c_ctxs := c_ctxs c @ [Some ((put_ctx_init ack)\<lparr>pc_t0_ns := t0\<rparr>)]\<rparr>
                in case c_alloc c of (ok, c) \<Rightarrow>
                   case shape_pool_intern ok (c_shapes c) (map pr_len recs) n_layers of
                     (None, _) \<Rightarrow> Some (- KV_ENOMEM, put_ctx_unref clk c pc)
                   | (Some shape, shapes) \<Rightarrow>
                       (let c = c\<lparr>c_shapes := shapes\<rparr>;
                            r = put_req_base prefix_id group_idx n_tokens_total expire_ts ver shape pc
                        in if total_len > ucast (ucast (cf_stripe_threshold (c_cfg c)) :: u32)
                           then put_striped clk um slack c recs hashes base_dev r
                           else
                             (let r = r\<lparr>rq_recs := recs, rq_data_len := ucast total_len\<rparr>
                              in map_option (Pair KV_EOK)
                                   (if hot then put_replicated c hashes base_dev r else put_plain c hashes base_dev r))))))"

section \<open>Get\<close>

record cache_get_result =
  gr_buf :: "bytes option"
  gr_buf_len :: u32
  gr_recs :: "dram_rec list"
  gr_ver :: u32
  gr_prefix_id :: u64
  gr_group_idx :: u32

definition get_result0 :: cache_get_result where
  "get_result0 = \<lparr>gr_buf = None, gr_buf_len = 0, gr_recs = [], gr_ver = 0, gr_prefix_id = 0, gr_group_idx = 0\<rparr>"

text \<open>What a get depends on besides the cache: the clock, the time at its end, the contents of freshly
  allocated memory and of the bytes after a buffer, and the result of \<open>malloc\<close> in the DRAM cache.\<close>

record get_env =
  ge_clk :: clock
  ge_end_ns :: u64
  ge_junk :: bytes
  ge_slack :: bytes
  ge_malloc :: "u64 option"

definition fresh_mem :: "get_env \<Rightarrow> nat \<Rightarrow> bytes" where
  "fresh_mem env n = take n (ge_junk env @ zeros n)"

definition cache_sync_read :: "cache \<Rightarrow> nat \<Rightarrow> nat \<Rightarrow> bytes \<Rightarrow> nat \<Rightarrow> (int \<times> bytes) \<times> cache" where
  "cache_sync_read c dev page_no buf npages =
    (case sync_submit IoRead (c_devs c ! dev) page_no buf npages (io_ref io_ctx0) of
       (buf, _, x, d) \<Rightarrow>
         ((if ic_first_err x \<noteq> 0 then - KV_EREAD else KV_EOK, buf), c\<lparr>c_devs := (c_devs c)[dev := d]\<rparr>))"

definition cache_read_chunk :: "get_env \<Rightarrow> cache \<Rightarrow> u32 \<Rightarrow> u64 \<Rightarrow> u32 \<Rightarrow> u32 \<Rightarrow> ((int \<times> bytes) \<times> cache) option" where
  "cache_read_chunk env c dev_id page_no len_pages crc =
    (if unat dev_id \<ge> length (c_devs c) then None
     else case c_alloc c of (ok, c) \<Rightarrow>
       if \<not> ok then Some ((- KV_ENOMEM, []), c)
       else case cache_sync_read c (unat dev_id) (unat page_no) (fresh_mem env (unat len_pages * KV_PAGE_SIZE)) (unat len_pages) of
              ((rc, buf), c) \<Rightarrow>
                if rc \<noteq> KV_EOK then Some ((rc, []), c)
                else if pages_validate (Some buf) (unat len_pages) crc \<noteq> KV_EOK then Some ((- KV_ECRC, []), c)
                else Some ((KV_EOK, buf), c))"

definition shape_total :: "kv_shape option \<Rightarrow> u32" where
  "shape_total sh = (case sh of None \<Rightarrow> 0 | Some s \<Rightarrow> sum_list (take (unat (sh_n_recs s)) (sh_lens s)))"

definition shape_recs :: "u32 list \<Rightarrow> dram_rec list" where
  "shape_recs lens =
    map (\<lambda>i. \<lparr>dx_layer_id = of_nat i, dx_off = sum_list (take i lens), dx_len = lens ! i\<rparr>) [0..<length lens]"

definition shape_fill :: "kv_shape option \<Rightarrow> cache_get_result \<Rightarrow> int \<times> cache_get_result" where
  "shape_fill sh out =
    (case sh of
       None \<Rightarrow> (- KV_ECRC, out)
     | Some s \<Rightarrow>
         (let n = min (unat (sh_n_recs s)) KV_MAX_LAYERS_CAP in (KV_EOK, out\<lparr>gr_recs := shape_recs (take n (sh_lens s))\<rparr>)))"

text \<open>The parts of a stripe are read into a bounce buffer and copied to their place.\<close>

fun read_parts :: "cache \<Rightarrow> nat \<Rightarrow> kv_stripe_part list \<Rightarrow> bytes \<Rightarrow> bytes \<Rightarrow> ((int \<times> bytes) \<times> cache) option" where
  "read_parts c p [] tmp stream = Some ((KV_EOK, stream), c)"
| "read_parts c p (part # parts) tmp stream =
    (if unat (sp_dev_id part) \<ge> c_n_devs c \<or> sp_page_no part = 0 then Some ((- KV_EREAD, stream), c)
     else case cache_sync_read c (unat (sp_dev_id part)) (unat (sp_page_no part)) tmp (unat (sp_len_pages part)) of
            ((rc, tmp), c) \<Rightarrow>
              if rc \<noteq> KV_EOK then Some ((- KV_EREAD, stream), c)
              else
                (let total_len = of_nat (length stream) :: u32;
                     unit = ly_stripe_unit (c_layout c);
                     doff = ucast (of_nat p * unit) :: u32;
                     part_len = ucast (min_of unit (ucast total_len - ucast doff)) :: u32;
                     n = unat (min part_len (total_len - doff))
                 in if unat doff + n \<le> length stream \<and> n \<le> length tmp
                    then read_parts c (Suc p) parts tmp (overwrite stream (unat doff) (take n tmp)) else None))"

definition get_stripe :: "get_env \<Rightarrow> cache \<Rightarrow> kv_stripe_addr \<Rightarrow> u32 \<Rightarrow> ((int \<times> bytes) \<times> cache) option" where
  "get_stripe env c st crc =
    (case c_alloc c of (ok1, c) \<Rightarrow>
       if \<not> ok1 then Some ((- KV_ENOMEM, []), c)
       else case c_alloc c of (ok2, c) \<Rightarrow>
         if \<not> ok2 then Some ((- KV_ENOMEM, []), c)
         else
           (let parts = take (unat (sa_n_parts st)) (sa_parts st);
                max_pages = fold (\<lambda>p m. max m (unat (sp_len_pages p))) parts 0
            in case read_parts c 0 parts (fresh_mem env (max_pages * KV_PAGE_SIZE)) (fresh_mem env (unat (sa_total_len st))) of
                 None \<Rightarrow> None
               | Some ((rc, stream), c) \<Rightarrow>
                   if rc \<noteq> KV_EOK then Some ((rc, []), c)
                   else if pages_validate (Some (stream @ ge_slack env)) (unat (payload_npages (ucast (sa_total_len st)))) crc \<noteq> KV_EOK
                   then Some ((- KV_ECRC, []), c)
                   else Some ((KV_EOK, stream), c)))"

definition get_replicas :: "get_env \<Rightarrow> cache \<Rightarrow> kv_addr \<Rightarrow> kv_addr \<Rightarrow> ((int \<times> bytes) \<times> cache) option" where
  "get_replicas env c a0 a1 =
    (case cache_read_chunk env c (ka_dev_id a0) (ka_page_no a0) (ka_len_pages a0) (ka_crc a0) of
       None \<Rightarrow> None
     | Some ((rc, buf), c) \<Rightarrow>
         if rc \<noteq> KV_EOK \<and> ka_dev_id a1 \<noteq> KV_INVALID_DEV
         then cache_read_chunk env c (ka_dev_id a1) (ka_page_no a1) (ka_len_pages a1) (ka_crc a1)
         else Some ((rc, buf), c))"

text \<open>The lookup under the lock: the error, or the leaf, pinned.\<close>

definition get_lookup :: "clock \<Rightarrow> cache \<Rightarrow> u64 \<Rightarrow> u64 list \<Rightarrow> ((int + nat) \<times> cache) option" where
  "get_lookup clk c prefix_id hashes =
    (let miss = upd_stat (\<lambda>s. s\<lparr>cs_get_misses := cs_get_misses s + 1\<rparr>)
     in case radix_walk (c_radix c) hashes False of
          None \<Rightarrow> None
        | Some (node, t) \<Rightarrow>
            (let c = c\<lparr>c_radix := t\<rparr>
             in case (case node of None \<Rightarrow> None | Some n \<Rightarrow> node_leaf c n) of
                  None \<Rightarrow> Some (Inl (if tomb_lookup c prefix_id then - KV_EVICTED else - KV_ENOENT), miss c)
                | Some l \<Rightarrow>
                    (let lf = leaf_at c l;
                         expire = ka_expire_ts (lf_addr0 lf)
                     in if lf_ver lf = 0 \<or> expire \<noteq> 0 \<and> ucast expire < ck_s clk then Some (Inl (- KV_ENOENT), miss c)
                        else
                          map_option (\<lambda>ns. (Inr l, leaf_ref (c\<lparr>c_radix := t\<lparr>rt_nodes := ns\<rparr>\<rparr>) l 1))
                            (radix_hit_ascend (length (rt_nodes t)) (rt_nodes t) node 1))))"

definition get_dram :: "get_env \<Rightarrow> cache \<Rightarrow> u64 \<Rightarrow> u32 \<Rightarrow> u32 \<Rightarrow> ((bytes \<times> dram_rec list) option \<times> cache) option" where
  "get_dram env c prefix_id group_idx ver =
    (case c_dram c of
       None \<Rightarrow> Some (None, c)
     | Some d \<Rightarrow>
         (case c_alloc c of (ok, c) \<Rightarrow>
            map_option (\<lambda>((rc, res), d). (if rc = KV_EOK then res else None, c\<lparr>c_dram := Some d\<rparr>))
              (dram_get ok (ck_s (ge_clk env)) d prefix_id group_idx ver KV_MAX_LAYERS_CAP)))"

definition get_fill_dram :: "get_env \<Rightarrow> cache \<Rightarrow> u64 \<Rightarrow> u32 \<Rightarrow> u32 \<Rightarrow> u32 \<Rightarrow> cache_get_result \<Rightarrow> cache option" where
  "get_fill_dram env c prefix_id group_idx ver expire out =
    (case c_dram c of
       None \<Rightarrow> Some c
     | Some d \<Rightarrow>
         if unat (gr_buf_len out) \<le> length (the (gr_buf out)) then
           map_option (\<lambda>(rc, d). c\<lparr>c_dram := Some d\<rparr>)
             (dram_put (ge_malloc env) d prefix_id group_idx ver expire
               (take (unat (gr_buf_len out)) (the (gr_buf out))) (gr_recs out))
         else None)"

text \<open>Reading the pinned leaf \<open>l\<close> from the devices.\<close>

definition get_device :: "get_env \<Rightarrow> cache \<Rightarrow> radix_leaf \<Rightarrow> ((int \<times> cache_get_result) \<times> cache) option" where
  "get_device env c lf =
    (let shape = map_option (\<lambda>s. c_shapes c ! s) (lf_shape lf)
     in case (case lf_stripe lf of
                Some st \<Rightarrow> get_stripe env c st (ka_crc (lf_addr0 lf))
              | None \<Rightarrow> get_replicas env c (lf_addr0 lf) (lf_addr1 lf)) of
          None \<Rightarrow> None
        | Some ((rc, buf), c) \<Rightarrow>
            if rc \<noteq> KV_EOK then Some ((rc, get_result0), c)
            else
              (let len = (case lf_stripe lf of Some st \<Rightarrow> sa_total_len st | None \<Rightarrow> shape_total shape);
                   out = get_result0\<lparr>gr_buf := Some buf, gr_buf_len := len\<rparr>
               in case shape_fill shape out of (rc, out) \<Rightarrow>
                    if rc \<noteq> KV_EOK then Some ((- KV_ECRC, out\<lparr>gr_buf := None\<rparr>), c) else Some ((KV_EOK, out), c)))"

definition get_hit :: "cache \<Rightarrow> cache" where
  "get_hit = upd_stat (\<lambda>s. s\<lparr>cs_get_hits := cs_get_hits s + 1\<rparr>)"

definition cache_get_impl :: "get_env \<Rightarrow> cache \<Rightarrow> u64 \<Rightarrow> u32 list \<Rightarrow> u32 \<Rightarrow> ((int \<times> cache_get_result) \<times> cache) option" where
  "cache_get_impl env c prefix_id tokens n_tokens_total =
    (let n_groups = group_count n_tokens_total
     in if n_groups = 0 \<or> n_groups > KV_MAX_GROUPS then Some ((- KV_EINVAL, get_result0), c)
        else case get_lookup (ge_clk env) c prefix_id (group_hashes prefix_id tokens n_tokens_total (unat n_groups)) of
               None \<Rightarrow> None
             | Some (Inl rc, c) \<Rightarrow> Some ((rc, get_result0), c)
             | Some (Inr l, c) \<Rightarrow>
                 (let lf = leaf_at c l;
                      ver = lf_ver lf;
                      expire = ka_expire_ts (lf_addr0 lf);
                      id = (\<lambda>out. out\<lparr>gr_ver := ver, gr_prefix_id := prefix_id, gr_group_idx := n_groups - 1\<rparr>)
                  in case get_dram env c prefix_id (n_groups - 1) ver of
                       None \<Rightarrow> None
                     | Some (Some (buf, recs), c) \<Rightarrow>
                         Some ((KV_EOK, id (get_result0\<lparr>gr_buf := Some buf, gr_buf_len := of_nat (length buf), gr_recs := recs\<rparr>)),
                           get_hit (leaf_ref c l (-1)))
                     | Some (None, c) \<Rightarrow>
                         (case get_device env c lf of
                            None \<Rightarrow> None
                          | Some ((rc, out), c) \<Rightarrow>
                              if rc \<noteq> KV_EOK then Some ((rc, out), leaf_ref c l (-1))
                              else
                                map_option (\<lambda>c. ((KV_EOK, id out), leaf_ref c l (-1)))
                                  (get_fill_dram env (get_hit c) prefix_id (n_groups - 1) ver expire (id out)))))"

definition cache_get :: "get_env \<Rightarrow> cache \<Rightarrow> u64 \<Rightarrow> u32 list \<Rightarrow> u32 \<Rightarrow> ((int \<times> cache_get_result) \<times> cache) option" where
  "cache_get env c prefix_id tokens n_tokens_total =
    (let t0 = (if cf_metrics_level (c_cfg c) \<ge> KV_MLEVEL_FULL then ck_ns (ge_clk env) else 0)
     in map_option (\<lambda>(res, c).
          (res, if t0 \<noteq> 0 then c\<lparr>c_m := (c_m c)\<lparr>km_get := kv_hist_sample (km_get (c_m c)) (ge_end_ns env - t0)\<rparr>\<rparr> else c))
        (cache_get_impl env c prefix_id tokens n_tokens_total))"

definition cache_result_free :: "cache_get_result \<Rightarrow> cache_get_result" where
  "cache_result_free res = get_result0"

section \<open>Evict\<close>

definition cache_evict_impl :: "clock \<Rightarrow> cache \<Rightarrow> u64 \<Rightarrow> u32 list \<Rightarrow> u32 \<Rightarrow> (int \<times> cache) option" where
  "cache_evict_impl clk c prefix_id tokens n_tokens_total =
    (let n_groups = group_count n_tokens_total
     in if n_groups = 0 \<or> n_groups > KV_MAX_GROUPS then Some (- KV_EINVAL, c)
        else case radix_walk (c_radix c) (group_hashes prefix_id tokens n_tokens_total (unat n_groups)) False of
               None \<Rightarrow> None
             | Some (None, t) \<Rightarrow> Some (- KV_ENOENT, c\<lparr>c_radix := t\<rparr>)
             | Some (Some node, t) \<Rightarrow>
                 (let c = c\<lparr>c_radix := t\<rparr>
                  in case node_leaf c node of
                       None \<Rightarrow> Some (- KV_ENOENT, c)
                     | Some l \<Rightarrow>
                         if lf_refcnt (leaf_at c l) > 0 then Some (- KV_EBUSY, c)
                         else map_option (\<lambda>c. (KV_EOK, tomb_insert c clk prefix_id)) (leaf_drop c node)))"

section \<open>Migration\<close>

text \<open>Copying the unpinned leaves of a region to the writer, at most 1024.  The records of a migrated leaf lie one
  after another in the buffer just read.\<close>

definition migrate_req :: "side_slot \<Rightarrow> radix_leaf \<Rightarrow> u32 \<Rightarrow> kv_addr \<Rightarrow> kv_shape \<Rightarrow> bytes \<Rightarrow> nat \<Rightarrow> put_req" where
  "migrate_req s lf slot a sh buf pc =
    (let lens = take (unat (sh_n_recs sh)) (sh_lens sh)
     in put_req0\<lparr>rq_prefix_id := ss_prefix_id s, rq_group_idx := ss_group_idx s, rq_expire_ts := ka_expire_ts a,
          rq_ver := lf_ver lf, rq_slot := slot, rq_flags := 0, rq_data_len := shape_total (Some sh), rq_shape := lf_shape lf,
          rq_recs := map (\<lambda>r. \<lparr>pr_base = Own buf, pr_off = dx_off r, pr_len = dx_len r\<rparr>) (shape_recs lens),
          rq_ctx := pc, rq_gc_req := True, rq_mig_ver := lf_ver lf\<rparr>)"

definition migrate_slot :: "get_env \<Rightarrow> nat \<Rightarrow> nat \<Rightarrow> nat \<Rightarrow> side_slot \<Rightarrow> nat \<times> cache \<Rightarrow> (nat \<times> cache) option" where
  "migrate_slot env dev base stop s = (\<lambda>(migrated, c).
    case (if ss_used s = 0 \<or> migrated \<ge> 1024 then None else Option.bind (ss_node s) (node_leaf c)) of
      None \<Rightarrow> Some (migrated, c)
    | Some l \<Rightarrow>
        (let lf = leaf_at c l;
             in0 = addr_in dev base stop (ka_dev_id (lf_addr0 lf)) (ka_page_no (lf_addr0 lf));
             in1 = addr_in dev base stop (ka_dev_id (lf_addr1 lf)) (ka_page_no (lf_addr1 lf));
             a = (if in0 then lf_addr0 lf else lf_addr1 lf)
         in if lf_stripe lf \<noteq> None \<or> lf_refcnt lf \<noteq> 0 \<or> lf_shape lf = None \<or> \<not> (in0 \<or> in1) \<or> ka_len_pages a = 0
            then Some (migrated, c)
            else case c_alloc c of (ok, c) \<Rightarrow>
              if \<not> ok then Some (migrated, c)
              else case cache_sync_read c dev (unat (ka_page_no a)) (fresh_mem env (unat (ka_len_pages a) * KV_PAGE_SIZE))
                          (unat (ka_len_pages a)) of
                     ((rc, buf), c) \<Rightarrow>
                       if rc \<noteq> KV_EOK \<or> pages_validate (Some buf) (unat (ka_len_pages a)) (ka_crc a) \<noteq> KV_EOK
                       then Some (migrated, c)
                       else
                         (let pc = length (c_ctxs c);
                              c = c\<lparr>c_ctxs := c_ctxs c @ [Some ((put_ctx_init None)\<lparr>pc_refs := 1\<rparr>)]\<rparr>
                          in map_option (\<lambda>(_, c). (Suc migrated, c))
                               (shard_writer_enqueue c dev
                                 (migrate_req s lf (if in0 then 0 else 1) a (c_shapes c ! the (lf_shape lf)) buf pc)))))"

definition gc_migrate_region :: "get_env \<Rightarrow> cache \<Rightarrow> nat \<Rightarrow> nat \<Rightarrow> cache option" where
  "gc_migrate_region env c dev region_idx =
    (let rm = c_rms c ! dev;
         base = page_base rm region_idx;
         stop = trunc64 (base + unat (rm_region_size_pages rm))
     in map_option snd (fold_opt (migrate_slot env dev base stop)
          (take (unat (st_cap (c_side c))) (st_slots (c_side c))) (0, c)))"

section \<open>Statistics\<close>

definition stat_live_bytes :: "cache \<Rightarrow> u64" where
  "stat_live_bytes c = sum_list (map (\<lambda>(d, i). rs_live_bytes (region_at c d i)) (all_regions c))"

definition stat_capacity :: "cache \<Rightarrow> u64" where
  "stat_capacity c =
    sum_list (map (\<lambda>d. ucast (rm_region_cnt (c_rms c ! d)) * rm_region_size_pages (c_rms c ! d) * of_nat KV_PAGE_SIZE)
      [0..<c_n_devs c])"

text \<open>The epochs in use, counted per device by their residue modulo 64.\<close>

definition stat_generations :: "cache \<Rightarrow> u64" where
  "stat_generations c =
    (let live = filter (\<lambda>(d, i). rs_epoch (region_at c d i) \<noteq> 0 \<and> rs_state (region_at c d i) \<noteq> KV_RG_FREE) (all_regions c)
     in of_nat (length (remdups (map (\<lambda>(d, i). (d, unat (rs_epoch (region_at c d i) AND 63))) live))))"

definition cache_stats_impl :: "cache \<Rightarrow> string \<Rightarrow> u64" where
  "cache_stats_impl c key =
    (let s = c_stat c
     in if key = ''puts'' then cs_put_reqs s
        else if key = ''hits'' then cs_get_hits s
        else if key = ''misses'' then cs_get_misses s
        else if key = ''batches'' then cs_batches s
        else if key = ''bytes_written'' then cs_bytes_written s
        else if key = ''bytes_migrated'' then cs_bytes_migrated s
        else if key = ''rotations'' then cs_rotations s
        else if key = ''drops'' then cs_drops s
        else if key = ''leaves'' then ucast (rt_n_leaves (c_radix c))
        else if key = ''stripe_unit'' then ly_stripe_unit (c_layout c)
        else if key = ''stripe_threshold'' then ly_stripe_threshold (c_layout c)
        else if key = ''batch_min_bytes'' then ly_batch_min_bytes (c_layout c)
        else if key = ''region_align_bytes'' then ly_region_align_bytes (c_layout c)
        else if key = ''live_bytes'' then stat_live_bytes c
        else if key = ''capacity_bytes'' then stat_capacity c
        else if key = ''generations'' then stat_generations c
        else if key = ''gc_triggers'' then cs_gc_triggers s
        else if key = ''gc_evicted_leaves'' then cs_gc_evicted_leaves s
        else if key = ''journal_dropped'' then sum_list (map (\<lambda>d. ucast (j_dropped (c_journals c ! d))) [0..<c_n_devs c])
        else if key = ''ver'' then c_ver_counter c
        else if take 5 key = ''dram_'' then dram_stat (c_dram c) key
        else 0)"

definition cache_signal_stop :: "cache \<Rightarrow> cache" where
  "cache_signal_stop c = c\<lparr>c_stop := True\<rparr>"

definition cache_dev_count :: "cache option \<Rightarrow> nat" where
  "cache_dev_count c = (case c of None \<Rightarrow> 0 | Some c \<Rightarrow> c_n_devs c)"

end
