(* ===== verification/KV_Model.thy ===== *)
theory KV_Model
  imports KV_Common
begin

text \<open>
  The model profile (\<open>include/model_profile.h\<close>, \<open>src/model_profile.cpp\<close>): the bytes of keys and
  values of a token, a group and a context, the write-path parameters derived from them, the
  built-in profiles and the reader of a model's configuration file.  Arithmetic is on machine words
  as in the source; a C string is the list of its characters before the terminating zero.  That
  the derived parameters have the alignment the header promises is shown in theory \<open>KV_Config\<close>.
\<close>

section \<open>Arithmetic\<close>

function gcd_u64 :: "u64 \<Rightarrow> u64 \<Rightarrow> u64" where
  "gcd_u64 a b = (if b = 0 then (if a \<noteq> 0 then a else 1) else gcd_u64 b (a mod b))"
  by pat_completeness auto
termination
  by (relation "measure (\<lambda>(a, b). unat b)")
    (auto simp: word_less_nat_alt [symmetric] word_mod_less_divisor word_neq_0_conv)

declare gcd_u64.simps [simp del]

definition lcm_u64 :: "u64 \<Rightarrow> u64 \<Rightarrow> u64" where
  "lcm_u64 a b = (if a = 0 \<or> b = 0 then 0 else a div gcd_u64 a b * b)"

definition mp_align_up :: "u64 \<Rightarrow> u64 \<Rightarrow> u64" where
  "mp_align_up v a = (if a = 0 then v else (v + a - 1) div a * a)"

definition mp_align_down :: "u64 \<Rightarrow> u64 \<Rightarrow> u64" where
  "mp_align_down v a = (if a = 0 then v else v div a * a)"

text \<open>Doubling a 32-bit power; from \<open>v \<ge> 2 ^ 32\<close> on the loop would not end: \<open>None\<close>.\<close>

primrec pow2_floor_from :: "nat \<Rightarrow> u32 \<Rightarrow> u64 \<Rightarrow> u32 option" where
  "pow2_floor_from 0 p v = None"
| "pow2_floor_from (Suc fuel) p v = (if ucast p * 2 \<le> v then pow2_floor_from fuel (p * 2) v else Some p)"

definition pow2_floor :: "u64 \<Rightarrow> u32 option" where
  "pow2_floor v = pow2_floor_from 33 1 v"

section \<open>Profiles\<close>

datatype kv_attn_kind = KV_ATTN_MHA | KV_ATTN_MQA | KV_ATTN_GQA | KV_ATTN_MLA | KV_ATTN_SWA
  | KV_ATTN_SSM | KV_ATTN_HYBRID | KV_ATTN_SPARSE

record kv_model_profile =
  mp_name :: string
  mp_kind :: kv_attn_kind
  mp_n_layers :: u16
  mp_n_q_heads :: u16
  mp_n_kv_heads :: u16
  mp_head_dim :: u16
  mp_dtype_bytes :: u16
  mp_latent_dim :: u32
  mp_rope_dim :: u32
  mp_window :: u32
  mp_attn_layers :: u16
  mp_tokens_per_group :: u16

definition kv_mp_kv_layers :: "kv_model_profile \<Rightarrow> u32" where
  "kv_mp_kv_layers p =
    (case mp_kind p of
       KV_ATTN_SSM \<Rightarrow> 0
     | KV_ATTN_HYBRID \<Rightarrow> ucast (if mp_attn_layers p \<noteq> 0 then mp_attn_layers p else mp_n_layers p)
     | _ \<Rightarrow> ucast (mp_n_layers p))"

definition kv_mp_bytes_per_token_layer :: "kv_model_profile \<Rightarrow> u32" where
  "kv_mp_bytes_per_token_layer p =
    (let d = (if mp_dtype_bytes p \<noteq> 0 then ucast (mp_dtype_bytes p) else 2) :: u64;
         latent = ucast ((ucast (mp_latent_dim p) + ucast (mp_rope_dim p)) * d) :: u32;
         heads = ucast (2 * ucast (mp_n_kv_heads p) * ucast (mp_head_dim p) * d) :: u32
     in case mp_kind p of
          KV_ATTN_SSM \<Rightarrow> 0
        | KV_ATTN_MLA \<Rightarrow> latent
        | KV_ATTN_MQA \<Rightarrow> ucast (2 * 1 * ucast (mp_head_dim p) * d)
        | KV_ATTN_SPARSE \<Rightarrow> if mp_latent_dim p \<noteq> 0 then latent else heads
        | _ \<Rightarrow> heads)"

definition kv_mp_bytes_per_token :: "kv_model_profile \<Rightarrow> u64" where
  "kv_mp_bytes_per_token p = ucast (kv_mp_bytes_per_token_layer p) * ucast (kv_mp_kv_layers p)"

definition group_tokens :: "kv_model_profile \<Rightarrow> u32" where
  "group_tokens p = (if mp_tokens_per_group p \<noteq> 0 then ucast (mp_tokens_per_group p) else 32)"

definition kv_mp_group_layer_bytes :: "kv_model_profile \<Rightarrow> u32 \<Rightarrow> u64" where
  "kv_mp_group_layer_bytes p tokens_in_group =
    ucast (kv_mp_bytes_per_token_layer p) * ucast (if tokens_in_group = 0 then group_tokens p else tokens_in_group)"

definition kv_mp_group_bytes :: "kv_model_profile \<Rightarrow> u32 \<Rightarrow> u64" where
  "kv_mp_group_bytes p tokens_in_group = kv_mp_group_layer_bytes p tokens_in_group * ucast (kv_mp_kv_layers p)"

definition kv_mp_context_bytes :: "kv_model_profile \<Rightarrow> u64 \<Rightarrow> u64" where
  "kv_mp_context_bytes p tokens =
    (if mp_kind p = KV_ATTN_SSM then 0
     else
       (let tokens = (if mp_kind p = KV_ATTN_SWA \<and> mp_window p \<noteq> 0 \<and> tokens > ucast (mp_window p)
                      then ucast (mp_window p) else tokens)
        in kv_mp_bytes_per_token p * tokens))"

section \<open>Tuning\<close>

definition KV_MP_OK :: int where "KV_MP_OK = 0"
definition KV_MP_EINVAL :: int where "KV_MP_EINVAL = -1"

record kv_model_tuning =
  mt_page_size :: u32
  mt_alignment :: u32
  mt_group_bytes :: u64
  mt_stripe_unit :: u64
  mt_stripe_threshold :: u64
  mt_batch_min_bytes :: u64
  mt_region_align_bytes :: u64
  mt_dram_entry_max_bytes :: u64

definition tune_stripe_unit :: "u32 \<Rightarrow> u64 \<Rightarrow> u64 \<Rightarrow> u64" where
  "tune_stripe_unit page_size layer_bytes target_stripe =
    (let gran = lcm_u64 (ucast page_size) (if layer_bytes \<noteq> 0 then layer_bytes else ucast page_size);
         gran = (if gran = 0 then ucast page_size else gran)
     in mp_align_up target_stripe gran)"

definition tune_threshold :: "u32 \<Rightarrow> u64 \<Rightarrow> u64 \<Rightarrow> u64" where
  "tune_threshold page_size group_bytes target_stripe =
    (if group_bytes > target_stripe then mp_align_up target_stripe (ucast page_size)
     else let t = mp_align_down target_stripe group_bytes in if t = 0 then group_bytes else t)"

definition tune_batch :: "u32 \<Rightarrow> u64 \<Rightarrow> u64 \<Rightarrow> u64 \<Rightarrow> u64" where
  "tune_batch page_size group_bytes threshold target_batch =
    (let want = mp_align_up (if target_batch > group_bytes then target_batch else group_bytes) (ucast page_size);
         want = (if group_bytes \<le> threshold then mp_align_up want group_bytes else want);
         want = (if want > threshold then mp_align_down threshold (ucast page_size) else want)
     in if want = 0 then ucast page_size else want)"

definition tune_region_align :: "u64 \<Rightarrow> u64 \<Rightarrow> u64" where
  "tune_region_align group_bytes region_size_bytes =
    (if region_size_bytes \<noteq> 0 \<and> mp_align_down region_size_bytes group_bytes \<noteq> 0
     then mp_align_down region_size_bytes group_bytes else group_bytes)"

definition kv_mp_tune :: "kv_model_profile \<Rightarrow> u32 \<Rightarrow> u64 \<Rightarrow> u64 \<Rightarrow> u64 \<Rightarrow> (int \<times> kv_model_tuning option) option" where
  "kv_mp_tune p page_size region_size_bytes target_stripe target_batch =
    (let layer_bytes = kv_mp_group_layer_bytes p (group_tokens p);
         group_bytes = layer_bytes * ucast (kv_mp_kv_layers p)
     in if page_size = 0 \<or> group_bytes = 0 then Some (KV_MP_EINVAL, None)
        else
          (let target_stripe = (if target_stripe = 0 then 256 * 1024 else target_stripe);
               target_batch = (if target_batch = 0 then 256 * 1024 else target_batch);
               threshold = tune_threshold page_size group_bytes target_stripe
           in map_option (\<lambda>al. (KV_MP_OK, Some \<lparr>mt_page_size = page_size, mt_alignment = (if al = 0 then 1 else al),
                  mt_group_bytes = group_bytes, mt_stripe_unit = tune_stripe_unit page_size layer_bytes target_stripe,
                  mt_stripe_threshold = threshold, mt_batch_min_bytes = tune_batch page_size group_bytes threshold target_batch,
                  mt_region_align_bytes = tune_region_align group_bytes region_size_bytes,
                  mt_dram_entry_max_bytes = mp_align_up group_bytes (ucast page_size)\<rparr>))
                (pow2_floor (gcd_u64 group_bytes (ucast page_size)))))"

record kv_mp_config =
  mc_n_groups_tokens :: u32
  mc_max_layers :: u32
  mc_stripe_unit :: u64
  mc_stripe_threshold :: u64
  mc_batch_min_bytes :: u64
  mc_region_align_bytes :: u64
  mc_dram_entry_max_bytes :: u64

definition kv_mp_config_values :: "kv_model_profile \<Rightarrow> u32 \<Rightarrow> (int \<times> kv_mp_config option) option" where
  "kv_mp_config_values p page_size =
    map_option (\<lambda>(rc, t). case t of
        Some t \<Rightarrow> if rc \<noteq> KV_MP_OK then (rc, None)
          else (KV_MP_OK, Some \<lparr>mc_n_groups_tokens = group_tokens p, mc_max_layers = kv_mp_kv_layers p,
            mc_stripe_unit = mt_stripe_unit t, mc_stripe_threshold = mt_stripe_threshold t,
            mc_batch_min_bytes = mt_batch_min_bytes t, mc_region_align_bytes = mt_group_bytes t,
            mc_dram_entry_max_bytes = mt_dram_entry_max_bytes t\<rparr>)
      | None \<Rightarrow> (rc, None))
    (kv_mp_tune p page_size 0 0 0)"

section \<open>Built-in profiles\<close>

definition preset :: "string \<Rightarrow> kv_attn_kind \<Rightarrow> u16 \<Rightarrow> u16 \<Rightarrow> u16 \<Rightarrow> u16 \<Rightarrow> u16 \<Rightarrow> u32 \<Rightarrow> u32 \<Rightarrow> u32 \<Rightarrow> u16 \<Rightarrow> kv_model_profile" where
  "preset name kind layers qh kvh hdim dt lat rope win attn =
    \<lparr>mp_name = name, mp_kind = kind, mp_n_layers = layers, mp_n_q_heads = qh, mp_n_kv_heads = kvh, mp_head_dim = hdim,
     mp_dtype_bytes = dt, mp_latent_dim = lat, mp_rope_dim = rope, mp_window = win, mp_attn_layers = attn,
     mp_tokens_per_group = 32\<rparr>"

definition presets :: "kv_model_profile list" where
  "presets = [
    (preset ''unknown'' KV_ATTN_MHA 0 0 0 0 0 0 0 0 0)\<lparr>mp_tokens_per_group := 0\<rparr>,
    preset ''llama-3.1-8b'' KV_ATTN_GQA 32 32 8 128 2 0 0 0 0,
    preset ''llama-3.1-70b'' KV_ATTN_GQA 80 64 8 128 2 0 0 0 0,
    preset ''llama-3.1-405b'' KV_ATTN_GQA 126 128 8 128 2 0 0 0 0,
    preset ''qwen2.5-1.5b'' KV_ATTN_GQA 28 12 2 128 2 0 0 0 0,
    preset ''qwen2.5-7b'' KV_ATTN_GQA 28 28 4 128 2 0 0 0 0,
    preset ''qwen2.5-72b'' KV_ATTN_GQA 80 64 8 128 2 0 0 0 0,
    preset ''mistral-7b'' KV_ATTN_GQA 32 32 8 128 2 0 0 0 0,
    preset ''gemma-2-9b'' KV_ATTN_GQA 42 16 8 256 2 0 0 0 0,
    preset ''glm-4-9b'' KV_ATTN_GQA 40 32 2 128 2 0 0 0 0,
    preset ''deepseek-v3'' KV_ATTN_MLA 61 128 0 128 2 512 64 0 0,
    preset ''falcon-7b'' KV_ATTN_MQA 32 71 1 64 2 0 0 0 0]"

definition kv_mp_builtin :: "int \<Rightarrow> kv_model_profile option" where
  "kv_mp_builtin i = (if i \<le> 0 \<or> i \<ge> int (length presets) then None else Some (presets ! nat i))"

definition KV_MP_NAME_MAX :: nat where "KV_MP_NAME_MAX = 32"

text \<open>\<open>strncmp\<close> over at most \<open>KV_MP_NAME_MAX\<close> characters.\<close>

definition kv_mp_by_name :: "string \<Rightarrow> kv_model_profile option" where
  "kv_mp_by_name name = find (\<lambda>p. take KV_MP_NAME_MAX (mp_name p) = take KV_MP_NAME_MAX name) (tl presets)"

section \<open>Reading a configuration file\<close>

definition json_ws :: "char \<Rightarrow> bool" where
  "json_ws ch \<longleftrightarrow> ch = CHR '' '' \<or> ch = CHR 0x09 \<or> ch = CHR 0x0A \<or> ch = CHR 0x0D"

text \<open>The text after the colon of the first \<open>"key" :\<close>.\<close>

fun jfind :: "string \<Rightarrow> string \<Rightarrow> string option" where
  "jfind [] key = None"
| "jfind (ch # s) key =
    (if key \<noteq> [] \<and> ch = CHR 0x22 \<and> take (length key) s = key \<and> take 1 (drop (length key) s) = [CHR 0x22] then
       (case dropWhile json_ws (drop (length key + 1) s) of
          [] \<Rightarrow> jfind s key
        | x # q \<Rightarrow> if x = CHR '':'' then Some (dropWhile json_ws q) else jfind s key)
     else jfind s key)"

definition digit_val :: "char \<Rightarrow> nat" where
  "digit_val ch = of_char ch - 48"

definition is_digit :: "char \<Rightarrow> bool" where
  "is_digit ch \<longleftrightarrow> 48 \<le> (of_char ch :: nat) \<and> (of_char ch :: nat) \<le> 57"

text \<open>\<open>strtoll\<close> in base 10: blanks, a sign, digits, saturating; no digits is an error.\<close>

definition strtoll10 :: "string \<Rightarrow> int option" where
  "strtoll10 s =
    (let s = dropWhile (\<lambda>ch. json_ws ch \<or> ch = CHR 0x0B \<or> ch = CHR 0x0C) s;
         neg = (take 1 s = ''-'');
         s = (if take 1 s = ''-'' \<or> take 1 s = ''+'' then drop 1 s else s);
         ds = takeWhile is_digit s;
         v = int (foldl (\<lambda>a ch. a * 10 + digit_val ch) 0 ds)
     in if ds = [] then None
        else Some (if neg then max (- (2 ^ 63)) (- v) else min (2 ^ 63 - 1) v))"

definition jnum :: "string \<Rightarrow> string \<Rightarrow> int option" where
  "jnum j key = Option.bind (jfind j key) strtoll10"

definition jstr :: "string \<Rightarrow> string \<Rightarrow> nat \<Rightarrow> string option" where
  "jstr j key cap =
    (case jfind j key of
       Some (x # v) \<Rightarrow> if x = CHR 0x22 then Some (take (cap - 1) (takeWhile (\<lambda>ch. ch \<noteq> CHR 0x22) v)) else None
     | _ \<Rightarrow> None)"

definition str_contains :: "string \<Rightarrow> string \<Rightarrow> bool" where
  "str_contains s sub \<longleftrightarrow> (\<exists>k \<in> set [0..<length s + 1]. take (length sub) (drop k s) = sub)"

definition dtype_bytes_from_str :: "string \<Rightarrow> u16" where
  "dtype_bytes_from_str s =
    (if s = [] then 2
     else if str_contains s ''8'' \<or> str_contains s ''fp8'' \<or> str_contains s ''float8'' then 1
     else if str_contains s ''32'' then 4 else 2)"

definition num_or_0 :: "string \<Rightarrow> string \<Rightarrow> int" where
  "num_or_0 j key = (case jnum j key of None \<Rightarrow> 0 | Some x \<Rightarrow> x)"

definition kv_mp_from_hf_config_json :: "string \<Rightarrow> int \<times> kv_model_profile option" where
  "kv_mp_from_hf_config_json j =
    (let n_layers = num_or_0 j ''num_hidden_layers'';
         n_q = num_or_0 j ''num_attention_heads''
     in if n_layers \<le> 0 \<or> n_q \<le> 0 then (KV_MP_EINVAL, None)
        else
          (let n_kv = num_or_0 j ''num_key_value_heads'';
               head_dim = num_or_0 j ''head_dim'';
               hidden = num_or_0 j ''hidden_size'';
               lora = num_or_0 j ''kv_lora_rank'';
               rope = num_or_0 j ''qk_rope_head_dim'';
               nope = num_or_0 j ''qk_nope_head_dim'';
               head_dim = (if nope > 0 then nope else head_dim);
               n_kv = (if n_kv \<le> 0 then n_q else n_kv);
               head_dim = (if head_dim \<le> 0 \<and> hidden > 0 then hidden div n_q else head_dim);
               head_dim = (if head_dim \<le> 0 then 128 else head_dim);
               dt = (case jstr j ''torch_dtype'' 32 of Some s \<Rightarrow> s
                     | None \<Rightarrow> (case jstr j ''dtype'' 32 of Some s \<Rightarrow> s | None \<Rightarrow> []));
               name = (case jstr j ''_name_or_path'' KV_MP_NAME_MAX of Some s \<Rightarrow> s
                       | None \<Rightarrow> (case jstr j ''model_type'' KV_MP_NAME_MAX of Some s \<Rightarrow> s | None \<Rightarrow> ''custom''))
           in (KV_MP_OK, Some \<lparr>mp_name = name,
                 mp_kind = (if lora > 0 then KV_ATTN_MLA else if n_kv = 1 then KV_ATTN_MQA
                            else if n_kv = n_q then KV_ATTN_MHA else KV_ATTN_GQA),
                 mp_n_layers = of_int n_layers, mp_n_q_heads = of_int n_q, mp_n_kv_heads = of_int n_kv,
                 mp_head_dim = of_int head_dim, mp_dtype_bytes = dtype_bytes_from_str dt, mp_latent_dim = of_int lora,
                 mp_rope_dim = of_int rope, mp_window = 0, mp_attn_layers = 0, mp_tokens_per_group = 32\<rparr>)))"

text \<open>The file's contents, \<open>None\<close> when it cannot be opened or measured; \<open>rd\<close> is the number of bytes read and
  \<open>ok\<close> the outcome of \<open>malloc\<close>.  The C string ends at the first zero.\<close>

definition kv_mp_from_hf_config_file :: "bool \<Rightarrow> nat \<Rightarrow> string option \<Rightarrow> int \<times> kv_model_profile option" where
  "kv_mp_from_hf_config_file ok rd file =
    (case file of
       None \<Rightarrow> (KV_MP_EINVAL, None)
     | Some b \<Rightarrow>
         if length b = 0 \<or> length b > 2 ^ 20 \<or> \<not> ok then (KV_MP_EINVAL, None)
         else kv_mp_from_hf_config_json (takeWhile (\<lambda>ch. ch \<noteq> CHR 0x00) (take rd b)))"

end
