(* ===== verification/KV_Open.thy ===== *)
theory KV_Open
  imports KV_Api KV_Model
begin

text \<open>
  Opening and closing a cache (\<open>src/cache.cpp\<close>, lines 620 to 1173): checking the configuration,
  sizing the regions, preparing the devices, formatting, or recovering from the checkpoint and the
  journals.  The outcomes of system calls, allocations and thread starts are arguments.  The
  writers' threads are idle until the first put, so they do not run here.
\<close>

section \<open>Replaying the journals\<close>

record replay_part =
  rp_dev_id :: u32
  rp_page_no :: u64
  rp_len_pages :: u32
  rp_data_len :: u32

definition replay_part0 :: replay_part where
  "replay_part0 = \<lparr>rp_dev_id = 0, rp_page_no = 0, rp_len_pages = 0, rp_data_len = 0\<rparr>"

record replay_stripe =
  rt_prefix_id :: u64
  rt_group_idx :: u32
  rt_ver :: u32
  rt_stripe_cnt :: u32
  rt_n_seen :: u32
  rt_parts :: "replay_part list"
  rt_used :: bool

text \<open>The table of stripes holds at most 256; their number is the length of the list.\<close>

record replay_state =
  rs_stripes :: "replay_stripe list"
  rs_max_ver :: u32

definition replay_find_stripe :: "replay_state \<Rightarrow> u64 \<Rightarrow> u32 \<Rightarrow> u32 \<Rightarrow> u32 \<Rightarrow> nat option \<times> replay_state" where
  "replay_find_stripe rs prefix_id group_idx ver stripe_cnt =
    (case find (\<lambda>i. let s = rs_stripes rs ! i in rt_prefix_id s = prefix_id \<and> rt_group_idx s = group_idx \<and> rt_ver s = ver)
            [0..<length (rs_stripes rs)] of
       Some i \<Rightarrow> (Some i, rs)
     | None \<Rightarrow>
         if length (rs_stripes rs) \<ge> 256 \<or> stripe_cnt < 2 then (None, rs)
         else (Some (length (rs_stripes rs)), rs\<lparr>rs_stripes := rs_stripes rs @
           [\<lparr>rt_prefix_id = prefix_id, rt_group_idx = group_idx, rt_ver = ver, rt_stripe_cnt = stripe_cnt,
             rt_n_seen = 0, rt_parts = replicate (unat stripe_cnt) replay_part0, rt_used = True\<rparr>]\<rparr>))"

definition replay_state_free :: "replay_state \<Rightarrow> replay_state" where
  "replay_state_free rs = rs\<lparr>rs_stripes := []\<rparr>"

definition replay_del :: "journal_rec \<Rightarrow> cache \<Rightarrow> cache option" where
  "replay_del rec c =
    (case side_get (c_side c) (jr_prefix_id rec) (jr_group_idx rec) of
       None \<Rightarrow> None
     | Some None \<Rightarrow> Some c
     | Some (Some node) \<Rightarrow>
         (case node_leaf c node of
            None \<Rightarrow> Some c
          | Some l \<Rightarrow> if lf_refcnt (leaf_at c l) = 0 then leaf_drop c node else Some c))"

definition replay_trim :: "journal_rec \<Rightarrow> cache \<Rightarrow> cache" where
  "replay_trim rec c =
    (let dev = unat (jr_dev_id rec);
         idx = sint (ucast (jr_addr_page rec) :: u32)
     in if dev < c_n_devs c \<and> 0 \<le> idx \<and> idx < sint (cf_region_cnt (c_cfg c))
        then rm_set_sh c dev (nat idx) (\<lambda>sh. sh\<lparr>rs_state := KV_RG_FREE, rs_live_bytes := 0\<rparr>) else c)"

definition replay_node :: "journal_rec \<Rightarrow> u64 list option \<Rightarrow> cache \<Rightarrow> (nat option \<times> cache) option" where
  "replay_node rec path c =
    (case side_get (c_side c) (jr_prefix_id rec) (jr_group_idx rec) of
       None \<Rightarrow> None
     | Some (Some node) \<Rightarrow> Some (Some node, c)
     | Some None \<Rightarrow>
         (case path of
            None \<Rightarrow> Some (None, c)
          | Some path \<Rightarrow>
              if jr_path_len rec = 0 then Some (None, c)
              else case radix_walk (c_radix c) (take (unat (jr_path_len rec)) path) True of
                     None \<Rightarrow> None
                   | Some (None, t) \<Rightarrow> Some (None, c\<lparr>c_radix := t\<rparr>)
                   | Some (Some node, t) \<Rightarrow>
                       map_option (\<lambda>(rc, side). (Some node, c\<lparr>c_radix := t, c_side := side\<rparr>))
                         (side_put (c_side c) (jr_prefix_id rec) (jr_group_idx rec) (Some node))))"

definition replay_shape :: "journal_rec \<Rightarrow> u32 list option \<Rightarrow> cache \<Rightarrow> nat option \<times> cache" where
  "replay_shape rec lens c =
    (case lens of
       None \<Rightarrow> (None, c)
     | Some lens \<Rightarrow>
         if jr_n_recs rec = 0 then (None, c)
         else
           (let n = min (unat (jr_n_recs rec)) KV_MAX_LAYERS_CAP;
                full = (if jr_flags rec AND KV_JFLAG_UNIFORM \<noteq> 0 then replicate n (lens ! 0) else take n lens)
            in case c_alloc c of (ok, c) \<Rightarrow>
                 case shape_pool_intern ok (c_shapes c) full (of_nat n) of (s, shapes) \<Rightarrow> (s, c\<lparr>c_shapes := shapes\<rparr>)))"

definition replay_stripe_part :: "journal_rec \<Rightarrow> u32 \<Rightarrow> u32 \<Rightarrow> replay_stripe \<Rightarrow> replay_stripe" where
  "replay_stripe_part rec data_crc data_len s =
    (if jr_stripe_idx rec < rt_stripe_cnt s then
       s\<lparr>rt_parts := (rt_parts s)[unat (jr_stripe_idx rec) := \<lparr>rp_dev_id = jr_addr_dev rec, rp_page_no = jr_addr_page rec,
             rp_len_pages = jr_addr_len rec, rp_data_len = data_len\<rparr>], rt_n_seen := rt_n_seen s + 1\<rparr>
     else s)"

definition replay_publish_stripe :: "journal_rec \<Rightarrow> u32 \<Rightarrow> nat \<Rightarrow> nat option \<Rightarrow> u64 list option \<Rightarrow> replay_stripe \<Rightarrow> cache \<Rightarrow> cache option" where
  "replay_publish_stripe rec data_crc node shape path s c =
    (let stream_len = sum_list (map rp_data_len (rt_parts s))
     in fold_opt (\<lambda>p c.
          let part = rt_parts s ! p
          in leaf_publish c None node (jr_prefix_id rec) (jr_group_idx rec) (jr_ver rec)
               (kv_addr0\<lparr>ka_dev_id := rp_dev_id part, ka_page_no := rp_page_no part, ka_len_pages := rp_len_pages part,
                  ka_expire_ts := jr_expire_ts rec, ka_crc := data_crc\<rparr>)
               0 KV_CHUNK_F_STRIPE (of_nat p) (rt_stripe_cnt s) stream_len (rp_data_len part) shape path
               (ucast (jr_path_len rec)))
        [0..<unat (rt_stripe_cnt s)] c)"

definition replay_put :: "journal_rec \<Rightarrow> u32 \<Rightarrow> u32 list option \<Rightarrow> u32 \<Rightarrow> u64 list option \<Rightarrow> replay_state \<Rightarrow> cache \<Rightarrow>
    (replay_state \<times> cache) option" where
  "replay_put rec data_crc lens data_len path rs c =
    (case replay_node rec path c of
       None \<Rightarrow> None
     | Some (None, c) \<Rightarrow> Some (rs, c)
     | Some (Some node, c) \<Rightarrow>
         (case replay_shape rec lens c of (shape, c) \<Rightarrow>
            if jr_stripe_cnt rec > 1 then
              (case replay_find_stripe rs (jr_prefix_id rec) (jr_group_idx rec) (jr_ver rec) (jr_stripe_cnt rec) of
                 (None, rs) \<Rightarrow> Some (rs, c)
               | (Some i, rs) \<Rightarrow>
                   (let s = replay_stripe_part rec data_crc data_len (rs_stripes rs ! i);
                        rs = rs\<lparr>rs_stripes := (rs_stripes rs)[i := s]\<rparr>
                    in if rt_n_seen s \<ge> rt_stripe_cnt s then
                         map_option (\<lambda>c. (rs\<lparr>rs_stripes := (rs_stripes rs)[i := s\<lparr>rt_used := False\<rparr>]\<rparr>, c))
                           (replay_publish_stripe rec data_crc node shape path s c)
                       else Some (rs, c)))
            else
              map_option (Pair rs)
                (leaf_publish c None node (jr_prefix_id rec) (jr_group_idx rec) (jr_ver rec)
                  (kv_addr0\<lparr>ka_dev_id := jr_addr_dev rec, ka_page_no := jr_addr_page rec, ka_len_pages := jr_addr_len rec,
                     ka_expire_ts := jr_expire_ts rec, ka_crc := data_crc\<rparr>)
                  (if jr_flags rec AND KV_JFLAG_SLOT1 \<noteq> 0 then 1 else 0) (jr_flags rec) 0 0 0 data_len shape path
                  (ucast (jr_path_len rec)))))"

definition replay_apply :: "journal_rec \<Rightarrow> u32 \<Rightarrow> u32 list option \<Rightarrow> u32 \<Rightarrow> u64 list option \<Rightarrow> replay_state \<times> cache \<Rightarrow>
    (replay_state \<times> cache) option" where
  "replay_apply rec data_crc lens data_len path = (\<lambda>(rs, c).
    let rs = rs\<lparr>rs_max_ver := max (rs_max_ver rs) (jr_ver rec)\<rparr>
    in if jr_op rec = KV_JOP_DEL then map_option (Pair rs) (replay_del rec c)
       else if jr_op rec = KV_JOP_TRIM then Some (rs, replay_trim rec c)
       else if jr_op rec \<noteq> KV_JOP_PUT then Some (rs, c)
       else replay_put rec data_crc lens data_len path rs c)"

text \<open>As the callback of \<open>journal_replay\<close>; an application without a result ends the replay without one.\<close>

definition replay_cb :: "(replay_state \<times> cache) option replay_fn" where
  "replay_cb rec data_crc lens n_lens data_len path st =
    (case st of
       None \<Rightarrow> (1, None)
     | Some st \<Rightarrow>
         (case replay_apply rec data_crc lens data_len path st of None \<Rightarrow> (1, None) | Some st \<Rightarrow> (0, Some st)))"

section \<open>Configuration\<close>

definition open_config :: "kv_config option \<Rightarrow> int + (kv_config \<times> kv_layout)" where
  "open_config cfg_in =
    (let cfg = (case cfg_in of None \<Rightarrow> kv_config_default | Some c \<Rightarrow> c);
         cfg = (if cf_n_groups_tokens cfg = 0 then kv_config_default else cfg)
     in if cf_abi_version cfg > KV_CONFIG_ABI_VERSION then Inl (- KV_EINVAL)
        else
          (let cfg = cfg\<lparr>cf_region_cnt := (if cf_region_cnt cfg \<noteq> 0 then cf_region_cnt cfg else 6),
                 cf_journal_pages := (if cf_journal_pages cfg \<noteq> 0 then cf_journal_pages cfg else 512),
                 cf_max_layers := (if cf_max_layers cfg \<noteq> 0 then cf_max_layers cfg else of_nat KV_MAX_LAYERS_CAP)\<rparr>;
               ly = kv_layout_derive cfg;
               cfg = cfg\<lparr>cf_stripe_unit := ly_stripe_unit ly, cf_stripe_threshold := ly_stripe_threshold ly,
                 cf_batch_min_bytes := ucast (ly_batch_min_bytes ly), cf_dram_entry_max_bytes := ly_dram_entry_max_bytes ly,
                 cf_region_align_bytes := ly_region_align_bytes ly\<rparr>
           in if cf_max_layers cfg > of_nat KV_MAX_LAYERS_CAP \<or> cf_batch_min_bytes cfg mod of_nat KV_PAGE_SIZE \<noteq> 0 \<or>
                 ucast (cf_batch_min_bytes cfg) > cf_stripe_threshold cfg
              then Inl (- KV_EINVAL)
              else if cf_dram_alloc_backend cfg > KV_DRAM_BACKEND_MAX then Inl (- KV_EINVAL)
              else Inr (cfg, ly)))"

text \<open>What \<open>stat\<close> says of each device path: the size of a regular file, or \<open>None\<close>.\<close>

definition open_region_pages :: "kv_config \<Rightarrow> kv_layout \<Rightarrow> u64 option list \<Rightarrow> u64" where
  "open_region_pages cfg ly sizes =
    (let pages = cf_region_size_pages cfg;
         pages = (if pages \<noteq> 0 then pages
                  else if None \<in> set sizes then 8192
                  else
                    (let total = the (sizes ! 0) div of_nat KV_PAGE_SIZE;
                         usable = (if total > ucast (cf_journal_pages cfg) then total - ucast (cf_journal_pages cfg) else 0)
                     in if usable > of_nat kRegionBasePage
                        then (usable - of_nat kRegionBasePage) div ucast (cf_region_cnt cfg) else 8192));
         pages = (if pages < 64 then 64 else pages)
     in if ly_region_align_bytes ly > of_nat KV_PAGE_SIZE then
          (let bytes = pages * of_nat KV_PAGE_SIZE;
               ab = ly_region_align_bytes ly;
               aligned = (bytes div ab) * ab
           in if aligned \<ge> 64 * of_nat KV_PAGE_SIZE then aligned div of_nat KV_PAGE_SIZE else pages)
        else pages)"

section \<open>Recovery\<close>

definition with_rm :: "cache \<Rightarrow> nat \<Rightarrow> (region_mgr \<Rightarrow> device \<Rightarrow> 'a \<times> region_mgr \<times> device) \<Rightarrow> 'a \<times> cache" where
  "with_rm c i f =
    (case f (c_rms c ! i) (c_devs c ! i) of (x, rm, d) \<Rightarrow>
       (x, c\<lparr>c_rms := (c_rms c)[i := rm], c_devs := (c_devs c)[i := d]\<rparr>))"

definition side_build_cb :: "radix_node list \<Rightarrow> radix_leaf option list \<Rightarrow> nat \<Rightarrow> side_tbl option \<Rightarrow> int \<times> side_tbl option" where
  "side_build_cb ns leaves i side =
    (case rn_leaf (ns ! i) of
       None \<Rightarrow> (0, side)
     | Some l \<Rightarrow>
         (0, Option.bind side (\<lambda>t. map_option snd (side_put t (lf_prefix_id (the (leaves ! l)))
               (if rn_depth (ns ! i) \<noteq> 0 then rn_depth (ns ! i) - 1 else 0) (Some i)))))"

definition side_build :: "cache \<Rightarrow> cache option" where
  "side_build c =
    (case radix_visit (c_radix c) (side_build_cb (rt_nodes (c_radix c)) (c_leaves c)) (Some (c_side c)) of
       None \<Rightarrow> None
     | Some (_, side) \<Rightarrow> map_option (\<lambda>t. c\<lparr>c_side := t\<rparr>) side)"

definition ver_scan_cb :: "radix_leaf option list \<Rightarrow> nat \<Rightarrow> u64 \<Rightarrow> int \<times> u64" where
  "ver_scan_cb leaves l maxv =
    (let v = ucast (lf_ver (the (leaves ! l))) in (0, if v > maxv then v else maxv))"

text \<open>The states of the regions after the live bytes have been counted.\<close>

definition recover_region_states :: "cache \<Rightarrow> cache" where
  "recover_region_states c =
    fold (\<lambda>(d, i) c.
        let sh = region_at c d i;
            st = (if rs_live_bytes sh = 0 \<and> rs_state sh \<noteq> KV_RG_OPEN then KV_RG_FREE
                  else if rs_state sh \<noteq> KV_RG_OPEN then KV_RG_FROZEN else rs_state sh)
        in snd (cache_write_header (rm_set_sh c d i (\<lambda>sh. sh\<lparr>rs_state := st\<rparr>)) d i))
      (all_regions c) c"

definition recover_pick_oldest :: "cache \<Rightarrow> nat \<Rightarrow> int" where
  "recover_pick_oldest c d =
    fst (fold (\<lambda>i (opened, oldest).
        let sh = region_at c d i
        in if rs_state sh = KV_RG_FROZEN \<and> rs_epoch sh \<noteq> 0 \<and> rs_epoch sh < oldest then (int i, rs_epoch sh) else (opened, oldest))
      [0..<unat (rm_region_cnt (c_rms c ! d))] (-1, - 1))"

text \<open>A region to write to: a free one, the oldest frozen one after dropping its leaves, or the first.\<close>

definition recover_open_region :: "clock \<Rightarrow> nat \<Rightarrow> cache \<Rightarrow> cache option" where
  "recover_open_region clk d c =
    (let opened = next_free (c_rms c ! d);
         oldest = recover_pick_oldest c d
     in case (if 0 \<le> opened then Some (opened, c)
              else if 0 \<le> oldest then map_option (Pair oldest) (cache_drop_region clk c d (nat oldest))
              else Some (-1, c)) of
          None \<Rightarrow> None
        | Some (opened, c) \<Rightarrow>
            (let opened = (if opened < 0 then 0 else nat opened);
                 c = c\<lparr>c_rms := (c_rms c)[d := (c_rms c ! d)\<lparr>rm_epoch_counter := rm_epoch_counter (c_rms c ! d) + 1\<rparr>]\<rparr>;
                 c = rm_set_sh c d opened (\<lambda>sh. sh\<lparr>rs_epoch := rm_epoch_counter (c_rms c ! d), rs_base_ts := ck_s clk,
                       rs_close_ts := 0, rs_watermark_page := 1, rs_live_bytes := 0, rs_state := KV_RG_OPEN\<rparr>);
                 c = cache_sb_write clk (snd (cache_write_header c d opened)) d
             in Some (w_upd c d (\<lambda>w. w\<lparr>sw_region := opened, sw_next_page := 1,
                  sw_confirmed_page := region_abs_page (c_rms c ! d) opened 1\<rparr>))))"

definition recover_versions :: "u32 \<Rightarrow> cache \<Rightarrow> cache option" where
  "recover_versions max_ver c =
    map_option (\<lambda>(_, maxv). c\<lparr>c_ver_counter := maxv + 1\<rparr>)
      (radix_visit_leaves (c_radix c) (ver_scan_cb (c_leaves c)) (ucast max_ver))"

definition replay_all :: "cache \<Rightarrow> (replay_state \<times> cache) option" where
  "replay_all c =
    fold_opt (\<lambda>i (rs, c).
        case journal_replay ((c_journals c ! i)\<lparr>j_dev := c_devs c ! i\<rparr>) replay_cb (Some (rs, c)) of
          ((_, st), j) \<Rightarrow>
            map_option (\<lambda>(rs, c). (rs, c\<lparr>c_journals := (c_journals c)[i := j], c_devs := (c_devs c)[i := j_dev j]\<rparr>)) st)
      [0..<c_n_devs c] (\<lparr>rs_stripes = [], rs_max_ver = 0\<rparr>, c)"

text \<open>The checkpoint's result is not looked at: what it loaded before an error stays.\<close>

definition recover_index :: "cache \<Rightarrow> (replay_state \<times> cache) option" where
  "recover_index c =
    (case ckpt_load (c_ckpt_file c) (c_radix c) (c_leaves c) (of_nat (c_n_devs c)) (cf_region_cnt (c_cfg c))
            (cf_region_size_pages (c_cfg c)) (c_shapes c) of
       None \<Rightarrow> None
     | Some (_, _, t, leaves, shapes) \<Rightarrow>
         Option.bind (side_build (c\<lparr>c_radix := t, c_leaves := leaves, c_shapes := shapes, c_replaying := True\<rparr>))
           (\<lambda>c. map_option (\<lambda>(rs, c). (replay_state_free rs, c\<lparr>c_replaying := False\<rparr>)) (replay_all c)))"

definition recover :: "clock \<Rightarrow> u64 \<Rightarrow> cache \<Rightarrow> cache option" where
  "recover clk cur_epoch c =
    (let c = fold (\<lambda>i c.
           case with_rm c i rm_load of ((rc, _), c) \<Rightarrow>
             if rc \<noteq> KV_EOK then
               snd (with_journal (snd (with_rm c i (\<lambda>rm d. rm_format rm d cur_epoch (ck_s clk)))) i journal_reset)
             else c) [1..<c_n_devs c] c
     in case recover_index c of
          None \<Rightarrow> None
        | Some (rs, c) \<Rightarrow>
            Option.bind (cache_recompute_live c) (\<lambda>c.
            Option.bind (fold_opt (recover_open_region clk) [0..<c_n_devs c] (recover_region_states c))
              (recover_versions (rs_max_ver rs))))"

section \<open>Formatting\<close>

definition format_all :: "clock \<Rightarrow> cache \<Rightarrow> cache" where
  "format_all clk c =
    (let c = fold (\<lambda>i c. snd (with_journal (snd (with_rm c i (\<lambda>rm d. rm_format rm d 0 (ck_s clk)))) i journal_reset)) [0..<c_n_devs c] c;
         c = fold (\<lambda>i c.
           let c = c\<lparr>c_rms := (c_rms c)[i := (c_rms c ! i)\<lparr>rm_epoch_counter := rm_epoch_counter (c_rms c ! i) + 1\<rparr>]\<rparr>;
               c = rm_set_sh c i 0 (\<lambda>sh. sh\<lparr>rs_epoch := rm_epoch_counter (c_rms c ! i), rs_base_ts := ck_s clk,
                     rs_watermark_page := 1, rs_state := KV_RG_OPEN\<rparr>)
           in cache_sb_write clk (snd (cache_write_header c i 0)) i) [0..<c_n_devs c] c
     in fold (\<lambda>i c. w_upd c i (\<lambda>w. w\<lparr>sw_region := 0, sw_next_page := 1,
          sw_confirmed_page := of_nat (page_base (c_rms c ! i) 0) + 1\<rparr>)) [0..<c_n_devs c] c)"

section \<open>Closing\<close>

text \<open>\<open>rounds i\<close> are the rounds of the thread of writer \<open>i\<close> until it ends; the result is what is freed of
  the tree and the DRAM cache, with the cache emptied.\<close>

definition cache_stop_writers :: "clock \<Rightarrow> (nat \<Rightarrow> (clock \<times> user_mem) list) \<Rightarrow> cache \<Rightarrow> cache option" where
  "cache_stop_writers clk rounds c =
    fold_opt (\<lambda>i c. shard_writer_stop clk (rounds i) c i) [0..<c_n_devs c] (gc_stop (cache_signal_stop c))"

definition cache_close_impl :: "clock \<Rightarrow> (nat \<Rightarrow> (clock \<times> user_mem) list) \<Rightarrow> cache \<Rightarrow> ((block list \<times> u64 list) \<times> cache) option" where
  "cache_close_impl clk rounds c =
    (case cache_stop_writers clk rounds c of
       None \<Rightarrow> None
     | Some c \<Rightarrow>
         (case dram_destroy (c_dram c) of
            None \<Rightarrow> None
          | Some ext \<Rightarrow>
              (let c = c\<lparr>c_dram := None\<rparr>;
                   c = fold (\<lambda>i c. c\<lparr>c_journals := (c_journals c)[i := journal_destroy (c_journals c ! i)],
                         c_rms := (c_rms c)[i := rm_destroy (c_rms c ! i)],
                         c_devs := (c_devs c)[i := (if dv_fd (c_devs c ! i) \<ge> 0 then dev_close (c_devs c ! i) else c_devs c ! i)]\<rparr>)
                       [0..<c_n_devs c] c;
                   freed = radix_destroy (c_radix c);
                   c = c\<lparr>c_side := side_destroy (c_side c), c_shapes := shape_pool_destroy (c_shapes c)\<rparr>;
                   c = dfree_destroy c
               in Some ((freed, ext), c\<lparr>c_tomb_keys := None, c_tomb_cf := None\<rparr>))))"

section \<open>Opening\<close>

record dev_setup =
  du_path :: os_path
  du_size :: "u64 option"
  du_regular :: bool
  du_grow_ok :: bool
  du_data :: bytes
  du_q_ok :: bool
  du_b0_ok :: bool
  du_b1_ok :: bool
  du_t_ok :: bool
  du_j_ok :: bool

text \<open>Creating or growing the file; \<open>du_grow_ok\<close> says that opening and truncating it worked.\<close>

definition cache_prep_device :: "dev_setup \<Rightarrow> u64 \<Rightarrow> int" where
  "cache_prep_device s pages =
    (case du_size s of
       None \<Rightarrow> if du_grow_ok s then KV_EOK else - KV_EIO
     | Some sz \<Rightarrow>
         if \<not> du_regular s then - KV_EINVAL
         else if sz div of_nat KV_PAGE_SIZE < pages then (if du_grow_ok s then KV_EOK else - KV_EIO)
         else KV_EOK)"

text \<open>One device: prepared, opened, checked, with its region manager, journal and writer.\<close>

definition open_device :: "kv_config \<Rightarrow> u64 \<Rightarrow> nat \<Rightarrow> dev_setup \<Rightarrow> cache \<Rightarrow> int \<times> cache" where
  "open_device cfg region_pages i s c =
    (let dev_total = of_nat kRegionBasePage + ucast (cf_region_cnt cfg) * region_pages + ucast (cf_journal_pages cfg);
         journal_page = dev_total - ucast (cf_journal_pages cfg);
         rc = cache_prep_device s dev_total
     in if rc \<noteq> KV_EOK then (rc, c)
        else case dev_open (c_devs c ! i) (du_path s) (int i) of (rc, d) \<Rightarrow>
          (let d = d\<lparr>dv_data := du_data s @ zeros (unat dev_total * KV_PAGE_SIZE - length (du_data s))\<rparr>;
               c = c\<lparr>c_devs := (c_devs c)[i := d]\<rparr>;
               bs = dg_logical_bs (dv_geom d);
               bs0 = dg_logical_bs (dv_geom (c_devs c ! 0))
           in if rc \<noteq> KV_EOK then (rc, c)
              else if bs > of_nat KV_PAGE_SIZE then (- KV_EINVAL, c)
              else if i > 0 \<and> bs0 \<noteq> 0 \<and> bs \<noteq> 0 \<and> bs \<noteq> bs0 then (- KV_EINVAL, c)
              else
                (let c = c\<lparr>c_rms := (c_rms c)[i := rm_init (cf_region_cnt cfg) region_pages],
                       c_journals := (c_journals c)[i := snd (journal_init (du_j_ok s) d (unat journal_page) (unat (cf_journal_pages cfg)))]\<rparr>;
                     c = w_upd c i (\<lambda>w. w\<lparr>sw_region := 0, sw_next_page := 1\<rparr>)
                 in shard_writer_start (du_q_ok s) (du_b0_ok s) (du_b1_ok s) (du_t_ok s) c i)))"

primrec open_devices :: "kv_config \<Rightarrow> u64 \<Rightarrow> nat \<Rightarrow> dev_setup list \<Rightarrow> cache \<Rightarrow> int \<times> cache" where
  "open_devices cfg region_pages i [] c = (KV_EOK, c)"
| "open_devices cfg region_pages i (s # ss) c =
    (case open_device cfg region_pages i s c of (rc, c) \<Rightarrow>
       if rc \<noteq> KV_EOK then (rc, c) else open_devices cfg region_pages (Suc i) ss c)"

definition kv_metrics0 :: kv_metrics where
  "kv_metrics0 = \<lparr>km_put_ack = kv_hist_init kv_hist0, km_get = kv_hist_init kv_hist0\<rparr>"

definition cache_stat0 :: cache_stat where
  "cache_stat0 = \<lparr>cs_put_reqs = 0, cs_get_hits = 0, cs_get_misses = 0, cs_batches = 0, cs_bytes_written = 0,
    cs_bytes_migrated = 0, cs_rotations = 0, cs_drops = 0, cs_puts_err = 0, cs_payload_bytes = 0, cs_puts_replica = 0,
    cs_gc_triggers = 0, cs_gc_evicted_leaves = 0\<rparr>"

definition batch_buf0 :: batch_buf where
  "batch_buf0 = \<lparr>bb_buf = [], bb_used = 0, bb_start_page = 0, bb_npages = 0, bb_reqs = [], bb_ictx = io_ctx0, bb_busy = False,
    bb_last_page = 0, bb_region = 0, bb_submit_ns = 0\<rparr>"

definition shard_writer0 :: shard_writer where
  "shard_writer0 = \<lparr>sw_region = 0, sw_next_page = 0, sw_q = mpsc_ring0, sw_batch = [batch_buf0, batch_buf0], sw_cur_buf = 0,
    sw_stop = False, sw_started = False, sw_since_wm = 0, sw_confirmed_page = 0, sw_stat_bytes_written = 0,
    sw_stat_stripe_parts = 0, sw_stat_q_max = 0, sw_h_batch = kv_hist0\<rparr>"

definition region_mgr0 :: region_mgr where
  "region_mgr0 = \<lparr>rm_region_cnt = 0, rm_region_size_pages = 0, rm_rg = [], rm_cur_open = -1, rm_epoch_counter = 0\<rparr>"

text \<open>The tombstones: a table of a power of two of keys, with the cuckoo filter \<open>cf\<close> when it is built in.\<close>

definition open_tombs :: "kv_cuckoo option \<Rightarrow> u32 \<Rightarrow> cache \<Rightarrow> cache" where
  "open_tombs cf tcap c =
    (if tcap \<noteq> 0 \<and> tcap AND (tcap - 1) = 0
     then c\<lparr>c_tomb_cf := cf, c_tomb_keys := Some (replicate (unat tcap) 0), c_tomb_mask := tcap - 1\<rparr> else c)"

definition cache_fresh :: "kv_config \<Rightarrow> kv_layout \<Rightarrow> radix_tree \<Rightarrow> dram_cache option \<Rightarrow> device \<Rightarrow> nat \<Rightarrow> bytes option \<Rightarrow> cache" where
  "cache_fresh cfg ly t dram dev0 n ckpt =
    \<lparr>c_cfg = cfg, c_layout = ly, c_n_devs = n, c_devs = replicate n dev0, c_rms = replicate n region_mgr0,
     c_journals = replicate n (snd (journal_init False dev0 0 0)), c_writers = replicate n shard_writer0, c_radix = t,
     c_side = side_init, c_shapes = [], c_leaves = [], c_dfree = [], c_ctxs = [], c_acks = [], c_ver_counter = 0,
     c_stop = False, c_gc_stop = False, c_replaying = False, c_ckpt_wanted = False, c_last_decay_ms = 0, c_last_ttl_ms = 0,
     c_last_ckpt_ms = 0, c_stat = cache_stat0, c_gc_draining = False, c_tomb_keys = None, c_tomb_mask = 0, c_tomb_cf = None,
     c_dram = dram, c_m = kv_metrics0, c_ckpt_file = ckpt\<rparr>"

text \<open>What opening depends on: the clock, the allocation script of the tree, the result of \<open>mmap\<close> for the DRAM
  cache, the closed device, the cuckoo filter, whether the collector's thread starts, the standard I/O outcomes of the
  checkpoint and the checkpoint file.\<close>

record open_env =
  oe_clk :: clock
  oe_mem :: "bool list"
  oe_map :: map_outcome
  oe_dev0 :: device
  oe_cuckoo :: "kv_cuckoo option"
  oe_gc_ok :: bool
  oe_ckpt_os :: "bool list"
  oe_ckpt :: "bytes option"

definition open_finish :: "open_env \<Rightarrow> cache \<Rightarrow> (int \<times> cache option) option" where
  "open_finish env c =
    (case gc_start (oe_gc_ok env) (oe_clk env) c of (rc, c) \<Rightarrow>
       if rc \<noteq> KV_EOK then Some (- KV_EIO, None)
       else map_option (\<lambda>(_, c). (KV_EOK, Some c)) (cache_checkpoint (oe_ckpt_os env) c))"

definition cache_open_impl :: "open_env \<Rightarrow> dev_setup list \<Rightarrow> kv_config option \<Rightarrow> (int \<times> cache option) option" where
  "cache_open_impl env devs cfg_in =
    (if devs = [] then Some (- KV_EINVAL, None)
     else case open_config cfg_in of
            Inl rc \<Rightarrow> Some (rc, None)
          | Inr (cfg, ly) \<Rightarrow>
              (case radix_init (oe_mem env) of
                 None \<Rightarrow> None
               | Some t \<Rightarrow>
                   (let dram = (if cf_dram_cache_bytes cfg \<noteq> 0 then
                          (case dram_init (oe_map env) (cf_dram_cache_bytes cfg) (cf_dram_entry_max_bytes cfg) (cf_dram_alloc_backend cfg) of
                             (rc, d) \<Rightarrow> if rc = KV_EOK then d else None) else None);
                        region_pages = open_region_pages cfg ly (map du_size devs);
                        cfg = cfg\<lparr>cf_region_size_pages := region_pages\<rparr>;
                        c = open_tombs (oe_cuckoo env) (cf_evict_tomb_cap cfg)
                              (cache_fresh cfg ly t dram (oe_dev0 env) (length devs) (oe_ckpt env))
                    in case open_devices cfg region_pages 0 devs c of (rc, c) \<Rightarrow>
                         if rc \<noteq> KV_EOK then Some (rc, None)
                         else case with_rm c 0 rm_load of ((rc, sb), c) \<Rightarrow>
                           if rc \<noteq> KV_EOK then open_finish env (format_all (oe_clk env) c)
                           else Option.bind (recover (oe_clk env) (sb_cur_epoch (the sb)) c) (open_finish env))))"

end
