(* ===== verification/KV_Llama.thy ===== *)
theory KV_Llama
  imports KV_Open
begin

text \<open>
  The llama.cpp adapter (\<open>adapters/llama/src/llama-kvcache.cpp\<close>): the whole serialised state of a
  sequence is stored as one opaque record under a key derived from the sequence id.  The three
  functions of llama.cpp the adapter calls are parameters: the size of a sequence's state, its
  bytes (with the number of bytes written), and the restoring of a state, which returns the number
  of bytes it took.  A sequence id is the word it converts to.  The caller's buffer with the serialised state is buffer 0 of the put.
\<close>

section \<open>Keys\<close>

definition next_pow2 :: "u32 \<Rightarrow> u32" where
  "next_pow2 v =
    (let v = v - 1; v = v OR drop_bit 1 v; v = v OR drop_bit 2 v; v = v OR drop_bit 4 v;
         v = v OR drop_bit 8 v; v = v OR drop_bit 16 v in v + 1)"

definition make_prefix_id :: "u64 \<Rightarrow> u32 list \<Rightarrow> u64" where
  "make_prefix_id seq_id tokens =
    (let h = foldl (\<lambda>h t. (h XOR ucast t) * 0x100000001b3) (0xcbf29ce484222325 XOR seq_id) tokens;
         h = (h XOR drop_bit 30 h) * 0xbf58476d1ce4e5b9;
         h = (h XOR drop_bit 27 h) * 0x94d049bb133111eb
     in h XOR drop_bit 31 h)"

definition make_tokens :: "u64 \<Rightarrow> nat \<Rightarrow> u32 list" where
  "make_tokens seq_id n =
    map (\<lambda>i. ucast (drop_bit 16 (seq_id * 2654435761 + of_nat i * 1103515245 + 12345)) AND 0x7FFFFFFF) [0..<n]"

definition seq_tokens :: "u64 \<Rightarrow> u32 list" where
  "seq_tokens seq_id = make_tokens seq_id KV_TOKENS_PER_GROUP"

definition seq_prefix :: "u64 \<Rightarrow> u64" where
  "seq_prefix seq_id = make_prefix_id seq_id (seq_tokens seq_id)"

section \<open>Configuration\<close>

record llama_kvcache_cfg =
  lk_tokens_per_group :: u32
  lk_region_cnt :: u32
  lk_region_size_pages :: u64
  lk_epoch_secs :: u32
  lk_gc_start_pct :: u32
  lk_gc_stop_pct :: u32
  lk_sync_mode :: bool
  lk_metrics_level :: u32

definition llama_kvcache_cfg_default :: llama_kvcache_cfg where
  "llama_kvcache_cfg_default = \<lparr>lk_tokens_per_group = of_nat KV_TOKENS_PER_GROUP, lk_region_cnt = 6, lk_region_size_pages = 0,
    lk_epoch_secs = 1800, lk_gc_start_pct = 80, lk_gc_stop_pct = 70, lk_sync_mode = False, lk_metrics_level = 0\<rparr>"

definition llama_config :: "llama_kvcache_cfg option \<Rightarrow> kv_config" where
  "llama_config cfg =
    (let d = kv_config_default;
         d = (case cfg of
                None \<Rightarrow> d
              | Some l \<Rightarrow> d\<lparr>cf_region_cnt := (if lk_region_cnt l \<noteq> 0 then lk_region_cnt l else cf_region_cnt d),
                  cf_region_size_pages := (if lk_region_size_pages l \<noteq> 0 then lk_region_size_pages l else cf_region_size_pages d),
                  cf_epoch_secs := (if lk_epoch_secs l \<noteq> 0 then lk_epoch_secs l else cf_epoch_secs d),
                  cf_gc_start_pct := (if lk_gc_start_pct l \<noteq> 0 then lk_gc_start_pct l else cf_gc_start_pct d),
                  cf_gc_stop_pct := (if lk_gc_stop_pct l \<noteq> 0 then lk_gc_stop_pct l else cf_gc_stop_pct d),
                  cf_sync_mode := lk_sync_mode l, cf_metrics_level := ucast (lk_metrics_level l)\<rparr>)
     in d\<lparr>cf_max_layers := 1\<rparr>)"

text \<open>\<open>uris_ok\<close> is the outcome of copying the device names.\<close>

definition llama_kvcache_ctx_init :: "bool \<Rightarrow> open_env \<Rightarrow> dev_setup list \<Rightarrow> llama_kvcache_cfg option \<Rightarrow> (int \<times> cache option) option" where
  "llama_kvcache_ctx_init uris_ok env devs cfg =
    (if devs = [] then Some (- KV_EINVAL, None)
     else if \<not> uris_ok then Some (- KV_ENOMEM, None)
     else cache_open_impl env devs (Some (llama_config cfg)))"

section \<open>Saving and restoring\<close>

text \<open>The outcomes of the allocations are one script: the state, the copy of the tokens when there are any, and the two
  blocks of the callback; \<open>ack\<close> names the caller.\<close>

definition llama_kvcache_save :: "(u64 \<Rightarrow> nat) \<Rightarrow> (u64 \<Rightarrow> nat \<times> bytes) \<Rightarrow> bool list \<Rightarrow> clock \<Rightarrow> bytes \<Rightarrow> cache \<Rightarrow> u64 \<Rightarrow> u32 list \<Rightarrow>
    nat option \<Rightarrow> (int \<times> cache) option" where
  "llama_kvcache_save get_size get_data mem clk slack c seq_id tokens ack =
    (let state_size = get_size seq_id
     in if state_size = 0 then Some (- KV_ENOENT, c)
        else case alloc mem of (ok, mem) \<Rightarrow>
          if \<not> ok then Some (- KV_ENOMEM, c)
          else case get_data seq_id of (got, state) \<Rightarrow>
            if got = 0 then Some (- KV_EREAD, c)
            else if False \<in> set (take (if tokens \<noteq> [] then 3 else 2) mem) then Some (- KV_ENOMEM, c)
            else cache_put_impl clk (\<lambda>_. state) slack c (seq_prefix seq_id) 0 (seq_tokens seq_id) (of_nat KV_TOKENS_PER_GROUP) 0 1
                   [\<lparr>pr_base = Caller 0, pr_off = 0, pr_len = of_nat state_size\<rparr>] ack)"

definition llama_kvcache_restore :: "(bytes \<Rightarrow> u64 \<Rightarrow> nat) \<Rightarrow> get_env \<Rightarrow> cache \<Rightarrow> u64 \<Rightarrow> u64 \<Rightarrow> (nat \<times> cache) option" where
  "llama_kvcache_restore set_data env c seq_id dest_seq_id =
    map_option (\<lambda>((rc, res), c).
        if rc \<noteq> KV_EOK then (0, c)
        else case find (\<lambda>r. dx_layer_id r = 0) (gr_recs res) of
               None \<Rightarrow> (0, c)
             | Some r \<Rightarrow> (set_data (bslice (unat (dx_off r)) (unat (dx_len r)) (the (gr_buf res))) dest_seq_id, c))
      (cache_get env c (seq_prefix seq_id) (seq_tokens seq_id) (of_nat KV_TOKENS_PER_GROUP))"

definition llama_kvcache_has :: "get_env \<Rightarrow> cache \<Rightarrow> u64 \<Rightarrow> (bool \<times> cache) option" where
  "llama_kvcache_has env c seq_id =
    map_option (\<lambda>((rc, res), c). (rc = KV_EOK, c))
      (cache_get env c (seq_prefix seq_id) (seq_tokens seq_id) (of_nat KV_TOKENS_PER_GROUP))"

definition llama_kvcache_evict :: "clock \<Rightarrow> cache \<Rightarrow> u64 \<Rightarrow> (int \<times> cache) option" where
  "llama_kvcache_evict clk c seq_id =
    cache_evict_impl clk c (seq_prefix seq_id) (seq_tokens seq_id) (of_nat KV_TOKENS_PER_GROUP)"

text \<open>The values the diagnostics print.\<close>

definition llama_kvcache_stats :: "cache \<Rightarrow> u64 list" where
  "llama_kvcache_stats c = map (cache_stats_impl c)
    [''put_reqs'', ''get_hits'', ''get_misses'', ''batches'', ''bytes_written'', ''bytes_migrated'', ''rotations'', ''drops'', ''put_errs'']"

end
