(* ===== verification/KV_Metrics.thy ===== *)
theory KV_Metrics
  imports KV_Api
begin

text \<open>
  The metrics snapshot (\<open>src/metrics/metrics.cpp\<close>, lines 85 to 162): the counters of the cache, of
  the writers and of the journals gathered into one record, and the histograms merged.  The four
  ratios are floating-point quotients of these counters and are left out, as is the printing.
\<close>

record dev_snap =
  dp_bytes_written :: u64
  dp_stripe_parts :: u64
  dp_q_backlog :: u64
  dp_q_max :: u64
  dp_io_errs :: u64

record kv_metrics_snap =
  sn_wall_ns :: u64
  sn_puts :: u64
  sn_puts_err :: u64
  sn_gets_hit :: u64
  sn_gets_miss :: u64
  sn_batches :: u64
  sn_bytes_written :: u64
  sn_dev :: "dev_snap list"
  sn_payload_bytes :: u64
  sn_meta_bytes_written :: u64
  sn_bytes_migrated :: u64
  sn_rotations :: u64
  sn_dfree_depth :: u64
  sn_drops :: u64
  sn_leaves :: u64
  sn_journal_dropped :: u64
  sn_journal_fill_pct :: u64
  sn_ver_counter :: u64
  sn_replica_puts :: u64
  sn_io_errs_total :: u64
  sn_h_put_ack :: kv_hist
  sn_h_batch_io :: kv_hist
  sn_h_get :: kv_hist

definition dev_snap_of :: "cache \<Rightarrow> nat \<Rightarrow> dev_snap" where
  "dev_snap_of c i =
    (let w = c_writers c ! i
     in \<lparr>dp_bytes_written = sw_stat_bytes_written w, dp_stripe_parts = sw_stat_stripe_parts w,
         dp_q_backlog = mq_tail (sw_q w) - mq_head (sw_q w), dp_q_max = sw_stat_q_max w,
         dp_io_errs = (if dv_fd (c_devs c ! i) \<ge> 0 then ucast (ds_io_errs (dv_stats (c_devs c ! i))) else 0)\<rparr>)"

definition journal_fill :: "journal \<Rightarrow> u64" where
  "journal_fill j = (if j_journal_pages j \<noteq> 0 then of_nat (j_cur_page j) * 100 div of_nat (j_journal_pages j) else 0)"

definition kv_metrics_snapshot :: "clock \<Rightarrow> cache \<Rightarrow> kv_metrics_snap" where
  "kv_metrics_snapshot clk c =
    (let n = min (c_n_devs c) KV_METRICS_MAX_DEVS;
         s = c_stat c;
         js = map (\<lambda>i. c_journals c ! i) [0..<n];
         empty = kv_hist_clear kv_hist0
     in \<lparr>sn_wall_ns = ck_ns clk, sn_puts = cs_put_reqs s, sn_puts_err = cs_puts_err s, sn_gets_hit = cs_get_hits s,
         sn_gets_miss = cs_get_misses s, sn_batches = cs_batches s, sn_bytes_written = cs_bytes_written s,
         sn_dev = map (dev_snap_of c) [0..<n], sn_payload_bytes = cs_payload_bytes s,
         sn_meta_bytes_written = sum_list (map j_bytes_written js), sn_bytes_migrated = cs_bytes_migrated s,
         sn_rotations = cs_rotations s, sn_dfree_depth = of_nat (length (c_dfree c)), sn_drops = cs_drops s,
         sn_leaves = ucast (rt_n_leaves (c_radix c)), sn_journal_dropped = sum_list (map (\<lambda>j. ucast (j_dropped j)) js),
         sn_journal_fill_pct = fold (\<lambda>j m. if journal_fill j > m then journal_fill j else m) js 0,
         sn_ver_counter = c_ver_counter c, sn_replica_puts = cs_puts_replica s,
         sn_io_errs_total = sum_list (map (\<lambda>i. dp_io_errs (dev_snap_of c i)) [0..<n]),
         sn_h_put_ack = kv_hist_merge empty (km_put_ack (c_m c)),
         sn_h_batch_io = fold (\<lambda>i h. kv_hist_merge h (sw_h_batch (c_writers c ! i))) [0..<n] empty,
         sn_h_get = kv_hist_merge empty (km_get (c_m c))\<rparr>)"

end
