(* ===== verification/KV_Store.thy ===== *)
theory KV_Store
  imports KV_Api
begin

text \<open>
  What the operations leave alone on the devices.  \<open>io_ok\<close> says of a running cache that every
  device works and is large enough for its regions and the journal after them.  Under it the
  journal touches only the journal's pages and the header writes only header pages, so the data
  pages of a published leaf stay as the writer left them, and a get that finds the leaf reads
  exactly what was stored.
\<close>

section \<open>Device frames\<close>

text \<open>\<open>d'\<close> is \<open>d\<close> but for the pages in \<open>S\<close> and the script of the kernel.\<close>

definition dev_upto :: "nat set \<Rightarrow> device \<Rightarrow> device \<Rightarrow> bool" where
  "dev_upto S d d' \<longleftrightarrow> dev_ok d' \<and> dev_pages d' = dev_pages d \<and> dv_dev_id d' = dv_dev_id d \<and>
    (\<forall>j < dev_pages d. j \<notin> S \<longrightarrow> dev_page d' j = dev_page d j)"

lemma dev_upto_refl: "dev_ok d \<Longrightarrow> dev_upto S d d"
  by (simp add: dev_upto_def)

lemma dev_upto_trans: "dev_upto S d d' \<Longrightarrow> dev_upto S d' d'' \<Longrightarrow> dev_upto S d d''"
  by (simp add: dev_upto_def)

lemma dev_upto_mono: "dev_upto S d d' \<Longrightarrow> S \<subseteq> T \<Longrightarrow> dev_upto T d d'"
  by (auto simp: dev_upto_def)

lemma write_page_upto:
  assumes "dev_ok d" and "i < dev_pages d" and "length b = KV_PAGE_SIZE" and "i \<in> S"
  shows "\<exists>d'. write_pages d i b 1 = (KV_EOK, d') \<and> dev_upto S d d'"
  using write_page_ok [OF assms(1-3)] assms(4) by (auto simp: dev_upto_def)

section \<open>The journal\<close>

text \<open>The journal's cursor and staging page, whatever the records are.\<close>

definition journal_geo :: "journal \<Rightarrow> bool" where
  "journal_geo j \<longleftrightarrow> dev_ok (j_dev j) \<and> j_journal_page j + j_journal_pages j \<le> dev_pages (j_dev j) \<and>
    j_cur_page j \<le> j_journal_pages j \<and> (j_cur_page j = j_journal_pages j \<longrightarrow> j_cur_off j = 0) \<and>
    length (j_stage j) = KV_PAGE_SIZE"

definition journal_area :: "journal \<Rightarrow> nat set" where
  "journal_area j = {j_journal_page j..<j_journal_page j + j_journal_pages j}"

text \<open>The journal moved on: only pages of its area and its own cursor changed.\<close>

definition journal_upto :: "journal \<Rightarrow> journal \<Rightarrow> bool" where
  "journal_upto j j' \<longleftrightarrow> journal_geo j' \<and> j_journal_page j' = j_journal_page j \<and>
    j_journal_pages j' = j_journal_pages j \<and> dev_upto (journal_area j) (j_dev j) (j_dev j')"

lemma journal_upto_refl: "journal_geo j \<Longrightarrow> journal_upto j j"
  by (simp add: journal_upto_def dev_upto_refl journal_geo_def)

lemma journal_upto_trans: "journal_upto j j' \<Longrightarrow> journal_upto j' j'' \<Longrightarrow> journal_upto j j''"
  by (auto simp: journal_upto_def journal_area_def intro: dev_upto_trans)

lemma journal_flush_page_upto:
  assumes "journal_geo j"
  shows "\<exists>j'. journal_flush_page j = (KV_EOK, j') \<and> journal_upto j j' \<and> j_cur_page j' = j_cur_page j \<and>
    (j_cur_off j \<noteq> 0 \<longrightarrow> j_cur_page j' < j_journal_pages j')"
proof (cases "j_cur_off j = 0")
  case True
  with assms journal_upto_refl show ?thesis by (simp add: journal_flush_page_def)
next
  case False
  then have lt: "j_cur_page j < j_journal_pages j"
    using assms by (metis journal_geo_def le_neq_implies_less)
  have a: "dev_ok (j_dev j)" "j_journal_page j + j_cur_page j < dev_pages (j_dev j)"
    "length (j_stage j) = KV_PAGE_SIZE" "j_journal_page j + j_cur_page j \<in> journal_area j"
    using assms lt by (auto simp: journal_geo_def journal_area_def)
  obtain d' where d': "write_pages (j_dev j) (j_journal_page j + j_cur_page j) (j_stage j) 1 = (KV_EOK, d')"
      "dev_upto (journal_area j) (j_dev j) d'" using write_page_upto [OF a] by blast
  have "journal_upto j (j\<lparr>j_dev := d'\<rparr>)"
    using assms d'(2) by (simp add: journal_upto_def journal_geo_def) (simp add: dev_upto_def)
  with False d'(1) lt show ?thesis by (simp add: journal_flush_page_def)
qed

lemma journal_next_page_upto:
  assumes "journal_geo j" and "j_cur_off j \<noteq> 0"
  shows "\<exists>j'. journal_next_page j = (KV_EOK, j') \<and> journal_upto j j' \<and> j_cur_off j' = 0"
proof -
  obtain j1 where j1: "journal_flush_page j = (KV_EOK, j1)" "journal_upto j j1" "j_cur_page j1 < j_journal_pages j1"
    using journal_flush_page_upto [OF assms(1)] assms(2) by blast
  then have "journal_upto j (j1\<lparr>j_cur_page := j_cur_page j1 + 1, j_cur_off := 0, j_stage := zeros KV_PAGE_SIZE\<rparr>)"
    by (simp add: journal_upto_def journal_geo_def)
  with j1(1) show ?thesis by (simp add: journal_next_page_def)
qed

lemma length_jrec_image: "length (jrec_image r dc lens path) \<le> jrec_total r"
proof -
  have "length (enc_jrec r) = KV_JOURNAL_REC_SIZE" by (simp add: KV_JOURNAL_REC_SIZE_def enc_jrec_def)
  then show ?thesis by (cases lens; cases path) (auto simp: jrec_image_def jrec_total_def min_def)
qed

lemma journal_append_upto:
  assumes "journal_geo j"
  shows "\<exists>rc j'. journal_append j r dc lens path = (rc, j') \<and> journal_upto j j'"
proof -
  define r' where "r' = (let r = r\<lparr>jr_dev_id := of_int (dv_dev_id (j_dev j)), jr_crc32 := 0\<rparr>
    in r\<lparr>jr_crc32 := jrec_crc r dc lens path\<rparr>)"
  have dropped: "journal_upto j (j'\<lparr>j_dropped := n\<rparr>)" if "journal_upto j j'" for j' n
    using that by (simp add: journal_upto_def journal_geo_def)
  let ?jn = "if j_cur_off j + jrec_total r' > KV_PAGE_SIZE then journal_next_page j else (KV_EOK, j)"
  have eq: "journal_append j r dc lens path =
      (if jrec_total r' > KV_PAGE_SIZE then (- KV_EINVAL, j)
       else if j_cur_page j \<ge> j_journal_pages j then (KV_EFULL, j\<lparr>j_dropped := j_dropped j + 1\<rparr>)
       else case ?jn of (rc, j) \<Rightarrow>
         if rc \<noteq> KV_EOK then (rc, j)
         else if j_cur_page j \<ge> j_journal_pages j then (KV_EFULL, j\<lparr>j_dropped := j_dropped j + 1\<rparr>)
         else (KV_EOK, j\<lparr>j_stage := overwrite (j_stage j) (j_cur_off j) (jrec_image r' dc lens path),
           j_cur_off := j_cur_off j + jrec_total r', j_bytes_written := j_bytes_written j + of_nat (jrec_total r')\<rparr>))"
    unfolding journal_append_def Let_def r'_def by (rule refl)
  show ?thesis
  proof (cases "jrec_total r' > KV_PAGE_SIZE \<or> j_cur_page j \<ge> j_journal_pages j")
    case True
    with dropped [OF journal_upto_refl [OF assms]] journal_upto_refl [OF assms] show ?thesis by (auto simp: eq)
  next
    case False
    obtain j1 where j1: "?jn = (KV_EOK, j1)" "journal_upto j j1" "j_cur_off j1 + jrec_total r' \<le> KV_PAGE_SIZE"
    proof (cases "j_cur_off j + jrec_total r' > KV_PAGE_SIZE")
      case True
      with False have "j_cur_off j \<noteq> 0" by auto
      with journal_next_page_upto [OF assms] True False that show ?thesis by auto
    qed (use that [of j] journal_upto_refl [OF assms] in auto)
    have "length (overwrite (j_stage j1) (j_cur_off j1) (jrec_image r' dc lens path)) = length (j_stage j1)"
      using j1(2,3) length_jrec_image [of r' dc lens path] by (intro length_overwrite) (simp add: journal_upto_def journal_geo_def)
    with j1(2) have "journal_upto j (j1\<lparr>j_stage := overwrite (j_stage j1) (j_cur_off j1) (jrec_image r' dc lens path),
           j_cur_off := j_cur_off j1 + jrec_total r', j_bytes_written := j_bytes_written j1 + of_nat (jrec_total r')\<rparr>)"
      if "j_cur_page j1 < j_journal_pages j1"
      using that by (simp add: journal_upto_def journal_geo_def)
    with j1 False dropped [OF j1(2)] show ?thesis by (simp add: eq)
  qed
qed

section \<open>The devices of a running cache\<close>

definition io_ok :: "cache \<Rightarrow> bool" where
  "io_ok c \<longleftrightarrow> length (c_devs c) = c_n_devs c \<and> length (c_rms c) = c_n_devs c \<and> length (c_journals c) = c_n_devs c \<and>
    (\<forall>i < c_n_devs c. rm_fits (c_rms c ! i) (c_devs c ! i) \<and> journal_geo ((c_journals c ! i)\<lparr>j_dev := c_devs c ! i\<rparr>) \<and>
      kRegionBasePage + unat (rm_region_cnt (c_rms c ! i)) * unat (rm_region_size_pages (c_rms c ! i)) \<le>
        j_journal_page (c_journals c ! i))"

text \<open>The pages that are not data: the superblocks, the region headers and what follows the regions.\<close>

definition meta_area :: "region_mgr \<Rightarrow> nat set" where
  "meta_area rm = {..<kRegionBasePage} \<union> page_base rm ` {..<unat (rm_region_cnt rm)} \<union>
    {kRegionBasePage + unat (rm_region_cnt rm) * unat (rm_region_size_pages rm)..}"

text \<open>A step that keeps every data page.\<close>

definition io_step :: "cache \<Rightarrow> cache \<Rightarrow> bool" where
  "io_step c c' \<longleftrightarrow> io_ok c' \<and> c_n_devs c' = c_n_devs c \<and> same_geom (c_rms c) (c_rms c') \<and>
    (\<forall>i < c_n_devs c. dev_upto (meta_area (c_rms c ! i)) (c_devs c ! i) (c_devs c' ! i))"

lemma io_okD:
  assumes "io_ok c"
  shows "length (c_devs c) = c_n_devs c" "length (c_rms c) = c_n_devs c" "length (c_journals c) = c_n_devs c"
    "\<And>i. i < c_n_devs c \<Longrightarrow> rm_fits (c_rms c ! i) (c_devs c ! i)"
    "\<And>i. i < c_n_devs c \<Longrightarrow> dev_ok (c_devs c ! i)"
    "\<And>i. i < c_n_devs c \<Longrightarrow> journal_geo ((c_journals c ! i)\<lparr>j_dev := c_devs c ! i\<rparr>)"
    "\<And>i. i < c_n_devs c \<Longrightarrow> kRegionBasePage + unat (rm_region_cnt (c_rms c ! i)) * unat (rm_region_size_pages (c_rms c ! i)) \<le>
      j_journal_page (c_journals c ! i)"
  using assms by (auto simp: io_ok_def rm_fits_def)

lemma meta_area_geom:
  "rm_region_cnt rm' = rm_region_cnt rm \<Longrightarrow> rm_region_size_pages rm' = rm_region_size_pages rm \<Longrightarrow>
    meta_area rm' = meta_area rm"
  by (simp add: meta_area_def page_base_def)

lemma io_step_refl: "io_ok c \<Longrightarrow> io_step c c"
  by (auto simp: io_step_def dev_upto_refl dest: io_okD)

lemma io_step_trans:
  assumes "io_step a b" and "io_step b c"
  shows "io_step a c"
proof -
  have "length (c_rms a) = c_n_devs a"
    using assms(1) io_okD(2) [of b] by (simp add: io_step_def same_geom_def)
  moreover have "meta_area (c_rms b ! i) = meta_area (c_rms a ! i)" if "i < length (c_rms a)" for i
    using assms(1) that by (intro meta_area_geom) (simp_all add: io_step_def same_geom_def)
  ultimately show ?thesis
    using assms by (auto simp: io_step_def intro: same_geom_trans dev_upto_trans)
qed

text \<open>Steps that leave devices and journals alone, but for the journal's counters.\<close>

lemma io_step_frame:
  assumes "io_ok c" and "c_devs c' = c_devs c" and "c_journals c' = c_journals c" and "c_n_devs c' = c_n_devs c"
    and "same_geom (c_rms c) (c_rms c')"
  shows "io_step c c'"
proof -
  have "io_ok c'"
    using assms by (auto simp: io_ok_def same_geom_def rm_fits_def)
  with assms show ?thesis by (auto simp: io_step_def dev_upto_refl dest: io_okD)
qed

text \<open>A step of one device and its journal.\<close>

lemma io_step_dev:
  assumes ok: "io_ok c" and i: "i < c_n_devs c" and d: "dev_upto (meta_area (c_rms c ! i)) (c_devs c ! i) d"
    and j: "journal_geo (j\<lparr>j_dev := d\<rparr>)" "j_journal_page j = j_journal_page (c_journals c ! i)"
    and c': "c_devs c' = (c_devs c)[i := d]" "c_journals c' = (c_journals c)[i := j]" "c_n_devs c' = c_n_devs c"
      "same_geom (c_rms c) (c_rms c')"
  shows "io_step c c'"
proof -
  note D = io_okD [OF ok]
  have fits: "rm_fits (c_rms c' ! k) (c_devs c' ! k)" if "k < c_n_devs c" for k
    using that D(4) [OF that] D(1,2) d c'(1,4) i by (cases "k = i") (auto simp: rm_fits_def same_geom_def dev_upto_def)
  have "io_ok c'"
    unfolding io_ok_def
  proof (intro conjI allI impI)
    fix k assume k: "k < c_n_devs c'"
    then show "rm_fits (c_rms c' ! k) (c_devs c' ! k)" using fits c'(3) by simp
    show "journal_geo ((c_journals c' ! k)\<lparr>j_dev := c_devs c' ! k\<rparr>)"
      using k D(1,3,6) j(1) c' i by (cases "k = i") simp_all
    show "kRegionBasePage + unat (rm_region_cnt (c_rms c' ! k)) * unat (rm_region_size_pages (c_rms c' ! k)) \<le>
        j_journal_page (c_journals c' ! k)"
      using k D(2,3) D(7) [of k] j(2) c' i by (cases "k = i") (simp_all add: same_geom_def)
  qed (use D c' in \<open>simp_all add: same_geom_def\<close>)
  moreover have "dev_upto (meta_area (c_rms c ! k)) (c_devs c ! k) (c_devs c' ! k)" if "k < c_n_devs c" for k
    using that d c'(1) D(1,5) i by (cases "k = i") (simp_all add: dev_upto_refl)
  ultimately show ?thesis using c' by (simp add: io_step_def)
qed

lemma with_journal_step:
  assumes ok: "io_ok c" and i: "i < c_n_devs c" and f: "\<And>j. journal_geo j \<Longrightarrow> \<exists>rc j'. f j = (rc, j') \<and> journal_upto j j'"
  shows "io_step c (snd (with_journal c i f))"
proof -
  note D = io_okD [OF ok]
  let ?j = "(c_journals c ! i)\<lparr>j_dev := c_devs c ! i\<rparr>"
  obtain rc j' where j': "f ?j = (rc, j')" "journal_upto ?j j'" using f [OF D(6) [OF i]] by blast
  have "journal_area ?j \<subseteq> meta_area (c_rms c ! i)"
    using D(7) [OF i] by (auto simp: journal_area_def meta_area_def)
  then have "dev_upto (meta_area (c_rms c ! i)) (c_devs c ! i) (j_dev j')"
    using j'(2) by (auto simp: journal_upto_def intro: dev_upto_mono)
  then show ?thesis
    using j' by (intro io_step_dev [OF ok i, where j = j']) (simp_all add: with_journal_def journal_upto_def)
qed

lemma journal_put_upto: "journal_geo j \<Longrightarrow> \<exists>rc j'. journal_put j p g v a x si sn fl lens n dl path pl = (rc, j') \<and> journal_upto j j'"
  unfolding journal_put_def Let_def by (rule journal_append_upto)

lemma journal_flush_upto: "journal_geo j \<Longrightarrow> \<exists>rc j'. journal_flush j = (rc, j') \<and> journal_upto j j'"
  using journal_flush_page_upto [of j] by (auto simp: journal_flush_def)

lemma io_step_ckpt_wanted: "io_step c c' \<Longrightarrow> io_step c (c'\<lparr>c_ckpt_wanted := b\<rparr>)"
  by (simp add: io_step_def io_ok_def)

lemma leaf_journal_step:
  assumes "io_ok c" and "\<And>i. w = Some i \<Longrightarrow> i < c_n_devs c"
  shows "io_step c (leaf_journal c w p g v a x si sn fl dl sh path pl)"
proof (cases w)
  case None
  with assms(1) io_step_refl show ?thesis by (simp add: leaf_journal_def)
next
  case (Some i)
  have wj: "io_step c (case with_journal c i (\<lambda>j. journal_put j p g v (Some a) x si sn fl lens n dl path pl) of
      (rc, c) \<Rightarrow> if rc = - KV_EFULL then c\<lparr>c_ckpt_wanted := True\<rparr> else c)" for fl lens n
  proof -
    obtain rc c' where e: "with_journal c i (\<lambda>j. journal_put j p g v (Some a) x si sn fl lens n dl path pl) = (rc, c')"
      by fastforce
    have "io_step c (snd (with_journal c i (\<lambda>j. journal_put j p g v (Some a) x si sn fl lens n dl path pl)))"
      by (rule with_journal_step [OF assms(1) assms(2) [OF Some]]) (rule journal_put_upto)
    then have "io_step c c'" unfolding e by simp
    with io_step_ckpt_wanted show ?thesis unfolding e by simp
  qed
  show ?thesis unfolding leaf_journal_def Let_def Some using wj by (cases sh) (simp_all split: if_split)
qed

lemma cache_write_header_step:
  assumes ok: "io_ok c" and i: "i < c_n_devs c" and r: "r < unat (rm_region_cnt (c_rms c ! i))"
  shows "io_step c (snd (cache_write_header c i r))"
proof -
  obtain d where d: "write_header (c_rms c ! i) (c_devs c ! i) r = (KV_EOK, d)" "rm_fits (c_rms c ! i) d"
      "dev_pages d = dev_pages (c_devs c ! i)" "dv_dev_id d = dv_dev_id (c_devs c ! i)"
      "\<forall>j < dev_pages (c_devs c ! i). dev_page d j =
        (if j = page_base (c_rms c ! i) r then enc_rh (rh_image (rm_rg (c_rms c ! i) ! r)) else dev_page (c_devs c ! i) j)"
    using write_header_ok [OF io_okD(4) [OF ok i] r] by blast
  have up: "dev_upto (meta_area (c_rms c ! i)) (c_devs c ! i) d"
    using d r by (auto simp: dev_upto_def meta_area_def rm_fits_def)
  have geo: "journal_geo ((c_journals c ! i)\<lparr>j_dev := d\<rparr>)"
    using io_okD(6) [OF ok i] d(2,3) by (simp add: journal_geo_def rm_fits_def)
  show ?thesis
    using d(1) by (intro io_step_dev [OF ok i up geo]) (simp_all add: cache_write_header_def)
qed

section \<open>Data pages\<close>

lemma dev_range_concat: "bslice (i * KV_PAGE_SIZE) (n * KV_PAGE_SIZE) (dv_data d) = concat (map (dev_page d) [i..<i + n])"
proof (induction n)
  case (Suc n)
  have "Suc n * KV_PAGE_SIZE = n * KV_PAGE_SIZE + KV_PAGE_SIZE" by simp
  then show ?case using Suc by (simp only: bslice_split) (simp add: dev_page_def add_mult_distrib)
qed (simp add: bslice_def)

lemma dev_upto_range:
  assumes "dev_upto S d d'" and "i + n \<le> dev_pages d" and "S \<inter> {i..<i + n} = {}"
  shows "bslice (i * KV_PAGE_SIZE) (n * KV_PAGE_SIZE) (dv_data d') = bslice (i * KV_PAGE_SIZE) (n * KV_PAGE_SIZE) (dv_data d)"
proof -
  have "dev_page d' x = dev_page d x" if "x \<in> set [i..<i + n]" for x
  proof -
    have "x < dev_pages d" "x \<notin> S" using that assms(2,3) by (auto simp: disjoint_iff)
    with assms(1) show ?thesis by (simp add: dev_upto_def)
  qed
  then show ?thesis unfolding dev_range_concat by (metis (no_types, lifting) map_cong)
qed

section \<open>Reading\<close>

text \<open>The payload \<open>p\<close> lies at the address \<open>a\<close>, padded with zeros to whole pages.\<close>

definition payload_at :: "cache \<Rightarrow> kv_addr \<Rightarrow> bytes \<Rightarrow> bool" where
  "payload_at c a p \<longleftrightarrow>
    (let d = c_devs c ! unat (ka_dev_id a);
         np = unat (ka_len_pages a);
         img = p @ zeros (np * KV_PAGE_SIZE - length p)
     in unat (ka_dev_id a) < c_n_devs c \<and> 0 < np \<and> unat (ka_page_no a) + np \<le> dev_pages d \<and>
        length p \<le> np * KV_PAGE_SIZE \<and>
        bslice (unat (ka_page_no a) * KV_PAGE_SIZE) (np * KV_PAGE_SIZE) (dv_data d) = img \<and> ka_crc a = pages_crc img np)"

text \<open>The leaf \<open>lf\<close> holds the records of the lengths \<open>lens\<close> with the bytes \<open>p\<close>, and is in the index under \<open>path\<close>.\<close>

definition leaf_data :: "cache \<Rightarrow> radix_leaf \<Rightarrow> bytes \<Rightarrow> u32 list \<Rightarrow> bool" where
  "leaf_data c lf p lens \<longleftrightarrow> lf_ver lf \<noteq> 0 \<and> lf_stripe lf = None \<and> payload_at c (lf_addr0 lf) p \<and>
    (\<exists>s. lf_shape lf = Some s \<and> sh_lens (c_shapes c ! s) = lens \<and> unat (sh_n_recs (c_shapes c ! s)) = length lens) \<and>
    length lens \<le> KV_MAX_LAYERS_CAP \<and> sum_list (map unat lens) = length p \<and> length p < 2 ^ 31"

definition leaf_stored :: "cache \<Rightarrow> u64 list \<Rightarrow> radix_leaf \<Rightarrow> bytes \<Rightarrow> u32 list \<Rightarrow> bool" where
  "leaf_stored c path lf p lens \<longleftrightarrow> leaf_data c lf p lens \<and>
    (\<exists>node l. follow (rt_nodes (c_radix c)) 0 path = Some node \<and> node_leaf c node = Some l \<and> leaf_at c l = lf)"

text \<open>Devices whose contents agree.\<close>

definition devs_same :: "device list \<Rightarrow> device list \<Rightarrow> bool" where
  "devs_same ds ds' \<longleftrightarrow> length ds' = length ds \<and>
    (\<forall>i < length ds. dev_ok (ds' ! i) \<and> dv_data (ds' ! i) = dv_data (ds ! i))"

lemma c_alloc_ok:
  assumes "no_oom (rt_mem (c_radix c))"
  shows "\<exists>mem. c_alloc c = (True, c\<lparr>c_radix := (c_radix c)\<lparr>rt_mem := mem\<rparr>\<rparr>) \<and> no_oom mem"
  using alloc_no_oom [OF assms] by (auto simp: c_alloc_def)

lemma fresh_mem_length [simp]: "length (fresh_mem env n) = n"
  by (simp add: fresh_mem_def zeros_def)

lemma cache_read_chunk_ok:
  assumes devs: "\<forall>d \<in> set (c_devs c). dev_ok d" "length (c_devs c) = c_n_devs c"
    and mem: "no_oom (rt_mem (c_radix c))" and a: "payload_at c a p"
  shows "\<exists>ds mem. cache_read_chunk env c (ka_dev_id a) (ka_page_no a) (ka_len_pages a) (ka_crc a) =
      Some ((KV_EOK, p @ zeros (unat (ka_len_pages a) * KV_PAGE_SIZE - length p)),
        c\<lparr>c_devs := ds, c_radix := (c_radix c)\<lparr>rt_mem := mem\<rparr>\<rparr>) \<and> devs_same (c_devs c) ds \<and> no_oom mem"
proof -
  let ?i = "unat (ka_dev_id a)" and ?np = "unat (ka_len_pages a)" and ?pg = "unat (ka_page_no a)"
  let ?img = "p @ zeros (?np * KV_PAGE_SIZE - length p)"
  have A: "?i < c_n_devs c" "0 < ?np" "?pg + ?np \<le> dev_pages (c_devs c ! ?i)" "length p \<le> ?np * KV_PAGE_SIZE"
    "bslice (?pg * KV_PAGE_SIZE) (?np * KV_PAGE_SIZE) (dv_data (c_devs c ! ?i)) = ?img" "ka_crc a = pages_crc ?img ?np"
    using a by (simp_all add: payload_at_def Let_def)
  obtain mem where m: "c_alloc c = (True, c\<lparr>c_radix := (c_radix c)\<lparr>rt_mem := mem\<rparr>\<rparr>)" "no_oom mem"
    using c_alloc_ok [OF assms(3)] by blast
  have "dev_ok (c_devs c ! ?i)" using devs A(1) by simp
  then obtain d where d: "read_pages (c_devs c ! ?i) ?pg ?np = ((KV_EOK, ?img), d)" "dev_ok d" "dv_data d = dv_data (c_devs c ! ?i)"
    using read_pages_ok [of "c_devs c ! ?i" ?pg ?np] A(3,5) by metis
  have len: "length ?img = ?np * KV_PAGE_SIZE" using A(4) by (simp add: zeros_def)
  have ow: "overwrite (fresh_mem env (?np * KV_PAGE_SIZE)) 0 ?img = ?img"
    using len by (simp add: overwrite_def)
  have same: "devs_same (c_devs c) ((c_devs c)[?i := d])"
    using devs d(2,3) by (auto simp: devs_same_def nth_upd)
  have "cache_sync_read (c\<lparr>c_radix := (c_radix c)\<lparr>rt_mem := mem\<rparr>\<rparr>) ?i ?pg (fresh_mem env (?np * KV_PAGE_SIZE)) ?np =
      ((KV_EOK, ?img), c\<lparr>c_radix := (c_radix c)\<lparr>rt_mem := mem\<rparr>, c_devs := (c_devs c)[?i := d]\<rparr>)"
    by (simp add: cache_sync_read_def sync_submit_def d(1) ow io_ref_def io_unref_def io_ctx0_def KV_EOK_def Let_def)
  moreover have "pages_validate (Some ?img) ?np (ka_crc a) = KV_EOK" using A(2,6) by (simp add: pages_validate_def)
  ultimately show ?thesis
    using m A(1) devs(2) same
    by (intro exI [of _ "(c_devs c)[?i := d]"] exI [of _ mem]) (simp add: cache_read_chunk_def)
qed

lemma word_of_nat_unat_eq: "of_nat (unat w) = (w :: u32)"
  by simp

lemma sum_list_u32: "sum_list (map unat lens) < 2 ^ 32 \<Longrightarrow> unat (sum_list lens :: u32) = sum_list (map unat lens)"
proof (induction lens)
  case (Cons x xs)
  then show ?case by (simp add: unat_word_ariths)
qed simp

lemma get_device_stored:
  assumes devs: "\<forall>d \<in> set (c_devs c). dev_ok d" "length (c_devs c) = c_n_devs c"
    and mem: "no_oom (rt_mem (c_radix c))" and st: "leaf_data c lf p lens"
  shows "\<exists>ds mem buf. get_device env c lf = Some ((KV_EOK, get_result0\<lparr>gr_buf := Some buf, gr_buf_len := of_nat (length p),
      gr_recs := shape_recs lens\<rparr>), c\<lparr>c_devs := ds, c_radix := (c_radix c)\<lparr>rt_mem := mem\<rparr>\<rparr>) \<and>
    devs_same (c_devs c) ds \<and> no_oom mem \<and> length p \<le> length buf \<and> take (length p) buf = p"
proof -
  obtain s where s: "lf_shape lf = Some s" "sh_lens (c_shapes c ! s) = lens" "unat (sh_n_recs (c_shapes c ! s)) = length lens"
    using st by (auto simp: leaf_data_def)
  have S: "lf_stripe lf = None" "payload_at c (lf_addr0 lf) p" "length lens \<le> KV_MAX_LAYERS_CAP"
    "sum_list (map unat lens) = length p" "length p < 2 ^ 31" using st by (simp_all add: leaf_data_def)
  obtain ds m where r: "cache_read_chunk env c (ka_dev_id (lf_addr0 lf)) (ka_page_no (lf_addr0 lf)) (ka_len_pages (lf_addr0 lf))
      (ka_crc (lf_addr0 lf)) = Some ((KV_EOK, p @ zeros (unat (ka_len_pages (lf_addr0 lf)) * KV_PAGE_SIZE - length p)),
        c\<lparr>c_devs := ds, c_radix := (c_radix c)\<lparr>rt_mem := m\<rparr>\<rparr>)" "devs_same (c_devs c) ds" "no_oom m"
    using cache_read_chunk_ok [OF devs mem S(2)] by blast
  have "sum_list lens = (of_nat (length p) :: u32)"
    using sum_list_u32 [of lens] S(4,5) word_of_nat_unat_eq [of "sum_list lens"] by simp
  then have "get_device env c lf = Some ((KV_EOK, get_result0\<lparr>
      gr_buf := Some (p @ zeros (unat (ka_len_pages (lf_addr0 lf)) * KV_PAGE_SIZE - length p)), gr_buf_len := of_nat (length p),
      gr_recs := shape_recs lens\<rparr>), c\<lparr>c_devs := ds, c_radix := (c_radix c)\<lparr>rt_mem := m\<rparr>\<rparr>)"
    using s S(1,3) r(1) by (simp add: get_device_def get_replicas_def shape_total_def shape_fill_def)
  with r(2,3) show ?thesis by (intro exI) (auto)
qed

text \<open>The DRAM cache: what it holds for the version is the payload.\<close>

definition dram_coherent :: "cache \<Rightarrow> u64 \<Rightarrow> u32 \<Rightarrow> u32 \<Rightarrow> bytes \<Rightarrow> dram_rec list \<Rightarrow> bool" where
  "dram_coherent c pid g ver p recs \<longleftrightarrow>
    (\<forall>d ex b rs. c_dram c = Some d \<and> dram_lookup d (pid, g) = Some (ver, ex, b, rs) \<longrightarrow> b = p \<and> rs = recs)"

lemma dram_get_miss:
  assumes "dram_get ok now d p g ver cap = Some ((rc, res), d')" and "rc \<noteq> KV_EOK"
  shows "d' = d \<or> (\<exists>m. d' = d\<lparr>dc_misses := m\<rparr>)"
  using assms by (auto simp: dram_get_def Let_def split: option.splits if_splits)

lemma malloc_ok_misses [simp]: "malloc_ok (d\<lparr>dc_misses := m\<rparr>) = malloc_ok d"
  by (simp add: fun_eq_iff malloc_ok_def outside_arena_def arena_len_def dram_addrs_def shard_addrs_def [abs_def]
    dram_fuel_def dc_shard_def)

lemma get_dram_cases:
  assumes inv: "\<And>d. c_dram c = Some d \<Longrightarrow> dram_inv d \<and> malloc_ok d mres" and mem: "no_oom (rt_mem (c_radix c))"
    and co: "dram_coherent c pid g ver p recs" and cap: "length recs \<le> KV_MAX_LAYERS_CAP"
  shows "\<exists>res d mem. get_dram env c pid g ver = Some (res, c\<lparr>c_dram := d, c_radix := (c_radix c)\<lparr>rt_mem := mem\<rparr>\<rparr>) \<and>
    no_oom mem \<and> (\<forall>x. d = Some x \<longrightarrow> dram_inv x \<and> (\<exists>y. c_dram c = Some y \<and> dram_lookup x = dram_lookup y)) \<and>
    (res = Some (p, recs) \<or> res = None \<and> (\<forall>x. d = Some x \<longrightarrow> malloc_ok x mres))"
proof (cases "c_dram c")
  case None
  then show ?thesis
    using mem by (intro exI [of _ None] exI [of _ None] exI [of _ "rt_mem (c_radix c)"]) (simp add: get_dram_def)
next
  case (Some d)
  have di: "dram_inv d" "malloc_ok d mres" using inv [OF Some] by auto
  obtain m where m: "c_alloc c = (True, c\<lparr>c_radix := (c_radix c)\<lparr>rt_mem := m\<rparr>\<rparr>)" "no_oom m"
    using c_alloc_ok [OF mem] by blast
  let ?now = "ck_s (ge_clk env)"
  obtain d' where d': "dram_get True ?now d pid g ver KV_MAX_LAYERS_CAP =
      Some (get_result True ?now ver KV_MAX_LAYERS_CAP (dram_lookup d (pid, g)), d')" "dram_inv d'" "dram_lookup d' = dram_lookup d"
    using dram_get_ok [OF di(1)] by blast
  have eq: "get_dram env c pid g ver = Some (if fst (get_result True ?now ver KV_MAX_LAYERS_CAP (dram_lookup d (pid, g))) = KV_EOK
      then snd (get_result True ?now ver KV_MAX_LAYERS_CAP (dram_lookup d (pid, g))) else None,
      c\<lparr>c_dram := Some d', c_radix := (c_radix c)\<lparr>rt_mem := m\<rparr>\<rparr>)"
    by (simp add: get_dram_def Some m(1) d'(1) split: prod.split)
  show ?thesis
  proof (cases "fst (get_result True ?now ver KV_MAX_LAYERS_CAP (dram_lookup d (pid, g))) = KV_EOK")
    case True
    then obtain ex b rs where v: "dram_lookup d (pid, g) = Some (ver, ex, b, rs)"
      "snd (get_result True ?now ver KV_MAX_LAYERS_CAP (dram_lookup d (pid, g))) = Some (b, take KV_MAX_LAYERS_CAP rs)"
      by (auto simp: get_result_def KV_EOK_def KV_ENOENT_def split: option.splits if_splits)
    then have "b = p" "rs = recs" using co Some by (auto simp: dram_coherent_def)
    with v eq True m(2) d'(2,3) Some cap show ?thesis by (intro exI [of _ "Some (p, recs)"] exI [of _ "Some d'"] exI [of _ m]) simp
  next
    case False
    obtain rc res where g: "get_result True ?now ver KV_MAX_LAYERS_CAP (dram_lookup d (pid, g)) = (rc, res)" by fastforce
    with dram_get_miss [OF d'(1) [unfolded g]] False di(2) have "malloc_ok d' mres" by auto
    with eq False m(2) d'(2,3) Some show ?thesis by (intro exI [of _ None] exI [of _ "Some d'"] exI [of _ m]) simp
  qed
qed

text \<open>Putting the payload into DRAM leaves DRAM coherent, whether the put is accepted or not.\<close>

lemma put_outcome_coherent:
  assumes "put_outcome d k (ver, ex, p, recs) mres r d'"
    and "\<And>ex b rs. dram_lookup d k = Some (ver, ex, b, rs) \<Longrightarrow> b = p \<and> rs = recs"
    and "dram_lookup d' k = Some (ver, ex', b, rs)"
  shows "b = p \<and> rs = recs"
  using assms by (auto simp: put_outcome_def split: if_splits option.splits)

lemma get_fill_dram_ok:
  assumes inv: "\<And>d. c_dram c = Some d \<Longrightarrow> dram_inv d \<and> malloc_ok d (ge_malloc env)"
    and out: "gr_buf out = Some buf" "gr_buf_len out = of_nat (length p)" "take (length p) buf = p" "length p \<le> length buf"
      "length (gr_recs out) \<le> KV_MAX_LAYERS_CAP" "length p < 2 ^ 31"
    and co: "dram_coherent c pid g ver p (gr_recs out)"
  shows "\<exists>d. get_fill_dram env c pid g ver expire out = Some (c\<lparr>c_dram := d\<rparr>) \<and> (\<forall>x. d = Some x \<longrightarrow> dram_inv x) \<and>
    dram_coherent (c\<lparr>c_dram := d\<rparr>) pid g ver p (gr_recs out)"
proof (cases "c_dram c")
  case None
  then show ?thesis by (intro exI [of _ None]) (simp add: get_fill_dram_def dram_coherent_def)
next
  case (Some d)
  have u: "unat (of_nat (length p) :: u32) = length p" using out(6) by (simp add: unat_of_nat_u32)
  obtain r d' where d': "dram_put (ge_malloc env) d pid g ver expire p (gr_recs out) = Some (r, d')" "dram_inv d'"
      "put_outcome d (pid, g) (ver, expire, p, gr_recs out) (ge_malloc env) r d'"
    using dram_put_inv [of d "ge_malloc env" "gr_recs out" p pid g ver expire] inv [OF Some] out(5,6)
    by (auto simp: KV_MAX_LAYERS_CAP_def)
  have "\<And>ex b rs. dram_lookup d (pid, g) = Some (ver, ex, b, rs) \<Longrightarrow> b = p \<and> rs = gr_recs out"
    using co Some by (simp add: dram_coherent_def)
  from put_outcome_coherent [OF d'(3) this] have "dram_coherent (c\<lparr>c_dram := Some d'\<rparr>) pid g ver p (gr_recs out)"
    by (simp add: dram_coherent_def)
  with Some u out d'(1,2) show ?thesis by (intro exI [of _ "Some d'"]) (simp add: get_fill_dram_def)
qed

section \<open>A get that finds its leaf\<close>

definition get_path :: "u64 \<Rightarrow> u32 list \<Rightarrow> u32 \<Rightarrow> u64 list" where
  "get_path pid tokens n = group_hashes pid tokens n (unat (group_count n))"

definition leaf_alive :: "clock \<Rightarrow> radix_leaf \<Rightarrow> bool" where
  "leaf_alive clk lf \<longleftrightarrow> ka_expire_ts (lf_addr0 lf) = 0 \<or> ck_s clk \<le> ucast (ka_expire_ts (lf_addr0 lf))"

lemma cache_inv_hits:
  assumes inv: "cache_inv c" and ho: "hits_only (rt_nodes (c_radix c)) ns"
  shows "cache_inv (c\<lparr>c_radix := (c_radix c)\<lparr>rt_nodes := ns\<rparr>\<rparr>)"
proof -
  note D = cache_invD [OF inv]
  have len: "length ns = length (rt_nodes (c_radix c))" using ho by (simp add: hits_only_def)
  have "atts (c\<lparr>c_radix := (c_radix c)\<lparr>rt_nodes := ns\<rparr>\<rparr>) = atts c"
    unfolding atts_def by (rule nth_equalityI) (use len hits_only_node(6) [OF ho] in auto)
  moreover have "radix_inv ((c_radix c)\<lparr>rt_nodes := ns\<rparr>)" using D(4) hits_only_inv [OF ho] len by (simp add: radix_inv_def)
  ultimately show ?thesis using D len by (auto intro!: cache_invI simp: cache_dims_def side_nodes_ok_def)
qed

lemma hit_ascend_hits:
  assumes h: "heap_inv ns" and f: "follow ns 0 path = Some node" and node: "node < length ns"
  shows "\<exists>ns'. radix_hit_ascend (length ns) ns (Some node) 1 = Some ns' \<and> hits_only ns ns'"
proof -
  obtain ns' where ns': "radix_hit_ascend (length ns) ns (Some node) 1 = Some ns'" "length ns' = length ns"
      "\<forall>q k. follow ns 0 q = Some k \<longrightarrow>
        ns' ! k = (ns ! k)\<lparr>rn_hit_count := rn_hit_count (ns ! k) + (if prefix q path then 1 else 0)\<rparr>"
    using radix_hit_ascend_ok [OF h f node, of 1] by blast
  then have "hits_only ns ns'" using follow_exists [OF h] unfolding hits_only_def by blast
  with ns'(1) show ?thesis by blast
qed

lemma get_lookup_stored:
  assumes inv: "cache_inv c" and p: "0 \<notin> set path" and st: "leaf_stored c path lf p lens" and alive: "leaf_alive clk lf"
  shows "\<exists>l ns. get_lookup clk c pid path = Some (Inr l, leaf_ref (c\<lparr>c_radix := (c_radix c)\<lparr>rt_nodes := ns\<rparr>\<rparr>) l 1) \<and>
    l < length (c_leaves c) \<and> c_leaves c ! l = Some lf \<and> hits_only (rt_nodes (c_radix c)) ns"
proof -
  have h: "heap_inv (rt_nodes (c_radix c))" "rt_root (c_radix c) = 0"
    using cache_invD(4) [OF inv] by (auto simp: radix_inv_def)
  obtain node l where n: "follow (rt_nodes (c_radix c)) 0 path = Some node" "node_leaf c node = Some l" "leaf_at c l = lf"
    using st by (auto simp: leaf_stored_def)
  have node: "node < length (rt_nodes (c_radix c))" using follow_less [OF h(1) _ n(1)] heap_invD(1) [OF h(1)] by simp
  have w: "radix_walk (c_radix c) path False = Some (Some node, c_radix c)"
    using radix_walk_from_find [OF h(1) heap_invD(1) [OF h(1)] p, of 0] h(2) n(1) by (simp add: radix_walk_def)
  obtain ns where ns: "radix_hit_ascend (length (rt_nodes (c_radix c))) (rt_nodes (c_radix c)) (Some node) 1 = Some ns"
      "hits_only (rt_nodes (c_radix c)) ns"
    using hit_ascend_hits [OF h(1) n(1) node] by blast
  have v: "lf_ver lf \<noteq> 0" "\<not> (ka_expire_ts (lf_addr0 lf) \<noteq> 0 \<and> ucast (ka_expire_ts (lf_addr0 lf)) < ck_s clk)"
    using st alive by (auto simp: leaf_stored_def leaf_data_def leaf_alive_def)
  have "get_lookup clk c pid path = Some (Inr l, leaf_ref (c\<lparr>c_radix := (c_radix c)\<lparr>rt_nodes := ns\<rparr>\<rparr>) l 1)"
    unfolding get_lookup_def Let_def w using n v ns(1) by simp
  then show ?thesis using attached_leaf [OF inv node n(2)] n(3) ns(2) by blast
qed

lemma leaf_ref_at: "l < length (c_leaves c) \<Longrightarrow> leaf_at (leaf_ref c l k) l = (leaf_at c l)\<lparr>lf_refcnt := lf_refcnt (leaf_at c l) + k\<rparr>"
  by (simp add: leaf_ref_def leaf_set_def leaf_at_def)

lemma leaf_ref_undo:
  assumes "l < length (c_leaves c)" and "c_leaves c ! l \<noteq> None" and "c_leaves c' = c_leaves (leaf_ref c l k)"
  shows "c_leaves (leaf_ref c' l (- k)) = c_leaves c"
proof -
  have "(c_leaves c)[l := Some (leaf_at c l)] = c_leaves c" using assms(2) by (simp add: leaf_at_def list_update_id)
  then show ?thesis using assms(1,3) by (simp add: leaf_ref_def leaf_set_def leaf_at_def)
qed

lemma get_impl_dram:
  assumes "0 < group_count n" "group_count n \<le> KV_MAX_GROUPS"
    and "get_lookup (ge_clk env) c pid (get_path pid tokens n) = Some (Inr l, c1)"
    and "get_dram env c1 pid (group_count n - 1) (lf_ver (leaf_at c1 l)) = Some (Some (b, rs), c2)"
  shows "cache_get_impl env c pid tokens n = Some ((KV_EOK, get_result0\<lparr>gr_buf := Some b, gr_buf_len := of_nat (length b), gr_recs := rs,
      gr_ver := lf_ver (leaf_at c1 l), gr_prefix_id := pid, gr_group_idx := group_count n - 1\<rparr>), get_hit (leaf_ref c2 l (-1)))"
proof -
  have "\<not> (group_count n = 0 \<or> group_count n > KV_MAX_GROUPS)" using assms(1,2) by auto
  with assms(3-) show ?thesis unfolding cache_get_impl_def Let_def get_path_def by simp
qed

lemma get_impl_device:
  assumes "0 < group_count n" "group_count n \<le> KV_MAX_GROUPS"
    and "get_lookup (ge_clk env) c pid (get_path pid tokens n) = Some (Inr l, c1)"
    and "get_dram env c1 pid (group_count n - 1) (lf_ver (leaf_at c1 l)) = Some (None, c2)"
    and "get_device env c2 (leaf_at c1 l) = Some ((KV_EOK, out), c3)"
    and "out' = out\<lparr>gr_ver := lf_ver (leaf_at c1 l), gr_prefix_id := pid, gr_group_idx := group_count n - 1\<rparr>"
    and "get_fill_dram env (get_hit c3) pid (group_count n - 1) (lf_ver (leaf_at c1 l))
      (ka_expire_ts (lf_addr0 (leaf_at c1 l))) out' = Some c4"
  shows "cache_get_impl env c pid tokens n = Some ((KV_EOK, out'), leaf_ref c4 l (-1))"
proof -
  have "\<not> (group_count n = 0 \<or> group_count n > KV_MAX_GROUPS)" using assms(1,2) by auto
  with assms(3-) show ?thesis unfolding cache_get_impl_def Let_def get_path_def by simp
qed

lemma leaf_data_frame:
  assumes "leaf_data c lf p lens" and "c_devs c' = c_devs c" and "c_n_devs c' = c_n_devs c" and "c_shapes c' = c_shapes c"
  shows "leaf_data c' (lf\<lparr>lf_refcnt := k\<rparr>) p lens"
  using assms by (simp add: leaf_data_def payload_at_def)

text \<open>The state in which a get of a group finds its payload.\<close>

definition get_ready :: "cache \<Rightarrow> u64 \<Rightarrow> u32 list \<Rightarrow> u32 \<Rightarrow> radix_leaf \<Rightarrow> bytes \<Rightarrow> u32 list \<Rightarrow> bool" where
  "get_ready c pid tokens n lf p lens \<longleftrightarrow> cache_inv c \<and> (\<forall>d \<in> set (c_devs c). dev_ok d) \<and> no_oom (rt_mem (c_radix c)) \<and>
    leaf_stored c (get_path pid tokens n) lf p lens \<and>
    dram_coherent c pid (group_count n - 1) (lf_ver lf) p (shape_recs lens)"

text \<open>What a get of a stored group changes: hit counts, the allocator, the devices' pending outcomes, DRAM and statistics.\<close>

definition get_frame :: "cache \<Rightarrow> cache \<Rightarrow> bool" where
  "get_frame c c' \<longleftrightarrow> (\<exists>ns m dr ds st ma. hits_only (rt_nodes (c_radix c)) ns \<and> no_oom m \<and> devs_same (c_devs c) ds \<and>
    (\<forall>x. dr = Some x \<longrightarrow> dram_inv x) \<and>
    c' = c\<lparr>c_radix := (c_radix c)\<lparr>rt_nodes := ns, rt_mem := m\<rparr>, c_dram := dr, c_devs := ds, c_stat := st, c_m := ma\<rparr>)"

lemma payload_at_same:
  assumes "payload_at c a p" and "devs_same (c_devs c) (c_devs c')" and "c_n_devs c' = c_n_devs c" and "length (c_devs c) = c_n_devs c"
  shows "payload_at c' a p"
proof -
  have "unat (ka_dev_id a) < length (c_devs c)" using assms(1,4) by (simp add: payload_at_def Let_def)
  then have "dv_data (c_devs c' ! unat (ka_dev_id a)) = dv_data (c_devs c ! unat (ka_dev_id a))"
    using assms(2) by (simp add: devs_same_def)
  then show ?thesis using assms(1,3) by (simp add: payload_at_def Let_def dev_pages_def)
qed

lemma get_frame_ready:
  assumes rd: "get_ready c pid tokens n lf p lens" and fr: "get_frame c c'"
    and co: "dram_coherent c' pid (group_count n - 1) (lf_ver lf) p (shape_recs lens)"
  shows "get_ready c' pid tokens n lf p lens"
proof -
  obtain ns m dr ds st ma where F: "hits_only (rt_nodes (c_radix c)) ns" "no_oom m" "devs_same (c_devs c) ds"
      "\<forall>x. dr = Some x \<longrightarrow> dram_inv x"
      "c' = c\<lparr>c_radix := (c_radix c)\<lparr>rt_nodes := ns, rt_mem := m\<rparr>, c_dram := dr, c_devs := ds, c_stat := st, c_m := ma\<rparr>"
    using fr by (auto simp: get_frame_def)
  have R: "cache_inv c" "leaf_stored c (get_path pid tokens n) lf p lens" using rd by (simp_all add: get_ready_def)
  have len: "length ds = length (c_devs c)" "length (c_devs c) = c_n_devs c"
    using F(3) cache_invD(1) [OF R(1)] by (simp_all add: devs_same_def cache_dims_def)
  define c0 where "c0 = c\<lparr>c_radix := (c_radix c)\<lparr>rt_nodes := ns\<rparr>\<rparr>"
  have "cache_inv c0" unfolding c0_def by (rule cache_inv_hits [OF R(1) F(1)])
  note D = cache_invD [OF this]
  have inv: "cache_inv c'"
    by (rule cache_invI) (use D F(4) len(1) in \<open>simp_all add: F(5) c0_def cache_dims_def atts_def side_nodes_ok_def radix_inv_def\<close>)
  have h: "heap_inv (rt_nodes (c_radix c))" using cache_invD(4) [OF R(1)] by (simp add: radix_inv_def)
  have fol: "follow ns 0 (get_path pid tokens n) = follow (rt_nodes (c_radix c)) 0 (get_path pid tokens n)"
    using hits_only_follow [OF F(1) h] heap_invD(1) [OF h] by simp
  have leaf: "node_leaf c' k = node_leaf c k" if "follow (rt_nodes (c_radix c)) 0 q = Some k" for q k
    using hits_only_node(6) [OF F(1)] follow_less [OF h heap_invD(1) [OF h] that] by (simp add: node_leaf_def F(5))
  have "leaf_data c' lf p lens"
    using R(2) payload_at_same [of c "lf_addr0 lf" p c'] F(3) len(2) by (simp add: leaf_stored_def leaf_data_def F(5))
  then have "leaf_stored c' (get_path pid tokens n) lf p lens"
    using R(2) fol leaf by (auto simp: leaf_stored_def F(5) leaf_at_def)
  moreover have "\<forall>d \<in> set (c_devs c'). dev_ok d" using F(3) by (auto simp: F(5) devs_same_def in_set_conv_nth)
  moreover have "no_oom (rt_mem (c_radix c'))" using F(2) by (simp add: F(5))
  ultimately show ?thesis using inv co by (simp add: get_ready_def)
qed

text \<open>The result of a get of a stored group, and the state it leaves.\<close>

definition get_found :: "cache \<Rightarrow> u64 \<Rightarrow> u32 \<Rightarrow> radix_leaf \<Rightarrow> bytes \<Rightarrow> u32 list \<Rightarrow> cache_get_result \<Rightarrow> cache \<Rightarrow> bool" where
  "get_found c pid g lf p lens out c' \<longleftrightarrow> (\<exists>buf. gr_buf out = Some buf \<and> take (length p) buf = p) \<and>
    gr_buf_len out = of_nat (length p) \<and> gr_recs out = shape_recs lens \<and> gr_ver out = lf_ver lf \<and>
    get_frame c c' \<and> dram_coherent c' pid g (lf_ver lf) p (shape_recs lens)"

text \<open>Pinning the leaf and giving the pin back leaves the table of leaves as it was.\<close>

lemma get_frame_pinned:
  assumes l: "l < length (c_leaves c)" "c_leaves c ! l = Some lf" and ho: "hits_only (rt_nodes (c_radix c)) ns"
    and m: "no_oom m" and ds: "devs_same (c_devs c) ds" and dr: "\<forall>x. dr = Some x \<longrightarrow> dram_inv x"
    and c1: "c1 = leaf_ref (c\<lparr>c_radix := (c_radix c)\<lparr>rt_nodes := ns\<rparr>\<rparr>) l 1"
    and x: "x = c1\<lparr>c_dram := dr, c_devs := ds, c_radix := (c_radix c1)\<lparr>rt_mem := m\<rparr>, c_stat := st\<rparr>"
  shows "get_frame c (leaf_ref x l (-1))"
proof -
  have "c_leaves (leaf_ref x l (-1)) = c_leaves c"
    using leaf_ref_undo [of l "c\<lparr>c_radix := (c_radix c)\<lparr>rt_nodes := ns\<rparr>\<rparr>" x 1] l by (simp add: x c1)
  then have "leaf_ref x l (-1) = c\<lparr>c_radix := (c_radix c)\<lparr>rt_nodes := ns, rt_mem := m\<rparr>, c_dram := dr, c_devs := ds, c_stat := st,
      c_m := c_m c\<rparr>"
    by (intro cache.equality) (simp_all add: x c1 leaf_ref_def leaf_set_def)
  then show ?thesis using ho m ds dr unfolding get_frame_def by blast
qed

lemma devs_same_refl: "\<forall>d \<in> set ds. dev_ok d \<Longrightarrow> devs_same ds ds"
  by (simp add: devs_same_def)

lemma dram_coherent_cong: "c_dram c' = c_dram c \<Longrightarrow> dram_coherent c' = dram_coherent c"
  by (simp add: dram_coherent_def fun_eq_iff)

text \<open>The leaf after the lookup has pinned it.\<close>

lemma pinned_leaf:
  assumes l: "l < length (c_leaves c)" "c_leaves c ! l = Some lf"
    and c1: "c1 = leaf_ref (c\<lparr>c_radix := (c_radix c)\<lparr>rt_nodes := ns\<rparr>\<rparr>) l 1"
  shows "leaf_at c1 l = lf\<lparr>lf_refcnt := lf_refcnt lf + 1\<rparr>" "c_dram c1 = c_dram c" "c_devs c1 = c_devs c" "c_n_devs c1 = c_n_devs c"
    "c_shapes c1 = c_shapes c" "rt_mem (c_radix c1) = rt_mem (c_radix c)"
  using leaf_ref_at [of l "c\<lparr>c_radix := (c_radix c)\<lparr>rt_nodes := ns\<rparr>\<rparr>" 1] l c1
  by (simp_all add: leaf_at_def leaf_ref_def leaf_set_def)

text \<open>The payload comes from DRAM.\<close>

lemma get_impl_hit:
  assumes groups: "0 < group_count n" "group_count n \<le> KV_MAX_GROUPS" and g: "g = group_count n - 1"
    and look: "get_lookup (ge_clk env) c pid (get_path pid tokens n) = Some (Inr l, c1)"
    and c1: "c1 = leaf_ref (c\<lparr>c_radix := (c_radix c)\<lparr>rt_nodes := ns\<rparr>\<rparr>) l 1"
    and l: "l < length (c_leaves c)" "c_leaves c ! l = Some lf" "hits_only (rt_nodes (c_radix c)) ns"
    and devs: "\<forall>d \<in> set (c_devs c). dev_ok d"
    and c2: "c2 = c1\<lparr>c_dram := d, c_radix := (c_radix c1)\<lparr>rt_mem := m\<rparr>\<rparr>" "no_oom m" "\<forall>x. d = Some x \<longrightarrow> dram_inv x"
    and dram: "get_dram env c1 pid g (lf_ver lf) = Some (Some (p, shape_recs lens), c2)"
    and co: "dram_coherent c2 pid g (lf_ver lf) p (shape_recs lens)"
  shows "\<exists>out c'. cache_get_impl env c pid tokens n = Some ((KV_EOK, out), c') \<and> get_found c pid g lf p lens out c'"
proof -
  note L = pinned_leaf [OF l(1,2) c1]
  define x where "x = c1\<lparr>c_dram := d, c_devs := c_devs c, c_radix := (c_radix c1)\<lparr>rt_mem := m\<rparr>,
    c_stat := (c_stat c1)\<lparr>cs_get_hits := cs_get_hits (c_stat c1) + 1\<rparr>\<rparr>"
  have "get_frame c (leaf_ref x l (-1))" by (rule get_frame_pinned [OF l c2(2) devs_same_refl [OF devs] c2(3) c1 x_def])
  moreover have eq: "get_hit (leaf_ref c2 l (-1)) = leaf_ref x l (-1)"
    by (intro cache.equality) (simp_all add: x_def c2(1) L(3) get_hit_def leaf_ref_def leaf_set_def leaf_at_def)
  moreover have "dram_coherent (leaf_ref x l (-1)) pid g (lf_ver lf) p (shape_recs lens)"
    using co by (simp add: dram_coherent_def x_def c2(1) leaf_ref_def leaf_set_def)
  moreover have "get_dram env c1 pid (group_count n - 1) (lf_ver (leaf_at c1 l)) = Some (Some (p, shape_recs lens), c2)"
    using dram by (simp add: L(1) g)
  ultimately show ?thesis
    using get_impl_dram [OF groups look, of p "shape_recs lens" c2] unfolding eq by (auto simp: get_found_def L(1))
qed

text \<open>The payload comes from the device and is put into DRAM.\<close>

lemma get_impl_miss:
  assumes groups: "0 < group_count n" "group_count n \<le> KV_MAX_GROUPS" and g: "g = group_count n - 1"
    and look: "get_lookup (ge_clk env) c pid (get_path pid tokens n) = Some (Inr l, c1)"
    and c1: "c1 = leaf_ref (c\<lparr>c_radix := (c_radix c)\<lparr>rt_nodes := ns\<rparr>\<rparr>) l 1"
    and l: "l < length (c_leaves c)" "c_leaves c ! l = Some lf" "hits_only (rt_nodes (c_radix c)) ns"
    and devs: "\<forall>d \<in> set (c_devs c). dev_ok d" "length (c_devs c) = c_n_devs c" and st: "leaf_data c lf p lens"
    and c2: "c2 = c1\<lparr>c_dram := d, c_radix := (c_radix c1)\<lparr>rt_mem := m\<rparr>\<rparr>" "no_oom m"
      "\<And>x. d = Some x \<Longrightarrow> dram_inv x \<and> malloc_ok x (ge_malloc env)"
    and dram: "get_dram env c1 pid g (lf_ver lf) = Some (None, c2)"
    and co: "dram_coherent c2 pid g (lf_ver lf) p (shape_recs lens)"
  shows "\<exists>out c'. cache_get_impl env c pid tokens n = Some ((KV_EOK, out), c') \<and> get_found c pid g lf p lens out c'"
proof -
  note L = pinned_leaf [OF l(1,2) c1]
  let ?lf = "lf\<lparr>lf_refcnt := lf_refcnt lf + 1\<rparr>"
  have cap: "length (shape_recs lens) \<le> KV_MAX_LAYERS_CAP" "length p < 2 ^ 31" using st by (simp_all add: leaf_data_def shape_recs_def)
  have dev2: "\<forall>d \<in> set (c_devs c2). dev_ok d" "length (c_devs c2) = c_n_devs c2" "no_oom (rt_mem (c_radix c2))" "leaf_data c2 ?lf p lens"
    using devs c2(1,2) L(3-5) leaf_data_frame [OF st, of c2] by simp_all
  obtain ds m' buf where dv: "get_device env c2 ?lf = Some ((KV_EOK, get_result0\<lparr>gr_buf := Some buf,
      gr_buf_len := of_nat (length p), gr_recs := shape_recs lens\<rparr>), c2\<lparr>c_devs := ds, c_radix := (c_radix c2)\<lparr>rt_mem := m'\<rparr>\<rparr>)"
      "devs_same (c_devs c2) ds" "no_oom m'" "length p \<le> length buf" "take (length p) buf = p"
    using get_device_stored [OF dev2] by blast
  define c3 where "c3 = c2\<lparr>c_devs := ds, c_radix := (c_radix c2)\<lparr>rt_mem := m'\<rparr>\<rparr>"
  define out where "out = get_result0\<lparr>gr_buf := Some buf, gr_buf_len := of_nat (length p), gr_recs := shape_recs lens,
    gr_ver := lf_ver lf, gr_prefix_id := pid, gr_group_idx := g\<rparr>"
  have out: "gr_buf out = Some buf" "gr_buf_len out = of_nat (length p)" "gr_recs out = shape_recs lens" "gr_ver out = lf_ver lf"
    by (simp_all add: out_def)
  have i3: "dram_inv x \<and> malloc_ok x (ge_malloc env)" if "c_dram (get_hit c3) = Some x" for x
    using that c2(3) by (simp add: get_hit_def c3_def c2(1))
  have co3: "dram_coherent (get_hit c3) pid g (lf_ver lf) p (gr_recs out)" "length (gr_recs out) \<le> KV_MAX_LAYERS_CAP"
    using co cap(1) by (simp_all add: dram_coherent_def get_hit_def c3_def out(3))
  obtain d4 where f: "get_fill_dram env (get_hit c3) pid g (lf_ver lf) (ka_expire_ts (lf_addr0 lf)) out = Some ((get_hit c3)\<lparr>c_dram := d4\<rparr>)"
      "\<forall>x. d4 = Some x \<longrightarrow> dram_inv x" "dram_coherent ((get_hit c3)\<lparr>c_dram := d4\<rparr>) pid g (lf_ver lf) p (gr_recs out)"
    using get_fill_dram_ok [OF i3 out(1,2) dv(5,4) co3(2) cap(2) co3(1)] by blast
  define x where "x = c1\<lparr>c_dram := d4, c_devs := ds, c_radix := (c_radix c1)\<lparr>rt_mem := m'\<rparr>,
    c_stat := (c_stat c1)\<lparr>cs_get_hits := cs_get_hits (c_stat c1) + 1\<rparr>\<rparr>"
  have same: "devs_same (c_devs c) ds" using dv(2) L(3) by (simp add: c2(1))
  have x: "(get_hit c3)\<lparr>c_dram := d4\<rparr> = x" by (intro cache.equality) (simp_all add: x_def c3_def c2(1) get_hit_def)
  have "cache_get_impl env c pid tokens n = Some ((KV_EOK, out), leaf_ref x l (-1))"
    by (rule get_impl_device [OF groups look, of c2, unfolded L(1), OF _ dv(1) [folded c3_def]])
      (use dram f(1) in \<open>simp_all add: out_def g x\<close>)
  moreover have "get_frame c (leaf_ref x l (-1))" by (rule get_frame_pinned [OF l dv(3) same f(2) c1 x_def])
  moreover have "dram_coherent (leaf_ref x l (-1)) pid g (lf_ver lf) p (shape_recs lens)"
    using f(3) unfolding x by (simp add: dram_coherent_def leaf_ref_def leaf_set_def out(3))
  ultimately show ?thesis using out dv(5) by (auto simp: get_found_def)
qed

lemma get_impl_stored:
  assumes rd: "get_ready c pid tokens n lf p lens" and groups: "0 < group_count n" "group_count n \<le> KV_MAX_GROUPS"
    and path: "0 \<notin> set (get_path pid tokens n)" and alive: "leaf_alive (ge_clk env) lf"
    and dram: "\<And>d. c_dram c = Some d \<Longrightarrow> malloc_ok d (ge_malloc env)"
  shows "\<exists>out c'. cache_get_impl env c pid tokens n = Some ((KV_EOK, out), c') \<and>
    get_found c pid (group_count n - 1) lf p lens out c'"
proof -
  let ?g = "group_count n - 1" and ?rs = "shape_recs lens"
  have R: "cache_inv c" "\<forall>d \<in> set (c_devs c). dev_ok d" "no_oom (rt_mem (c_radix c))"
      "leaf_stored c (get_path pid tokens n) lf p lens" "dram_coherent c pid ?g (lf_ver lf) p ?rs"
    using rd unfolding get_ready_def by blast+
  note D = cache_invD [OF R(1)]
  have st: "leaf_data c lf p lens" "length ?rs \<le> KV_MAX_LAYERS_CAP" "length (c_devs c) = c_n_devs c"
    using R(4) D(1) by (simp_all add: leaf_stored_def leaf_data_def shape_recs_def cache_dims_def)
  obtain l ns where l: "get_lookup (ge_clk env) c pid (get_path pid tokens n) =
        Some (Inr l, leaf_ref (c\<lparr>c_radix := (c_radix c)\<lparr>rt_nodes := ns\<rparr>\<rparr>) l 1)"
      "l < length (c_leaves c)" "c_leaves c ! l = Some lf" "hits_only (rt_nodes (c_radix c)) ns"
    using get_lookup_stored [OF R(1) path R(4) alive] by blast
  define c1 where "c1 = leaf_ref (c\<lparr>c_radix := (c_radix c)\<lparr>rt_nodes := ns\<rparr>\<rparr>) l 1"
  note L = pinned_leaf [OF l(2,3) c1_def]
  have i1: "dram_inv x \<and> malloc_ok x (ge_malloc env)" if "c_dram c1 = Some x" for x using that D(5) dram L(2) by simp
  have m1: "no_oom (rt_mem (c_radix c1))" using R(3) L(6) by simp
  have co1: "dram_coherent c1 pid ?g (lf_ver lf) p ?rs" using R(5) unfolding dram_coherent_cong [OF L(2)] .
  obtain res d m where r: "get_dram env c1 pid ?g (lf_ver lf) = Some (res, c1\<lparr>c_dram := d, c_radix := (c_radix c1)\<lparr>rt_mem := m\<rparr>\<rparr>)"
      "no_oom m" "\<forall>x. d = Some x \<longrightarrow> dram_inv x \<and> (\<exists>y. c_dram c1 = Some y \<and> dram_lookup x = dram_lookup y)"
      "res = Some (p, ?rs) \<or> res = None \<and> (\<forall>x. d = Some x \<longrightarrow> malloc_ok x (ge_malloc env))"
    using get_dram_cases [OF i1 m1 co1 st(2), of env] by blast
  define c2 where "c2 = c1\<lparr>c_dram := d, c_radix := (c_radix c1)\<lparr>rt_mem := m\<rparr>\<rparr>"
  have co2: "dram_coherent c2 pid ?g (lf_ver lf) p ?rs" using co1 r(3) by (fastforce simp: dram_coherent_def c2_def)
  note look = l(1) [folded c1_def] and r1 = r(1) [folded c2_def]
  from r(4) show ?thesis
  proof
    assume "res = Some (p, ?rs)"
    with r1 r(3) show ?thesis
      by (intro get_impl_hit [OF groups refl look c1_def l(2-4) R(2) c2_def r(2) _ _ co2]) simp_all
  next
    assume res: "res = None \<and> (\<forall>x. d = Some x \<longrightarrow> malloc_ok x (ge_malloc env))"
    with r1 r(3) show ?thesis
      by (intro get_impl_miss [OF groups refl look c1_def l(2-4) R(2) st(3,1) c2_def r(2) _ _ co2]) simp_all
  qed
qed

lemma cache_get_sampled:
  assumes "cache_get_impl env c pid tokens n = Some (res, c')"
  shows "\<exists>ma. cache_get env c pid tokens n = Some (res, c'\<lparr>c_m := ma\<rparr>)"
proof -
  define t0 where "t0 = (if cf_metrics_level (c_cfg c) \<ge> KV_MLEVEL_FULL then ck_ns (ge_clk env) else 0)"
  have "cache_get env c pid tokens n = Some (res, c'\<lparr>c_m := if t0 \<noteq> 0
      then (c_m c')\<lparr>km_get := kv_hist_sample (km_get (c_m c')) (ge_end_ns env - t0)\<rparr> else c_m c'\<rparr>)"
    unfolding cache_get_def assms t0_def [symmetric] Let_def by simp
  then show ?thesis by blast
qed

text \<open>A get of a stored group ends, returns exactly its payload and records, from DRAM or from the
  device, and leaves a state in which the next get does so too.\<close>

lemma cache_get_stored:
  assumes rd: "get_ready c pid tokens n lf p lens" and groups: "0 < group_count n" "group_count n \<le> KV_MAX_GROUPS"
    and path: "0 \<notin> set (get_path pid tokens n)" and alive: "leaf_alive (ge_clk env) lf"
    and dram: "\<And>d. c_dram c = Some d \<Longrightarrow> malloc_ok d (ge_malloc env)"
  shows "\<exists>out c' buf. cache_get env c pid tokens n = Some ((KV_EOK, out), c') \<and>
    gr_buf out = Some buf \<and> take (length p) buf = p \<and> gr_buf_len out = of_nat (length p) \<and>
    gr_recs out = shape_recs lens \<and> get_ready c' pid tokens n lf p lens"
proof -
  obtain out c' where g: "cache_get_impl env c pid tokens n = Some ((KV_EOK, out), c')"
      "get_found c pid (group_count n - 1) lf p lens out c'"
    using get_impl_stored [OF assms] by blast
  have F: "get_frame c c'" "dram_coherent c' pid (group_count n - 1) (lf_ver lf) p (shape_recs lens)"
    using g(2) by (simp_all add: get_found_def)
  have "get_ready c' pid tokens n lf p lens" using get_frame_ready [OF rd F] .
  moreover have "leaf_stored (c'\<lparr>c_m := ma\<rparr>) = leaf_stored c'" "dram_coherent (c'\<lparr>c_m := ma\<rparr>) = dram_coherent c'" for ma
    by (simp_all add: fun_eq_iff leaf_stored_def leaf_data_def payload_at_def node_leaf_def leaf_at_def dram_coherent_def)
  ultimately have rd': "get_ready (c'\<lparr>c_m := ma\<rparr>) pid tokens n lf p lens" for ma by (auto simp: get_ready_def)
  obtain ma where "cache_get env c pid tokens n = Some ((KV_EOK, out), c'\<lparr>c_m := ma\<rparr>)" using cache_get_sampled [OF g(1)] by blast
  then show ?thesis using rd' [of ma] g(2) unfolding get_found_def by blast
qed

section \<open>Sequences of gets\<close>

text \<open>The environment of a get of a group with the given expiry: the group has not expired, and the block that
  \<open>malloc\<close> would give to the DRAM cache is none of its own.\<close>

definition get_env_ok :: "get_env \<Rightarrow> cache \<Rightarrow> u32 \<Rightarrow> bool" where
  "get_env_ok env c expire \<longleftrightarrow> (expire = 0 \<or> ck_s (ge_clk env) \<le> ucast expire) \<and>
    (\<forall>d. c_dram c = Some d \<longrightarrow> malloc_ok d (ge_malloc env))"

inductive get_steps :: "u64 \<Rightarrow> u32 list \<Rightarrow> u32 \<Rightarrow> u32 \<Rightarrow> cache \<Rightarrow> cache \<Rightarrow> bool" for pid tokens n expire where
  none: "get_steps pid tokens n expire c c"
| step: "get_steps pid tokens n expire c c1 \<Longrightarrow> get_env_ok env c1 expire \<Longrightarrow>
    cache_get env c1 pid tokens n = Some (res, c2) \<Longrightarrow> get_steps pid tokens n expire c c2"

lemma get_steps_ready:
  assumes "get_steps pid tokens n expire c c'" and "get_ready c pid tokens n lf p lens"
    and groups: "0 < group_count n" "group_count n \<le> KV_MAX_GROUPS"
    and path: "0 \<notin> set (get_path pid tokens n)" and ex: "ka_expire_ts (lf_addr0 lf) = expire"
  shows "get_ready c' pid tokens n lf p lens"
  using assms(1,2)
proof (induction rule: get_steps.induct)
  case (step c c1 env res c2)
  have rd: "get_ready c1 pid tokens n lf p lens" using step.IH step.prems .
  have "leaf_alive (ge_clk env) lf" using step.hyps(2) ex by (simp add: get_env_ok_def leaf_alive_def)
  from cache_get_stored [OF rd groups path this] step.hyps(2,3) show ?case by (auto simp: get_env_ok_def)
qed simp

end
