(* ===== verification/KV_Publish.thy ===== *)
theory KV_Publish
  imports KV_Store
begin

text \<open>
  Publishing a request: the node of its path is found or made, the new leaf replaces an older
  version, the data pages stay, and the leaf is then stored in the sense of theory \<open>KV_Store\<close>.
\<close>

section \<open>Growing the index\<close>

lemma ovf_migrate_leaf: "ovf_migrate n mem = Some (rc, n', mem') \<Longrightarrow> rn_leaf n' = rn_leaf n"
  by (auto simp: ovf_migrate_def split: prod.splits if_splits option.splits)

lemma edge_add_leaf:
  assumes "edge_add n h ch mem = Some (rc, n', mem')"
  shows "rn_leaf n' = rn_leaf n"
proof (cases "if rn_ovf_flag n = 0 then edge_free_slot (rn_slots n) else None")
  case None
  then obtain rc1 n1 mem1 where 1: "(if rn_ovf_flag n = 0 then ovf_migrate n mem else Some (KV_EOK, n, mem)) = Some (rc1, n1, mem1)"
    using assms by (auto simp: edge_add_def split: option.splits)
  then have "rn_leaf n1 = rn_leaf n" by (auto dest: ovf_migrate_leaf split: if_splits)
  with assms None 1 show ?thesis by (auto simp: edge_add_def split: option.splits if_splits)
qed (use assms in \<open>auto simp: edge_add_def\<close>)

lemma radix_walk_from_leaves:
  assumes "radix_walk_from t cur k hs b = Some (r, t')"
  shows "\<exists>m. map rn_leaf (rt_nodes t') = map rn_leaf (rt_nodes t) @ replicate m None"
  using assms
proof (induction hs arbitrary: t cur k)
  case Nil
  then show ?case by (intro exI [of _ 0]) simp
next
  case (Cons h hs)
  have upd: "map rn_leaf ((rt_nodes t)[cur := n]) = map rn_leaf (rt_nodes t)" if "rn_leaf n = rn_leaf (rt_nodes t ! cur)" for n
    using that by (simp add: map_update) (metis list_update_beyond list_update_id map_update not_le)
  consider (child) c where "edge_get (rt_nodes t ! cur) h = Some (Some c)"
    | (none) "edge_get (rt_nodes t ! cur) h = Some None" using Cons.prems by (auto split: option.splits)
  then show ?case
  proof cases
    case child
    then show ?thesis using Cons.IH [of t c "k + 1"] Cons.prems by simp
  next
    case none
    obtain ok mem where a: "alloc (rt_mem t) = (ok, mem)" by fastforce
    show ?thesis
    proof (cases "b \<and> ok")
      case False
      with none a Cons.prems show ?thesis by (intro exI [of _ 0]) (auto split: if_splits)
    next
      case True
      obtain rc n mem' where e: "edge_add (rt_nodes t ! cur) h (Some (length (rt_nodes t))) mem = Some (rc, n, mem')"
        using Cons.prems none a True by (auto simp: Let_def split: option.splits)
      note l = upd [OF edge_add_leaf [OF e]]
      show ?thesis
      proof (cases "rc = KV_EOK")
        case False
        with none a True e l Cons.prems show ?thesis by (intro exI [of _ 0]) (auto simp: Let_def)
      next
        case rc: True
        let ?t = "t\<lparr>rt_nodes := (rt_nodes t)[cur := n] @ [(node_new (of_nat (k + 1)))\<lparr>rn_parent := Some cur\<rparr>], rt_mem := mem'\<rparr>"
        have "radix_walk_from ?t (length (rt_nodes t)) (k + 1) hs b = Some (r, t')"
          using Cons.prems none a True e rc by (simp add: Let_def)
        from Cons.IH [OF this] obtain m where
          "map rn_leaf (rt_nodes t') = map rn_leaf ((rt_nodes t)[cur := n]) @ [None] @ replicate m None"
          by (auto simp: node_new_def)
        then show ?thesis unfolding l by (intro exI [of _ "Suc m"]) simp
      qed
    qed
  qed
qed

lemma leaves_ok_more:
  assumes "leaves_ok rms as leaves df"
  shows "leaves_ok rms (as @ replicate m None) leaves df"
proof -
  note D = leaves_okD [OF assms]
  have nth: "(as @ replicate m None) ! i = Some l \<longleftrightarrow> i < length as \<and> as ! i = Some l" if "i < length as + m" for i l
    using that by (auto simp: nth_append)
  have "(\<Sum>i < length (as @ replicate m None). att_live rms leaves d r ((as @ replicate m None) ! i)) =
      (\<Sum>i < length as. att_live rms leaves d r (as ! i))" for d r
    by (rule sum.mono_neutral_cong_right) (auto simp: nth_append att_live_def)
  then show ?thesis
    using D nth unfolding leaves_ok_def accounts_ok_def by (simp add: leaves_okD(6) [OF assms, unfolded accounts_ok_def])
qed

lemma cache_walk_create:
  assumes inv: "cache_inv c" and p: "0 \<notin> set p" and mem: "no_oom (rt_mem (c_radix c))"
    and size: "length (rt_nodes (c_radix c)) + length p < 2 ^ 26"
  shows "\<exists>j t. radix_walk (c_radix c) p True = Some (Some j, t) \<and> cache_inv (c\<lparr>c_radix := t\<rparr>) \<and> no_oom (rt_mem t) \<and>
    follow (rt_nodes t) 0 p = Some j \<and> heap_ext (rt_nodes (c_radix c)) (rt_nodes t) \<and>
    (\<forall>l. rn_leaf (rt_nodes t ! j) = Some l \<longrightarrow> follow (rt_nodes (c_radix c)) 0 p = Some j \<and> node_leaf c j = Some l)"
proof -
  note D = cache_invD [OF inv]
  have h: "heap_inv (rt_nodes (c_radix c))" "rt_root (c_radix c) = 0" using D(4) by (auto simp: radix_inv_def)
  note pos = heap_invD(1) [OF h(1)]
  obtain j t where t: "radix_walk_from (c_radix c) 0 0 p True = Some (Some j, t)" "heap_inv (rt_nodes t)" "no_oom (rt_mem t)"
      "rt_root t = rt_root (c_radix c)" "rt_n_leaves t = rt_n_leaves (c_radix c)" "heap_ext (rt_nodes (c_radix c)) (rt_nodes t)"
      "follow (rt_nodes t) 0 p = Some j"
    using radix_walk_from_create [OF h(1) pos p mem size, of 0] heap_invD(3) [OF h(1)] by auto
  obtain m where m: "map rn_leaf (rt_nodes t) = map rn_leaf (rt_nodes (c_radix c)) @ replicate m None"
    using radix_walk_from_leaves [OF t(1)] by blast
  have at: "atts (c\<lparr>c_radix := t\<rparr>) = atts c @ replicate m None" by (simp add: atts_def m)
  have len: "length (rt_nodes (c_radix c)) \<le> length (rt_nodes t)" using t(6) by (simp add: heap_ext_def)
  have "cache_inv (c\<lparr>c_radix := t\<rparr>)"
  proof (rule cache_invI)
    show "leaves_ok (c_rms (c\<lparr>c_radix := t\<rparr>)) (atts (c\<lparr>c_radix := t\<rparr>)) (c_leaves (c\<lparr>c_radix := t\<rparr>)) (c_dfree (c\<lparr>c_radix := t\<rparr>))"
      unfolding at using leaves_ok_more [OF D(2)] by simp
    show "rt_n_leaves (c_radix (c\<lparr>c_radix := t\<rparr>)) = of_nat (n_att (atts (c\<lparr>c_radix := t\<rparr>)))"
      unfolding at using D(3) t(5) by (simp add: n_att_def)
    show "side_nodes_ok (c\<lparr>c_radix := t\<rparr>)" using D(6) len by (fastforce simp: side_nodes_ok_def)
  qed (use D t h in \<open>auto simp: cache_dims_def radix_inv_def\<close>)
  moreover have "follow (rt_nodes (c_radix c)) 0 p = Some j \<and> node_leaf c j = Some l" if "rn_leaf (rt_nodes t ! j) = Some l" for l
  proof -
    have j: "j < length (rt_nodes t)" using follow_less [OF t(2) heap_invD(1) [OF t(2)] t(7)] .
    have "(atts c @ replicate m None) ! j = map rn_leaf (rt_nodes t) ! j" unfolding m atts_def ..
    then have "(atts c @ replicate m None) ! j = Some l" using that j by simp
    moreover have "j < length (atts c) + m" using j arg_cong [OF m, of length] by simp
    ultimately have jl: "j < length (rt_nodes (c_radix c))" "atts c ! j = Some l" by (auto simp: nth_append split: if_splits)
    obtain q where q: "follow (rt_nodes (c_radix c)) 0 q = Some j" using follow_exists [OF h(1) jl(1)] by blast
    have "follow (rt_nodes t) 0 q = Some j" using heap_ext_follow [OF h(1) t(6) pos q] .
    then have "q = p" using follow_inj [OF t(2)] t(7) by blast
    with q jl show ?thesis by (simp add: atts_nth)
  qed
  ultimately show ?thesis using t h(2) by (intro exI [of _ j] exI [of _ t]) (simp add: radix_walk_def)
qed

section \<open>Publishing a newer version\<close>

lemma node_set_leaf_follow [simp]:
  "follow (ns[i := (ns ! i)\<lparr>rn_leaf := l\<rparr>]) j q = follow ns j q"
proof (induction q arbitrary: j)
  case (Cons h q)
  have "node_child (ns[i := (ns ! i)\<lparr>rn_leaf := l\<rparr>] ! j) h = node_child (ns ! j) h" by (auto simp: nth_upd)
  with Cons show ?case by (simp split: option.split)
qed simp

lemma leaf_retire_keeps:
  "length (c_leaves (leaf_retire c old)) = length (c_leaves c)"
  "old \<noteq> Some k \<Longrightarrow> c_leaves (leaf_retire c old) ! k = c_leaves c ! k"
proof -
  have "length (c_leaves (leaf_retire c old)) = length (c_leaves c) \<and>
      (old \<noteq> Some k \<longrightarrow> c_leaves (leaf_retire c old) ! k = c_leaves c ! k)"
  proof (cases old)
    case (Some l)
    let ?c = "leaf_sub_live c (leaf_at c l)"
    obtain ls df where "dfree_push ?c l = ?c\<lparr>c_leaves := ls, c_dfree := df\<rparr>"
      "(ls, df) = ((c_leaves ?c)[l := None], c_dfree ?c) \<or> (ls, df) = (c_leaves ?c, c_dfree ?c @ [l])"
      using dfree_push_frame by blast
    with Some show ?thesis by (auto simp: leaf_retire_def leaf_sub_live_rms nth_upd)
  qed (simp add: leaf_retire_def)
  then show "length (c_leaves (leaf_retire c old)) = length (c_leaves c)"
    "old \<noteq> Some k \<Longrightarrow> c_leaves (leaf_retire c old) ! k = c_leaves c ! k" by auto
qed

text \<open>What a publication does not touch.\<close>

definition same_rest :: "cache \<Rightarrow> cache \<Rightarrow> bool" where
  "same_rest c c' \<longleftrightarrow> c_cfg c' = c_cfg c \<and> c_layout c' = c_layout c \<and> c_shapes c' = c_shapes c \<and>
    c_writers c' = c_writers c \<and> c_ctxs c' = c_ctxs c \<and> c_acks c' = c_acks c \<and> c_stop c' = c_stop c"

text \<open>The leaf of \<open>node\<close> is new and every other one as before.\<close>

definition leaf_replaced :: "cache \<Rightarrow> nat \<Rightarrow> radix_leaf \<Rightarrow> cache \<Rightarrow> bool" where
  "leaf_replaced c node lf c' \<longleftrightarrow> (\<exists>l. node_leaf c' node = Some l \<and> leaf_at c' l = lf) \<and>
    (\<forall>q. follow (rt_nodes (c_radix c')) 0 q = follow (rt_nodes (c_radix c)) 0 q) \<and>
    (\<forall>n l. n < length (rt_nodes (c_radix c)) \<and> n \<noteq> node \<and> node_leaf c n = Some l \<longrightarrow>
      node_leaf c' n = Some l \<and> leaf_at c' l = leaf_at c l)"

lemma leaf_publish_new:
  assumes inv: "cache_inv c" and io: "io_ok c" and node: "node < length (rt_nodes (c_radix c))" and a: "leaf_addr_ok c addr"
    and mem: "no_oom (rt_mem (c_radix c))" and w: "i < c_n_devs c" and fl: "flags AND KV_CHUNK_F_STRIPE = 0"
    and newer: "\<And>l. node_leaf c node = Some l \<Longrightarrow> lf_ver (leaf_at c l) < ver"
  shows "\<exists>c'. leaf_publish c (Some i) node p g ver addr 0 flags si sn st dl sh path pl = Some c' \<and> cache_inv c' \<and> io_step c c' \<and>
    same_rest c c' \<and> no_oom (rt_mem (c_radix c')) \<and> leaf_replaced c node (leaf_new p ver addr 0 sh) c' \<and>
    (\<forall>d. c_dram c' = Some d \<longrightarrow> dram_lookup d (p, g) = None)"
proof -
  note D = cache_invD [OF inv]
  let ?old = "node_leaf c node"
  obtain rms ls df where r: "leaf_retire c ?old = c\<lparr>c_rms := rms, c_leaves := ls, c_dfree := df\<rparr>" "same_geom (c_rms c) rms"
    using retire_ok [OF inv node refl] by blast
  let ?c1 = "c\<lparr>c_rms := rms, c_leaves := ls, c_dfree := df\<rparr>"
  obtain d where d: "cache_dram_invalidate ?c1 p g = Some (?c1\<lparr>c_dram := d\<rparr>)" "\<forall>x. d = Some x \<longrightarrow> dram_lookup x (p, g) = None"
  proof (cases "c_dram c")
    case None
    then show ?thesis using that [of None] by (simp add: cache_dram_invalidate_def)
  next
    case (Some x)
    obtain x' where "dram_invalidate x p g = Some x'" "dram_lookup x' = (dram_lookup x)((p, g) := None)"
      using dram_invalidate_ok [OF D(5) [OF Some]] by blast
    with Some show ?thesis using that [of "Some x'"] by (simp add: cache_dram_invalidate_def)
  qed
  obtain m where m: "alloc (rt_mem (c_radix c)) = (True, m)" "no_oom m" using alloc_no_oom [OF mem] by blast
  let ?c2 = "?c1\<lparr>c_dram := d, c_radix := (c_radix c)\<lparr>rt_mem := m\<rparr>\<rparr>"
  let ?lf = "leaf_new p ver addr 0 sh"
  define c3 where "c3 = leaf_install ?c2 node ?old ?lf addr"
  define c' where "c' = leaf_journal c3 (Some i) p g ver addr (ka_expire_ts addr) 0 0 (flags OR 0) dl sh path pl"
  have old: "\<not> (case ?old of None \<Rightarrow> False | Some l \<Rightarrow> lf_ver (leaf_at c l) > ver)"
    "\<not> (case ?old of None \<Rightarrow> False | Some l \<Rightarrow> lf_ver (leaf_at c l) = ver)"
    using newer by (auto split: option.splits)
  have pub: "leaf_publish c (Some i) node p g ver addr 0 flags si sn st dl sh path pl = Some c'"
    unfolding leaf_publish_def Let_def r(1) d(1) using old fl m(1) by (simp add: c_alloc_def c3_def c'_def)
  have inv': "cache_inv c'" using leaf_publish_inv [OF inv node a pub] .
  obtain rms3 where eq3: "c3 = ?c2\<lparr>c_leaves := ls @ [Some ?lf], c_rms := rms3, c_radix := (c_radix c)\<lparr>rt_mem := m,
      rt_nodes := (rt_nodes (c_radix c))[node := (rt_nodes (c_radix c) ! node)\<lparr>rn_leaf := Some (length ls)\<rparr>],
      rt_n_leaves := rt_n_leaves (c_radix c) + (if ?old = None then 1 else 0)\<rparr>\<rparr>" "same_geom rms rms3"
  proof -
    have e: "ext_ok rms (addr_ext addr)" using a r(2) by (simp add: leaf_addr_ok_def same_geom_ext_ok)
    show ?thesis
      by (rule that [of "rms_ext (+) (addr_ext addr) rms"], simp add: c3_def leaf_install_def Let_def region_live_add_rms node_set_leaf_def
          n_leaves_add_def addr_ext_def, rule lv_upd_geom [OF rms_add_lv [OF e]])
  qed
  have s3: "io_step c c3"
    using r(2) eq3(2) by (intro io_step_frame [OF io]) (simp_all add: eq3(1) same_geom_trans)
  then have io3: "io_ok c3" "i < c_n_devs c3" using w by (simp_all add: io_step_def)
  have s': "io_step c c'" unfolding c'_def by (rule io_step_trans [OF s3 leaf_journal_step]) (use io3 in simp_all)
  obtain js ds b where j: "c' = c3\<lparr>c_journals := js, c_devs := ds, c_ckpt_wanted := b\<rparr>"
    unfolding c'_def using leaf_journal_frame [of c3 "Some i" p g ver addr "ka_expire_ts addr" 0 0 "flags OR 0" dl sh path pl] by blast
  have len: "length ls = length (c_leaves c)" using leaf_retire_keeps(1) [of c ?old] r(1) by simp
  have keep: "ls ! l = c_leaves c ! l" if "n < length (rt_nodes (c_radix c))" "n \<noteq> node" "node_leaf c n = Some l" for n l
  proof -
    have "?old \<noteq> Some l" using that leaves_okD(2) [OF D(2), of n node l] node by (auto simp: atts_nth)
    then show ?thesis using leaf_retire_keeps(2) [of ?old l c] r(1) by simp
  qed
  have "leaf_replaced c node ?lf c'"
    unfolding leaf_replaced_def
  proof (intro conjI allI impI)
    show "\<exists>l. node_leaf c' node = Some l \<and> leaf_at c' l = ?lf"
      using node by (intro exI [of _ "length ls"]) (simp add: j eq3(1) node_leaf_def leaf_at_def)
    show "follow (rt_nodes (c_radix c')) 0 q = follow (rt_nodes (c_radix c)) 0 q" for q by (simp add: j eq3(1))
    fix n l assume n: "n < length (rt_nodes (c_radix c)) \<and> n \<noteq> node \<and> node_leaf c n = Some l"
    then show "node_leaf c' n = Some l" by (simp add: j eq3(1) node_leaf_def)
    have "l < length ls" using attached_leaf(1) [OF inv, of n l] n len by simp
    then show "leaf_at c' l = leaf_at c l" using keep [of n l] n by (simp add: j eq3(1) leaf_at_def nth_append)
  qed
  moreover have "same_rest c c'" by (simp add: same_rest_def j eq3(1))
  moreover have "no_oom (rt_mem (c_radix c'))" using m(2) by (simp add: j eq3(1))
  moreover have "c_dram c' = d" by (simp add: j eq3(1))
  ultimately show ?thesis using pub inv' s' d(2) by blast
qed

section \<open>The node of a request\<close>

lemma side_slot_map:
  assumes "side_inv t" and "s \<in> set (st_slots t)" and "ss_used s \<noteq> 0"
  shows "side_map t (ss_prefix_id s, ss_group_idx s) = Some (ss_node s)"
proof -
  obtain j where "j < length (st_slots t)" "st_slots t ! j = s" using assms(2) by (auto simp: in_set_conv_nth)
  then show ?thesis using probe_map_eqI [OF side_invD(1) [OF assms(1)], of j] assms(3) by (simp add: side_map_def)
qed

lemma side_put_nodes_ok:
  assumes inv: "cache_inv c" and small: "unat (st_count (c_side c)) < 2 ^ 26" and n: "n < length (rt_nodes (c_radix c))"
  shows "\<exists>t. side_put (c_side c) p g (Some n) = Some (KV_EOK, t) \<and> cache_inv (c\<lparr>c_side := t\<rparr>) \<and>
    side_map t = (side_map (c_side c))((p, g) \<mapsto> Some n)"
proof -
  note D = cache_invD [OF inv]
  have sd: "side_inv (c_side c)" using D(6) by (simp add: side_nodes_ok_def)
  obtain t where t: "side_put (c_side c) p g (Some n) = Some (KV_EOK, t)" "side_inv t"
      "side_map t = (side_map (c_side c))((p, g) \<mapsto> Some n)"
    using side_put_ok [OF sd small] by blast
  have "\<exists>m. ss_node s = Some m \<and> m < length (rt_nodes (c_radix c))" if s: "s \<in> set (st_slots t)" "ss_used s \<noteq> 0" for s
  proof (cases "(ss_prefix_id s, ss_group_idx s) = (p, g)")
    case True
    then have "ss_node s = Some n" using side_slot_map [OF t(2) s] t(3) by simp
    then show ?thesis using n by simp
  next
    case False
    then have "side_map (c_side c) (ss_prefix_id s, ss_group_idx s) = Some (ss_node s)" using side_slot_map [OF t(2) s] t(3) by auto
    then obtain s' where "s' \<in> set (st_slots (c_side c))" "ss_used s' \<noteq> 0" "ss_node s' = ss_node s"
      by (auto simp: side_map_def in_set_conv_nth dest!: probe_map_SomeD)
    then show ?thesis using D(6) by (force simp: side_nodes_ok_def)
  qed
  then have "side_nodes_ok (c\<lparr>c_side := t\<rparr>)" using t(2) by (simp add: side_nodes_ok_def)
  moreover have "atts (c\<lparr>c_side := t\<rparr>) = atts c" by (simp add: atts_def)
  ultimately have "cache_inv (c\<lparr>c_side := t\<rparr>)" using D by (intro cache_invI) (simp_all add: cache_dims_def)
  with t show ?thesis by blast
qed

text \<open>The side table, if it knows the key, knows the node of the path; the tables are within their bounds.\<close>

definition index_ready :: "cache \<Rightarrow> u64 \<Rightarrow> u32 \<Rightarrow> u64 list \<Rightarrow> bool" where
  "index_ready c pid g path \<longleftrightarrow> 0 \<notin> set path \<and> length (rt_nodes (c_radix c)) + length path < 2 ^ 26 \<and>
    unat (st_count (c_side c)) < 2 ^ 26 \<and>
    (\<forall>node. side_get (c_side c) pid g = Some (Some node) \<longrightarrow> follow (rt_nodes (c_radix c)) 0 path = Some node)"

lemma req_node_ok:
  assumes inv: "cache_inv c" and mem: "no_oom (rt_mem (c_radix c))"
    and hs: "rq_hashes r = Some hs" and ready: "index_ready c (rq_prefix_id r) (rq_group_idx r) (take (unat (rq_group_idx r + 1)) hs)"
  shows "\<exists>node t sd. req_node c r = Some (Some node, c\<lparr>c_radix := t, c_side := sd\<rparr>) \<and> cache_inv (c\<lparr>c_radix := t, c_side := sd\<rparr>) \<and>
    no_oom (rt_mem t) \<and> follow (rt_nodes t) 0 (take (unat (rq_group_idx r + 1)) hs) = Some node \<and>
    (\<forall>l. rn_leaf (rt_nodes t ! node) = Some l \<longrightarrow> node < length (rt_nodes (c_radix c)) \<and> node_leaf c node = Some l) \<and>
    heap_ext (rt_nodes (c_radix c)) (rt_nodes t)"
proof -
  note D = cache_invD [OF inv]
  let ?p = "rq_prefix_id r" and ?g = "rq_group_idx r" and ?path = "take (unat (rq_group_idx r + 1)) hs"
  note R = ready [unfolded index_ready_def]
  have h: "heap_inv (rt_nodes (c_radix c))" using D(4) by (simp add: radix_inv_def)
  have sd: "side_inv (c_side c)" using D(6) by (simp add: side_nodes_ok_def)
  obtain res where res: "side_get (c_side c) ?p ?g = Some res" using side_get_map [OF sd] by blast
  show ?thesis
  proof (cases res)
    case (Some node)
    have f: "follow (rt_nodes (c_radix c)) 0 ?path = Some node" using R res Some by simp
    have "node < length (rt_nodes (c_radix c))" using follow_less [OF h heap_invD(1) [OF h] f] .
    then show ?thesis using res Some inv mem f
      by (intro exI [of _ node] exI [of _ "c_radix c"] exI [of _ "c_side c"])
        (simp add: req_node_def node_leaf_def heap_ext_refl)
  next
    case None
    obtain j t where t: "radix_walk (c_radix c) ?path True = Some (Some j, t)" "cache_inv (c\<lparr>c_radix := t\<rparr>)" "no_oom (rt_mem t)"
        "follow (rt_nodes t) 0 ?path = Some j" "heap_ext (rt_nodes (c_radix c)) (rt_nodes t)"
        "\<forall>l. rn_leaf (rt_nodes t ! j) = Some l \<longrightarrow> follow (rt_nodes (c_radix c)) 0 ?path = Some j \<and> node_leaf c j = Some l"
      using cache_walk_create [OF inv _ mem, of ?path] R by blast
    have ht: "heap_inv (rt_nodes t)" using cache_invD(4) [OF t(2)] by (simp add: radix_inv_def)
    have jl: "j < length (rt_nodes (c_radix (c\<lparr>c_radix := t\<rparr>)))" using follow_less [OF ht heap_invD(1) [OF ht] t(4)] by simp
    obtain s where s: "side_put (c_side c) ?p ?g (Some j) = Some (KV_EOK, s)" "cache_inv (c\<lparr>c_radix := t, c_side := s\<rparr>)"
      using side_put_nodes_ok [OF t(2) _ jl, of ?p ?g] R by auto
    have "req_node c r = Some (Some j, c\<lparr>c_radix := t, c_side := s\<rparr>)"
      unfolding req_node_def using res None hs t(1) s(1) by simp
    moreover have "j < length (rt_nodes (c_radix c))" if "follow (rt_nodes (c_radix c)) 0 ?path = Some j"
      using follow_less [OF h heap_invD(1) [OF h] that] .
    ultimately show ?thesis using s(2) t by blast
  qed
qed

section \<open>Placement in a region\<close>

text \<open>\<open>np\<close> pages from page \<open>pg\<close> lie in region \<open>idx\<close> after its header.\<close>

definition in_region_data :: "region_mgr \<Rightarrow> nat \<Rightarrow> nat \<Rightarrow> nat \<Rightarrow> bool" where
  "in_region_data rm idx pg np \<longleftrightarrow> idx < unat (rm_region_cnt rm) \<and>
    kRegionBasePage + idx * unat (rm_region_size_pages rm) < pg \<and>
    pg + np \<le> kRegionBasePage + Suc idx * unat (rm_region_size_pages rm)"

lemma region_data_no_meta:
  assumes fits: "rm_fits rm d" and r: "in_region_data rm idx pg np"
  shows "meta_area rm \<inter> {pg..<pg + np} = {}" and "pg + np \<le> dev_pages d"
proof -
  let ?s = "unat (rm_region_size_pages rm)" and ?n = "unat (rm_region_cnt rm)"
  have last: "Suc idx * ?s \<le> ?n * ?s" using r by (intro mult_le_mono1) (simp add: in_region_data_def)
  then show "pg + np \<le> dev_pages d" using fits r unfolding rm_fits_def in_region_data_def by linarith
  have "page_base rm k \<notin> {pg..<pg + np}" if k: "k < ?n" for k
  proof
    assume m: "page_base rm k \<in> {pg..<pg + np}"
    have b: "page_base rm k = kRegionBasePage + k * ?s" using page_base_ok(1) [OF fits k] .
    have "kRegionBasePage + idx * ?s < pg" "pg + np \<le> kRegionBasePage + Suc idx * ?s" using r by (simp_all add: in_region_data_def)
    moreover have "pg \<le> kRegionBasePage + k * ?s" "kRegionBasePage + k * ?s < pg + np" using m b by simp_all
    ultimately have "idx * ?s < k * ?s" "k * ?s < Suc idx * ?s" by linarith+
    then have "idx < k" "k < Suc idx" by (simp_all only: mult_less_cancel2)
    then show False by simp
  qed
  then show "meta_area rm \<inter> {pg..<pg + np} = {}"
    using r last by (auto simp: meta_area_def in_region_data_def)
qed

lemma region_data_ext_ok:
  assumes dims: "cache_dims c" and i: "i < c_n_devs c" and r: "in_region_data (c_rms c ! i) idx (unat page) np" and np: "0 < np"
    and dv: "dv = of_nat i"
  shows "dv \<noteq> KV_INVALID_DEV \<and> unat dv = i \<and> ext_ok (c_rms c) (dv, page, len)"
proof -
  let ?rm = "c_rms c ! i"
  let ?s = "unat (rm_region_size_pages ?rm)"
  note G = cache_dims_rm [OF dims i]
  have n: "c_n_devs c < 2 ^ 31" "length (c_rms c) = c_n_devs c" using dims by (simp_all add: cache_dims_def)
  have u: "unat dv = i" unfolding dv using n i by (simp add: unat_of_nat_u32)
  then have inv: "dv \<noteq> KV_INVALID_DEV" using n i by (auto simp: KV_INVALID_DEV_def)
  have "Suc idx * ?s \<le> unat (rm_region_cnt ?rm) * ?s" using r by (intro mult_le_mono1) (simp add: in_region_data_def)
  then have pg: "kRegionBasePage \<le> unat page" "unat page < kRegionBasePage + unat (rm_region_cnt ?rm) * ?s"
    using r np unfolding in_region_data_def by linarith+
  have ro: "region_of_page ?rm page = int ((unat page - kRegionBasePage) div ?s)"
    using region_of_page_exact [OF pg G(3)] .
  have "(unat page - kRegionBasePage) div ?s < unat (rm_region_cnt ?rm)"
    using pg by (intro less_mult_imp_div_less) linarith
  then have "ext_ok (c_rms c) (dv, page, len)"
    using inv u i n pg G(1) ro by (simp add: ext_ok_def)
  with inv u show ?thesis by simp
qed

lemma payload_at_step:
  assumes "payload_at c a p" and "io_ok c" and "io_step c c'"
    and "in_region_data (c_rms c ! unat (ka_dev_id a)) idx (unat (ka_page_no a)) (unat (ka_len_pages a))"
  shows "payload_at c' a p"
proof -
  let ?i = "unat (ka_dev_id a)"
  have i: "?i < c_n_devs c" using assms(1) by (simp add: payload_at_def Let_def)
  note R = region_data_no_meta [OF io_okD(4) [OF assms(2) i] assms(4)]
  have up: "dev_upto (meta_area (c_rms c ! ?i)) (c_devs c ! ?i) (c_devs c' ! ?i)" using assms(3) i by (simp add: io_step_def)
  from dev_upto_range [OF up R(2,1)] assms(1) up show ?thesis
    using assms(3) by (simp add: payload_at_def Let_def io_step_def dev_upto_def)
qed

section \<open>Publishing a request\<close>

definition versions_below :: "cache \<Rightarrow> u32 \<Rightarrow> bool" where
  "versions_below c ver \<longleftrightarrow>
    (\<forall>n l. n < length (rt_nodes (c_radix c)) \<and> node_leaf c n = Some l \<longrightarrow> lf_ver (leaf_at c l) < ver)"

text \<open>A request as a plain put makes it.\<close>

definition req_plain :: "cache \<Rightarrow> put_req \<Rightarrow> u64 list \<Rightarrow> u32 list \<Rightarrow> bool" where
  "req_plain c r path lens \<longleftrightarrow> rq_flags r = 0 \<and> rq_slot r = 0 \<and> \<not> rq_gc_req r \<and> rq_ver r \<noteq> 0 \<and>
    rq_hashes r = Some path \<and> length path = unat (rq_group_idx r + 1) \<and>
    (\<exists>s. rq_shape r = Some s \<and> sh_lens (c_shapes c ! s) = lens \<and> unat (sh_n_recs (c_shapes c ! s)) = length lens) \<and>
    length lens \<le> KV_MAX_LAYERS_CAP"

lemma batch_publish_req_stored:
  assumes inv: "cache_inv c" and io: "io_ok c" and mem: "no_oom (rt_mem (c_radix c))" and i: "i < c_n_devs c"
    and req: "req_plain c r path lens" and ready: "index_ready c (rq_prefix_id r) (rq_group_idx r) path"
    and newer: "versions_below c (rq_ver r)" and len: "sum_list (map unat lens) = length p" "length p < 2 ^ 31"
    and reg: "in_region_data (c_rms c ! i) idx (unat (rq_page_no r)) (unat (rq_npages r))"
    and data: "payload_at c (req_addr clk i r) p"
  shows "\<exists>c' lf. batch_publish_req clk i r c = Some c' \<and> cache_inv c' \<and> io_step c c' \<and> same_rest c c' \<and>
    no_oom (rt_mem (c_radix c')) \<and> leaf_stored c' path lf p lens \<and> lf_ver lf = rq_ver r \<and>
    ka_expire_ts (lf_addr0 lf) = rq_expire_ts r \<and> lf_addr0 lf = req_addr clk i r \<and>
    (\<forall>d. c_dram c' = Some d \<longrightarrow> dram_lookup d (rq_prefix_id r, rq_group_idx r) = None)"
proof -
  have R: "rq_flags r = 0" "rq_slot r = 0" "\<not> rq_gc_req r" "rq_ver r \<noteq> 0" "rq_hashes r = Some path"
    "take (unat (rq_group_idx r + 1)) path = path" using req by (simp_all add: req_plain_def)
  obtain s where s: "rq_shape r = Some s" "sh_lens (c_shapes c ! s) = lens" "unat (sh_n_recs (c_shapes c ! s)) = length lens"
      "length lens \<le> KV_MAX_LAYERS_CAP" using req by (auto simp: req_plain_def)
  obtain node t sd where n: "req_node c r = Some (Some node, c\<lparr>c_radix := t, c_side := sd\<rparr>)" "cache_inv (c\<lparr>c_radix := t, c_side := sd\<rparr>)"
      "no_oom (rt_mem t)" "follow (rt_nodes t) 0 path = Some node"
      "\<forall>l. rn_leaf (rt_nodes t ! node) = Some l \<longrightarrow> node < length (rt_nodes (c_radix c)) \<and> node_leaf c node = Some l"
    using req_node_ok [OF inv mem R(5)] ready R(6) by auto
  let ?c1 = "c\<lparr>c_radix := t, c_side := sd\<rparr>"
  let ?a = "req_addr clk i r"
  have ht: "heap_inv (rt_nodes t)" using cache_invD(4) [OF n(2)] by (simp add: radix_inv_def)
  have nl: "node < length (rt_nodes (c_radix ?c1))" using follow_less [OF ht heap_invD(1) [OF ht] n(4)] by simp
  have io1: "io_step c ?c1" by (intro io_step_frame [OF io]) simp_all
  have aa: "ka_dev_id ?a = of_nat i" "ka_page_no ?a = rq_page_no r" "ka_len_pages ?a = rq_npages r" "ka_expire_ts ?a = rq_expire_ts r"
    by (simp_all add: req_addr_def)
  have np: "0 < unat (rq_npages r)" using data by (simp add: payload_at_def Let_def aa)
  note E = region_data_ext_ok [OF cache_invD(1) [OF inv] i reg np aa(1), of "rq_npages r"]
  have addr: "leaf_addr_ok ?c1 ?a" using E by (simp add: leaf_addr_ok_def addr_ext_def aa)
  have nw: "lf_ver (leaf_at ?c1 l) < rq_ver r" if "node_leaf ?c1 node = Some l" for l
    using that n(5) newer by (auto simp: node_leaf_def leaf_at_def versions_below_def)
  have io1': "io_ok ?c1" using io1 by (simp add: io_step_def)
  obtain c' where c': "leaf_publish ?c1 (Some i) node (rq_prefix_id r) (rq_group_idx r) (rq_ver r) ?a 0 0 (rq_stripe_idx r)
        (rq_stripe_cnt r) (rq_stripe_total r) (rq_data_len r) (Some s) (Some path) (rq_group_idx r + 1) = Some c'"
      "cache_inv c'" "io_step ?c1 c'" "same_rest ?c1 c'" "no_oom (rt_mem (c_radix c'))"
      "leaf_replaced ?c1 node (leaf_new (rq_prefix_id r) (rq_ver r) ?a 0 (Some s)) c'"
      "\<forall>d. c_dram c' = Some d \<longrightarrow> dram_lookup d (rq_prefix_id r, rq_group_idx r) = None"
    using leaf_publish_new [OF n(2) io1' nl addr, of i 0 "rq_ver r" "rq_prefix_id r" "rq_group_idx r" "rq_stripe_idx r"
        "rq_stripe_cnt r" "rq_stripe_total r" "rq_data_len r" "Some s" "Some path" "rq_group_idx r + 1"] n(3) i nw by auto
  let ?lf = "leaf_new (rq_prefix_id r) (rq_ver r) ?a 0 (Some s)"
  have st: "io_step c c'" by (rule io_step_trans [OF io1 c'(3)])
  have lf: "lf_ver ?lf = rq_ver r" "lf_addr0 ?lf = ?a" "lf_stripe ?lf = None" "lf_shape ?lf = Some s"
    by (simp_all add: leaf_new_def Let_def radix_leaf0_def)
  have "payload_at c' ?a p" by (rule payload_at_step [OF data io st]) (use reg E aa in simp)
  then have "leaf_data c' ?lf p lens"
    using s R(4) len c'(4) by (simp add: leaf_data_def lf same_rest_def)
  moreover obtain l where "node_leaf c' node = Some l" "leaf_at c' l = ?lf" "follow (rt_nodes (c_radix c')) 0 path = Some node"
    using c'(6) n(4) by (auto simp: leaf_replaced_def)
  ultimately have "leaf_stored c' path ?lf p lens" by (auto simp: leaf_stored_def)
  moreover have "batch_publish_req clk i r c = Some c'"
    unfolding batch_publish_req_def n(1) using c'(1) R s(1) by (simp add: req_publish_def)
  moreover have "same_rest c c'" using c'(4) by (simp add: same_rest_def)
  ultimately show ?thesis using c'(2,5,7) st lf aa by (intro exI [of _ c'] exI [of _ ?lf]) simp
qed

end
