(* ===== verification/KV_Demo.thy ===== *)
theory KV_Demo
  imports KV_Publish KV_Open
begin

text \<open>
  A small cache, freshly opened, on which the properties of whole operations are shown to apply: one
  device with one region of eight pages and a journal of one page, an idle writer, and the arguments
  of a put of two records.
\<close>

definition demo_dev :: device where
  "demo_dev = dev_demo\<lparr>dv_data := zeros ((kRegionBasePage + 9) * KV_PAGE_SIZE), dv_os := []\<rparr>"

definition demo_writer :: shard_writer where
  "demo_writer = shard_writer0\<lparr>sw_next_page := 1, sw_q := snd (mpsc_init True mpsc_ring0 12),
    sw_batch := [batch_start (20 * 4096) batch_buf0, batch_start (20 * 4096) batch_buf0]\<rparr>"

definition demo_cache :: cache where
  "demo_cache = (cache_fresh kv_config_default (kv_layout_derive kv_config_default) radix_t0 None demo_dev 1 None)
    \<lparr>c_rms := [rm_init 1 8], c_journals := [snd (journal_init True demo_dev (kRegionBasePage + 8) 1)],
     c_writers := [demo_writer]\<rparr>"

lemma demo_dev_ok: "dev_ok demo_dev" "dev_pages demo_dev = kRegionBasePage + 9"
  by (simp_all add: dev_ok_def dev_pages_def demo_dev_def KV_PAGE_SIZE_def kRegionBasePage_def zeros_def)

lemma demo_simps:
  "c_devs demo_cache = [demo_dev]" "c_rms demo_cache = [rm_init 1 8]" "c_n_devs demo_cache = 1"
  "c_journals demo_cache = [snd (journal_init True demo_dev (kRegionBasePage + 8) 1)]" "c_writers demo_cache = [demo_writer]"
  "c_radix demo_cache = radix_t0" "c_side demo_cache = side_init" "c_leaves demo_cache = []" "c_dfree demo_cache = []"
  "c_dram demo_cache = None" "c_cfg demo_cache = kv_config_default" "c_shapes demo_cache = []" "c_stop demo_cache = False"
  "c_ver_counter demo_cache = 0" "c_acks demo_cache = []" "c_ctxs demo_cache = []"
  by (simp_all add: demo_cache_def cache_fresh_def)

lemma demo_inv: "cache_inv demo_cache"
proof (rule cache_invI)
  show "cache_dims demo_cache" by (simp add: cache_dims_def demo_simps rm_init_def kRegionBasePage_def)
  show "leaves_ok (c_rms demo_cache) (atts demo_cache) (c_leaves demo_cache) (c_dfree demo_cache)"
    by (simp add: leaves_ok_def accounts_ok_def demo_simps atts_def radix_t0_def node_new_def att_live_def lv_def rm_init_def region_sh0_def)
  show "rt_n_leaves (c_radix demo_cache) = of_nat (n_att (atts demo_cache))"
    by (simp add: demo_simps atts_def n_att_def radix_t0_def node_new_def)
  show "radix_inv (c_radix demo_cache)" using radix_t0_inv by (simp add: demo_simps)
  show "side_nodes_ok demo_cache"
    using side_init_inv by (simp add: side_nodes_ok_def demo_simps) (simp add: side_init_def side_slot0_def)
qed (simp add: demo_simps)

lemma demo_io: "io_ok demo_cache"
  using demo_dev_ok
  by (simp add: io_ok_def demo_simps rm_fits_def rm_init_def journal_geo_def journal_init_def zeros_def)

definition demo_mem :: user_mem where
  "demo_mem k = (if k = 0 then [9, 8, 7] else [])"

definition demo_refs :: "put_ref list" where
  "demo_refs = [\<lparr>pr_base = Caller 0, pr_off = 0, pr_len = 2\<rparr>, \<lparr>pr_base = Caller 0, pr_off = 2, pr_len = 1\<rparr>]"

definition demo_clock :: clock where
  "demo_clock = \<lparr>ck_s = 100, ck_ms = 100000, ck_ns = 100000000\<rparr>"

end
