(* ===== verification/KV_Roundtrip.thy ===== *)
theory KV_Roundtrip
  imports KV_Demo
begin

text \<open>
  From a put to a get: the request goes through the queue and one batch of the writer to the
  device, its leaf is published, the caller is acknowledged once, and a get returns the payload.
\<close>

section \<open>Steps that keep the index\<close>

definition quiet_step :: "cache \<Rightarrow> cache \<Rightarrow> bool" where
  "quiet_step c c' \<longleftrightarrow> io_step c c' \<and> cache_inv c' \<and> c_radix c' = c_radix c \<and> c_leaves c' = c_leaves c \<and>
    c_shapes c' = c_shapes c \<and> c_dram c' = c_dram c \<and> c_side c' = c_side c \<and> c_cfg c' = c_cfg c \<and> c_layout c' = c_layout c"

lemma quiet_step_refl: "cache_inv c \<Longrightarrow> io_ok c \<Longrightarrow> quiet_step c c"
  by (simp add: quiet_step_def io_step_refl)

lemma quiet_step_trans: "quiet_step a b \<Longrightarrow> quiet_step b c \<Longrightarrow> quiet_step a c"
  by (auto simp: quiet_step_def intro: io_step_trans)

lemma quiet_stepD:
  assumes "quiet_step c c'"
  shows "cache_inv c'" "io_ok c'" "c_n_devs c' = c_n_devs c" "c_radix c' = c_radix c" "c_dram c' = c_dram c"
    "c_cfg c' = c_cfg c" "c_layout c' = c_layout c" "same_geom (c_rms c) (c_rms c')" "c_side c' = c_side c"
  using assms by (auto simp: quiet_step_def io_step_def)

lemma stored_quiet:
  assumes st: "leaf_stored c path lf p lens" and io: "io_ok c" and q: "quiet_step c c'"
    and r: "in_region_data (c_rms c ! unat (ka_dev_id (lf_addr0 lf))) idx (unat (ka_page_no (lf_addr0 lf)))
      (unat (ka_len_pages (lf_addr0 lf)))"
  shows "leaf_stored c' path lf p lens"
proof -
  have "payload_at c (lf_addr0 lf) p" using st by (simp add: leaf_stored_def leaf_data_def)
  then have "payload_at c' (lf_addr0 lf) p"
    using payload_at_step [OF _ io _ r] q by (simp add: quiet_step_def)
  with st q show ?thesis by (simp add: leaf_stored_def leaf_data_def quiet_step_def node_leaf_def leaf_at_def)
qed

lemma quiet_frame:
  assumes "cache_inv c" and "io_ok c"
  shows "quiet_step c (c\<lparr>c_writers := ws\<rparr>)" "quiet_step c (c\<lparr>c_ctxs := cx\<rparr>)" "quiet_step c (c\<lparr>c_acks := ak\<rparr>)"
    "quiet_step c (c\<lparr>c_stat := st\<rparr>)" "quiet_step c (c\<lparr>c_m := m\<rparr>)"
  using assms io_step_refl [OF assms(2)] by (simp_all add: quiet_step_def io_step_def io_ok_def)

lemma quiet_w_upd: "cache_inv c \<Longrightarrow> io_ok c \<Longrightarrow> quiet_step c (w_upd c i f)"
  unfolding w_upd_def by (rule quiet_frame)

lemma quiet_bb_upd: "cache_inv c \<Longrightarrow> io_ok c \<Longrightarrow> quiet_step c (bb_upd c i b f)"
  unfolding bb_upd_def by (rule quiet_w_upd)

lemma quiet_flush:
  assumes "cache_inv c" and "io_ok c" and "i < c_n_devs c"
  shows "quiet_step c (snd (with_journal c i journal_flush))"
proof -
  obtain js ds where f: "snd (with_journal c i journal_flush) = c\<lparr>c_journals := js, c_devs := ds\<rparr>"
    using with_journal_frame by blast
  have "io_step c (snd (with_journal c i journal_flush))"
    by (rule with_journal_step [OF assms(2,3)]) (rule journal_flush_upto)
  moreover have "cache_inv (snd (with_journal c i journal_flush))" using assms(1) by simp
  ultimately show ?thesis unfolding quiet_step_def by (simp add: f)
qed

lemma quiet_watermark:
  assumes inv: "cache_inv c" and io: "io_ok c" and i: "i < c_n_devs c"
    and idx: "sw_region (w_at c i) < unat (rm_region_cnt (c_rms c ! i))"
  shows "quiet_step c (writer_watermark c i)"
proof -
  let ?idx = "sw_region (w_at c i)"
  have len: "i < length (c_rms c)" "?idx < length (rm_rg (c_rms c ! i))"
    using inv i idx cache_dims_rm(1) [OF cache_invD(1) [OF inv] i] by (simp_all add: cache_inv_def cache_dims_def)
  have hd: "quiet_step c (snd (cache_write_header (rm_set_sh c i ?idx (\<lambda>sh. sh\<lparr>rs_watermark_page := rel\<rparr>)) i ?idx))" for rel
  proof -
    let ?c1 = "rm_set_sh c i ?idx (\<lambda>sh. sh\<lparr>rs_watermark_page := rel\<rparr>)"
    have inv1: "cache_inv ?c1" by (rule rm_set_sh_inv [OF inv i]) (use len in simp_all)
    have g: "same_geom (c_rms c) (c_rms ?c1)" using len by (auto simp: rm_set_sh_def Let_def same_geom_def nth_upd)
    have s1: "io_step c ?c1" by (rule io_step_frame [OF io _ _ _ g]) (simp_all add: rm_set_sh_def Let_def)
    have "io_step ?c1 (snd (cache_write_header ?c1 i ?idx))"
      by (rule cache_write_header_step) (use s1 i idx len in \<open>simp_all add: io_step_def rm_set_sh_def Let_def\<close>)
    from io_step_trans [OF s1 this] inv1 show ?thesis
      by (simp add: quiet_step_def) (simp add: cache_write_header_def rm_set_sh_def Let_def split: prod.split)
  qed
  have fw: "quiet_step c (writer_flush_watermark c i)"
    using hd quiet_step_refl [OF inv io] by (simp add: writer_flush_watermark_def Let_def)
  show ?thesis
    using quiet_step_trans [OF fw quiet_w_upd] quiet_stepD(1,2) [OF fw] quiet_step_refl [OF inv io]
    by (simp add: writer_watermark_def)
qed

text \<open>The last reference of a context: the caller is told, once.\<close>

lemma put_ctx_unref_last:
  assumes inv: "cache_inv c" and io: "io_ok c" and pc: "c_ctxs c ! k = Some pc" "pc_refs pc = 1" "pc_ack pc = Some u"
  shows "quiet_step c (put_ctx_unref clk c k)" and "c_acks (put_ctx_unref clk c k) = c_acks c @ [(u, pc_err pc)]"
    and "c_ctxs (put_ctx_unref clk c k) = (c_ctxs c)[k := None]" and "c_writers (put_ctx_unref clk c k) = c_writers c"
    and "c_stop (put_ctx_unref clk c k) = c_stop c"
proof -
  obtain st m where eq: "put_ctx_unref clk c k = c\<lparr>c_stat := st, c_m := m, c_acks := c_acks c @ [(u, pc_err pc)],
      c_ctxs := (c_ctxs c)[k := None]\<rparr>"
  proof -
    have "\<exists>st m. put_ctx_unref clk c k = c\<lparr>c_stat := st, c_m := m, c_acks := c_acks c @ [(u, pc_err pc)],
        c_ctxs := (c_ctxs c)[k := None]\<rparr>"
      using pc by (intro exI [of _ "c_stat (put_ctx_unref clk c k)"] exI [of _ "c_m (put_ctx_unref clk c k)"])
        (simp add: put_ctx_unref_def Let_def ctx_at_def ctx_set_def)
    then show ?thesis using that by blast
  qed
  show "quiet_step c (put_ctx_unref clk c k)"
    unfolding eq using inv io io_step_refl [OF io] by (simp add: quiet_step_def io_step_def io_ok_def)
  show "c_acks (put_ctx_unref clk c k) = c_acks c @ [(u, pc_err pc)]" "c_ctxs (put_ctx_unref clk c k) = (c_ctxs c)[k := None]"
    "c_writers (put_ctx_unref clk c k) = c_writers c" "c_stop (put_ctx_unref clk c k) = c_stop c" by (simp_all add: eq)
qed

section \<open>The batch\<close>

text \<open>The completion of a batch of one plain request whose pages are on the device.\<close>

lemma on_batch_one:
  assumes inv: "cache_inv c" and io: "io_ok c" and mem: "no_oom (rt_mem (c_radix c))" and i: "i < c_n_devs c" "i < length (c_writers c)"
    and bb: "sw_batch (c_writers c ! i) ! b = bb" "bb_reqs bb = [r]" "ic_first_err (bb_ictx bb) = KV_EOK"
      "b < length (sw_batch (c_writers c ! i))"
    and reg: "sw_region (c_writers c ! i) < unat (rm_region_cnt (c_rms c ! i))"
    and ctx: "c_ctxs c ! rq_ctx r = Some pc" "pc_refs pc = 1" "pc_ack pc = Some u" "pc_err pc = KV_EOK"
    and req: "req_plain c r path lens" and ready: "index_ready c (rq_prefix_id r) (rq_group_idx r) path"
    and newer: "versions_below c (rq_ver r)" and len: "sum_list (map unat lens) = length p" "length p < 2 ^ 31"
    and rd: "in_region_data (c_rms c ! i) idx (unat (rq_page_no r)) (unat (rq_npages r))"
    and data: "payload_at c (req_addr clk i r) p"
  shows "\<exists>c' lf. on_batch_io_done clk c i b = Some c' \<and> cache_inv c' \<and> io_ok c' \<and> no_oom (rt_mem (c_radix c')) \<and>
    leaf_stored c' path lf p lens \<and> lf_ver lf = rq_ver r \<and> ka_expire_ts (lf_addr0 lf) = rq_expire_ts r \<and>
    (\<forall>d. c_dram c' = Some d \<longrightarrow> dram_lookup d (rq_prefix_id r, rq_group_idx r) = None) \<and>
    c_acks c' = c_acks c @ [(u, KV_EOK)] \<and> c_n_devs c' = c_n_devs c \<and> c_cfg c' = c_cfg c \<and> length (c_writers c') = length (c_writers c) \<and>
    sw_batch (c_writers c' ! i) = (sw_batch (c_writers c ! i))[b := batch_reset bb]"
proof -
  define c1 where "c1 = (if cf_metrics_level (c_cfg c) \<ge> KV_MLEVEL_FULL \<and> bb_submit_ns bb \<noteq> 0
    then w_upd c i (\<lambda>w. w\<lparr>sw_h_batch := kv_hist_sample (sw_h_batch w) (ck_ns clk - bb_submit_ns bb)\<rparr>) else c)"
  have q1: "quiet_step c c1" using quiet_w_upd [OF inv io] quiet_step_refl [OF inv io] by (simp add: c1_def)
  define c2 where "c2 = w_upd c1 i (\<lambda>w. batch_confirm w bb)"
  note I1 = quiet_stepD [OF q1]
  have q2: "quiet_step c c2" unfolding c2_def by (rule quiet_step_trans [OF q1 quiet_w_upd]) (use I1 in simp_all)
  note I2 = quiet_stepD [OF q2]
  have rest2: "c_ctxs c2 = c_ctxs c" "c_acks c2 = c_acks c" "c_shapes c2 = c_shapes c" "c_rms c2 = c_rms c" "c_devs c2 = c_devs c"
    "c_leaves c2 = c_leaves c" "length (c_writers c2) = length (c_writers c)"
    "sw_batch (c_writers c2 ! i) = sw_batch (c_writers c ! i)" "sw_region (c_writers c2 ! i) = sw_region (c_writers c ! i)"
    using i(2) by (simp_all add: c2_def c1_def w_upd_def batch_confirm_def)
  have a2: "no_oom (rt_mem (c_radix c2))" "i < c_n_devs c2" "req_plain c2 r path lens"
    "index_ready c2 (rq_prefix_id r) (rq_group_idx r) path" "versions_below c2 (rq_ver r)"
    "in_region_data (c_rms c2 ! i) idx (unat (rq_page_no r)) (unat (rq_npages r))" "payload_at c2 (req_addr clk i r) p"
    using mem i(1) req ready newer rd data I2 rest2
    by (simp_all add: req_plain_def index_ready_def versions_below_def node_leaf_def leaf_at_def payload_at_def)
  obtain c3 lf where c3: "batch_publish_req clk i r c2 = Some c3" "cache_inv c3" "io_step c2 c3" "same_rest c2 c3"
      "no_oom (rt_mem (c_radix c3))" "leaf_stored c3 path lf p lens" "lf_ver lf = rq_ver r" "ka_expire_ts (lf_addr0 lf) = rq_expire_ts r"
      "lf_addr0 lf = req_addr clk i r" "\<forall>d. c_dram c3 = Some d \<longrightarrow> dram_lookup d (rq_prefix_id r, rq_group_idx r) = None"
    using batch_publish_req_stored [OF I2(1,2) a2(1,2,3,4,5) len a2(6,7)] by blast
  have g3: "c_n_devs c3 = c_n_devs c" "io_ok c3" "same_geom (c_rms c) (c_rms c3)" using c3(3) I2(3) rest2 by (simp_all add: io_step_def)
  have il: "i < length (c_rms c)" using io_okD(2) [OF io] i(1) by simp
  have cnt: "rm_region_cnt (c_rms c3 ! i) = rm_region_cnt (c_rms c ! i)"
    "rm_region_size_pages (c_rms c3 ! i) = rm_region_size_pages (c_rms c ! i)" using g3(3) il by (simp_all add: same_geom_def)
  define c4 where "c4 = writer_watermark c3 i"
  have w3: "c_writers c3 = c_writers c2" "c_ctxs c3 = c_ctxs c" "c_acks c3 = c_acks c" "c_cfg c3 = c_cfg c"
    using c3(4) rest2 I2 by (simp_all add: same_rest_def)
  have q4: "quiet_step c3 c4"
    unfolding c4_def by (rule quiet_watermark) (use c3(2) g3 i reg cnt w3 rest2 in \<open>simp_all add: w_at_def\<close>)
  note I4 = quiet_stepD [OF q4]
  have rest4: "c_ctxs c4 = c_ctxs c" "c_acks c4 = c_acks c" "length (c_writers c4) = length (c_writers c)"
    "sw_batch (c_writers c4 ! i) = sw_batch (c_writers c ! i)"
    using w3 rest2 i(2)
    by (simp_all add: c4_def writer_watermark_def writer_flush_watermark_def Let_def w_upd_def cache_write_header_def rm_set_sh_def
      w_at_def split: prod.split)
  define c5 where "c5 = snd (with_journal c4 i journal_flush)"
  have q5: "quiet_step c4 c5" unfolding c5_def by (rule quiet_flush) (use I4 g3 i in simp_all)
  note I5 = quiet_stepD [OF q5]
  have rest5: "c_ctxs c5 = c_ctxs c" "c_acks c5 = c_acks c" "c_writers c5 = c_writers c4"
    using rest4 by (simp_all add: c5_def with_journal_def split: prod.split)
  define c6 where "c6 = put_ctx_unref clk c5 (rq_ctx r)"
  note U = put_ctx_unref_last [OF I5(1,2), of "rq_ctx r" pc u clk, unfolded rest5(1), OF ctx(1-3), folded c6_def]
  note I6 = quiet_stepD [OF U(1)]
  define c7 where "c7 = bb_upd c6 i b batch_reset"
  have q7: "quiet_step c6 c7" unfolding c7_def by (rule quiet_bb_upd [OF I6(1,2)])
  note I7 = quiet_stepD [OF q7]
  have q: "quiet_step c3 c7" using q4 q5 U(1) q7 by (blast intro: quiet_step_trans)
  note I = quiet_stepD [OF q]
  have "in_region_data (c_rms c3 ! unat (ka_dev_id (lf_addr0 lf))) idx (unat (ka_page_no (lf_addr0 lf))) (unat (ka_len_pages (lf_addr0 lf)))"
  proof -
    have "unat (of_nat i :: u32) = i"
      using i(1) inv by (simp add: unat_of_nat_u32 cache_inv_def cache_dims_def)
    then show ?thesis using rd cnt by (simp add: c3(9) req_addr_def in_region_data_def)
  qed
  then have st7: "leaf_stored c7 path lf p lens" by (rule stored_quiet [OF c3(6) g3(2) q])
  have "on_batch_io_done clk c i b = Some c7"
    unfolding on_batch_io_done_def Let_def w_at_def bb(1,2,3) c1_def [symmetric]
    using c3(1) by (simp add: c2_def [symmetric] c4_def [symmetric] c5_def [symmetric] c6_def [symmetric] c7_def [symmetric])
  moreover have "c_acks c7 = c_acks c @ [(u, KV_EOK)]" using U(2) rest5 ctx(4) by (simp add: c7_def bb_upd_def w_upd_def)
  moreover have "sw_batch (c_writers c7 ! i) = (sw_batch (c_writers c ! i))[b := batch_reset bb]" "length (c_writers c7) = length (c_writers c)"
    using U(4) rest5 rest4 i(2) bb(1) by (simp_all add: c7_def bb_upd_def w_upd_def)
  ultimately show ?thesis
    using I(1,2) st7 c3(5,7,8,10) I g3(1) w3(4) by (intro exI [of _ c7] exI [of _ lf]) simp
qed

section \<open>Laying out and writing\<close>

definition pages_of :: "nat \<Rightarrow> nat" where
  "pages_of n = (n + (KV_PAGE_SIZE - 1)) div KV_PAGE_SIZE"

lemma pages_of_bounds: "n \<le> pages_of n * KV_PAGE_SIZE" "0 < n \<Longrightarrow> 0 < pages_of n" "pages_of n * KV_PAGE_SIZE \<le> n + (KV_PAGE_SIZE - 1)"
  "pages_of n \<le> n"
  by (simp_all add: pages_of_def KV_PAGE_SIZE_def)

lemma payload_npages_nat:
  assumes "n < 2 ^ 31"
  shows "unat (payload_npages (of_nat n)) = pages_of n"
proof -
  have "unat (of_nat n + of_nat KV_PAGE_SIZE - 1 :: u64) = n + (KV_PAGE_SIZE - 1)"
  proof -
    have "(of_nat n + of_nat KV_PAGE_SIZE - 1 :: u64) = of_nat (n + (KV_PAGE_SIZE - 1))" by (simp add: KV_PAGE_SIZE_def)
    moreover have "n + (KV_PAGE_SIZE - 1) < 2 ^ 64" using assms by (simp add: KV_PAGE_SIZE_def)
    ultimately show ?thesis by (simp only: unat_of_nat_u64)
  qed
  then have q: "unat ((of_nat n + of_nat KV_PAGE_SIZE - 1 :: u64) div of_nat KV_PAGE_SIZE) = pages_of n"
    by (simp add: unat_div_distrib pages_of_def KV_PAGE_SIZE_def)
  have "pages_of n < 2 ^ 32" using pages_of_bounds(4) [of n] assms by simp
  then show ?thesis by (simp add: payload_npages_def unsigned_ucast_eq q take_bit_nat_eq_self)
qed

lemma write_pages_take: "write_pages d i buf n = write_pages d i (take (n * KV_PAGE_SIZE) buf) n"
  by (simp add: write_pages_def)

text \<open>The image of one payload at the start of the buffer.\<close>

definition payload_img :: "bytes \<Rightarrow> bytes" where
  "payload_img p = p @ zeros (pages_of (length p) * KV_PAGE_SIZE - length p)"

lemma length_payload_img: "length (payload_img p) = pages_of (length p) * KV_PAGE_SIZE"
  using pages_of_bounds(1) [of "length p"] by (simp add: payload_img_def zeros_def)

definition req_laid :: "bytes \<Rightarrow> u64 \<Rightarrow> put_req \<Rightarrow> put_req" where
  "req_laid p start r = r\<lparr>rq_data_len := of_nat (length p), rq_crc := pages_crc (payload_img p) (pages_of (length p)),
    rq_page_no := start, rq_npages := payload_npages (of_nat (length p))\<rparr>"

lemma batch_layout_one:
  assumes r: "bb_reqs bb = [r]" "rq_flags r = 0" and p: "req_payload um r = Some p" "length p < 2 ^ 31"
    and fit: "pages_of (length p) * KV_PAGE_SIZE \<le> length (bb_buf bb)"
  shows "batch_layout um start bb = Some \<lparr>lo_buf = overwrite (bb_buf bb) 0 (payload_img p),
    lo_dst = pages_of (length p) * KV_PAGE_SIZE, lo_abs_page = start + ucast (payload_npages (of_nat (length p))),
    lo_total = payload_npages (of_nat (length p)), lo_reqs = [req_laid p start r]\<rparr>"
proof -
  have "unat (payload_npages (of_nat (length p))) = pages_of (length p)" using payload_npages_nat [OF p(2)] .
  moreover note pages_of_bounds(1) [of "length p"]
  ultimately show ?thesis
    using r p fit by (simp add: batch_layout_def layout_req_def Let_def payload_img_def [symmetric] req_laid_def)
qed

text \<open>The write of the batch puts the image on the device and nothing else.\<close>

lemma batch_write_one:
  assumes io: "io_ok c" and i: "i < c_n_devs c" and rd: "in_region_data (c_rms c ! i) idx pg (pages_of (length p))"
    and fit: "pages_of (length p) * KV_PAGE_SIZE \<le> length buf" and pos: "p \<noteq> []"
  shows "\<exists>d. write_pages (c_devs c ! i) pg (overwrite buf 0 (payload_img p)) (pages_of (length p)) = (KV_EOK, d) \<and>
    io_ok (c\<lparr>c_devs := (c_devs c)[i := d]\<rparr>) \<and>
    bslice (pg * KV_PAGE_SIZE) (pages_of (length p) * KV_PAGE_SIZE) (dv_data d) = payload_img p \<and> dev_pages d = dev_pages (c_devs c ! i)"
proof -
  let ?np = "pages_of (length p)"
  note D = io_okD [OF io]
  have pg: "pg + ?np \<le> dev_pages (c_devs c ! i)" using region_data_no_meta(2) [OF D(4) [OF i] rd] .
  have tk: "take (?np * KV_PAGE_SIZE) (overwrite buf 0 (payload_img p)) = payload_img p"
    using fit length_payload_img [of p] by (simp add: overwrite_def)
  obtain d where d: "write_pages (c_devs c ! i) pg (payload_img p) ?np = (KV_EOK, d)" "dev_ok d" "dev_pages d = dev_pages (c_devs c ! i)"
      "dv_data d = overwrite (dv_data (c_devs c ! i)) (pg * KV_PAGE_SIZE) (payload_img p)"
    using write_pages_ok [OF D(5) [OF i] pg, of "payload_img p"] length_payload_img by blast
  have ok: "io_ok (c\<lparr>c_devs := (c_devs c)[i := d]\<rparr>)"
    unfolding io_ok_def
  proof (intro conjI allI impI)
    fix k assume "k < c_n_devs (c\<lparr>c_devs := (c_devs c)[i := d]\<rparr>)"
    then have k: "k < c_n_devs c" by simp
    show "rm_fits (c_rms (c\<lparr>c_devs := (c_devs c)[i := d]\<rparr>) ! k) (c_devs (c\<lparr>c_devs := (c_devs c)[i := d]\<rparr>) ! k)"
      using D(1,4) k i d(2,3) by (cases "k = i") (auto simp: rm_fits_def)
    show "journal_geo ((c_journals (c\<lparr>c_devs := (c_devs c)[i := d]\<rparr>) ! k)\<lparr>j_dev := c_devs (c\<lparr>c_devs := (c_devs c)[i := d]\<rparr>) ! k\<rparr>)"
      using D(1) D(6) [OF k] i d(2,3) by (cases "k = i") (auto simp: journal_geo_def)
  qed (use D in simp_all)
  have "pg * KV_PAGE_SIZE + length (payload_img p) \<le> length (dv_data (c_devs c ! i))"
    using pg D(5) [OF i] length_payload_img [of p] mult_le_mono1 [OF pg, of KV_PAGE_SIZE] by (simp add: dev_ok_def add_mult_distrib)
  then have "bslice (pg * KV_PAGE_SIZE) (?np * KV_PAGE_SIZE) (dv_data d) = payload_img p"
    unfolding d(4) length_payload_img [symmetric] by (rule bslice_overwrite_same)
  with d(1,3) ok show ?thesis by (subst write_pages_take) (simp add: tk)
qed

section \<open>The writer\<close>

text \<open>What is true after the batch: the leaf is stored and the caller has its acknowledgement.\<close>

definition put_done :: "cache \<Rightarrow> put_req \<Rightarrow> nat \<Rightarrow> u64 list \<Rightarrow> bytes \<Rightarrow> u32 list \<Rightarrow> cache \<Rightarrow> radix_leaf \<Rightarrow> bool" where
  "put_done c r u path p lens c' lf \<longleftrightarrow> cache_inv c' \<and> io_ok c' \<and> no_oom (rt_mem (c_radix c')) \<and>
    leaf_stored c' path lf p lens \<and> lf_ver lf = rq_ver r \<and> ka_expire_ts (lf_addr0 lf) = rq_expire_ts r \<and>
    (\<forall>d. c_dram c' = Some d \<longrightarrow> dram_lookup d (rq_prefix_id r, rq_group_idx r) = None) \<and>
    c_acks c' = c_acks c @ [(u, KV_EOK)] \<and> c_cfg c' = c_cfg c"

lemma put_done_writers: "put_done c r u path p lens c' lf \<Longrightarrow> put_done c r u path p lens (c'\<lparr>c_writers := ws\<rparr>) lf"
proof -
  have "io_ok (c'\<lparr>c_writers := ws\<rparr>) = io_ok c'" by (simp add: io_ok_def)
  moreover have "leaf_stored (c'\<lparr>c_writers := ws\<rparr>) path lf p lens = leaf_stored c' path lf p lens"
    by (simp add: leaf_stored_def leaf_data_def payload_at_def node_leaf_def leaf_at_def)
  ultimately show "put_done c r u path p lens c' lf \<Longrightarrow> put_done c r u path p lens (c'\<lparr>c_writers := ws\<rparr>) lf"
    by (auto simp: put_done_def)
qed

text \<open>A writer with the one request in its current buffer and room in its region.\<close>

definition writer_loaded :: "cache \<Rightarrow> nat \<Rightarrow> put_req \<Rightarrow> nat \<Rightarrow> bool" where
  "writer_loaded c i r np \<longleftrightarrow> i < c_n_devs c \<and> i < length (c_writers c) \<and>
    (let w = c_writers c ! i;
         b = sw_cur_buf w;
         bb = sw_batch w ! b
     in length (sw_batch w) = 2 \<and> b < 2 \<and> bb_reqs bb = [r] \<and> \<not> bb_busy bb \<and> bb_ictx bb = io_ctx0 \<and>
        np * KV_PAGE_SIZE \<le> length (bb_buf bb) \<and> \<not> bb_busy (sw_batch w ! (1 - b)) \<and>
        sw_region w < unat (rm_region_cnt (c_rms c ! i)) \<and> 1 \<le> unat (sw_next_page w) \<and>
        unat (sw_next_page w) + np \<le> unat (rm_region_size_pages (c_rms c ! i)))"

definition ctx_waiting :: "cache \<Rightarrow> nat \<Rightarrow> nat \<Rightarrow> bool" where
  "ctx_waiting c k u \<longleftrightarrow> (\<exists>pc. c_ctxs c ! k = Some pc \<and> pc_refs pc = 1 \<and> pc_ack pc = Some u \<and> pc_err pc = KV_EOK)"

lemma region_abs_page_nat:
  assumes io: "io_ok c" and i: "i < c_n_devs c" and idx: "idx < unat (rm_region_cnt (c_rms c ! i))"
    and nx: "unat nx \<le> unat (rm_region_size_pages (c_rms c ! i))"
  shows "unat (region_abs_page (c_rms c ! i) idx nx) = kRegionBasePage + idx * unat (rm_region_size_pages (c_rms c ! i)) + unat nx"
proof -
  let ?s = "unat (rm_region_size_pages (c_rms c ! i))"
  note fits = io_okD(4) [OF io i]
  have b: "page_base (c_rms c ! i) idx = kRegionBasePage + idx * ?s" using page_base_ok(1) [OF fits idx] .
  have "Suc idx * ?s \<le> unat (rm_region_cnt (c_rms c ! i)) * ?s" using idx by (intro mult_le_mono1) simp
  then have "kRegionBasePage + idx * ?s + unat nx \<le> dev_pages (c_devs c ! i)" using fits nx by (simp add: rm_fits_def)
  moreover have "dev_pages (c_devs c ! i) < 2 ^ 63" using fits by (auto simp: rm_fits_def dev_ok_def KV_PAGE_SIZE_def)
  ultimately have lt: "kRegionBasePage + idx * ?s + unat nx < 2 ^ 64" by simp
  have "region_abs_page (c_rms c ! i) idx nx = of_nat (kRegionBasePage + idx * ?s + unat nx)"
    unfolding region_abs_page_def b by simp
  then show ?thesis using unat_of_nat_u64 [OF lt] by simp
qed

lemma writer_write_one:
  assumes inv: "cache_inv c" and io: "io_ok c" and mem: "no_oom (rt_mem (c_radix c))"
    and load: "writer_loaded c i r (pages_of (length p))" and ctx: "ctx_waiting c (rq_ctx r) u"
    and req: "req_plain c r path lens" and ready: "index_ready c (rq_prefix_id r) (rq_group_idx r) path"
    and newer: "versions_below c (rq_ver r)" and len: "sum_list (map unat lens) = length p" "length p < 2 ^ 31" "p \<noteq> []"
    and pay: "req_payload um r = Some p"
  shows "\<exists>c' lf. writer_write_batch clk um c i = Some (KV_EOK, c') \<and> put_done c r u path p lens c' lf"
proof -
  let ?np = "pages_of (length p)"
  define w where "w = c_writers c ! i"
  define b where "b = sw_cur_buf w"
  define bb where "bb = sw_batch w ! b"
  have W: "i < c_n_devs c" "i < length (c_writers c)" "length (sw_batch w) = 2" "b < 2" "bb_reqs bb = [r]" "bb_ictx bb = io_ctx0"
    "?np * KV_PAGE_SIZE \<le> length (bb_buf bb)" "\<not> bb_busy (sw_batch w ! (1 - b))"
    "sw_region w < unat (rm_region_cnt (c_rms c ! i))" "1 \<le> unat (sw_next_page w)"
    "unat (sw_next_page w) + ?np \<le> unat (rm_region_size_pages (c_rms c ! i))"
    using load unfolding writer_loaded_def Let_def w_def b_def bb_def by simp_all
  obtain pc where pc: "c_ctxs c ! rq_ctx r = Some pc" "pc_refs pc = 1" "pc_ack pc = Some u" "pc_err pc = KV_EOK"
    using ctx by (auto simp: ctx_waiting_def)
  define start where "start = region_abs_page (c_rms c ! i) (sw_region w) (sw_next_page w)"
  have su: "unat start = kRegionBasePage + sw_region w * unat (rm_region_size_pages (c_rms c ! i)) + unat (sw_next_page w)"
    unfolding start_def using W(11) by (intro region_abs_page_nat [OF io W(1,9)]) simp
  have rd: "in_region_data (c_rms c ! i) (sw_region w) (unat start) ?np"
    using W(9,10,11) su by (simp add: in_region_data_def)
  have fl: "rq_flags r = 0" using req by (simp add: req_plain_def)
  have npu: "unat (payload_npages (of_nat (length p))) = ?np" using payload_npages_nat [OF len(2)] .
  define s where "s = \<lparr>lo_buf = overwrite (bb_buf bb) 0 (payload_img p),
    lo_dst = ?np * KV_PAGE_SIZE, lo_abs_page = start + ucast (payload_npages (of_nat (length p))),
    lo_total = payload_npages (of_nat (length p)), lo_reqs = [req_laid p start r]\<rparr>"
  have lay: "batch_layout um start bb = Some s" unfolding s_def by (rule batch_layout_one [OF W(5) fl pay len(2) W(7)])
  obtain d where d: "write_pages (c_devs c ! i) (unat start) (lo_buf s) ?np = (KV_EOK, d)" "io_ok (c\<lparr>c_devs := (c_devs c)[i := d]\<rparr>)"
      "bslice (unat start * KV_PAGE_SIZE) (?np * KV_PAGE_SIZE) (dv_data d) = payload_img p" "dev_pages d = dev_pages (c_devs c ! i)"
    using batch_write_one [OF io W(1) rd W(7) len(3)] by (auto simp: s_def)
  define c1 where "c1 = batch_stats c i s"
  define c2 where "c2 = bb_upd c1 i b (\<lambda>bb. bb\<lparr>bb_region := sw_region w, bb_start_page := start, bb_buf := lo_buf s,
     bb_reqs := lo_reqs s, bb_npages := lo_total s, bb_last_page := start + ucast (lo_total s),
     bb_submit_ns := (if cf_metrics_level (c_cfg c1) \<ge> KV_MLEVEL_FULL then ck_ns clk else bb_submit_ns bb), bb_busy := True\<rparr>)"
  define bb2 where "bb2 = bb\<lparr>bb_region := sw_region w, bb_start_page := start, bb_buf := lo_buf s,
     bb_reqs := lo_reqs s, bb_npages := lo_total s, bb_last_page := start + ucast (lo_total s),
     bb_submit_ns := (if cf_metrics_level (c_cfg c1) \<ge> KV_MLEVEL_FULL then ck_ns clk else bb_submit_ns bb), bb_busy := True\<rparr>"
  define c3 where "c3 = bb_upd (c2\<lparr>c_devs := (c_devs c2)[i := d]\<rparr>) i b (\<lambda>bb. bb\<lparr>bb_ictx := io_ctx0\<rparr>)"
  obtain ws st where c2: "c2 = c\<lparr>c_stat := st, c_writers := ws\<rparr>" "length ws = length (c_writers c)"
      "sw_batch (ws ! i) = (sw_batch w)[b := bb2]" "sw_region (ws ! i) = sw_region w"
  proof (rule that)
    show "c2 = c\<lparr>c_stat := c_stat c2, c_writers := c_writers c2\<rparr>"
      by (simp add: c2_def c1_def batch_stats_def Let_def bb_upd_def w_upd_def)
  qed (use W(2-4) in \<open>simp_all add: c2_def c1_def batch_stats_def Let_def bb_upd_def w_upd_def w_def [symmetric] bb2_def bb_def [symmetric]\<close>)
  have c3: "c3 = c\<lparr>c_stat := st, c_writers := c_writers c3, c_devs := (c_devs c)[i := d]\<rparr>" "length (c_writers c3) = length (c_writers c)"
    "sw_batch (c_writers c3 ! i) = (sw_batch w)[b := bb2\<lparr>bb_ictx := io_ctx0\<rparr>]" "sw_region (c_writers c3 ! i) = sw_region w"
    using W(2,3,4) c2(2-4) by (simp_all add: c3_def c2(1) bb_upd_def w_upd_def)
  have c3s: "c_radix c3 = c_radix c" "c_leaves c3 = c_leaves c" "c_shapes c3 = c_shapes c" "c_rms c3 = c_rms c" "c_ctxs c3 = c_ctxs c"
    "c_acks c3 = c_acks c" "c_n_devs c3 = c_n_devs c" "c_devs c3 = (c_devs c)[i := d]" "c_side c3 = c_side c" "c_cfg c3 = c_cfg c"
    by (subst c3(1), simp)+
  have inv3: "cache_inv c3"
  proof -
    have "cache_inv (c\<lparr>c_stat := st, c_writers := c_writers c3\<rparr>)" using inv by simp
    then have "cache_inv (c\<lparr>c_stat := st, c_writers := c_writers c3, c_devs := (c_devs c)[i := d]\<rparr>)"
      using cache_inv_devs [of "(c_devs c)[i := d]" "c\<lparr>c_stat := st, c_writers := c_writers c3\<rparr>"] by simp
    then show ?thesis using c3(1) by simp
  qed
  have io3: "io_ok c3" using d(2) by (subst c3(1)) (simp add: io_ok_def)
  let ?r = "req_laid p start r"
  have rl: "rq_page_no ?r = start" "unat (rq_npages ?r) = ?np" "rq_prefix_id ?r = rq_prefix_id r" "rq_group_idx ?r = rq_group_idx r"
    "rq_ver ?r = rq_ver r" "rq_ctx ?r = rq_ctx r" "rq_expire_ts ?r = rq_expire_ts r" by (simp_all add: req_laid_def npu)
  have ui: "unat (of_nat i :: u32) = i" using W(1) inv by (simp add: unat_of_nat_u32 cache_inv_def cache_dims_def)
  have data: "payload_at c3 (req_addr clk i ?r) p"
  proof -
    have "unat start + ?np \<le> dev_pages (c_devs c ! i)" using region_data_no_meta(2) [OF io_okD(4) [OF io W(1)] rd] .
    moreover have "rq_crc ?r = pages_crc (payload_img p) ?np" by (simp add: req_laid_def)
    ultimately show ?thesis
      using W(1) d(3,4) rl pages_of_bounds(1,2) [of "length p"] len(3) io_okD(1) [OF io] c3s
      by (simp add: payload_at_def Let_def req_addr_def ui payload_img_def)
  qed
  have bb3: "sw_batch (c_writers c3 ! i) ! b = bb2\<lparr>bb_ictx := io_ctx0\<rparr>" "bb_reqs (bb2\<lparr>bb_ictx := io_ctx0\<rparr>) = [?r]"
    "ic_first_err (bb_ictx (bb2\<lparr>bb_ictx := io_ctx0\<rparr>)) = KV_EOK" "b < length (sw_batch (c_writers c3 ! i))"
    using c3(3) W(3,4) by (simp_all add: bb2_def s_def io_ctx0_def)
  have a3: "no_oom (rt_mem (c_radix c3))" "i < c_n_devs c3" "i < length (c_writers c3)"
    "sw_region (c_writers c3 ! i) < unat (rm_region_cnt (c_rms c3 ! i))" "c_ctxs c3 ! rq_ctx ?r = Some pc"
    "req_plain c3 ?r path lens" "index_ready c3 (rq_prefix_id ?r) (rq_group_idx ?r) path" "versions_below c3 (rq_ver ?r)"
    "in_region_data (c_rms c3 ! i) (sw_region w) (unat (rq_page_no ?r)) (unat (rq_npages ?r))"
    using mem W c3 c3s pc(1) req ready newer rd
    by (simp_all add: rl) (simp_all add: req_plain_def req_laid_def index_ready_def versions_below_def node_leaf_def leaf_at_def)
  obtain c4 lf where c4: "on_batch_io_done clk c3 i b = Some c4" "cache_inv c4" "io_ok c4" "no_oom (rt_mem (c_radix c4))"
      "leaf_stored c4 path lf p lens" "lf_ver lf = rq_ver r" "ka_expire_ts (lf_addr0 lf) = rq_expire_ts r"
      "\<forall>d. c_dram c4 = Some d \<longrightarrow> dram_lookup d (rq_prefix_id r, rq_group_idx r) = None" "c_acks c4 = c_acks c @ [(u, KV_EOK)]"
      "c_cfg c4 = c_cfg c" "length (c_writers c4) = length (c_writers c3)"
      "sw_batch (c_writers c4 ! i) = (sw_batch (c_writers c3 ! i))[b := batch_reset (bb2\<lparr>bb_ictx := io_ctx0\<rparr>)]"
    using on_batch_one [OF inv3 io3 a3(1,2,3) bb3 a3(4,5) pc(2-4) a3(6-8) len(1,2) a3(9) data] c3s unfolding rl by auto
  have done4: "put_done c r u path p lens c4 lf" unfolding put_done_def using c4 by simp
  have bio: "batch_io clk c2 i b = Some c4"
  proof -
    have e: "c_writers c2 ! i = ws ! i" "sw_batch (w_at c2 i) ! b = bb2" "c_devs c2 ! i = c_devs c ! i"
      using c2 W(3,4) by (simp_all add: w_at_def)
    have "sync_submit IoWrite (c_devs c2 ! i) (unat (bb_start_page bb2)) (bb_buf bb2) (unat (bb_npages bb2)) (io_ref (bb_ictx bb2)) =
        (bb_buf bb2, True, io_ctx0, d)"
      using d(1) W(6) by (simp add: sync_submit_def e bb2_def s_def npu io_ref_def io_unref_def io_ctx0_def Let_def)
    then show ?thesis
      unfolding batch_io_def Let_def e(2) using c4(1) by (simp add: c3_def)
  qed
  let ?c5 = "w_upd c4 i (\<lambda>w. w\<lparr>sw_cur_buf := 1 - b\<rparr>)"
  have nb: "\<not> bb_busy (sw_batch (w_at ?c5 i) ! (1 - b))"
    using c4(11,12) c3 W by (cases "b = 0") (auto simp: w_at_def w_upd_def nth_list_update)
  have "writer_write_batch clk um c i = Some (KV_EOK, bb_upd ?c5 i (1 - b) (\<lambda>bb. bb\<lparr>bb_used := 0, bb_reqs := []\<rparr>))"
    unfolding writer_write_batch_def Let_def w_at_def [of c] w_def [symmetric] b_def [symmetric] bb_def [symmetric]
      start_def [symmetric] lay option.case c1_def [symmetric] c2_def [symmetric] bio using nb by simp
  moreover have "put_done c r u path p lens (bb_upd ?c5 i (1 - b) (\<lambda>bb. bb\<lparr>bb_used := 0, bb_reqs := []\<rparr>)) lf"
    unfolding bb_upd_def w_upd_def using put_done_writers [OF done4] by simp
  ultimately show ?thesis by blast
qed

section \<open>One round of the writer\<close>

text \<open>A writer with nothing in its buffers and room for \<open>np\<close> more pages in its region.\<close>

definition writer_idle :: "cache \<Rightarrow> nat \<Rightarrow> nat \<Rightarrow> bool" where
  "writer_idle c i np \<longleftrightarrow> i < c_n_devs c \<and> i < length (c_writers c) \<and> cf_batch_min_bytes (c_cfg c) \<noteq> 0 \<and>
    (let w = c_writers c ! i;
         b = sw_cur_buf w;
         bb = sw_batch w ! b
     in length (sw_batch w) = 2 \<and> b < 2 \<and> bb_reqs bb = [] \<and> bb_used bb = 0 \<and> \<not> bb_busy bb \<and> bb_ictx bb = io_ctx0 \<and>
        np * KV_PAGE_SIZE \<le> length (bb_buf bb) \<and> \<not> bb_busy (sw_batch w ! (1 - b)) \<and>
        sw_region w < unat (rm_region_cnt (c_rms c ! i)) \<and> 1 \<le> unat (sw_next_page w) \<and>
        unat (sw_next_page w) + np \<le> unat (rm_region_size_pages (c_rms c ! i)))"

text \<open>Collecting with one request popped and none left in the queue.\<close>

lemma writer_collect_one:
  assumes i: "i < length (c_writers c)" and b: "sw_cur_buf (c_writers c ! i) < length (sw_batch (c_writers c ! i))"
    and bb: "sw_batch (c_writers c ! i) ! sw_cur_buf (c_writers c ! i) = bb" "bb_reqs bb = []" "bb_used bb = 0"
    and min: "cf_batch_min_bytes (c_cfg c) \<noteq> 0" and empty: "mpsc_pop (sw_q (c_writers c ! i)) = (None, sw_q (c_writers c ! i))"
  shows "\<exists>n. writer_collect (Suc (Suc f)) c i (Some r) = Some (bb_upd c i (sw_cur_buf (c_writers c ! i)) (bb_push n r))"
proof -
  let ?n = "payload_npages (ucast (rq_data_len r)) * of_nat KV_PAGE_SIZE :: u32"
  let ?c = "bb_upd c i (sw_cur_buf (c_writers c ! i)) (bb_push ?n r)"
  have 1: "writer_collect (Suc (Suc f)) c i (Some r) = writer_collect (Suc f) ?c i None"
    using bb min by (simp add: w_at_def KV_BATCH_MAX_REQS_def Let_def)
  have w: "c_writers ?c ! i = (c_writers c ! i)\<lparr>sw_batch := (sw_batch (c_writers c ! i))[sw_cur_buf (c_writers c ! i) := bb_push ?n r bb]\<rparr>"
    using i bb(1) by (simp add: bb_upd_def w_upd_def)
  have pop: "writer_pop ?c i = (None, ?c)"
  proof -
    have "w_upd ?c i (\<lambda>w. w\<lparr>sw_q := sw_q (c_writers c ! i)\<rparr>) = ?c"
      using i by (simp add: bb_upd_def w_upd_def)
    then show ?thesis using empty by (simp add: writer_pop_def w_at_def w)
  qed
  have "length (bb_reqs (sw_batch (w_at ?c i) ! sw_cur_buf (w_at ?c i))) < KV_BATCH_MAX_REQS"
    using b bb(2) by (simp add: w_at_def w bb_push_def KV_BATCH_MAX_REQS_def)
  then have "writer_collect (Suc f) ?c i None = Some ?c" using pop by (simp add: Let_def)
  then show ?thesis unfolding 1 by (rule exI)
qed

lemma put_done_base:
  assumes "put_done c1 r u path p lens c' lf" and "c_acks c1 = c_acks c" and "c_cfg c1 = c_cfg c"
  shows "put_done c r u path p lens c' lf"
  using assms by (auto simp: put_done_def)

lemma ucast_of_nat_small: "n < 2 ^ 32 \<Longrightarrow> (ucast (of_nat n :: u32) :: u64) = of_nat n"
  using of_nat_unat [of "of_nat n :: u32", where ?'a = u64] unat_of_nat_u32 [of n] by simp

lemma writer_round_one:
  assumes inv: "cache_inv c" and io: "io_ok c" and mem: "no_oom (rt_mem (c_radix c))"
    and idle: "writer_idle c i (pages_of (length p))" and ctx: "ctx_waiting c (rq_ctx r) u"
    and q: "mpsc_quiet k (sw_q (c_writers c ! i)) cs h" "length cs = Suc h" "cs ! h = r"
    and req: "req_plain c r path lens" and ready: "index_ready c (rq_prefix_id r) (rq_group_idx r) path"
    and newer: "versions_below c (rq_ver r)" and len: "sum_list (map unat lens) = length p" "length p < 2 ^ 31" "p \<noteq> []"
    and pay: "req_payload um r = Some p" and dl: "rq_data_len r = of_nat (length p)"
  shows "\<exists>c' lf. writer_round clk um c i = Some (False, c') \<and> put_done c r u path p lens c' lf"
proof -
  let ?np = "pages_of (length p)"
  define w where "w = c_writers c ! i"
  define b where "b = sw_cur_buf w"
  define bb where "bb = sw_batch w ! b"
  have W: "i < c_n_devs c" "i < length (c_writers c)" "cf_batch_min_bytes (c_cfg c) \<noteq> 0" "length (sw_batch w) = 2" "b < 2"
    "bb_reqs bb = []" "bb_used bb = 0" "\<not> bb_busy bb" "bb_ictx bb = io_ctx0" "?np * KV_PAGE_SIZE \<le> length (bb_buf bb)"
    "\<not> bb_busy (sw_batch w ! (1 - b))" "sw_region w < unat (rm_region_cnt (c_rms c ! i))" "1 \<le> unat (sw_next_page w)"
    "unat (sw_next_page w) + ?np \<le> unat (rm_region_size_pages (c_rms c ! i))"
    using idle unfolding writer_idle_def Let_def w_def b_def bb_def by simp_all
  obtain q' where q': "mpsc_pop (sw_q w) = (Some r, q')" "mpsc_quiet k q' cs (h + 1)"
    using mpsc_quiet_pop [OF q(1)] q(2,3) by (auto simp: w_def)
  have q'': "mpsc_pop q' = (None, q')" using mpsc_quiet_empty [OF q'(2)] q(2) by simp
  define c1 where "c1 = w_upd c i (\<lambda>w. w\<lparr>sw_q := q'\<rparr>)"
  have w1: "c_writers c1 ! i = w\<lparr>sw_q := q'\<rparr>" "length (c_writers c1) = length (c_writers c)" "c_cfg c1 = c_cfg c"
    using W(2) by (simp_all add: c1_def w_upd_def w_def)
  obtain n where n: "writer_collect (Suc (Suc KV_BATCH_MAX_REQS)) c1 i (Some r) = Some (bb_upd c1 i b (bb_push n r))"
    using writer_collect_one [of i c1 bb KV_BATCH_MAX_REQS r] W q'' w1 by (auto simp: b_def [symmetric] bb_def [symmetric])
  define c2 where "c2 = bb_upd c1 i b (bb_push n r)"
  have c2: "c2 = c\<lparr>c_writers := c_writers c2\<rparr>" "length (c_writers c2) = length (c_writers c)"
    by (simp_all add: c2_def c1_def bb_upd_def w_upd_def)
  have w2: "c_writers c2 ! i = w\<lparr>sw_q := q', sw_batch := (sw_batch w)[b := bb_push n r bb]\<rparr>"
    using W(2) w1 by (simp add: c2_def bb_upd_def w_upd_def bb_def)
  have c2s: "c_radix c2 = c_radix c" "c_leaves c2 = c_leaves c" "c_shapes c2 = c_shapes c" "c_rms c2 = c_rms c" "c_ctxs c2 = c_ctxs c"
    "c_acks c2 = c_acks c" "c_n_devs c2 = c_n_devs c" "c_devs c2 = c_devs c" "c_side c2 = c_side c" "c_cfg c2 = c_cfg c"
    by (subst c2(1), simp)+
  have inv2: "cache_inv c2" "io_ok c2" using inv io by (subst c2(1), simp add: io_ok_def)+
  have load: "writer_loaded c2 i r ?np"
    using W c2(2) c2s(4,7) unfolding writer_loaded_def Let_def w2
    by (cases "b = 0") (simp_all add: b_def [symmetric] bb_def [symmetric] bb_push_def)
  have ctx2: "ctx_waiting c2 (rq_ctx r) u" using ctx by (simp add: ctx_waiting_def c2s)
  have a2: "req_plain c2 r path lens" "index_ready c2 (rq_prefix_id r) (rq_group_idx r) path" "versions_below c2 (rq_ver r)"
    "no_oom (rt_mem (c_radix c2))"
    using req ready newer mem by (simp_all add: req_plain_def index_ready_def versions_below_def node_leaf_def leaf_at_def c2s)
  obtain c3 lf where c3: "writer_write_batch clk um c2 i = Some (KV_EOK, c3)" "put_done c2 r u path p lens c3 lf"
    using writer_write_one [OF inv2 a2(4) load ctx2 a2(1-3) len pay] by blast
  have need: "\<not> sw_next_page w + batch_need_pages (bb_push n r bb) > rm_region_size_pages (c_rms c ! i)"
  proof -
    have "(ucast (of_nat (length p) :: u32) :: u64) = of_nat (length p)"
      using len(2) by (simp add: ucast_of_nat_small)
    then have "batch_need_pages (bb_push n r bb) = ucast (payload_npages (of_nat (length p)))"
      using W(6) dl by (simp add: batch_need_pages_def bb_push_def)
    then have "unat (batch_need_pages (bb_push n r bb)) = ?np"
      using payload_npages_nat [OF len(2)] by (simp add: unsigned_ucast_eq take_bit_nat_eq_self)
    moreover have "unat (rm_region_size_pages (c_rms c ! i)) < 2 ^ 64" using unsigned_less [of "rm_region_size_pages (c_rms c ! i)"] by simp
    ultimately show ?thesis using W(14) by (simp add: word_less_nat_alt unat_word_ariths not_less)
  qed
  have "writer_submit_batch clk um c2 i = Some (KV_EOK, c3)"
    unfolding writer_submit_batch_def Let_def w_at_def w2
    using need W(4-8) c3(1) c2s(4) by (simp add: b_def [symmetric]) (simp add: bb_push_def)
  moreover have "writer_pop c i = (Some r, c1)" by (simp add: writer_pop_def w_at_def w_def [symmetric] q'(1) c1_def)
  ultimately have "writer_round clk um c i = Some (False, c3)"
    using n by (simp add: writer_round_def c2_def [symmetric])
  with put_done_base [OF c3(2) c2s(6,10)] show ?thesis by blast
qed

section \<open>The put\<close>

definition shapes_ok :: "cache \<Rightarrow> bool" where
  "shapes_ok c \<longleftrightarrow> (\<forall>s \<in> set (c_shapes c). length (sh_lens s) = unat (sh_n_recs s))"

lemma shape_intern_ok:
  assumes ok: "\<forall>s \<in> set items. length (sh_lens s) = unat (sh_n_recs s)" and n: "unat n_recs = length lens"
  shows "\<exists>s items'. shape_pool_intern True items lens n_recs = (Some s, items') \<and>
    sh_lens (items' ! s) = lens \<and> unat (sh_n_recs (items' ! s)) = length lens"
proof (cases "find (\<lambda>i. sh_n_recs (items ! i) = n_recs \<and>
            (n_recs = 0 \<or> take (unat n_recs) (sh_lens (items ! i)) = take (unat n_recs) lens)) [0..<length items]")
  case None
  then show ?thesis using n
    by (intro exI [of _ "length items"]
      exI [of _ "items @ [\<lparr>sh_id = of_nat (length items), sh_n_recs = n_recs, sh_lens = take (unat n_recs) lens\<rparr>]"])
      (simp add: shape_pool_intern_def)
next
  case (Some i)
  then have i: "i < length items" "sh_n_recs (items ! i) = n_recs"
    "n_recs = 0 \<or> take (unat n_recs) (sh_lens (items ! i)) = take (unat n_recs) lens"
    by (auto simp: find_Some_iff)
  have "length (sh_lens (items ! i)) = unat n_recs" using ok nth_mem [OF i(1)] i(2) by auto
  then have "sh_lens (items ! i) = lens" using i(3) n by auto
  with Some i n show ?thesis by (intro exI [of _ i] exI [of _ items]) (simp add: shape_pool_intern_def)
qed

lemma ref_bytes_length: "ref_bytes um r = Some b \<Longrightarrow> length b = unat (pr_len r)"
  by (auto simp: ref_bytes_def Let_def bslice_def split: if_splits)

lemma those_refs_length:
  "those (map (ref_bytes um) recs) = Some parts \<Longrightarrow> length (concat parts) = sum_list (map unat (map pr_len recs))"
proof (induction recs arbitrary: parts)
  case (Cons r recs)
  then obtain b bs where "ref_bytes um r = Some b" "those (map (ref_bytes um) recs) = Some bs" "parts = b # bs"
    by (auto split: option.splits)
  then show ?case using Cons.IH ref_bytes_length by simp
qed simp

lemma recs_total_nat: "recs_total recs = of_nat (sum_list (map unat (map pr_len recs)))"
proof -
  have "fold (\<lambda>r t. t + ucast (pr_len r)) recs t = t + of_nat (sum_list (map unat (map pr_len recs)))" for t :: u64
    by (induction recs arbitrary: t) (simp_all add: add.assoc)
  then show ?thesis by (simp add: recs_total_def)
qed

text \<open>The request of a plain put.\<close>

definition plain_req :: "cache \<Rightarrow> u64 \<Rightarrow> u32 \<Rightarrow> u32 list \<Rightarrow> u32 \<Rightarrow> u32 \<Rightarrow> put_ref list \<Rightarrow> nat \<Rightarrow> put_req" where
  "plain_req c pid g tokens n expire recs s =
    (put_req_base pid g n expire (ucast (c_ver_counter c) + 1) s (length (c_ctxs c)))
      \<lparr>rq_recs := recs, rq_data_len := ucast (recs_total recs),
       rq_hashes := Some (group_hashes pid tokens n (unat g + 1))\<rparr>"

definition put_args_ok :: "cache \<Rightarrow> u32 \<Rightarrow> u16 \<Rightarrow> put_ref list \<Rightarrow> bytes \<Rightarrow> user_mem \<Rightarrow> bool" where
  "put_args_ok c g nl recs p um \<longleftrightarrow> g < KV_MAX_GROUPS \<and> length recs = unat nl \<and> ucast nl \<le> cf_max_layers (c_cfg c) \<and>
    unat (cf_max_layers (c_cfg c)) \<le> KV_MAX_LAYERS_CAP \<and> map_option concat (those (map (ref_bytes um) recs)) = Some p \<and>
    p \<noteq> [] \<and> length p < 2 ^ 31 \<and> length p \<le> unat (ucast (cf_stripe_threshold (c_cfg c)) :: u32)"

lemma cache_put_plain:
  assumes inv: "cache_inv c" and mem: "no_oom (rt_mem (c_radix c))" and stop: "\<not> c_stop c" and sh: "shapes_ok c"
    and args: "put_args_ok c g nl recs p um"
    and cold: "hot_check_path (c_radix c) (take (unat g) (group_hashes pid tokens n (unat g + 1))) (cf_hot_hit_threshold (c_cfg c)) = Some False"
    and i: "i = unat (hash_mix64 pid mod of_nat (c_n_devs c))" "i < length (c_writers c)"
    and q: "mpsc_quiet k (sw_q (c_writers c ! i)) cs (length cs)" "length cs + 1 < 2 ^ 62"
  shows "\<exists>c' s q' m. cache_put_impl clk um0 slack c pid g tokens n expire nl recs (Some u) = Some (KV_EOK, c') \<and>
    c_writers c' ! i = (c_writers c ! i)\<lparr>sw_q := q', sw_stat_q_max := sw_stat_q_max (c_writers c' ! i)\<rparr> \<and>
    length (c_writers c') = length (c_writers c) \<and>
    mpsc_quiet k q' (cs @ [plain_req c pid g tokens n expire recs s]) (length cs) \<and>
    c_radix c' = (c_radix c)\<lparr>rt_mem := m\<rparr> \<and> no_oom m \<and> ctx_waiting c' (length (c_ctxs c)) u \<and>
    sh_lens (c_shapes c' ! s) = map pr_len recs \<and> unat (sh_n_recs (c_shapes c' ! s)) = length recs \<and>
    (\<exists>vc st cx shs ws. c' = c\<lparr>c_ver_counter := vc, c_stat := st, c_ctxs := cx, c_radix := (c_radix c)\<lparr>rt_mem := m\<rparr>,
      c_shapes := shs, c_writers := ws\<rparr>)"
proof -
  have A: "g < KV_MAX_GROUPS" "length recs = unat nl" "ucast nl \<le> cf_max_layers (c_cfg c)" "length p < 2 ^ 31"
    "length p \<le> unat (ucast (cf_stripe_threshold (c_cfg c)) :: u32)" "map_option concat (those (map (ref_bytes um) recs)) = Some p"
    using args by (simp_all add: put_args_ok_def)
  have tot: "recs_total recs = of_nat (length p)" using A(6) those_refs_length [of um recs] by (auto simp: recs_total_nat)
  have small: "\<not> recs_total recs > ucast (ucast (cf_stripe_threshold (c_cfg c)) :: u32)"
    unfolding tot using A(4,5) by (simp add: word_less_nat_alt not_less unat_of_nat_u64 unsigned_ucast_eq take_bit_nat_eq_self
      unsigned_take_bit_eq)
  obtain m1 where m1: "alloc (rt_mem (c_radix c)) = (True, m1)" "no_oom m1" using alloc_no_oom [OF mem] by blast
  obtain m2 where m2: "alloc m1 = (True, m2)" "no_oom m2" using alloc_no_oom [OF m1(2)] by blast
  obtain s shs where s: "shape_pool_intern True (c_shapes c) (map pr_len recs) nl = (Some s, shs)"
      "sh_lens (shs ! s) = map pr_len recs" "unat (sh_n_recs (shs ! s)) = length recs"
    using shape_intern_ok [of "c_shapes c" nl "map pr_len recs"] sh A(2) by (auto simp: shapes_ok_def)
  let ?r = "plain_req c pid g tokens n expire recs s"
  have room: "length cs < length cs + 2 ^ k" by simp
  obtain q' where q': "mpsc_push (sw_q (c_writers c ! i)) ?r = Some (KV_EOK, q')" "mpsc_quiet k q' (cs @ [?r]) (length cs)"
    using mpsc_quiet_push [OF q(1) room q(2)] by blast
  let ?h = "group_hashes pid tokens n (unat g + 1)"
  have recs: "take (unat nl) recs = recs" using A(2) by simp
  let ?t0 = "if cf_metrics_level (c_cfg c) \<ge> KV_MLEVEL_FULL then ck_ns clk else 0"
  let ?bl = "mq_tail q' - mq_head q'"
  let ?c' = "c\<lparr>c_ver_counter := c_ver_counter c + 1,
      c_stat := (c_stat c)\<lparr>cs_put_reqs := cs_put_reqs (c_stat c) + 1, cs_payload_bytes := cs_payload_bytes (c_stat c) + recs_total recs\<rparr>,
      c_ctxs := c_ctxs c @ [Some ((put_ctx_init (Some u))\<lparr>pc_t0_ns := ?t0, pc_refs := 1\<rparr>)],
      c_radix := (c_radix c)\<lparr>rt_mem := m2\<rparr>, c_shapes := shs,
      c_writers := (c_writers c)[i := (c_writers c ! i)\<lparr>sw_q := q',
        sw_stat_q_max := (if ?bl > sw_stat_q_max (c_writers c ! i) then ?bl else sw_stat_q_max (c_writers c ! i))\<rparr>]\<rparr>"
  have eok: "KV_EOK \<noteq> - KV_EFULL" by (simp add: KV_EOK_def KV_EFULL_def)
  have g: "\<not> g \<ge> KV_MAX_GROUPS" "\<not> ucast nl > cf_max_layers (c_cfg c)" using A(1,3) by auto
  have enq: "put_enqueue (group_hashes pid tokens n (Suc (unat g))) i (put_req_base pid g n expire (ucast (c_ver_counter c) + 1) s (length (c_ctxs c))
        \<lparr>rq_recs := recs, rq_data_len := ucast (recs_total recs)\<rparr>) c1 =
      Some (c1\<lparr>c_radix := (c_radix c)\<lparr>rt_mem := m2\<rparr>, c_writers := (c_writers c)[i := (c_writers c ! i)\<lparr>sw_q := q',
        sw_stat_q_max := (if ?bl > sw_stat_q_max (c_writers c ! i) then ?bl else sw_stat_q_max (c_writers c ! i))\<rparr>]\<rparr>)"
    if "c_radix c1 = (c_radix c)\<lparr>rt_mem := m1\<rparr>" "c_writers c1 = c_writers c" for c1
    using that m2(1) q'(1) eok
    by (simp add: put_enqueue_def c_alloc_def shard_writer_enqueue_def w_at_def w_upd_def plain_req_def Let_def)
  have ctx_of: "rq_ctx (put_req_base a b d e f h j) = j" for a b d e f h j by (simp add: put_req_base_def)
  have "cache_put_impl clk um0 slack c pid g tokens n expire nl recs (Some u) = Some (KV_EOK, ?c')"
    unfolding cache_put_impl_def Let_def recs
    using stop g cold m1(1) s(1) small
    by (simp add: i(1) [symmetric] c_alloc_def put_plain_def enq ctx_set_def ctx_at_def ctx_of)
  moreover define c' where "c' = ?c'"
  ultimately have "cache_put_impl clk um0 slack c pid g tokens n expire nl recs (Some u) = Some (KV_EOK, c')" by simp
  moreover have "\<exists>vc st cx shs ws. c' = c\<lparr>c_ver_counter := vc, c_stat := st, c_ctxs := cx, c_radix := (c_radix c)\<lparr>rt_mem := m2\<rparr>,
      c_shapes := shs, c_writers := ws\<rparr>" unfolding c'_def by blast
  moreover have "ctx_waiting c' (length (c_ctxs c)) u" by (simp add: c'_def ctx_waiting_def put_ctx_init_def)
  moreover have "c_writers c' ! i = (c_writers c ! i)\<lparr>sw_q := q', sw_stat_q_max := sw_stat_q_max (c_writers c' ! i)\<rparr>"
    "length (c_writers c') = length (c_writers c)" "c_radix c' = (c_radix c)\<lparr>rt_mem := m2\<rparr>" "c_shapes c' = shs"
    using i(2) by (simp_all add: c'_def)
  ultimately show ?thesis using q'(2) m2(2) s(2,3) by metis
qed

section \<open>The round trip\<close>

lemma plain_req_ok:
  assumes args: "put_args_ok c g nl recs p um" and ver: "ucast (c_ver_counter c) + (1 :: u32) \<noteq> 0"
    and sh: "sh_lens (c_shapes c' ! s) = map pr_len recs" "unat (sh_n_recs (c_shapes c' ! s)) = length recs"
  shows "req_plain c' (plain_req c pid g tokens n expire recs s) (group_hashes pid tokens n (unat g + 1)) (map pr_len recs)"
    and "req_payload um (plain_req c pid g tokens n expire recs s) = Some p"
    and "rq_data_len (plain_req c pid g tokens n expire recs s) = of_nat (length p)"
    and "sum_list (map unat (map pr_len recs)) = length p"
proof -
  have A: "g < KV_MAX_GROUPS" "length recs = unat nl" "ucast nl \<le> cf_max_layers (c_cfg c)" "length p < 2 ^ 31"
    "unat (cf_max_layers (c_cfg c)) \<le> KV_MAX_LAYERS_CAP" "map_option concat (those (map (ref_bytes um) recs)) = Some p"
    using args by (simp_all add: put_args_ok_def)
  show sum: "sum_list (map unat (map pr_len recs)) = length p" using A(6) those_refs_length [of um recs] by auto
  have "length recs \<le> KV_MAX_LAYERS_CAP"
    using A(2,3,5) by (simp add: word_le_nat_alt unsigned_ucast_eq take_bit_nat_eq_self)
  moreover have "unat (g + 1) = unat g + 1" using A(1) by (simp add: KV_MAX_GROUPS_def word_less_nat_alt unat_word_ariths)
  ultimately show "req_plain c' (plain_req c pid g tokens n expire recs s) (group_hashes pid tokens n (unat g + 1)) (map pr_len recs)"
    using ver sh by (simp add: req_plain_def plain_req_def put_req_base_def put_req0_def group_hashes_def)
  show "req_payload um (plain_req c pid g tokens n expire recs s) = Some p"
    using A(6) by (simp add: req_payload_def plain_req_def put_req_base_def put_req0_def)
  have "(ucast (of_nat (length p) :: u64) :: u32) = of_nat (length p)"
    using A(4) of_nat_unat [of "of_nat (length p) :: u64", where ?'a = u32] unat_of_nat_u64 [of "length p"] by simp
  then show "rq_data_len (plain_req c pid g tokens n expire recs s) = of_nat (length p)"
    by (simp add: plain_req_def recs_total_nat sum [unfolded map_map])
qed

lemma put_round_stored:
  assumes inv: "cache_inv c" and io: "io_ok c" and mem: "no_oom (rt_mem (c_radix c))" and stop: "\<not> c_stop c" and sh: "shapes_ok c"
    and args: "put_args_ok c g nl recs p um"
    and cold: "hot_check_path (c_radix c) (take (unat g) (group_hashes pid tokens n (unat g + 1))) (cf_hot_hit_threshold (c_cfg c)) = Some False"
    and i: "i = unat (hash_mix64 pid mod of_nat (c_n_devs c))" and idle: "writer_idle c i (pages_of (length p))"
    and q: "mpsc_quiet k (sw_q (c_writers c ! i)) cs (length cs)" "length cs + 1 < 2 ^ 62"
    and ready: "index_ready c pid g (group_hashes pid tokens n (unat g + 1))"
    and ver: "ucast (c_ver_counter c) + (1 :: u32) \<noteq> 0" "versions_below c (ucast (c_ver_counter c) + 1)"
  shows "\<exists>c1 c2 s lf. cache_put_impl clk um0 slack c pid g tokens n expire nl recs (Some u) = Some (KV_EOK, c1) \<and> c_acks c1 = c_acks c \<and>
    writer_round clk' um c1 i = Some (False, c2) \<and>
    put_done c (plain_req c pid g tokens n expire recs s) u (group_hashes pid tokens n (unat g + 1)) p (map pr_len recs) c2 lf"
proof -
  have il: "i < length (c_writers c)" "i < c_n_devs c" using idle by (simp_all add: writer_idle_def)
  let ?path = "group_hashes pid tokens n (unat g + 1)"
  obtain c1 s q' m where c1: "cache_put_impl clk um0 slack c pid g tokens n expire nl recs (Some u) = Some (KV_EOK, c1)"
      "c_writers c1 ! i = (c_writers c ! i)\<lparr>sw_q := q', sw_stat_q_max := sw_stat_q_max (c_writers c1 ! i)\<rparr>"
      "length (c_writers c1) = length (c_writers c)" "mpsc_quiet k q' (cs @ [plain_req c pid g tokens n expire recs s]) (length cs)"
      "c_radix c1 = (c_radix c)\<lparr>rt_mem := m\<rparr>" "no_oom m" "ctx_waiting c1 (length (c_ctxs c)) u"
      "sh_lens (c_shapes c1 ! s) = map pr_len recs" "unat (sh_n_recs (c_shapes c1 ! s)) = length recs"
      and fr: "\<exists>vc st cx shs ws. c1 = c\<lparr>c_ver_counter := vc, c_stat := st, c_ctxs := cx, c_radix := (c_radix c)\<lparr>rt_mem := m\<rparr>,
        c_shapes := shs, c_writers := ws\<rparr>"
    using cache_put_plain [OF inv mem stop sh args cold i il(1) q, where ?um0.0 = um0 and clk = clk and slack = slack and expire = expire and u = u]
    by blast
  let ?r = "plain_req c pid g tokens n expire recs s"
  note R4 = plain_req_ok(4) [OF args ver(1) c1(8,9)]
  note R = plain_req_ok(1-3) [OF args ver(1) c1(8,9), where pid = pid and tokens = tokens and n = n and expire = expire]
  have c1s: "c_rms c1 = c_rms c" "c_n_devs c1 = c_n_devs c" "c_cfg c1 = c_cfg c" "c_leaves c1 = c_leaves c" "c_side c1 = c_side c"
    "c_acks c1 = c_acks c" "c_devs c1 = c_devs c" "c_journals c1 = c_journals c" using fr by auto
  have inv1: "cache_inv c1"
  proof -
    obtain vc st cx shs ws where e: "c1 = c\<lparr>c_ver_counter := vc, c_stat := st, c_ctxs := cx, c_radix := (c_radix c)\<lparr>rt_mem := m\<rparr>,
        c_shapes := shs, c_writers := ws\<rparr>" using fr by blast
    show ?thesis using cache_inv_frame(5) [of m "c\<lparr>c_ver_counter := vc, c_stat := st, c_ctxs := cx\<rparr>"] inv by (simp add: e)
  qed
  have io1: "io_ok c1" using io by (simp add: io_ok_def c1s)
  have w1: "sw_cur_buf (c_writers c1 ! i) = sw_cur_buf (c_writers c ! i)" "sw_batch (c_writers c1 ! i) = sw_batch (c_writers c ! i)"
    "sw_region (c_writers c1 ! i) = sw_region (c_writers c ! i)" "sw_next_page (c_writers c1 ! i) = sw_next_page (c_writers c ! i)"
    "sw_q (c_writers c1 ! i) = q'"
    by (subst c1(2), simp)+
  have rf: "rq_ctx ?r = length (c_ctxs c)" "rq_prefix_id ?r = pid" "rq_group_idx ?r = g" "rq_ver ?r = ucast (c_ver_counter c) + 1"
    by (simp_all add: plain_req_def put_req_base_def put_req0_def)
  have idle1: "writer_idle c1 i (pages_of (length p))" using idle by (simp add: writer_idle_def Let_def w1 c1s c1(3))
  have pq: "mpsc_quiet k (sw_q (c_writers c1 ! i)) (cs @ [?r]) (length cs)" using c1(4) w1(5) by simp
  have a1: "ctx_waiting c1 (rq_ctx ?r) u" "index_ready c1 (rq_prefix_id ?r) (rq_group_idx ?r) ?path" "versions_below c1 (rq_ver ?r)"
    "no_oom (rt_mem (c_radix c1))"
    using c1(5,6,7) ready ver(2) by (simp_all add: rf index_ready_def versions_below_def node_leaf_def leaf_at_def c1s)
  have e: "length (cs @ [?r]) = Suc (length cs)" "(cs @ [?r]) ! length cs = ?r" by simp_all
  have p: "length p < 2 ^ 31" "p \<noteq> []" using args by (simp_all add: put_args_ok_def)
  obtain c2 lf where c2: "writer_round clk' um c1 i = Some (False, c2)" "put_done c1 ?r u ?path p (map pr_len recs) c2 lf"
    using writer_round_one [OF inv1 io1 a1(4) idle1 a1(1) pq e R(1) a1(2,3) R4 p R(2,3)] by blast
  show ?thesis using c1(1) c2(1) put_done_base [OF c2(2) c1s(6,3)] c1s(6) by blast
qed

text \<open>C1: What is put is what is got.  From a running cache whose writer for the prefix is idle with room in its
  open region, a plain put is accepted without an acknowledgement; the next round of that writer ends and
  acknowledges the caller exactly once, with success.  From then on every get of the same tokens, after any number
  of earlier gets of them, returns exactly the bytes of the caller's records in order, their number and the table of
  records, as long as the group has not expired: the first from the device, later ones from DRAM or from the device.
  The put keeps references and not bytes: \<open>p\<close> are the bytes the records denote in the caller's memory \<open>um\<close> while the writer
  runs, and the memory \<open>um0\<close> at the time of the put does not matter; they are the bytes of the put if the caller leaves
  its buffers alone until the acknowledgement.  The hypotheses say that the cache satisfies its invariants, memory does
  not run out, the path is not hot, the side table agrees with the tree and the version counter has not wrapped.\<close>

theorem cache_put_get_roundtrip:
  assumes "cache_inv c" and "io_ok c" and "no_oom (rt_mem (c_radix c))" and "\<not> c_stop c" and "shapes_ok c"
    and g: "0 < group_count n" "group_count n \<le> KV_MAX_GROUPS" "g = group_count n - 1"
    and args: "put_args_ok c g nl recs p um"
    and "hot_check_path (c_radix c) (take (unat g) (get_path pid tokens n)) (cf_hot_hit_threshold (c_cfg c)) = Some False"
    and "i = unat (hash_mix64 pid mod of_nat (c_n_devs c))" and "writer_idle c i (pages_of (length p))"
    and "mpsc_quiet k (sw_q (c_writers c ! i)) cs (length cs)" and "length cs + 1 < 2 ^ 62"
    and ready: "index_ready c pid g (get_path pid tokens n)"
    and "ucast (c_ver_counter c) + (1 :: u32) \<noteq> 0" and "versions_below c (ucast (c_ver_counter c) + 1)"
  shows "\<exists>c1 c2. cache_put_impl clk um0 slack c pid g tokens n expire nl recs (Some u) = Some (KV_EOK, c1) \<and> c_acks c1 = c_acks c \<and>
    writer_round clk' um c1 i = Some (False, c2) \<and> c_acks c2 = c_acks c @ [(u, KV_EOK)] \<and> cache_inv c2 \<and>
    (\<forall>c3 env. get_steps pid tokens n expire c2 c3 \<and> get_env_ok env c3 expire \<longrightarrow>
      (\<exists>out buf c4. cache_get env c3 pid tokens n = Some ((KV_EOK, out), c4) \<and> gr_buf out = Some buf \<and>
        take (length p) buf = p \<and> gr_buf_len out = of_nat (length p) \<and> gr_recs out = shape_recs (map pr_len recs)))"
proof -
  have gc: "unat g + 1 = unat (group_count n)"
    using g by (simp add: unat_minus_one word_gt_0 flip: unat_gt_0)
  then have path: "group_hashes pid tokens n (unat g + 1) = get_path pid tokens n" by (simp add: get_path_def)
  obtain c1 c2 s lf where c: "cache_put_impl clk um0 slack c pid g tokens n expire nl recs (Some u) = Some (KV_EOK, c1)" "c_acks c1 = c_acks c"
      "writer_round clk' um c1 i = Some (False, c2)"
      "put_done c (plain_req c pid g tokens n expire recs s) u (get_path pid tokens n) p (map pr_len recs) c2 lf"
    using put_round_stored [OF assms(1-5) args, where pid = pid and tokens = tokens and n = n, unfolded path, OF assms(10-17),
        where ?um0.0 = um0 and clk = clk and slack = slack and expire = expire and u = u and clk' = clk'] by blast
  have P: "cache_inv c2" "io_ok c2" "no_oom (rt_mem (c_radix c2))" "leaf_stored c2 (get_path pid tokens n) lf p (map pr_len recs)"
    "ka_expire_ts (lf_addr0 lf) = expire" "\<forall>d. c_dram c2 = Some d \<longrightarrow> dram_lookup d (pid, g) = None"
    "c_acks c2 = c_acks c @ [(u, KV_EOK)]"
    using c(4) by (auto simp: put_done_def plain_req_def put_req_base_def put_req0_def)
  have devs: "\<forall>d \<in> set (c_devs c2). dev_ok d" using io_okD(1,5) [OF P(2)] by (auto simp: in_set_conv_nth)
  have co: "dram_coherent c2 pid (group_count n - 1) (lf_ver lf) p (shape_recs (map pr_len recs))"
    using P(6) g(3) by (auto simp: dram_coherent_def)
  have z: "0 \<notin> set (get_path pid tokens n)" using ready by (simp add: index_ready_def)
  have rd: "get_ready c2 pid tokens n lf p (map pr_len recs)" using P(1,3,4) devs co unfolding get_ready_def by blast
  have "\<exists>out buf c4. cache_get env c3 pid tokens n = Some ((KV_EOK, out), c4) \<and> gr_buf out = Some buf \<and>
        take (length p) buf = p \<and> gr_buf_len out = of_nat (length p) \<and> gr_recs out = shape_recs (map pr_len recs)"
    if st: "get_steps pid tokens n expire c2 c3" and env: "get_env_ok env c3 expire" for c3 env
  proof -
    have alive: "leaf_alive (ge_clk env) lf" using env P(5) by (simp add: leaf_alive_def get_env_ok_def)
    have "get_ready c3 pid tokens n lf p (map pr_len recs)" by (rule get_steps_ready [OF st rd g(1,2) z P(5)])
    from cache_get_stored [OF this g(1,2) z alive] env show ?thesis unfolding get_env_ok_def by blast
  qed
  with c(1-3) P(1,7) show ?thesis by blast
qed

section \<open>The round trip on a small cache\<close>

lemma demo_idle: "np \<le> 7 \<Longrightarrow> writer_idle demo_cache 0 np"
  by (simp add: writer_idle_def demo_simps demo_writer_def shard_writer0_def batch_start_def batch_buf0_def kv_config_default_def
    KV_BATCH_MIN_BYTES_def zeros_def rm_init_def KV_PAGE_SIZE_def Let_def)

lemma demo_queue: "mpsc_quiet 12 (sw_q (c_writers demo_cache ! 0)) [] (length ([] :: put_req list))"
proof -
  obtain q0 where q0: "mpsc_init True (mpsc_ring0 :: put_req mpsc_ring) 12 = (KV_EOK, q0)" by (simp add: mpsc_init_def Let_def)
  from mpsc_init_inv(1) [OF q0] show ?thesis
    by (simp add: mpsc_quiet_def demo_simps demo_writer_def q0 max_def)
qed

lemma demo_path: "get_path 5 [1, 2, 3] 3 = [hash_path 5 [1, 2, 3] 0]" "hash_path 5 [1, 2, 3] 0 \<noteq> 0"
  by (simp add: get_path_def group_hashes_def group_count_def group_token_count_def KV_TOKENS_PER_GROUP_def)
    (simp add: hash_path_def hash_token_def hash_mix64_def fnv_step_def Let_def)

text \<open>The demonstration cache with a DRAM cache, empty at first, and two gets, one after the other.\<close>

definition demo_dram_cache :: cache where
  "demo_dram_cache = demo_cache\<lparr>c_dram := Some sample_dram\<rparr>"

lemma demo_dram_inv: "cache_inv demo_dram_cache"
  by (rule cache_invI)
    (use cache_invD [OF demo_inv] dram_reach_inv [OF sample_dram_reach]
      in \<open>auto simp: demo_dram_cache_def cache_dims_def atts_def side_nodes_ok_def\<close>)

definition demo_get_env :: get_env where
  "demo_get_env = \<lparr>ge_clk = demo_clock, ge_end_ns = 0, ge_junk = [], ge_slack = [], ge_malloc = None\<rparr>"

lemma demo_get_env_ok: "get_env_ok demo_get_env c 0"
  by (simp add: get_env_ok_def demo_get_env_def malloc_ok_def)

theorem cache_put_get_roundtrip_witness:
  "\<exists>c1 c2 out1 buf1 c3 out2 buf2 c4.
    cache_put_impl demo_clock demo_mem [] demo_dram_cache 5 0 [1, 2, 3] 3 0 2 demo_refs (Some 1) = Some (KV_EOK, c1) \<and>
    writer_round demo_clock demo_mem c1 0 = Some (False, c2) \<and> c_acks c2 = [(1, KV_EOK)] \<and>
    cache_get demo_get_env c2 5 [1, 2, 3] 3 = Some ((KV_EOK, out1), c3) \<and> gr_buf out1 = Some buf1 \<and> take 3 buf1 = [9, 8, 7] \<and>
    cache_get demo_get_env c3 5 [1, 2, 3] 3 = Some ((KV_EOK, out2), c4) \<and> gr_buf out2 = Some buf2 \<and> take 3 buf2 = [9, 8, 7]"
proof -
  let ?c = demo_dram_cache and ?get = "\<lambda>c. cache_get demo_get_env c 5 [1, 2, 3] 3"
  note S = demo_dram_cache_def demo_simps
  have gc: "group_count 3 = 1" by (simp add: group_count_def KV_TOKENS_PER_GROUP_def)
  have args: "put_args_ok ?c 0 2 demo_refs [9, 8, 7] demo_mem"
    by (simp add: put_args_ok_def S demo_refs_def demo_mem_def KV_MAX_GROUPS_def kv_config_default_def KV_MAX_LAYERS_CAP_def
      ref_bytes_def bslice_def KV_STRIPE_THRESHOLD_def)
  have pg: "pages_of (length [9, 8, 7 :: u8]) \<le> 7" by (simp add: pages_of_def KV_PAGE_SIZE_def)
  have idle: "writer_idle ?c 0 (pages_of (length [9, 8, 7 :: u8]))"
    using demo_idle [OF pg] by (simp add: writer_idle_def demo_dram_cache_def)
  have queue: "mpsc_quiet 12 (sw_q (c_writers ?c ! 0)) [] (length ([] :: put_req list))"
    using demo_queue by (simp add: demo_dram_cache_def)
  have io: "io_ok ?c" using demo_io by (simp add: io_ok_def demo_dram_cache_def)
  have sg: "side_get side_init 5 0 = Some None" using side_get_map [OF side_init_inv, of 5 0] by (simp add: side_init_map)
  have ready: "index_ready ?c 5 0 (get_path 5 [1, 2, 3] 3)"
    using sg demo_path(2) by (simp add: index_ready_def demo_path S radix_t0_def) (simp add: side_init_def)
  have nl: "rn_leaf (node_new 0) = None" by (simp add: node_new_def)
  have below: "versions_below ?c (ucast (c_ver_counter ?c) + 1)" "ucast (c_ver_counter ?c) + (1 :: u32) \<noteq> 0"
    by (simp_all add: versions_below_def S radix_t0_def node_leaf_def nl)
  have cold: "hot_check_path (c_radix ?c) (take (unat (0 :: u32)) (get_path 5 [1, 2, 3] 3))
      (cf_hot_hit_threshold (c_cfg ?c)) = Some False"
    by (simp add: S hot_check_path_def radix_t0_def radix_walk_def node_new_def)
  have misc: "no_oom (rt_mem (c_radix ?c))" "\<not> c_stop ?c" "shapes_ok ?c" "0 < group_count 3"
    "group_count 3 \<le> KV_MAX_GROUPS" "0 = group_count 3 - 1" "0 = unat (hash_mix64 5 mod of_nat (c_n_devs ?c))"
    "length ([] :: put_req list) + 1 < 2 ^ 62"
    using gc by (simp_all add: S radix_t0_def shapes_ok_def KV_MAX_GROUPS_def)
  have three: "length [9, 8, 7 :: u8] = 3" by simp
  obtain c1 c2 where c: "cache_put_impl demo_clock demo_mem [] ?c 5 0 [1, 2, 3] 3 0 2 demo_refs (Some 1) = Some (KV_EOK, c1)"
      "writer_round demo_clock demo_mem c1 0 = Some (False, c2)" "c_acks c2 = c_acks ?c @ [(1, KV_EOK)]"
    and get: "\<forall>c3 env. get_steps 5 [1, 2, 3] 3 0 c2 c3 \<and> get_env_ok env c3 0 \<longrightarrow>
      (\<exists>out buf c4. cache_get env c3 5 [1, 2, 3] 3 = Some ((KV_EOK, out), c4) \<and> gr_buf out = Some buf \<and>
        take (length [9, 8, 7 :: u8]) buf = [9, 8, 7] \<and> gr_buf_len out = of_nat (length [9, 8, 7 :: u8]) \<and>
        gr_recs out = shape_recs (map pr_len demo_refs))"
    using cache_put_get_roundtrip [OF demo_dram_inv io misc(1-6) args cold misc(7) idle queue misc(8) ready below(2,1),
        where ?um0.0 = demo_mem and clk = demo_clock and slack = "[]" and expire = 0 and u = 1 and clk' = demo_clock] by blast
  have found: "\<exists>out buf c4. ?get c3 = Some ((KV_EOK, out), c4) \<and> gr_buf out = Some buf \<and> take 3 buf = [9, 8, 7]"
    if "get_steps 5 [1, 2, 3] 3 0 c2 c3" for c3
    using get that demo_get_env_ok unfolding three by blast
  obtain out1 buf1 c3 where g1: "?get c2 = Some ((KV_EOK, out1), c3)" "gr_buf out1 = Some buf1" "take 3 buf1 = [9, 8, 7]"
    using found [OF get_steps.none] by blast
  have "get_steps 5 [1, 2, 3] 3 0 c2 c3" by (rule get_steps.step [OF get_steps.none demo_get_env_ok g1(1)])
  from found [OF this] obtain out2 buf2 c4 where
    "?get c3 = Some ((KV_EOK, out2), c4)" "gr_buf out2 = Some buf2" "take 3 buf2 = [9, 8, 7]" by blast
  moreover have "c_acks c2 = [(1, KV_EOK)]" using c(3) by (simp add: S)
  ultimately show ?thesis using c(1,2) g1 by blast
qed

end
