(* ===== verification/KV_Pins.thy ===== *)
theory KV_Pins
  imports KV_Demo
begin

text \<open>
  Pins and the life of a leaf.  A get pins the leaf it found and reads outside the lock; meanwhile
  other operations replace, evict, expire and reap leaves.  The step relation \<open>pin_step\<close> interleaves
  the critical sections of these operations with a list of the pins held; in every reachable state
  a pinned leaf is allocated, and the accounts of the regions are exact.
\<close>

section \<open>What an operation does to the leaves\<close>

text \<open>A leaf is freed only when nobody holds it, its count never changes, a new leaf is not held, and what is freed
  stays freed.\<close>

definition leaf_kept :: "radix_leaf option \<Rightarrow> radix_leaf option \<Rightarrow> bool" where
  "leaf_kept a b \<longleftrightarrow>
    (case a of
       None \<Rightarrow> b = None
     | Some lf \<Rightarrow> (case b of None \<Rightarrow> lf_refcnt lf = 0 | Some lf' \<Rightarrow> lf_refcnt lf' = lf_refcnt lf))"

definition leaves_kept :: "radix_leaf option list \<Rightarrow> radix_leaf option list \<Rightarrow> bool" where
  "leaves_kept ls ls' \<longleftrightarrow> length ls \<le> length ls' \<and> (\<forall>l < length ls. leaf_kept (ls ! l) (ls' ! l)) \<and>
    (\<forall>l. length ls \<le> l \<and> l < length ls' \<longrightarrow> (\<forall>lf. ls' ! l = Some lf \<longrightarrow> lf_refcnt lf = 0))"

lemma leaf_kept_refl [simp]: "leaf_kept a a"
  by (simp add: leaf_kept_def split: option.split)

lemma leaf_kept_trans: "leaf_kept a b \<Longrightarrow> leaf_kept b c \<Longrightarrow> leaf_kept a c"
  by (auto simp: leaf_kept_def split: option.splits)

lemma leaves_kept_refl [simp]: "leaves_kept ls ls"
  by (auto simp: leaves_kept_def)

lemma leaves_kept_trans:
  assumes "leaves_kept a b" and "leaves_kept b c"
  shows "leaves_kept a c"
  unfolding leaves_kept_def
proof (intro conjI allI impI)
  show "length a \<le> length c" using assms by (simp add: leaves_kept_def)
  show "leaf_kept (a ! l) (c ! l)" if "l < length a" for l
    using assms that by (auto simp: leaves_kept_def intro: leaf_kept_trans)
  show "lf_refcnt lf = 0" if l: "length a \<le> l \<and> l < length c" and c: "c ! l = Some lf" for l lf
  proof (cases "l < length b")
    case True
    then have k: "leaf_kept (b ! l) (c ! l)" using assms(2) by (simp add: leaves_kept_def)
    then obtain lf' where lf': "b ! l = Some lf'" using c by (auto simp: leaf_kept_def split: option.splits)
    then have "lf_refcnt lf' = 0" using assms(1) l True by (auto simp: leaves_kept_def)
    with k lf' c show ?thesis by (simp add: leaf_kept_def)
  qed (use assms(2) l c in \<open>auto simp: leaves_kept_def not_less\<close>)
qed

lemma leaves_kept_free:
  assumes "l < length ls \<Longrightarrow> ls ! l = Some lf \<and> lf_refcnt lf = 0"
  shows "leaves_kept ls (ls[l := None])"
  using assms by (auto simp: leaves_kept_def leaf_kept_def nth_upd split: option.split)

lemma leaves_kept_set:
  assumes "l < length ls \<Longrightarrow> ls ! l = Some lf \<and> lf_refcnt lf' = lf_refcnt lf"
  shows "leaves_kept ls (ls[l := Some lf'])"
  using assms by (auto simp: leaves_kept_def leaf_kept_def nth_upd split: option.split)

lemma leaves_kept_new: "lf_refcnt lf = 0 \<Longrightarrow> leaves_kept ls (ls @ [Some lf])"
  by (auto simp: leaves_kept_def nth_append)

lemma dfree_push_kept:
  assumes "c_leaves c ! l \<noteq> None"
  shows "leaves_kept (c_leaves c) (c_leaves (dfree_push c l))"
  using assms leaves_kept_free [of l "c_leaves c" "leaf_at c l"] by (auto simp: dfree_push_def leaf_free_def leaf_at_def)

lemma cache_dram_invalidate_frame: "cache_dram_invalidate c p g = Some c' \<Longrightarrow> \<exists>d. c' = c\<lparr>c_dram := d\<rparr>"
  by (rule exI [of _ "c_dram c'"]) (auto simp: cache_dram_invalidate_def split: option.splits)

lemma leaf_drop_kept:
  assumes inv: "cache_inv c" and node: "node < length (rt_nodes (c_radix c))" and drop: "leaf_drop c node = Some c'"
  shows "leaves_kept (c_leaves c) (c_leaves c')"
proof (cases "node_leaf c node")
  case None
  with drop show ?thesis by (simp add: leaf_drop_def)
next
  case (Some l)
  note L = attached_leaf [OF inv node Some]
  let ?lf = "leaf_at c l"
  obtain c1 where d: "cache_dram_invalidate c (lf_prefix_id ?lf) (node_group c node) = Some c1"
    using drop Some by (auto simp: leaf_drop_def Let_def split: option.splits)
  obtain dm where c1: "c1 = c\<lparr>c_dram := dm\<rparr>" using cache_dram_invalidate_frame [OF d] by blast
  let ?c2 = "leaf_sub_live c1 ?lf"
  define c3 where "c3 = (if c_replaying ?c2 then ?c2 else snd (with_journal ?c2 (if ka_dev_id (lf_addr0 ?lf) = KV_INVALID_DEV then 0
    else unat (ka_dev_id (lf_addr0 ?lf))) (\<lambda>jr. journal_del jr (lf_prefix_id ?lf) (node_group ?c2 node))))"
  have l3: "c_leaves c3 = c_leaves c"
    by (simp add: c3_def with_journal_def leaf_sub_live_rms c1 split: prod.split)
  have "c' = n_leaves_add (node_set_leaf (dfree_push c3 l) node None) (-1)"
    using drop unfolding leaf_drop_def Some option.case Let_def d c3_def [symmetric] by simp
  then have "c_leaves c' = c_leaves (dfree_push c3 l)" by (simp add: n_leaves_add_def node_set_leaf_def)
  moreover have "leaves_kept (c_leaves c3) (c_leaves (dfree_push c3 l))" by (rule dfree_push_kept) (simp add: l3 L(2))
  ultimately show ?thesis by (simp add: l3)
qed

lemma leaf_retire_kept:
  assumes "\<And>l. old = Some l \<Longrightarrow> c_leaves c ! l \<noteq> None"
  shows "leaves_kept (c_leaves c) (c_leaves (leaf_retire c old))"
proof (cases old)
  case (Some l)
  have "leaves_kept (c_leaves (leaf_sub_live c (leaf_at c l))) (c_leaves (dfree_push (leaf_sub_live c (leaf_at c l)) l))"
    by (rule dfree_push_kept) (use assms [OF Some] in \<open>simp add: leaf_sub_live_rms\<close>)
  with Some show ?thesis by (simp add: leaf_retire_def leaf_sub_live_rms)
qed (simp add: leaf_retire_def)

lemma leaf_journal_leaves [simp]: "c_leaves (leaf_journal c w p g v a x si sn fl dl sh path pl) = c_leaves c"
  using leaf_journal_frame [of c w p g v a x si sn fl dl sh path pl] by force

lemma leaf_update_slot_kept:
  assumes "c_leaves c ! l = Some (leaf_at c l)"
  shows "leaves_kept (c_leaves c) (c_leaves (leaf_update_slot c l addr slot sh))"
  by (simp add: leaf_update_slot_def Let_def region_live_add_rms addr_sub_live_rms leaf_set_def)
    (intro conjI impI leaves_kept_set [where lf = "leaf_at c l"], simp_all add: assms)

lemma leaf_update_part_kept:
  assumes "c_leaves c ! l = Some (leaf_at c l)"
  shows "leaves_kept (c_leaves c) (c_leaves (leaf_update_part c l addr si sh))"
  by (simp add: leaf_update_part_def Let_def region_live_add_rms region_live_sub_rms leaf_set_def)
    (intro conjI impI leaves_kept_set [where lf = "leaf_at c l"], simp_all add: assms)

lemma c_alloc_leaves: "c_alloc c = (ok, c') \<Longrightarrow> c_leaves c' = c_leaves c"
  using c_alloc_frame [of c] by auto

lemma leaf_publish_kept:
  assumes inv: "cache_inv c" and node: "node < length (rt_nodes (c_radix c))"
    and pub: "leaf_publish c w node p g ver addr slot flags si sn st dl sh path pl = Some c'"
  shows "leaves_kept (c_leaves c) (c_leaves c')"
proof -
  let ?old = "node_leaf c node" and ?str = "flags AND KV_CHUNK_F_STRIPE \<noteq> 0"
  have L: "c_leaves c ! l = Some (leaf_at c l)" if "?old = Some l" for l using attached_leaf(2) [OF inv node that] .
  show ?thesis
  proof (cases "case ?old of None \<Rightarrow> False | Some l \<Rightarrow> lf_ver (leaf_at c l) > ver")
    case True
    with pub show ?thesis by (simp add: leaf_publish_def Let_def)
  next
    case older: False
    show ?thesis
    proof (cases "case ?old of None \<Rightarrow> False | Some l \<Rightarrow> lf_ver (leaf_at c l) = ver \<and> (?str \<longrightarrow> lf_stripe (leaf_at c l) \<noteq> None)")
      case True
      then obtain l where l: "?old = Some l" "lf_ver (leaf_at c l) = ver" "?str \<longrightarrow> lf_stripe (leaf_at c l) \<noteq> None"
        by (auto split: option.splits)
      with pub leaf_update_part_kept [OF L [OF l(1)]] leaf_update_slot_kept [OF L [OF l(1)]] show ?thesis
        by (cases ?str) (auto simp: leaf_publish_def Let_def split: if_splits)
    next
      case new: False
      let ?lf = "if ?str then leaf_new_stripe p ver addr si sn st sh else leaf_new p ver addr slot sh"
      have eq: "leaf_publish c w node p g ver addr slot flags si sn st dl sh path pl =
        (case cache_dram_invalidate (leaf_retire c ?old) p g of None \<Rightarrow> None | Some c \<Rightarrow>
              (case c_alloc c of (ok, c) \<Rightarrow>
                 if \<not> ok then None
                 else case (if ?str then c_alloc c else (True, c)) of (ok, c) \<Rightarrow>
                   if \<not> ok \<or> ?str \<and> \<not> si < sn then None
                   else Some (leaf_journal (leaf_install c node ?old ?lf addr) w p g ver addr (ka_expire_ts addr)
                  (if ?str then si else 0) (if ?str then sn else 0)
                  (flags OR (if slot = 1 then KV_JFLAG_SLOT1 else 0)) dl sh path pl)))"
        using older new unfolding leaf_publish_def Let_def by (auto split: option.splits)
      obtain c1 where c1: "cache_dram_invalidate (leaf_retire c ?old) p g = Some c1" using pub eq by (auto split: option.splits)
      obtain d where d: "c1 = (leaf_retire c ?old)\<lparr>c_dram := d\<rparr>" using cache_dram_invalidate_frame [OF c1] by blast
      have rf: "lf_refcnt ?lf = 0" by (simp add: leaf_new_stripe_def leaf_new_def radix_leaf0_def Let_def)
      obtain ok c2 where a: "c_alloc c1 = (ok, c2)" by (cases "c_alloc c1")
      obtain ok' c3 where b: "(if ?str then c_alloc c2 else (True, c2)) = (ok', c3)"
        by (cases "if ?str then c_alloc c2 else (True, c2)")
      have lv: "c_leaves c2 = c_leaves c1" "c_leaves c3 = c_leaves c2"
        using c_alloc_leaves [OF a] b c_alloc_leaves [of c2 ok' c3] by (auto split: if_splits)
      have "c_leaves c' = c_leaves (leaf_install c3 node ?old ?lf addr)"
        using pub unfolding eq c1 option.case a prod.case b
        by (cases "\<not> ok"; cases "\<not> ok' \<or> ?str \<and> \<not> si < sn") (simp_all only: if_True if_False option.inject option.distinct, auto)
      then have "c_leaves c' = c_leaves (leaf_retire c ?old) @ [Some ?lf]"
        using lv by (simp add: leaf_install_def Let_def region_live_add_rms node_set_leaf_def n_leaves_add_def d)
      moreover have "leaves_kept (c_leaves c) (c_leaves (leaf_retire c ?old))" by (rule leaf_retire_kept) (use L in simp)
      ultimately show ?thesis using leaves_kept_trans leaves_kept_new [OF rf] by simp
    qed
  qed
qed

section \<open>Scans\<close>

text \<open>The steps of the collector: the invariant holds after them, the nodes and the geometry of the regions
  are those from before, and the pinned leaves are kept.\<close>

definition kept_step :: "cache \<Rightarrow> cache \<Rightarrow> bool" where
  "kept_step c c' \<longleftrightarrow> cache_inv c' \<and> leaves_kept (c_leaves c) (c_leaves c') \<and> c_side c' = c_side c \<and>
    length (rt_nodes (c_radix c')) = length (rt_nodes (c_radix c)) \<and> same_geom (c_rms c) (c_rms c')"

lemma kept_step_refl: "cache_inv c \<Longrightarrow> kept_step c c"
  by (simp add: kept_step_def)

lemma kept_step_trans: "kept_step a b \<Longrightarrow> kept_step b c \<Longrightarrow> kept_step a c"
  by (auto simp: kept_step_def intro: leaves_kept_trans same_geom_trans)

lemma kept_step_drop:
  assumes "kept_step c c1" and "node < length (rt_nodes (c_radix c))" and "leaf_drop c1 node = Some c2"
  shows "kept_step c c2"
proof -
  have inv: "cache_inv c1" "node < length (rt_nodes (c_radix c1))" using assms(1,2) by (simp_all add: kept_step_def)
  obtain c' where c': "leaf_drop c1 node = Some c'" "cache_inv c'" "atts c' = (atts c1)[node := None]" "c_side c' = c_side c1"
    "same_geom (c_rms c1) (c_rms c')"
    using leaf_drop_ok [OF inv] by blast
  then have "c2 = c'" using assms(3) by simp
  moreover have "length (rt_nodes (c_radix c')) = length (rt_nodes (c_radix c1))" using arg_cong [OF c'(3), of length] by simp
  ultimately have "kept_step c1 c2" using c' leaf_drop_kept [OF inv assms(3)] by (simp add: kept_step_def)
  then show ?thesis by (rule kept_step_trans [OF assms(1)])
qed

lemma kept_step_fold:
  assumes "kept_step c c1" and "fold_opt f xs c1 = Some c2"
    and "\<And>x a b. x \<in> set xs \<Longrightarrow> kept_step c a \<Longrightarrow> f x a = Some b \<Longrightarrow> kept_step c b"
  shows "kept_step c c2"
  using assms
proof (induction xs arbitrary: c1)
  case (Cons x xs)
  then obtain c' where c': "f x c1 = Some c'" "fold_opt f xs c' = Some c2" by (auto simp: Option.bind_eq_Some_conv)
  show ?case by (rule Cons.IH [OF Cons.prems(3) [OF _ Cons.prems(1) c'(1)] c'(2) Cons.prems(3)]) simp_all
qed simp

lemma side_slot_node:
  assumes "cache_inv c" and "s \<in> set (take n (st_slots (c_side c)))" and "ss_used s \<noteq> 0" and "ss_node s = Some node"
  shows "node < length (rt_nodes (c_radix c))"
  using cache_invD(6) [OF assms(1)] in_set_takeD [OF assms(2)] assms(3,4) by (force simp: side_nodes_ok_def)

lemma kept_step_stat [simp]: "kept_step c (c'\<lparr>c_stat := st\<rparr>) = kept_step c c'"
  by (simp add: kept_step_def)

lemma kept_step_tomb [simp]: "kept_step c (tomb_insert c' clk p) = kept_step c c'"
proof -
  obtain tk tc where "tomb_insert c' clk p = c'\<lparr>c_tomb_keys := tk, c_tomb_cf := tc\<rparr>" using tomb_insert_frame by blast
  then show ?thesis by (simp add: kept_step_def)
qed

lemma drop_region_slot_scan:
  assumes "cache_inv c" and "s \<in> set (take n (st_slots (c_side c)))" and "kept_step c a" and "drop_region_slot clk dev base stop s a = Some b"
  shows "kept_step c b"
proof (cases "ss_used s = 0 \<or> ss_node s = None")
  case True
  then have "(if ss_used s = 0 then None else ss_node s) = None" by auto
  with assms(3,4) show ?thesis by (simp add: drop_region_slot_def)
next
  case False
  then obtain node where node: "ss_used s \<noteq> 0" "ss_node s = Some node" by auto
  note lt = side_slot_node [OF assms(1,2) node]
  show ?thesis
  proof (cases "\<exists>l. node_leaf a node = Some l \<and> leaf_in_pages dev base stop (leaf_at a l) \<and> lf_refcnt (leaf_at a l) = 0")
    case False
    with assms(3,4) node show ?thesis by (auto simp: drop_region_slot_def split: option.splits if_splits)
  next
    case True
    then obtain a' where a': "leaf_drop a node = Some a'"
      "b = upd_stat (\<lambda>s. s\<lparr>cs_gc_evicted_leaves := cs_gc_evicted_leaves s + 1\<rparr>)
          (if ss_prefix_id s \<le> 100 then tomb_insert a' clk (ss_prefix_id s) else a')"
      using assms(4) node by (auto simp: drop_region_slot_def)
    from kept_step_drop [OF assms(3) lt a'(1)] show ?thesis by (simp add: a'(2))
  qed
qed

lemma cache_drop_region_scan:
  assumes inv: "cache_inv c" and drop: "cache_drop_region clk c dev r = Some c'"
  shows "kept_step c c'"
proof -
  let ?base = "page_base (c_rms c ! dev) r"
  let ?stop = "trunc64 (?base + unat (rm_region_size_pages (c_rms c ! dev)))"
  let ?ss = "take (unat (st_cap (c_side c))) (st_slots (c_side c))"
  obtain c1 where c1: "fold_opt (drop_region_slot clk dev ?base ?stop) ?ss c = Some c1"
      "c' = upd_stat (\<lambda>s. s\<lparr>cs_drops := cs_drops s + 1\<rparr>) c1"
    using drop by (auto simp: cache_drop_region_def Let_def)
  have "kept_step c c1"
    by (rule kept_step_fold [OF kept_step_refl [OF inv] c1(1)]) (use drop_region_slot_scan [OF inv] in blast)
  then show ?thesis by (simp add: c1(2))
qed

lemma gc_ttl_slot_scan:
  assumes "cache_inv c" and "s \<in> set (take n (st_slots (c_side c)))" and "kept_step c a" and "gc_ttl_slot clk s a = Some b"
  shows "kept_step c b"
proof (cases "b = a")
  case False
  then obtain node where node: "ss_used s \<noteq> 0" "ss_node s = Some node" "leaf_drop a node = Some b"
    using assms(4) by (auto simp: gc_ttl_slot_def Let_def split: option.splits if_splits)
  show ?thesis by (rule kept_step_drop [OF assms(3) side_slot_node [OF assms(1,2) node(1,2)] node(3)])
qed (use assms(3) in simp)

lemma dfree_reap_step:
  assumes inv: "cache_inv c"
  shows "kept_step c (dfree_reap c)"
proof -
  let ?f = "\<lambda>l c. if lf_refcnt (leaf_at c l) = 0 then leaf_free c l else c\<lparr>c_dfree := c_dfree c @ [l]\<rparr>"
  have run: "leaves_kept (c_leaves x) (c_leaves (fold ?f ls x)) \<and> c_side (fold ?f ls x) = c_side x \<and>
      c_radix (fold ?f ls x) = c_radix x \<and> c_rms (fold ?f ls x) = c_rms x"
    if "distinct ls" "\<forall>l \<in> set ls. c_leaves x ! l \<noteq> None" for ls x
    using that
  proof (induction ls arbitrary: x)
    case (Cons l ls)
    have 1: "leaves_kept (c_leaves x) (c_leaves (?f l x))"
      using Cons.prems(2) leaves_kept_free [of l "c_leaves x" "leaf_at x l"] by (auto simp: leaf_free_def leaf_at_def)
    have "\<forall>k \<in> set ls. c_leaves (?f l x) ! k \<noteq> None" using Cons.prems by (auto simp: leaf_free_def nth_upd)
    from Cons.IH [OF _ this] Cons.prems(1) 1 show ?case by (auto simp: leaf_free_def intro: leaves_kept_trans)
  qed simp
  show ?thesis
    using run [of "c_dfree c" "c\<lparr>c_dfree := []\<rparr>"] leaves_okD(3,4) [OF cache_invD(2) [OF inv]] dfree_reap_inv(1) [OF inv]
    by (simp add: dfree_reap_def kept_step_def)
qed

lemma gc_ttl_step:
  assumes inv: "cache_inv c" and ttl: "gc_ttl clk c = Some c'"
  shows "kept_step c c'"
proof -
  define c0 where "c0 = c\<lparr>c_last_ttl_ms := ck_ms clk\<rparr>"
  have inv0: "cache_inv c0" using inv by (simp add: c0_def cache_inv_def cache_dims_def atts_def side_nodes_ok_def)
  have 0: "kept_step c c0" using inv0 by (simp add: c0_def kept_step_def)
  obtain c1 where c1: "fold_opt (gc_ttl_slot clk) (take (unat (st_cap (c_side c0))) (st_slots (c_side c0))) c0 = Some c1" "c' = dfree_reap c1"
    using ttl by (auto simp: gc_ttl_def c0_def)
  have 1: "kept_step c0 c1"
    by (rule kept_step_fold [OF kept_step_refl [OF inv0] c1(1)]) (use gc_ttl_slot_scan [OF inv0] in blast)
  then have "kept_step c1 c'" unfolding c1(2) by (intro dfree_reap_step) (simp add: kept_step_def)
  with 0 1 kept_step_trans show ?thesis by blast
qed

section \<open>The collector\<close>

lemma hot_decay_step:
  assumes inv: "cache_inv c" and dec: "hot_decay (c_radix c) = Some t"
  shows "kept_step c (c\<lparr>c_radix := t, c_last_decay_ms := ms\<rparr>)"
proof -
  have t: "t = (c_radix c)\<lparr>rt_nodes := map halve_node (rt_nodes (c_radix c))\<rparr>"
    using hot_decay_ok [OF cache_invD(4) [OF inv]] dec by simp
  have "hits_only (rt_nodes (c_radix c)) (map halve_node (rt_nodes (c_radix c)))"
    by (auto simp: hits_only_def halve_node_def)
  from cache_inv_hits [OF inv this] have "cache_inv (c\<lparr>c_radix := t\<rparr>)" by (simp add: t)
  then have "cache_inv (c\<lparr>c_radix := t, c_last_decay_ms := ms\<rparr>)"
    by (simp add: cache_inv_def cache_dims_def atts_def side_nodes_ok_def)
  then show ?thesis by (simp add: kept_step_def t)
qed

lemma cache_checkpoint_step:
  assumes inv: "cache_inv c" and ck: "cache_checkpoint os c = Some (rc, c')"
  shows "kept_step c c'"
proof -
  have run: "kept_step c (fold (\<lambda>i c. snd (with_journal c i journal_reset)) is x)" if "kept_step c x" for "is" x
    using that
  proof (induction "is" arbitrary: x)
    case (Cons i "is")
    obtain js ds where w: "snd (with_journal x i journal_reset) = x\<lparr>c_journals := js, c_devs := ds\<rparr>"
      "cache_inv (x\<lparr>c_journals := js, c_devs := ds\<rparr>) = cache_inv x"
      using with_journal_frame [of x i journal_reset] with_journal_inv [of x i journal_reset] by metis
    then have "kept_step c (snd (with_journal x i journal_reset))" using Cons.prems by (simp add: kept_step_def)
    then show ?case using Cons.IH by simp
  qed simp
  obtain img "is" where f: "c' = (if rc = KV_EOK then fold (\<lambda>i c. snd (with_journal c i journal_reset)) is (c\<lparr>c_ckpt_file := img\<rparr>)
      else c\<lparr>c_ckpt_file := img\<rparr>)"
    using ck by (auto simp: cache_checkpoint_def Let_def split: option.splits)
  have "kept_step c (c\<lparr>c_ckpt_file := img\<rparr>)" using inv
    by (simp add: kept_step_def cache_inv_def cache_dims_def atts_def side_nodes_ok_def)
  then show ?thesis using run unfolding f by simp
qed

lemma trim_region_step:
  assumes k: "kept_step c a" and di: "(d, i) \<in> set (all_regions c)" and inv: "cache_inv c" and z: "rs_live_bytes (region_at a d i) = 0"
  shows "kept_step c (trim_region a d i)"
proof -
  have inva: "cache_inv a" and g: "same_geom (c_rms c) (c_rms a)" using k by (simp_all add: kept_step_def)
  have d: "d < c_n_devs c" "i < unat (rm_region_cnt (c_rms c ! d))" using di by (auto simp: all_regions_def)
  have r: "length (c_rms c) = c_n_devs c" "\<forall>rm \<in> set (c_rms c). length (rm_rg rm) = unat (rm_region_cnt rm)" "length (c_rms a) = c_n_devs a"
    using cache_invD(1) [OF inv] cache_invD(1) [OF inva] by (simp_all add: cache_dims_def)
  have len: "d < c_n_devs a" "i < length (rm_rg (c_rms a ! d))"
    using g d r by (auto simp: same_geom_def)
  have "cache_inv (trim_region a d i)"
    by (rule trim_region_inv [OF inva len]) (use z in \<open>simp add: lv_def region_at_def\<close>)
  moreover have "same_geom (c_rms a) (c_rms (trim_region a d i))"
    by (auto simp: same_geom_def trim_region_def Let_def rm_set_sh_def cache_write_header_def nth_upd split: prod.splits)
  moreover have "c_leaves (trim_region a d i) = c_leaves a" "c_side (trim_region a d i) = c_side a" "c_radix (trim_region a d i) = c_radix a"
    by (simp_all add: trim_region_def Let_def rm_set_sh_def cache_write_header_def split: prod.splits)
  ultimately have "kept_step a (trim_region a d i)" by (simp add: kept_step_def)
  then show ?thesis by (rule kept_step_trans [OF k])
qed

lemma gc_trim_empty_step:
  assumes inv: "cache_inv c"
  shows "kept_step c (gc_trim_empty clk c)"
proof -
  have run: "kept_step c (fold (\<lambda>(d, i) a. let sh = region_at a d i in
      if rs_state sh = KV_RG_FROZEN \<and> rs_live_bytes sh = 0 \<and> rs_close_ts sh \<noteq> 0 \<and> ck_s clk > rs_base_ts sh + ucast (cf_epoch_secs (c_cfg a))
      then trim_region a d i else a) xs x)" if "set xs \<subseteq> set (all_regions c)" "kept_step c x" for xs x
    using that
  proof (induction xs arbitrary: x)
    case (Cons di xs)
    obtain d i where di: "di = (d, i)" by (cases di)
    have "kept_step c (if rs_state (region_at x d i) = KV_RG_FROZEN \<and> rs_live_bytes (region_at x d i) = 0 \<and>
        rs_close_ts (region_at x d i) \<noteq> 0 \<and> ck_s clk > rs_base_ts (region_at x d i) + ucast (cf_epoch_secs (c_cfg x))
        then trim_region x d i else x)"
      using trim_region_step [OF Cons.prems(2) _ inv, of d i] Cons.prems di by auto
    then show ?case using Cons.IH Cons.prems by (simp add: di Let_def)
  qed simp
  show ?thesis unfolding gc_trim_empty_def by (rule run [OF subset_refl kept_step_refl [OF inv]])
qed

lemma gc_drop_gen_step:
  assumes inv: "cache_inv c" and drop: "gc_drop_gen clk oldest c = Some c'"
  shows "kept_step c c'"
proof (rule kept_step_fold [OF kept_step_refl [OF inv] drop [unfolded gc_drop_gen_def]])
  fix di a b
  assume di: "di \<in> set (all_regions c)" and a: "kept_step c a" and b: "(case di of (d, i) \<Rightarrow> \<lambda>c.
        if rs_state (region_at c d i) = KV_RG_FROZEN \<and> rs_epoch (region_at c d i) = oldest then
          map_option (\<lambda>c. if rs_live_bytes (region_at c d i) = 0 then trim_region c d i else c) (cache_drop_region clk c d i)
        else Some c) a = Some b"
  obtain d i where [simp]: "di = (d, i)" by (cases di)
  show "kept_step c b"
  proof (cases "b = a")
    case False
    then obtain x where x: "cache_drop_region clk a d i = Some x"
      using b by (cases "cache_drop_region clk a d i") (simp_all split: if_splits)
    then have b: "b = (if rs_live_bytes (region_at x d i) = 0 then trim_region x d i else x)"
      using b False by (auto split: if_splits)
    have "kept_step a x" using a by (intro cache_drop_region_scan [OF _ x]) (simp add: kept_step_def)
    then have "kept_step c x" by (rule kept_step_trans [OF a])
    with trim_region_step [OF this _ inv, of d i] di show ?thesis by (simp add: b)
  qed (use a in simp)
qed

lemma gc_rounds_step: "cache_inv c \<Longrightarrow> gc_rounds clk n c = Some c' \<Longrightarrow> kept_step c c'"
proof (induction n arbitrary: c)
  case (Suc n)
  show ?case
  proof (cases "gc_oldest clk c = - 1")
    case False
    then obtain x where x: "gc_drop_gen clk (gc_oldest clk c) c = Some x" "gc_rounds clk n x = Some c'"
      using Suc.prems(2) by (auto simp: Let_def Option.bind_eq_Some_conv)
    note s = gc_drop_gen_step [OF Suc.prems(1) x(1)]
    then show ?thesis using kept_step_trans [OF s] Suc.IH [OF _ x(2)] by (simp add: kept_step_def)
  qed (use Suc.prems kept_step_refl in \<open>simp add: Let_def\<close>)
qed (simp add: kept_step_refl)

lemma kept_step_draining [simp]: "kept_step c (c'\<lparr>c_gc_draining := b\<rparr>) = kept_step c c'"
  by (simp add: kept_step_def cache_inv_def cache_dims_def atts_def side_nodes_ok_def)

lemma gc_drain_step:
  assumes inv: "cache_inv c" and drain: "gc_drain clk c = Some c'"
  shows "kept_step c c'"
proof -
  let ?x = "\<lambda>A B. if A then upd_stat (\<lambda>s. s\<lparr>cs_gc_triggers := cs_gc_triggers s + 1\<rparr>) (c\<lparr>c_gc_draining := True\<rparr>)
    else if B then c\<lparr>c_gc_draining := False\<rparr> else c"
  have K: "kept_step c (?x A B)" for A B using kept_step_refl [OF inv] by simp
  obtain cap live where u: "gc_usage c = (cap, live)" by (cases "gc_usage c")
  obtain A B C n where d: "(if c_gc_draining (?x A B) \<and> C then gc_rounds clk n (?x A B) else Some (?x A B)) = Some c'"
    using drain unfolding gc_drain_def Let_def u prod.case by (rule that)
  define x where "x = ?x A B"
  have x: "kept_step c x" unfolding x_def by (rule K)
  have "gc_rounds clk n x = Some c' \<or> c' = x" using d unfolding x_def [symmetric] by (cases "c_gc_draining x \<and> C") auto
  then have "kept_step x c'" using gc_rounds_step [of x clk n c'] kept_step_refl [of x] x unfolding kept_step_def [of c] by blast
  then show ?thesis by (rule kept_step_trans [OF x])
qed

lemma gc_tick_step:
  assumes inv: "cache_inv c" and tick: "gc_tick clk os c = Some c'"
  shows "kept_step c c'"
proof -
  have I: "cache_inv b" if "kept_step a b" for a b using that by (simp add: kept_step_def)
  obtain c1 where c1: "(if c_last_decay_ms c \<noteq> 0 \<and> ck_ms clk - c_last_decay_ms c \<ge> ucast (cf_hot_decay_ms (c_cfg c))
            then map_option (\<lambda>t. c\<lparr>c_radix := t, c_last_decay_ms := ck_ms clk\<rparr>) (hot_decay (c_radix c))
            else Some c) = Some c1"
    and r1: "Option.bind (if ck_ms clk - c_last_ttl_ms c1 \<ge> 1000 then gc_ttl clk c1 else Some c1)
      (\<lambda>c. Option.bind (gc_checkpoint clk os (gc_trim_empty clk c)) (gc_drain clk)) = Some c'"
    using tick unfolding gc_tick_def by (auto simp: Option.bind_eq_Some_conv)
  have s1: "kept_step c c1" using c1 hot_decay_step [OF inv] kept_step_refl [OF inv] by (auto split: if_splits)
  obtain c2 where c2: "(if ck_ms clk - c_last_ttl_ms c1 \<ge> 1000 then gc_ttl clk c1 else Some c1) = Some c2"
    and r2: "Option.bind (gc_checkpoint clk os (gc_trim_empty clk c2)) (gc_drain clk) = Some c'"
    using r1 by (auto simp: Option.bind_eq_Some_conv)
  have s2: "kept_step c1 c2" using c2 gc_ttl_step [OF I [OF s1]] kept_step_refl [OF I [OF s1]] by (auto split: if_splits)
  note s3 = gc_trim_empty_step [OF I [OF s2], of clk]
  obtain c4 where c4: "gc_checkpoint clk os (gc_trim_empty clk c2) = Some c4" and r4: "gc_drain clk c4 = Some c'"
    using r2 by (auto simp: Option.bind_eq_Some_conv)
  have ms: "kept_step a (b\<lparr>c_last_ckpt_ms := m\<rparr>) = kept_step a b" for a b m
    by (simp add: kept_step_def cache_inv_def cache_dims_def atts_def side_nodes_ok_def)
  have s4: "kept_step (gc_trim_empty clk c2) c4"
    using c4 cache_checkpoint_step [OF I [OF s3]] kept_step_refl [OF I [OF s3]]
    by (auto simp: gc_checkpoint_def ms split: if_splits)
  show ?thesis using s1 s2 s3 s4 gc_drain_step [OF I [OF s4] r4] kept_step_trans by blast
qed

section \<open>The steps under the lock\<close>

text \<open>A state is a cache and the pins held, one entry for each get between its lookup and its release.  The steps
  are the critical sections of a get, of the writer's completion of a request, of an evict, of the collector and of
  the reaping of deferred leaves, in any order.  The writer's step is taken where allocations succeed and the
  request lies in the regions of the device.  \<open>cache_force_free_region\<close> is no step here: it trims a region
  whatever is pinned in it.\<close>

inductive pin_step :: "cache \<times> nat list \<Rightarrow> cache \<times> nat list \<Rightarrow> bool" where
  pin_lookup: "get_lookup clk c pid path = Some (r, c') \<Longrightarrow> 0 \<notin> set path \<Longrightarrow> length ps < 2 ^ 32 - 1 \<Longrightarrow>
    pin_step (c, ps) (c', case r of Inr l \<Rightarrow> l # ps | Inl err \<Rightarrow> ps)"
| pin_release: "l \<in> set ps \<Longrightarrow> pin_step (c, ps) (leaf_ref c l (- 1), remove1 l ps)"
| pin_publish: "batch_publish_req clk i r c = Some c' \<Longrightarrow> no_oom (rt_mem (c_radix c)) \<Longrightarrow> rq_hashes r = Some hs \<Longrightarrow>
    index_ready c (rq_prefix_id r) (rq_group_idx r) (take (unat (rq_group_idx r + 1)) hs) \<Longrightarrow>
    leaf_addr_ok c (req_addr clk i r) \<Longrightarrow> pin_step (c, ps) (c', ps)"
| pin_evict: "cache_evict_impl clk c pid toks n = Some (rc, c') \<Longrightarrow> 0 \<notin> set (group_hashes pid toks n (unat (group_count n))) \<Longrightarrow>
    pin_step (c, ps) (c', ps)"
| pin_drop_region: "cache_drop_region clk c dev idx = Some c' \<Longrightarrow> pin_step (c, ps) (c', ps)"
| pin_gc: "gc_tick clk os c = Some c' \<Longrightarrow> pin_step (c, ps) (c', ps)"
| pin_reap: "pin_step (c, ps) (dfree_reap c, ps)"

definition pins_ok :: "cache \<times> nat list \<Rightarrow> bool" where
  "pins_ok s \<longleftrightarrow> (case s of (c, ps) \<Rightarrow> cache_inv c \<and> length ps < 2 ^ 32 \<and>
    (\<forall>l \<in> set ps. l < length (c_leaves c) \<and> c_leaves c ! l \<noteq> None) \<and>
    (\<forall>l < length (c_leaves c). \<forall>lf. c_leaves c ! l = Some lf \<longrightarrow> unat (lf_refcnt lf) = count_list ps l))"

lemma pins_ok_keeps:
  assumes s: "pins_ok (c, ps)" and inv: "cache_inv c'" and k: "leaves_kept (c_leaves c) (c_leaves c')"
  shows "pins_ok (c', ps)"
proof -
  have S: "length ps < 2 ^ 32" "\<And>l. l \<in> set ps \<Longrightarrow> l < length (c_leaves c) \<and> c_leaves c ! l \<noteq> None"
    "\<And>l lf. l < length (c_leaves c) \<Longrightarrow> c_leaves c ! l = Some lf \<Longrightarrow> unat (lf_refcnt lf) = count_list ps l"
    using s by (auto simp: pins_ok_def)
  have K: "length (c_leaves c) \<le> length (c_leaves c')" "\<And>l. l < length (c_leaves c) \<Longrightarrow> leaf_kept (c_leaves c ! l) (c_leaves c' ! l)"
    "\<And>l lf. length (c_leaves c) \<le> l \<Longrightarrow> l < length (c_leaves c') \<Longrightarrow> c_leaves c' ! l = Some lf \<Longrightarrow> lf_refcnt lf = 0"
    using k by (auto simp: leaves_kept_def)
  have "c_leaves c' ! l \<noteq> None" if l: "l \<in> set ps" for l
  proof -
    obtain lf where lf: "c_leaves c ! l = Some lf" "l < length (c_leaves c)" using S(2) [OF l] by auto
    have "count_list ps l \<noteq> 0" using l by (simp add: count_list_0_iff)
    then have "lf_refcnt lf \<noteq> 0" using S(3) [OF lf(2,1)] by auto
    then show ?thesis using K(2) [OF lf(2)] lf(1) by (auto simp: leaf_kept_def split: option.splits)
  qed
  moreover have "unat (lf_refcnt lf) = count_list ps l" if l: "l < length (c_leaves c')" "c_leaves c' ! l = Some lf" for l lf
  proof (cases "l < length (c_leaves c)")
    case True
    with K(2) [OF True] l(2) S(3) [OF True] show ?thesis by (auto simp: leaf_kept_def split: option.splits)
  next
    case False
    then have "l \<notin> set ps" using S(2) by blast
    then have "count_list ps l = 0" by (simp add: count_list_0_iff)
    with False K(3) [OF _ l] show ?thesis by simp
  qed
  ultimately show ?thesis using S(1,2) K(1) inv by (fastforce simp: pins_ok_def)
qed

lemma pins_ok_step: "pins_ok (c, ps) \<Longrightarrow> kept_step c c' \<Longrightarrow> pins_ok (c', ps)"
  using pins_ok_keeps by (simp add: kept_step_def)

lemma pins_ok_inv: "pins_ok (c, ps) \<Longrightarrow> cache_inv c"
  by (simp add: pins_ok_def)

text \<open>Taking and releasing a pin.\<close>

lemma pins_ok_take:
  assumes s: "pins_ok (c, ps)" and l: "l < length (c_leaves c)" "c_leaves c ! l = Some lf" and room: "length ps < 2 ^ 32 - 1"
  shows "pins_ok (leaf_ref c l 1, l # ps)"
proof -
  have cnt: "unat (lf_refcnt lf) = count_list ps l" using s l by (auto simp: pins_ok_def)
  have "count_list ps l \<le> length ps" by (rule count_le_length)
  then have "unat (lf_refcnt lf + 1) = count_list ps l + 1" using cnt room by (simp add: unat_word_ariths)
  moreover have "cache_inv (leaf_ref c l 1)" by (rule leaf_ref_inv) (use pins_ok_inv [OF s] l in simp_all)
  ultimately show ?thesis using s l room by (auto simp: pins_ok_def leaf_ref_def leaf_set_def leaf_at_def nth_upd)
qed

lemma pins_ok_drop:
  assumes s: "pins_ok (c, ps)" and l: "l \<in> set ps"
  shows "pins_ok (leaf_ref c l (- 1), remove1 l ps)"
proof -
  obtain lf where lf: "l < length (c_leaves c)" "c_leaves c ! l = Some lf" using s l by (auto simp: pins_ok_def)
  have cnt: "unat (lf_refcnt lf) = count_list ps l" using s lf by (auto simp: pins_ok_def)
  have pos: "count_list ps l \<noteq> 0" using l by (simp add: count_list_0_iff)
  have rem: "count_list (remove1 l ps) k = count_list ps k - (if k = l then 1 else 0)" for k
    by (induction ps) auto
  have "lf_refcnt lf \<noteq> 0" using cnt pos by auto
  then have "unat (lf_refcnt lf + - 1) = count_list ps l - 1" using cnt unat_minus_one [of "lf_refcnt lf"] by simp
  moreover have "cache_inv (leaf_ref c l (- 1))" by (rule leaf_ref_inv) (use pins_ok_inv [OF s] lf in simp_all)
  moreover have "set (remove1 l ps) \<subseteq> set ps" by (rule set_remove1_subset)
  moreover have "length (remove1 l ps) \<le> length ps" by (simp add: length_remove1)
  ultimately show ?thesis using s lf by (auto simp: pins_ok_def leaf_ref_def leaf_set_def leaf_at_def nth_upd rem)
qed

lemma pins_ok_lookup:
  assumes s: "pins_ok (c, ps)" and look: "get_lookup clk c pid path = Some (r, c')" and p: "0 \<notin> set path"
    and room: "length ps < 2 ^ 32 - 1"
  shows "pins_ok (c', case r of Inr l \<Rightarrow> l # ps | Inl err \<Rightarrow> ps)"
proof -
  note inv = pins_ok_inv [OF s]
  have h: "heap_inv (rt_nodes (c_radix c))" "rt_root (c_radix c) = 0" using cache_invD(4) [OF inv] by (auto simp: radix_inv_def)
  define node where "node = follow (rt_nodes (c_radix c)) 0 path"
  have w: "radix_walk (c_radix c) path False = Some (node, c_radix c)"
    using radix_walk_from_find [OF h(1) heap_invD(1) [OF h(1)] p, of 0] h(2) by (simp add: radix_walk_def node_def)
  have same: "c\<lparr>c_radix := c_radix c\<rparr> = c" by simp
  show ?thesis
  proof (cases r)
    case (Inl err)
    then have "c' = upd_stat (\<lambda>s. s\<lparr>cs_get_misses := cs_get_misses s + 1\<rparr>) c"
      using look unfolding get_lookup_def Let_def w option.case prod.case same
      by (auto split: option.splits if_splits)
    then show ?thesis using Inl s by (simp add: pins_ok_def)
  next
    case (Inr l)
    obtain n ns where n: "node = Some n" "node_leaf c n = Some l"
      "radix_hit_ascend (length (rt_nodes (c_radix c))) (rt_nodes (c_radix c)) node 1 = Some ns"
      "c' = leaf_ref (c\<lparr>c_radix := (c_radix c)\<lparr>rt_nodes := ns\<rparr>\<rparr>) l 1"
      using look Inr unfolding get_lookup_def Let_def w option.case prod.case same
      by (auto split: option.splits if_splits)
    have nl: "n < length (rt_nodes (c_radix c))"
      using follow_less [OF h(1) heap_invD(1) [OF h(1)]] n(1) by (simp add: node_def)
    have "hits_only (rt_nodes (c_radix c)) ns"
      using hit_ascend_hits [OF h(1) _ nl, of path] n(1,3) by (auto simp: node_def)
    from cache_inv_hits [OF inv this] have s': "pins_ok (c\<lparr>c_radix := (c_radix c)\<lparr>rt_nodes := ns\<rparr>\<rparr>, ps)"
      by (intro pins_ok_keeps [OF s]) simp_all
    note L = attached_leaf [OF inv nl n(2)]
    show ?thesis unfolding n(4) Inr sum.case by (rule pins_ok_take [OF s' _ _ room]) (use L in simp_all)
  qed
qed

lemma put_ctx_set_err_step: "pins_ok (put_ctx_set_err c k err, ps) = pins_ok (c, ps)"
  by (simp add: put_ctx_set_err_def ctx_set_def pins_ok_def)

lemma pins_ok_publish:
  assumes s: "pins_ok (c, ps)" and pub: "batch_publish_req clk i r c = Some c'" and mem: "no_oom (rt_mem (c_radix c))"
    and hs: "rq_hashes r = Some hs" and ready: "index_ready c (rq_prefix_id r) (rq_group_idx r) (take (unat (rq_group_idx r + 1)) hs)"
    and addr: "leaf_addr_ok c (req_addr clk i r)"
  shows "pins_ok (c', ps)"
proof -
  obtain node t sd where n: "req_node c r = Some (Some node, c\<lparr>c_radix := t, c_side := sd\<rparr>)" "cache_inv (c\<lparr>c_radix := t, c_side := sd\<rparr>)"
      "follow (rt_nodes t) 0 (take (unat (rq_group_idx r + 1)) hs) = Some node"
    using req_node_ok [OF pins_ok_inv [OF s] mem hs ready] by blast
  define c1 where "c1 = c\<lparr>c_radix := t, c_side := sd\<rparr>"
  have s1: "pins_ok (c1, ps)" unfolding c1_def by (rule pins_ok_keeps [OF s n(2)]) simp
  have ht: "heap_inv (rt_nodes t)" using cache_invD(4) [OF n(2)] by (simp add: radix_inv_def)
  have nl: "node < length (rt_nodes (c_radix c1))" using follow_less [OF ht heap_invD(1) [OF ht] n(3)] by (simp add: c1_def)
  have a1: "leaf_addr_ok c1 (req_addr clk i r)" using addr by (simp add: leaf_addr_ok_def c1_def)
  have P: "pins_ok (x, ps)" if "req_publish clk c1 i node r = Some x" for x
    using that leaf_publish_inv [OF pins_ok_inv [OF s1] nl a1] leaf_publish_kept [OF pins_ok_inv [OF s1] nl]
    unfolding req_publish_def by (intro pins_ok_keeps [OF s1])
  have "pins_ok (upd_stat f x, ps) = pins_ok (x, ps)" for f x by (simp add: pins_ok_def)
  then show ?thesis using pub s1 P unfolding batch_publish_req_def n(1) c1_def [symmetric] option.case prod.case
    by (auto simp: put_ctx_set_err_step split: if_splits option.splits)
qed

lemma pins_ok_evict:
  assumes s: "pins_ok (c, ps)" and ev: "cache_evict_impl clk c pid toks n = Some (rc, c')"
    and p: "0 \<notin> set (group_hashes pid toks n (unat (group_count n)))"
  shows "pins_ok (c', ps)"
proof -
  note inv = pins_ok_inv [OF s]
  let ?path = "group_hashes pid toks n (unat (group_count n))"
  have h: "heap_inv (rt_nodes (c_radix c))" "rt_root (c_radix c) = 0" using cache_invD(4) [OF inv] by (auto simp: radix_inv_def)
  have w: "radix_walk (c_radix c) ?path False = Some (follow (rt_nodes (c_radix c)) 0 ?path, c_radix c)"
    using radix_walk_from_find [OF h(1) heap_invD(1) [OF h(1)] p, of 0] h(2) by (simp add: radix_walk_def)
  have same: "c\<lparr>c_radix := c_radix c\<rparr> = c" by simp
  show ?thesis
  proof (cases "c' = c")
    case False
    obtain node where nd: "follow (rt_nodes (c_radix c)) 0 ?path = Some node"
      using ev False unfolding cache_evict_impl_def Let_def w option.case prod.case by (auto split: if_splits option.splits)
    then obtain x where x: "leaf_drop c node = Some x" "c' = tomb_insert x clk pid"
      using ev False unfolding cache_evict_impl_def Let_def w option.case prod.case nd same by (auto split: if_splits option.splits)
    have nl: "node < length (rt_nodes (c_radix c))" using follow_less [OF h(1) heap_invD(1) [OF h(1)] nd] .
    have "kept_step c c'" using kept_step_drop [OF kept_step_refl [OF inv] nl x(1)] by (simp add: x(2))
    then show ?thesis by (rule pins_ok_step [OF s])
  qed (use s in simp)
qed

lemma pin_step_ok: "pin_step s s' \<Longrightarrow> pins_ok s \<Longrightarrow> pins_ok s'"
proof (induction rule: pin_step.induct)
  case (pin_drop_region clk c dev idx c' ps)
  then show ?case using pins_ok_step cache_drop_region_scan pins_ok_inv by blast
next
  case (pin_gc clk os c c' ps)
  then show ?case using pins_ok_step gc_tick_step pins_ok_inv by blast
next
  case (pin_reap c ps)
  then show ?case using pins_ok_step dfree_reap_step pins_ok_inv by blast
qed (blast intro: pins_ok_lookup pins_ok_drop pins_ok_publish pins_ok_evict)+

lemma pin_steps_ok: "pin_step\<^sup>*\<^sup>* s s' \<Longrightarrow> pins_ok s \<Longrightarrow> pins_ok s'"
  by (induction rule: rtranclp_induct) (blast intro: pin_step_ok)+

text \<open>C2: over every interleaving of lookups, releases, completed writes, evicts, region drops, collector ticks
  and reaps from a cache with no pins, every leaf a get still holds is allocated and its reference count is the number of
  gets holding it; the cache's invariant holds, so the live bytes of every region are exactly those of the leaves
  attached to the index; and a reap leaves only pinned leaves waiting to be freed.\<close>

theorem pinned_leaf_safe:
  assumes "cache_inv c0" and "\<forall>l < length (c_leaves c0). \<forall>lf. c_leaves c0 ! l = Some lf \<longrightarrow> lf_refcnt lf = 0"
    and "pin_step\<^sup>*\<^sup>* (c0, []) (c, ps)"
  shows "cache_inv c \<and>
    (\<forall>l \<in> set ps. \<exists>lf. l < length (c_leaves c) \<and> c_leaves c ! l = Some lf \<and> unat (lf_refcnt lf) = count_list ps l) \<and>
    set (c_dfree (dfree_reap c)) \<subseteq> set ps"
proof (intro conjI)
  have "pins_ok (c0, [])" using assms(1,2) by (auto simp: pins_ok_def)
  then have s: "pins_ok (c, ps)" by (rule pin_steps_ok [OF assms(3)])
  then show "cache_inv c" by (rule pins_ok_inv)
  show "\<forall>l \<in> set ps. \<exists>lf. l < length (c_leaves c) \<and> c_leaves c ! l = Some lf \<and> unat (lf_refcnt lf) = count_list ps l"
    using s by (auto simp: pins_ok_def)
  have r: "pins_ok (dfree_reap c, ps)" by (rule pins_ok_step [OF s dfree_reap_step [OF pins_ok_inv [OF s]]])
  show "set (c_dfree (dfree_reap c)) \<subseteq> set ps"
  proof
    fix l assume l: "l \<in> set (c_dfree (dfree_reap c))"
    from leaves_okD(3,4) [OF cache_invD(2) [OF pins_ok_inv [OF r]]] l
    obtain lf where lf: "l < length (c_leaves (dfree_reap c))" "c_leaves (dfree_reap c) ! l = Some lf" by auto
    have "lf_refcnt lf \<noteq> 0" using dfree_reap_inv(2) [OF pins_ok_inv [OF s]] l lf by (auto simp: leaf_at_def)
    moreover have "unat (lf_refcnt lf) = count_list ps l" using r lf by (auto simp: pins_ok_def)
    ultimately have "count_list ps l \<noteq> 0" by (metis unat_eq_zero)
    then show "l \<in> set ps" by (simp add: count_list_0_iff)
  qed
qed

theorem pinned_leaf_safe_witness:
  "\<exists>c0 c l lf. pin_step\<^sup>*\<^sup>* (c0, []) (c, [l]) \<and> cache_inv c \<and> c_leaves c ! l = Some lf \<and> unat (lf_refcnt lf) = 1"
proof -
  let ?a = "kv_addr0\<lparr>ka_page_no := of_nat (kRegionBasePage + 1), ka_len_pages := 1\<rparr>"
  have a: "leaf_addr_ok demo_cache ?a"
    using region_data_ext_ok [OF cache_invD(1) [OF demo_inv], of 0 0 "of_nat (kRegionBasePage + 1)" 1 0 1]
    by (simp add: demo_simps in_region_data_def rm_init_def kRegionBasePage_def leaf_addr_ok_def addr_ext_def kv_addr0_def)
  have nd: "0 < length (rt_nodes (c_radix demo_cache))" "node_leaf demo_cache 0 = None"
    by (simp_all add: demo_simps radix_t0_def node_leaf_def node_new_def)
  obtain c0 where c0: "leaf_publish demo_cache (Some 0) 0 5 0 1 ?a 0 0 0 0 0 3 None (Some []) 0 = Some c0" "cache_inv c0"
      "leaf_replaced demo_cache 0 (leaf_new 5 1 ?a 0 None) c0"
    using leaf_publish_new [OF demo_inv demo_io nd(1) a, of 0 0 1 5 0 0 0 0 3 None "Some []" 0] nd(2)
    by (auto simp: demo_simps radix_t0_def)
  obtain l where l: "node_leaf c0 0 = Some l" "leaf_at c0 l = leaf_new 5 1 ?a 0 None" using c0(3) by (auto simp: leaf_replaced_def)
  have free: "\<forall>l < length (c_leaves c0). \<forall>lf. c_leaves c0 ! l = Some lf \<longrightarrow> lf_refcnt lf = 0"
    using leaf_publish_kept [OF demo_inv nd(1) c0(1)] by (auto simp: leaves_kept_def demo_simps)
  have h: "heap_inv (rt_nodes (c_radix c0))" "rt_root (c_radix c0) = 0" using cache_invD(4) [OF c0(2)] by (auto simp: radix_inv_def)
  have f0: "follow (rt_nodes (c_radix c0)) 0 [] = Some 0" by simp
  obtain ns where ns: "radix_hit_ascend (length (rt_nodes (c_radix c0))) (rt_nodes (c_radix c0)) (Some 0) 1 = Some ns"
    using radix_hit_ascend_ok [OF h(1) f0 heap_invD(1) [OF h(1)], of 1] by blast
  have w: "radix_walk (c_radix c0) [] False = Some (Some 0, c_radix c0)" using h(2) by (simp add: radix_walk_def)
  have lf: "lf_ver (leaf_at c0 l) = 1" "ka_expire_ts (lf_addr0 (leaf_at c0 l)) = 0"
    by (simp_all add: l(2) leaf_new_def Let_def radix_leaf0_def kv_addr0_def)
  define c where "c = leaf_ref (c0\<lparr>c_radix := (c_radix c0)\<lparr>rt_nodes := ns\<rparr>\<rparr>) l 1"
  have "get_lookup demo_clock c0 5 [] = Some (Inr l, c)"
    unfolding get_lookup_def Let_def w using l(1) lf ns by (simp add: c_def)
  from pin_lookup [OF this, of "[]"] have "pin_step\<^sup>*\<^sup>* (c0, []) (c, [l])" by auto
  with pinned_leaf_safe [OF c0(2) free this] show ?thesis by auto
qed

end
