(* ===== verification/KV_Config.thy ===== *)
theory KV_Config
  imports KV_Open KV_Model
begin

text \<open>
  What \<open>cache_open_impl\<close> makes of a configuration, and the configurations a model profile gives.
  \<open>config_wf\<close> is the type of a resolved configuration: the fields every later operation divides by,
  loops over or aligns to are in range.  Resolving is idempotent, and the values of
  \<open>kv_mp_config_values\<close> for the page size of the cache are accepted for every model with any keys
  and values to store.
\<close>

section \<open>Resolved configurations\<close>

definition config_wf :: "kv_config \<Rightarrow> kv_layout \<Rightarrow> bool" where
  "config_wf cfg ly \<longleftrightarrow> cf_n_groups_tokens cfg \<noteq> 0 \<and> cf_abi_version cfg \<le> KV_CONFIG_ABI_VERSION \<and>
    cf_region_cnt cfg \<noteq> 0 \<and> cf_journal_pages cfg \<noteq> 0 \<and>
    cf_max_layers cfg \<noteq> 0 \<and> unat (cf_max_layers cfg) \<le> KV_MAX_LAYERS_CAP \<and>
    cf_batch_min_bytes cfg \<noteq> 0 \<and> KV_PAGE_SIZE dvd unat (cf_batch_min_bytes cfg) \<and>
    unat (cf_batch_min_bytes cfg) \<le> unat (cf_stripe_threshold cfg) \<and> cf_stripe_unit cfg \<noteq> 0 \<and>
    cf_region_align_bytes cfg \<noteq> 0 \<and> cf_dram_entry_max_bytes cfg \<noteq> 0 \<and> cf_dram_alloc_backend cfg \<le> KV_DRAM_BACKEND_MAX \<and>
    ly = kv_layout_derive cfg \<and> ly_stripe_unit ly = cf_stripe_unit cfg \<and> ly_stripe_threshold ly = cf_stripe_threshold cfg \<and>
    ly_batch_min_bytes ly = ucast (cf_batch_min_bytes cfg) \<and> ly_region_align_bytes ly = cf_region_align_bytes cfg \<and>
    ly_dram_entry_max_bytes ly = cf_dram_entry_max_bytes cfg"

lemmas layout_consts = KV_STRIPE_UNIT_def KV_STRIPE_THRESHOLD_def KV_BATCH_MIN_BYTES_def KV_PAGE_SIZE_def
  KV_DRAM_DEFAULT_ENTRY_MAX_def KV_TOKENS_PER_GROUP_def KV_MAX_LAYERS_CAP_def

text \<open>The two stages of \<open>open_config\<close>: defaults, then the limits.\<close>

definition config_resolved :: "kv_config \<Rightarrow> kv_config" where
  "config_resolved cfg =
    (let cfg = cfg\<lparr>cf_region_cnt := (if cf_region_cnt cfg \<noteq> 0 then cf_region_cnt cfg else 6),
           cf_journal_pages := (if cf_journal_pages cfg \<noteq> 0 then cf_journal_pages cfg else 512),
           cf_max_layers := (if cf_max_layers cfg \<noteq> 0 then cf_max_layers cfg else of_nat KV_MAX_LAYERS_CAP)\<rparr>;
         ly = kv_layout_derive cfg
     in cfg\<lparr>cf_stripe_unit := ly_stripe_unit ly, cf_stripe_threshold := ly_stripe_threshold ly,
          cf_batch_min_bytes := ucast (ly_batch_min_bytes ly), cf_dram_entry_max_bytes := ly_dram_entry_max_bytes ly,
          cf_region_align_bytes := ly_region_align_bytes ly\<rparr>)"

definition config_chosen :: "kv_config option \<Rightarrow> kv_config" where
  "config_chosen cfg_in =
    (let cfg = (case cfg_in of None \<Rightarrow> kv_config_default | Some c \<Rightarrow> c)
     in if cf_n_groups_tokens cfg = 0 then kv_config_default else cfg)"

lemma ucast_u32_u64_u32 [simp]: "ucast (ucast (x :: u32) :: u64) = x"
  by (rule bit_word_eqI) (auto simp: bit_simps dest: bit_imp_le_length)

lemma unat_ucast_u32_u64: "unat (ucast (x :: u32) :: u64) = unat x"
  by (simp add: unsigned_ucast_eq take_bit_nat_eq_self [OF less_trans [OF unsigned_less]])

lemma resolved_fields:
  "cf_stripe_unit (config_resolved cfg) = (if cf_stripe_unit cfg \<noteq> 0 then cf_stripe_unit cfg else of_nat KV_STRIPE_UNIT)"
  "cf_stripe_threshold (config_resolved cfg) = (if cf_stripe_threshold cfg \<noteq> 0 then cf_stripe_threshold cfg else of_nat KV_STRIPE_THRESHOLD)"
  "cf_batch_min_bytes (config_resolved cfg) = (if cf_batch_min_bytes cfg \<noteq> 0 then cf_batch_min_bytes cfg else of_nat KV_BATCH_MIN_BYTES)"
  "cf_region_align_bytes (config_resolved cfg) = (if cf_region_align_bytes cfg \<noteq> 0 then cf_region_align_bytes cfg else of_nat KV_PAGE_SIZE)"
  "cf_dram_entry_max_bytes (config_resolved cfg) = (if cf_dram_entry_max_bytes cfg \<noteq> 0 then cf_dram_entry_max_bytes cfg else KV_DRAM_DEFAULT_ENTRY_MAX)"
  "cf_region_cnt (config_resolved cfg) = (if cf_region_cnt cfg \<noteq> 0 then cf_region_cnt cfg else 6)"
  "cf_journal_pages (config_resolved cfg) = (if cf_journal_pages cfg \<noteq> 0 then cf_journal_pages cfg else 512)"
  "cf_max_layers (config_resolved cfg) = (if cf_max_layers cfg \<noteq> 0 then cf_max_layers cfg else of_nat KV_MAX_LAYERS_CAP)"
  "cf_n_groups_tokens (config_resolved cfg) = cf_n_groups_tokens cfg"
  by (simp_all add: config_resolved_def Let_def kv_layout_derive_def KV_BATCH_MIN_BYTES_def)

lemma resolved_nonzero:
  "cf_stripe_unit (config_resolved cfg) \<noteq> 0" "cf_stripe_threshold (config_resolved cfg) \<noteq> 0" "cf_batch_min_bytes (config_resolved cfg) \<noteq> 0"
  "cf_region_align_bytes (config_resolved cfg) \<noteq> 0" "cf_dram_entry_max_bytes (config_resolved cfg) \<noteq> 0"
  "cf_region_cnt (config_resolved cfg) \<noteq> 0" "cf_journal_pages (config_resolved cfg) \<noteq> 0" "cf_max_layers (config_resolved cfg) \<noteq> 0"
  by (simp_all add: resolved_fields layout_consts)

lemma layout_resolved:
  "kv_layout_derive (config_resolved cfg) = \<lparr>ly_page_size = of_nat KV_PAGE_SIZE, ly_alignment = of_nat KV_PAGE_SIZE,
    ly_stripe_unit = cf_stripe_unit (config_resolved cfg), ly_stripe_threshold = cf_stripe_threshold (config_resolved cfg),
    ly_batch_min_bytes = ucast (cf_batch_min_bytes (config_resolved cfg)), ly_region_align_bytes = cf_region_align_bytes (config_resolved cfg),
    ly_dram_entry_max_bytes = cf_dram_entry_max_bytes (config_resolved cfg)\<rparr>"
  unfolding kv_layout_derive_def using resolved_nonzero [of cfg] by simp

lemma derive_resolved: "kv_layout_derive (config_resolved cfg) = kv_layout_derive cfg"
  unfolding layout_resolved by (simp add: resolved_fields kv_layout_derive_def KV_BATCH_MIN_BYTES_def)

lemma open_config_cases:
  "open_config cfg_in =
    (let cfg = config_resolved (config_chosen cfg_in)
     in if cf_abi_version cfg > KV_CONFIG_ABI_VERSION \<or> cf_max_layers cfg > of_nat KV_MAX_LAYERS_CAP \<or>
           cf_batch_min_bytes cfg mod of_nat KV_PAGE_SIZE \<noteq> 0 \<or> ucast (cf_batch_min_bytes cfg) > cf_stripe_threshold cfg \<or>
           cf_dram_alloc_backend cfg > KV_DRAM_BACKEND_MAX
        then Inl (- KV_EINVAL) else Inr (cfg, kv_layout_derive cfg))"
proof -
  have chain: "(if P then x else if A \<or> B \<or> C then x else if D then x else y) = (if P \<or> A \<or> B \<or> C \<or> D then x else y)"
    for P A B C D and x y :: "int + (kv_config \<times> kv_layout)" by simp
  define cfg where "cfg = config_chosen cfg_in"
  define c3 where "c3 = cfg\<lparr>cf_region_cnt := (if cf_region_cnt cfg \<noteq> 0 then cf_region_cnt cfg else 6),
           cf_journal_pages := (if cf_journal_pages cfg \<noteq> 0 then cf_journal_pages cfg else 512),
           cf_max_layers := (if cf_max_layers cfg \<noteq> 0 then cf_max_layers cfg else of_nat KV_MAX_LAYERS_CAP)\<rparr>"
  have ly: "kv_layout_derive c3 = kv_layout_derive cfg" by (simp add: c3_def kv_layout_derive_def)
  have r: "config_resolved cfg = c3\<lparr>cf_stripe_unit := ly_stripe_unit (kv_layout_derive c3),
      cf_stripe_threshold := ly_stripe_threshold (kv_layout_derive c3),
      cf_batch_min_bytes := ucast (ly_batch_min_bytes (kv_layout_derive c3)),
      cf_dram_entry_max_bytes := ly_dram_entry_max_bytes (kv_layout_derive c3),
      cf_region_align_bytes := ly_region_align_bytes (kv_layout_derive c3)\<rparr>"
    by (simp only: config_resolved_def Let_def c3_def)
  have abi: "cf_abi_version (config_resolved cfg) = cf_abi_version cfg" by (simp add: config_resolved_def Let_def)
  have "open_config cfg_in =
    (if cf_abi_version cfg > KV_CONFIG_ABI_VERSION then Inl (- KV_EINVAL)
     else if cf_max_layers (config_resolved cfg) > of_nat KV_MAX_LAYERS_CAP \<or>
          cf_batch_min_bytes (config_resolved cfg) mod of_nat KV_PAGE_SIZE \<noteq> 0 \<or>
          ucast (cf_batch_min_bytes (config_resolved cfg)) > cf_stripe_threshold (config_resolved cfg) then Inl (- KV_EINVAL)
     else if cf_dram_alloc_backend (config_resolved cfg) > KV_DRAM_BACKEND_MAX then Inl (- KV_EINVAL)
     else Inr (config_resolved cfg, kv_layout_derive c3))"
    unfolding open_config_def Let_def r unfolding c3_def unfolding cfg_def config_chosen_def Let_def by (rule refl)
  then show ?thesis unfolding chain Let_def cfg_def [symmetric] derive_resolved ly abi .
qed

lemma config_resolved_twice: "config_resolved (config_resolved cfg) = config_resolved cfg"
proof -
  define c where "c = config_resolved cfg"
  note nz = resolved_nonzero [of cfg, folded c_def] and ly = layout_resolved [of cfg, folded c_def]
  have "c\<lparr>cf_region_cnt := (if cf_region_cnt c \<noteq> 0 then cf_region_cnt c else 6),
           cf_journal_pages := (if cf_journal_pages c \<noteq> 0 then cf_journal_pages c else 512),
           cf_max_layers := (if cf_max_layers c \<noteq> 0 then cf_max_layers c else of_nat KV_MAX_LAYERS_CAP)\<rparr> = c"
    using nz by simp
  then have "config_resolved c = c\<lparr>cf_stripe_unit := cf_stripe_unit c, cf_stripe_threshold := cf_stripe_threshold c,
      cf_batch_min_bytes := cf_batch_min_bytes c, cf_dram_entry_max_bytes := cf_dram_entry_max_bytes c,
      cf_region_align_bytes := cf_region_align_bytes c\<rparr>"
    unfolding config_resolved_def Let_def by (simp only: ly kv_layout.select_convs ucast_u32_u64_u32)
  then show ?thesis by (simp add: c_def)
qed

text \<open>C30: a configuration that \<open>cache_open_impl\<close> accepts is resolved to a well-formed one whose layout is the one derived
  from it; resolving the result again changes nothing, and a configuration that is refused gives
  \<open>-KV_EINVAL\<close>.\<close>

theorem open_config_wf:
  "case open_config cfg_in of
     Inl err \<Rightarrow> err = - KV_EINVAL
   | Inr (cfg, ly) \<Rightarrow> config_wf cfg ly \<and> open_config (Some cfg) = Inr (cfg, ly)"
proof -
  define cfg where "cfg = config_resolved (config_chosen cfg_in)"
  define bad where "bad \<longleftrightarrow> cf_abi_version cfg > KV_CONFIG_ABI_VERSION \<or> cf_max_layers cfg > of_nat KV_MAX_LAYERS_CAP \<or>
           cf_batch_min_bytes cfg mod of_nat KV_PAGE_SIZE \<noteq> 0 \<or> ucast (cf_batch_min_bytes cfg) > cf_stripe_threshold cfg \<or>
           cf_dram_alloc_backend cfg > KV_DRAM_BACKEND_MAX"
  have eq: "open_config cfg_in = (if bad then Inl (- KV_EINVAL) else Inr (cfg, kv_layout_derive cfg))"
    unfolding open_config_cases Let_def cfg_def [symmetric] bad_def by (rule refl)
  have tok: "cf_n_groups_tokens cfg \<noteq> 0"
    by (simp add: cfg_def resolved_fields config_chosen_def Let_def kv_config_default_def layout_consts)
  have again: "config_resolved (config_chosen (Some cfg)) = cfg"
    using tok by (simp add: config_chosen_def) (simp add: cfg_def config_resolved_twice)
  have "config_wf cfg (kv_layout_derive cfg)" if ok: "\<not> bad"
  proof -
    have "unat (cf_batch_min_bytes cfg mod of_nat KV_PAGE_SIZE) = 0" using ok by (simp add: bad_def)
    then have b: "unat (cf_batch_min_bytes cfg) mod KV_PAGE_SIZE = 0" by (simp add: unat_mod_distrib KV_PAGE_SIZE_def)
    have t: "unat (cf_batch_min_bytes cfg) \<le> unat (cf_stripe_threshold cfg)"
      using ok by (simp add: bad_def not_less word_le_nat_alt unat_ucast_u32_u64)
    show ?thesis unfolding config_wf_def using ok b t tok resolved_nonzero [of "config_chosen cfg_in"] layout_resolved [of "config_chosen cfg_in"]
      by (simp add: cfg_def [symmetric] bad_def not_less dvd_eq_mod_eq_0 word_le_nat_alt KV_MAX_LAYERS_CAP_def)
  qed
  moreover have "open_config (Some cfg) = (if bad then Inl (- KV_EINVAL) else Inr (cfg, kv_layout_derive cfg))"
    unfolding open_config_cases Let_def again bad_def by (rule refl)
  ultimately show ?thesis unfolding eq by simp
qed

section \<open>Aligning\<close>

lemma unat_u32_less: "unat (w :: u32) < 2 ^ 32"
  using unsigned_less [where w = w and 'a = nat] by simp

lemma unat_u64_less: "unat (w :: u64) < 2 ^ 64"
  using unsigned_less [where w = w and 'a = nat] by simp

lemma align_down_nat: "a \<noteq> 0 \<Longrightarrow> unat (mp_align_down v a) = unat v div unat a * unat a"
proof -
  have "unat v div unat a * unat a \<le> unat v" by simp
  then have "unat v div unat a * unat a < 2 ^ 64" using unat_u64_less [of v] by linarith
  then show "a \<noteq> 0 \<Longrightarrow> ?thesis" by (simp add: mp_align_down_def unat_word_ariths(2) unat_div_distrib)
qed

lemma align_up_nat:
  assumes "a \<noteq> 0" and "unat v + unat a < 2 ^ 64"
  shows "unat (mp_align_up v a) = (unat v + unat a - 1) div unat a * unat a"
proof -
  have "0 < unat a" using assms(1) by (simp add: unat_gt_0)
  moreover have u: "unat (v + a) = unat v + unat a" using assms(2) by (simp add: unat_word_ariths)
  ultimately have "v + a \<noteq> 0" by (auto simp: unat_eq_0 [symmetric])
  then have s: "unat (v + a - 1) = unat v + unat a - 1" using unat_minus_one [of "v + a"] u by simp
  have "(unat v + unat a - 1) div unat a * unat a \<le> unat v + unat a - 1" by simp
  then have "(unat v + unat a - 1) div unat a * unat a < 2 ^ 64" using assms(2) by linarith
  then show ?thesis using assms(1) s by (simp add: mp_align_up_def unat_word_ariths(2) unat_div_distrib)
qed

lemma up_mult_ge:
  assumes "0 < (a :: nat)"
  shows "v \<le> (v + a - 1) div a * a" and "(v + a - 1) div a * a < v + a"
proof -
  have "(v + a - 1) div a * a + (v + a - 1) mod a = v + a - 1" by simp
  moreover have "(v + a - 1) mod a < a" using assms by simp
  ultimately show "v \<le> (v + a - 1) div a * a" "(v + a - 1) div a * a < v + a" using assms by linarith+
qed

lemma gcd_u64_nat: "a \<noteq> 0 \<or> b \<noteq> 0 \<Longrightarrow> unat (gcd_u64 a b) = gcd (unat a) (unat b)"
proof (induction a b rule: gcd_u64.induct)
  case (1 a b)
  show ?case
  proof (cases "b = 0")
    case True
    with "1.prems" show ?thesis by (simp add: gcd_u64.simps [of a 0])
  next
    case False
    then have "unat (gcd_u64 b (a mod b)) = gcd (unat b) (unat a mod unat b)" using "1.IH" by (simp add: unat_mod_distrib)
    also have "\<dots> = gcd (unat a) (unat b)" by (metis gcd.commute gcd_red_nat)
    finally show ?thesis using False by (simp add: gcd_u64.simps [of a b])
  qed
qed

lemma lcm_u64_nat:
  assumes "a \<noteq> 0" and "b \<noteq> 0" and "unat a * unat b < 2 ^ 64"
  shows "unat (lcm_u64 a b) = lcm (unat a) (unat b)"
proof -
  have g: "unat (gcd_u64 a b) = gcd (unat a) (unat b)" using assms(1) gcd_u64_nat by simp
  have l: "unat a div gcd (unat a) (unat b) * unat b = lcm (unat a) (unat b)" by (simp add: lcm_nat_def dvd_div_mult)
  have "lcm (unat a) (unat b) \<le> unat a * unat b" by (simp add: lcm_nat_def)
  then have "unat a div gcd (unat a) (unat b) * unat b < 2 ^ 64" using assms(3) l by linarith
  then have "unat (a div gcd_u64 a b * b) = unat a div gcd (unat a) (unat b) * unat b"
    by (simp add: unat_word_ariths(2) unat_div_distrib g)
  then show ?thesis using assms(1,2) l by (simp add: lcm_u64_def)
qed

lemma pow2_floor_from_some:
  assumes "unat p = 2 ^ k" and "33 \<le> k + fuel" and "unat v < 2 ^ 32"
  shows "\<exists>q. pow2_floor_from fuel p v = Some q"
  using assms(1,2)
proof (induction fuel arbitrary: p k)
  case 0
  then have "(2 :: nat) ^ 33 \<le> unat p" using power_increasing [of 33 k "2 :: nat"] by simp
  then show ?case using unat_u32_less [of p] by simp
next
  case (Suc fuel)
  show ?case
  proof (cases "ucast p * 2 \<le> v")
    case True
    have "unat p < 2 ^ 32" using unat_u32_less [of p] by simp
    then have u: "unat (ucast p * 2 :: u64) = unat p * 2" by (simp add: unat_word_ariths unat_ucast_u32_u64)
    then have "unat p * 2 < 2 ^ 32" using True assms(3) by (simp add: word_le_nat_alt)
    then have "unat (p * 2) = 2 ^ Suc k" using Suc.prems(1) by (simp add: unat_word_ariths)
    from Suc.IH [OF this] Suc.prems(2) True show ?thesis by simp
  qed simp
qed

section \<open>The values of a model\<close>

definition config_for :: "kv_mp_config \<Rightarrow> kv_config" where
  "config_for mc = kv_config_default\<lparr>cf_n_groups_tokens := mc_n_groups_tokens mc, cf_max_layers := mc_max_layers mc,
    cf_stripe_unit := mc_stripe_unit mc, cf_stripe_threshold := mc_stripe_threshold mc,
    cf_batch_min_bytes := ucast (mc_batch_min_bytes mc), cf_region_align_bytes := mc_region_align_bytes mc,
    cf_dram_entry_max_bytes := mc_dram_entry_max_bytes mc\<rparr>"

abbreviation default_target :: u64 where "default_target \<equiv> 256 * 1024"

text \<open>The threshold: the largest multiple of the group within the target, or the target.\<close>

lemma tune_threshold_bounds:
  assumes "g \<noteq> 0"
  shows "131072 < unat (tune_threshold 4096 g default_target)" and "unat (tune_threshold 4096 g default_target) \<le> 262144"
    and "unat g > 262144 \<Longrightarrow> unat (tune_threshold 4096 g default_target) = 262144"
    and "unat g \<le> 262144 \<Longrightarrow> unat (tune_threshold 4096 g default_target) = 262144 div unat g * unat g"
proof -
  let ?g = "unat g"
  have pos: "0 < ?g" using assms by (simp add: unat_gt_0)
  have big: "unat (tune_threshold 4096 g default_target) = 262144" if "?g > 262144"
    using that align_up_nat [of 4096 default_target] by (simp add: tune_threshold_def word_less_nat_alt)
  have small: "unat (tune_threshold 4096 g default_target) = 262144 div ?g * ?g" if s: "?g \<le> 262144"
  proof -
    have d: "unat (mp_align_down default_target g) = 262144 div ?g * ?g" using align_down_nat [OF assms, of default_target] by simp
    have "0 < 262144 div ?g" using s pos by (simp add: div_greater_zero_iff)
    then have "mp_align_down default_target g \<noteq> 0" using d pos by (auto simp: unat_eq_0 [symmetric])
    then show ?thesis using s d by (simp add: tune_threshold_def word_less_nat_alt)
  qed
  have half: "131072 < 262144 div ?g * ?g" if s: "?g \<le> 262144"
  proof (cases "?g \<le> 131072")
    case True
    have "262144 div ?g * ?g + 262144 mod ?g = 262144" by simp
    moreover have "262144 mod ?g < ?g" using pos by simp
    ultimately show ?thesis using True by linarith
  next
    case False
    have "1 \<le> 262144 div ?g" using s pos by (simp add: div_greater_zero_iff Suc_le_eq)
    then have "?g \<le> 262144 div ?g * ?g" by (cases "262144 div ?g") simp_all
    then show ?thesis using False by linarith
  qed
  show "131072 < unat (tune_threshold 4096 g default_target)" using big small half by (cases "?g \<le> 262144") auto
  show "unat (tune_threshold 4096 g default_target) \<le> 262144" using big small by (cases "?g \<le> 262144") auto
  show "?g > 262144 \<Longrightarrow> unat (tune_threshold 4096 g default_target) = 262144" by (rule big)
  show "?g \<le> 262144 \<Longrightarrow> unat (tune_threshold 4096 g default_target) = 262144 div ?g * ?g" by (rule small)
qed

text \<open>The batch: the threshold, rounded down to pages.\<close>

lemma tune_batch_default:
  assumes "g \<noteq> 0" and "unat g + 8192 < 2 ^ 64"
  shows "unat (tune_batch 4096 g (tune_threshold 4096 g default_target) default_target) =
    unat (tune_threshold 4096 g default_target) div 4096 * 4096"
proof -
  let ?g = "unat g" and ?t = "tune_threshold 4096 g default_target"
  note T = tune_threshold_bounds [OF assms(1)]
  let ?m = "if default_target > g then default_target else g"
  define w where "w = mp_align_up ?m 4096"
  define w' where "w' = (if g \<le> ?t then mp_align_up w g else w)"
  have down: "unat (mp_align_down ?t 4096) = unat ?t div 4096 * 4096" using align_down_nat [of 4096 ?t] by simp
  have m: "unat ?m = max 262144 ?g" by (simp add: word_less_nat_alt max_def)
  have w: "unat w = (max 262144 ?g + 4096 - 1) div 4096 * 4096"
    unfolding w_def using align_up_nat [of 4096 ?m] m assms(2) by (simp add: max_def split: if_splits)
  have w_ge: "max 262144 ?g \<le> unat w" "unat w < max 262144 ?g + 4096" using up_mult_ge [of 4096 "max 262144 ?g"] w by simp_all
  have w'_ge: "262144 \<le> unat w'"
  proof (cases "g \<le> ?t")
    case True
    have "?g \<le> 262144" using True T(2) by (simp add: word_le_nat_alt)
    then have "unat w' = (unat w + ?g - 1) div ?g * ?g" unfolding w'_def using True align_up_nat [OF assms(1), of w] w_ge(2) by simp
    moreover have "0 < ?g" using assms(1) by (simp add: unat_gt_0)
    ultimately show ?thesis using up_mult_ge(1) [of ?g "unat w"] w_ge(1) by simp
  qed (use w_ge(1) in \<open>simp add: w'_def\<close>)
  have pos: "0 < unat ?t div 4096 * 4096" using T(1) by (simp add: div_greater_zero_iff)
  have u: "ucast (4096 :: u32) = (4096 :: u64)" by simp
  have eq: "tune_batch 4096 g ?t default_target =
      (if (if w' > ?t then mp_align_down ?t 4096 else w') = 0 then 4096 else if w' > ?t then mp_align_down ?t 4096 else w')"
    unfolding tune_batch_def Let_def w'_def w_def u by (rule refl)
  have "unat (tune_batch 4096 g ?t default_target) = unat ?t div 4096 * 4096"
  proof (cases "w' > ?t")
    case True
    have "mp_align_down ?t 4096 \<noteq> 0" using pos down by auto
    then show ?thesis using True down unfolding eq by (simp only: if_True if_False)
  next
    case False
    then have "unat w' = 262144" "unat ?t = 262144" using w'_ge T(2) by (simp_all add: not_less word_le_nat_alt)
    moreover from this have "w' \<noteq> 0" by auto
    ultimately show ?thesis using False unfolding eq by (simp only: if_False) simp
  qed
  then show ?thesis .
qed

lemma unat_ucast_u16_u32: "unat (ucast (x :: u16) :: u32) = unat x"
  by (simp add: unsigned_ucast_eq take_bit_nat_eq_self [OF less_trans [OF unsigned_less]])

lemma group_tokens_bounds: "0 < unat (group_tokens p)" "unat (group_tokens p) < 2 ^ 16"
proof -
  have "unat (mp_tokens_per_group p) < 2 ^ 16" using unsigned_less [where w = "mp_tokens_per_group p" and 'a = nat] by simp
  then show "0 < unat (group_tokens p)" "unat (group_tokens p) < 2 ^ 16"
    by (cases "mp_tokens_per_group p = 0"; simp add: group_tokens_def unat_ucast_u16_u32 unat_eq_0 neq0_conv [symmetric] del: neq0_conv)+
qed

lemma kv_layers_bound: "unat (kv_mp_kv_layers p) < 2 ^ 16"
proof -
  have "unat (ucast (x :: u16) :: u32) < 2 ^ 16" for x
    using unsigned_less [where w = x and 'a = nat] by (simp add: unat_ucast_u16_u32)
  then show ?thesis by (simp add: kv_mp_kv_layers_def split: kv_attn_kind.split)
qed

lemma mult_lt: "(a :: nat) < m \<Longrightarrow> b < n \<Longrightarrow> a * b \<le> (m - 1) * (n - 1)"
  by (rule mult_le_mono) simp_all

lemma group_bytes_bounds:
  fixes p defines "l \<equiv> kv_mp_group_layer_bytes p 0" and "g \<equiv> kv_mp_group_bytes p 0"
  shows "unat l < 2 ^ 48" and "unat g = unat l * unat (kv_mp_kv_layers p)" and "unat g + 8192 < 2 ^ 64"
proof -
  let ?a = "unat (kv_mp_bytes_per_token_layer p)" and ?b = "unat (group_tokens p)" and ?c = "unat (kv_mp_kv_layers p)"
  have ab: "?a * ?b \<le> (2 ^ 32 - 1) * (2 ^ 16 - 1)" by (rule mult_lt [OF unat_u32_less group_tokens_bounds(2)])
  have l: "unat l = ?a * ?b" using ab
    by (simp add: l_def kv_mp_group_layer_bytes_def unat_word_ariths(2) unat_ucast_u32_u64)
  have "?a * ?b * ?c \<le> (2 ^ 32 - 1) * (2 ^ 16 - 1) * (2 ^ 16 - 1)"
    using kv_layers_bound [of p] by (intro mult_le_mono [OF ab]) simp
  then have abc: "?a * ?b * ?c + 8192 < 2 ^ 64" by simp
  have g: "unat g = unat l * ?c" using abc
    by (simp add: g_def kv_mp_group_bytes_def unat_word_ariths(2) unat_ucast_u32_u64 l [unfolded l_def] l)
  show "unat l < 2 ^ 48" using ab l by simp
  show "unat g = unat l * ?c" by (rule g)
  show "unat g + 8192 < 2 ^ 64" using abc g l by simp
qed

text \<open>The stripe unit: a multiple of the page and of a layer's bytes.\<close>

lemma tune_stripe_unit_dvd:
  assumes "l \<noteq> 0" and "unat l < 2 ^ 48"
  shows "4096 dvd unat (tune_stripe_unit 4096 l default_target)" and "unat l dvd unat (tune_stripe_unit 4096 l default_target)"
    and "tune_stripe_unit 4096 l default_target \<noteq> 0"
proof -
  have le: "4096 * unat l < 2 ^ 60" using assms(2) by simp
  have c: "unat (lcm_u64 4096 l) = lcm 4096 (unat l)" using lcm_u64_nat [of 4096 l] assms(1) le by simp
  have "lcm 4096 (unat l) \<le> 4096 * unat l" by (simp add: lcm_nat_def)
  then have small: "lcm 4096 (unat l) < 2 ^ 60" using le by linarith
  have pos: "0 < lcm 4096 (unat l)" using assms(1) by (simp add: lcm_pos_nat unat_gt_0)
  then have nz: "lcm_u64 4096 l \<noteq> 0" using c by auto
  let ?u = "tune_stripe_unit 4096 l default_target"
  have u: "unat ?u = (262144 + lcm 4096 (unat l) - 1) div lcm 4096 (unat l) * lcm 4096 (unat l)"
    using align_up_nat [OF nz, of default_target] nz assms(1) c small by (simp add: tune_stripe_unit_def)
  show "4096 dvd unat ?u" unfolding u by (intro dvd_mult) simp
  show "unat l dvd unat ?u" unfolding u by (intro dvd_mult) simp
  have "262144 \<le> unat ?u" unfolding u by (rule up_mult_ge(1) [OF pos])
  then show "?u \<noteq> 0" by auto
qed

lemma pow2_floor_gcd:
  assumes "g \<noteq> 0"
  shows "\<exists>q. pow2_floor (gcd_u64 g 4096) = Some q"
proof -
  have "unat (gcd_u64 g 4096) \<le> 4096" using gcd_u64_nat [of g 4096] by (simp add: gcd_le2_nat)
  then show ?thesis unfolding pow2_floor_def by (intro pow2_floor_from_some [of 1 0]) simp_all
qed

text \<open>The values of a profile, with the defaults of \<open>kv_mp_tune\<close>.\<close>

definition mp_values :: "kv_model_profile \<Rightarrow> kv_mp_config" where
  "mp_values p =
    (let l = kv_mp_group_layer_bytes p 0; g = kv_mp_group_bytes p 0; th = tune_threshold 4096 g default_target
     in \<lparr>mc_n_groups_tokens = group_tokens p, mc_max_layers = kv_mp_kv_layers p,
       mc_stripe_unit = tune_stripe_unit 4096 l default_target, mc_stripe_threshold = th,
       mc_batch_min_bytes = tune_batch 4096 g th default_target, mc_region_align_bytes = g,
       mc_dram_entry_max_bytes = mp_align_up g 4096\<rparr>)"

lemma kv_mp_config_values_eq:
  assumes "kv_mp_group_bytes p 0 \<noteq> 0"
  shows "kv_mp_config_values p (of_nat KV_PAGE_SIZE) = Some (KV_MP_OK, Some (mp_values p))"
proof -
  let ?l = "kv_mp_group_layer_bytes p 0" and ?g = "kv_mp_group_bytes p 0"
  have "group_tokens p \<noteq> 0" using group_tokens_bounds(1) [of p] by auto
  then have lt: "kv_mp_group_layer_bytes p (group_tokens p) = ?l" by (simp add: kv_mp_group_layer_bytes_def)
  have lg: "?l * ucast (kv_mp_kv_layers p) = ?g" by (simp add: kv_mp_group_bytes_def)
  obtain q where q: "pow2_floor (gcd_u64 ?g 4096) = Some q" using pow2_floor_gcd [OF assms] by blast
  have pg: "(of_nat KV_PAGE_SIZE :: u32) = 4096" "ucast (4096 :: u32) = (4096 :: u64)" by (simp_all add: KV_PAGE_SIZE_def)
  show ?thesis unfolding kv_mp_config_values_def kv_mp_tune_def Let_def lt lg pg using assms q
    by (simp add: mp_values_def Let_def)
qed

lemma mp_values_bounds:
  assumes "kv_mp_group_bytes p 0 \<noteq> 0"
  defines "mc \<equiv> mp_values p"
  shows "4096 dvd unat (mc_stripe_unit mc)" and "unat (kv_mp_group_layer_bytes p 0) dvd unat (mc_stripe_unit mc)"
    and "mc_stripe_unit mc \<noteq> 0" and "mc_stripe_threshold mc \<noteq> 0" and "mc_dram_entry_max_bytes mc \<noteq> 0"
    and "mc_n_groups_tokens mc \<noteq> 0" and "mc_max_layers mc \<noteq> 0"
    and "0 < unat (mc_batch_min_bytes mc)" and "unat (mc_batch_min_bytes mc) < 2 ^ 32" and "4096 dvd unat (mc_batch_min_bytes mc)"
    and "unat (mc_batch_min_bytes mc) \<le> unat (mc_stripe_threshold mc)"
    and "unat (kv_mp_group_bytes p 0) \<le> unat (mc_dram_entry_max_bytes mc)"
proof -
  define l where "l = kv_mp_group_layer_bytes p 0"
  define g where "g = kv_mp_group_bytes p 0"
  define th where "th = tune_threshold 4096 g default_target"
  note B = group_bytes_bounds [of p, folded l_def g_def]
  have g0: "g \<noteq> 0" using assms(1) by (simp add: g_def)
  then have l0: "l \<noteq> 0" and c0: "kv_mp_kv_layers p \<noteq> 0" using B(2) unat_eq_zero [of g] by auto
  have mc: "mc = \<lparr>mc_n_groups_tokens = group_tokens p, mc_max_layers = kv_mp_kv_layers p,
       mc_stripe_unit = tune_stripe_unit 4096 l default_target, mc_stripe_threshold = th,
       mc_batch_min_bytes = tune_batch 4096 g th default_target, mc_region_align_bytes = g,
       mc_dram_entry_max_bytes = mp_align_up g 4096\<rparr>"
    by (simp add: mc_def mp_values_def Let_def l_def g_def th_def)
  note T = tune_threshold_bounds [OF g0, folded th_def] and S = tune_stripe_unit_dvd [OF l0 B(1)]
  have b: "unat (mc_batch_min_bytes mc) = unat th div 4096 * 4096" using tune_batch_default [OF g0 B(3)] by (simp add: mc th_def)
  have "unat th div 4096 * 4096 \<le> unat th" by (rule div_times_less_eq_dividend)
  with b show le: "unat (mc_batch_min_bytes mc) \<le> unat (mc_stripe_threshold mc)" by (simp add: mc)
  show "0 < unat (mc_batch_min_bytes mc)" "unat (mc_batch_min_bytes mc) < 2 ^ 32" "4096 dvd unat (mc_batch_min_bytes mc)"
    using le T(1,2) b by (simp_all add: mc div_greater_zero_iff)
  have d: "unat g \<le> unat (mp_align_up g 4096)" using align_up_nat [of 4096 g] up_mult_ge(1) [of 4096 "unat g"] B(3) by simp
  then show "unat (kv_mp_group_bytes p 0) \<le> unat (mc_dram_entry_max_bytes mc)" by (simp add: mc g_def [symmetric])
  show "mc_stripe_threshold mc \<noteq> 0" "mc_dram_entry_max_bytes mc \<noteq> 0" using T(1) d g0 unat_eq_zero [of g] by (auto simp: mc)
  show "mc_n_groups_tokens mc \<noteq> 0" "mc_max_layers mc \<noteq> 0" using group_tokens_bounds(1) [of p] c0 by (auto simp: mc)
  show "4096 dvd unat (mc_stripe_unit mc)" "unat (kv_mp_group_layer_bytes p 0) dvd unat (mc_stripe_unit mc)" "mc_stripe_unit mc \<noteq> 0"
    using S by (simp_all add: mc l_def [symmetric])
qed

text \<open>Values within these bounds pass the checks of \<open>open_config\<close>, and the layout takes them over.\<close>

lemma config_for_accepted:
  assumes nz: "mc_stripe_unit mc \<noteq> 0" "mc_stripe_threshold mc \<noteq> 0" "mc_dram_entry_max_bytes mc \<noteq> 0" "mc_n_groups_tokens mc \<noteq> 0"
      "mc_max_layers mc \<noteq> 0"
    and b: "0 < unat (mc_batch_min_bytes mc)" "unat (mc_batch_min_bytes mc) < 2 ^ 32" "4096 dvd unat (mc_batch_min_bytes mc)"
      "unat (mc_batch_min_bytes mc) \<le> unat (mc_stripe_threshold mc)"
    and cap: "unat (mc_max_layers mc) \<le> KV_MAX_LAYERS_CAP"
  shows "\<exists>cfg ly. open_config (Some (config_for mc)) = Inr (cfg, ly) \<and>
    ly_stripe_unit ly = mc_stripe_unit mc \<and> ly_stripe_threshold ly = mc_stripe_threshold mc \<and>
    ly_batch_min_bytes ly = mc_batch_min_bytes mc \<and> ly_dram_entry_max_bytes ly = mc_dram_entry_max_bytes mc"
proof -
  let ?b = "mc_batch_min_bytes mc"
  have u: "unat (ucast ?b :: u32) = unat ?b" using b(2) by (simp add: unsigned_ucast_eq take_bit_nat_eq_self)
  have "unat (ucast (ucast ?b :: u32) :: u64) = unat ?b" unfolding unat_ucast_u32_u64 u by (rule refl)
  then have uu: "ucast (ucast ?b :: u32) = ?b" by (metis word_eq_iff_unsigned)
  have u0: "(ucast ?b :: u32) \<noteq> 0" using u b(1) by auto
  define cf where "cf = config_resolved (config_for mc)"
  have chosen: "config_chosen (Some (config_for mc)) = config_for mc" using nz(4) by (simp add: config_chosen_def config_for_def)
  have f: "cf_stripe_unit cf = mc_stripe_unit mc" "cf_stripe_threshold cf = mc_stripe_threshold mc" "cf_batch_min_bytes cf = ucast ?b"
      "cf_dram_entry_max_bytes cf = mc_dram_entry_max_bytes mc" "cf_max_layers cf = mc_max_layers mc"
    using nz u0 by (simp_all add: cf_def resolved_fields config_for_def)
  have f2: "cf_abi_version cf = KV_CONFIG_ABI_VERSION" "cf_dram_alloc_backend cf = 0"
    by (simp_all add: cf_def config_resolved_def Let_def config_for_def kv_config_default_def)
  have "unat ((ucast ?b :: u32) mod of_nat KV_PAGE_SIZE) = 0"
    using b(3) u by (simp add: KV_PAGE_SIZE_def unat_mod_distrib dvd_eq_mod_eq_0)
  then have m: "(ucast ?b :: u32) mod of_nat KV_PAGE_SIZE = 0" by (rule iffD1 [OF unat_eq_zero])
  have "open_config (Some (config_for mc)) = Inr (cf, kv_layout_derive cf)"
    unfolding open_config_cases chosen Let_def cf_def [symmetric] f f2 m uu
    using cap b(4) by (simp add: word_less_nat_alt not_less KV_MAX_LAYERS_CAP_def)
  moreover note layout_resolved [of "config_for mc", folded cf_def, unfolded f uu]
  ultimately show ?thesis by simp
qed

text \<open>C31: for every model with keys and values to store and at most as many layers as the cache takes, the values derived from its profile
  for the page size of the cache exist and are accepted when the cache is opened with them: the cache runs with exactly these
  values, the stripe unit is a positive multiple of the page and of the bytes of a layer of a group, the batch size is a positive
  multiple of the page that does not exceed the striping threshold, and a DRAM entry can hold a group.\<close>

theorem kv_mp_config_accepted:
  assumes "kv_mp_group_bytes p 0 \<noteq> 0" and "unat (kv_mp_kv_layers p) \<le> KV_MAX_LAYERS_CAP"
  shows "\<exists>mc cfg ly. kv_mp_config_values p (of_nat KV_PAGE_SIZE) = Some (KV_MP_OK, Some mc) \<and>
    open_config (Some (config_for mc)) = Inr (cfg, ly) \<and>
    ly_stripe_unit ly = mc_stripe_unit mc \<and> ly_stripe_threshold ly = mc_stripe_threshold mc \<and>
    ly_batch_min_bytes ly = mc_batch_min_bytes mc \<and> ly_dram_entry_max_bytes ly = mc_dram_entry_max_bytes mc \<and>
    mc_stripe_unit mc \<noteq> 0 \<and> KV_PAGE_SIZE dvd unat (mc_stripe_unit mc) \<and>
    unat (kv_mp_group_layer_bytes p 0) dvd unat (mc_stripe_unit mc) \<and>
    mc_batch_min_bytes mc \<noteq> 0 \<and> KV_PAGE_SIZE dvd unat (mc_batch_min_bytes mc) \<and>
    mc_batch_min_bytes mc \<le> mc_stripe_threshold mc \<and> kv_mp_group_bytes p 0 \<le> mc_dram_entry_max_bytes mc"
proof -
  note B = mp_values_bounds [OF assms(1)]
  have "unat (mc_max_layers (mp_values p)) \<le> KV_MAX_LAYERS_CAP" using assms(2) by (simp add: mp_values_def Let_def)
  from config_for_accepted [OF B(3-11) this] kv_mp_config_values_eq [OF assms(1)] B
  show ?thesis by (fastforce simp: KV_PAGE_SIZE_def word_le_nat_alt)
qed

theorem kv_mp_config_accepted_witness:
  "\<exists>mc cfg ly. kv_mp_config_values (presets ! 1) (of_nat KV_PAGE_SIZE) = Some (KV_MP_OK, Some mc) \<and>
    open_config (Some (config_for mc)) = Inr (cfg, ly) \<and> ly_batch_min_bytes ly = mc_batch_min_bytes mc"
proof -
  let ?p = "presets ! 1"
  have p: "kv_mp_group_bytes ?p 0 \<noteq> 0" "unat (kv_mp_kv_layers ?p) \<le> KV_MAX_LAYERS_CAP"
    by (simp_all add: presets_def preset_def kv_mp_group_bytes_def kv_mp_group_layer_bytes_def kv_mp_bytes_per_token_layer_def
      kv_mp_kv_layers_def group_tokens_def KV_MAX_LAYERS_CAP_def)
  from kv_mp_config_accepted [OF this] show ?thesis by blast
qed

end
