(* ===== verification/KV_Acks.thy ===== *)
theory KV_Acks
  imports KV_Demo
begin

text \<open>
  Two counters that decide what a caller and the collector see.  A put that is spread over several
  requests (stripes or replicas) is acknowledged by the last of them, with the first error any of them
  met: \<open>put_events\<close> runs the two operations of \<open>src/writer.cpp\<close> on a put context in any order.  And the
  live bytes of the regions, which the operations on leaves keep up to date one by one, are those that
  \<open>cache_recompute_live\<close> counts afresh from the index.
\<close>

section \<open>Acknowledgements\<close>

text \<open>An event is an error of one part of the put, or the end of one part.\<close>

definition put_event :: "nat \<Rightarrow> clock \<times> int option \<Rightarrow> cache \<Rightarrow> cache" where
  "put_event k ev c =
    (case ev of (clk, None) \<Rightarrow> put_ctx_unref clk c k | (clk, Some err) \<Rightarrow> put_ctx_set_err c k err)"

definition put_events :: "nat \<Rightarrow> (clock \<times> int option) list \<Rightarrow> cache \<Rightarrow> cache" where
  "put_events k evs c = fold (put_event k) evs c"

fun first_err :: "(clock \<times> int option) list \<Rightarrow> int" where
  "first_err [] = KV_EOK"
| "first_err ((clk, None) # evs) = first_err evs"
| "first_err ((clk, Some err) # evs) = (if err \<noteq> KV_EOK then err else first_err evs)"

definition n_ended :: "(clock \<times> int option) list \<Rightarrow> nat" where
  "n_ended evs = length (filter (\<lambda>ev. snd ev = None) evs)"

lemma first_err_snoc:
  "first_err (evs @ [(clk, None)]) = first_err evs"
  "first_err (evs @ [(clk, Some err)]) = (if first_err evs = KV_EOK then err else first_err evs)"
  by (induction evs rule: first_err.induct) auto

lemma n_ended_snoc: "n_ended (evs @ [(clk, e)]) = n_ended evs + (if e = None then 1 else 0)"
  by (simp add: n_ended_def)

lemma put_events_waiting:
  assumes k: "k < length (c_ctxs c)" "c_ctxs c ! k = Some pc" and err: "pc_err pc = KV_EOK" and n: "int (n_ended evs) < pc_refs pc"
  shows "put_events k evs c =
    c\<lparr>c_ctxs := (c_ctxs c)[k := Some (pc\<lparr>pc_refs := pc_refs pc - int (n_ended evs), pc_err := first_err evs\<rparr>)]\<rparr>"
  using n
proof (induction evs rule: rev_induct)
  case Nil
  have "pc\<lparr>pc_refs := pc_refs pc, pc_err := KV_EOK\<rparr> = pc" using err by simp
  moreover have "(c_ctxs c)[k := Some pc] = c_ctxs c" using k(2) by (metis list_update_id)
  ultimately show ?case by (simp add: put_events_def n_ended_def)
next
  case (snoc ev evs)
  obtain clk e where ev: "ev = (clk, e)" by (cases ev)
  let ?pc = "pc\<lparr>pc_refs := pc_refs pc - int (n_ended evs), pc_err := first_err evs\<rparr>"
  let ?c = "c\<lparr>c_ctxs := (c_ctxs c)[k := Some ?pc]\<rparr>"
  have IH: "put_events k evs c = ?c" using snoc by (simp add: ev n_ended_snoc split: if_splits)
  have at: "ctx_at ?c k = ?pc" using k(1) by (simp add: ctx_at_def)
  have run: "put_events k (evs @ [ev]) c = put_event k ev ?c" using IH by (simp add: put_events_def)
  note run = run [unfolded ev]
  show ?case
  proof (cases e)
    case None
    then have "pc_refs ?pc \<noteq> 1" using snoc.prems by (simp add: ev n_ended_snoc)
    then have u: "put_ctx_unref clk ?c k = ctx_set ?c k (Some (?pc\<lparr>pc_refs := pc_refs ?pc - 1\<rparr>))"
      unfolding put_ctx_unref_def Let_def at by (simp only: if_False)
    have r: "?pc\<lparr>pc_refs := pc_refs ?pc - 1\<rparr> =
        pc\<lparr>pc_refs := pc_refs pc - int (n_ended (evs @ [(clk, None)])), pc_err := first_err (evs @ [(clk, None)])\<rparr>"
      by (rule put_ctx.equality) (simp_all add: n_ended_snoc first_err_snoc)
    have "put_events k (evs @ [(clk, None)]) c = ctx_set ?c k (Some (?pc\<lparr>pc_refs := pc_refs ?pc - 1\<rparr>))"
      unfolding run [unfolded None] put_event_def prod.case option.case by (rule u)
    then show ?thesis unfolding ev None r by (simp add: ctx_set_def)
  next
    case (Some err)
    have "put_events k (evs @ [(clk, Some err)]) c = put_ctx_set_err ?c k err"
      unfolding run [unfolded Some] by (simp add: put_event_def)
    then show ?thesis unfolding ev Some
      using k(1) by (simp add: put_ctx_set_err_def ctx_at_def ctx_set_def n_ended_snoc first_err_snoc)
  qed
qed

text \<open>C3: a put context with \<open>n\<close> parts acknowledges its caller exactly once: whatever errors the parts meet and in whatever order they
  end, nothing is acknowledged while a part is outstanding, and the end of the last part appends one acknowledgement with
  the first error reported, or success when there was none, and frees the context.\<close>

theorem put_ack_once:
  assumes "k < length (c_ctxs c)" and "c_ctxs c ! k = Some pc" and "pc_err pc = KV_EOK" and "pc_ack pc = Some u"
    and "pc_refs pc = int (n_ended evs) + 1"
  shows "c_acks (put_events k evs c) = c_acks c \<and> c_ctxs (put_events k evs c) ! k \<noteq> None \<and>
    c_acks (put_ctx_unref clk (put_events k evs c) k) = c_acks c @ [(u, first_err evs)] \<and>
    c_ctxs (put_ctx_unref clk (put_events k evs c) k) ! k = None"
proof -
  let ?pc = "pc\<lparr>pc_refs := 1, pc_err := first_err evs\<rparr>"
  define x where "x = c\<lparr>c_ctxs := (c_ctxs c)[k := Some ?pc]\<rparr>"
  have run: "put_events k evs c = x" using put_events_waiting [OF assms(1-3), of evs] assms(5) by (simp add: x_def)
  have at: "ctx_at x k = ?pc" using assms(1) by (simp add: ctx_at_def x_def)
  have len: "k < length (c_ctxs x)" using assms(1) by (simp add: x_def)
  have "c_acks (put_ctx_unref clk x k) = c_acks x @ [(u, first_err evs)]"
    unfolding put_ctx_unref_def Let_def at using assms(4) by (simp add: ctx_set_def)
  moreover have "c_ctxs (put_ctx_unref clk x k) ! k = None"
    unfolding put_ctx_unref_def Let_def at using assms(4) len by (simp add: ctx_set_def)
  ultimately show ?thesis unfolding run using assms(1) by (simp add: x_def)
qed

section \<open>Live bytes\<close>

lemma accounts_unique:
  assumes "accounts_ok rms as ls" and "accounts_ok rms' as ls" and g: "same_geom rms rms'"
    and "d < length rms" and "r < length (rm_rg (rms ! d))"
  shows "lv rms' d r = lv rms d r"
  using assms same_geom_att_live [OF g assms(4)] by (simp add: accounts_ok_def same_geom_def)

text \<open>C4: whatever live bytes the regions carry, recounting them from the index ends and gives exactly the counts that the operations
  on leaves had maintained incrementally, and a cache whose invariant holds.\<close>

theorem live_recount_agrees:
  assumes "cache_inv c" and "no_oom (rt_mem (c_radix c))"
    and "\<forall>rm \<in> set (c_rms c). length (rm_rg rm) \<le> unat (cf_region_cnt (c_cfg c))" and "same_geom (c_rms c) stale"
  shows "\<exists>rms. cache_recompute_live (c\<lparr>c_rms := stale\<rparr>) = Some (c\<lparr>c_rms := rms\<rparr>) \<and> cache_inv (c\<lparr>c_rms := rms\<rparr>) \<and>
    (\<forall>d < c_n_devs c. \<forall>r < length (rm_rg (c_rms c ! d)).
      rs_live_bytes (rm_rg (rms ! d) ! r) = rs_live_bytes (rm_rg (c_rms c ! d) ! r))"
proof -
  let ?s = "c\<lparr>c_rms := stale\<rparr>"
  have inv: "cache_inv (?s\<lparr>c_rms := c_rms c\<rparr>)" using assms(1) by simp
  have cnt: "length (rm_rg rm) \<le> unat (cf_region_cnt (c_cfg ?s))" if "rm \<in> set (c_rms ?s)" for rm
  proof -
    obtain i where i: "i < length stale" "rm = stale ! i" using \<open>rm \<in> set (c_rms ?s)\<close> by (auto simp: in_set_conv_nth)
    then have "c_rms c ! i \<in> set (c_rms c)" "length (rm_rg rm) = length (rm_rg (c_rms c ! i))" using assms(4) by (auto simp: same_geom_def)
    then show ?thesis using assms(3) by auto
  qed
  obtain rms where r: "cache_recompute_live ?s = Some (?s\<lparr>c_rms := rms\<rparr>)" "cache_inv (?s\<lparr>c_rms := rms\<rparr>)" "same_geom (c_rms ?s) rms"
    using cache_recompute_live_ok [OF inv _ cnt] assms(2,4) by auto
  have g: "same_geom (c_rms c) rms" using same_geom_trans [OF assms(4)] r(3) by simp
  have a: "accounts_ok (c_rms c) (atts c) (c_leaves c)" "accounts_ok rms (atts c) (c_leaves c)"
    using leaves_okD(6) [OF cache_invD(2) [OF assms(1)]] leaves_okD(6) [OF cache_invD(2) [OF r(2)]] by (simp_all add: atts_def)
  have n: "length (c_rms c) = c_n_devs c" using cache_invD(1) [OF assms(1)] by (simp add: cache_dims_def)
  show ?thesis using r(1,2) accounts_unique [OF a g] n by (intro exI [of _ rms]) (simp add: lv_def)
qed

section \<open>On the small cache\<close>

theorem put_ack_once_witness:
  "c_acks (put_ctx_unref demo_clock (put_events 0 [(demo_clock, Some (- 5)), (demo_clock, None), (demo_clock, Some (- 7))]
      (demo_cache\<lparr>c_ctxs := [Some ((put_ctx_init (Some 1))\<lparr>pc_refs := 2\<rparr>)]\<rparr>)) 0) = [(1, - 5)]"
  using put_ack_once [of 0 "demo_cache\<lparr>c_ctxs := [Some ((put_ctx_init (Some 1))\<lparr>pc_refs := 2\<rparr>)]\<rparr>" _ 1
      "[(demo_clock, Some (- 5)), (demo_clock, None), (demo_clock, Some (- 7))]" demo_clock]
  by (simp add: put_ctx_init_def n_ended_def demo_simps KV_EOK_def)

theorem live_recount_agrees_witness:
  "\<exists>rms. cache_recompute_live (demo_cache\<lparr>c_rms := [(rm_init 1 8)\<lparr>rm_rg := [region_sh0\<lparr>rs_live_bytes := 7\<rparr>]\<rparr>]\<rparr>) =
    Some (demo_cache\<lparr>c_rms := rms\<rparr>) \<and> rs_live_bytes (rm_rg (rms ! 0) ! 0) = 0"
proof -
  have "same_geom (c_rms demo_cache) [(rm_init 1 8)\<lparr>rm_rg := [region_sh0\<lparr>rs_live_bytes := 7\<rparr>]\<rparr>]"
    by (simp add: same_geom_def demo_simps rm_init_def)
  moreover have "\<forall>rm \<in> set (c_rms demo_cache). length (rm_rg rm) \<le> unat (cf_region_cnt (c_cfg demo_cache))"
    by (simp add: demo_simps rm_init_def kv_config_default_def)
  moreover have "no_oom (rt_mem (c_radix demo_cache))" by (auto simp: demo_simps radix_t0_def)
  ultimately show ?thesis
    using live_recount_agrees [OF demo_inv, of "[(rm_init 1 8)\<lparr>rm_rg := [region_sh0\<lparr>rs_live_bytes := 7\<rparr>]\<rparr>]"]
    by (auto simp: demo_simps rm_init_def region_sh0_def)
qed

end
