(* ===== verification/Spec2Isabelle.thy ===== *)
theory Spec2Isabelle
  imports KV_Llama KV_Metrics KV_Roundtrip KV_Pins KV_Config KV_Acks
begin

text \<open>
  Verification library for kvtier, a tiered cache for the keys and values of language models: token
  groups are stored as chunks of pages on block devices, found through a radix tree of token hashes,
  and read back through a DRAM cache.

  \<^bold>\<open>The program and its parts.\<close>  \<open>cache_put\<close> hashes the tokens of each group into a path, interns the
  shape of the records, and queues one request (or one per replica or stripe) for a writer.  Each device
  has a writer thread, which collects requests from a bounded queue, lays their payloads out in a batch,
  writes the batch into the open region of the device, and on completion publishes a leaf for each request:
  the radix node of the path gets the leaf, the live bytes of the regions change, a journal record is
  appended, and the caller is acknowledged.  \<open>cache_get\<close> walks the tree under a lock, pins the leaf, reads
  from the DRAM cache or a device, checks the checksum and unpins.  The collector decays hit counts,
  expires leaves, trims empty regions, writes checkpoints and drops whole generations of regions.
  Opening a cache formats the devices, or loads the superblocks and region headers, the checkpoint and
  the journal.

  \<^bold>\<open>Theories and sources\<close> (paths are relative to \<open>src/\<close>).
  \<^item> \<open>KV_Prelude\<close>, \<open>KV_Common\<close>, \<open>KV_Codec\<close>: machine integers, byte buffers, the constants of
    \<open>include/kvtier.h\<close>, \<open>src/common.hpp\<close>, and the contract \<open>fixed_codec\<close> of the packed on-disk structs.
  \<^item> \<open>KV_Hash\<close> (\<open>src/hash.hpp\<close>), \<open>KV_Crc32\<close> (\<open>src/crc32.hpp\<close>), \<open>KV_Hist\<close> (histograms of
    \<open>src/metrics/metrics.cpp\<close>), \<open>KV_Cuckoo\<close> (\<open>src/cuckoo.cpp\<close>), \<open>KV_Model\<close> (\<open>src/model_profile.cpp\<close>).
  \<^item> \<open>KV_Probe\<close>: linear probing, the contract \<open>probe_table\<close> shared by the side table
    (\<open>KV_Side\<close>, \<open>src/cache.cpp\<close>) and the overflow tables of the radix nodes.
  \<^item> \<open>KV_Radix\<close>, \<open>KV_Radix_Node\<close>, \<open>KV_Radix_Tree\<close>, \<open>KV_Radix_Walk\<close>, \<open>KV_Radix_Visit\<close>: \<open>src/radix.cpp\<close>
    and \<open>src/hot.cpp\<close>; nodes live in a list and a pointer is an index.  \<open>KV_Forest\<close> has the contract
    \<open>rose_heap\<close> of recursive traversals.
  \<^item> \<open>KV_Device\<close> (\<open>src/device.cpp\<close>), \<open>KV_Io\<close> (\<open>src/io.cpp\<close>), \<open>KV_Region\<close> (\<open>src/region.cpp\<close>),
    \<open>KV_Journal\<close> and \<open>KV_Journal_Log\<close> (\<open>src/journal.cpp\<close>, first half), \<open>KV_Chunk\<close> (\<open>src/chunk.cpp\<close>),
    \<open>KV_Types\<close> (addresses and leaves of \<open>src/radix.hpp\<close>).
  \<^item> \<open>KV_Dram\<close> with \<open>KV_Dram_Links\<close>, \<open>KV_Dram_Inv\<close>, \<open>KV_Dram_Ops\<close>, \<open>KV_Dram_Api\<close>, \<open>KV_Dram_Spec\<close>:
    \<open>src/dram.cpp\<close> over an explicit store of blocks.
  \<^item> \<open>KV_Mpsc\<close>: the queue of \<open>src/writer.cpp\<close>, as operations and as a step relation on single memory
    accesses.
  \<^item> \<open>KV_Cache\<close> (the state, \<open>src/cache.hpp\<close>), \<open>KV_Leaf\<close> (leaves, tombstones, shapes and accounts of
    \<open>src/cache.cpp\<close>), \<open>KV_Ckpt\<close> (checkpoints, \<open>src/journal.cpp\<close>, second half), \<open>KV_Gc\<close> (\<open>src/gc.cpp\<close>),
    \<open>KV_Writer\<close> (\<open>src/writer.cpp\<close>), \<open>KV_Api\<close> (put, get, evict, statistics and migration of
    \<open>src/cache.cpp\<close>), \<open>KV_Open\<close> (opening, recovery and closing), \<open>KV_Metrics\<close> (the snapshot of
    \<open>src/metrics/metrics.cpp\<close>), \<open>KV_Llama\<close> (\<open>adapters/llama/src/llama-kvcache.cpp\<close>).
  \<^item> \<open>KV_Leaf_Inv\<close>, \<open>KV_Leaf_Ops\<close>, \<open>KV_Leaf_Region\<close>: the invariant \<open>cache_inv\<close> of the index and the
    accounts, kept by every operation on leaves and regions.  \<open>KV_Store\<close>, \<open>KV_Publish\<close>,
    \<open>KV_Demo\<close>, \<open>KV_Roundtrip\<close>, \<open>KV_Pins\<close>, \<open>KV_Acks\<close>, \<open>KV_Config\<close>: properties of whole operations.

  \<^bold>\<open>Conventions.\<close>  A struct is a record and its methods are functions on it; a stored or hashed integer is
  a word of its width, an in-memory size is a natural number, truncated where the code truncates; a return code is an
  integer.  A null pointer is \<^const>\<open>None\<close>.  The answers of the kernel and of the allocators are lists of outcomes
  consumed in order, an exhausted list meaning success; interning a shape takes an outcome whether or not the shape is
  in the pool already, which does not use it; the clock, the memory of callers and the contents of
  uninitialised buffers are arguments.  A model function with an option result is \<^const>\<open>None\<close> exactly where the code would
  not return, would abort, or would access memory out of bounds.

  \<^bold>\<open>What the theorems show.\<close>
  \<^item> Whole operations: a put is stored and acknowledged once, and every get in a sequence of gets of its group that follows
    returns it until it expires, from the device or from DRAM (\<open>KV_Roundtrip\<close>; the bytes are those the caller's buffers hold while
    the writer runs); leaves held by readers survive every interleaving of the operations that run under the
    lock, and the live bytes of the regions stay exact (\<open>KV_Pins\<close>); a put spread over several requests is acknowledged
    exactly once with its first error, and recounting the live bytes gives the incremental counts (\<open>KV_Acks\<close>); accepted
    configurations are well formed, and the values derived from a model profile are accepted (\<open>KV_Config\<close>).
  \<^item> The radix tree refines a set of paths; walks end, creation adds exactly the prefixes of a path, the
    traversals visit every node once and destruction frees everything once.  The side table refines a map.
  \<^item> Device writes survive short transfers; the superblock survives a torn write of the next one, and headers persist; the journal replays
    a prefix of what it accepted; chunks parse back and detect bursts.
  \<^item> The DRAM cache is memory safe in every reachable state, returns what was put, and evicts within its
    budget.  The cuckoo filter refines a multiset over every sequence of operations, and has no
    false negatives while no insertion gives up.  The queue is first in first out under every interleaving of memory
    accesses.  The CRC loop equals the bitwise definition.  Percentiles are within a factor of two.

  \<^bold>\<open>Bounds and fuel.\<close>  Recursions over the tree take the number of nodes as fuel and chains of the DRAM cache take
  \<open>dram_fuel\<close>, one more than the number of entries; the theorems show that this is enough.  The loop that collects a batch takes
  two steps more than a batch holds requests, and the loop that drains the queue at shutdown one more, after which the code would write
  past the array of requests.  The radix tree and the side table are bounded by \<open>2 ^ 26\<close> entries in the theorems, below the
  width of their counters.  Pins are bounded by the width of the reference count.  \<open>pow2_floor\<close> takes 33 doublings, one more
  than the width of its result.

  \<^bold>\<open>Not modelled.\<close>  The submission and completion rings shared with the kernel (\<open>src/io.cpp\<close>): their protocol is
  that of the kernel, and the contexts and the synchronous transport stand for them.  Locks and threads other than the
  queue: an operation under a lock is one step.  The field \<open>abi_size\<close> of the configuration, which
  nothing reads.  The clocks and \<open>fatal\<close> of \<open>src/common.cpp\<close>.  The floating-point ratios and the text
  output of the metrics.  The Python adapter for sglang (\<open>adapters/sglang\<close>), a binding through \<open>ctypes\<close>, and the
  command-line tools and examples, which only parse arguments and print.
\<close>

end
